(* ===== verification/Prelude.thy ===== *)
theory Prelude
  imports Main "HOL-Library.Word" "HOL-Library.Sublist"
    "HOL-Library.List_Lexorder" "HOL-Library.Char_ord"
begin

text \<open>
  Shared vocabulary of the winrsbox development: machine integers, Rust strings as byte
  strings, the functions of Rust's \<^verbatim>\<open>str\<close> and slice types that the sources call, and the
  generic list lemmas about them.

  A Rust \<^verbatim>\<open>&str\<close> is a sequence of UTF-8 bytes; it is modelled as \<^typ>\<open>string\<close>, one
  \<^typ>\<open>char\<close> per byte, so that \<^const>\<open>length\<close> is \<^verbatim>\<open>str::len\<close>, list equality is
  \<^verbatim>\<open>==\<close>, and the order of \<^verbatim>\<open>HOL-Library.List_Lexorder\<close> over
  \<^verbatim>\<open>HOL-Library.Char_ord\<close> is Rust's bytewise \<^verbatim>\<open>Ord\<close>. UTF-16 code units are
  \<^typ>\<open>16 word\<close>.
\<close>

unbundle bit_operations_syntax

type_synonym u8 = "8 word"
type_synonym u16 = "16 word"
type_synonym u32 = "32 word"
type_synonym u64 = "64 word"

named_theorems str_simps \<open>rewrite rules for the Rust string functions\<close>
named_theorems win_defs \<open>definitions unfolded to evaluate concrete Windows paths\<close>

section \<open>Characters\<close>

abbreviation bslash :: char where "bslash \<equiv> CHR 0x5C"
abbreviation fslash :: char where "fslash \<equiv> CHR ''/''"
abbreviation dot :: char where "dot \<equiv> CHR ''.''"
abbreviation colon :: char where "colon \<equiv> CHR '':''"

text \<open>
  Isabelle string literals cannot hold a backslash; \<open>win\<close> reads a literal in which the
  character \<open>|\<close> (illegal in Windows file names) stands for it.
\<close>

definition win :: "string \<Rightarrow> string" where
  [win_defs]: "win s = map (\<lambda>c. if c = CHR ''|'' then bslash else c) s"

definition is_sep :: "char \<Rightarrow> bool" where
  [win_defs]: "is_sep c \<longleftrightarrow> c = bslash \<or> c = fslash"

definition is_ascii_char :: "char \<Rightarrow> bool" where
  [win_defs]: "is_ascii_char c \<longleftrightarrow> of_char c < (128::nat)"

definition is_ascii :: "string \<Rightarrow> bool" where
  [win_defs]: "is_ascii s \<longleftrightarrow> list_all is_ascii_char s"

definition is_ascii_uppercase :: "char \<Rightarrow> bool" where
  [win_defs]: "is_ascii_uppercase c \<longleftrightarrow> (65::nat) \<le> of_char c \<and> of_char c \<le> (90::nat)"

definition is_ascii_lowercase :: "char \<Rightarrow> bool" where
  [win_defs]: "is_ascii_lowercase c \<longleftrightarrow> (97::nat) \<le> of_char c \<and> of_char c \<le> (122::nat)"

definition is_ascii_alphabetic :: "char \<Rightarrow> bool" where
  [win_defs]: "is_ascii_alphabetic c \<longleftrightarrow> is_ascii_uppercase c \<or> is_ascii_lowercase c"

definition is_ascii_digit :: "char \<Rightarrow> bool" where
  [win_defs]: "is_ascii_digit c \<longleftrightarrow> (48::nat) \<le> of_char c \<and> of_char c \<le> (57::nat)"

definition ascii_lower :: "char \<Rightarrow> char" where
  [win_defs]: "ascii_lower c = (if is_ascii_uppercase c then char_of (of_char c + (32::nat)) else c)"

text \<open>Rust's \<^verbatim>\<open>str::to_ascii_lowercase\<close> and \<^verbatim>\<open>str::eq_ignore_ascii_case\<close>.\<close>

definition to_ascii_lowercase :: "string \<Rightarrow> string" where
  [win_defs]: "to_ascii_lowercase s = map ascii_lower s"

definition eq_ignore_ascii_case :: "string \<Rightarrow> string \<Rightarrow> bool" where
  [win_defs]: "eq_ignore_ascii_case a b \<longleftrightarrow> to_ascii_lowercase a = to_ascii_lowercase b"

lemma of_char_ascii_lower:
  "(of_char (ascii_lower c) :: nat) =
     (if is_ascii_uppercase c then of_char c + 32 else of_char c)"
  by (simp add: ascii_lower_def is_ascii_uppercase_def of_char_mod_256)

lemma ascii_lower_not_upper [simp]: "\<not> is_ascii_uppercase (ascii_lower c)"
  by (simp add: is_ascii_uppercase_def of_char_ascii_lower)

lemma ascii_lower_id [simp]: "\<not> is_ascii_uppercase c \<Longrightarrow> ascii_lower c = c"
  by (simp add: ascii_lower_def)

lemma ascii_lower_idem [simp]: "ascii_lower (ascii_lower c) = ascii_lower c"
  by simp

lemma ascii_lower_ascii [simp]: "is_ascii_char (ascii_lower c) = is_ascii_char c"
  by (simp add: is_ascii_char_def of_char_ascii_lower is_ascii_uppercase_def)

lemma to_ascii_lowercase_idem [simp]:
  "to_ascii_lowercase (to_ascii_lowercase s) = to_ascii_lowercase s"
  by (simp add: to_ascii_lowercase_def)

lemma length_to_ascii_lowercase [simp]: "length (to_ascii_lowercase s) = length s"
  by (simp add: to_ascii_lowercase_def)

lemma to_ascii_lowercase_append [simp]:
  "to_ascii_lowercase (s @ t) = to_ascii_lowercase s @ to_ascii_lowercase t"
  by (simp add: to_ascii_lowercase_def)

lemma is_ascii_to_ascii_lowercase [simp]: "is_ascii (to_ascii_lowercase s) = is_ascii s"
  by (simp add: is_ascii_def to_ascii_lowercase_def list_all_iff)

lemma to_ascii_lowercase_id:
  "list_all (\<lambda>c. \<not> is_ascii_uppercase c) s \<Longrightarrow> to_ascii_lowercase s = s"
  by (simp add: to_ascii_lowercase_def list_all_iff map_idI)

lemma ascii_lower_eq_iff:
  "\<not> is_ascii_alphabetic d \<Longrightarrow> ascii_lower c = d \<longleftrightarrow> c = d"
proof -
  assume d: "\<not> is_ascii_alphabetic d"
  show ?thesis
  proof (cases "is_ascii_uppercase c")
    case True
    then have "is_ascii_lowercase (ascii_lower c)"
      by (simp add: is_ascii_lowercase_def of_char_ascii_lower is_ascii_uppercase_def)
    with d True show ?thesis by (auto simp: is_ascii_alphabetic_def)
  next
    case False
    then show ?thesis by simp
  qed
qed

lemma ascii_lower_special [simp]:
  "ascii_lower c = bslash \<longleftrightarrow> c = bslash"
  "ascii_lower c = fslash \<longleftrightarrow> c = fslash"
  "ascii_lower c = dot \<longleftrightarrow> c = dot"
  "ascii_lower c = colon \<longleftrightarrow> c = colon"
  by (rule ascii_lower_eq_iff; simp add: is_ascii_alphabetic_def is_ascii_uppercase_def
        is_ascii_lowercase_def)+

section \<open>Splitting and joining\<close>

text \<open>\<^verbatim>\<open>str::split\<close> and slice \<^verbatim>\<open>split\<close>: always at least one segment.\<close>

fun split_by :: "('a \<Rightarrow> bool) \<Rightarrow> 'a list \<Rightarrow> 'a list list" where
  "split_by p [] = [[]]"
| "split_by p (x # xs) =
     (if p x then [] # split_by p xs
      else (case split_by p xs of [] \<Rightarrow> [[x]] | y # ys \<Rightarrow> (x # y) # ys))"

fun join_with :: "'a \<Rightarrow> 'a list list \<Rightarrow> 'a list" where
  "join_with s [] = []"
| "join_with s [x] = x"
| "join_with s (x # y # ys) = x @ s # join_with s (y # ys)"

lemma split_by_nonempty [simp]: "split_by p s \<noteq> []"
  by (cases s) (auto split: list.splits)

lemma split_by_cases:
  obtains y ys where "split_by p s = y # ys"
  using split_by_nonempty by (metis neq_Nil_conv)

lemma split_by_no_sep: "\<forall>x\<in>set s. \<not> p x \<Longrightarrow> split_by p s = [s]"
  by (induction s) auto

lemma split_by_segments_free: "seg \<in> set (split_by p s) \<Longrightarrow> x \<in> set seg \<Longrightarrow> \<not> p x"
proof (induction s arbitrary: seg)
  case Nil
  then show ?case by simp
next
  case (Cons c s)
  obtain y ys where y: "split_by p s = y # ys" by (rule split_by_cases)
  with Cons.IH have "\<forall>g\<in>set (y # ys). \<forall>z\<in>set g. p z \<longrightarrow> z \<noteq> x" by auto
  with Cons.prems y show ?case by (auto split: if_splits)
qed

lemma split_by_append_sep: "p x \<Longrightarrow> split_by p (s @ x # t) = split_by p s @ split_by p t"
proof (induction s)
  case Nil
  then show ?case by simp
next
  case (Cons c s)
  then show ?case by (cases "split_by p s") auto
qed

lemma split_by_snoc_sep: "p x \<Longrightarrow> split_by p (s @ [x]) = split_by p s @ [[]]"
  using split_by_append_sep [of p x s "[]"] by simp

lemma split_by_prefix_free:
  "\<forall>x\<in>set a. \<not> p x \<Longrightarrow>
   split_by p (a @ s) = (a @ hd (split_by p s)) # tl (split_by p s)"
proof (induction a)
  case Nil
  then show ?case by (cases "split_by p s") simp_all
next
  case (Cons c a)
  then show ?case by (cases "split_by p s") simp_all
qed

lemma split_by_in_set: "seg \<in> set (split_by p s) \<Longrightarrow> set seg \<subseteq> set s"
proof (induction s arbitrary: seg)
  case Nil
  then show ?case by simp
next
  case (Cons c s)
  then show ?case by (cases "split_by p s") (force split: if_splits)+
qed

lemma join_split [simp]: "join_with s (split_by (\<lambda>c. c = s) xs) = xs"
proof (induction xs)
  case Nil
  then show ?case by simp
next
  case (Cons c xs)
  obtain y ys where "split_by (\<lambda>c. c = s) xs = y # ys" by (rule split_by_cases)
  with Cons show ?case by (cases ys) auto
qed

lemma split_join:
  "segs \<noteq> [] \<Longrightarrow> \<forall>g\<in>set segs. s \<notin> set g \<Longrightarrow>
   split_by (\<lambda>c. c = s) (join_with s segs) = segs"
proof (induction s segs rule: join_with.induct)
  case (2 s x)
  then show ?case by (auto intro: split_by_no_sep)
next
  case (3 s x y ys)
  then have x: "split_by (\<lambda>c. c = s) x = [x]"
    by (intro split_by_no_sep) auto
  from 3 show ?case by (simp add: split_by_append_sep x)
qed simp

lemma split_by_inj:
  "split_by (\<lambda>c. c = s) a = split_by (\<lambda>c. c = s) b \<longleftrightarrow> a = b"
  by (metis join_split)

lemma join_with_append:
  "xs \<noteq> [] \<Longrightarrow> ys \<noteq> [] \<Longrightarrow> join_with s (xs @ ys) = join_with s xs @ s # join_with s ys"
proof (induction s xs rule: join_with.induct)
  case (2 s x)
  then show ?case by (cases ys) auto
qed auto

section \<open>Prefixes, suffixes and trimming\<close>

text \<open>\<^verbatim>\<open>strip_prefix\<close>, \<^verbatim>\<open>starts_with\<close>, \<^verbatim>\<open>ends_with\<close>, \<^verbatim>\<open>contains\<close>, the
  \<^verbatim>\<open>trim_*_matches\<close> functions and \<^verbatim>\<open>rsplit_once\<close>.\<close>

fun strip_prefix :: "'a list \<Rightarrow> 'a list \<Rightarrow> 'a list option" where
  "strip_prefix [] s = Some s"
| "strip_prefix (p # ps) [] = None"
| "strip_prefix (p # ps) (c # cs) = (if p = c then strip_prefix ps cs else None)"

definition starts_with :: "'a list \<Rightarrow> 'a list \<Rightarrow> bool" where
  [win_defs]: "starts_with s p \<longleftrightarrow> take (length p) s = p"

definition ends_with :: "'a list \<Rightarrow> 'a list \<Rightarrow> bool" where
  [win_defs]: "ends_with s p \<longleftrightarrow> length p \<le> length s \<and> drop (length s - length p) s = p"

fun str_contains :: "'a list \<Rightarrow> 'a list \<Rightarrow> bool" where
  "str_contains [] p = (p = [])"
| "str_contains (c # cs) p = (starts_with (c # cs) p \<or> str_contains cs p)"

definition trim_start_matches :: "('a \<Rightarrow> bool) \<Rightarrow> 'a list \<Rightarrow> 'a list" where
  [win_defs]: "trim_start_matches p s = dropWhile p s"

definition trim_end_matches :: "('a \<Rightarrow> bool) \<Rightarrow> 'a list \<Rightarrow> 'a list" where
  [win_defs]: "trim_end_matches p s = rev (dropWhile p (rev s))"

definition rsplit_once :: "'a \<Rightarrow> 'a list \<Rightarrow> ('a list \<times> 'a list) option" where
  [win_defs]: "rsplit_once c s =
     (if c \<in> set s
      then let n = takeWhile (\<lambda>x. x \<noteq> c) (rev s)
           in Some (rev (drop (Suc (length n)) (rev s)), rev n)
      else None)"

definition split_once :: "'a \<Rightarrow> 'a list \<Rightarrow> ('a list \<times> 'a list) option" where
  [win_defs]: "split_once c s =
     (if c \<in> set s
      then Some (takeWhile (\<lambda>x. x \<noteq> c) s, tl (dropWhile (\<lambda>x. x \<noteq> c) s))
      else None)"

lemma strip_prefix_Some [str_simps]: "strip_prefix p s = Some r \<longleftrightarrow> s = p @ r"
  by (induction p s rule: strip_prefix.induct) auto

lemma strip_prefix_append [simp]: "strip_prefix p (p @ r) = Some r"
  by (simp add: strip_prefix_Some)

lemma starts_with_iff [str_simps]: "starts_with s p \<longleftrightarrow> (\<exists>r. s = p @ r)"
  unfolding starts_with_def by (metis append_take_drop_id append_eq_conv_conj)

lemma starts_with_prefix: "starts_with s p \<longleftrightarrow> prefix p s"
  by (simp add: starts_with_iff prefix_def)

lemma starts_with_append [simp]: "starts_with (p @ r) p"
  by (simp add: starts_with_def)

lemma ends_with_iff [str_simps]: "ends_with s p \<longleftrightarrow> (\<exists>r. s = r @ p)"
  unfolding ends_with_def
  by (auto, metis append_take_drop_id)

lemma trim_end_matches_append:
  "trim_end_matches p (s @ [x]) = (if p x then trim_end_matches p s else s @ [x])"
  by (simp add: trim_end_matches_def)

lemma trim_end_matches_Nil [simp]: "trim_end_matches p [] = []"
  by (simp add: trim_end_matches_def)

lemma trim_end_matches_id: "s = [] \<or> \<not> p (last s) \<Longrightarrow> trim_end_matches p s = s"
  by (cases s rule: rev_cases) (auto simp: trim_end_matches_append)

lemma trim_end_matches_last: "trim_end_matches p s \<noteq> [] \<Longrightarrow> \<not> p (last (trim_end_matches p s))"
  by (induction s rule: rev_induct) (auto simp: trim_end_matches_append)

lemma trim_end_matches_idem [simp]:
  "trim_end_matches p (trim_end_matches p s) = trim_end_matches p s"
  using trim_end_matches_id [of "trim_end_matches p s" p] trim_end_matches_last [of p s] by blast

lemma trim_end_matches_decomp:
  obtains t where "s = trim_end_matches p s @ t" and "\<forall>x\<in>set t. p x"
proof -
  have "s = trim_end_matches p s @ rev (takeWhile p (rev s))"
    unfolding trim_end_matches_def
    by (metis rev_append rev_rev_ident takeWhile_dropWhile_id)
  moreover have "\<forall>x\<in>set (rev (takeWhile p (rev s))). p x"
    by (auto dest: set_takeWhileD)
  ultimately show ?thesis by (rule that)
qed

lemma rsplit_once_Some [str_simps]:
  "rsplit_once c s = Some (a, b) \<longleftrightarrow> s = a @ c # b \<and> c \<notin> set b"
proof
  assume h: "rsplit_once c s = Some (a, b)"
  define n where "n = takeWhile (\<lambda>x. x \<noteq> c) (rev s)"
  define d where "d = dropWhile (\<lambda>x. x \<noteq> c) (rev s)"
  from h have cin: "c \<in> set (rev s)" and a: "a = rev (drop (Suc (length n)) (rev s))" and b: "b = rev n"
    by (auto simp: rsplit_once_def n_def Let_def split: if_splits)
  from cin have "d \<noteq> []" unfolding d_def by auto
  then have hd: "hd d = c" unfolding d_def by (metis (mono_tags, lifting) hd_dropWhile)
  have rs: "rev s = n @ d" unfolding n_def d_def by simp
  then have "drop (Suc (length n)) (rev s) = tl d" by (simp add: drop_Suc tl_drop)
  with a have "rev a = tl d" by simp
  with rs hd \<open>d \<noteq> []\<close> have "rev s = n @ c # rev a" by (metis list.collapse)
  then have "s = a @ c # b" using b by (metis rev_append rev.simps(2) rev_rev_ident append_assoc append.simps)
  moreover have "c \<notin> set b" using b by (auto simp: n_def dest: set_takeWhileD)
  ultimately show "s = a @ c # b \<and> c \<notin> set b" by simp
next
  assume h: "s = a @ c # b \<and> c \<notin> set b"
  then have "takeWhile (\<lambda>x. x \<noteq> c) (rev s) = rev b"
    by (auto simp: takeWhile_append2 takeWhile_tail)
  with h show "rsplit_once c s = Some (a, b)"
    by (simp add: rsplit_once_def Let_def)
qed

lemma rsplit_once_None [str_simps]: "rsplit_once c s = None \<longleftrightarrow> c \<notin> set s"
  by (simp add: rsplit_once_def Let_def)

lemma split_once_Some [str_simps]:
  "split_once c s = Some (a, b) \<longleftrightarrow> s = a @ c # b \<and> c \<notin> set a"
proof
  assume h: "split_once c s = Some (a, b)"
  then have cin: "c \<in> set s" and a: "a = takeWhile (\<lambda>x. x \<noteq> c) s"
    and b: "b = tl (dropWhile (\<lambda>x. x \<noteq> c) s)"
    by (auto simp: split_once_def split: if_splits)
  from cin have ne: "dropWhile (\<lambda>x. x \<noteq> c) s \<noteq> []" by simp
  then have "hd (dropWhile (\<lambda>x. x \<noteq> c) s) = c" by (metis (mono_tags, lifting) hd_dropWhile)
  with ne b have "dropWhile (\<lambda>x. x \<noteq> c) s = c # b" by (metis list.collapse)
  with a show "s = a @ c # b \<and> c \<notin> set a"
    by (metis set_takeWhileD takeWhile_dropWhile_id)
next
  assume h: "s = a @ c # b \<and> c \<notin> set a"
  then have "takeWhile (\<lambda>x. x \<noteq> c) s = a" and "dropWhile (\<lambda>x. x \<noteq> c) s = c # b"
    by (auto simp: takeWhile_append2 takeWhile_tail dropWhile_append1 dropWhile_append3)
  with h show "split_once c s = Some (a, b)" by (simp add: split_once_def)
qed

section \<open>Options\<close>

text \<open>\<^verbatim>\<open>Option::or\<close> and \<^verbatim>\<open>Option::unwrap_or\<close>.\<close>

definition option_or :: "'a option \<Rightarrow> 'a option \<Rightarrow> 'a option" where
  "option_or a b = (case a of None \<Rightarrow> b | Some x \<Rightarrow> Some x)"

definition unwrap_or :: "'a option \<Rightarrow> 'a \<Rightarrow> 'a" where
  "unwrap_or a d = (case a of None \<Rightarrow> d | Some x \<Rightarrow> x)"

lemma option_or_simps [simp]: "option_or None b = b" "option_or (Some x) b = Some x"
  by (simp_all add: option_or_def)

lemma unwrap_or_simps [simp]: "unwrap_or None d = d" "unwrap_or (Some x) d = x"
  by (simp_all add: unwrap_or_def)

section \<open>Ordered maps\<close>

text \<open>A \<^verbatim>\<open>BTreeMap\<close> is an association list sorted by key.\<close>

fun btree_insert :: "'k::linorder \<Rightarrow> 'v \<Rightarrow> ('k \<times> 'v) list \<Rightarrow> ('k \<times> 'v) list" where
  "btree_insert k v [] = [(k, v)]"
| "btree_insert k v ((k', v') # m) =
     (if k < k' then (k, v) # (k', v') # m
      else if k = k' then (k, v) # m
      else (k', v') # btree_insert k v m)"

fun btree_remove :: "'k \<Rightarrow> ('k \<times> 'v) list \<Rightarrow> ('k \<times> 'v) list" where
  "btree_remove k [] = []"
| "btree_remove k ((k', v') # m) = (if k = k' then btree_remove k m else (k', v') # btree_remove k m)"

lemma map_of_btree_insert [simp]: "map_of (btree_insert k v m) = (map_of m)(k \<mapsto> v)"
  by (induction k v m rule: btree_insert.induct) (auto simp: fun_eq_iff)

lemma set_btree_insert: "fst ` set (btree_insert k v m) = insert k (fst ` set m)"
  by (induction k v m rule: btree_insert.induct) auto

lemma btree_insert_sorted:
  "sorted_wrt (<) (map fst m) \<Longrightarrow> sorted_wrt (<) (map fst (btree_insert k v m))"
proof (induction k v m rule: btree_insert.induct)
  case (2 k v k' v' m)
  have s: "set (map fst (btree_insert k v m)) = insert k (fst ` set m)"
    using set_btree_insert [of k v m] by simp
  show ?case using 2 s by auto
qed simp

lemma btree_remove_filter: "btree_remove k m = filter (\<lambda>(k', v). k' \<noteq> k) m"
  by (induction k m rule: btree_remove.induct) auto

lemma map_of_btree_remove [simp]: "map_of (btree_remove k m) = (map_of m)(k := None)"
  by (induction k m rule: btree_remove.induct) (auto simp: fun_eq_iff)

lemma btree_remove_sorted:
  "sorted_wrt (<) (map fst m) \<Longrightarrow> sorted_wrt (<) (map fst (btree_remove k m))"
  by (induction k m rule: btree_remove.induct) (auto simp: btree_remove_filter)

text \<open>Two maps with the same sorted domain and the same lookups are the same list.\<close>

lemma sorted_map_of_eq:
  fixes xs ys :: "('k::linorder \<times> 'v) list"
  assumes "sorted_wrt (<) (map fst xs)" "sorted_wrt (<) (map fst ys)" "map_of xs = map_of ys"
  shows "xs = ys"
proof -
  have d: "distinct (map fst xs)" "distinct (map fst ys)"
    using assms(1,2) by (auto simp: strict_sorted_iff)
  have "set (map fst xs) = set (map fst ys)"
    using arg_cong [OF assms(3), of dom] by (simp add: dom_map_of_conv_image_fst)
  moreover have "sorted (map fst xs)" "sorted (map fst ys)"
    using assms(1,2) by (auto simp: strict_sorted_iff)
  ultimately have "map fst xs = map fst ys" using d by (intro sorted_distinct_set_unique)
  then have f: "fst (xs ! i) = fst (ys ! i)" and l: "length xs = length ys" if "i < length xs" for i
    using that by (metis length_map nth_map, metis length_map)
  show ?thesis
  proof (rule nth_equalityI)
    show "length xs = length ys" using \<open>map fst xs = map fst ys\<close> by (rule map_eq_imp_length_eq)
  next
    fix i assume i: "i < length xs"
    have "map_of xs (fst (xs ! i)) = Some (snd (xs ! i))"
      using d(1) i by (simp add: map_of_eq_Some_iff)
    moreover have "map_of ys (fst (ys ! i)) = Some (snd (ys ! i))"
      using d(2) i l [OF i] by (simp add: map_of_eq_Some_iff)
    ultimately show "xs ! i = ys ! i" using f [OF i] assms(3) by (metis option.inject prod.collapse)
  qed
qed

end
