(* ===== verification/CaseFold.thy ===== *)
theory CaseFold
  imports Prelude
begin

text \<open>
  The canonical NTFS-identity case fold of \<^verbatim>\<open>winrsbox-policy/src/path/case_fold.rs\<close> and the
  UTF-8/UTF-16 conversions of the Rust standard library it goes through.

  The fold of one UTF-16 unit is \<^verbatim>\<open>RtlDowncaseUnicodeChar(RtlUpcaseUnicodeChar(c))\<close> with
  both functions resolved from ntdll at run time. They are not part of this repository, and
  neither are the Unicode tables behind \<^verbatim>\<open>char::to_uppercase\<close>: all of them are fields of the
  record \<open>platform\<close>, an argument of every definition that uses them.
\<close>

record platform =
  rtl_case_fns :: "((u16 \<Rightarrow> u16) \<times> (u16 \<Rightarrow> u16)) option"
    \<comment> \<open>what \<^verbatim>\<open>rtl_case_fns()\<close> resolved: the upcase and the downcase table of ntdll\<close>
  char_to_uppercase :: "nat \<Rightarrow> nat" \<comment> \<open>\<^verbatim>\<open>char::to_uppercase().next()\<close>\<close>
  char_to_lowercase :: "nat \<Rightarrow> nat" \<comment> \<open>\<^verbatim>\<open>char::to_lowercase().next()\<close>\<close>

section \<open>UTF-8 and UTF-16\<close>

definition is_scalar :: "nat \<Rightarrow> bool" where
  "is_scalar n \<longleftrightarrow> n < 0xD800 \<or> 0xE000 \<le> n \<and> n < 0x110000"

definition utf8_enc1 :: "nat \<Rightarrow> string" where
  "utf8_enc1 n =
     (if n < 0x80 then [char_of n]
      else if n < 0x800 then [char_of (0xC0 + n div 64), char_of (0x80 + n mod 64)]
      else if n < 0x10000 then
        [char_of (0xE0 + n div 4096), char_of (0x80 + n div 64 mod 64), char_of (0x80 + n mod 64)]
      else
        [char_of (0xF0 + n div 262144), char_of (0x80 + n div 4096 mod 64),
         char_of (0x80 + n div 64 mod 64), char_of (0x80 + n mod 64)])"

definition utf8_encode :: "nat list \<Rightarrow> string" where
  "utf8_encode cs = concat (map utf8_enc1 cs)"

text \<open>The code points of a \<^verbatim>\<open>&str\<close> (\<^verbatim>\<open>str::chars\<close>), whose bytes are valid UTF-8; a truncated
  sequence, which no \<^verbatim>\<open>&str\<close> holds, decodes to U+FFFD.\<close>

fun utf8_decode :: "string \<Rightarrow> nat list" where
  "utf8_decode [] = []"
| "utf8_decode (a # s) =
     (let x = of_char a :: nat in
      if x < 0x80 then x # utf8_decode s
      else if x < 0xE0 then
        (case s of b # s' \<Rightarrow> ((x - 0xC0) * 64 + (of_char b - 0x80)) # utf8_decode s'
         | _ \<Rightarrow> [0xFFFD])
      else if x < 0xF0 then
        (case s of b # c # s' \<Rightarrow>
           ((x - 0xE0) * 4096 + (of_char b - 0x80) * 64 + (of_char c - 0x80)) # utf8_decode s'
         | _ \<Rightarrow> [0xFFFD])
      else
        (case s of b # c # d # s' \<Rightarrow>
           ((x - 0xF0) * 262144 + (of_char b - 0x80) * 4096 + (of_char c - 0x80) * 64
             + (of_char d - 0x80)) # utf8_decode s'
         | _ \<Rightarrow> [0xFFFD]))"

definition valid_utf8 :: "string \<Rightarrow> bool" where
  "valid_utf8 s \<longleftrightarrow> utf8_encode (utf8_decode s) = s \<and> list_all is_scalar (utf8_decode s)"

definition utf16_enc1 :: "nat \<Rightarrow> u16 list" where
  "utf16_enc1 n =
     (if n < 0x10000 then [of_nat n]
      else [of_nat (0xD800 + (n - 0x10000) div 1024), of_nat (0xDC00 + (n - 0x10000) mod 1024)])"

text \<open>\<^verbatim>\<open>str::encode_utf16\<close> and \<^verbatim>\<open>String::from_utf16_lossy\<close> on code points.\<close>

definition encode_utf16 :: "nat list \<Rightarrow> u16 list" where
  "encode_utf16 cs = concat (map utf16_enc1 cs)"

fun decode_utf16_lossy :: "u16 list \<Rightarrow> nat list" where
  "decode_utf16_lossy [] = []"
| "decode_utf16_lossy (u # us) =
     (let n = unat u in
      if n < 0xD800 \<or> 0xE000 \<le> n then n # decode_utf16_lossy us
      else if n < 0xDC00 then
        (case us of
           v # us' \<Rightarrow>
             if 0xDC00 \<le> unat v \<and> unat v < 0xE000
             then (0x10000 + (n - 0xD800) * 1024 + (unat v - 0xDC00)) # decode_utf16_lossy us'
             else 0xFFFD # decode_utf16_lossy us
         | [] \<Rightarrow> [0xFFFD])
      else 0xFFFD # decode_utf16_lossy us)"

definition from_utf16_lossy :: "u16 list \<Rightarrow> string" where
  "from_utf16_lossy us = utf8_encode (decode_utf16_lossy us)"

lemma base64_digits:
  "n div 4096 * 4096 + n div 64 mod 64 * 64 + n mod 64 = (n::nat)"
  "n div 262144 * 262144 + n div 4096 mod 64 * 4096 + n div 64 mod 64 * 64 + n mod 64 = (n::nat)"
proof -
  have d: "n div 4096 = n div 64 div 64" "n div 262144 = n div 64 div 64 div 64"
    by (simp_all flip: div_mult2_eq)
  show "n div 4096 * 4096 + n div 64 mod 64 * 64 + n mod 64 = n"
    unfolding d using div_mult_mod_eq [of n 64] div_mult_mod_eq [of "n div 64" 64] by linarith
  show "n div 262144 * 262144 + n div 4096 mod 64 * 4096 + n div 64 mod 64 * 64 + n mod 64 = n"
    unfolding d using div_mult_mod_eq [of n 64] div_mult_mod_eq [of "n div 64" 64]
      div_mult_mod_eq [of "n div 64 div 64" 64] by linarith
qed

lemma utf8_decode_enc1: "is_scalar n \<Longrightarrow> utf8_decode (utf8_enc1 n @ s) = n # utf8_decode s"
proof -
  assume n: "is_scalar n"
  consider "n < 0x80" | "0x80 \<le> n" "n < 0x800" | "0x800 \<le> n" "n < 0x10000"
    | "0x10000 \<le> n" "n < 0x110000"
    using n unfolding is_scalar_def by linarith
  then show ?thesis
  proof cases
    case 1
    then show ?thesis by (simp add: utf8_enc1_def)
  next
    case 2
    then have "192 + n div 64 < 224" by simp
    with 2 show ?thesis by (simp add: utf8_enc1_def Let_def)
  next
    case 3
    then have "224 + n div 4096 < 240" by simp
    with 3 show ?thesis using base64_digits(1) [of n] by (simp add: utf8_enc1_def Let_def)
  next
    case 4
    then have "240 + n div 262144 < 256" by simp
    with 4 show ?thesis using base64_digits(2) [of n] by (simp add: utf8_enc1_def Let_def)
  qed
qed

lemma utf8_decode_encode: "list_all is_scalar cs \<Longrightarrow> utf8_decode (utf8_encode cs) = cs"
  by (induction cs) (simp_all add: utf8_encode_def utf8_decode_enc1)

lemma valid_utf8_encode [simp]: "list_all is_scalar cs \<Longrightarrow> valid_utf8 (utf8_encode cs)"
  by (simp add: valid_utf8_def utf8_decode_encode)

lemma unat_of_nat_u16: "n < 65536 \<Longrightarrow> unat (of_nat n :: u16) = n"
  by (simp add: unat_of_nat take_bit_nat_eq_self)

lemma unat_u16_less [simp]: "unat (u :: u16) < 65536"
  using unsigned_less [where 'a = nat, of u] by simp

lemma utf16_decode_enc1:
  "is_scalar n \<Longrightarrow> decode_utf16_lossy (utf16_enc1 n @ us) = n # decode_utf16_lossy us"
proof -
  assume n: "is_scalar n"
  show ?thesis
  proof (cases "n < 0x10000")
    case True
    with n show ?thesis by (simp add: utf16_enc1_def is_scalar_def unat_of_nat take_bit_nat_eq_self)
  next
    case False
    with n have b: "(n - 0x10000) div 1024 < 1024" by (simp add: is_scalar_def)
    have "0x10000 + (n - 0x10000) div 1024 * 1024 + (n - 0x10000) mod 1024 = n"
      using False by presburger
    moreover have "unat (of_nat (0xD800 + (n - 0x10000) div 1024) :: u16) = 0xD800 + (n - 0x10000) div 1024"
      using b by (intro unat_of_nat_u16) simp
    moreover have "unat (of_nat (0xDC00 + (n - 0x10000) mod 1024) :: u16) = 0xDC00 + (n - 0x10000) mod 1024"
      by (rule unat_of_nat_u16) (simp add: less_trans [OF mod_less_divisor])
    ultimately show ?thesis
      using False b by (simp add: utf16_enc1_def Let_def del: of_nat_add of_nat_numeral)
  qed
qed

lemma utf16_decode_encode: "list_all is_scalar cs \<Longrightarrow> decode_utf16_lossy (encode_utf16 cs) = cs"
  by (induction cs) (simp_all add: encode_utf16_def utf16_decode_enc1)

lemma decode_utf16_scalars: "list_all is_scalar (decode_utf16_lossy us)"
proof (induction us rule: decode_utf16_lossy.induct)
  case (2 u us)
  have u: "unat u < 1114112" using unat_u16_less [of u] by linarith
  show ?case
  proof (cases us)
    case Nil
    with 2 u show ?thesis by (auto simp: Let_def is_scalar_def)
  next
    case (Cons v vs)
    with 2 u show ?thesis by (simp add: Let_def is_scalar_def) linarith
  qed
qed simp

section \<open>The fold\<close>

text \<open>
  \<^verbatim>\<open>fold_u16_unit\<close>: surrogates are returned unchanged, every other unit goes through the two
  ntdll tables, or, when they did not resolve, through Rust's own case mapping.
\<close>

definition fold_u16_unit :: "'a platform_scheme \<Rightarrow> u16 \<Rightarrow> u16" where
  "fold_u16_unit pf c =
     (if 0xD800 \<le> c \<and> c \<le> 0xDFFF then c
      else (case rtl_case_fns pf of
          Some (up, down) \<Rightarrow> down (up c)
        | None \<Rightarrow>
            (let l = char_to_lowercase pf (char_to_uppercase pf (unat c))
             in if l < 0x10000 then of_nat l else c)))"

definition nt_case_fold_utf16 :: "'a platform_scheme \<Rightarrow> u16 list \<Rightarrow> u16 list" where
  "nt_case_fold_utf16 pf units = map (fold_u16_unit pf) units"

definition nt_case_fold :: "'a platform_scheme \<Rightarrow> string \<Rightarrow> string" where
  "nt_case_fold pf s =
     (if is_ascii s then
        if list_all (\<lambda>b. \<not> is_ascii_uppercase b) s then s else to_ascii_lowercase s
      else from_utf16_lossy (map (fold_u16_unit pf) (encode_utf16 (utf8_decode s))))"

text \<open>\<^verbatim>\<open>ensure_lower\<close> of \<^verbatim>\<open>lib.rs\<close>.\<close>

definition ensure_lower :: "'a platform_scheme \<Rightarrow> string \<Rightarrow> string" where
  "ensure_lower pf s = nt_case_fold pf s"

text \<open>
  What the module documentation relies on about the platform tables: ASCII units fold as
  \<^verbatim>\<open>to_ascii_lowercase\<close>, a unit outside the surrogate range folds to a unit outside it, and
  a folded unit is its own fold.
\<close>

definition fold_lawful :: "'a platform_scheme \<Rightarrow> bool" where
  "fold_lawful pf \<longleftrightarrow>
     (\<forall>c. is_ascii_char c \<longrightarrow> fold_u16_unit pf (of_char c) = of_char (ascii_lower c)) \<and>
     (\<forall>u. (u < 0xD800 \<or> 0xDFFF < u) \<longrightarrow> (fold_u16_unit pf u < 0xD800 \<or> 0xDFFF < fold_u16_unit pf u)) \<and>
     (\<forall>u. fold_u16_unit pf (fold_u16_unit pf u) = fold_u16_unit pf u)"

text \<open>The fold read on code points: astral code points are fixed, the others fold as units.\<close>

definition fold_scalar :: "'a platform_scheme \<Rightarrow> nat \<Rightarrow> nat" where
  "fold_scalar pf n = (if n < 0x10000 then unat (fold_u16_unit pf (of_nat n)) else n)"

lemma u16_bounds: "(u :: u16) < 0xD800 \<longleftrightarrow> unat u < 0xD800" "0xDFFF < (u :: u16) \<longleftrightarrow> 0xE000 \<le> unat u"
  "0xD800 \<le> (u :: u16) \<longleftrightarrow> 0xD800 \<le> unat u" "(u :: u16) \<le> 0xDFFF \<longleftrightarrow> unat u < 0xE000"
  by (auto simp: word_less_nat_alt word_le_nat_alt)

lemma fold_scalar_scalar: "fold_lawful pf \<Longrightarrow> is_scalar n \<Longrightarrow> is_scalar (fold_scalar pf n)"
proof -
  assume law: "fold_lawful pf" and n: "is_scalar n"
  show ?thesis
  proof (cases "n < 0x10000")
    case True
    with n have "(of_nat n :: u16) < 0xD800 \<or> 0xDFFF < (of_nat n :: u16)"
      by (auto simp: u16_bounds unat_of_nat_u16 is_scalar_def)
    with law have "fold_u16_unit pf (of_nat n) < 0xD800 \<or> 0xDFFF < fold_u16_unit pf (of_nat n)"
      unfolding fold_lawful_def by blast
    moreover have "unat (fold_u16_unit pf (of_nat n)) < 65536" by simp
    ultimately show ?thesis using True
      unfolding fold_scalar_def is_scalar_def u16_bounds by (simp, linarith)
  next
    case False
    with n show ?thesis by (simp add: fold_scalar_def)
  qed
qed

lemma fold_units_enc1:
  "is_scalar n \<Longrightarrow> fold_lawful pf \<Longrightarrow>
   map (fold_u16_unit pf) (utf16_enc1 n) = utf16_enc1 (fold_scalar pf n)"
proof -
  assume n: "is_scalar n" and law: "fold_lawful pf"
  show ?thesis
  proof (cases "n < 0x10000")
    case True
    then show ?thesis by (simp add: utf16_enc1_def fold_scalar_def)
  next
    case False
    with n have "(n - 0x10000) div 1024 < 1024" by (simp add: is_scalar_def)
    then have "unat (of_nat (0xD800 + (n - 0x10000) div 1024) :: u16) = 0xD800 + (n - 0x10000) div 1024"
      by (intro unat_of_nat_u16) simp
    moreover have "unat (of_nat (0xDC00 + (n - 0x10000) mod 1024) :: u16) = 0xDC00 + (n - 0x10000) mod 1024"
      by (rule unat_of_nat_u16) (simp add: less_trans [OF mod_less_divisor])
    moreover have "(n - 0x10000) mod 1024 < 1024" by simp
    ultimately show ?thesis
      using False \<open>(n - 0x10000) div 1024 < 1024\<close>
      by (simp add: utf16_enc1_def fold_scalar_def fold_u16_unit_def u16_bounds
          del: of_nat_add of_nat_numeral)
  qed
qed

lemma fold_units_encode:
  "list_all is_scalar cs \<Longrightarrow> fold_lawful pf \<Longrightarrow>
   map (fold_u16_unit pf) (encode_utf16 cs) = encode_utf16 (map (fold_scalar pf) cs)"
  by (induction cs) (simp_all add: encode_utf16_def fold_units_enc1)

lemma of_char_less_256: "(of_char c :: nat) < 256"
  using of_char_mod_256 [of c, where 'a = nat] mod_less_divisor [of 256 "of_char c :: nat"] by linarith

lemma utf8_decode_ascii: "is_ascii s \<Longrightarrow> utf8_decode s = map of_char s"
  by (induction s) (auto simp: is_ascii_def is_ascii_char_def)

lemma fold_scalar_ascii:
  "fold_lawful pf \<Longrightarrow> is_ascii_char c \<Longrightarrow> fold_scalar pf (of_char c) = of_char (ascii_lower c)"
proof -
  assume law: "fold_lawful pf" and c: "is_ascii_char c"
  then have "fold_u16_unit pf (of_char c) = of_char (ascii_lower c)"
    by (simp add: fold_lawful_def)
  moreover have "(of_nat (of_char c) :: u16) = of_char c" by (rule of_nat_of_char)
  moreover have "unat (of_char (ascii_lower c) :: u16) = of_char (ascii_lower c)"
    using unat_of_nat_u16 [of "of_char (ascii_lower c)"] of_char_less_256 [of "ascii_lower c"]
    unfolding of_nat_of_char by linarith
  ultimately show ?thesis using c by (simp add: fold_scalar_def is_ascii_char_def)
qed

lemma utf8_encode_ascii:
  "\<forall>c\<in>set s. is_ascii_char c \<Longrightarrow> utf8_encode (map of_char s) = s"
  by (induction s) (auto simp: utf8_encode_def utf8_enc1_def is_ascii_char_def)

lemma ascii_valid_utf8: "is_ascii s \<Longrightarrow> valid_utf8 s"
  by (auto simp: valid_utf8_def utf8_decode_ascii utf8_encode_ascii is_ascii_def list_all_iff
      is_ascii_char_def is_scalar_def)

text \<open>The one characterisation the other facts follow from.\<close>

lemma nt_case_fold_scalars:
  assumes law: "fold_lawful pf" and v: "valid_utf8 s"
  shows "nt_case_fold pf s = utf8_encode (map (fold_scalar pf) (utf8_decode s))"
proof (cases "is_ascii s")
  case True
  then have asc: "\<forall>c\<in>set s. is_ascii_char c" by (simp add: is_ascii_def list_all_iff)
  have "map (fold_scalar pf) (utf8_decode s) = map of_char (map ascii_lower s)"
    using True asc law by (simp add: utf8_decode_ascii fold_scalar_ascii)
  moreover have "utf8_encode (map of_char (map ascii_lower s)) = map ascii_lower s"
    using asc by (intro utf8_encode_ascii) auto
  moreover have "nt_case_fold pf s = map ascii_lower s"
    using True to_ascii_lowercase_id [of s] by (auto simp: nt_case_fold_def to_ascii_lowercase_def)
  ultimately show ?thesis by simp
next
  case False
  have sc: "list_all is_scalar (utf8_decode s)" using v by (simp add: valid_utf8_def)
  then have "list_all is_scalar (map (fold_scalar pf) (utf8_decode s))"
    using law by (auto simp: list_all_iff fold_scalar_scalar)
  then show ?thesis using False law sc
    by (simp add: nt_case_fold_def from_utf16_lossy_def fold_units_encode utf16_decode_encode)
qed

lemma fold_scalar_idem: "fold_lawful pf \<Longrightarrow> fold_scalar pf (fold_scalar pf n) = fold_scalar pf n"
proof -
  assume "fold_lawful pf"
  then have "\<And>u. fold_u16_unit pf (fold_u16_unit pf u) = fold_u16_unit pf u"
    by (simp add: fold_lawful_def)
  then show ?thesis by (simp add: fold_scalar_def)
qed

lemma map_fold_scalar_scalars:
  "fold_lawful pf \<Longrightarrow> list_all is_scalar cs \<Longrightarrow> list_all is_scalar (map (fold_scalar pf) cs)"
  by (auto simp: list_all_iff fold_scalar_scalar)

lemma nt_case_fold_valid:
  "fold_lawful pf \<Longrightarrow> valid_utf8 s \<Longrightarrow> valid_utf8 (nt_case_fold pf s)"
  by (simp add: nt_case_fold_scalars map_fold_scalar_scalars valid_utf8_def [of s])

lemma nt_case_fold_idem:
  assumes "fold_lawful pf" and "valid_utf8 s"
  shows "nt_case_fold pf (nt_case_fold pf s) = nt_case_fold pf s"
proof -
  have sc: "list_all is_scalar (map (fold_scalar pf) (utf8_decode s))"
    using assms by (simp add: map_fold_scalar_scalars valid_utf8_def)
  have "nt_case_fold pf (utf8_encode (map (fold_scalar pf) (utf8_decode s))) =
      utf8_encode (map (fold_scalar pf) (map (fold_scalar pf) (utf8_decode s)))"
    using assms(1) sc by (simp only: nt_case_fold_scalars valid_utf8_encode utf8_decode_encode)
  also have "map (fold_scalar pf) (map (fold_scalar pf) (utf8_decode s)) = map (fold_scalar pf) (utf8_decode s)"
    using assms(1) by (simp add: fold_scalar_idem)
  finally show ?thesis using assms by (simp add: nt_case_fold_scalars)
qed

lemma ensure_lower_ascii: "is_ascii s \<Longrightarrow> ensure_lower pf s = to_ascii_lowercase s"
  using to_ascii_lowercase_id [of s] by (auto simp: ensure_lower_def nt_case_fold_def)

section \<open>Tables that fold as the documentation says\<close>

text \<open>The ASCII part of the ntdll tables satisfies \<open>fold_lawful\<close>; witnesses use it.\<close>

definition ascii_up :: "u16 \<Rightarrow> u16" where
  "ascii_up u = (if 0x61 \<le> u \<and> u \<le> 0x7A then u - 32 else u)"

definition ascii_down :: "u16 \<Rightarrow> u16" where
  "ascii_down u = (if 0x41 \<le> u \<and> u \<le> 0x5A then u + 32 else u)"

lemma ascii_down_up: "ascii_down (ascii_up u) = ascii_down u"
proof (cases "0x61 \<le> u \<and> u \<le> 0x7A")
  case True
  then have "0x41 \<le> u - 32" "u - 32 \<le> 0x5A" "\<not> u \<le> 0x5A"
    by (auto simp: word_le_nat_alt unat_sub)
  with True show ?thesis by (simp add: ascii_down_def ascii_up_def)
next
  case False
  then have "ascii_up u = u" by (auto simp: ascii_up_def)
  then show ?thesis by simp
qed

lemma unat_ascii_down: "unat (ascii_down u) = (if 0x41 \<le> unat u \<and> unat u \<le> 0x5A then unat u + 32 else unat u)"
  unfolding ascii_down_def
  by (auto simp: word_le_nat_alt unat_word_ariths)

lemma ascii_tables_lawful:
  assumes "rtl_case_fns pf = Some (ascii_up, ascii_down)"
  shows "fold_lawful pf"
proof -
  have f: "fold_u16_unit pf u = ascii_down u" for u
  proof (cases "0xD800 \<le> u \<and> u \<le> 0xDFFF")
    case True
    then have "\<not> u \<le> 0x5A" by (auto simp: word_le_nat_alt)
    with True show ?thesis by (simp add: fold_u16_unit_def ascii_down_def)
  next
    case False
    then have "fold_u16_unit pf u = ascii_down (ascii_up u)" by (auto simp: fold_u16_unit_def assms)
    then show ?thesis by (simp add: ascii_down_up)
  qed
  have c: "unat (of_char c :: u16) = of_char c" for c
    using unat_of_nat_u16 [of "of_char c"] of_char_less_256 [of c] unfolding of_nat_of_char by linarith
  show ?thesis unfolding fold_lawful_def f
  proof (intro conjI allI impI)
    fix c show "ascii_down (of_char c) = of_char (ascii_lower c)"
      by (simp add: word_unat_eq_iff unat_ascii_down c of_char_ascii_lower is_ascii_uppercase_def)
  next
    fix u :: u16 assume "u < 0xD800 \<or> 0xDFFF < u"
    then show "ascii_down u < 0xD800 \<or> 0xDFFF < ascii_down u"
      by (auto simp: u16_bounds unat_ascii_down)
  next
    fix u :: u16 show "ascii_down (ascii_down u) = ascii_down u"
      by (simp add: word_unat_eq_iff unat_ascii_down)
  qed
qed
definition ascii_platform :: platform where
  "ascii_platform = \<lparr>rtl_case_fns = Some (ascii_up, ascii_down), char_to_uppercase = id, char_to_lowercase = id\<rparr>"

lemma ascii_platform_lawful [simp]: "fold_lawful ascii_platform"
  by (rule ascii_tables_lawful) (simp add: ascii_platform_def)

section \<open>Properties\<close>

text \<open>
  on valid UTF-8, and with platform tables that fold ASCII as documented and are idempotent on units,
  \<open>nt_case_fold\<close> folds code point by code point: the fast path for ASCII strings and the UTF-16 detour
  agree. It keeps the number of code points, gives valid UTF-8 and is idempotent, so that a folded path
  used as a key can be folded again without changing the key.
\<close>

theorem nt_case_fold_canonical:
  assumes "fold_lawful pf" and "valid_utf8 s"
  shows "nt_case_fold pf s = utf8_encode (map (fold_scalar pf) (utf8_decode s)) \<and>
    valid_utf8 (nt_case_fold pf s) \<and> nt_case_fold pf (nt_case_fold pf s) = nt_case_fold pf s \<and>
    length (utf8_decode (nt_case_fold pf s)) = length (utf8_decode s)"
proof -
  have "list_all is_scalar (map (fold_scalar pf) (utf8_decode s))"
    using assms by (simp add: map_fold_scalar_scalars valid_utf8_def)
  then have "length (utf8_decode (nt_case_fold pf s)) = length (utf8_decode s)"
    using assms by (simp only: nt_case_fold_scalars utf8_decode_encode length_map)
  then show ?thesis
    using assms nt_case_fold_scalars [OF assms] nt_case_fold_idem [OF assms] nt_case_fold_valid [OF assms]
    by blast
qed

theorem nt_case_fold_canonical_witness:
  "fold_lawful ascii_platform \<and> valid_utf8 ''C:/Foo'' \<and>
   nt_case_fold ascii_platform (nt_case_fold ascii_platform ''C:/Foo'') = nt_case_fold ascii_platform ''C:/Foo''"
proof -
  have "valid_utf8 ''C:/Foo''"
    by (intro ascii_valid_utf8) (simp add: is_ascii_def is_ascii_char_def)
  then show ?thesis using nt_case_fold_canonical [of ascii_platform "''C:/Foo''"] ascii_platform_lawful by blast
qed

end
