(* ===== verification/Glob.thy ===== *)
theory Glob
  imports Prelude
begin

text \<open>
  The glob matcher of \<^verbatim>\<open>winrsbox-policy/src/path/mod.rs\<close>: single-segment globbing
  (\<open>segment_match\<close>), prefix and exact matching of segment lists with \<open>**\<close>
  (\<open>prefix_match\<close>, \<open>exact_match\<close>), their string wrappers and the specificity measure.
  The three loops are two-pointer algorithms that remember the last wildcard and back-track
  to it. They are translated index by index and proved equal to one recursive
  specification, \<open>wild\<close>.
\<close>

section \<open>The specification of wildcard matching\<close>

text \<open>
  \<open>wild acc star elem ps ts\<close>: the pattern \<open>ps\<close> describes the text \<open>ts\<close>, where a pattern
  element satisfying \<open>star\<close> stands for any number of text elements, any other element \<open>p\<close>
  for one text element related by \<open>elem p\<close>, and \<open>acc\<close> says which rests of the text may
  remain when the pattern is used up.
\<close>

fun wild :: "('t list \<Rightarrow> bool) \<Rightarrow> ('p \<Rightarrow> bool) \<Rightarrow> ('p \<Rightarrow> 't \<Rightarrow> bool) \<Rightarrow> 'p list \<Rightarrow> 't list \<Rightarrow> bool" where
  "wild acc star elem [] ts = acc ts"
| "wild acc star elem (p # ps) [] = (star p \<and> wild acc star elem ps [])"
| "wild acc star elem (p # ps) (t # ts) =
     (if star p then wild acc star elem ps (t # ts) \<or> wild acc star elem (p # ps) ts
      else elem p t \<and> wild acc star elem ps ts)"

text \<open>Exact matching accepts no rest, prefix matching accepts every rest.\<close>

abbreviation accept_end :: "'t list \<Rightarrow> bool" where "accept_end ts \<equiv> ts = []"
abbreviation accept_any :: "'t list \<Rightarrow> bool" where "accept_any ts \<equiv> True"

lemma wild_star_iff:
  "star p \<Longrightarrow> wild acc star elem (p # ps) ts \<longleftrightarrow>
     (\<exists>k\<le>length ts. wild acc star elem ps (drop k ts))"
proof (induction ts)
  case Nil
  then show ?case by simp
next
  case (Cons t ts)
  have "(\<exists>k\<le>length (t # ts). wild acc star elem ps (drop k (t # ts))) \<longleftrightarrow>
        wild acc star elem ps (t # ts) \<or>
        (\<exists>k\<le>length ts. wild acc star elem ps (drop k ts))"
    (is "?l = ?r")
  proof
    assume ?l
    then obtain k where k: "k \<le> length (t # ts)" "wild acc star elem ps (drop k (t # ts))"
      by blast
    then show ?r by (cases k) auto
  next
    assume ?r
    then show ?l
    proof
      assume "wild acc star elem ps (t # ts)"
      then show ?l by (intro exI [of _ 0]) simp
    next
      assume "\<exists>k\<le>length ts. wild acc star elem ps (drop k ts)"
      then obtain k where "k \<le> length ts" "wild acc star elem ps (drop k ts)" by blast
      then show ?l by (intro exI [of _ "Suc k"]) simp
    qed
  qed
  with Cons show ?case by simp
qed

lemma wild_take_star:
  assumes "star p"
  shows "(\<exists>n. wild accept_end star elem (p # ps) (take n ts)) \<longleftrightarrow>
         (\<exists>k\<le>length ts. \<exists>m. wild accept_end star elem ps (take m (drop k ts)))" (is "?l = ?r")
proof
  assume ?l
  then obtain n k where "k \<le> length (take n ts)" "wild accept_end star elem ps (drop k (take n ts))"
    using wild_star_iff [of star p, OF assms] by blast
  then have "k \<le> length ts" "wild accept_end star elem ps (take (n - k) (drop k ts))"
    by (auto simp: drop_take)
  then show ?r by blast
next
  assume ?r
  then obtain k m where km: "k \<le> length ts" "wild accept_end star elem ps (take m (drop k ts))" by blast
  then have "wild accept_end star elem ps (drop k (take (k + m) ts))" "k \<le> length (take (k + m) ts)"
    by (auto simp: drop_take)
  then show ?l using wild_star_iff [of star p, OF assms] by blast
qed

lemma wild_prefix_iff:
  "wild accept_any star elem ps ts \<longleftrightarrow> (\<exists>n. wild accept_end star elem ps (take n ts))"
proof (induction ps arbitrary: ts)
  case Nil
  show ?case by (auto intro: exI [of _ 0])
next
  case (Cons p ps)
  show ?case
  proof (cases "star p")
    case True
    show ?thesis
      unfolding wild_star_iff [of star p accept_any, OF True] wild_take_star [of star p, OF True] Cons.IH ..
  next
    case False
    then have "wild accept_end star elem (p # ps) (take n ts) \<longleftrightarrow>
        (\<exists>t us m. n = Suc m \<and> ts = t # us \<and> elem p t \<and> wild accept_end star elem ps (take m us))"
      for n by (cases n; cases ts) auto
    with False Cons.IH show ?thesis by (cases ts) auto
  qed
qed

section \<open>Why backing up to the last wildcard is enough\<close>

text \<open>
  The state of the loops is the pattern position \<open>pi\<close>, the text position \<open>si\<close> and the last
  wildcard passed with the text position it was tried at. \<open>retry\<close> is what backing up to
  that wildcard can still find; \<open>track\<close> is the loop invariant that between the wildcard and
  \<open>pi\<close> the pattern has no other wildcard and consumed one text element per element.
\<close>

definition retry ::
    "('t list \<Rightarrow> bool) \<Rightarrow> ('p \<Rightarrow> bool) \<Rightarrow> ('p \<Rightarrow> 't \<Rightarrow> bool) \<Rightarrow> 'p list \<Rightarrow> 't list
     \<Rightarrow> nat option \<Rightarrow> nat \<Rightarrow> bool" where
  "retry acc star elem p t sp st =
     (case sp of None \<Rightarrow> False
      | Some s \<Rightarrow> \<exists>k. st < k \<and> k \<le> length t \<and> wild acc star elem (drop (Suc s) p) (drop k t))"

definition track :: "('p \<Rightarrow> bool) \<Rightarrow> 'p list \<Rightarrow> 't list \<Rightarrow> nat \<Rightarrow> nat \<Rightarrow> nat option \<Rightarrow> nat \<Rightarrow> bool" where
  "track star p t pi si sp st \<longleftrightarrow>
     pi \<le> length p \<and> si \<le> length t \<and>
     (\<forall>s. sp = Some s \<longrightarrow>
        s < pi \<and> star (p ! s) \<and> st \<le> si \<and> pi - Suc s = si - st \<and>
        (\<forall>i. s < i \<and> i < pi \<longrightarrow> \<not> star (p ! i)))"

lemma wild_skip:
  "wild acc star elem (drop a p) (drop k t) \<Longrightarrow> k \<le> length t \<Longrightarrow>
   (\<And>i. i < n \<Longrightarrow> a + i < length p \<and> \<not> star (p ! (a + i))) \<Longrightarrow>
   k + n \<le> length t \<and> wild acc star elem (drop (a + n) p) (drop (k + n) t)"
proof (induction n arbitrary: a k)
  case 0
  then show ?case by simp
next
  case (Suc n)
  from Suc.prems(3) [of 0] have a: "a < length p" "\<not> star (p ! a)" by auto
  have k: "k < length t"
  proof (rule ccontr)
    assume "\<not> k < length t"
    then have "drop k t = []" by simp
    with Suc.prems(1) a show False by (simp flip: Cons_nth_drop_Suc)
  qed
  with Suc.prems(1) a have "wild acc star elem (drop (Suc a) p) (drop (Suc k) t)"
    by (simp flip: Cons_nth_drop_Suc)
  moreover have "\<And>i. i < n \<Longrightarrow> Suc a + i < length p \<and> \<not> star (p ! (Suc a + i))"
    using Suc.prems(3) [of "Suc i" for i] by simp
  ultimately have "Suc k + n \<le> length t \<and> wild acc star elem (drop (Suc a + n) p) (drop (Suc k + n) t)"
    using k by (intro Suc.IH) auto
  then show ?case by simp
qed

lemma retry_advances:
  assumes tr: "track star p t pi si sp st" and re: "retry acc star elem p t sp st"
  shows "\<exists>j. si < j \<and> j \<le> length t \<and> wild acc star elem (drop pi p) (drop j t)"
proof -
  from re obtain s k where s: "sp = Some s" and k: "st < k" "k \<le> length t"
    and w: "wild acc star elem (drop (Suc s) p) (drop k t)"
    by (auto simp: retry_def split: option.splits)
  from tr s have pi: "pi \<le> length p" "s < pi" "pi - Suc s = si - st" "st \<le> si"
    and ns: "\<forall>i. s < i \<and> i < pi \<longrightarrow> \<not> star (p ! i)"
    by (auto simp: track_def)
  have "k + (pi - Suc s) \<le> length t \<and>
        wild acc star elem (drop (Suc s + (pi - Suc s)) p) (drop (k + (pi - Suc s)) t)"
    using pi ns by (intro wild_skip [OF w k(2)]) auto
  moreover have "Suc s + (pi - Suc s) = pi" using pi by simp
  ultimately have "si < k + (si - st)" "k + (si - st) \<le> length t"
    "wild acc star elem (drop pi p) (drop (k + (si - st)) t)" using pi k by auto
  then show ?thesis by blast
qed

lemma track_match:
  "track star p t pi si sp st \<Longrightarrow> pi < length p \<Longrightarrow> si < length t \<Longrightarrow> \<not> star (p ! pi) \<Longrightarrow>
   track star p t (Suc pi) (Suc si) sp st"
  unfolding track_def by (auto simp: less_Suc_eq Suc_diff_le)

lemma track_star:
  "track star p t pi si sp st \<Longrightarrow> pi < length p \<Longrightarrow> star (p ! pi) \<Longrightarrow>
   track star p t (Suc pi) si (Some pi) si"
  unfolding track_def by auto

lemma track_back:
  "track star p t pi si (Some s) st \<Longrightarrow> st < length t \<Longrightarrow>
   track star p t (Suc s) (Suc st) (Some s) (Suc st)"
  unfolding track_def by auto

lemma wild_match_step:
  "pi < length p \<Longrightarrow> si < length t \<Longrightarrow> \<not> star (p ! pi) \<Longrightarrow>
   wild acc star elem (drop pi p) (drop si t) \<longleftrightarrow>
   elem (p ! pi) (t ! si) \<and> wild acc star elem (drop (Suc pi) p) (drop (Suc si) t)"
  by (simp flip: Cons_nth_drop_Suc)

lemma wild_star_step:
  assumes "pi < length p" "star (p ! pi)" "si \<le> length t"
  shows "wild acc star elem (drop pi p) (drop si t) \<longleftrightarrow>
     wild acc star elem (drop (Suc pi) p) (drop si t) \<or> retry acc star elem p t (Some pi) si"
proof -
  have "wild acc star elem (drop pi p) (drop si t) \<longleftrightarrow>
        (\<exists>k\<le>length t - si. wild acc star elem (drop (Suc pi) p) (drop (k + si) t))"
    using assms by (simp add: wild_star_iff add.commute flip: Cons_nth_drop_Suc)
  also have "\<dots> \<longleftrightarrow> (\<exists>k. si \<le> k \<and> k \<le> length t \<and> wild acc star elem (drop (Suc pi) p) (drop k t))"
    (is "?l = ?r")
  proof
    assume ?l
    then obtain k where "k \<le> length t - si" "wild acc star elem (drop (Suc pi) p) (drop (k + si) t)"
      by blast
    then show ?r using assms(3) by (intro exI [of _ "k + si"]) auto
  next
    assume ?r
    then obtain k where "si \<le> k" "k \<le> length t" "wild acc star elem (drop (Suc pi) p) (drop k t)"
      by blast
    then show ?l by (intro exI [of _ "k - si"]) auto
  qed
  also have "\<dots> \<longleftrightarrow> wild acc star elem (drop (Suc pi) p) (drop si t) \<or>
      retry acc star elem p t (Some pi) si"
    using assms(3) by (auto simp: retry_def le_less)
  finally show ?thesis .
qed

text \<open>Setting a new wildcard makes the older one redundant.\<close>

lemma wild_new_star:
  assumes tr: "track star p t pi si sp st" and pi: "pi < length p" "star (p ! pi)"
  shows "wild acc star elem (drop pi p) (drop si t) \<or> retry acc star elem p t sp st \<longleftrightarrow>
     wild acc star elem (drop (Suc pi) p) (drop si t) \<or> retry acc star elem p t (Some pi) si"
proof -
  have "si \<le> length t" using tr by (simp add: track_def)
  note step = wild_star_step [where star = star and acc = acc and elem = elem, OF pi this]
  have "retry acc star elem p t sp st \<Longrightarrow> wild acc star elem (drop pi p) (drop si t)"
  proof -
    assume "retry acc star elem p t sp st"
    then obtain j where j: "si < j" "j \<le> length t" "wild acc star elem (drop pi p) (drop j t)"
      using retry_advances [OF tr] by blast
    from j(3) pi obtain k where k: "k \<le> length t - j" "wild acc star elem (drop (Suc pi) p) (drop (k + j) t)"
      by (auto simp: wild_star_iff add.commute simp flip: Cons_nth_drop_Suc)
    with j have "retry acc star elem p t (Some pi) si"
      unfolding retry_def by (auto intro!: exI [of _ "k + j"])
    then show ?thesis using step by blast
  qed
  then show ?thesis using step by blast
qed

lemma retry_back:
  "st < length t \<Longrightarrow> retry acc star elem p t (Some s) st \<longleftrightarrow>
   wild acc star elem (drop (Suc s) p) (drop (Suc st) t) \<or> retry acc star elem p t (Some s) (Suc st)"
  unfolding retry_def option.case
  by (metis Suc_leI Suc_lessD le_neq_implies_less lessI)

lemma retry_at_end:
  "track star p t pi (length t) sp st \<Longrightarrow> \<not> retry acc star elem p t sp st"
  by (auto dest: retry_advances)

section \<open>segment_match\<close>

text \<open>The \<^verbatim>\<open>while pi < p.len() && p[pi] == b'*'\<close> tail of \<open>segment_match\<close>.\<close>

function skip_stars :: "string \<Rightarrow> nat \<Rightarrow> nat" where
  "skip_stars p pi = (if pi < length p \<and> p ! pi = CHR ''*'' then skip_stars p (pi + 1) else pi)"
  by pat_completeness auto
termination
  by (relation "measure (\<lambda>(p, pi). length p - pi)") auto

declare skip_stars.simps [simp del]

function segment_loop :: "string \<Rightarrow> string \<Rightarrow> nat \<Rightarrow> nat \<Rightarrow> nat option \<Rightarrow> nat \<Rightarrow> bool" where
  "segment_loop p t pi ti star_p star_t =
     (if ti < length t then
        if pi < length p \<and> (p ! pi = CHR ''?'' \<or> p ! pi = t ! ti) then
          segment_loop p t (pi + 1) (ti + 1) star_p star_t
        else if pi < length p \<and> p ! pi = CHR ''*'' then
          segment_loop p t (pi + 1) ti (Some pi) ti
        else (case star_p of
            Some sp \<Rightarrow> segment_loop p t (sp + 1) (star_t + 1) (Some sp) (star_t + 1)
          | None \<Rightarrow> False)
      else skip_stars p pi = length p)"
  by pat_completeness auto

text \<open>
  Every turn of the loops passes a new wildcard, retries the last one at a later text
  position, or advances in the pattern: the lexicographic measure below. Its first component
  is only meaningful when the remembered wildcard lies behind the two positions, which every
  turn establishes.
\<close>

definition glob_rank :: "nat \<Rightarrow> nat \<Rightarrow> nat \<Rightarrow> nat option \<Rightarrow> nat \<Rightarrow> nat" where
  "glob_rank n pi ti sp st =
     (case sp of None \<Rightarrow> n + 1 | Some s \<Rightarrow> if s < pi \<and> st \<le> ti then n - s else n + 2)"

termination segment_loop
  by (relation "measures [\<lambda>(p, t, pi, ti, sp, st). glob_rank (length p) pi ti sp st,
        \<lambda>(p, t, pi, ti, sp, st). length t - st, \<lambda>(p, t, pi, ti, sp, st). length p - pi]")
    (auto simp: glob_rank_def split: option.splits)

declare segment_loop.simps [simp del]

definition segment_match :: "string \<Rightarrow> string \<Rightarrow> bool" where
  "segment_match p t =
     (if CHR ''*'' \<notin> set p \<and> CHR ''?'' \<notin> set p then p = t
      else segment_loop p t 0 0 None 0)"

text \<open>The meaning of a segment pattern.\<close>

abbreviation seg_star :: "char \<Rightarrow> bool" where "seg_star c \<equiv> c = CHR ''*''"
abbreviation seg_elem :: "char \<Rightarrow> char \<Rightarrow> bool" where "seg_elem c d \<equiv> c = CHR ''?'' \<or> c = d"

definition seg_glob :: "string \<Rightarrow> string \<Rightarrow> bool" where
  "seg_glob p t = wild accept_end seg_star seg_elem p t"

lemma skip_stars_wild:
  "pi \<le> length p \<Longrightarrow> skip_stars p pi = length p \<longleftrightarrow> wild accept_end seg_star elem (drop pi p) []"
proof (induction p pi rule: skip_stars.induct)
  case (1 p pi)
  show ?case
  proof (cases "pi < length p \<and> p ! pi = CHR ''*''")
    case True
    with 1 show ?thesis
      by (simp add: skip_stars.simps [of p pi] flip: Cons_nth_drop_Suc)
  next
    case False
    then have "skip_stars p pi = pi" by (subst skip_stars.simps) auto
    with False 1 show ?thesis
      by (cases "pi < length p") (auto simp flip: Cons_nth_drop_Suc)
  qed
qed

lemma segment_loop_correct:
  "CHR ''*'' \<notin> set t \<Longrightarrow> track seg_star p t pi ti sp st \<Longrightarrow>
   segment_loop p t pi ti sp st \<longleftrightarrow>
   wild accept_end seg_star seg_elem (drop pi p) (drop ti t) \<or>
   retry accept_end seg_star seg_elem p t sp st"
proof (induction p t pi ti sp st rule: segment_loop.induct)
  case (1 p t pi ti sp st)
  note tr = \<open>track seg_star p t pi ti sp st\<close> and nostar = \<open>CHR ''*'' \<notin> set t\<close>
  note unf = segment_loop.simps [of p t pi ti sp st]
  have bounds: "pi \<le> length p" "ti \<le> length t" using tr by (auto simp: track_def)
  consider (stop) "ti = length t"
    | (one) "ti < length t" "pi < length p" "p ! pi = CHR ''?'' \<or> p ! pi = t ! ti"
    | (star) "ti < length t" "pi < length p" "p ! pi = CHR ''*''" "p ! pi \<noteq> t ! ti"
    | (fail) "ti < length t" "\<not> (pi < length p \<and> (p ! pi = CHR ''?'' \<or> p ! pi = t ! ti))"
        "\<not> (pi < length p \<and> p ! pi = CHR ''*'')"
    using bounds le_neq_implies_less [of ti "length t"] by argo
  then show ?case
  proof cases
    case stop
    then have "segment_loop p t pi ti sp st \<longleftrightarrow> skip_stars p pi = length p"
      by (subst unf) simp
    moreover have "\<not> retry accept_end seg_star seg_elem p t sp st"
      by (rule retry_at_end [of seg_star p t pi]) (use tr stop in simp)
    ultimately show ?thesis using bounds stop by (simp add: skip_stars_wild)
  next
    case one
    have "t ! ti \<noteq> CHR ''*''" using one(1) nostar nth_mem by metis
    with one(3) have ns: "\<not> seg_star (p ! pi)" by auto
    have "segment_loop p t (pi + 1) (ti + 1) sp st \<longleftrightarrow>
      wild accept_end seg_star seg_elem (drop (Suc pi) p) (drop (Suc ti) t) \<or>
      retry accept_end seg_star seg_elem p t sp st"
      using 1(1) one nostar track_match [OF tr] ns by simp
    with one ns show ?thesis
      by (simp add: unf wild_match_step)
  next
    case star
    have "segment_loop p t (pi + 1) ti (Some pi) ti \<longleftrightarrow>
      wild accept_end seg_star seg_elem (drop (Suc pi) p) (drop ti t) \<or>
      retry accept_end seg_star seg_elem p t (Some pi) ti"
      using 1(2) star nostar track_star [OF tr] by simp
    with star show ?thesis
      by (simp add: unf wild_new_star [OF tr])
  next
    case fail
    have no: "\<not> wild accept_end seg_star seg_elem (drop pi p) (drop ti t)"
      using fail by (cases "pi < length p") (auto simp: wild_match_step)
    have un: "segment_loop p t pi ti sp st =
        (case sp of Some s \<Rightarrow> segment_loop p t (s + 1) (st + 1) (Some s) (st + 1) | None \<Rightarrow> False)"
      using fail by (subst unf) auto
    show ?thesis
    proof (cases sp)
      case None
      with un no show ?thesis by (simp add: retry_def)
    next
      case (Some s)
      then have st: "st < length t" using tr fail by (auto simp: track_def)
      have "segment_loop p t (s + 1) (st + 1) (Some s) (st + 1) \<longleftrightarrow>
        wild accept_end seg_star seg_elem (drop (Suc s) p) (drop (Suc st) t) \<or>
        retry accept_end seg_star seg_elem p t (Some s) (Suc st)"
        using 1(3) fail nostar Some track_back [of seg_star p t pi ti s st] st tr by simp
      with un no Some st show ?thesis
        by (simp add: retry_back)
    qed
  qed
qed

lemma track_start [simp]: "track star p t 0 0 None st"
  by (simp add: track_def)

lemma wild_literal:
  "\<forall>c\<in>set p. c \<noteq> CHR ''*'' \<and> c \<noteq> CHR ''?'' \<Longrightarrow> wild accept_end seg_star seg_elem p t \<longleftrightarrow> p = t"
  by (induction "accept_end :: string \<Rightarrow> bool" seg_star seg_elem p t rule: wild.induct) auto

lemma segment_match_glob:
  "CHR ''*'' \<notin> set t \<Longrightarrow> segment_match p t \<longleftrightarrow> seg_glob p t"
proof -
  assume t: "CHR ''*'' \<notin> set t"
  show ?thesis
  proof (cases "CHR ''*'' \<notin> set p \<and> CHR ''?'' \<notin> set p")
    case True
    then have "\<forall>c\<in>set p. c \<noteq> CHR ''*'' \<and> c \<noteq> CHR ''?''" by auto
    with True show ?thesis
      unfolding segment_match_def seg_glob_def by (simp add: wild_literal)
  next
    case False
    then have "segment_match p t = segment_loop p t 0 0 None 0"
      unfolding segment_match_def by auto
    then show ?thesis
      by (simp add: segment_loop_correct [OF t] retry_def seg_glob_def)
  qed
qed

section \<open>prefix_match and exact_match\<close>

definition is_globstar :: "string \<Rightarrow> bool" where
  "is_globstar seg \<longleftrightarrow> seg = ''**''"

text \<open>The inner \<^verbatim>\<open>while\<close> of both loops: pass consecutive \<open>**\<close>, remembering the last one.\<close>

function consume_globstars ::
    "string list \<Rightarrow> nat \<Rightarrow> nat \<Rightarrow> nat option \<Rightarrow> nat \<Rightarrow> nat \<times> nat option \<times> nat" where
  "consume_globstars pat pi si star_pi star_si =
     (if pi < length pat \<and> is_globstar (pat ! pi)
      then consume_globstars pat (pi + 1) si (Some pi) si
      else (pi, star_pi, star_si))"
  by pat_completeness auto
termination
  by (relation "measure (\<lambda>(pat, pi, si, sp, st). length pat - pi)") auto

declare consume_globstars.simps [simp del]

lemma consume_globstars_shape:
  "consume_globstars pat pi si sp st = (pi', sp', st') \<Longrightarrow>
     pi' = pi \<and> sp' = sp \<and> st' = st \<or> pi < pi' \<and> pi' \<le> length pat \<and> sp' = Some (pi' - 1) \<and> st' = si"
proof (induction pat pi si sp st rule: consume_globstars.induct)
  case (1 pat pi si sp st)
  show ?case
  proof (cases "pi < length pat \<and> is_globstar (pat ! pi)")
    case True
    then have "consume_globstars pat (pi + 1) si (Some pi) si = (pi', sp', st')"
      using 1(2) by (simp add: consume_globstars.simps [of pat pi])
    from 1(1) [OF True this] True show ?thesis by auto
  next
    case False
    then show ?thesis using 1(2) by (auto simp: consume_globstars.simps [of pat pi])
  qed
qed

lemma consume_globstars_stops:
  "consume_globstars pat pi si sp st = (pi', sp', st') \<Longrightarrow> pi' < length pat \<Longrightarrow> \<not> is_globstar (pat ! pi')"
proof (induction pat pi si sp st rule: consume_globstars.induct)
  case (1 pat pi si sp st)
  then show ?case
    by (cases "pi < length pat \<and> is_globstar (pat ! pi)")
      (auto simp: consume_globstars.simps [of pat pi])
qed

lemma consume_globstars_keeps:
  "consume_globstars pat pi si sp st = (pi', sp', st') \<Longrightarrow> track is_globstar pat path pi si sp st \<Longrightarrow>
     track is_globstar pat path pi' si sp' st' \<and>
     (wild acc is_globstar elem (drop pi pat) (drop si path) \<or> retry acc is_globstar elem pat path sp st \<longleftrightarrow>
      wild acc is_globstar elem (drop pi' pat) (drop si path) \<or> retry acc is_globstar elem pat path sp' st')"
proof (induction pat pi si sp st rule: consume_globstars.induct)
  case (1 pat pi si sp st)
  show ?case
  proof (cases "pi < length pat \<and> is_globstar (pat ! pi)")
    case True
    then have c: "consume_globstars pat (pi + 1) si (Some pi) si = (pi', sp', st')"
      using 1(2) by (simp add: consume_globstars.simps [of pat pi])
    have tr: "track is_globstar pat path (pi + 1) si (Some pi) si"
      using track_star [OF 1(3)] True by simp
    from 1(1) [OF True c tr] wild_new_star [OF 1(3), of acc elem] True show ?thesis by auto
  next
    case False
    then show ?thesis using 1(2,3) by (auto simp: consume_globstars.simps [of pat pi])
  qed
qed

text \<open>
  The source compares positions with \<^verbatim>\<open>==\<close>; positions never pass the end (\<open>track\<close>), so
  \<open>\<ge>\<close> is the same test and makes the definitions total.
\<close>

function prefix_loop ::
    "string list \<Rightarrow> string list \<Rightarrow> nat \<Rightarrow> nat \<Rightarrow> nat option \<Rightarrow> nat \<Rightarrow> bool" where
  "prefix_loop pat path pi0 si star_pi0 star_si0 =
     (case consume_globstars pat pi0 si star_pi0 star_si0 of (pi, star_pi, star_si) \<Rightarrow>
        if pi \<ge> length pat then True
        else if si \<ge> length path then False
        else if segment_match (pat ! pi) (path ! si) then
          prefix_loop pat path (pi + 1) (si + 1) star_pi star_si
        else (case star_pi of
            Some sp \<Rightarrow> prefix_loop pat path (sp + 1) (star_si + 1) (Some sp) (star_si + 1)
          | None \<Rightarrow> False))"
  by pat_completeness auto
termination
  by (relation "measures [\<lambda>(p, t, pi, si, sp, st). glob_rank (length p) pi si sp st,
        \<lambda>(p, t, pi, si, sp, st). length t - st, \<lambda>(p, t, pi, si, sp, st). length p - pi]")
    (auto simp: glob_rank_def split: option.splits if_splits
      dest!: consume_globstars_shape [OF sym])

declare prefix_loop.simps [simp del]

definition prefix_match :: "string list \<Rightarrow> string list \<Rightarrow> bool" where
  "prefix_match pat path = prefix_loop pat path 0 0 None 0"

function exact_loop ::
    "string list \<Rightarrow> string list \<Rightarrow> nat \<Rightarrow> nat \<Rightarrow> nat option \<Rightarrow> nat \<Rightarrow> bool" where
  "exact_loop pat path pi0 si star_pi0 star_si0 =
     (case consume_globstars pat pi0 si star_pi0 star_si0 of (pi, star_pi, star_si) \<Rightarrow>
        if pi \<ge> length pat \<and> si \<ge> length path then True
        else if pi \<ge> length pat then
          (case star_pi of
             Some sp \<Rightarrow> exact_loop pat path (sp + 1) (star_si + 1) (Some sp) (star_si + 1)
           | None \<Rightarrow> False)
        else if si \<ge> length path then False
        else if segment_match (pat ! pi) (path ! si) then
          exact_loop pat path (pi + 1) (si + 1) star_pi star_si
        else (case star_pi of
            Some sp \<Rightarrow> exact_loop pat path (sp + 1) (star_si + 1) (Some sp) (star_si + 1)
          | None \<Rightarrow> False))"
  by pat_completeness auto
termination
  by (relation "measures [\<lambda>(p, t, pi, si, sp, st). glob_rank (length p) pi si sp st,
        \<lambda>(p, t, pi, si, sp, st). length t - st, \<lambda>(p, t, pi, si, sp, st). length p - pi]")
    (auto simp: glob_rank_def split: option.splits if_splits
      dest!: consume_globstars_shape [OF sym])

declare exact_loop.simps [simp del]

definition exact_match :: "string list \<Rightarrow> string list \<Rightarrow> bool" where
  "exact_match pat path = exact_loop pat path 0 0 None 0"

text \<open>The meaning of a segment-list pattern.\<close>

definition path_glob :: "string list \<Rightarrow> string list \<Rightarrow> bool" where
  "path_glob pat path = wild accept_end is_globstar segment_match pat path"

definition path_glob_prefix :: "string list \<Rightarrow> string list \<Rightarrow> bool" where
  "path_glob_prefix pat path \<longleftrightarrow> (\<exists>n. path_glob pat (take n path))"

lemma path_glob_prefix_wild:
  "path_glob_prefix pat path = wild accept_any is_globstar segment_match pat path"
  unfolding path_glob_prefix_def path_glob_def by (rule wild_prefix_iff [symmetric])

text \<open>
  One turn of either loop after the \<open>**\<close>s are passed: a failed comparison leaves what the
  last wildcard can still find, and a text that is used up before the pattern leaves nothing.
\<close>

lemma wild_text_end:
  "track is_globstar pat path pi (length path) sp st \<Longrightarrow> pi < length pat \<Longrightarrow> \<not> is_globstar (pat ! pi) \<Longrightarrow>
   \<not> wild acc is_globstar elem (drop pi pat) (drop (length path) path) \<and>
   \<not> retry acc is_globstar elem pat path sp st"
  by (intro conjI retry_at_end [of is_globstar pat path pi])
    (simp_all flip: Cons_nth_drop_Suc)

lemma wild_backtrack:
  assumes "track is_globstar pat path pi si sp st" and "si < length path"
    and "\<not> wild acc is_globstar elem (drop pi pat) (drop si path)"
    and "\<And>s. sp = Some s \<Longrightarrow> track is_globstar pat path (Suc s) (Suc st) (Some s) (Suc st) \<Longrightarrow>
       loop (Suc s) (Suc st) (Some s) (Suc st) \<longleftrightarrow>
       wild acc is_globstar elem (drop (Suc s) pat) (drop (Suc st) path) \<or>
       retry acc is_globstar elem pat path (Some s) (Suc st)"
  shows "(case sp of Some s \<Rightarrow> loop (s + 1) (st + 1) (Some s) (st + 1) | None \<Rightarrow> False) \<longleftrightarrow>
     wild acc is_globstar elem (drop pi pat) (drop si path) \<or> retry acc is_globstar elem pat path sp st"
proof (cases sp)
  case None
  with assms(3) show ?thesis by (simp add: retry_def)
next
  case (Some s)
  with assms(1,2) have st: "st < length path" by (auto simp: track_def)
  have "track is_globstar pat path (Suc s) (Suc st) (Some s) (Suc st)"
    using track_back assms(1) Some st by blast
  from assms(4) [OF Some this] assms(3) Some st show ?thesis by (simp add: retry_back)
qed

lemma prefix_loop_correct:
  "track is_globstar pat path pi si sp st \<Longrightarrow>
   prefix_loop pat path pi si sp st \<longleftrightarrow>
   wild accept_any is_globstar segment_match (drop pi pat) (drop si path) \<or>
   retry accept_any is_globstar segment_match pat path sp st"
proof (induction pat path pi si sp st rule: prefix_loop.induct)
  case (1 pat path pi si sp st)
  obtain pi' sp' st' where c: "consume_globstars pat pi si sp st = (pi', sp', st')"
    by (metis prod_cases3)
  note keep = consume_globstars_keeps [OF c \<open>track is_globstar pat path pi si sp st\<close>]
  then have tr: "track is_globstar pat path pi' si sp' st'" by blast
  have b: "pi' \<le> length pat" "si \<le> length path" using tr by (auto simp: track_def)
  let ?v = "wild accept_any is_globstar segment_match (drop pi' pat) (drop si path) \<or>
    retry accept_any is_globstar segment_match pat path sp' st'"
  note unf = prefix_loop.simps [of pat path pi si sp st]
  have "prefix_loop pat path pi si sp st \<longleftrightarrow> ?v"
  proof -
    consider (used) "pi' = length pat" | (short) "pi' < length pat" "si = length path"
      | (match) "pi' < length pat" "si < length path" "segment_match (pat ! pi') (path ! si)"
      | (fail) "pi' < length pat" "si < length path" "\<not> segment_match (pat ! pi') (path ! si)"
      using b by linarith
    then show ?thesis
    proof cases
      case used
      then show ?thesis by (simp add: unf c)
    next
      case short
      then have "\<not> prefix_loop pat path pi si sp st" unfolding unf c prod.case by simp
      moreover have "\<not> ?v"
        using wild_text_end [of pat path pi' sp' st'] consume_globstars_stops [OF c] tr short by simp
      ultimately show ?thesis by blast
    next
      case match
      then have "prefix_loop pat path pi si sp st = prefix_loop pat path (pi' + 1) (si + 1) sp' st'"
        by (simp add: unf c)
      moreover have "track is_globstar pat path (pi' + 1) (si + 1) sp' st'"
        using track_match [OF tr] match consume_globstars_stops [OF c] by simp
      ultimately show ?thesis
        using 1(1) [OF c [symmetric] refl] match consume_globstars_stops [OF c]
        by (simp add: wild_match_step)
    next
      case fail
      have "\<not> wild accept_any is_globstar segment_match (drop pi' pat) (drop si path)"
        using fail consume_globstars_stops [OF c] by (simp add: wild_match_step)
      from wild_backtrack [where loop = "prefix_loop pat path", OF tr fail(2) this]
      show ?thesis using 1(2) [OF c [symmetric] refl] fail by (simp add: unf c)
    qed
  qed
  with keep show ?case by blast
qed

lemma prefix_match_glob: "prefix_match pat path \<longleftrightarrow> path_glob_prefix pat path"
  by (simp add: prefix_match_def prefix_loop_correct retry_def path_glob_prefix_wild)

lemma exact_loop_correct:
  "track is_globstar pat path pi si sp st \<Longrightarrow>
   exact_loop pat path pi si sp st \<longleftrightarrow>
   wild accept_end is_globstar segment_match (drop pi pat) (drop si path) \<or>
   retry accept_end is_globstar segment_match pat path sp st"
proof (induction pat path pi si sp st rule: exact_loop.induct)
  case (1 pat path pi si sp st)
  obtain pi' sp' st' where c: "consume_globstars pat pi si sp st = (pi', sp', st')"
    by (metis prod_cases3)
  note keep = consume_globstars_keeps [OF c \<open>track is_globstar pat path pi si sp st\<close>]
  then have tr: "track is_globstar pat path pi' si sp' st'" by blast
  have b: "pi' \<le> length pat" "si \<le> length path" using tr by (auto simp: track_def)
  let ?v = "wild accept_end is_globstar segment_match (drop pi' pat) (drop si path) \<or>
    retry accept_end is_globstar segment_match pat path sp' st'"
  note unf = exact_loop.simps [of pat path pi si sp st]
  have "exact_loop pat path pi si sp st \<longleftrightarrow> ?v"
  proof -
    consider (used) "pi' = length pat" "si = length path" | (rest) "pi' = length pat" "si < length path"
      | (short) "pi' < length pat" "si = length path"
      | (match) "pi' < length pat" "si < length path" "segment_match (pat ! pi') (path ! si)"
      | (fail) "pi' < length pat" "si < length path" "\<not> segment_match (pat ! pi') (path ! si)"
      using b by linarith
    then show ?thesis
    proof cases
      case used
      then show ?thesis unfolding unf c prod.case by simp
    next
      case rest
      then have "\<not> wild accept_end is_globstar segment_match (drop pi' pat) (drop si path)" by simp
      from wild_backtrack [where loop = "exact_loop pat path", OF tr rest(2) this]
      show ?thesis using 1(1) [OF c [symmetric] refl] rest by (simp add: unf c)
    next
      case short
      then have "\<not> exact_loop pat path pi si sp st" unfolding unf c prod.case by simp
      moreover have "\<not> ?v"
        using wild_text_end [of pat path pi' sp' st'] consume_globstars_stops [OF c] tr short by simp
      ultimately show ?thesis by blast
    next
      case match
      then have "exact_loop pat path pi si sp st = exact_loop pat path (pi' + 1) (si + 1) sp' st'"
        by (simp add: unf c)
      moreover have "track is_globstar pat path (pi' + 1) (si + 1) sp' st'"
        using track_match [OF tr] match consume_globstars_stops [OF c] by simp
      ultimately show ?thesis
        using 1(2) [OF c [symmetric] refl] match consume_globstars_stops [OF c]
        by (simp add: wild_match_step)
    next
      case fail
      have "\<not> wild accept_end is_globstar segment_match (drop pi' pat) (drop si path)"
        using fail consume_globstars_stops [OF c] by (simp add: wild_match_step)
      from wild_backtrack [where loop = "exact_loop pat path", OF tr fail(2) this]
      show ?thesis using 1(3) [OF c [symmetric] refl] fail by (simp add: unf c)
    qed
  qed
  with keep show ?case by blast
qed

lemma exact_match_glob: "exact_match pat path \<longleftrightarrow> path_glob pat path"
  by (simp add: exact_match_def exact_loop_correct retry_def path_glob_def)

section \<open>Patterns as strings\<close>

text \<open>
  \<^verbatim>\<open>split('\\')\<close> with the empty segments kept (\<open>segs_all\<close>) or dropped (\<open>segs_of\<close>).
\<close>

definition segs_all :: "string \<Rightarrow> string list" where
  "segs_all s = split_by (\<lambda>c. c = bslash) s"

definition segs_of :: "string \<Rightarrow> string list" where
  "segs_of s = filter (\<lambda>g. g \<noteq> []) (segs_all s)"

definition pattern_matches_prefix :: "string \<Rightarrow> string \<Rightarrow> bool" where
  "pattern_matches_prefix pattern path =
     (if pattern = [] then True else prefix_match (segs_of pattern) (segs_of path))"

definition pattern_matches_exact :: "string \<Rightarrow> string \<Rightarrow> bool" where
  "pattern_matches_exact pattern path =
     (if pattern = [] then path = [] else exact_match (segs_all pattern) (segs_all path))"

text \<open>
  \<^verbatim>\<open>pattern.chars()\<close> counts code points, that is the bytes of the UTF-8 string that do not
  continue a multi-byte sequence.
\<close>

definition utf8_continuation :: "char \<Rightarrow> bool" where
  "utf8_continuation c \<longleftrightarrow> (128::nat) \<le> of_char c \<and> of_char c < (192::nat)"

definition pattern_specificity :: "string \<Rightarrow> nat" where
  "pattern_specificity pattern =
     length (filter (\<lambda>c. \<not> utf8_continuation c \<and> c \<noteq> CHR ''*'' \<and> c \<noteq> CHR ''?'') pattern)"

definition has_wildcard :: "string \<Rightarrow> bool" where
  "has_wildcard s \<longleftrightarrow> CHR ''*'' \<in> set s \<or> CHR ''?'' \<in> set s"

lemma segment_match_literal [simp]: "\<not> has_wildcard p \<Longrightarrow> segment_match p t \<longleftrightarrow> p = t"
  by (simp add: segment_match_def has_wildcard_def)

lemma literal_not_globstar: "\<not> has_wildcard p \<Longrightarrow> \<not> is_globstar p"
  by (auto simp: has_wildcard_def is_globstar_def)

text \<open>A pattern without wildcards is a segment-wise prefix test, or an equality test.\<close>

lemma prefix_match_literal:
  "\<forall>g\<in>set pat. \<not> has_wildcard g \<Longrightarrow> prefix_match pat path \<longleftrightarrow> prefix pat path"
proof -
  assume lit: "\<forall>g\<in>set pat. \<not> has_wildcard g"
  then have "wild accept_any is_globstar segment_match pat path \<longleftrightarrow> prefix pat path"
  proof (induction pat arbitrary: path)
    case Nil
    then show ?case by auto
  next
    case (Cons g pat)
    then show ?case by (cases path) (auto simp: literal_not_globstar)
  qed
  then show ?thesis by (simp add: prefix_match_glob path_glob_prefix_wild)
qed

lemma exact_match_literal:
  "\<forall>g\<in>set pat. \<not> has_wildcard g \<Longrightarrow> exact_match pat path \<longleftrightarrow> pat = path"
proof -
  assume lit: "\<forall>g\<in>set pat. \<not> has_wildcard g"
  then have "wild accept_end is_globstar segment_match pat path \<longleftrightarrow> pat = path"
  proof (induction pat arbitrary: path)
    case Nil
    then show ?case by auto
  next
    case (Cons g pat)
    then show ?case by (cases path) (auto simp: literal_not_globstar)
  qed
  then show ?thesis by (simp add: exact_match_glob path_glob_def)
qed

lemma has_wildcard_segs: "has_wildcard s \<longleftrightarrow> (\<exists>g\<in>set (segs_of s). has_wildcard g)"
proof -
  have "set s = (\<Union>g\<in>set (segs_all s). set g) \<or> set s = insert bslash (\<Union>g\<in>set (segs_all s). set g)"
    unfolding segs_all_def
  proof (induction s)
    case (Cons c s)
    obtain y ys where "split_by (\<lambda>c. c = bslash) s = y # ys" by (rule split_by_cases)
    with Cons show ?case by auto
  qed simp
  moreover have "(\<Union>g\<in>set (segs_all s). set g) = (\<Union>g\<in>set (segs_of s). set g)"
    by (auto simp: segs_of_def)
  ultimately show ?thesis by (auto simp: has_wildcard_def)
qed

lemma pattern_matches_exact_literal:
  "\<not> has_wildcard pattern \<Longrightarrow> pattern_matches_exact pattern path \<longleftrightarrow> pattern = path"
proof -
  assume "\<not> has_wildcard pattern"
  then have "\<forall>g\<in>set (segs_all pattern). \<not> has_wildcard g"
    using has_wildcard_segs [of pattern] by (auto simp: segs_of_def has_wildcard_def)
  then show ?thesis
    by (auto simp: pattern_matches_exact_def exact_match_literal)
      (simp_all add: segs_all_def split_by_inj)
qed

lemma pattern_matches_exact_segs:
  "pattern_matches_exact pattern path \<longleftrightarrow> exact_match (segs_all pattern) (segs_all path)"
proof (cases "pattern = []")
  case True
  then have "exact_match (segs_all pattern) (segs_all path) \<longleftrightarrow> segs_all pattern = segs_all path"
    by (intro exact_match_literal) (simp add: segs_all_def has_wildcard_def)
  with True show ?thesis
    by (simp add: pattern_matches_exact_def) (metis segs_all_def split_by_inj)
next
  case False
  then show ?thesis by (simp add: pattern_matches_exact_def)
qed

section \<open>Properties\<close>

text \<open>
  C32: on every text without an asterisk, the two-pointer \<open>segment_match\<close> decides exactly the
  glob meaning of the pattern over bytes: \<open>*\<close> stands for any bytes, \<open>?\<close> for one byte, every other byte
  for itself. On ASCII text a byte is a character; elsewhere \<open>?\<close> stands for one byte of the UTF-8 form, not for
  a character as the README says (\<open>question_mark_is_one_byte\<close>). The loop needs no bound: it is a total function.
\<close>

theorem segment_match_correct:
  assumes "CHR ''*'' \<notin> set t"
  shows "segment_match p t \<longleftrightarrow> seg_glob p t"
  using assms by (rule segment_match_glob)

theorem segment_match_correct_witness:
  "CHR ''*'' \<notin> set ''report.txt'' \<and> (segment_match ''r*.t?t'' ''report.txt'' \<longleftrightarrow> seg_glob ''r*.t?t'' ''report.txt'')
   \<and> seg_glob ''r*.t?t'' ''report.txt''"
  using segment_match_correct [of "''report.txt''" "''r*.t?t''"] by (simp add: seg_glob_def)

lemma question_mark_is_one_byte:
  "\<not> segment_match ''?'' [CHR 0xC3, CHR 0xA9]" "segment_match ''??'' [CHR 0xC3, CHR 0xA9]"
  by code_simp+

text \<open>
  prefix and exact matching of whole paths. A rule pattern matches a path exactly when its
  non-empty segments describe some prefix of the path's non-empty segments, \<open>**\<close> standing for
  any number of segments; a mock pattern matches when its segments describe all of the path's.
\<close>

theorem path_matchers_correct:
  "(pattern_matches_prefix pattern path \<longleftrightarrow>
      pattern = [] \<or> (\<exists>n. path_glob (segs_of pattern) (take n (segs_of path)))) \<and>
   (pattern_matches_exact pattern path \<longleftrightarrow> path_glob (segs_all pattern) (segs_all path))"
  unfolding pattern_matches_prefix_def pattern_matches_exact_segs
  by (simp add: prefix_match_glob exact_match_glob path_glob_prefix_def)

text \<open>
  The case of an asterisk in the text is real. The loop compares a pattern byte with the text byte before it looks for
  a wildcard, so a text that begins with an asterisk consumes the pattern's asterisk as a
  literal: the pattern \<open>*\<close> does not match the name \<open>*x\<close>, and a rule with a \<open>*\<close> segment does
  not cover a registry key of that name.
\<close>

theorem segment_match_star_in_text:
  "\<not> segment_match ''*'' ''*x'' \<and> seg_glob ''*'' ''*x'' \<and>
   \<not> pattern_matches_prefix (win ''hklm|software|*|run'') (win ''hklm|software|*x|run'')"
proof -
  have m: "segment_match ''*'' ''*x'' = False"
    by (simp add: segment_match_def segment_loop.simps)
  have "segs_of (win ''hklm|software|*|run'') = [''hklm'', ''software'', ''*'', ''run'']"
    "segs_of (win ''hklm|software|*x|run'') = [''hklm'', ''software'', ''*x'', ''run'']"
    by (simp_all add: segs_of_def segs_all_def win_defs)
  then show ?thesis
    using m by (simp add: pattern_matches_prefix_def prefix_match_glob path_glob_prefix_wild
        is_globstar_def seg_glob_def has_wildcard_def win_defs)
qed

end
