(* ===== verification/DosPath.thy ===== *)
theory DosPath
  imports CaseFold Glob
begin

text \<open>
  Lexical path handling of \<^verbatim>\<open>winrsbox-policy/src/path/mod.rs\<close>: NT to DOS conversion, folding of
  \<open>.\<close> and \<open>..\<close> segments on strings and on UTF-16 units, trailing separators, and the
  segment-aware containment test \<open>path_contained_in\<close> of \<^verbatim>\<open>decide/mod.rs\<close>.
\<close>

section \<open>NT paths and DOS paths\<close>

text \<open>\<^verbatim>\<open>strip_nt_prefix\<close>: the three four-unit prefixes, and the refusal of paths with one leading backslash, such as device paths.\<close>

definition has_nt_prefix :: "u16 list \<Rightarrow> bool" where
  "has_nt_prefix raw \<longleftrightarrow>
     length raw > 4 \<and>
     (take 4 raw = [0x5C, 0x3F, 0x3F, 0x5C] \<or> take 4 raw = [0x5C, 0x5C, 0x3F, 0x5C] \<or>
      take 4 raw = [0x5C, 0x5C, 0x2E, 0x5C])"

definition strip_nt_prefix :: "u16 list \<Rightarrow> u16 list option" where
  "strip_nt_prefix raw =
     (if has_nt_prefix raw then Some (drop 4 raw)
      else if raw \<noteq> [] \<and> raw ! 0 = 0x5C \<and> (length raw < 2 \<or> raw ! 1 \<noteq> 0x5C) then None
      else Some raw)"

definition starts_with_u16_ascii :: "u16 list \<Rightarrow> string \<Rightarrow> bool" where
  "starts_with_u16_ascii units p \<longleftrightarrow>
     length p \<le> length units \<and> take (length p) units = map of_char p"

definition u16_slice_fold :: "'a platform_scheme \<Rightarrow> u16 list \<Rightarrow> bool \<Rightarrow> string" where
  "u16_slice_fold pf raw folded =
     (if folded then from_utf16_lossy (nt_case_fold_utf16 pf raw) else from_utf16_lossy raw)"

definition nt_to_dos_impl :: "'a platform_scheme \<Rightarrow> u16 list \<Rightarrow> bool \<Rightarrow> string option" where
  "nt_to_dos_impl pf raw lowercase =
     (case strip_nt_prefix (takeWhile (\<lambda>u. u \<noteq> 0) raw) of
        None \<Rightarrow> None
      | Some stripped \<Rightarrow>
          if starts_with_u16_ascii stripped (win ''UNC|'') \<or> starts_with_u16_ascii stripped (win ''||'')
          then None
          else if length stripped \<ge> 2 \<and> stripped ! 1 = 0x3A
          then Some (u16_slice_fold pf stripped lowercase)
          else None)"

definition nt_to_dos :: "'a platform_scheme \<Rightarrow> u16 list \<Rightarrow> string option" where
  "nt_to_dos pf raw = nt_to_dos_impl pf raw False"

definition nt_to_dos_lower :: "'a platform_scheme \<Rightarrow> u16 list \<Rightarrow> string option" where
  "nt_to_dos_lower pf raw = nt_to_dos_impl pf raw True"

text \<open>\<^verbatim>\<open>dos_to_nt\<close>: prepend the four-character NT prefix, encode as UTF-16, append a NUL.\<close>

definition dos_to_nt :: "string \<Rightarrow> u16 list" where
  "dos_to_nt dos = encode_utf16 (utf8_decode (win ''|??|'' @ dos)) @ [0]"

section \<open>Folding dot segments\<close>

text \<open>
  The parts both folds share, over an alphabet with separators \<open>isp\<close> and dot \<open>d\<close>: the scan
  that decides whether anything has to be folded, the stack loop, and the rebuild loop.
\<close>

fun needs_fold :: "'c \<Rightarrow> nat \<Rightarrow> 'c list list \<Rightarrow> bool" where
  "needs_fold d idx [] = False"
| "needs_fold d idx (seg # rest) =
     (if seg = [d] \<or> seg = [d, d] then True
      else if seg = [] \<and> 0 < idx \<and> rest \<noteq> [] then True
      else needs_fold d (idx + 1) rest)"

fun fold_stack :: "'c \<Rightarrow> 'c list list \<Rightarrow> 'c list list \<Rightarrow> 'c list list" where
  "fold_stack d stack [] = stack"
| "fold_stack d stack (seg # rest) =
     (if seg = [] \<or> seg = [d] then fold_stack d stack rest
      else if seg = [d, d] then fold_stack d (butlast stack) rest
      else fold_stack d (stack @ [seg]) rest)"

definition ends_sep :: "('c \<Rightarrow> bool) \<Rightarrow> 'c list \<Rightarrow> bool" where
  "ends_sep isp out \<longleftrightarrow> out \<noteq> [] \<and> isp (last out)"

fun push_segs :: "('c \<Rightarrow> bool) \<Rightarrow> 'c \<Rightarrow> 'c list \<Rightarrow> 'c list list \<Rightarrow> 'c list" where
  "push_segs isp sep out [] = out"
| "push_segs isp sep out (s # ss) =
     push_segs isp sep ((if ends_sep isp out then out else out @ [sep]) @ s) ss"

definition rebuild :: "('c \<Rightarrow> bool) \<Rightarrow> 'c \<Rightarrow> 'c list \<Rightarrow> 'c list list \<Rightarrow> bool \<Rightarrow> 'c list" where
  "rebuild isp sep anchor stack trailing =
     (let out = push_segs isp sep anchor stack
      in if trailing \<and> \<not> ends_sep isp out then out @ [sep] else out)"

text \<open>The anchor of a DOS path: a drive with its separator, a bare drive, or a leading separator.\<close>

definition dos_anchor_len :: "string \<Rightarrow> nat option" where
  "dos_anchor_len b =
     (if length b \<ge> 2 \<and> b ! 1 = colon \<and> is_ascii_alphabetic (b ! 0)
      then Some (if length b \<ge> 3 \<and> is_sep (b ! 2) then 3 else 2)
      else if b \<noteq> [] \<and> is_sep (b ! 0) then Some 1
      else None)"

definition fold_dos_dots :: "string \<Rightarrow> string" where
  "fold_dos_dots dos =
     (if \<not> needs_fold dot 0 (split_by is_sep dos) then dos
      else (case dos_anchor_len dos of
          None \<Rightarrow> dos
        | Some n \<Rightarrow>
            rebuild is_sep bslash (take n dos)
              (fold_stack dot [] (split_by is_sep (drop n dos))) (ends_sep is_sep dos)))"

definition is_sep16 :: "u16 \<Rightarrow> bool" where
  "is_sep16 u \<longleftrightarrow> u = 0x5C \<or> u = 0x2F"

definition is_drive_letter16 :: "u16 \<Rightarrow> bool" where
  "is_drive_letter16 u \<longleftrightarrow> 0x41 \<le> u \<and> u \<le> 0x5A \<or> 0x61 \<le> u \<and> u \<le> 0x7A"

text \<open>
  The anchor of an NT path: the four-unit prefix, and the drive with its separator where
  there is one. \<open>None\<close> is the drive-relative form (no separator after the colon), which is left unchanged.
\<close>

definition nt_anchor_len :: "u16 list \<Rightarrow> nat option" where
  "nt_anchor_len raw =
     (if length raw \<ge> 6 \<and> is_drive_letter16 (raw ! 4) \<and> raw ! 5 = 0x3A
      then if length raw \<ge> 7 \<and> is_sep16 (raw ! 6) then Some 7 else None
      else Some 4)"

definition fold_nt_dots :: "u16 list \<Rightarrow> u16 list" where
  "fold_nt_dots raw =
     (if \<not> has_nt_prefix raw then raw
      else if \<not> needs_fold 0x2E 0 (split_by is_sep16 raw) then raw
      else (case nt_anchor_len raw of
          None \<Rightarrow> raw
        | Some n \<Rightarrow>
            rebuild is_sep16 0x5C (take n raw)
              (fold_stack 0x2E [] (split_by is_sep16 (drop n raw))) (ends_sep is_sep16 raw)))"

text \<open>\<^verbatim>\<open>dos_to_volume_relative\<close>: drop a leading \<^verbatim>\<open>x:\<close>.\<close>

definition dos_to_volume_relative :: "string \<Rightarrow> string" where
  "dos_to_volume_relative dos =
     (if length dos \<ge> 2 \<and> dos ! 1 = colon \<and> is_ascii_alphabetic (dos ! 0) then drop 2 dos else dos)"

text \<open>\<^verbatim>\<open>trim_trailing_sep\<close>: paths of at most three bytes (drive roots) are kept.\<close>

fun trim_seps :: "nat \<Rightarrow> string \<Rightarrow> nat" where
  "trim_seps 0 bytes = 0"
| "trim_seps (Suc n) bytes = (if 0 < n \<and> is_sep (bytes ! n) then trim_seps n bytes else Suc n)"

definition trim_trailing_sep :: "string \<Rightarrow> string" where
  "trim_trailing_sep s = (if length s \<le> 3 then s else take (trim_seps (length s) s) s)"

section \<open>Containment\<close>

definition has_dot_segment :: "string \<Rightarrow> bool" where
  "has_dot_segment p \<longleftrightarrow> list_ex (\<lambda>seg. seg = [dot] \<or> seg = [dot, dot]) (split_by is_sep p)"

text \<open>\<^verbatim>\<open>path_contained_in\<close> of \<^verbatim>\<open>decide/mod.rs\<close>.\<close>

definition path_contained_in :: "string \<Rightarrow> string \<Rightarrow> bool" where
  "path_contained_in path_lower root_lower =
     (if has_dot_segment path_lower then False
      else (let root = trim_end_matches (\<lambda>c. c = bslash) root_lower in
        if root = [] then False
        else if \<not> starts_with path_lower root then False
        else length path_lower = length root \<or> path_lower ! length root = bslash))"

section \<open>The folded path\<close>

text \<open>The segments the stack holds are ordinary names: non-empty, not dots, free of separators.\<close>

definition plain_segs :: "('c \<Rightarrow> bool) \<Rightarrow> 'c \<Rightarrow> 'c list list \<Rightarrow> bool" where
  "plain_segs isp d segs \<longleftrightarrow>
     (\<forall>g\<in>set segs. g \<noteq> [] \<and> g \<noteq> [d] \<and> g \<noteq> [d, d] \<and> (\<forall>x\<in>set g. \<not> isp x))"

lemma plain_segs_simps [simp]:
  "plain_segs isp d []"
  "plain_segs isp d (g # gs) \<longleftrightarrow>
     g \<noteq> [] \<and> g \<noteq> [d] \<and> g \<noteq> [d, d] \<and> (\<forall>x\<in>set g. \<not> isp x) \<and> plain_segs isp d gs"
  "plain_segs isp d (gs @ hs) \<longleftrightarrow> plain_segs isp d gs \<and> plain_segs isp d hs"
  by (auto simp: plain_segs_def)

lemma plain_segs_butlast: "plain_segs isp d gs \<Longrightarrow> plain_segs isp d (butlast gs)"
  by (auto simp: plain_segs_def dest: in_set_butlastD)

lemma fold_stack_plain:
  "plain_segs isp d stack \<Longrightarrow> \<forall>g\<in>set segs. \<forall>x\<in>set g. \<not> isp x \<Longrightarrow>
   plain_segs isp d (fold_stack d stack segs)"
  by (induction d stack segs rule: fold_stack.induct) (auto simp: plain_segs_butlast)

lemma fold_stack_split_plain: "plain_segs isp d (fold_stack d [] (split_by isp s))"
  by (rule fold_stack_plain) (auto dest: split_by_segments_free)

lemma fold_stack_id: "plain_segs isp d segs \<Longrightarrow> fold_stack d stack segs = stack @ segs"
  by (induction d stack segs rule: fold_stack.induct) auto

lemma fold_stack_append: "fold_stack d stack (xs @ ys) = fold_stack d (fold_stack d stack xs) ys"
  by (induction d stack xs rule: fold_stack.induct) auto

text \<open>Rebuilding then splitting gives the segments back, after those of the anchor.\<close>

lemma push_segs_join:
  "plain_segs isp d segs \<Longrightarrow> segs \<noteq> [] \<Longrightarrow>
   push_segs isp sep out segs = (if ends_sep isp out then out else out @ [sep]) @ join_with sep segs"
proof (induction segs arbitrary: out)
  case Nil
  then show ?case by simp
next
  case (Cons g gs)
  define out' where "out' = (if ends_sep isp out then out else out @ [sep]) @ g"
  have "\<not> ends_sep isp out'"
    using Cons.prems by (simp add: out'_def ends_sep_def)
  with Cons.IH [of out'] Cons.prems
  have "gs \<noteq> [] \<Longrightarrow> push_segs isp sep out' gs = out' @ sep # join_with sep gs" by simp
  moreover have "push_segs isp sep out (g # gs) = push_segs isp sep out' gs"
    by (simp add: out'_def)
  ultimately show ?case by (cases gs) (simp_all add: out'_def)
qed

lemma split_join_plain:
  "isp sep \<Longrightarrow> plain_segs isp d segs \<Longrightarrow> segs \<noteq> [] \<Longrightarrow> split_by isp (join_with sep segs) = segs"
proof (induction sep segs rule: join_with.induct)
  case (2 s x)
  then show ?case by (auto intro: split_by_no_sep)
next
  case (3 s x y ys)
  then show ?case by (simp add: split_by_append_sep split_by_no_sep)
qed simp

lemma last_join_plain:
  "plain_segs isp d segs \<Longrightarrow> segs \<noteq> [] \<Longrightarrow> join_with sep segs \<noteq> [] \<and> \<not> isp (last (join_with sep segs))"
  by (induction sep segs rule: join_with.induct) auto

lemma ends_sep_push_segs:
  "plain_segs isp d segs \<Longrightarrow> segs \<noteq> [] \<Longrightarrow> \<not> ends_sep isp (push_segs isp sep out segs)"
  using last_join_plain [of isp d segs sep] by (simp add: push_segs_join ends_sep_def)

text \<open>
  The anchors are of two shapes: one that ends with its separator, and the bare drive. In both
  the rebuilt path is the anchor, a separator if the anchor has none, the segments joined by
  the separator, and the trailing separator where the input had one.
\<close>

lemma rebuild_cases:
  assumes "plain_segs isp d segs"
  shows "rebuild isp sep anchor segs trailing =
    (if segs = [] then if trailing \<and> \<not> ends_sep isp anchor then anchor @ [sep] else anchor
     else (if ends_sep isp anchor then anchor else anchor @ [sep]) @ join_with sep segs
       @ (if trailing then [sep] else []))"
  using assms ends_sep_push_segs [OF assms]
  by (auto simp: rebuild_def Let_def push_segs_join [OF assms])

lemma split_rebuild:
  assumes "isp sep" and "plain_segs isp d segs" and "segs \<noteq> []"
  shows "split_by isp (rebuild isp sep anchor segs trailing) =
    (if ends_sep isp anchor then butlast (split_by isp anchor) else split_by isp anchor)
      @ segs @ (if trailing then [[]] else [])"
proof -
  have j: "split_by isp (join_with sep segs @ (if trailing then [sep] else [])) =
      segs @ (if trailing then [[]] else [])"
    using assms by (simp add: split_join_plain split_by_snoc_sep)
  show ?thesis
  proof (cases "ends_sep isp anchor")
    case True
    then obtain a x where a: "anchor = a @ [x]" "isp x"
      by (cases anchor rule: rev_cases) (auto simp: ends_sep_def)
    with True assms j show ?thesis
      by (simp add: rebuild_cases [OF assms(2)] split_by_append_sep split_by_snoc_sep)
  next
    case False
    with assms j show ?thesis
      by (simp add: rebuild_cases [OF assms(2)] split_by_append_sep)
  qed
qed

text \<open>No scan of a rebuilt path finds anything to fold.\<close>

lemma needs_fold_plain:
  "plain_segs isp d segs \<Longrightarrow> needs_fold d (Suc n) (segs @ (if trailing then [[]] else [])) = False"
proof (induction segs arbitrary: n)
  case Nil
  then show ?case by simp
next
  case (Cons g gs)
  then show ?case by simp
qed

lemma needs_fold_no_dots:
  "\<not> needs_fold d n segs \<Longrightarrow> \<forall>g\<in>set segs. g \<noteq> [d] \<and> g \<noteq> [d, d]"
proof (induction segs arbitrary: n)
  case Nil
  then show ?case by simp
next
  case (Cons g gs)
  then have "g \<noteq> [d] \<and> g \<noteq> [d, d]" and "\<not> needs_fold d (n + 1) gs"
    by (metis needs_fold.simps(2))+
  with Cons.IH show ?case by simp
qed

section \<open>What a DOS path resolves to\<close>

text \<open>
  The reference reading of an anchored path: its drive (empty for a rooted path without one)
  and the list of names left after \<open>.\<close> is dropped and \<open>..\<close> pops, clamped at the anchor, as
  the kernel clamps at the volume root.
\<close>

definition dos_resolve :: "string \<Rightarrow> (string \<times> string list) option" where
  "dos_resolve p =
     (case dos_anchor_len p of
        None \<Rightarrow> None
      | Some n \<Rightarrow> Some (takeWhile (\<lambda>c. \<not> is_sep c) (take n p),
          fold_stack dot [] (split_by is_sep (drop n p))))"

lemma alpha_not_special [simp]:
  "is_ascii_alphabetic c \<Longrightarrow> c \<noteq> bslash \<and> c \<noteq> fslash \<and> c \<noteq> dot \<and> c \<noteq> colon"
  by (auto simp: win_defs)

lemma not_sep_special [simp]: "\<not> is_sep colon" "\<not> is_sep dot" "is_sep bslash"
  "is_ascii_alphabetic c \<Longrightarrow> \<not> is_sep c"
  by (auto simp: is_sep_def)

lemma anchor_forms:
  assumes "dos_anchor_len p = Some n"
  obtains (root) l s r where "n = 3" "p = l # colon # s # r" "is_ascii_alphabetic l" "is_sep s"
  | (drive) l r where "n = 2" "p = l # colon # r" "is_ascii_alphabetic l" "r = [] \<or> \<not> is_sep (hd r)"
  | (rooted) s r where "n = 1" "p = s # r" "is_sep s"
proof (cases p)
  case Nil
  with assms show ?thesis by (simp add: dos_anchor_len_def)
next
  case (Cons a p')
  show ?thesis
  proof (cases "is_ascii_alphabetic a \<and> p' \<noteq> [] \<and> hd p' = colon")
    case True
    then obtain r where p: "p = a # colon # r" using Cons by (cases p') auto
    show ?thesis
    proof (cases "r \<noteq> [] \<and> is_sep (hd r)")
      case True': True
      then obtain s r' where "r = s # r'" "is_sep s" by (cases r) auto
      with p True assms root show ?thesis by (simp add: dos_anchor_len_def)
    next
      case False
      then have "dos_anchor_len p = Some 2" using p True by (cases r) (simp_all add: dos_anchor_len_def)
      with p True False assms drive show ?thesis by auto
    qed
  next
    case False
    then have "\<not> (length p \<ge> 2 \<and> p ! 1 = colon \<and> is_ascii_alphabetic (p ! 0))"
      using Cons by (cases p') auto
    then have "is_sep a \<and> n = 1" using assms Cons by (simp add: dos_anchor_len_def split: if_splits)
    with Cons rooted show ?thesis by blast
  qed
qed

lemma anchor_len_simps [simp]:
  "is_ascii_alphabetic l \<Longrightarrow> is_sep s \<Longrightarrow> dos_anchor_len (l # colon # s # r) = Some 3"
  "is_ascii_alphabetic l \<Longrightarrow> dos_anchor_len [l, colon] = Some 2"
  "is_sep s \<Longrightarrow> dos_anchor_len (s # r) = Some 1"
  by (auto simp: dos_anchor_len_def)

lemma fold_stack_tail:
  "plain_segs is_sep dot segs \<Longrightarrow> segs \<noteq> [] \<Longrightarrow>
   fold_stack dot [] (split_by is_sep (join_with bslash segs @ (if t then [bslash] else []))) = segs"
  by (simp add: split_by_snoc_sep split_join_plain fold_stack_append fold_stack_id)

lemma rebuild_Nil [simp]:
  "rebuild isp sep anchor [] trailing =
     (if trailing \<and> \<not> ends_sep isp anchor then anchor @ [sep] else anchor)"
  by (simp add: rebuild_def)

lemma anchor_ends_sep:
  "dos_anchor_len p = Some n \<Longrightarrow> ends_sep is_sep (take n p) \<longleftrightarrow> n \<noteq> 2"
  by (erule anchor_forms) (auto simp: ends_sep_def)

lemma dos_resolve_rebuild:
  assumes n: "dos_anchor_len p = Some n" and pl: "plain_segs is_sep dot segs"
  shows "dos_resolve (rebuild is_sep bslash (take n p) segs t) =
     Some (takeWhile (\<lambda>c. \<not> is_sep c) (take n p), segs)"
proof (cases "segs = []")
  case True
  from n show ?thesis
    by (cases rule: anchor_forms) (auto simp: True ends_sep_def dos_resolve_def)
next
  case False
  note tail = fold_stack_tail [OF pl False, of t]
  from n show ?thesis
    by (cases rule: anchor_forms)
      (simp_all add: False rebuild_cases [OF pl] ends_sep_def dos_resolve_def tail)
qed

lemma needs_fold_rebuild:
  assumes n: "dos_anchor_len p = Some n" and pl: "plain_segs is_sep dot segs"
  shows "\<not> needs_fold dot 0 (split_by is_sep (rebuild is_sep bslash (take n p) segs t))"
proof (cases "segs = []")
  case True
  from n show ?thesis
    by (cases rule: anchor_forms) (auto simp: True ends_sep_def)
next
  case False
  note sp = split_rebuild [of is_sep bslash, OF _ pl False]
  from n show ?thesis
    by (cases rule: anchor_forms)
      (simp_all add: sp ends_sep_def needs_fold_plain [OF pl, of 0, simplified])
qed

lemma dos_resolve_fold: "dos_resolve (fold_dos_dots p) = dos_resolve p"
proof (cases "dos_anchor_len p")
  case None
  then show ?thesis by (simp add: fold_dos_dots_def)
next
  case (Some n)
  show ?thesis
  proof (cases "needs_fold dot 0 (split_by is_sep p)")
    case True
    then have "fold_dos_dots p = rebuild is_sep bslash (take n p)
        (fold_stack dot [] (split_by is_sep (drop n p))) (ends_sep is_sep p)"
      using Some by (simp add: fold_dos_dots_def)
    then show ?thesis
      using dos_resolve_rebuild [OF Some fold_stack_split_plain] Some
      by (simp add: dos_resolve_def [of p])
  next
    case False
    then show ?thesis by (simp add: fold_dos_dots_def)
  qed
qed

lemma fold_dos_dots_stable:
  "dos_anchor_len p \<noteq> None \<Longrightarrow> \<not> needs_fold dot 0 (split_by is_sep (fold_dos_dots p))"
  by (auto simp: fold_dos_dots_def intro: needs_fold_rebuild [THEN notE] fold_stack_split_plain)

lemma fold_dos_dots_idem: "fold_dos_dots (fold_dos_dots p) = fold_dos_dots p"
proof (cases "dos_anchor_len p")
  case None
  then show ?thesis by (simp add: fold_dos_dots_def)
next
  case (Some n)
  then have "\<not> needs_fold dot 0 (split_by is_sep (fold_dos_dots p))"
    by (simp add: fold_dos_dots_stable)
  then show ?thesis by (simp add: fold_dos_dots_def [of "fold_dos_dots p"])
qed

lemma fold_dos_dots_no_dots:
  "dos_anchor_len p \<noteq> None \<Longrightarrow> \<not> has_dot_segment (fold_dos_dots p)"
  using needs_fold_no_dots [OF fold_dos_dots_stable, of p]
  by (auto simp: has_dot_segment_def list_ex_iff)

section \<open>Containment as a prefix of segment lists\<close>

lemma segs_all_append: "segs_all (a @ bslash # b) = segs_all a @ segs_all b"
  by (simp add: segs_all_def split_by_append_sep)

lemma join_segs_all [simp]: "join_with bslash (segs_all a) = a"
  by (simp add: segs_all_def)

lemma segs_all_nonempty [simp]: "segs_all a \<noteq> []"
  by (simp add: segs_all_def)

lemma segs_all_free: "g \<in> set (segs_all a) \<Longrightarrow> bslash \<notin> set g"
  unfolding segs_all_def using split_by_segments_free [of g "\<lambda>c. c = bslash" a bslash] by blast

lemma prefix_segs_all:
  "prefix (segs_all r) (segs_all p) \<longleftrightarrow> p = r \<or> (\<exists>t. p = r @ bslash # t)"
proof
  assume "prefix (segs_all r) (segs_all p)"
  then obtain zs where zs: "segs_all p = segs_all r @ zs" by (auto simp: prefix_def)
  then have "p = join_with bslash (segs_all r @ zs)" by (metis join_segs_all)
  then show "p = r \<or> (\<exists>t. p = r @ bslash # t)"
    by (cases "zs = []") (auto simp: join_with_append)
next
  assume "p = r \<or> (\<exists>t. p = r @ bslash # t)"
  then show "prefix (segs_all r) (segs_all p)" by (auto simp: segs_all_append)
qed

lemma path_contained_in_segs:
  "path_contained_in p root \<longleftrightarrow>
     \<not> has_dot_segment p \<and> trim_end_matches (\<lambda>c. c = bslash) root \<noteq> [] \<and>
     prefix (segs_all (trim_end_matches (\<lambda>c. c = bslash) root)) (segs_all p)"
proof -
  let ?r = "trim_end_matches (\<lambda>c. c = bslash) root"
  have "starts_with p ?r \<and> (length p = length ?r \<or> p ! length ?r = bslash) \<longleftrightarrow>
        p = ?r \<or> (\<exists>t. p = ?r @ bslash # t)" if "?r \<noteq> []" for p
  proof
    assume h: "starts_with p ?r \<and> (length p = length ?r \<or> p ! length ?r = bslash)"
    then obtain t where "p = ?r @ t" by (auto simp: starts_with_iff)
    with h show "p = ?r \<or> (\<exists>t. p = ?r @ bslash # t)"
      by (cases t) auto
  qed (auto simp: starts_with_iff)
  then show ?thesis
    unfolding path_contained_in_def prefix_segs_all Let_def by auto
qed

lemma path_contained_in_child:
  "path_contained_in p root \<Longrightarrow> \<not> has_dot_segment (p @ bslash # t) \<Longrightarrow>
   path_contained_in (p @ bslash # t) root"
  by (auto simp: path_contained_in_segs segs_all_append)

section \<open>Trailing separators\<close>

lemma trim_seps_le: "trim_seps n s \<le> n"
  by (induction n) auto

lemma trim_seps_pos: "0 < n \<Longrightarrow> 0 < trim_seps n s"
  by (induction n) auto

lemma trim_seps_stop:
  "0 < n \<Longrightarrow> trim_seps n s = 1 \<or> \<not> is_sep (s ! (trim_seps n s - 1))"
  by (induction n) auto

lemma trim_seps_fixed: "trim_seps n s = n \<longleftrightarrow> n \<le> 1 \<or> \<not> is_sep (s ! (n - 1))"
proof (cases n)
  case (Suc m)
  then show ?thesis using trim_seps_le [of m s] by auto
qed simp

lemma trim_trailing_sep_idem [simp]: "trim_trailing_sep (trim_trailing_sep s) = trim_trailing_sep s"
proof (cases "length s \<le> 3")
  case False
  define n where "n = trim_seps (length s) s"
  have n: "n \<le> length s" "0 < n" "n = 1 \<or> \<not> is_sep (s ! (n - 1))"
    using trim_seps_le [of "length s" s] trim_seps_pos [of "length s" s]
      trim_seps_stop [of "length s" s] False unfolding n_def by linarith+
  then have "trim_seps n (take n s) = n"
    using trim_seps_fixed [of n "take n s"] by auto
  moreover have "trim_trailing_sep s = take n s" using False by (simp add: trim_trailing_sep_def n_def)
  moreover have "length (take n s) = n" using n(1) by simp
  ultimately show ?thesis by (simp add: trim_trailing_sep_def [of "take n s"] del: length_take)
qed (simp add: trim_trailing_sep_def)

lemma trim_trailing_sep_take:
  "\<exists>n. trim_trailing_sep s = take n s \<and> (\<forall>i. n \<le> i \<and> i < length s \<longrightarrow> is_sep (s ! i))"
proof (cases "length s \<le> 3")
  case True
  then show ?thesis by (intro exI [of _ "length s"]) (auto simp: trim_trailing_sep_def)
next
  case False
  have "\<And>n i. trim_seps n s \<le> i \<Longrightarrow> i < n \<Longrightarrow> is_sep (s ! i)"
  proof -
    fix n i assume "trim_seps n s \<le> i" "i < n"
    then show "is_sep (s ! i)"
      by (induction n) (auto split: if_splits simp: less_Suc_eq)
  qed
  with False show ?thesis
    by (intro exI [of _ "trim_seps (length s) s"]) (auto simp: trim_trailing_sep_def)
qed

section \<open>Round trips between DOS and NT form\<close>

lemma utf8_decode_append_ascii: "is_ascii a \<Longrightarrow> utf8_decode (a @ s) = map of_char a @ utf8_decode s"
  by (induction a) (auto simp: is_ascii_def is_ascii_char_def)

lemma of_char_colon16: "(of_char colon :: u16) = 0x3A" by simp

lemma encode_utf16_ascii: "is_ascii a \<Longrightarrow> encode_utf16 (map of_char a @ cs) = map of_char a @ encode_utf16 cs"
proof (induction a)
  case (Cons c a)
  then have "(of_char c :: nat) < 0x10000" by (simp add: is_ascii_def is_ascii_char_def)
  moreover have "(of_nat (of_char c) :: u16) = of_char c" by (rule of_nat_of_char)
  ultimately show ?case using Cons by (simp add: encode_utf16_def utf16_enc1_def is_ascii_def)
qed simp

lemma u16_zero_of_nat: "k < 65536 \<Longrightarrow> (0::u16) = of_nat k \<longleftrightarrow> k = 0"
proof
  assume k: "k < 65536" and "(0::u16) = of_nat k"
  then have "unat (0::u16) = unat (of_nat k :: u16)" by (simp only:)
  with k show "k = 0" by (simp add: unat_of_nat_u16)
qed simp

lemma unat_u16_zero: "is_scalar n \<Longrightarrow> 0 \<in> set (utf16_enc1 n) \<longleftrightarrow> n = 0"
proof -
  assume n: "is_scalar n"
  show ?thesis
  proof (cases "n < 0x10000")
    case True
    then show ?thesis using u16_zero_of_nat [of n] by (simp add: utf16_enc1_def)
  next
    case False
    define q m where "q = (n - 0x10000) div 1024" and "m = (n - 0x10000) mod 1024"
    from n False have "q < 1024" "m < 1024" by (simp_all add: is_scalar_def q_def m_def)
    then have "(0::u16) = of_nat (0xD800 + q) \<longleftrightarrow> 0xD800 + q = 0" "(0::u16) = of_nat (0xDC00 + m) \<longleftrightarrow> 0xDC00 + m = 0"
      by (intro u16_zero_of_nat; simp)+
    moreover have "utf16_enc1 n = [of_nat (0xD800 + q), of_nat (0xDC00 + m)]"
      using False by (simp only: utf16_enc1_def q_def m_def if_False)
    ultimately have "0 \<notin> set (utf16_enc1 n)" by (simp only: list.set insert_iff empty_iff) simp
    then show ?thesis using False by auto
  qed
qed

lemma encode_utf16_no_nul:
  "list_all is_scalar cs \<Longrightarrow> 0 \<notin> set cs \<Longrightarrow> 0 \<notin> set (encode_utf16 cs)"
  by (induction cs) (auto simp: encode_utf16_def unat_u16_zero)

lemma utf8_enc1_zero: "utf8_enc1 0 = [CHR 0x00]"
  by (simp add: utf8_enc1_def char_of_def)

lemma valid_utf8_no_nul: "valid_utf8 d \<Longrightarrow> CHR 0x00 \<notin> set d \<Longrightarrow> 0 \<notin> set (utf8_decode d)"
proof
  assume v: "valid_utf8 d" and nul: "CHR 0x00 \<notin> set d" and z: "0 \<in> set (utf8_decode d)"
  from z have "set (utf8_enc1 0) \<subseteq> set (utf8_encode (utf8_decode d))"
    unfolding utf8_encode_def by fastforce
  with v nul show False by (simp add: valid_utf8_def utf8_enc1_zero)
qed

text \<open>A drive path in NT form: what \<^verbatim>\<open>strip_nt_prefix\<close> leaves is the path itself.\<close>

lemma nt_units_drive:
  assumes "is_ascii_char l"
  shows "encode_utf16 (utf8_decode (l # colon # r)) = of_char l # 0x3A # encode_utf16 (utf8_decode r)"
  using assms encode_utf16_ascii [of "[l, colon]" "utf8_decode r"]
  by (simp add: is_ascii_def is_ascii_char_def)

lemma nt_to_dos_impl_drive:
  assumes v: "valid_utf8 (l # colon # r)" and nul: "CHR 0x00 \<notin> set (l # colon # r)" and l: "is_ascii_char l"
  shows "nt_to_dos_impl pf (dos_to_nt (l # colon # r)) lo =
     Some (u16_slice_fold pf (encode_utf16 (utf8_decode (l # colon # r))) lo)"
proof -
  let ?u = "encode_utf16 (utf8_decode (l # colon # r))"
  have u: "?u = of_char l # 0x3A # encode_utf16 (utf8_decode r)" by (rule nt_units_drive [OF l])
  have nt: "dos_to_nt (l # colon # r) = [0x5C, 0x3F, 0x3F, 0x5C] @ ?u @ [0]"
    using encode_utf16_ascii [of "win ''|??|''" "utf8_decode (l # colon # r)"]
      utf8_decode_append_ascii [of "win ''|??|''" "l # colon # r"]
    by (simp add: dos_to_nt_def win_defs)
  have "0 \<notin> set ?u"
    using v nul by (intro encode_utf16_no_nul valid_utf8_no_nul) (auto simp: valid_utf8_def)
  then have "takeWhile (\<lambda>u. u \<noteq> 0) (?u @ [0]) = ?u"
    by (induction ?u) (auto simp: takeWhile_append)
  then have tw: "takeWhile (\<lambda>u. u \<noteq> 0) (dos_to_nt (l # colon # r)) = [0x5C, 0x3F, 0x3F, 0x5C] @ ?u"
    by (simp add: nt)
  have st: "strip_nt_prefix ([0x5C, 0x3F, 0x3F, 0x5C] @ ?u) = Some ?u"
    using u by (simp add: strip_nt_prefix_def has_nt_prefix_def)
  show ?thesis unfolding nt_to_dos_impl_def tw st
    using u by (simp add: starts_with_u16_ascii_def win_defs)
qed

lemma from_utf16_encode: "valid_utf8 d \<Longrightarrow> from_utf16_lossy (encode_utf16 (utf8_decode d)) = d"
  by (simp add: from_utf16_lossy_def valid_utf8_def utf16_decode_encode)

lemma u16_slice_fold_encode:
  assumes "valid_utf8 d" and "fold_lawful pf"
  shows "u16_slice_fold pf (encode_utf16 (utf8_decode d)) True = nt_case_fold pf d"
proof -
  have sc: "list_all is_scalar (utf8_decode d)" using assms by (simp add: valid_utf8_def)
  then show ?thesis using assms
    by (simp add: u16_slice_fold_def nt_case_fold_utf16_def fold_units_encode from_utf16_lossy_def
        utf16_decode_encode map_fold_scalar_scalars nt_case_fold_scalars)
qed

section \<open>Properties\<close>

text \<open>
  folding dot segments keeps the resolved meaning of every path (drive and names, \<open>..\<close> clamped at the
  anchor), is idempotent, and leaves no \<open>.\<close> or \<open>..\<close> segment in an anchored path, so that the path the policy
  decides on is the path the kernel acts on.
\<close>

theorem fold_dos_dots_correct:
  "dos_resolve (fold_dos_dots p) = dos_resolve p \<and>
   fold_dos_dots (fold_dos_dots p) = fold_dos_dots p \<and>
   (dos_anchor_len p \<noteq> None \<longrightarrow> \<not> has_dot_segment (fold_dos_dots p))"
  by (simp add: dos_resolve_fold fold_dos_dots_idem fold_dos_dots_no_dots)

theorem fold_dos_dots_correct_witness:
  "dos_anchor_len (win ''c:|a|..|..|b|.|c|'') \<noteq> None \<and>
   \<not> has_dot_segment (fold_dos_dots (win ''c:|a|..|..|b|.|c|'')) \<and>
   fold_dos_dots (win ''c:|a|..|..|b|.|c|'') = win ''c:|b|c|''"
  using fold_dos_dots_correct [of "win ''c:|a|..|..|b|.|c|''"]
  by (simp add: win_defs dos_anchor_len_def fold_dos_dots_def rebuild_def ends_sep_def)

text \<open>
  \<open>path_contained_in\<close> is segment-wise containment: a path lies in a root exactly when it has no dot
  segment, the root is not empty after its trailing backslashes are dropped, and the root's segments are a
  prefix of the path's. A sibling whose name merely starts with the root's last segment is outside.
\<close>

theorem path_contained_in_correct:
  "path_contained_in p root \<longleftrightarrow>
     \<not> has_dot_segment p \<and> trim_end_matches (\<lambda>c. c = bslash) root \<noteq> [] \<and>
     prefix (segs_all (trim_end_matches (\<lambda>c. c = bslash) root)) (segs_all p)"
  by (rule path_contained_in_segs)

text \<open>
  a drive path survives the conversion to NT form and back: \<open>nt_to_dos\<close> recovers the path
  \<open>dos_to_nt\<close> was given, and \<open>nt_to_dos_lower\<close> its case fold, for every valid UTF-8 path with no NUL.
\<close>

theorem nt_dos_round_trip:
  assumes "valid_utf8 (l # colon # r)" and "CHR 0x00 \<notin> set (l # colon # r)" and "is_ascii_char l"
  shows "nt_to_dos pf (dos_to_nt (l # colon # r)) = Some (l # colon # r) \<and>
    (fold_lawful pf \<longrightarrow> nt_to_dos_lower pf (dos_to_nt (l # colon # r)) = Some (nt_case_fold pf (l # colon # r)))"
proof -
  have "u16_slice_fold pf (encode_utf16 (utf8_decode (l # colon # r))) False = l # colon # r"
    unfolding u16_slice_fold_def using from_utf16_encode [OF assms(1)] by simp
  then show ?thesis
    unfolding nt_to_dos_def nt_to_dos_lower_def nt_to_dos_impl_drive [OF assms]
    using u16_slice_fold_encode [OF assms(1), of pf] by (simp del: utf8_decode.simps)
qed

theorem nt_dos_round_trip_witness:
  "valid_utf8 (win ''C:|Tmp'') \<and> fold_lawful ascii_platform \<and>
   nt_to_dos ascii_platform (dos_to_nt (win ''C:|Tmp'')) = Some (win ''C:|Tmp'')"
proof -
  have w: "win ''C:|Tmp'' = CHR ''C'' # colon # win ''|Tmp''" by (simp add: win_defs)
  have "valid_utf8 (win ''C:|Tmp'')"
    by (intro ascii_valid_utf8) (simp add: win_defs)
  then show ?thesis
    using nt_dos_round_trip [of "CHR ''C''" "win ''|Tmp''" ascii_platform] unfolding w
    by (simp add: is_ascii_char_def win_defs)
qed

end
