(* ===== verification/OverlayLayout.thy ===== *)
theory OverlayLayout
  imports DosPath
begin

text \<open>
  Where a virtual path lives in the overlay: \<^verbatim>\<open>mirror_into_overlay\<close>, the same-volume
  \<^verbatim>\<open>OverlayLayout\<close> and the inverse functions of \<^verbatim>\<open>winrsbox-policy/src/path/mod.rs\<close>, over the parts
  of \<^verbatim>\<open>std::path\<close> for Windows they use. Overlay roots are drive paths or relative paths, as the
  launcher builds them: verbatim and UNC prefixes of \<^verbatim>\<open>std::path\<close> are not modelled.
\<close>

section \<open>The Windows part of std::path\<close>

datatype component = Prefix char | RootDir | CurDir | ParentDir | Normal string

definition ascii_upper :: "char \<Rightarrow> char" where
  [win_defs]: "ascii_upper c = (if is_ascii_lowercase c then char_of (of_char c - (32::nat)) else c)"

text \<open>A leading drive, which \<^verbatim>\<open>std\<close> parses as a prefix and stores in upper case.\<close>

definition has_drive :: "string \<Rightarrow> bool" where
  [win_defs]: "has_drive s \<longleftrightarrow> length s \<ge> 2 \<and> is_ascii_alphabetic (s ! 0) \<and> s ! 1 = colon"

definition body_components :: "string \<Rightarrow> component list" where
  "body_components s =
     map (\<lambda>g. if g = [dot, dot] then ParentDir else Normal g)
       (filter (\<lambda>g. g \<noteq> [] \<and> g \<noteq> [dot]) (split_by is_sep s))"

text \<open>\<^verbatim>\<open>Path::components\<close>: prefix, root, a leading \<open>.\<close> of a path without root, then the segments.\<close>

definition win_components :: "string \<Rightarrow> component list" where
  "win_components s =
     (let rest = (if has_drive s then drop 2 s else s) in
      (if has_drive s then [Prefix (ascii_upper (s ! 0))] else []) @
      (if rest \<noteq> [] \<and> is_sep (rest ! 0) then [RootDir]
       else if hd (split_by is_sep rest) = [dot] then [CurDir] else []) @
      body_components rest)"

definition component_str :: "component \<Rightarrow> string" where
  "component_str c =
     (case c of Prefix d \<Rightarrow> [d, colon] | RootDir \<Rightarrow> [] | CurDir \<Rightarrow> [dot] | ParentDir \<Rightarrow> [dot, dot]
      | Normal g \<Rightarrow> g)"

text \<open>
  \<^verbatim>\<open>PathBuf::push\<close> of one component: a component with a drive replaces the buffer; otherwise a separator
  goes between, unless the buffer is empty, ends with one, or is a bare drive.
\<close>

definition path_push :: "string \<Rightarrow> string \<Rightarrow> string" where
  "path_push out c =
     (if has_drive c then c
      else if out = [] \<or> is_sep (last out) \<or> has_drive out \<and> length out = 2 then out @ c
      else out @ bslash # c)"

text \<open>
  \<^verbatim>\<open>Path::strip_prefix\<close> compares components; the rest is a path again, and its components are
  parsed anew from its text.
\<close>

fun components_path :: "component list \<Rightarrow> string" where
  "components_path (RootDir # cs) = bslash # join_with bslash (map component_str cs)"
| "components_path cs = join_with bslash (map component_str cs)"

definition path_strip_prefix :: "string \<Rightarrow> string \<Rightarrow> component list option" where
  "path_strip_prefix p base =
     map_option (\<lambda>rest. win_components (components_path rest))
       (strip_prefix (win_components base) (win_components p))"

section \<open>Mirroring\<close>

fun push_normals :: "string \<Rightarrow> component list \<Rightarrow> string" where
  "push_normals out [] = out"
| "push_normals out (Normal c # cs) = push_normals (path_push out c) cs"
| "push_normals out (_ # cs) = push_normals out cs"

definition to_backslashes :: "string \<Rightarrow> string" where
  [win_defs]: "to_backslashes s = map (\<lambda>c. if c = fslash then bslash else c) s"

definition mirror_into_overlay :: "string \<Rightarrow> string \<Rightarrow> string" where
  "mirror_into_overlay dos_lower root =
     (let sanitized = trim_start_matches (\<lambda>c. c = bslash)
            (to_backslashes (filter (\<lambda>c. c \<noteq> colon) dos_lower))
      in push_normals root (win_components sanitized))"

record overlay_layout =
  primary_root :: string
  per_drive :: "(char \<times> string) list" \<comment> \<open>\<^verbatim>\<open>BTreeMap<char, PathBuf>\<close>\<close>

definition layout_single :: "string \<Rightarrow> overlay_layout" where
  "layout_single primary = \<lparr>primary_root = primary, per_drive = []\<rparr>"

definition layout_new :: "string \<Rightarrow> (char \<times> string) list \<Rightarrow> overlay_layout" where
  "layout_new primary drives =
     \<lparr>primary_root = primary,
      per_drive = foldl (\<lambda>m (c, p). btree_insert (ascii_lower c) p m) [] drives\<rparr>"

definition set_drive_root :: "overlay_layout \<Rightarrow> char \<Rightarrow> string \<Rightarrow> overlay_layout" where
  "set_drive_root l drive root = l\<lparr>per_drive := btree_insert (ascii_lower drive) root (per_drive l)\<rparr>"

text \<open>The root for a path: the drive letter is its first character; only ASCII letters are looked up.\<close>

definition root_for :: "overlay_layout \<Rightarrow> string \<Rightarrow> string" where
  "root_for l dos_lower =
     (let drive = ascii_lower (if dos_lower = [] then CHR 0x00 else hd dos_lower) in
      if is_ascii_alphabetic drive
      then (case map_of (per_drive l) drive of Some r \<Rightarrow> r | None \<Rightarrow> primary_root l)
      else primary_root l)"

definition all_roots :: "overlay_layout \<Rightarrow> (char option \<times> string) list" where
  "all_roots l = (None, primary_root l) # map (\<lambda>(c, p). (Some c, p)) (per_drive l)"

definition mirror_into_overlay_layout :: "string \<Rightarrow> overlay_layout \<Rightarrow> string" where
  "mirror_into_overlay_layout dos_lower l =
     (let root = root_for l dos_lower;
          rest = dos_to_volume_relative dos_lower;
          sanitized = trim_start_matches (\<lambda>c. c = bslash) (to_backslashes rest)
      in push_normals root (win_components sanitized))"

section \<open>Unmirroring\<close>

fun append_normals :: "string \<Rightarrow> component list \<Rightarrow> string option" where
  "append_normals out [] = Some out"
| "append_normals out (Normal s # cs) = append_normals (out @ bslash # s) cs"
| "append_normals out (_ # cs) = None"

definition primary_drive :: "string \<Rightarrow> char" where
  "primary_drive root =
     (if root \<noteq> [] \<and> is_ascii_alphabetic (hd root) then ascii_lower (hd root) else CHR ''c'')"

fun unmirror_scan :: "string \<Rightarrow> (char option \<times> string) list \<Rightarrow> string option" where
  "unmirror_scan overlay_path [] = None"
| "unmirror_scan overlay_path ((drive_opt, root) # roots) =
     (case path_strip_prefix overlay_path root of
        Some rest \<Rightarrow>
          append_normals [case drive_opt of Some d \<Rightarrow> d | None \<Rightarrow> primary_drive root, colon] rest
      | None \<Rightarrow> unmirror_scan overlay_path roots)"

definition unmirror_from_overlay_layout :: "string \<Rightarrow> overlay_layout \<Rightarrow> string option" where
  "unmirror_from_overlay_layout overlay_path l = unmirror_scan overlay_path (all_roots l)"

definition unmirror_from_overlay :: "string \<Rightarrow> string \<Rightarrow> string option" where
  "unmirror_from_overlay overlay_path root =
     (case path_strip_prefix overlay_path root of
        None \<Rightarrow> None
      | Some [] \<Rightarrow> None
      | Some (c # comps) \<Rightarrow>
          (let drive = component_str c in
           if length drive \<noteq> 1 \<or> \<not> is_ascii_alphabetic (drive ! 0) then None
           else append_normals (drive @ [colon]) comps))"

section \<open>The names a mirrored path adds\<close>

text \<open>Names that a push appends: plain segments with no colon, so that none is parsed as a drive.\<close>

definition plain_names :: "string list \<Rightarrow> bool" where
  "plain_names names \<longleftrightarrow> plain_segs is_sep dot names \<and> (\<forall>g\<in>set names. \<not> has_drive g)"

definition mirror_names :: "string \<Rightarrow> string list" where
  "mirror_names s = filter (\<lambda>g. g \<noteq> [] \<and> g \<noteq> [dot] \<and> g \<noteq> [dot, dot]) (split_by is_sep s)"

fun normals :: "component list \<Rightarrow> string list" where
  "normals [] = []"
| "normals (Normal g # cs) = g # normals cs"
| "normals (_ # cs) = normals cs"

lemma push_normals_names: "push_normals out cs = foldl path_push out (normals cs)"
  by (induction out cs rule: push_normals.induct) auto

lemma normals_append [simp]: "normals (xs @ ys) = normals xs @ normals ys"
  by (induction xs rule: normals.induct) auto

lemma normals_body: "normals (body_components s) = mirror_names s"
proof -
  have "normals (map (\<lambda>g. if g = [dot, dot] then ParentDir else Normal g) (filter (\<lambda>g. g \<noteq> [] \<and> g \<noteq> [dot]) segs))
      = filter (\<lambda>g. g \<noteq> [] \<and> g \<noteq> [dot] \<and> g \<noteq> [dot, dot]) segs" for segs
    by (induction segs) auto
  then show ?thesis by (simp add: body_components_def mirror_names_def)
qed

lemma normals_win_components:
  "normals (win_components s) = mirror_names (if has_drive s then drop 2 s else s)"
  by (simp add: win_components_def Let_def normals_body)

text \<open>The root or \<open>.\<close> a path without its drive begins with.\<close>

definition lead_components :: "string \<Rightarrow> component list" where
  "lead_components rest =
     (if rest \<noteq> [] \<and> is_sep (rest ! 0) then [RootDir]
      else if hd (split_by is_sep rest) = [dot] then [CurDir] else [])"

lemma win_components_alt:
  "win_components s =
     (if has_drive s then Prefix (ascii_upper (s ! 0)) # lead_components (drop 2 s) @ body_components (drop 2 s)
      else lead_components s @ body_components s)"
  by (cases "has_drive s")
    (simp_all add: win_components_def lead_components_def Let_def del: drop_eq_Nil nth_drop)

lemma components_Nil [simp]:
  "lead_components [] = []" "body_components [] = []" "win_components [] = []" "\<not> has_drive []"
  by (simp_all add: win_components_alt lead_components_def body_components_def has_drive_def)

lemma lead_components_append:
  assumes "r \<noteq> []" and "is_sep x"
  shows "lead_components (r @ x # t) = lead_components r"
proof -
  have "hd (split_by is_sep (r @ x # t)) = hd (split_by is_sep r)"
    using assms(2) by (simp add: split_by_append_sep)
  with assms(1) show ?thesis by (simp add: lead_components_def nth_append)
qed

lemma body_components_append:
  "is_sep x \<Longrightarrow> body_components (r @ x # t) = body_components r @ body_components t"
  by (simp add: body_components_def split_by_append_sep)

lemma body_components_name:
  assumes "g \<noteq> []" "g \<noteq> [dot]" "g \<noteq> [dot, dot]" "\<forall>x\<in>set g. \<not> is_sep x"
  shows "body_components g = [Normal g]" "lead_components g = []"
proof -
  have "split_by is_sep g = [g]" using assms(4) by (rule split_by_no_sep)
  then show "body_components g = [Normal g]" "lead_components g = []"
    using assms by (cases g, auto simp: body_components_def lead_components_def)+
qed

lemma body_components_sep_end: "is_sep x \<Longrightarrow> body_components (r @ [x]) = body_components r"
  by (simp add: body_components_def split_by_snoc_sep)

lemma has_drive_append_sep:
  assumes "is_sep x"
  shows "has_drive (out @ x # t) = has_drive out"
proof -
  have "x \<noteq> colon" "\<not> is_ascii_alphabetic x" using assms by auto
  then show ?thesis by (cases out; cases "tl out") (auto simp: has_drive_def)
qed

lemma drop_drive:
  "has_drive s \<longleftrightarrow> (\<exists>l r. s = l # colon # r \<and> is_ascii_alphabetic l)"
  by (cases s; cases "tl s") (auto simp: has_drive_def)

lemma win_components_join:
  assumes "is_sep x" and "out \<noteq> []" and "\<not> (has_drive out \<and> length out = 2)"
  shows "win_components (out @ x # t) = win_components out @ body_components t"
proof (cases "has_drive out")
  case True
  then obtain l r where o: "out = l # colon # r" "is_ascii_alphabetic l" by (auto simp: drop_drive)
  with assms(3) True have "r \<noteq> []" by auto
  with o assms(1) show ?thesis
    using has_drive_append_sep [OF assms(1), of out t] True
    by (simp add: win_components_alt lead_components_append body_components_append)
next
  case False
  with assms show ?thesis
    using has_drive_append_sep [OF assms(1), of out t]
    by (simp add: win_components_alt lead_components_append body_components_append)
qed

text \<open>Pushing an ordinary name appends one component, whatever the buffer.\<close>

lemma win_components_push:
  assumes g: "g \<noteq> []" "g \<noteq> [dot]" "g \<noteq> [dot, dot]" "\<forall>x\<in>set g. \<not> is_sep x" and d: "\<not> has_drive g"
  shows "win_components (path_push out g) = win_components out @ [Normal g]"
proof -
  note b = body_components_name [OF g]
  consider "out = []" | "out \<noteq> []" "is_sep (last out)" | "has_drive out" "length out = 2"
    | "out \<noteq> []" "\<not> is_sep (last out)" "\<not> (has_drive out \<and> length out = 2)" by blast
  then show ?thesis
  proof cases
    case 1
    then show ?thesis using d b
      by (simp add: path_push_def win_components_alt)
  next
    case 2
    then obtain r x where o: "out = r @ [x]" "is_sep x" by (cases out rule: rev_cases) auto
    show ?thesis
    proof (cases "r = []")
      case True
      have "\<not> has_drive (x # g)" "\<not> has_drive [x]" using o by (auto simp: drop_drive)
      with True o d b g show ?thesis
        by (simp add: path_push_def win_components_alt lead_components_def body_components_def)
    next
      case False
      show ?thesis
      proof (cases "has_drive r \<and> length r = 2")
        case True
        then obtain l where r: "r = [l, colon]" "is_ascii_alphabetic l" by (auto simp: drop_drive)
        with o d b g show ?thesis
          by (simp add: path_push_def win_components_alt lead_components_def body_components_def drop_drive)
      next
        case F: False
        with o d b 2 show ?thesis
          using win_components_join [OF o(2) False F, of g] win_components_join [OF o(2) False F, of "[]"]
          by (simp add: path_push_def)
      qed
    qed
  next
    case 3
    then obtain l where o: "out = [l, colon]" "is_ascii_alphabetic l" by (auto simp: drop_drive)
    with d b show ?thesis
      by (simp add: path_push_def win_components_alt drop_drive)
  next
    case 4
    then show ?thesis using d b win_components_join [of bslash out g]
      by (auto simp: path_push_def)
  qed
qed

lemma win_components_pushes:
  "plain_names names \<Longrightarrow> win_components (foldl path_push out names) = win_components out @ map Normal names"
proof (induction names arbitrary: out)
  case (Cons g names)
  then have "plain_names names" and "win_components (path_push out g) = win_components out @ [Normal g]"
    by (auto simp: plain_names_def intro: win_components_push)
  with Cons.IH [of "path_push out g"] show ?case by simp
qed simp

lemma mirror_names_plain: "plain_segs is_sep dot (mirror_names s)"
  by (auto simp: plain_segs_def mirror_names_def dest: split_by_segments_free)

lemma mirror_names_in: "g \<in> set (mirror_names s) \<Longrightarrow> set g \<subseteq> set s"
  by (auto simp: mirror_names_def dest: split_by_in_set)

lemma split_to_backslashes: "split_by is_sep (to_backslashes s) = split_by is_sep s"
  by (induction s) (auto simp: to_backslashes_def split: list.splits simp: is_sep_def)

lemma mirror_names_trim: "mirror_names (trim_start_matches (\<lambda>c. c = bslash) s) = mirror_names s"
  by (induction s) (auto simp: trim_start_matches_def mirror_names_def)

lemma mirror_names_sanitized:
  "mirror_names (trim_start_matches (\<lambda>c. c = bslash) (to_backslashes s)) = mirror_names s"
  by (simp only: mirror_names_trim) (simp only: mirror_names_def split_to_backslashes)

lemma set_trim_start: "set (trim_start_matches p s) \<subseteq> set s"
  by (auto simp: trim_start_matches_def dest: set_dropWhileD)

lemma no_colon_no_drive: "colon \<notin> set s \<Longrightarrow> \<not> has_drive s"
  by (auto simp: drop_drive)

lemma mirror_into_overlay_names:
  "mirror_into_overlay d root = foldl path_push root (mirror_names (filter (\<lambda>c. c \<noteq> colon) d))"
proof -
  let ?s = "trim_start_matches (\<lambda>c. c = bslash) (to_backslashes (filter (\<lambda>c. c \<noteq> colon) d))"
  have "colon \<notin> set ?s"
    using set_trim_start [of "\<lambda>c. c = bslash" "to_backslashes (filter (\<lambda>c. c \<noteq> colon) d)"]
    by (auto simp: to_backslashes_def split: if_splits)
  then show ?thesis
    by (simp add: mirror_into_overlay_def Let_def push_normals_names normals_win_components
        no_colon_no_drive mirror_names_sanitized)
qed

text \<open>The names of a path below its volume root, as the layout functions see them.\<close>

definition volume_names :: "string \<Rightarrow> string list" where
  "volume_names d =
     (let s = trim_start_matches (\<lambda>c. c = bslash) (to_backslashes (dos_to_volume_relative d))
      in mirror_names (if has_drive s then drop 2 s else s))"

lemma mirror_layout_names:
  "mirror_into_overlay_layout d l = foldl path_push (root_for l d) (volume_names d)"
  by (simp add: mirror_into_overlay_layout_def volume_names_def Let_def push_normals_names
      normals_win_components)

lemma volume_names_drive:
  assumes "is_ascii_alphabetic c" and "\<not> has_drive (trim_start_matches (\<lambda>c. c = bslash) (to_backslashes r))"
  shows "volume_names (c # colon # r) = mirror_names r"
proof -
  have "dos_to_volume_relative (c # colon # r) = r"
    using assms(1) by (simp add: dos_to_volume_relative_def)
  with assms(2) show ?thesis by (simp add: volume_names_def Let_def mirror_names_sanitized)
qed

section \<open>Drive paths in canonical form\<close>

text \<open>\<open>drive_path l names\<close> is \<^verbatim>\<open>l:\a\b\<close>, the form the folded virtual paths have.\<close>

definition drive_path :: "char \<Rightarrow> string list \<Rightarrow> string" where
  "drive_path l names = l # colon # concat (map (\<lambda>n. bslash # n) names)"

lemma split_concat_names:
  "plain_segs is_sep dot names \<Longrightarrow> split_by is_sep (concat (map (\<lambda>n. bslash # n) names)) = [] # names"
proof (induction names)
  case (Cons g names)
  then have g: "\<forall>x\<in>set g. \<not> is_sep x" and ns: "plain_segs is_sep dot names" by auto
  show ?case using split_by_prefix_free [OF g] Cons.IH [OF ns] by simp
qed simp

lemma plain_filter: "plain_segs is_sep dot names \<Longrightarrow> filter (\<lambda>g. g \<noteq> [] \<and> g \<noteq> [dot] \<and> g \<noteq> [dot, dot]) names = names"
  by (simp add: plain_segs_def)

lemma mirror_names_concat:
  "plain_segs is_sep dot names \<Longrightarrow> mirror_names (concat (map (\<lambda>n. bslash # n) names)) = names"
  by (simp add: mirror_names_def split_concat_names plain_filter)

lemma to_backslashes_append [simp]: "to_backslashes (a @ b) = to_backslashes a @ to_backslashes b"
  by (simp add: to_backslashes_def)

lemma to_backslashes_id: "\<forall>x\<in>set g. \<not> is_sep x \<Longrightarrow> to_backslashes g = g"
  by (induction g) (auto simp: to_backslashes_def is_sep_def)

lemma concat_names_trim:
  assumes "plain_names names"
  shows "\<not> has_drive (trim_start_matches (\<lambda>c. c = bslash) (to_backslashes (concat (map (\<lambda>n. bslash # n) names))))"
proof (cases names)
  case (Cons g ns)
  then have g: "g \<noteq> []" "\<forall>x\<in>set g. \<not> is_sep x" "\<not> has_drive g"
    using assms by (auto simp: plain_names_def)
  define r where "r = to_backslashes (concat (map (\<lambda>n. bslash # n) ns))"
  have "to_backslashes (concat (map (\<lambda>n. bslash # n) names)) = bslash # g @ r"
    using Cons to_backslashes_id [OF g(2)] to_backslashes_append [of "[bslash]"]
    by (simp add: r_def to_backslashes_def [of "[bslash]"] del: to_backslashes_append)
      (simp add: to_backslashes_def)
  moreover have "dropWhile (\<lambda>c. c = bslash) (g @ r) = g @ r"
    using g(1,2) by (cases g) (auto simp: is_sep_def)
  moreover have "r = [] \<or> (\<exists>t. r = bslash # t)" by (cases ns) (simp_all add: r_def to_backslashes_def)
  then have "\<not> has_drive (g @ r)" using g(3) has_drive_append_sep [of bslash g] by auto
  ultimately show ?thesis by (simp add: trim_start_matches_def)
qed (simp add: trim_start_matches_def to_backslashes_def)

lemma volume_names_drive_path:
  "is_ascii_alphabetic l \<Longrightarrow> plain_names names \<Longrightarrow> volume_names (drive_path l names) = names"
  unfolding drive_path_def
  by (simp add: volume_names_drive concat_names_trim mirror_names_concat plain_names_def)

lemma win_components_names:
  "plain_names names \<Longrightarrow> names \<noteq> [] \<Longrightarrow> win_components (join_with bslash names) = map Normal names"
proof (induction names rule: rev_induct)
  case (snoc g names)
  then have g: "g \<noteq> []" "g \<noteq> [dot]" "g \<noteq> [dot, dot]" "\<forall>x\<in>set g. \<not> is_sep x" "\<not> has_drive g"
    and ns: "plain_names names" by (auto simp: plain_names_def)
  show ?case
  proof (cases "names = []")
    case True
    then show ?thesis using body_components_name [OF g(1-4)] g(5) by (simp add: win_components_alt)
  next
    case False
    define j where "j = join_with bslash names"
    have "j \<noteq> []" "\<not> is_sep (last j)"
      using last_join_plain [of is_sep dot names bslash] ns False by (auto simp: j_def plain_names_def)
    moreover have "win_components j = map Normal names" using snoc ns False by (simp add: j_def)
    moreover from this have "\<not> has_drive j" using False
      by (cases names) (auto simp: win_components_alt split: if_splits)
    ultimately have "path_push j g = j @ bslash # g" using g(5) by (simp add: path_push_def)
    then show ?thesis
      using win_components_push [OF g, of j] \<open>win_components j = _\<close> False
      by (simp add: join_with_append j_def)
  qed
qed simp

lemma components_path_Normal: "components_path (map Normal names) = join_with bslash names"
  by (cases names) (simp_all add: component_str_def comp_def)

lemma path_strip_prefix_names:
  assumes "plain_names names" and "win_components p = win_components base @ map Normal names"
  shows "path_strip_prefix p base = Some (map Normal names)"
proof -
  have "strip_prefix (win_components base) (win_components p) = Some (map Normal names)"
    using assms(2) by simp
  moreover have "win_components (components_path (map Normal names)) = map Normal names"
    using win_components_names [OF assms(1)] by (cases "names = []") (simp_all add: components_path_Normal)
  ultimately show ?thesis by (simp add: path_strip_prefix_def)
qed

lemma append_normals_names:
  "append_normals out (map Normal names) = Some (out @ concat (map (\<lambda>n. bslash # n) names))"
  by (induction names arbitrary: out) simp_all

section \<open>The layout table\<close>

definition roots_separate :: "overlay_layout \<Rightarrow> bool" where
  "roots_separate l \<longleftrightarrow>
     (\<forall>i<length (all_roots l). \<forall>j<length (all_roots l).
        i \<noteq> j \<longrightarrow> \<not> prefix (win_components (snd (all_roots l ! i))) (win_components (snd (all_roots l ! j))))"

text \<open>The scan stops at the one root the path lies under.\<close>

lemma unmirror_scan_hit:
  assumes n: "plain_names names" and p: "win_components p = win_components r @ map Normal names"
    and i: "i < length roots" "roots ! i = (dopt, r)"
    and sep: "\<And>j. j < i \<Longrightarrow> \<not> prefix (win_components (snd (roots ! j))) (win_components r) \<and>
       \<not> prefix (win_components r) (win_components (snd (roots ! j)))"
  shows "unmirror_scan p roots =
    Some ((case dopt of Some d \<Rightarrow> d | None \<Rightarrow> primary_drive r) # colon # concat (map (\<lambda>n. bslash # n) names))"
  using i sep
proof (induction roots arbitrary: i)
  case (Cons e roots)
  show ?case
  proof (cases i)
    case 0
    with Cons.prems show ?thesis
      by (simp add: path_strip_prefix_names [OF n p] append_normals_names)
  next
    case (Suc k)
    obtain d' r' where e: "e = (d', r')" by (cases e)
    have np: "\<not> prefix (win_components r') (win_components r)" "\<not> prefix (win_components r) (win_components r')"
      using Cons.prems(3) [of 0] Suc e by auto
    have "strip_prefix (win_components r') (win_components p) = None"
    proof (rule ccontr)
      assume "strip_prefix (win_components r') (win_components p) \<noteq> None"
      then have "prefix (win_components r') (win_components r @ map Normal names)"
        using p by (auto simp: strip_prefix_Some prefix_def)
      then have "prefix (win_components r') (win_components r) \<or> prefix (win_components r) (win_components r')"
        by (meson prefixI prefix_same_cases)
      with np show False by blast
    qed
    then have "unmirror_scan p (e # roots) = unmirror_scan p roots"
      by (simp add: e path_strip_prefix_def)
    moreover have "\<And>j. j < k \<Longrightarrow> \<not> prefix (win_components (snd (roots ! j))) (win_components r) \<and>
       \<not> prefix (win_components r) (win_components (snd (roots ! j)))"
      using Cons.prems(3) [of "Suc j" for j] Suc by auto
    ultimately show ?thesis using Cons.IH [of k] Cons.prems Suc by simp
  qed
qed simp

text \<open>The entry of the layout that serves a drive letter, with the letter it stands for.\<close>

definition serves :: "overlay_layout \<Rightarrow> char \<Rightarrow> bool" where
  "serves l c \<longleftrightarrow> map_of (per_drive l) c \<noteq> None \<or> primary_drive (primary_root l) = c"

lemma serves_entry:
  assumes "serves l c" and "is_ascii_alphabetic c" and "\<not> is_ascii_uppercase c"
  obtains i dopt where "i < length (all_roots l)" "all_roots l ! i = (dopt, root_for l (c # d))"
    "(case dopt of Some x \<Rightarrow> x | None \<Rightarrow> primary_drive (root_for l (c # d))) = c"
proof (cases "map_of (per_drive l) c")
  case (Some r)
  then have "(c, r) \<in> set (per_drive l)" by (rule map_of_SomeD)
  then have "(Some c, r) \<in> set (all_roots l)" by (force simp: all_roots_def)
  then obtain i where "i < length (all_roots l)" "all_roots l ! i = (Some c, r)"
    by (metis in_set_conv_nth)
  with Some assms that [of i "Some c"] show ?thesis by (simp add: root_for_def)
next
  case None
  with assms that [of 0 None] show ?thesis by (simp add: root_for_def all_roots_def serves_def)
qed

lemma unmirror_mirror_layout:
  assumes l: "is_ascii_alphabetic c" "\<not> is_ascii_uppercase c" and n: "plain_names names"
    and sv: "serves l c" and sep: "roots_separate l"
  shows "unmirror_from_overlay_layout (mirror_into_overlay_layout (drive_path c names) l) l = Some (drive_path c names)"
proof -
  let ?d = "drive_path c names" and ?r = "root_for l (drive_path c names)"
  have comps: "win_components (mirror_into_overlay_layout ?d l) = win_components ?r @ map Normal names"
    using n by (simp add: mirror_layout_names volume_names_drive_path l win_components_pushes)
  obtain i dopt where i: "i < length (all_roots l)" "all_roots l ! i = (dopt, ?r)"
    and c: "(case dopt of Some x \<Rightarrow> x | None \<Rightarrow> primary_drive ?r) = c"
    using serves_entry [OF sv l, of "colon # concat (map (\<lambda>n. bslash # n) names)"] unfolding drive_path_def by metis
  have "\<And>j. j < i \<Longrightarrow> \<not> prefix (win_components (snd (all_roots l ! j))) (win_components ?r) \<and>
       \<not> prefix (win_components ?r) (win_components (snd (all_roots l ! j)))"
    using sep i unfolding roots_separate_def by (metis less_trans nat_neq_iff snd_conv)
  from unmirror_scan_hit [OF n comps i this] c show ?thesis
    by (simp add: unmirror_from_overlay_layout_def drive_path_def)
qed

lemma unmirror_mirror:
  assumes l: "is_ascii_alphabetic c" and n: "plain_segs is_sep dot names" "\<forall>g\<in>set names. colon \<notin> set g"
  shows "unmirror_from_overlay (mirror_into_overlay (drive_path c names) root) root = Some (drive_path c names)"
proof -
  have f: "filter (\<lambda>x. x \<noteq> colon) (drive_path c names) = c # concat (map (\<lambda>n. bslash # n) names)"
  proof -
    have "filter (\<lambda>x. x \<noteq> colon) (concat (map (\<lambda>n. bslash # n) names)) = concat (map (\<lambda>n. bslash # n) names)"
      using n(2) by (auto simp: filter_id_conv)
    with l show ?thesis by (simp add: drive_path_def)
  qed
  have "mirror_names (c # concat (map (\<lambda>n. bslash # n) names)) = [c] # names"
    using l n(1) by (simp add: mirror_names_def split_concat_names plain_filter)
  moreover have pn: "plain_names ([c] # names)"
    using l n by (auto simp: plain_names_def no_colon_no_drive has_drive_def [of "[c]"])
  ultimately have "win_components (mirror_into_overlay (drive_path c names) root) = win_components root @ map Normal ([c] # names)"
    using win_components_pushes [OF pn, of root] by (simp add: mirror_into_overlay_names f)
  from path_strip_prefix_names [OF pn this] l show ?thesis
    by (simp add: unmirror_from_overlay_def append_normals_names component_str_def drive_path_def)
qed

section \<open>Properties\<close>

text \<open>
  the mirrored path never leaves the overlay root. Whatever the virtual path, the components of
  \<open>mirror_into_overlay\<close>'s result are those of the root followed by ordinary names only: no \<open>..\<close>, no drive and
  no root of the virtual path survives.
\<close>

theorem mirror_into_overlay_contained:
  "win_components (mirror_into_overlay dos root) =
     win_components root @ map Normal (mirror_names (filter (\<lambda>c. c \<noteq> colon) dos))"
proof -
  have "plain_names (mirror_names (filter (\<lambda>c. c \<noteq> colon) dos))"
    using mirror_names_plain by (auto simp: plain_names_def intro!: no_colon_no_drive dest!: mirror_names_in)
  then show ?thesis by (simp add: mirror_into_overlay_names win_components_pushes)
qed

text \<open>
  the same for the same-volume layout, as long as no name below the volume root reads as a drive: the
  result lies under the root the layout holds for the path's drive.
\<close>

theorem mirror_layout_contained:
  assumes "\<forall>g\<in>set (volume_names dos). \<not> has_drive g"
  shows "win_components (mirror_into_overlay_layout dos l) =
     win_components (root_for l dos) @ map Normal (volume_names dos)"
proof -
  have "plain_names (volume_names dos)"
    using assms mirror_names_plain unfolding plain_names_def volume_names_def Let_def by blast
  then show ?thesis by (simp add: mirror_layout_names win_components_pushes)
qed

theorem mirror_layout_contained_witness:
  "win_components (mirror_into_overlay_layout (win ''c:|a|..|b'') (layout_single (win ''d:|ov''))) =
     win_components (win ''d:|ov'') @ map Normal [''a'', ''b'']"
proof -
  have v: "volume_names (win ''c:|a|..|b'') = [''a'', ''b'']"
    by (simp add: volume_names_def dos_to_volume_relative_def to_backslashes_def trim_start_matches_def
        mirror_names_def has_drive_def win_defs)
  have "root_for (layout_single (win ''d:|ov'')) (win ''c:|a|..|b'') = win ''d:|ov''"
    by (simp add: root_for_def layout_single_def Let_def)
  then show ?thesis
    using mirror_layout_contained [of "win ''c:|a|..|b''" "layout_single (win ''d:|ov'')"]
    by (simp add: v has_drive_def)
qed

text \<open>
  C31: unmirroring inverts mirroring on canonical drive paths, for the single-root functions and for a
  layout whose roots do not nest and which serves the path's drive.
\<close>

theorem unmirror_inverts_mirror:
  assumes "is_ascii_alphabetic c" and "plain_segs is_sep dot names" and "\<forall>g\<in>set names. colon \<notin> set g"
  shows "unmirror_from_overlay (mirror_into_overlay (drive_path c names) root) root = Some (drive_path c names) \<and>
    (\<not> is_ascii_uppercase c \<and> serves l c \<and> roots_separate l \<longrightarrow>
     unmirror_from_overlay_layout (mirror_into_overlay_layout (drive_path c names) l) l = Some (drive_path c names))"
  using assms by (auto simp: unmirror_mirror plain_names_def no_colon_no_drive intro!: unmirror_mirror_layout)

definition sample_layout :: overlay_layout where
  "sample_layout = set_drive_root (layout_single (win ''d:|p|ov'')) CHR ''C'' (win ''c:|ov'')"

theorem unmirror_inverts_mirror_witness:
  "serves sample_layout CHR ''c'' \<and> roots_separate sample_layout \<and>
   unmirror_from_overlay_layout
     (mirror_into_overlay_layout (drive_path CHR ''c'' [''a'', ''b'']) sample_layout) sample_layout =
   Some (drive_path CHR ''c'' [''a'', ''b''])"
proof -
  have r: "all_roots sample_layout = [(None, win ''d:|p|ov''), (Some CHR ''c'', win ''c:|ov'')]"
    by code_simp
  have s: "serves sample_layout CHR ''c''"
    by code_simp
  have "win_components (win ''d:|p|ov'') = [Prefix CHR ''D'', RootDir, Normal ''p'', Normal ''ov'']"
    "win_components (win ''c:|ov'') = [Prefix CHR ''C'', RootDir, Normal ''ov'']"
    by code_simp+
  then have "roots_separate sample_layout" unfolding roots_separate_def r
    by (auto simp: less_Suc_eq)
  with s show ?thesis
    using unmirror_inverts_mirror [of "CHR ''c''" "[''a'', ''b'']" "[]" sample_layout]
    by (simp add: win_defs)
qed

text \<open>
  a name that reads as a drive makes the layout variant leave the overlay: \<^verbatim>\<open>PathBuf::push\<close> of such a
  component replaces the whole buffer, so the mirror of \<^verbatim>\<open>c:\a\d:\x\<close> is the drive-relative \<^verbatim>\<open>d:x\<close>, with no
  trace of the overlay root. \<open>mirror_into_overlay\<close> drops colons first and is immune.
\<close>

theorem mirror_layout_drive_component:
  "mirror_into_overlay_layout (win ''c:|a|d:|x'') (layout_single (win ''e:|ov'')) = ''d:x'' \<and>
   mirror_into_overlay (win ''c:|a|d:|x'') (win ''e:|ov'') = win ''e:|ov|c|a|d|x''"
proof -
  have "volume_names (win ''c:|a|d:|x'') = [''a'', ''d:'', ''x'']"
    by (simp add: volume_names_def dos_to_volume_relative_def to_backslashes_def trim_start_matches_def
        mirror_names_def has_drive_def win_defs)
  moreover have "mirror_names (filter (\<lambda>c. c \<noteq> colon) (win ''c:|a|d:|x'')) = [''c'', ''a'', ''d'', ''x'']"
    by (simp add: mirror_names_def win_defs)
  ultimately show ?thesis
    by (simp add: mirror_layout_names mirror_into_overlay_names root_for_def layout_single_def path_push_def win_defs)
qed

text \<open>
  drives without a root of their own share the primary one, and the mirrored path holds no drive
  letter: two virtual paths that differ only in such drives get the same overlay file.
\<close>

theorem mirror_layout_collides:
  assumes "is_ascii_alphabetic a" and "is_ascii_alphabetic b"
    and "map_of (per_drive l) (ascii_lower a) = None" and "map_of (per_drive l) (ascii_lower b) = None"
  shows "mirror_into_overlay_layout (a # colon # r) l = mirror_into_overlay_layout (b # colon # r) l"
  using assms by (simp add: mirror_into_overlay_layout_def root_for_def dos_to_volume_relative_def Let_def)

theorem mirror_layout_collides_witness:
  "mirror_into_overlay_layout (win ''e:|x'') sample_layout = mirror_into_overlay_layout (win ''d:|x'') sample_layout"
proof -
  have "map_of (per_drive sample_layout) (ascii_lower CHR ''e'') = None"
    "map_of (per_drive sample_layout) (ascii_lower CHR ''d'') = None"
    by code_simp+
  then show ?thesis
    using mirror_layout_collides [of "CHR ''e''" "CHR ''d''" sample_layout "win ''|x''"] by (simp add: win_defs)
qed

end
