(* ===== verification/Store.thy ===== *)
theory Store
  imports CaseFold
begin

text \<open>
  The policy database: the row types of \<^verbatim>\<open>db/mod.rs\<close>, \<^verbatim>\<open>domains/net.rs\<close> and
  \<^verbatim>\<open>domains/mem.rs\<close>, the tables, and transactions. The storage engine (redb) and the
  serialisers (bincode, serde_json) are packages outside this repository: they are fields of the
  record \<open>env\<close>, with what the code relies on in \<open>redb_lawful\<close> and \<open>codec_lawful\<close>.
\<close>

section \<open>Rows\<close>

datatype policy_error = Db | DbOpen | DbStorage | DbTxn | DbTable | DbCommit | Ktav string | Io

datatype rule_mode = RM_Passthrough | RM_Deny | RM_Cow | RM_Redirect

record when_filter =
  when_depth :: "u8 option"
  when_exe :: "string option"

record rule_row =
  row_id :: string
  row_prefix :: string
  mode_read :: rule_mode
  mode_write :: rule_mode
  row_when :: "when_filter option"

record defaults_row =
  def_read :: rule_mode
  def_write :: rule_mode

datatype net_mode = NetAllow | NetDeny | NetLog

record net_rule =
  net_id :: string
  host_pattern :: string
  net_port :: "u16 option"
  net_mode :: net_mode

datatype mem_mode = MemAllow | MemDeny

record mem_policy =
  cross_process :: mem_mode
  allow_child_pids :: bool

section \<open>The environment\<close>

text \<open>
  \<open>'t\<close> is the type of a stored table: keys are strings and values byte strings. \<open>write_fault\<close> and
  \<open>read_fault\<close> say whether the next write or read transaction fails and how; an error at any step of
  a write transaction drops it, so one field covers all steps.
\<close>

record 't env = platform +
  tb_empty :: "'t"
  tb_get :: "'t \<Rightarrow> string \<Rightarrow> string option"
  tb_insert :: "'t \<Rightarrow> string \<Rightarrow> string \<Rightarrow> 't"
  tb_remove :: "'t \<Rightarrow> string \<Rightarrow> 't \<times> string option"
  tb_iter :: "'t \<Rightarrow> (string \<times> string) list"
  tb_range_from :: "'t \<Rightarrow> string \<Rightarrow> (string \<times> string) list"
  write_fault :: "policy_error option"
  read_fault :: "policy_error option"
  rule_encode :: "rule_row \<Rightarrow> string option" \<comment> \<open>\<^verbatim>\<open>bincode::serde::encode_to_vec\<close>\<close>
  rule_decode :: "string \<Rightarrow> rule_row option" \<comment> \<open>\<^verbatim>\<open>bincode::serde::decode_from_slice\<close>\<close>
  net_encode :: "net_rule \<Rightarrow> string option"
  net_decode :: "string \<Rightarrow> net_rule option"
  mem_encode :: "mem_policy \<Rightarrow> string option" \<comment> \<open>\<^verbatim>\<open>serde_json::to_vec\<close>\<close>
  mem_decode :: "string \<Rightarrow> mem_policy option"
  xxh3 :: "string \<Rightarrow> u64"
  to_lowercase :: "string \<Rightarrow> string" \<comment> \<open>\<^verbatim>\<open>str::to_lowercase\<close>, the Unicode mapping\<close>

text \<open>redb's documented behaviour: a table is a map ordered by key.\<close>

definition redb_lawful :: "('t, 'e) env_scheme \<Rightarrow> bool" where
  "redb_lawful E \<longleftrightarrow>
     (\<forall>k. tb_get E (tb_empty E) k = None) \<and>
     (\<forall>t k v. tb_get E (tb_insert E t k v) = (tb_get E t)(k \<mapsto> v)) \<and>
     (\<forall>t k. tb_get E (fst (tb_remove E t k)) = (tb_get E t)(k := None)) \<and>
     (\<forall>t k. snd (tb_remove E t k) = tb_get E t k) \<and>
     (\<forall>t. sorted_wrt (<) (map fst (tb_iter E t)) \<and> map_of (tb_iter E t) = tb_get E t) \<and>
     (\<forall>t k. tb_range_from E t k = filter (\<lambda>(k', v). k \<le> k') (tb_iter E t))"

text \<open>The serialisers read back what they wrote.\<close>

definition codec_lawful :: "('t, 'e) env_scheme \<Rightarrow> bool" where
  "codec_lawful E \<longleftrightarrow>
     (\<forall>r b. rule_encode E r = Some b \<longrightarrow> rule_decode E b = Some r) \<and>
     (\<forall>r b. net_encode E r = Some b \<longrightarrow> net_decode E b = Some r) \<and>
     (\<forall>r b. mem_encode E r = Some b \<longrightarrow> mem_decode E b = Some r)"

section \<open>Tables and transactions\<close>

datatype table_name =
  RULES | MOCKS | MOCK_DIRS | OVERLAY_IDX | OVERLAY_MIGRATIONS | OVERLAY_CASE | WHITEOUTS
| REG_RULES | REG_MOCKS | DEV_RULES | NET_RULES | DEFAULTS

text \<open>
  A table exists once a write transaction opened it. \<^verbatim>\<open>NET_RULES_GEN\<close> holds \<^verbatim>\<open>u64\<close> values under
  the one key \<^verbatim>\<open>gen\<close>, written whenever the table is opened for writing.
\<close>

record 't database =
  tables :: "table_name \<Rightarrow> 't option"
  net_rules_gen :: "u64 option"

definition empty_database :: "'t database" where
  "empty_database = \<lparr>tables = \<lambda>_. None, net_rules_gen = None\<rparr>"

definition open_w :: "('t, 'e) env_scheme \<Rightarrow> 't database \<Rightarrow> table_name \<Rightarrow> 't" where
  "open_w E db n = (case tables db n of Some t \<Rightarrow> t | None \<Rightarrow> tb_empty E)"

definition open_r :: "'t database \<Rightarrow> table_name \<Rightarrow> policy_error + 't" where
  "open_r db n = (case tables db n of Some t \<Rightarrow> Inr t | None \<Rightarrow> Inl DbTable)"

definition put_table :: "'t database \<Rightarrow> table_name \<Rightarrow> 't \<Rightarrow> 't database" where
  "put_table db n t = db\<lparr>tables := (tables db)(n := Some t)\<rparr>"

text \<open>A write transaction takes effect as a whole or not at all.\<close>

definition write_txn ::
    "('t, 'e) env_scheme \<Rightarrow> ('t database \<Rightarrow> 'r \<times> 't database) \<Rightarrow> 't database \<Rightarrow> (policy_error + 'r) \<times> 't database" where
  "write_txn E f db =
     (case write_fault E of
        Some e \<Rightarrow> (Inl e, db)
      | None \<Rightarrow> (let (r, db') = f db in (Inr r, db')))"

definition read_txn :: "('t, 'e) env_scheme \<Rightarrow> ('t database \<Rightarrow> policy_error + 'r) \<Rightarrow> 't database \<Rightarrow> policy_error + 'r" where
  "read_txn E f db = (case read_fault E of Some e \<Rightarrow> Inl e | None \<Rightarrow> f db)"

definition remove_keys :: "('t, 'e) env_scheme \<Rightarrow> 't \<Rightarrow> string list \<Rightarrow> 't" where
  "remove_keys E t ks = foldl (\<lambda>t k. fst (tb_remove E t k)) t ks"

section \<open>What a table holds\<close>

text \<open>The abstract state of the database: one partial map per table.\<close>

definition tview :: "('t, 'e) env_scheme \<Rightarrow> 't database \<Rightarrow> table_name \<Rightarrow> string \<Rightarrow> string option" where
  "tview E db n = (case tables db n of Some t \<Rightarrow> tb_get E t | None \<Rightarrow> Map.empty)"

definition tentries :: "('t, 'e) env_scheme \<Rightarrow> 't database \<Rightarrow> table_name \<Rightarrow> (string \<times> string) list" where
  "tentries E db n = (case tables db n of Some t \<Rightarrow> tb_iter E t | None \<Rightarrow> [])"

named_theorems redb \<open>the laws of the storage engine as rewrite rules\<close>

lemma redb_laws [redb]:
  assumes "redb_lawful E"
  shows "tb_get E (tb_empty E) k = None" "tb_get E (tb_insert E t k v) = (tb_get E t)(k \<mapsto> v)"
    "tb_get E (fst (tb_remove E t k)) = (tb_get E t)(k := None)" "snd (tb_remove E t k) = tb_get E t k"
    "sorted_wrt (<) (map fst (tb_iter E t))" "map_of (tb_iter E t) = tb_get E t"
    "tb_range_from E t k = filter (\<lambda>(k', v). k \<le> k') (tb_iter E t)"
  using assms by (auto simp: redb_lawful_def)

lemma iter_distinct: "redb_lawful E \<Longrightarrow> distinct (map fst (tb_iter E t))"
  using redb_laws(5) [of E t] by (simp add: strict_sorted_iff)

lemma iter_mem: "redb_lawful E \<Longrightarrow> (k, v) \<in> set (tb_iter E t) \<longleftrightarrow> tb_get E t k = Some v"
  by (metis iter_distinct map_of_eq_Some_iff redb_laws(6))

lemma iter_keys: "redb_lawful E \<Longrightarrow> k \<in> fst ` set (tb_iter E t) \<longleftrightarrow> tb_get E t k \<noteq> None"
  by (metis (no_types, lifting) map_of_eq_None_iff redb_laws(6))

lemma iter_determined: "redb_lawful E \<Longrightarrow> tb_get E t = tb_get E t' \<Longrightarrow> tb_iter E t = tb_iter E t'"
  by (metis redb_laws(5,6) sorted_map_of_eq)

lemma remove_keys_get [redb]:
  "redb_lawful E \<Longrightarrow> tb_get E (remove_keys E t ks) = (\<lambda>k. if k \<in> set ks then None else tb_get E t k)"
  by (induction ks arbitrary: t) (auto simp: remove_keys_def redb fun_eq_iff)

lemma tview_put [redb]:
  "tview E (put_table db n t) = (tview E db)(n := tb_get E t)"
  by (auto simp: tview_def put_table_def fun_eq_iff)

lemma tb_get_open_w [redb]: "redb_lawful E \<Longrightarrow> tb_get E (open_w E db n) = tview E db n"
  by (auto simp: open_w_def tview_def redb fun_eq_iff split: option.splits)

lemma tentries_view:
  assumes "redb_lawful E"
  shows "map_of (tentries E db n) = tview E db n" "sorted_wrt (<) (map fst (tentries E db n))"
    "distinct (map fst (tentries E db n))"
    "(k, v) \<in> set (tentries E db n) \<longleftrightarrow> tview E db n k = Some v"
  using redb_laws(5,6) [OF assms] iter_distinct [OF assms] iter_mem [OF assms]
  by (auto simp: tentries_def tview_def split: option.splits)

lemma tentries_determined:
  "redb_lawful E \<Longrightarrow> tview E db n = tview E db' n' \<Longrightarrow> tentries E db n = tentries E db' n'"
  by (intro sorted_map_of_eq) (simp_all add: tentries_view)

lemma tb_iter_open_w: "redb_lawful E \<Longrightarrow> tb_iter E (open_w E db n) = tentries E db n"
  using tentries_view(1,2) [of E db n] redb_laws(5,6) [of E "open_w E db n"]
  by (intro sorted_map_of_eq) (simp_all add: redb)

lemma put_table_gen [simp]: "net_rules_gen (put_table db n t) = net_rules_gen db"
  by (simp add: put_table_def)

lemma put_table_exists [simp]: "tables (put_table db n t) m = (if m = n then Some t else tables db m)"
  by (simp add: put_table_def)

lemma write_txn_cases:
  "write_txn E f db = (Inr r, db') \<longleftrightarrow> write_fault E = None \<and> f db = (r, db')"
  "write_txn E f db = (Inl e, db') \<longleftrightarrow> write_fault E = Some e \<and> db' = db"
  by (auto simp: write_txn_def split: option.splits prod.splits)

lemma write_txn_atomic: "snd (write_txn E f db) = (if write_fault E = None then snd (f db) else db)"
  by (auto simp: write_txn_def split: option.splits prod.splits)

lemma read_txn_cases:
  "read_txn E f db = Inr r \<longleftrightarrow> read_fault E = None \<and> f db = Inr r"
  by (auto simp: read_txn_def split: option.splits)

section \<open>An engine that satisfies the laws\<close>

text \<open>
  Sorted association lists, and serialisers that know a given list of rows and number them. The
  witnesses of the theorems that assume \<open>redb_lawful\<close> or \<open>codec_lawful\<close> run on it.
\<close>

fun index_of :: "'a list \<Rightarrow> 'a \<Rightarrow> nat option" where
  "index_of [] x = None"
| "index_of (y # ys) x = (if x = y then Some 0 else map_option Suc (index_of ys x))"

fun unary :: "nat \<Rightarrow> string" where
  "unary 0 = []"
| "unary (Suc n) = CHR ''1'' # unary n"

definition number_encode :: "'a list \<Rightarrow> 'a \<Rightarrow> string option" where
  "number_encode rows r = map_option unary (index_of rows r)"

definition number_decode :: "'a list \<Rightarrow> string \<Rightarrow> 'a option" where
  "number_decode rows b = (if length b < length rows then Some (rows ! length b) else None)"

lemma length_unary [simp]: "length (unary n) = n"
  by (induction n) auto

lemma index_of_Some: "index_of xs x = Some i \<Longrightarrow> i < length xs \<and> xs ! i = x"
  by (induction xs arbitrary: i) (auto split: if_splits)

lemma number_round_trip: "number_encode rows r = Some b \<Longrightarrow> number_decode rows b = Some r"
  by (auto simp: number_encode_def number_decode_def dest: index_of_Some)

text \<open>Lists that are not sorted stand for no table; they are read as if inserted one by one.\<close>

definition btree_norm :: "('k::linorder \<times> 'v) list \<Rightarrow> ('k \<times> 'v) list" where
  "btree_norm m = foldr (\<lambda>(k, v) acc. btree_insert k v acc) m []"

lemma btree_norm_sorted [simp]: "sorted_wrt (<) (map fst (btree_norm m))"
  by (induction m) (auto simp: btree_norm_def intro: btree_insert_sorted)

lemma map_of_btree_norm [simp]: "map_of (btree_norm m) = map_of m"
  by (induction m) (auto simp: btree_norm_def fun_eq_iff)

lemma btree_norm_id [simp]: "sorted_wrt (<) (map fst m) \<Longrightarrow> btree_norm m = m"
  by (rule sorted_map_of_eq) simp_all

definition list_table_env ::
    "rule_row list \<Rightarrow> net_rule list \<Rightarrow> mem_policy list \<Rightarrow> ((string \<times> string) list) env" where
  "list_table_env rows nets mems =
     \<lparr>rtl_case_fns = Some (ascii_up, ascii_down), char_to_uppercase = id, char_to_lowercase = id,
      tb_empty = [], tb_get = map_of \<circ> btree_norm, tb_insert = \<lambda>t k v. btree_insert k v (btree_norm t),
      tb_remove = \<lambda>t k. (btree_remove k (btree_norm t), map_of (btree_norm t) k),
      tb_iter = btree_norm, tb_range_from = \<lambda>t k. filter (\<lambda>(k', v). k \<le> k') (btree_norm t),
      write_fault = None, read_fault = None,
      rule_encode = number_encode rows, rule_decode = number_decode rows,
      net_encode = number_encode nets, net_decode = number_decode nets,
      mem_encode = number_encode mems, mem_decode = number_decode mems,
      xxh3 = of_nat \<circ> length, to_lowercase = to_ascii_lowercase\<rparr>"

lemma list_table_env_lawful [simp]:
  "redb_lawful (list_table_env rows nets mems)" "codec_lawful (list_table_env rows nets mems)"
  "fold_lawful (list_table_env rows nets mems)"
  by (auto simp: redb_lawful_def codec_lawful_def list_table_env_def comp_def fun_eq_iff number_round_trip
      btree_insert_sorted btree_remove_sorted intro: ascii_tables_lawful)

lemma list_table_env_no_fault [simp]:
  "write_fault (list_table_env rows nets mems) = None" "read_fault (list_table_env rows nets mems) = None"
  by (simp_all add: list_table_env_def)

end
