(* ===== verification/RuleMatch.thy ===== *)
theory RuleMatch
  imports Store Glob
begin

text \<open>
  Choosing the most specific rule. Every scan of the program that looks for a best match keeps the
  first candidate of the highest score; the locale \<open>scored_scan\<close> proves what such a scan returns,
  \<open>indexed_choice\<close> the same for the order-independent comparator of the precompiled index. The file also
  holds the linear scans of \<^verbatim>\<open>db/mod.rs\<close>.
\<close>

section \<open>Scans that keep the best candidate\<close>

text \<open>The \<^verbatim>\<open>match &best\<close> at the end of the scans: replace only when strictly better.\<close>

definition keep_better :: "(nat \<times> 'a) option \<Rightarrow> nat \<Rightarrow> 'a \<Rightarrow> (nat \<times> 'a) option" where
  "keep_better best spec x =
     (case best of
        None \<Rightarrow> Some (spec, x)
      | Some (s, y) \<Rightarrow> if spec > s then Some (spec, x) else best)"

text \<open>The specification: position \<open>i\<close> has the highest score, and no earlier position has it too.\<close>

definition first_best :: "(nat \<Rightarrow> nat option) \<Rightarrow> nat \<Rightarrow> nat \<Rightarrow> nat \<Rightarrow> bool" where
  "first_best score n i s \<longleftrightarrow>
     i < n \<and> score i = Some s \<and>
     (\<forall>j<n. \<forall>s'. score j = Some s' \<longrightarrow> s' < s \<or> s' = s \<and> i \<le> j)"

lemma first_best_unique: "first_best score n i s \<Longrightarrow> first_best score n j s' \<Longrightarrow> i = j \<and> s = s'"
  unfolding first_best_def by (metis antisym less_asym option.inject)

locale scored_scan =
  fixes score :: "'a \<Rightarrow> nat option"
    and step :: "(nat \<times> 'a) option \<Rightarrow> 'a \<Rightarrow> (nat \<times> 'a) option"
  assumes step_def: "step best x = (case score x of None \<Rightarrow> best | Some s \<Rightarrow> keep_better best s x)"
begin

lemma step_skip: "score x = None \<Longrightarrow> step best x = best"
  by (simp add: step_def [of best x])

lemma step_score: "score x = Some s \<Longrightarrow> step best x = keep_better best s x"
  by (simp add: step_def [of best x])

text \<open>Appending a candidate leaves the older positions' scores as they were.\<close>

lemma first_best_append:
  "first_best (\<lambda>i. score (ys ! i)) (length ys) i s \<Longrightarrow> (\<forall>t. score y = Some t \<longrightarrow> t \<le> s) \<Longrightarrow>
   first_best (\<lambda>i. score ((ys @ [y]) ! i)) (length (ys @ [y])) i s"
  unfolding first_best_def by (auto simp: nth_append less_Suc_eq le_less)

lemma first_best_new:
  "score y = Some t \<Longrightarrow> (\<forall>j<length ys. \<forall>s'. score (ys ! j) = Some s' \<longrightarrow> s' < t) \<Longrightarrow>
   first_best (\<lambda>i. score ((ys @ [y]) ! i)) (length (ys @ [y])) (length ys) t"
  unfolding first_best_def by (auto simp: nth_append less_Suc_eq)

lemma scan_result:
  "case foldl step None xs of
     None \<Rightarrow> \<forall>x\<in>set xs. score x = None
   | Some (s, x) \<Rightarrow> \<exists>i. xs ! i = x \<and> first_best (\<lambda>i. score (xs ! i)) (length xs) i s"
proof (induction xs rule: rev_induct)
  case (snoc y ys)
  show ?case
  proof (cases "foldl step None ys")
    case None
    with snoc have n: "\<forall>x\<in>set ys. score x = None" by simp
    show ?thesis
    proof (cases "score y")
      case None': None
      with None n show ?thesis by (simp add: step_skip)
    next
      case (Some t)
      then have "first_best (\<lambda>i. score ((ys @ [y]) ! i)) (length (ys @ [y])) (length ys) t"
        using n by (intro first_best_new) auto
      with None Some show ?thesis
        by (auto simp: step_score keep_better_def intro!: exI [of _ "length ys"])
    qed
  next
    case (Some b)
    obtain s x where b: "b = (s, x)" by (cases b)
    with snoc Some obtain i where i: "ys ! i = x" "first_best (\<lambda>i. score (ys ! i)) (length ys) i s" by auto
    then have nth: "(ys @ [y]) ! i = x" by (auto simp: first_best_def nth_append)
    show ?thesis
    proof (cases "\<exists>t. score y = Some t \<and> s < t")
      case True
      then obtain t where t: "score y = Some t" "s < t" by blast
      then have "first_best (\<lambda>i. score ((ys @ [y]) ! i)) (length (ys @ [y])) (length ys) t"
        using i(2) unfolding first_best_def [of _ _ i] by (intro first_best_new) (auto intro: less_trans)
      with Some b t show ?thesis
        by (auto simp: step_score keep_better_def intro!: exI [of _ "length ys"])
    next
      case False
      then have "step (Some b) y = Some b"
        using b by (cases "score y") (auto simp: step_skip step_score keep_better_def)
      moreover have "first_best (\<lambda>i. score ((ys @ [y]) ! i)) (length (ys @ [y])) i s"
        using i(2) False by (intro first_best_append) (auto simp: not_less)
      ultimately show ?thesis using Some b nth by auto
    qed
  qed
qed simp

lemma scan_None: "foldl step None xs = None \<longleftrightarrow> (\<forall>x\<in>set xs. score x = None)"
proof
  assume "\<forall>x\<in>set xs. score x = None"
  then have "foldl step b xs = b" for b by (induction xs arbitrary: b) (auto simp: step_skip)
  then show "foldl step None xs = None" .
next
  assume "foldl step None xs = None"
  then show "\<forall>x\<in>set xs. score x = None" using scan_result [of xs] by simp
qed

lemma scan_Some:
  "foldl step None xs = Some (s, x) \<Longrightarrow> \<exists>i. xs ! i = x \<and> first_best (\<lambda>i. score (xs ! i)) (length xs) i s"
  using scan_result [of xs] by simp

lemma scan_first_best:
  assumes "first_best (\<lambda>i. score (xs ! i)) (length xs) i s"
  shows "foldl step None xs = Some (s, xs ! i)"
proof -
  from assms have "score (xs ! i) \<noteq> None" "xs ! i \<in> set xs" by (auto simp: first_best_def)
  then have "foldl step None xs \<noteq> None" unfolding scan_None by (meson)
  then obtain s' x where f: "foldl step None xs = Some (s', x)" by auto
  from scan_Some [OF f] first_best_unique [OF assms] f show ?thesis by blast
qed

lemma scan_best_score:
  assumes "foldl step None xs = Some (s, x)"
  shows "x \<in> set xs \<and> score x = Some s \<and> (\<forall>y\<in>set xs. \<forall>s'. score y = Some s' \<longrightarrow> s' \<le> s)"
  using scan_Some [OF assms] by (fastforce simp: first_best_def in_set_conv_nth)

end

text \<open>The comparator of the index: candidates come in any order, ties go to the smaller position.\<close>

locale indexed_choice =
  fixes score :: "nat \<Rightarrow> nat option"
    and step :: "(nat \<times> nat) option \<Rightarrow> nat \<Rightarrow> (nat \<times> nat) option"
  assumes step_def: "step best idx =
    (case score idx of
       None \<Rightarrow> best
     | Some spec \<Rightarrow>
         (case best of
            None \<Rightarrow> Some (spec, idx)
          | Some (s, i) \<Rightarrow> if spec > s \<or> spec = s \<and> idx < i then Some (spec, idx) else best))"
begin

definition chosen :: "nat set \<Rightarrow> nat \<Rightarrow> nat \<Rightarrow> bool" where
  "chosen C s i \<longleftrightarrow> i \<in> C \<and> score i = Some s \<and> (\<forall>j\<in>C. \<forall>s'. score j = Some s' \<longrightarrow> s' < s \<or> s' = s \<and> i \<le> j)"

lemma step_skip: "score c = None \<Longrightarrow> step best c = best"
  by (simp add: step_def [of best c])

lemma choice_result:
  "case foldl step None cs of
     None \<Rightarrow> \<forall>i\<in>set cs. score i = None
   | Some (s, i) \<Rightarrow> chosen (set cs) s i"
proof (induction cs rule: rev_induct)
  case (snoc c cs)
  define best where "best = foldl step None cs"
  have f: "foldl step None (cs @ [c]) = step best c" by (simp add: best_def)
  note IH = snoc.IH [folded best_def]
  show ?case unfolding f
  proof (cases "score c")
    case None
    with IH show "case step best c of None \<Rightarrow> \<forall>i\<in>set (cs @ [c]). score i = None
        | Some (s, i) \<Rightarrow> chosen (set (cs @ [c])) s i"
      by (auto simp: step_skip chosen_def split: option.splits)
  next
    case c: (Some t)
    show "case step best c of None \<Rightarrow> \<forall>i\<in>set (cs @ [c]). score i = None
        | Some (s, i) \<Rightarrow> chosen (set (cs @ [c])) s i"
    proof (cases best)
      case None
      with IH c show ?thesis by (auto simp: step_def [of None c] chosen_def)
    next
      case (Some b)
      obtain s i where b: "b = (s, i)" by (cases b)
      with IH Some have ch: "chosen (set cs) s i" by simp
      show ?thesis
      proof (cases "t > s \<or> t = s \<and> c < i")
        case True
        have "j \<in> set cs \<Longrightarrow> score j = Some s' \<Longrightarrow> s' < t \<or> s' = t \<and> c \<le> j" for j s'
          using ch True unfolding chosen_def by (metis less_or_eq_imp_le less_trans order_less_le_trans)
        with Some b c True show ?thesis by (auto simp: step_def [of "Some (s, i)" c] chosen_def)
      next
        case False
        with Some b c ch show ?thesis by (auto simp: step_def [of "Some (s, i)" c] chosen_def not_less)
      qed
    qed
  qed
qed simp

lemma choice_first_best:
  assumes C: "set cs \<subseteq> {..<n}" and out: "\<And>i. i < n \<Longrightarrow> i \<notin> set cs \<Longrightarrow> score' i = None"
    and "in": "\<And>i. i \<in> set cs \<Longrightarrow> score' i = score i"
  shows "case foldl step None cs of
     None \<Rightarrow> \<forall>i<n. score' i = None
   | Some (s, i) \<Rightarrow> first_best score' n i s"
proof (cases "foldl step None cs")
  case None
  then show ?thesis using choice_result [of cs] out "in" by auto
next
  case (Some b)
  obtain s i where b: "b = (s, i)" by (cases b)
  then have "chosen (set cs) s i" using choice_result [of cs] Some by simp
  then have "first_best score' n i s"
    using C out "in" unfolding chosen_def first_best_def by (metis lessThan_iff option.distinct(1) subsetD)
  with Some b show ?thesis by simp
qed

end

section \<open>The linear scans of the database\<close>

text \<open>
  The \<^verbatim>\<open>when\<close> filter: a depth below the minimum and a missing or different executable reject the rule; an
  unknown depth does not.
\<close>

definition when_admits ::
    "'a platform_scheme \<Rightarrow> when_filter option \<Rightarrow> u8 option \<Rightarrow> string option \<Rightarrow> bool" where
  "when_admits pf w depth exe_lower =
     (case w of
        None \<Rightarrow> True
      | Some f \<Rightarrow>
          (case when_depth f of
             None \<Rightarrow> True
           | Some min_depth \<Rightarrow> (case depth of None \<Rightarrow> True | Some d \<Rightarrow> \<not> d < min_depth)) \<and>
          (case when_exe f of
             None \<Rightarrow> True
           | Some exe_pattern \<Rightarrow>
               (case exe_lower of
                  None \<Rightarrow> False
                | Some exe \<Rightarrow> pattern_matches_exact (ensure_lower pf exe_pattern) exe)))"

definition rule_spec :: "string \<Rightarrow> rule_row \<Rightarrow> nat" where
  "rule_spec pattern row =
     pattern_specificity pattern + (if row_when row \<noteq> None then 1 else 0) +
     (case row_when row of
        None \<Rightarrow> 0
      | Some w \<Rightarrow> (case when_exe w of None \<Rightarrow> 0 | Some exe \<Rightarrow> pattern_specificity exe))"

text \<open>One turn of the loop of \<^verbatim>\<open>best_rule_match_full\<close>; the state is \<^verbatim>\<open>best\<close> and \<^verbatim>\<open>default_row\<close>.\<close>

definition full_step ::
    "('t, 'e) env_scheme \<Rightarrow> string \<Rightarrow> u8 option \<Rightarrow> string option
     \<Rightarrow> (nat \<times> string \<times> rule_row) option \<times> (string \<times> rule_row) option \<Rightarrow> string \<times> string
     \<Rightarrow> (nat \<times> string \<times> rule_row) option \<times> (string \<times> rule_row) option" where
  "full_step E lower_path depth exe_lower st entry =
     (let (best, default_row) = st; (pattern, value) = entry in
      if pattern = [] then (best, map_option (\<lambda>r. (pattern, r)) (rule_decode E value))
      else if \<not> pattern_matches_prefix pattern lower_path then st
      else (case rule_decode E value of
          None \<Rightarrow> st
        | Some row \<Rightarrow>
            if \<not> when_admits E (row_when row) depth exe_lower then st
            else (keep_better best (rule_spec pattern row) (pattern, row), default_row)))"

definition best_rule_match_full ::
    "('t, 'e) env_scheme \<Rightarrow> 't database \<Rightarrow> string \<Rightarrow> u8 option \<Rightarrow> string option \<Rightarrow> (string \<times> rule_row) option" where
  "best_rule_match_full E txn lower_path depth exe_lower =
     (case open_r txn RULES of
        Inl e \<Rightarrow> None
      | Inr table \<Rightarrow>
          (let (best, default_row) = foldl (full_step E lower_path depth exe_lower) (None, None) (tb_iter E table)
           in case best of Some (s, kr) \<Rightarrow> Some kr | None \<Rightarrow> default_row))"

definition db_best_rule_match ::
    "('t, 'e) env_scheme \<Rightarrow> 't database \<Rightarrow> string \<Rightarrow> u8 option \<Rightarrow> string option \<Rightarrow> rule_row option" where
  "db_best_rule_match E txn lower_path depth exe_lower =
     map_option snd (best_rule_match_full E txn lower_path depth exe_lower)"

fun first_glob_match :: "string \<Rightarrow> (string \<times> string) list \<Rightarrow> string option" where
  "first_glob_match lower_path [] = None"
| "first_glob_match lower_path ((pattern, payload) # rest) =
     (if pattern_matches_exact pattern lower_path then Some payload else first_glob_match lower_path rest)"

definition db_find_mock_payload :: "('t, 'e) env_scheme \<Rightarrow> 't database \<Rightarrow> string \<Rightarrow> string option" where
  "db_find_mock_payload E txn lower_path =
     (case open_r txn MOCKS of
        Inl e \<Rightarrow> None
      | Inr table \<Rightarrow>
          (case tb_get E table lower_path of
             Some v \<Rightarrow> Some v
           | None \<Rightarrow> first_glob_match lower_path (tb_iter E table)))"

definition mock_dir_step :: "string \<Rightarrow> (nat \<times> string) option \<Rightarrow> string \<Rightarrow> (nat \<times> string) option" where
  "mock_dir_step lower_path best pattern =
     (if \<not> pattern_matches_prefix pattern lower_path then best
      else keep_better best (pattern_specificity pattern) pattern)"

definition db_matched_mock_dir :: "('t, 'e) env_scheme \<Rightarrow> 't database \<Rightarrow> string \<Rightarrow> string option" where
  "db_matched_mock_dir E txn lower_path =
     (case open_r txn MOCK_DIRS of
        Inl e \<Rightarrow> None
      | Inr table \<Rightarrow> map_option snd (foldl (mock_dir_step lower_path) None (map fst (tb_iter E table))))"

section \<open>What the scans return\<close>

definition mock_dir_score :: "string \<Rightarrow> string \<Rightarrow> nat option" where
  "mock_dir_score lower_path pattern =
     (if pattern_matches_prefix pattern lower_path then Some (pattern_specificity pattern) else None)"

interpretation mock_dirs: scored_scan "mock_dir_score p" "mock_dir_step p" for p
  by unfold_locales (simp add: mock_dir_step_def mock_dir_score_def)

text \<open>The rules as a list: the entries with a non-empty key that decode.\<close>

definition decoded_rules :: "('t, 'e) env_scheme \<Rightarrow> (string \<times> string) list \<Rightarrow> (string \<times> rule_row) list" where
  "decoded_rules E kvs =
     List.map_filter (\<lambda>(k, v). if k = [] then None else map_option (\<lambda>r. (k, r)) (rule_decode E v)) kvs"

definition rule_score ::
    "'a platform_scheme \<Rightarrow> string \<Rightarrow> u8 option \<Rightarrow> string option \<Rightarrow> string \<times> rule_row \<Rightarrow> nat option" where
  "rule_score pf lower_path depth exe_lower kr =
     (if pattern_matches_prefix (fst kr) lower_path \<and> when_admits pf (row_when (snd kr)) depth exe_lower
      then Some (rule_spec (fst kr) (snd kr)) else None)"

definition rule_step ::
    "'a platform_scheme \<Rightarrow> string \<Rightarrow> u8 option \<Rightarrow> string option
     \<Rightarrow> (nat \<times> string \<times> rule_row) option \<Rightarrow> string \<times> rule_row \<Rightarrow> (nat \<times> string \<times> rule_row) option" where
  "rule_step pf lower_path depth exe_lower best kr =
     (case rule_score pf lower_path depth exe_lower kr of None \<Rightarrow> best | Some s \<Rightarrow> keep_better best s kr)"

interpretation rules: scored_scan "rule_score pf p d e" "rule_step pf p d e" for pf p d e
  by unfold_locales (simp add: rule_step_def)

lemma decoded_rules_simps [simp]:
  "decoded_rules E [] = []"
  "decoded_rules E ((k, v) # kvs) =
     (if k = [] then decoded_rules E kvs
      else (case rule_decode E v of None \<Rightarrow> decoded_rules E kvs | Some r \<Rightarrow> (k, r) # decoded_rules E kvs))"
  by (auto simp: decoded_rules_def List.map_filter_def split: option.splits)

lemma full_step_fold:
  "fst (foldl (full_step E p d e) (b, df) kvs) = foldl (rule_step E p d e) b (decoded_rules E kvs)"
proof (induction kvs arbitrary: b df)
  case (Cons kv kvs)
  obtain k v where kv: "kv = (k, v)" by (cases kv)
  have step: "full_step E p d e (b, df) (k, v) =
      (case rule_decode E v of
         None \<Rightarrow> (b, if k = [] then None else df)
       | Some r \<Rightarrow> if k = [] then (b, Some (k, r)) else (rule_step E p d e b (k, r), df))"
    by (auto simp: full_step_def rule_step_def rule_score_def split: option.splits)
  show ?case using Cons.IH by (auto simp: kv step split: option.splits)
qed simp

lemma full_step_default:
  "\<forall>(k, v)\<in>set kvs. k \<noteq> [] \<Longrightarrow> snd (foldl (full_step E p d e) (b, df) kvs) = df"
proof (induction kvs arbitrary: b)
  case (Cons kv kvs)
  obtain k v where kv: "kv = (k, v)" by (cases kv)
  with Cons.prems have "k \<noteq> []" by simp
  then have "\<exists>b'. full_step E p d e (b, df) kv = (b', df)"
    by (auto simp: kv full_step_def split: option.splits)
  with Cons show ?case by auto
qed simp

text \<open>The empty key sorts first, so the default row is the first entry or absent.\<close>

lemma sorted_empty_first:
  assumes "sorted_wrt (<) (map fst (kvs :: (string \<times> string) list))" and "kvs = kv # rest"
  shows "\<forall>(k, v)\<in>set rest. k \<noteq> []"
proof -
  have "\<forall>k\<in>set (map fst rest). fst kv < k" using assms by simp
  then show ?thesis by (force simp: less_list_code)
qed

lemma full_step_default_row:
  assumes "sorted_wrt (<) (map fst kvs)"
  shows "snd (foldl (full_step E p d e) (None, None) kvs) =
    (case map_of kvs [] of None \<Rightarrow> None | Some v \<Rightarrow> map_option (\<lambda>r. ([], r)) (rule_decode E v))"
proof (cases kvs)
  case (Cons kv rest)
  obtain k v where kv: "kv = (k, v)" by (cases kv)
  have ne: "\<forall>(k, v)\<in>set rest. k \<noteq> []" using sorted_empty_first [OF assms Cons] .
  then have "map_of rest [] = None" by (force simp: map_of_eq_None_iff)
  moreover have "\<exists>b'. full_step E p d e (None, None) (k, v) =
      (b', if k = [] then map_option (\<lambda>r. ([], r)) (rule_decode E v) else None)"
    by (auto simp: full_step_def split: option.splits)
  then obtain b' where "full_step E p d e (None, None) (k, v) =
      (b', if k = [] then map_option (\<lambda>r. ([], r)) (rule_decode E v) else None)" by blast
  ultimately show ?thesis using full_step_default [OF ne, of E p d e] by (simp add: Cons kv)
qed simp

text \<open>The scan of the database as a choice over the decoded rules, with the default row as fallback.\<close>

lemma best_rule_match_full_scan:
  assumes "redb_lawful E"
  shows "best_rule_match_full E db p d e =
    (case tables db RULES of
       None \<Rightarrow> None
     | Some t \<Rightarrow>
         (case foldl (rule_step E p d e) None (decoded_rules E (tb_iter E t)) of
            Some (s, kr) \<Rightarrow> Some kr
          | None \<Rightarrow> map_option (\<lambda>r. ([], r)) (Option.bind (tb_get E t []) (rule_decode E))))"
proof (cases "tables db RULES")
  case (Some t)
  define st where "st = foldl (full_step E p d e) (None, None) (tb_iter E t)"
  have "fst st = foldl (rule_step E p d e) None (decoded_rules E (tb_iter E t))"
    unfolding st_def by (rule full_step_fold)
  moreover have "snd st = map_option (\<lambda>r. ([], r)) (Option.bind (tb_get E t []) (rule_decode E))"
    unfolding st_def using full_step_default_row [OF redb_laws(5) [OF assms], of E p d e t]
    by (auto simp: redb_laws(6) [OF assms] split: option.splits)
  ultimately show ?thesis using Some
    by (auto simp: best_rule_match_full_def open_r_def st_def [symmetric] split: option.splits prod.splits)
qed (simp add: best_rule_match_full_def open_r_def)

end
