(* ===== verification/RuleIndex.thy ===== *)
theory RuleIndex
  imports RuleMatch "HOL-Library.AList"
begin

text \<open>
  The precompiled rule index of \<^verbatim>\<open>decide/rule_index.rs\<close> and the \<^verbatim>\<open>Snapshot\<close> of
  \<^verbatim>\<open>decide/mod.rs\<close>: literal rules in a trie over pattern segments, wildcard rules in a list, and the
  lookups against them. The index finds the rule the linear scan of the database finds.
\<close>

section \<open>Compiled rules and the trie\<close>

record snapshot_rule =
  sr_pattern :: string
  sr_row :: rule_row

record compiled_rule =
  cr_segs :: "string list"
  cr_spec :: nat
  when_min_depth :: "u8 option"
  when_exe_segs :: "string list option"
  cr_wildcard :: bool

datatype trie_node = TrieNode "nat list" "(string \<times> trie_node) list"

record rule_index =
  ix_compiled :: "compiled_rule list"
  ix_root :: trie_node
  ix_wildcards :: "nat list"

definition empty_node :: trie_node where
  "empty_node = TrieNode [] []"

definition compile_rule :: "'a platform_scheme \<Rightarrow> snapshot_rule \<Rightarrow> compiled_rule" where
  "compile_rule pf sr =
     (let segs = segs_of (sr_pattern sr); row = sr_row sr;
          exe = Option.bind (row_when row) when_exe
      in \<lparr>cr_segs = segs,
          cr_spec = pattern_specificity (sr_pattern sr) + (if row_when row \<noteq> None then 1 else 0)
            + (case exe of None \<Rightarrow> 0 | Some e \<Rightarrow> pattern_specificity e),
          when_min_depth = Option.bind (row_when row) when_depth,
          when_exe_segs = map_option (\<lambda>e. segs_all (ensure_lower pf e)) exe,
          cr_wildcard = list_ex has_wildcard segs\<rparr>)"

text \<open>Walking down with \<^verbatim>\<open>entry().or_default()\<close> and pushing the rule at the last node.\<close>

fun trie_insert :: "string list \<Rightarrow> nat \<Rightarrow> trie_node \<Rightarrow> trie_node" where
  "trie_insert [] idx (TrieNode rs ch) = TrieNode (rs @ [idx]) ch"
| "trie_insert (seg # segs) idx (TrieNode rs ch) =
     TrieNode rs (AList.update seg
       (trie_insert segs idx (case map_of ch seg of Some c \<Rightarrow> c | None \<Rightarrow> empty_node)) ch)"

definition build_step :: "'a platform_scheme \<Rightarrow> rule_index \<Rightarrow> snapshot_rule \<Rightarrow> rule_index" where
  "build_step pf index sr =
     (let idx = length (ix_compiled index); c = compile_rule pf sr in
      (if cr_wildcard c then index\<lparr>ix_wildcards := ix_wildcards index @ [idx]\<rparr>
       else index\<lparr>ix_root := trie_insert (cr_segs c) idx (ix_root index)\<rparr>)
      \<lparr>ix_compiled := ix_compiled index @ [c]\<rparr>)"

definition index_build :: "'a platform_scheme \<Rightarrow> snapshot_rule list \<Rightarrow> rule_index" where
  "index_build pf rules =
     foldl (build_step pf) \<lparr>ix_compiled = [], ix_root = empty_node, ix_wildcards = []\<rparr> rules"

fun trie_walk :: "trie_node \<Rightarrow> string list \<Rightarrow> nat list" where
  "trie_walk node [] = []"
| "trie_walk (TrieNode rs ch) (seg # segs) =
     (case map_of ch seg of
        Some child \<Rightarrow> (case child of TrieNode rs' ch' \<Rightarrow> rs') @ trie_walk child segs
      | None \<Rightarrow> [])"

definition node_rules :: "trie_node \<Rightarrow> nat list" where
  "node_rules node = (case node of TrieNode rs ch \<Rightarrow> rs)"

definition candidate_indices :: "rule_index \<Rightarrow> string list \<Rightarrow> nat list" where
  "candidate_indices index path_segs =
     node_rules (ix_root index) @ trie_walk (ix_root index) path_segs @ ix_wildcards index"

section \<open>The snapshot\<close>

record snapshot =
  sn_rules :: "snapshot_rule list"
  sn_default :: "rule_row option"
  mocks_exact :: "(string \<times> string) list" \<comment> \<open>\<^verbatim>\<open>FxHashMap\<close>\<close>
  mocks_glob :: "(string \<times> string) list"
  mock_dirs :: "string list"
  sn_index :: rule_index

definition load_rules_step ::
    "('t, 'e) env_scheme \<Rightarrow> snapshot_rule list \<times> rule_row option \<Rightarrow> string \<times> string \<Rightarrow> snapshot_rule list \<times> rule_row option" where
  "load_rules_step E st entry =
     (let (rules, default_rule) = st; (pattern, value) = entry in
      case rule_decode E value of
        None \<Rightarrow> st
      | Some row \<Rightarrow>
          if pattern = [] then (rules, Some row)
          else (rules @ [\<lparr>sr_pattern = pattern, sr_row = row\<rparr>], default_rule))"

definition load_mocks_step ::
    "(string \<times> string) list \<times> (string \<times> string) list \<Rightarrow> string \<times> string \<Rightarrow> (string \<times> string) list \<times> (string \<times> string) list" where
  "load_mocks_step st entry =
     (let (exact, glob) = st; (pattern, payload) = entry in
      if has_wildcard pattern then (exact, glob @ [(pattern, payload)])
      else (AList.update pattern payload exact, glob))"

definition table_entries :: "('t, 'e) env_scheme \<Rightarrow> 't database \<Rightarrow> table_name \<Rightarrow> (string \<times> string) list" where
  "table_entries E db n = (case open_r db n of Inl e \<Rightarrow> [] | Inr t \<Rightarrow> tb_iter E t)"

definition snapshot_load :: "('t, 'e) env_scheme \<Rightarrow> 't database \<Rightarrow> policy_error + snapshot" where
  "snapshot_load E db = read_txn E (\<lambda>db.
     (let (rules, default_rule) = foldl (load_rules_step E) ([], None) (table_entries E db RULES);
          (exact, glob) = foldl load_mocks_step ([], []) (table_entries E db MOCKS)
      in Inr \<lparr>sn_rules = rules, sn_default = default_rule, mocks_exact = exact, mocks_glob = glob,
              mock_dirs = map fst (table_entries E db MOCK_DIRS), sn_index = index_build E rules\<rparr>)) db"

definition find_mock_payload :: "snapshot \<Rightarrow> string \<Rightarrow> string option" where
  "find_mock_payload snap lower_path =
     (case map_of (mocks_exact snap) lower_path of
        Some payload \<Rightarrow> Some payload
      | None \<Rightarrow> first_glob_match lower_path (mocks_glob snap))"

definition matched_mock_dir :: "snapshot \<Rightarrow> string \<Rightarrow> string option" where
  "matched_mock_dir snap lower_path = map_option snd (foldl (mock_dir_step lower_path) None (mock_dirs snap))"

text \<open>The candidate filters of \<^verbatim>\<open>best_explicit_rule_match\<close>, in the order of the code.\<close>

definition candidate_score ::
    "compiled_rule \<Rightarrow> string list \<Rightarrow> u8 option \<Rightarrow> string list option \<Rightarrow> nat option" where
  "candidate_score cr path_segs depth exe_segs =
     (if cr_wildcard cr \<and> \<not> prefix_match (cr_segs cr) path_segs then None
      else if (case (depth, when_min_depth cr) of (Some d, Some min_depth) \<Rightarrow> d < min_depth | _ \<Rightarrow> False) then None
      else (case when_exe_segs cr of
          None \<Rightarrow> Some (cr_spec cr)
        | Some pat \<Rightarrow>
            (case exe_segs of
               Some exe \<Rightarrow> if exact_match pat exe then Some (cr_spec cr) else None
             | None \<Rightarrow> None)))"

definition candidate_step ::
    "rule_index \<Rightarrow> string list \<Rightarrow> u8 option \<Rightarrow> string list option \<Rightarrow> (nat \<times> nat) option \<Rightarrow> nat \<Rightarrow> (nat \<times> nat) option" where
  "candidate_step index path_segs depth exe_segs best idx =
     (case candidate_score (ix_compiled index ! idx) path_segs depth exe_segs of
        None \<Rightarrow> best
      | Some spec \<Rightarrow>
          (case best of
             None \<Rightarrow> Some (spec, idx)
           | Some (s, i) \<Rightarrow> if spec > s \<or> spec = s \<and> idx < i then Some (spec, idx) else best))"

definition best_explicit_rule_match ::
    "snapshot \<Rightarrow> string \<Rightarrow> u8 option \<Rightarrow> string option \<Rightarrow> rule_row option" where
  "best_explicit_rule_match snap lower_path depth exe_lower =
     (let path_segs = segs_of lower_path; exe_segs = map_option segs_all exe_lower;
          candidates = candidate_indices (sn_index snap) path_segs
      in map_option (\<lambda>(s, idx). sr_row (sn_rules snap ! idx))
           (foldl (candidate_step (sn_index snap) path_segs depth exe_segs) None candidates))"

definition best_rule_match ::
    "snapshot \<Rightarrow> string \<Rightarrow> u8 option \<Rightarrow> string option \<Rightarrow> rule_row option" where
  "best_rule_match snap lower_path depth exe_lower =
     (case best_explicit_rule_match snap lower_path depth exe_lower of
        Some r \<Rightarrow> Some r
      | None \<Rightarrow> sn_default snap)"

section \<open>What the trie holds\<close>

fun node_at :: "trie_node \<Rightarrow> string list \<Rightarrow> nat list" where
  "node_at (TrieNode rs ch) [] = rs"
| "node_at (TrieNode rs ch) (seg # segs) =
     (case map_of ch seg of Some c \<Rightarrow> node_at c segs | None \<Rightarrow> [])"

lemma node_at_empty [simp]: "node_at empty_node p = []"
  by (cases p) (simp_all add: empty_node_def)

lemma node_rules_at [simp]: "node_rules t = node_at t []"
  by (cases t) (simp add: node_rules_def)

lemma node_at_insert: "node_at (trie_insert q i t) p = node_at t p @ (if p = q then [i] else [])"
proof (induction q i t arbitrary: p rule: trie_insert.induct)
  case (1 i rs ch)
  then show ?case by (cases p) auto
next
  case (2 seg segs i rs ch)
  show ?case
  proof (cases p)
    case (Cons s ss)
    with 2 show ?thesis by (auto simp: AList.update_conv' split: option.splits)
  qed simp
qed

lemma trie_walk_set:
  "set (trie_walk t segs) = (\<Union>n\<in>{1..length segs}. set (node_at t (take n segs)))"
proof (induction t segs rule: trie_walk.induct)
  case (2 rs ch seg segs)
  have shift: "(\<Union>n\<in>{1..length (seg # segs)}. set (node_at (TrieNode rs ch) (take n (seg # segs)))) =
      (\<Union>n\<in>{0..length segs}. set (node_at (TrieNode rs ch) (seg # take n segs)))"
  proof -
    have e: "{1..length (seg # segs)} = Suc ` {0..length segs}" by (simp add: image_Suc_atLeastAtMost)
    show ?thesis unfolding e image_image SUP_image comp_def take_Suc_Cons by (rule refl)
  qed
  show ?case
  proof (cases "map_of ch seg")
    case None
    then show ?thesis unfolding shift by simp
  next
    case (Some c)
    have "{0..length segs} = insert 0 {1..length segs}" by auto
    moreover have "(case c of TrieNode rs' ch' \<Rightarrow> rs') = node_at c []" by (cases c) simp
    ultimately show ?thesis unfolding shift using 2 Some by simp
  qed
qed simp

text \<open>
  The invariant of \<^verbatim>\<open>RuleIndex::build\<close>: one compiled rule per rule, the wildcard rules in the list, each other
  rule at the node of its segments.
\<close>

definition index_inv :: "'a platform_scheme \<Rightarrow> snapshot_rule list \<Rightarrow> rule_index \<Rightarrow> bool" where
  "index_inv pf rules ix \<longleftrightarrow>
     ix_compiled ix = map (compile_rule pf) rules \<and>
     set (ix_wildcards ix) = {i. i < length rules \<and> cr_wildcard (compile_rule pf (rules ! i))} \<and>
     (\<forall>p. set (node_at (ix_root ix) p) =
        {i. i < length rules \<and> \<not> cr_wildcard (compile_rule pf (rules ! i)) \<and> cr_segs (compile_rule pf (rules ! i)) = p})"

lemma index_inv_step:
  "index_inv pf rules ix \<Longrightarrow> index_inv pf (rules @ [sr]) (build_step pf ix sr)"
  unfolding index_inv_def
  by (auto simp: build_step_def Let_def node_at_insert nth_append less_Suc_eq)

lemma index_build_inv: "index_inv pf rules (index_build pf rules)"
proof (induction rules rule: rev_induct)
  case Nil
  then show ?case by (simp add: index_inv_def index_build_def)
next
  case (snoc sr rules)
  then show ?case using index_inv_step by (simp add: index_build_def)
qed

lemma compile_rule_simps:
  "cr_segs (compile_rule pf sr) = segs_of (sr_pattern sr)"
  "cr_wildcard (compile_rule pf sr) = list_ex has_wildcard (segs_of (sr_pattern sr))"
  "cr_spec (compile_rule pf sr) = rule_spec (sr_pattern sr) (sr_row sr)"
  "when_min_depth (compile_rule pf sr) = Option.bind (row_when (sr_row sr)) when_depth"
  "when_exe_segs (compile_rule pf sr) =
     map_option (\<lambda>e. segs_all (ensure_lower pf e)) (Option.bind (row_when (sr_row sr)) when_exe)"
  by (auto simp: compile_rule_def rule_spec_def Let_def split: option.splits)

lemma candidates_set:
  "set (candidate_indices (index_build pf rules) segs) =
     {i. i < length rules \<and>
         (cr_wildcard (compile_rule pf (rules ! i)) \<or> prefix (segs_of (sr_pattern (rules ! i))) segs)}"
proof -
  let ?ix = "index_build pf rules"
  note inv = index_build_inv [of pf rules, unfolded index_inv_def]
  have "set (candidate_indices ?ix segs) =
      (\<Union>n\<in>{0..length segs}. set (node_at (ix_root ?ix) (take n segs))) \<union> set (ix_wildcards ?ix)"
  proof -
    have "{0..length segs} = insert 0 {1..length segs}" by auto
    then show ?thesis by (simp add: candidate_indices_def trie_walk_set Un_assoc)
  qed
  also have "\<dots> = {i. i < length rules \<and> \<not> cr_wildcard (compile_rule pf (rules ! i)) \<and>
        (\<exists>n\<in>{0..length segs}. cr_segs (compile_rule pf (rules ! i)) = take n segs)} \<union>
      {i. i < length rules \<and> cr_wildcard (compile_rule pf (rules ! i))}"
    using inv by auto
  also have "\<dots> = {i. i < length rules \<and>
      (cr_wildcard (compile_rule pf (rules ! i)) \<or> prefix (segs_of (sr_pattern (rules ! i))) segs)}"
    by (auto simp: compile_rule_simps take_is_prefix) (metis atLeastAtMost_iff le0 prefix_length_le prefix_def
        append_eq_conv_conj)
  finally show ?thesis .
qed

section \<open>The index agrees with the linear scan\<close>

text \<open>On a candidate the filters of the index accept exactly what the linear scan accepts.\<close>

lemma candidate_score_rule:
  assumes "sr_pattern sr \<noteq> []"
    and "cr_wildcard (compile_rule pf sr) \<or> prefix (segs_of (sr_pattern sr)) (segs_of p)"
  shows "candidate_score (compile_rule pf sr) (segs_of p) d (map_option segs_all e) =
    rule_score pf p d e (sr_pattern sr, sr_row sr)"
proof -
  have m: "(cr_wildcard (compile_rule pf sr) \<and> \<not> prefix_match (segs_of (sr_pattern sr)) (segs_of p)) \<longleftrightarrow>
      \<not> pattern_matches_prefix (sr_pattern sr) p"
  proof (cases "cr_wildcard (compile_rule pf sr)")
    case True
    with assms(1) show ?thesis by (simp add: pattern_matches_prefix_def)
  next
    case False
    then have "prefix_match (segs_of (sr_pattern sr)) (segs_of p)"
      using assms(2) by (subst prefix_match_literal) (auto simp: compile_rule_simps list_ex_iff)
    with False assms(1) show ?thesis by (simp add: pattern_matches_prefix_def)
  qed
  have x: "exact_match (segs_all a) (segs_all b) \<longleftrightarrow> pattern_matches_exact a b" for a b
    by (simp add: pattern_matches_exact_segs)
  show ?thesis
    unfolding candidate_score_def compile_rule_simps(1) m rule_score_def
    by (auto simp: compile_rule_simps(3-5) when_admits_def x split: option.splits)
qed

lemma non_candidate_score:
  assumes "sr_pattern sr \<noteq> []"
    and "\<not> (cr_wildcard (compile_rule pf sr) \<or> prefix (segs_of (sr_pattern sr)) (segs_of p))"
  shows "rule_score pf p d e (sr_pattern sr, sr_row sr) = None"
proof -
  have "\<not> prefix_match (segs_of (sr_pattern sr)) (segs_of p)"
    using assms(2) by (subst prefix_match_literal) (auto simp: compile_rule_simps list_ex_iff)
  with assms(1) show ?thesis by (simp add: rule_score_def pattern_matches_prefix_def)
qed

interpretation index_choice: indexed_choice
  "\<lambda>idx. candidate_score (ix_compiled ix ! idx) segs d es" "candidate_step ix segs d es" for ix segs d es
  by unfold_locales (simp add: candidate_step_def)

definition rule_pairs :: "snapshot_rule list \<Rightarrow> (string \<times> rule_row) list" where
  "rule_pairs rules = map (\<lambda>sr. (sr_pattern sr, sr_row sr)) rules"

lemma index_scan_agree:
  assumes "\<forall>sr\<in>set rules. sr_pattern sr \<noteq> []"
  shows "map_option (\<lambda>(s, idx). sr_row (rules ! idx))
       (foldl (candidate_step (index_build pf rules) (segs_of p) d (map_option segs_all e)) None
         (candidate_indices (index_build pf rules) (segs_of p))) =
     map_option (snd \<circ> snd) (foldl (rule_step pf p d e) None (rule_pairs rules))"
proof -
  let ?ix = "index_build pf rules" and ?n = "length rules"
  let ?cs = "candidate_indices ?ix (segs_of p)"
  let ?score = "\<lambda>i. rule_score pf p d e (rule_pairs rules ! i)"
  have comp: "ix_compiled ?ix ! i = compile_rule pf (rules ! i)" if "i < ?n" for i
    using index_build_inv [of pf rules] that by (simp add: index_inv_def)
  have pairs: "i < ?n \<Longrightarrow> rule_pairs rules ! i = (sr_pattern (rules ! i), sr_row (rules ! i))" for i
    by (simp add: rule_pairs_def)
  have choice: "case foldl (candidate_step ?ix (segs_of p) d (map_option segs_all e)) None ?cs of
      None \<Rightarrow> \<forall>i<?n. ?score i = None | Some (s, i) \<Rightarrow> first_best ?score ?n i s"
  proof (rule index_choice.choice_first_best)
    show "set ?cs \<subseteq> {..<?n}" unfolding candidates_set by auto
  next
    fix i assume "i < ?n" "i \<notin> set ?cs"
    then show "?score i = None"
      using assms by (simp add: candidates_set pairs non_candidate_score)
  next
    fix i assume "i \<in> set ?cs"
    then show "?score i = candidate_score (ix_compiled ?ix ! i) (segs_of p) d (map_option segs_all e)"
      using assms by (auto simp: candidates_set pairs comp candidate_score_rule)
  qed
  have len: "length (rule_pairs rules) = ?n" by (simp add: rule_pairs_def)
  show ?thesis
  proof (cases "foldl (candidate_step ?ix (segs_of p) d (map_option segs_all e)) None ?cs")
    case None
    with choice have "\<forall>i<?n. ?score i = None" by simp
    then have "\<forall>x\<in>set (rule_pairs rules). rule_score pf p d e x = None"
      by (metis in_set_conv_nth len)
    with None show ?thesis by (simp add: rules.scan_None [THEN iffD2])
  next
    case (Some b)
    obtain s i where b: "b = (s, i)" by (cases b)
    with Some choice have fb: "first_best ?score (length (rule_pairs rules)) i s" by (simp add: len)
    then have "i < ?n" by (simp add: first_best_def len)
    with Some b rules.scan_first_best [OF fb] pairs show ?thesis by simp
  qed
qed

section \<open>Loading the snapshot\<close>

lemma table_entries_tentries: "table_entries E db n = tentries E db n"
  by (simp add: table_entries_def tentries_def open_r_def split: option.splits)

lemma load_rules_pairs:
  "rule_pairs (fst (foldl (load_rules_step E) (rs, df) kvs)) = rule_pairs rs @ decoded_rules E kvs"
proof (induction kvs arbitrary: rs df)
  case (Cons kv kvs)
  obtain k v where kv: "kv = (k, v)" by (cases kv)
  show ?case
  proof (cases "rule_decode E v")
    case None
    with Cons show ?thesis by (simp add: kv load_rules_step_def)
  next
    case (Some r)
    with Cons.IH show ?thesis by (auto simp: kv load_rules_step_def rule_pairs_def)
  qed
qed simp

lemma load_rules_nonempty:
  "\<forall>sr\<in>set rs. sr_pattern sr \<noteq> [] \<Longrightarrow>
   \<forall>sr\<in>set (fst (foldl (load_rules_step E) (rs, df) kvs)). sr_pattern sr \<noteq> []"
proof (induction kvs arbitrary: rs df)
  case (Cons kv kvs)
  obtain k v where kv: "kv = (k, v)" by (cases kv)
  obtain rs' df' where st: "load_rules_step E (rs, df) kv = (rs', df')" by (metis surj_pair)
  then have "\<forall>sr\<in>set rs'. sr_pattern sr \<noteq> []"
    using Cons.prems by (auto simp: kv load_rules_step_def split: option.splits if_splits)
  with Cons.IH st show ?case by simp
qed simp

lemma load_rules_default:
  assumes "distinct (map fst kvs)"
  shows "snd (foldl (load_rules_step E) (rs, df) kvs) =
    (case Option.bind (map_of kvs []) (rule_decode E) of Some r \<Rightarrow> Some r | None \<Rightarrow> df)"
  using assms
proof (induction kvs arbitrary: rs df)
  case (Cons kv kvs)
  obtain k v where kv: "kv = (k, v)" by (cases kv)
  obtain rs' where st: "load_rules_step E (rs, df) kv =
      (rs', if k = [] then (case rule_decode E v of Some r \<Rightarrow> Some r | None \<Rightarrow> df) else df)"
    by (cases "rule_decode E v"; cases "k = []") (simp_all add: kv load_rules_step_def)
  have "k = [] \<Longrightarrow> map_of kvs [] = None"
    using Cons.prems by (simp add: kv map_of_eq_None_iff)
  with Cons st show ?case by (auto simp: kv split: option.splits)
qed simp

lemma load_mocks_lookup:
  "map_of (fst (foldl load_mocks_step (ex, gl) kvs)) p =
     (case map_of (rev (filter (\<lambda>(k, v). \<not> has_wildcard k) kvs)) p of Some v \<Rightarrow> Some v | None \<Rightarrow> map_of ex p)"
  "snd (foldl load_mocks_step (ex, gl) kvs) = gl @ filter (\<lambda>(k, v). has_wildcard k) kvs"
proof (induction kvs arbitrary: ex gl)
  case (Cons kv kvs)
  obtain k v where kv: "kv = (k, v)" by (cases kv)
  {
    case 1
    show ?case using Cons.IH(1) [of "if has_wildcard k then ex else AList.update k v ex"]
      by (auto simp: kv load_mocks_step_def AList.update_conv' map_add_def split: option.splits)
  next
    case 2
    show ?case using Cons.IH(2) by (auto simp: kv load_mocks_step_def)
  }
qed simp_all

lemma first_glob_literal:
  "\<forall>(k, v)\<in>set kvs. \<not> has_wildcard k \<longrightarrow> k \<noteq> p \<Longrightarrow>
   first_glob_match p (filter (\<lambda>(k, v). has_wildcard k) kvs) = first_glob_match p kvs"
  by (induction kvs) (auto simp: pattern_matches_exact_literal)

lemma map_of_filter_keys:
  "distinct (map fst kvs) \<Longrightarrow> map_of (filter (\<lambda>(k, v). Q k) kvs) p = (if Q p then map_of kvs p else None)"
  by (induction kvs) (auto simp: map_of_eq_None_iff)

lemma map_of_rev_distinct: "distinct (map fst kvs) \<Longrightarrow> map_of (rev kvs) = map_of kvs"
  by (rule ext, rule option.expand) (auto simp: map_of_eq_None_iff map_of_eq_Some_iff rev_map [symmetric])

lemma snapshot_mock_payload:
  assumes "redb_lawful E" and "snapshot_load E db = Inr snap" and "\<not> has_wildcard p"
  shows "find_mock_payload snap p = db_find_mock_payload E db p"
proof -
  let ?kvs = "tentries E db MOCKS"
  have d: "distinct (map fst ?kvs)" using assms(1) by (simp add: tentries_view)
  have ex: "mocks_exact snap = fst (foldl load_mocks_step ([], []) ?kvs)"
    and gl: "mocks_glob snap = snd (foldl load_mocks_step ([], []) ?kvs)"
    using assms(2) by (auto simp: snapshot_load_def read_txn_cases table_entries_tentries split: prod.splits)
  have "distinct (map fst (filter (\<lambda>(k, v). \<not> has_wildcard k) ?kvs))"
    using d by (rule distinct_map_filter)
  then have "map_of (mocks_exact snap) p = map_of ?kvs p"
    using d assms(3) by (simp add: ex load_mocks_lookup map_of_rev_distinct map_of_filter_keys split: option.splits)
  moreover have "first_glob_match p (mocks_glob snap) = first_glob_match p ?kvs" if "map_of ?kvs p = None"
  proof -
    have "\<forall>(k, v)\<in>set ?kvs. k \<noteq> p" using that by (force simp: map_of_eq_None_iff)
    then show ?thesis by (simp add: gl load_mocks_lookup) (rule first_glob_literal, auto)
  qed
  ultimately show ?thesis using assms(1)
    by (auto simp: find_mock_payload_def db_find_mock_payload_def open_r_def tentries_def
        redb_laws(6) split: option.splits)
qed

lemma snapshot_rule_match:
  assumes "redb_lawful E" and "snapshot_load E db = Inr snap"
  shows "best_rule_match snap p d e = db_best_rule_match E db p d e"
proof -
  let ?kvs = "tentries E db RULES"
  have rules: "sn_rules snap = fst (foldl (load_rules_step E) ([], None) ?kvs)"
    and df: "sn_default snap = snd (foldl (load_rules_step E) ([], None) ?kvs)"
    and ix: "sn_index snap = index_build E (sn_rules snap)"
    using assms(2) by (auto simp: snapshot_load_def read_txn_cases table_entries_tentries split: prod.splits)
  have ne: "\<forall>sr\<in>set (sn_rules snap). sr_pattern sr \<noteq> []"
    unfolding rules by (rule load_rules_nonempty) simp
  have pairs: "rule_pairs (sn_rules snap) = decoded_rules E ?kvs"
    unfolding rules load_rules_pairs by (simp add: rule_pairs_def)
  have "best_explicit_rule_match snap p d e =
      map_option (snd \<circ> snd) (foldl (rule_step E p d e) None (decoded_rules E ?kvs))"
    using index_scan_agree [OF ne, of E p d e] by (simp add: best_explicit_rule_match_def ix pairs Let_def)
  moreover have "sn_default snap = Option.bind (map_of ?kvs []) (rule_decode E)"
    unfolding df using load_rules_default [of ?kvs E "[]" None] tentries_view(3) [OF assms(1)]
    by (simp split: option.splits)
  ultimately show ?thesis
    using assms(1)
    by (auto simp: best_rule_match_def db_best_rule_match_def best_rule_match_full_scan tentries_def
        redb_laws(6) comp_def option.map_comp option.map_ident split: option.splits)
qed

lemma snapshot_mock_dir:
  assumes "snapshot_load E db = Inr snap"
  shows "matched_mock_dir snap p = db_matched_mock_dir E db p"
  using assms
  by (auto simp: snapshot_load_def read_txn_cases matched_mock_dir_def db_matched_mock_dir_def table_entries_def
      split: prod.splits sum.splits)

lemma snapshot_index:
  assumes "snapshot_load E db = Inr snap"
  shows "sn_index snap = index_build E (sn_rules snap)" "\<forall>sr\<in>set (sn_rules snap). sr_pattern sr \<noteq> []"
proof -
  show "sn_index snap = index_build E (sn_rules snap)"
    using assms by (auto simp: snapshot_load_def read_txn_cases split: prod.splits)
  have "sn_rules snap = fst (foldl (load_rules_step E) ([], None) (table_entries E db RULES))"
    using assms by (auto simp: snapshot_load_def read_txn_cases split: prod.splits)
  then show "\<forall>sr\<in>set (sn_rules snap). sr_pattern sr \<noteq> []"
    using load_rules_nonempty [of "[]" E None] by simp
qed

lemma best_explicit_scan:
  assumes "snapshot_load E db = Inr snap"
  shows "best_explicit_rule_match snap p d e =
    map_option (snd \<circ> snd) (foldl (rule_step E p d e) None (rule_pairs (sn_rules snap)))"
  using index_scan_agree [OF snapshot_index(2) [OF assms], of E p d e]
  by (simp add: best_explicit_rule_match_def snapshot_index(1) [OF assms] Let_def)

section \<open>Properties\<close>

text \<open>
  C9: the decision snapshot answers every lookup as the database scan does: the trie index and its tie-break
  give the row the linear scan with the strict comparison gives, the default row included; the mock
  directory is the same; and so is the mock payload, for every path that is not itself a glob.
\<close>

theorem snapshot_matches_database:
  assumes "redb_lawful E" and "snapshot_load E db = Inr snap"
  shows "best_rule_match snap p d e = db_best_rule_match E db p d e \<and>
    matched_mock_dir snap p = db_matched_mock_dir E db p \<and>
    (\<not> has_wildcard p \<longrightarrow> find_mock_payload snap p = db_find_mock_payload E db p)"
  using assms by (simp add: snapshot_rule_match snapshot_mock_dir snapshot_mock_payload)

definition sample_rows :: "rule_row list" where
  "sample_rows =
     [\<lparr>row_id = ''r1'', row_prefix = win ''c:|a'', mode_read = RM_Passthrough, mode_write = RM_Deny, row_when = None\<rparr>,
      \<lparr>row_id = ''r2'', row_prefix = win ''c:|a|*'', mode_read = RM_Deny, mode_write = RM_Deny,
       row_when = Some \<lparr>when_depth = Some 1, when_exe = None\<rparr>\<rparr>]"

definition sample_env :: "((string \<times> string) list) env" where
  "sample_env = list_table_env sample_rows [] []"

definition sample_db :: "(string \<times> string) list database" where
  "sample_db = put_table empty_database RULES [(win ''c:|a'', unary 0), (win ''c:|a|*'', unary 1)]"

theorem snapshot_matches_database_witness:
  "redb_lawful sample_env \<and>
   (case snapshot_load sample_env sample_db of
      Inl e \<Rightarrow> False
    | Inr snap \<Rightarrow> best_rule_match snap (win ''c:|a|b'') (Some 2) None =
        db_best_rule_match sample_env sample_db (win ''c:|a|b'') (Some 2) None)"
proof -
  have l: "redb_lawful sample_env" by (simp add: sample_env_def)
  moreover have "\<exists>snap. snapshot_load sample_env sample_db = Inr snap"
    by (simp add: sample_env_def snapshot_load_def read_txn_def split: prod.splits)
  ultimately show ?thesis
    using snapshot_matches_database [OF l, of sample_db] by auto
qed

text \<open>
  the explicit rule a decision uses is the most specific one that matches the path and admits the
  depth and executable, the earliest in key order among equals; no rule is used exactly when none matches.
\<close>

theorem explicit_rule_most_specific:
  assumes "snapshot_load E db = Inr snap"
  shows "case best_explicit_rule_match snap p d e of
      None \<Rightarrow> \<forall>kr\<in>set (rule_pairs (sn_rules snap)). rule_score E p d e kr = None
    | Some row \<Rightarrow> \<exists>i s. first_best (\<lambda>i. rule_score E p d e (rule_pairs (sn_rules snap) ! i))
          (length (sn_rules snap)) i s \<and> row = sr_row (sn_rules snap ! i)"
proof (cases "foldl (rule_step E p d e) None (rule_pairs (sn_rules snap))")
  case None
  then have "best_explicit_rule_match snap p d e = None" by (simp add: best_explicit_scan [OF assms])
  with None [unfolded rules.scan_None] show ?thesis by simp
next
  case (Some b)
  obtain s k r where b: "b = (s, k, r)" by (cases b)
  from rules.scan_Some [OF Some [unfolded b]] obtain i where
    i: "rule_pairs (sn_rules snap) ! i = (k, r)"
      "first_best (\<lambda>i. rule_score E p d e (rule_pairs (sn_rules snap) ! i)) (length (rule_pairs (sn_rules snap))) i s"
    by blast
  then have "i < length (sn_rules snap)" by (simp add: first_best_def rule_pairs_def)
  with i have "r = sr_row (sn_rules snap ! i)" by (simp add: rule_pairs_def)
  with i Some b best_explicit_scan [OF assms, of p d e] show ?thesis
    by (auto simp: rule_pairs_def)
qed

theorem explicit_rule_most_specific_witness:
  "case snapshot_load sample_env sample_db of
      Inl err \<Rightarrow> False
    | Inr snap \<Rightarrow>
       (case best_explicit_rule_match snap (win ''c:|a|b'') None None of
          None \<Rightarrow> \<forall>kr\<in>set (rule_pairs (sn_rules snap)). rule_score sample_env (win ''c:|a|b'') None None kr = None
        | Some row \<Rightarrow> \<exists>i s. first_best (\<lambda>i. rule_score sample_env (win ''c:|a|b'') None None (rule_pairs (sn_rules snap) ! i))
              (length (sn_rules snap)) i s \<and> row = sr_row (sn_rules snap ! i))"
proof -
  have "\<exists>snap. snapshot_load sample_env sample_db = Inr snap"
    by (simp add: sample_env_def snapshot_load_def read_txn_def split: prod.splits)
  then obtain snap where "snapshot_load sample_env sample_db = Inr snap" by blast
  with explicit_rule_most_specific [OF this, of "win ''c:|a|b''" None None] show ?thesis by simp
qed

end
