(* ===== verification/PolicyDb.thy ===== *)
theory PolicyDb
  imports RuleIndex
begin

text \<open>
  The database operations of \<^verbatim>\<open>db/mod.rs\<close> and the operation relay \<^verbatim>\<open>db/ops.rs\<close>: one definition per
  function, each a transaction over the tables of \<open>Store\<close>. An operation returns the result and the new
  database; every error leaves the database as it was.
\<close>

section \<open>Modes, identifiers, configuration\<close>

definition mode_to_string :: "rule_mode \<Rightarrow> string" where
  "mode_to_string m =
     (case m of RM_Passthrough \<Rightarrow> ''passthrough'' | RM_Deny \<Rightarrow> ''deny'' | RM_Cow \<Rightarrow> ''cow'' | RM_Redirect \<Rightarrow> ''redirect'')"

definition parse_mode :: "string \<Rightarrow> rule_mode \<Rightarrow> rule_mode" where
  "parse_mode s dflt =
     (if s = ''passthrough'' \<or> s = ''allow'' then RM_Passthrough
      else if s = ''deny'' then RM_Deny
      else if s = ''cow'' then RM_Cow
      else if s = ''redirect'' then RM_Redirect
      else dflt)"

definition hex_digit :: "nat \<Rightarrow> char" where
  "hex_digit n = (if n < 10 then char_of (48 + n) else char_of (87 + n))"

text \<open>\<^verbatim>\<open>{:08x}\<close>\<close>

definition hex8 :: "nat \<Rightarrow> string" where
  "hex8 n = map (\<lambda>i. hex_digit (n div 16 ^ i mod 16)) [7, 6, 5, 4, 3, 2, 1, 0]"

definition generate_id :: "('t, 'e) env_scheme \<Rightarrow> string \<Rightarrow> string list \<Rightarrow> string" where
  "generate_id E kind args =
     (let hash = xxh3 E (concat (map (\<lambda>p. p @ [CHR 0x00]) (sort args)))
      in kind @ ''-'' @ hex8 (unat (hash AND 0xFFFFFFFF)))"

record rule_entry =
  re_prefix :: string
  re_read :: "string option"
  re_write :: "string option"
  re_when :: "when_filter option"

record mock_entry =
  me_path :: string
  content_inline :: "string option"

record config =
  cfg_default_read :: string
  cfg_default_write :: string
  cfg_rules :: "rule_entry list"
  cfg_mocks :: "mock_entry list"
  cfg_mock_dirs :: "string list"
  cfg_network :: "string option"

definition is_ws :: "char \<Rightarrow> bool" where
  "is_ws c \<longleftrightarrow> c \<in> {CHR '' '', CHR 0x09, CHR 0x0A, CHR 0x0B, CHR 0x0C, CHR 0x0D}"

text \<open>\<^verbatim>\<open>str::trim\<close> on the ASCII white space.\<close>

definition trim_ws :: "string \<Rightarrow> string" where
  "trim_ws s = trim_end_matches is_ws (trim_start_matches is_ws s)"

definition network_guarded :: "config \<Rightarrow> bool" where
  "network_guarded cfg =
     (case cfg_network cfg of None \<Rightarrow> False | Some v \<Rightarrow> eq_ignore_ascii_case (trim_ws v) ''guarded'')"

section \<open>Filesystem rules, mocks and defaults\<close>

definition fold_when :: "'a platform_scheme \<Rightarrow> when_filter option \<Rightarrow> when_filter option" where
  "fold_when pf w = map_option (\<lambda>f. f\<lparr>when_exe := map_option (ensure_lower pf) (when_exe f)\<rparr>) w"

text \<open>The row as it is stored: prefix and executable folded.\<close>

definition fold_row :: "'a platform_scheme \<Rightarrow> rule_row \<Rightarrow> rule_row" where
  "fold_row pf row = row\<lparr>row_prefix := ensure_lower pf (row_prefix row), row_when := fold_when pf (row_when row)\<rparr>"

abbreviation serialize_error :: policy_error where "serialize_error \<equiv> Ktav ''serialize''"

definition insert_op :: "('t, 'e) env_scheme \<Rightarrow> table_name \<Rightarrow> string \<Rightarrow> string \<Rightarrow> 't database \<Rightarrow> unit \<times> 't database" where
  "insert_op E n k v db = ((), put_table db n (tb_insert E (open_w E db n) k v))"

definition remove_op :: "('t, 'e) env_scheme \<Rightarrow> table_name \<Rightarrow> string \<Rightarrow> 't database \<Rightarrow> bool \<times> 't database" where
  "remove_op E n k db =
     (let (t, old) = tb_remove E (open_w E db n) k in (old \<noteq> None, put_table db n t))"

definition remove_keys_op :: "('t, 'e) env_scheme \<Rightarrow> table_name \<Rightarrow> (string \<times> string \<Rightarrow> bool) \<Rightarrow> 't database \<Rightarrow> bool \<times> 't database" where
  "remove_keys_op E n sel db =
     (let t = open_w E db n; keys = map fst (filter sel (tb_iter E t))
      in (keys \<noteq> [], put_table db n (remove_keys E t keys)))"

definition list_op :: "('t, 'e) env_scheme \<Rightarrow> table_name \<Rightarrow> ((string \<times> string) list \<Rightarrow> 'r) \<Rightarrow> 't database \<Rightarrow> policy_error + 'r" where
  "list_op E n f db =
     read_txn E (\<lambda>db. case open_r db n of Inl e \<Rightarrow> Inl e | Inr t \<Rightarrow> Inr (f (tb_iter E t))) db"

definition unit_bool :: "(policy_error + bool) \<times> 'd \<Rightarrow> (policy_error + unit) \<times> 'd" where
  "unit_bool r = (map_sum id (\<lambda>_. ()) (fst r), snd r)"

definition has_row_id :: "('t, 'e) env_scheme \<Rightarrow> string \<Rightarrow> string \<times> string \<Rightarrow> bool" where
  "has_row_id E rid kv = (case rule_decode E (snd kv) of None \<Rightarrow> False | Some r \<Rightarrow> row_id r = rid)"

definition rule_upsert :: "('t, 'e) env_scheme \<Rightarrow> rule_row \<Rightarrow> 't database \<Rightarrow> (policy_error + unit) \<times> 't database" where
  "rule_upsert E row db =
     (let stored = fold_row E row in
      case rule_encode E stored of
        None \<Rightarrow> (Inl serialize_error, db)
      | Some enc \<Rightarrow> write_txn E (insert_op E RULES (row_prefix stored) enc) db)"

definition rule_remove_by_id :: "('t, 'e) env_scheme \<Rightarrow> string \<Rightarrow> 't database \<Rightarrow> (policy_error + bool) \<times> 't database" where
  "rule_remove_by_id E rid db =
     write_txn E (remove_keys_op E RULES (\<lambda>kv. fst kv \<noteq> [] \<and> has_row_id E rid kv)) db"

definition rule_remove_by_prefix :: "('t, 'e) env_scheme \<Rightarrow> string \<Rightarrow> 't database \<Rightarrow> (policy_error + bool) \<times> 't database" where
  "rule_remove_by_prefix E p db = write_txn E (remove_op E RULES (ensure_lower E p)) db"

definition rule_list :: "('t, 'e) env_scheme \<Rightarrow> 't database \<Rightarrow> policy_error + rule_row list" where
  "rule_list E db = list_op E RULES (\<lambda>kvs. map snd (decoded_rules E kvs)) db"

definition rule_clear :: "('t, 'e) env_scheme \<Rightarrow> 't database \<Rightarrow> (policy_error + unit) \<times> 't database" where
  "rule_clear E db = unit_bool (write_txn E (remove_keys_op E RULES (\<lambda>kv. fst kv \<noteq> [])) db)"

definition mock_upsert :: "('t, 'e) env_scheme \<Rightarrow> string \<Rightarrow> string \<Rightarrow> string \<Rightarrow> 't database \<Rightarrow> (policy_error + unit) \<times> 't database" where
  "mock_upsert E rid path payload db = write_txn E (insert_op E MOCKS (ensure_lower E path) payload) db"

definition mock_remove_by_id :: "('t, 'e) env_scheme \<Rightarrow> string \<Rightarrow> 't database \<Rightarrow> (policy_error + bool) \<times> 't database" where
  "mock_remove_by_id E rid db = (Inr False, db)"

definition mock_remove_by_path :: "('t, 'e) env_scheme \<Rightarrow> string \<Rightarrow> 't database \<Rightarrow> (policy_error + bool) \<times> 't database" where
  "mock_remove_by_path E path db = write_txn E (remove_op E MOCKS (ensure_lower E path)) db"

definition mock_list :: "('t, 'e) env_scheme \<Rightarrow> 't database \<Rightarrow> policy_error + (string \<times> string) list" where
  "mock_list E db = list_op E MOCKS (\<lambda>kvs. kvs) db"

definition mockdir_upsert :: "('t, 'e) env_scheme \<Rightarrow> string \<Rightarrow> 't database \<Rightarrow> (policy_error + unit) \<times> 't database" where
  "mockdir_upsert E p db = write_txn E (insert_op E MOCK_DIRS (ensure_lower E p) []) db"

definition mockdir_remove_by_prefix :: "('t, 'e) env_scheme \<Rightarrow> string \<Rightarrow> 't database \<Rightarrow> (policy_error + bool) \<times> 't database" where
  "mockdir_remove_by_prefix E p db = write_txn E (remove_op E MOCK_DIRS (ensure_lower E p)) db"

definition mockdir_list :: "('t, 'e) env_scheme \<Rightarrow> 't database \<Rightarrow> policy_error + string list" where
  "mockdir_list E db = list_op E MOCK_DIRS (map fst) db"

text \<open>The default row is the one stored under the empty key; without it reads pass and writes are isolated.\<close>

definition row_defaults :: "rule_row option \<Rightarrow> defaults_row" where
  "row_defaults r =
     (case r of
        Some row \<Rightarrow> \<lparr>def_read = mode_read row, def_write = mode_write row\<rparr>
      | None \<Rightarrow> \<lparr>def_read = RM_Passthrough, def_write = RM_Cow\<rparr>)"

definition defaults_get :: "('t, 'e) env_scheme \<Rightarrow> 't database \<Rightarrow> policy_error + defaults_row" where
  "defaults_get E db =
     read_txn E (\<lambda>db. case open_r db RULES of
        Inl e \<Rightarrow> Inl e
      | Inr t \<Rightarrow> Inr (row_defaults (Option.bind (tb_get E t []) (rule_decode E)))) db"

definition default_row :: "rule_mode \<Rightarrow> rule_mode \<Rightarrow> rule_row" where
  "default_row rd wr = \<lparr>row_id = [], row_prefix = [], mode_read = rd, mode_write = wr, row_when = None\<rparr>"

definition defaults_set ::
    "('t, 'e) env_scheme \<Rightarrow> rule_mode option \<Rightarrow> rule_mode option \<Rightarrow> 't database \<Rightarrow> (policy_error + unit) \<times> 't database" where
  "defaults_set E rd wr db =
     (case defaults_get E db of
        Inl e \<Rightarrow> (Inl e, db)
      | Inr current \<Rightarrow>
          (case rule_encode E (default_row (unwrap_or rd (def_read current)) (unwrap_or wr (def_write current))) of
             None \<Rightarrow> (Inl serialize_error, db)
           | Some enc \<Rightarrow> write_txn E (insert_op E RULES [] enc) db))"

section \<open>apply_config\<close>

text \<open>A write transaction whose body may fail: an early return drops the transaction.\<close>

definition write_try ::
    "('t, 'e) env_scheme \<Rightarrow> ('t database \<Rightarrow> policy_error + 't database) \<Rightarrow> 't database \<Rightarrow> (policy_error + unit) \<times> 't database" where
  "write_try E f db =
     (case write_fault E of
        Some e \<Rightarrow> (Inl e, db)
      | None \<Rightarrow> (case f db of Inl e \<Rightarrow> (Inl e, db) | Inr db' \<Rightarrow> (Inr (), db')))"

definition entry_row :: "('t, 'e) env_scheme \<Rightarrow> rule_mode \<Rightarrow> rule_mode \<Rightarrow> rule_entry \<Rightarrow> rule_row" where
  "entry_row E default_read default_write rule =
     (let prefix_lower = ensure_lower E (re_prefix rule)
      in \<lparr>row_id = generate_id E ''rule'' [prefix_lower], row_prefix = prefix_lower,
          mode_read = parse_mode (unwrap_or (re_read rule) ''passthrough'') default_read,
          mode_write = parse_mode (unwrap_or (re_write rule) ''cow'') default_write,
          row_when = fold_when E (re_when rule)\<rparr>)"

fun insert_rows :: "('t, 'e) env_scheme \<Rightarrow> rule_row list \<Rightarrow> 't \<Rightarrow> policy_error + 't" where
  "insert_rows E [] t = Inr t"
| "insert_rows E (row # rows) t =
     (case rule_encode E row of
        None \<Rightarrow> Inl serialize_error
      | Some enc \<Rightarrow> insert_rows E rows (tb_insert E t (row_prefix row) enc))"

definition wipe :: "('t, 'e) env_scheme \<Rightarrow> 't database \<Rightarrow> table_name \<Rightarrow> 't" where
  "wipe E db n = (let t = open_w E db n in remove_keys E t (map fst (tb_iter E t)))"

definition apply_config_body :: "('t, 'e) env_scheme \<Rightarrow> config \<Rightarrow> 't database \<Rightarrow> policy_error + 't database" where
  "apply_config_body E cfg db =
     (let default_read = parse_mode (cfg_default_read cfg) RM_Passthrough;
          default_write = parse_mode (cfg_default_write cfg) RM_Cow
      in case insert_rows E (default_row default_read default_write # map (entry_row E default_read default_write) (cfg_rules cfg))
               (wipe E db RULES) of
           Inl e \<Rightarrow> Inl e
         | Inr rules \<Rightarrow>
             (let mocks = foldl (\<lambda>t m. tb_insert E t (ensure_lower E (me_path m)) (unwrap_or (content_inline m) []))
                    (wipe E db MOCKS) (cfg_mocks cfg);
                  dirs = foldl (\<lambda>t p. tb_insert E t (ensure_lower E p) []) (wipe E db MOCK_DIRS) (cfg_mock_dirs cfg)
              in Inr (put_table (put_table (put_table db RULES rules) MOCKS mocks) MOCK_DIRS dirs)))"

definition apply_config :: "('t, 'e) env_scheme \<Rightarrow> config \<Rightarrow> 't database \<Rightarrow> (policy_error + unit) \<times> 't database" where
  "apply_config E cfg db = write_try E (apply_config_body E cfg) db"

section \<open>Registry and device rules\<close>

definition reg_rule_upsert :: "('t, 'e) env_scheme \<Rightarrow> rule_row \<Rightarrow> 't database \<Rightarrow> (policy_error + unit) \<times> 't database" where
  "reg_rule_upsert E row db =
     (let stored = fold_row E row in
      case rule_encode E stored of
        None \<Rightarrow> (Inl serialize_error, db)
      | Some enc \<Rightarrow> write_txn E (insert_op E REG_RULES (row_prefix stored) enc) db)"

definition reg_rule_remove_by_id :: "('t, 'e) env_scheme \<Rightarrow> string \<Rightarrow> 't database \<Rightarrow> (policy_error + bool) \<times> 't database" where
  "reg_rule_remove_by_id E rid db = write_txn E (remove_keys_op E REG_RULES (has_row_id E rid)) db"

definition reg_rule_remove_by_prefix :: "('t, 'e) env_scheme \<Rightarrow> string \<Rightarrow> 't database \<Rightarrow> (policy_error + bool) \<times> 't database" where
  "reg_rule_remove_by_prefix E p db = write_txn E (remove_op E REG_RULES (ensure_lower E p)) db"

text \<open>All rows that decode, the default row included.\<close>

definition decoded_rows :: "('t, 'e) env_scheme \<Rightarrow> (string \<times> string) list \<Rightarrow> rule_row list" where
  "decoded_rows E kvs = List.map_filter (\<lambda>(k, v). rule_decode E v) kvs"

definition reg_rule_list :: "('t, 'e) env_scheme \<Rightarrow> 't database \<Rightarrow> policy_error + rule_row list" where
  "reg_rule_list E db = list_op E REG_RULES (decoded_rows E) db"

definition reg_rule_clear :: "('t, 'e) env_scheme \<Rightarrow> 't database \<Rightarrow> (policy_error + unit) \<times> 't database" where
  "reg_rule_clear E db = unit_bool (write_txn E (remove_keys_op E REG_RULES (\<lambda>_. True)) db)"

definition reg_defaults_get :: "('t, 'e) env_scheme \<Rightarrow> 't database \<Rightarrow> policy_error + defaults_row" where
  "reg_defaults_get E db =
     read_txn E (\<lambda>db. case open_r db REG_RULES of
        Inl e \<Rightarrow> Inl e
      | Inr t \<Rightarrow> Inr (row_defaults (Option.bind (tb_get E t []) (rule_decode E)))) db"

definition reg_mock_upsert :: "('t, 'e) env_scheme \<Rightarrow> string \<Rightarrow> string \<Rightarrow> 't database \<Rightarrow> (policy_error + unit) \<times> 't database" where
  "reg_mock_upsert E path payload db = write_txn E (insert_op E REG_MOCKS (ensure_lower E path) payload) db"

definition reg_mock_remove :: "('t, 'e) env_scheme \<Rightarrow> string \<Rightarrow> 't database \<Rightarrow> (policy_error + bool) \<times> 't database" where
  "reg_mock_remove E path db = write_txn E (remove_op E REG_MOCKS (ensure_lower E path)) db"

definition reg_mock_list :: "('t, 'e) env_scheme \<Rightarrow> 't database \<Rightarrow> policy_error + (string \<times> string) list" where
  "reg_mock_list E db = list_op E REG_MOCKS (\<lambda>kvs. kvs) db"

text \<open>Device rules are stored under the prefix as given, without folding.\<close>

definition dev_rule_upsert :: "('t, 'e) env_scheme \<Rightarrow> rule_row \<Rightarrow> 't database \<Rightarrow> (policy_error + unit) \<times> 't database" where
  "dev_rule_upsert E row db =
     (case rule_encode E row of
        None \<Rightarrow> (Inl serialize_error, db)
      | Some enc \<Rightarrow> write_txn E (insert_op E DEV_RULES (row_prefix row) enc) db)"

definition dev_rule_remove_by_id :: "('t, 'e) env_scheme \<Rightarrow> string \<Rightarrow> 't database \<Rightarrow> (policy_error + bool) \<times> 't database" where
  "dev_rule_remove_by_id E rid db = write_txn E (remove_keys_op E DEV_RULES (has_row_id E rid)) db"

definition dev_rule_remove_by_prefix :: "('t, 'e) env_scheme \<Rightarrow> string \<Rightarrow> 't database \<Rightarrow> (policy_error + bool) \<times> 't database" where
  "dev_rule_remove_by_prefix E p db = write_txn E (remove_op E DEV_RULES (ensure_lower E p)) db"

definition dev_rule_list :: "('t, 'e) env_scheme \<Rightarrow> 't database \<Rightarrow> policy_error + rule_row list" where
  "dev_rule_list E db = list_op E DEV_RULES (decoded_rows E) db"

definition dev_rule_clear :: "('t, 'e) env_scheme \<Rightarrow> 't database \<Rightarrow> (policy_error + unit) \<times> 't database" where
  "dev_rule_clear E db = unit_bool (write_txn E (remove_keys_op E DEV_RULES (\<lambda>_. True)) db)"

section \<open>Network rules\<close>

text \<open>Every write of the network rules bumps the generation in the same transaction.\<close>

definition bump_net_rules_gen :: "'t database \<Rightarrow> 't database" where
  "bump_net_rules_gen db = db\<lparr>net_rules_gen := Some (unwrap_or (net_rules_gen db) 0 + 1)\<rparr>"

definition net_rule_upsert :: "('t, 'e) env_scheme \<Rightarrow> net_rule \<Rightarrow> 't database \<Rightarrow> (policy_error + unit) \<times> 't database" where
  "net_rule_upsert E rule db =
     (case net_encode E rule of
        None \<Rightarrow> (Inl serialize_error, db)
      | Some enc \<Rightarrow>
          write_txn E (\<lambda>db. ((), bump_net_rules_gen (snd (insert_op E NET_RULES (net_id rule) enc db)))) db)"

definition net_rule_remove :: "('t, 'e) env_scheme \<Rightarrow> string \<Rightarrow> 't database \<Rightarrow> (policy_error + bool) \<times> 't database" where
  "net_rule_remove E rid db =
     write_txn E (\<lambda>db. let (removed, db') = remove_op E NET_RULES rid db in (removed, bump_net_rules_gen db')) db"

definition net_rule_list :: "('t, 'e) env_scheme \<Rightarrow> 't database \<Rightarrow> policy_error + net_rule list" where
  "net_rule_list E db = list_op E NET_RULES (List.map_filter (\<lambda>(k, v). net_decode E v)) db"

definition net_rule_clear :: "('t, 'e) env_scheme \<Rightarrow> 't database \<Rightarrow> (policy_error + unit) \<times> 't database" where
  "net_rule_clear E db =
     write_txn E (\<lambda>db. ((), bump_net_rules_gen (snd (remove_keys_op E NET_RULES (\<lambda>_. True) db)))) db"

definition net_rule_generation :: "('t, 'e) env_scheme \<Rightarrow> 't database \<Rightarrow> policy_error + u64" where
  "net_rule_generation E db = read_txn E (\<lambda>db. Inr (unwrap_or (net_rules_gen db) 0)) db"

section \<open>Memory policy\<close>

definition default_mem_policy :: mem_policy where
  "default_mem_policy = \<lparr>cross_process = MemDeny, allow_child_pids = True\<rparr>"

definition mem_policy_get :: "('t, 'e) env_scheme \<Rightarrow> 't database \<Rightarrow> policy_error + mem_policy" where
  "mem_policy_get E db =
     read_txn E (\<lambda>db. Inr (unwrap_or
       (case open_r db DEFAULTS of
          Inl e \<Rightarrow> None
        | Inr t \<Rightarrow> Option.bind (tb_get E t ''mem_policy'') (mem_decode E)) default_mem_policy)) db"

definition mem_policy_set :: "('t, 'e) env_scheme \<Rightarrow> mem_policy \<Rightarrow> 't database \<Rightarrow> (policy_error + unit) \<times> 't database" where
  "mem_policy_set E pol db =
     (case mem_encode E pol of
        None \<Rightarrow> (Inl (Ktav ''serialize mem_policy''), db)
      | Some json \<Rightarrow> write_txn E (insert_op E DEFAULTS ''mem_policy'' json) db)"

section \<open>PolicyOp and exec\<close>

datatype policy_op =
  RuleUpsert rule_row | RuleRemoveById string | RuleRemoveByPrefix string | RuleList | RuleClear
| MockUpsert string string | MockRemoveByPath string | MockList
| MockDirUpsert string | MockDirRemoveByPrefix string | MockDirList
| DefaultsGet | DefaultsSet "rule_mode option" "rule_mode option"
| RegRuleUpsert rule_row | RegRuleRemoveById string | RegRuleRemoveByPrefix string | RegRuleList | RegRuleClear
| RegDefaultsGet | RegMockUpsert string string | RegMockRemove string | RegMockList
| DevRuleUpsert rule_row | DevRuleRemoveById string | DevRuleRemoveByPrefix string | DevRuleList | DevRuleClear
| NetRuleUpsert net_rule | NetRuleRemove string | NetRuleList | NetRuleClear
| MemPolicyGet | MemPolicySet mem_policy

fun touches_fs_snapshot :: "policy_op \<Rightarrow> bool" where
  "touches_fs_snapshot (RuleUpsert _) = True"
| "touches_fs_snapshot (RuleRemoveById _) = True"
| "touches_fs_snapshot (RuleRemoveByPrefix _) = True"
| "touches_fs_snapshot RuleClear = True"
| "touches_fs_snapshot (MockUpsert _ _) = True"
| "touches_fs_snapshot (MockRemoveByPath _) = True"
| "touches_fs_snapshot (MockDirUpsert _) = True"
| "touches_fs_snapshot (MockDirRemoveByPrefix _) = True"
| "touches_fs_snapshot (DefaultsSet _ _) = True"
| "touches_fs_snapshot _ = False"

fun touches_reg_snapshot :: "policy_op \<Rightarrow> bool" where
  "touches_reg_snapshot (RegRuleUpsert _) = True"
| "touches_reg_snapshot (RegRuleRemoveById _) = True"
| "touches_reg_snapshot (RegRuleRemoveByPrefix _) = True"
| "touches_reg_snapshot RegRuleClear = True"
| "touches_reg_snapshot (RegMockUpsert _ _) = True"
| "touches_reg_snapshot (RegMockRemove _) = True"
| "touches_reg_snapshot _ = False"

datatype policy_op_result =
  ResUnit | ResBool bool | ResRules "rule_row list" | ResMocks "(string \<times> string) list" | ResStrings "string list"
| ResDefaults defaults_row | ResNetRules "net_rule list" | ResMemPolicy mem_policy

definition run_write :: "('r \<Rightarrow> policy_op_result) \<Rightarrow> (policy_error + 'r) \<times> 'd \<Rightarrow> (policy_error + policy_op_result) \<times> 'd" where
  "run_write f r = (map_sum id f (fst r), snd r)"

definition run_read :: "('r \<Rightarrow> policy_op_result) \<Rightarrow> policy_error + 'r \<Rightarrow> 'd \<Rightarrow> (policy_error + policy_op_result) \<times> 'd" where
  "run_read f r db = (map_sum id f r, db)"

fun exec :: "('t, 'e) env_scheme \<Rightarrow> policy_op \<Rightarrow> 't database \<Rightarrow> (policy_error + policy_op_result) \<times> 't database" where
  "exec E (RuleUpsert row) db = run_write (\<lambda>_. ResUnit) (rule_upsert E row db)"
| "exec E (RuleRemoveById rid) db = run_write ResBool (rule_remove_by_id E rid db)"
| "exec E (RuleRemoveByPrefix p) db = run_write ResBool (rule_remove_by_prefix E p db)"
| "exec E RuleList db = run_read ResRules (rule_list E db) db"
| "exec E RuleClear db = run_write (\<lambda>_. ResUnit) (rule_clear E db)"
| "exec E (MockUpsert path payload) db = run_write (\<lambda>_. ResUnit) (mock_upsert E [] path payload db)"
| "exec E (MockRemoveByPath p) db = run_write ResBool (mock_remove_by_path E p db)"
| "exec E MockList db = run_read ResMocks (mock_list E db) db"
| "exec E (MockDirUpsert p) db = run_write (\<lambda>_. ResUnit) (mockdir_upsert E p db)"
| "exec E (MockDirRemoveByPrefix p) db = run_write ResBool (mockdir_remove_by_prefix E p db)"
| "exec E MockDirList db = run_read ResStrings (mockdir_list E db) db"
| "exec E DefaultsGet db = run_read ResDefaults (defaults_get E db) db"
| "exec E (DefaultsSet rd wr) db = run_write (\<lambda>_. ResUnit) (defaults_set E rd wr db)"
| "exec E (RegRuleUpsert row) db = run_write (\<lambda>_. ResUnit) (reg_rule_upsert E row db)"
| "exec E (RegRuleRemoveById rid) db = run_write ResBool (reg_rule_remove_by_id E rid db)"
| "exec E (RegRuleRemoveByPrefix p) db = run_write ResBool (reg_rule_remove_by_prefix E p db)"
| "exec E RegRuleList db = run_read ResRules (reg_rule_list E db) db"
| "exec E RegRuleClear db = run_write (\<lambda>_. ResUnit) (reg_rule_clear E db)"
| "exec E RegDefaultsGet db = run_read ResDefaults (reg_defaults_get E db) db"
| "exec E (RegMockUpsert path payload) db = run_write (\<lambda>_. ResUnit) (reg_mock_upsert E path payload db)"
| "exec E (RegMockRemove p) db = run_write ResBool (reg_mock_remove E p db)"
| "exec E RegMockList db = run_read ResMocks (reg_mock_list E db) db"
| "exec E (DevRuleUpsert row) db = run_write (\<lambda>_. ResUnit) (dev_rule_upsert E row db)"
| "exec E (DevRuleRemoveById rid) db = run_write ResBool (dev_rule_remove_by_id E rid db)"
| "exec E (DevRuleRemoveByPrefix p) db = run_write ResBool (dev_rule_remove_by_prefix E p db)"
| "exec E DevRuleList db = run_read ResRules (dev_rule_list E db) db"
| "exec E DevRuleClear db = run_write (\<lambda>_. ResUnit) (dev_rule_clear E db)"
| "exec E (NetRuleUpsert rule) db = run_write (\<lambda>_. ResUnit) (net_rule_upsert E rule db)"
| "exec E (NetRuleRemove rid) db = run_write ResBool (net_rule_remove E rid db)"
| "exec E NetRuleList db = run_read ResNetRules (net_rule_list E db) db"
| "exec E NetRuleClear db = run_write (\<lambda>_. ResUnit) (net_rule_clear E db)"
| "exec E MemPolicyGet db = run_read ResMemPolicy (mem_policy_get E db) db"
| "exec E (MemPolicySet pol) db = run_write (\<lambda>_. ResUnit) (mem_policy_set E pol db)"

section \<open>The abstract database\<close>

text \<open>
  The contract of the operations, over one partial map per table. \<open>drop_where\<close> removes the entries a
  predicate selects.
\<close>

type_synonym abs_db = "table_name \<Rightarrow> string \<Rightarrow> string option"

definition drop_where :: "(string \<times> string \<Rightarrow> bool) \<Rightarrow> (string \<Rightarrow> string option) \<Rightarrow> string \<Rightarrow> string option" where
  "drop_where sel m k = (case m k of Some v \<Rightarrow> if sel (k, v) then None else Some v | None \<Rightarrow> None)"

definition abs_put :: "abs_db \<Rightarrow> table_name \<Rightarrow> string \<Rightarrow> string option \<Rightarrow> abs_db" where
  "abs_put a n k v = a(n := (a n)(k := v))"

fun abs_exec :: "('t, 'e) env_scheme \<Rightarrow> policy_op \<Rightarrow> abs_db \<Rightarrow> abs_db" where
  "abs_exec E (RuleUpsert row) a = abs_put a RULES (ensure_lower E (row_prefix row)) (rule_encode E (fold_row E row))"
| "abs_exec E (RuleRemoveById rid) a = a(RULES := drop_where (\<lambda>kv. fst kv \<noteq> [] \<and> has_row_id E rid kv) (a RULES))"
| "abs_exec E (RuleRemoveByPrefix p) a = abs_put a RULES (ensure_lower E p) None"
| "abs_exec E RuleClear a = a(RULES := drop_where (\<lambda>kv. fst kv \<noteq> []) (a RULES))"
| "abs_exec E (MockUpsert path payload) a = abs_put a MOCKS (ensure_lower E path) (Some payload)"
| "abs_exec E (MockRemoveByPath p) a = abs_put a MOCKS (ensure_lower E p) None"
| "abs_exec E (MockDirUpsert p) a = abs_put a MOCK_DIRS (ensure_lower E p) (Some [])"
| "abs_exec E (MockDirRemoveByPrefix p) a = abs_put a MOCK_DIRS (ensure_lower E p) None"
| "abs_exec E (DefaultsSet rd wr) a =
     (let cur = row_defaults (Option.bind (a RULES []) (rule_decode E))
      in abs_put a RULES [] (rule_encode E (default_row (unwrap_or rd (def_read cur)) (unwrap_or wr (def_write cur)))))"
| "abs_exec E (RegRuleUpsert row) a = abs_put a REG_RULES (ensure_lower E (row_prefix row)) (rule_encode E (fold_row E row))"
| "abs_exec E (RegRuleRemoveById rid) a = a(REG_RULES := drop_where (has_row_id E rid) (a REG_RULES))"
| "abs_exec E (RegRuleRemoveByPrefix p) a = abs_put a REG_RULES (ensure_lower E p) None"
| "abs_exec E RegRuleClear a = a(REG_RULES := Map.empty)"
| "abs_exec E (RegMockUpsert path payload) a = abs_put a REG_MOCKS (ensure_lower E path) (Some payload)"
| "abs_exec E (RegMockRemove p) a = abs_put a REG_MOCKS (ensure_lower E p) None"
| "abs_exec E (DevRuleUpsert row) a = abs_put a DEV_RULES (row_prefix row) (rule_encode E row)"
| "abs_exec E (DevRuleRemoveById rid) a = a(DEV_RULES := drop_where (has_row_id E rid) (a DEV_RULES))"
| "abs_exec E (DevRuleRemoveByPrefix p) a = abs_put a DEV_RULES (ensure_lower E p) None"
| "abs_exec E DevRuleClear a = a(DEV_RULES := Map.empty)"
| "abs_exec E (NetRuleUpsert rule) a = abs_put a NET_RULES (net_id rule) (net_encode E rule)"
| "abs_exec E (NetRuleRemove rid) a = abs_put a NET_RULES rid None"
| "abs_exec E NetRuleClear a = a(NET_RULES := Map.empty)"
| "abs_exec E (MemPolicySet pol) a = abs_put a DEFAULTS ''mem_policy'' (mem_encode E pol)"
| "abs_exec E _ a = a"

text \<open>Which operations report whether they removed something, and what.\<close>

fun abs_removed :: "('t, 'e) env_scheme \<Rightarrow> policy_op \<Rightarrow> abs_db \<Rightarrow> bool option" where
  "abs_removed E (RuleRemoveById rid) a = Some (\<exists>k v. a RULES k = Some v \<and> k \<noteq> [] \<and> has_row_id E rid (k, v))"
| "abs_removed E (RuleRemoveByPrefix p) a = Some (a RULES (ensure_lower E p) \<noteq> None)"
| "abs_removed E (MockRemoveByPath p) a = Some (a MOCKS (ensure_lower E p) \<noteq> None)"
| "abs_removed E (MockDirRemoveByPrefix p) a = Some (a MOCK_DIRS (ensure_lower E p) \<noteq> None)"
| "abs_removed E (RegRuleRemoveById rid) a = Some (\<exists>k v. a REG_RULES k = Some v \<and> has_row_id E rid (k, v))"
| "abs_removed E (RegRuleRemoveByPrefix p) a = Some (a REG_RULES (ensure_lower E p) \<noteq> None)"
| "abs_removed E (RegMockRemove p) a = Some (a REG_MOCKS (ensure_lower E p) \<noteq> None)"
| "abs_removed E (DevRuleRemoveById rid) a = Some (\<exists>k v. a DEV_RULES k = Some v \<and> has_row_id E rid (k, v))"
| "abs_removed E (DevRuleRemoveByPrefix p) a = Some (a DEV_RULES (ensure_lower E p) \<noteq> None)"
| "abs_removed E (NetRuleRemove rid) a = Some (a NET_RULES rid \<noteq> None)"
| "abs_removed E _ a = None"

lemma insert_op_view:
  "redb_lawful E \<Longrightarrow> tview E (snd (insert_op E n k v db)) = abs_put (tview E db) n k (Some v)"
  by (simp add: insert_op_def redb abs_put_def fun_upd_def)

lemma remove_op_view:
  "redb_lawful E \<Longrightarrow> tview E (snd (remove_op E n k db)) = abs_put (tview E db) n k None"
  "redb_lawful E \<Longrightarrow> fst (remove_op E n k db) \<longleftrightarrow> tview E db n k \<noteq> None"
proof -
  assume law: "redb_lawful E"
  obtain t old where r: "tb_remove E (open_w E db n) k = (t, old)" by (metis surj_pair)
  with redb_laws(3,4) [OF law, of "open_w E db n" k] law
  have "tb_get E t = (tview E db n)(k := None)" "old = tview E db n k" by (simp_all add: redb)
  with r show "tview E (snd (remove_op E n k db)) = abs_put (tview E db) n k None"
    "fst (remove_op E n k db) \<longleftrightarrow> tview E db n k \<noteq> None"
    by (simp_all add: remove_op_def redb abs_put_def)
qed

lemma remove_keys_op_view:
  "redb_lawful E \<Longrightarrow> tview E (snd (remove_keys_op E n sel db)) = (tview E db)(n := drop_where sel (tview E db n))"
  "redb_lawful E \<Longrightarrow> fst (remove_keys_op E n sel db) \<longleftrightarrow> (\<exists>k v. tview E db n k = Some v \<and> sel (k, v))"
proof -
  assume law: "redb_lawful E"
  let ?t = "open_w E db n" and ?m = "tview E db n"
  have mem: "(k, v) \<in> set (tb_iter E ?t) \<longleftrightarrow> ?m k = Some v" for k v
    using law by (simp add: iter_mem redb)
  have keys: "k \<in> set (map fst (filter sel (tb_iter E ?t))) \<longleftrightarrow> (\<exists>v. ?m k = Some v \<and> sel (k, v))" for k
    using mem by force
  have "tb_get E (remove_keys E ?t (map fst (filter sel (tb_iter E ?t)))) = drop_where sel ?m"
    using law by (auto simp: fun_eq_iff drop_where_def redb keys split: option.splits simp del: set_map)
  then show "tview E (snd (remove_keys_op E n sel db)) = (tview E db)(n := drop_where sel ?m)"
    by (simp add: remove_keys_op_def redb Let_def)
  show "fst (remove_keys_op E n sel db) \<longleftrightarrow> (\<exists>k v. ?m k = Some v \<and> sel (k, v))"
    using mem by (auto simp: remove_keys_op_def Let_def filter_empty_conv)
qed

lemma drop_where_simps [simp]:
  "drop_where (\<lambda>_. True) m = Map.empty" "drop_where (\<lambda>_. False) m = m"
  by (auto simp: drop_where_def fun_eq_iff split: option.splits)

lemma tview_bump [simp]: "tview E (bump_net_rules_gen db) = tview E db"
  by (simp add: bump_net_rules_gen_def tview_def fun_eq_iff)

lemma run_write_cases:
  "run_write f r = (Inr x, db') \<longleftrightarrow> (\<exists>y. r = (Inr y, db') \<and> x = f y)"
  "run_write f r = (Inl e, db') \<longleftrightarrow> r = (Inl e, db')"
  by (cases r; cases "fst r"; auto simp: run_write_def)+

lemma run_read_cases: "run_read f r db = (x, db') \<longleftrightarrow> db' = db \<and> x = map_sum id f r"
  by (auto simp: run_read_def)

lemma unit_bool_cases:
  "unit_bool r = (Inr u, db') \<longleftrightarrow> (\<exists>b. r = (Inr b, db'))"
  "unit_bool r = (Inl e, db') \<longleftrightarrow> r = (Inl e, db')"
  by (cases r; cases "fst r"; auto simp: unit_bool_def)+

lemmas exec_defs = rule_upsert_def rule_remove_by_id_def rule_remove_by_prefix_def rule_clear_def mock_upsert_def
  mock_remove_by_path_def mockdir_upsert_def mockdir_remove_by_prefix_def defaults_set_def
  reg_rule_upsert_def reg_rule_remove_by_id_def reg_rule_remove_by_prefix_def reg_rule_clear_def
  reg_mock_upsert_def reg_mock_remove_def dev_rule_upsert_def dev_rule_remove_by_id_def
  dev_rule_remove_by_prefix_def dev_rule_clear_def net_rule_upsert_def net_rule_remove_def
  net_rule_clear_def mem_policy_set_def

lemmas exec_cases = run_write_cases run_read_cases unit_bool_cases write_txn_cases

lemma exec_error: "exec E op db = (Inl e, db') \<Longrightarrow> db' = db"
  by (cases op) (auto simp: exec_defs exec_cases Let_def split: option.splits sum.splits)

lemma defaults_get_view:
  "redb_lawful E \<Longrightarrow> defaults_get E db = Inr d \<Longrightarrow> d = row_defaults (Option.bind (tview E db RULES []) (rule_decode E))"
  by (auto simp: defaults_get_def read_txn_cases open_r_def tview_def split: sum.splits option.splits)

lemma write_txn_view:
  assumes "write_txn E f db = (Inr r, db')"
  shows "db' = snd (f db)" "r = fst (f db)"
  using assms by (simp_all add: write_txn_cases)

lemma insert_opD: "insert_op E n k v db = (r, db') \<Longrightarrow> redb_lawful E \<Longrightarrow> tview E db' = abs_put (tview E db) n k (Some v)"
  by (metis insert_op_view snd_conv)

lemma remove_opD:
  "remove_op E n k db = (r, db') \<Longrightarrow> redb_lawful E \<Longrightarrow>
   tview E db' = abs_put (tview E db) n k None \<and> (r \<longleftrightarrow> tview E db n k \<noteq> None)"
  by (metis fst_conv remove_op_view snd_conv)

lemma remove_keys_opD:
  "remove_keys_op E n sel db = (r, db') \<Longrightarrow> redb_lawful E \<Longrightarrow>
   tview E db' = (tview E db)(n := drop_where sel (tview E db n)) \<and>
   (r \<longleftrightarrow> (\<exists>k v. tview E db n k = Some v \<and> sel (k, v)))"
  by (metis fst_conv remove_keys_op_view snd_conv)

lemma fold_row_prefix [simp]: "row_prefix (fold_row pf row) = ensure_lower pf (row_prefix row)"
  by (simp add: fold_row_def)

lemma exec_abs:
  assumes law: "redb_lawful E" and ex: "exec E op db = (Inr r, db')"
  shows "tview E db' = abs_exec E op (tview E db) \<and>
    (case abs_removed E op (tview E db) of None \<Rightarrow> True | Some b \<Rightarrow> r = ResBool b)"
proof (cases op)
  case (RuleRemoveById rid)
  with ex obtain b where "remove_keys_op E RULES (\<lambda>kv. fst kv \<noteq> [] \<and> has_row_id E rid kv) db = (b, db')" "r = ResBool b"
    by (auto simp: exec_defs exec_cases)
  with remove_keys_opD [OF this(1) law] RuleRemoveById show ?thesis by simp
next
  case (DefaultsSet rd wr)
  with ex law show ?thesis
    by (auto simp: exec_defs exec_cases Let_def split: option.splits sum.splits
        dest!: insert_opD [OF _ law] defaults_get_view [OF law])
next
  case (NetRuleUpsert rule)
  with ex show ?thesis
    by (auto simp: exec_defs exec_cases insert_op_view [OF law] split: option.splits)
next
  case (NetRuleRemove rid)
  with ex show ?thesis
    by (auto simp: exec_defs exec_cases split: prod.splits dest!: remove_opD [OF _ law])
next
  case NetRuleClear
  with ex show ?thesis
    by (auto simp: exec_defs exec_cases remove_keys_op_view [OF law])
qed (use ex in \<open>auto simp: exec_defs exec_cases Let_def split: option.splits
      dest!: insert_opD [OF _ law] remove_opD [OF _ law] remove_keys_opD [OF _ law]\<close>)

section \<open>What the snapshot depends on\<close>

lemma snapshot_load_determined:
  assumes "redb_lawful E" and "\<forall>n\<in>{RULES, MOCKS, MOCK_DIRS}. tview E db n = tview E db' n"
  shows "snapshot_load E db = snapshot_load E db'"
proof -
  have "table_entries E db RULES = table_entries E db' RULES" "table_entries E db MOCKS = table_entries E db' MOCKS"
    "table_entries E db MOCK_DIRS = table_entries E db' MOCK_DIRS"
    unfolding table_entries_tentries using assms by (intro tentries_determined; simp)+
  then show ?thesis by (simp only: snapshot_load_def read_txn_def)
qed

lemma abs_exec_frame:
  "\<not> touches_fs_snapshot op \<Longrightarrow> n \<in> {RULES, MOCKS, MOCK_DIRS} \<Longrightarrow> abs_exec E op a n = a n"
  "\<not> touches_reg_snapshot op \<Longrightarrow> n \<in> {REG_RULES, REG_MOCKS} \<Longrightarrow> abs_exec E op a n = a n"
  "n \<in> {OVERLAY_IDX, OVERLAY_MIGRATIONS, OVERLAY_CASE, WHITEOUTS} \<Longrightarrow> abs_exec E op a n = a n"
  by (cases op; auto simp: abs_put_def Let_def)+

lemma exec_frame:
  assumes "redb_lawful E" and "\<not> touches_fs_snapshot op"
  shows "snapshot_load E (snd (exec E op db)) = snapshot_load E db"
proof (cases "fst (exec E op db)")
  case (Inl e)
  then have "exec E op db = (Inl e, snd (exec E op db))" by (metis prod.collapse)
  from exec_error [OF this] show ?thesis by simp
next
  case (Inr r)
  then have "exec E op db = (Inr r, snd (exec E op db))" by (metis prod.collapse)
  from exec_abs [OF assms(1) this] show ?thesis
    using assms by (intro snapshot_load_determined) (auto simp: abs_exec_frame)
qed

section \<open>apply_config\<close>

lemma wipe_get: "redb_lawful E \<Longrightarrow> tb_get E (wipe E db n) = Map.empty"
proof -
  assume law: "redb_lawful E"
  have "k \<in> set (map fst (tb_iter E t)) \<longleftrightarrow> tb_get E t k \<noteq> None" for t k
    using iter_keys [OF law] by simp
  then show ?thesis using law by (auto simp: wipe_def Let_def redb fun_eq_iff simp del: set_map)
qed

lemma insert_rows_get:
  "redb_lawful E \<Longrightarrow> insert_rows E rows t = Inr t' \<Longrightarrow>
   tb_get E t' = (\<lambda>k. case map_of (rev (map (\<lambda>r. (row_prefix r, r)) rows)) k of
      None \<Rightarrow> tb_get E t k | Some r \<Rightarrow> rule_encode E r)"
proof (induction rows arbitrary: t)
  case (Cons r rows)
  then obtain enc where e: "rule_encode E r = Some enc"
    and t': "insert_rows E rows (tb_insert E t (row_prefix r) enc) = Inr t'"
    by (auto split: option.splits)
  show ?case using Cons.IH [OF Cons.prems(1) t'] Cons.prems(1)
    by (auto simp: fun_eq_iff e redb map_add_def split: option.splits)
qed (auto simp: fun_eq_iff)

lemma insert_all_get:
  "redb_lawful E \<Longrightarrow> tb_get E (foldl (\<lambda>t x. tb_insert E t (f x) (g x)) t xs) =
     (\<lambda>k. case map_of (rev (map (\<lambda>x. (f x, g x)) xs)) k of None \<Rightarrow> tb_get E t k | Some v \<Rightarrow> Some v)"
  by (induction xs arbitrary: t) (auto simp: fun_eq_iff redb map_add_def split: option.splits)

lemma write_try_cases:
  "write_try E f db = (Inr (), db') \<longleftrightarrow> write_fault E = None \<and> f db = Inr db'"
  "write_try E f db = (Inl e, db') \<Longrightarrow> db' = db"
  by (auto simp: write_try_def split: option.splits sum.splits)

text \<open>The rows a configuration stands for: the default row and one per entry; a later entry with the same prefix wins.\<close>

definition config_rows :: "('t, 'e) env_scheme \<Rightarrow> config \<Rightarrow> rule_row list" where
  "config_rows E cfg =
     (let rd = parse_mode (cfg_default_read cfg) RM_Passthrough; wr = parse_mode (cfg_default_write cfg) RM_Cow
      in default_row rd wr # map (entry_row E rd wr) (cfg_rules cfg))"

lemma apply_config_view:
  assumes law: "redb_lawful E" and ok: "apply_config E cfg db = (Inr (), db')"
  shows "tview E db' RULES = (\<lambda>k. Option.bind (map_of (rev (map (\<lambda>r. (row_prefix r, r)) (config_rows E cfg))) k) (rule_encode E))"
    "tview E db' MOCKS = map_of (rev (map (\<lambda>m. (ensure_lower E (me_path m), unwrap_or (content_inline m) [])) (cfg_mocks cfg)))"
    "tview E db' MOCK_DIRS = map_of (rev (map (\<lambda>p. (ensure_lower E p, [])) (cfg_mock_dirs cfg)))"
    "n \<notin> {RULES, MOCKS, MOCK_DIRS} \<Longrightarrow> tview E db' n = tview E db n"
proof -
  from ok obtain rules where r: "insert_rows E (config_rows E cfg) (wipe E db RULES) = Inr rules"
    and db': "db' = put_table (put_table (put_table db RULES rules) MOCKS
        (foldl (\<lambda>t m. tb_insert E t (ensure_lower E (me_path m)) (unwrap_or (content_inline m) [])) (wipe E db MOCKS) (cfg_mocks cfg)))
        MOCK_DIRS (foldl (\<lambda>t p. tb_insert E t (ensure_lower E p) []) (wipe E db MOCK_DIRS) (cfg_mock_dirs cfg))"
    by (auto simp: apply_config_def write_try_cases apply_config_body_def config_rows_def Let_def split: sum.splits)
  have g: "tb_get E rules = (\<lambda>k. Option.bind (map_of (rev (map (\<lambda>r. (row_prefix r, r)) (config_rows E cfg))) k) (rule_encode E))"
    using insert_rows_get [OF law r] law by (auto simp: fun_eq_iff wipe_get split: option.splits)
  show "tview E db' RULES = (\<lambda>k. Option.bind (map_of (rev (map (\<lambda>r. (row_prefix r, r)) (config_rows E cfg))) k) (rule_encode E))"
    by (simp add: db' redb g)
  show "tview E db' MOCKS = map_of (rev (map (\<lambda>m. (ensure_lower E (me_path m), unwrap_or (content_inline m) [])) (cfg_mocks cfg)))"
    using law by (auto simp: db' redb insert_all_get wipe_get fun_eq_iff split: option.splits)
  show "tview E db' MOCK_DIRS = map_of (rev (map (\<lambda>p. (ensure_lower E p, [])) (cfg_mock_dirs cfg)))"
    using law by (auto simp: db' redb insert_all_get wipe_get fun_eq_iff split: option.splits)
  show "n \<notin> {RULES, MOCKS, MOCK_DIRS} \<Longrightarrow> tview E db' n = tview E db n"
    by (simp add: db' redb)
qed

section \<open>Round trips\<close>

lemma list_op_ok:
  "read_fault E = None \<Longrightarrow> tables db n = Some t \<Longrightarrow> list_op E n f db = Inr (f (tb_iter E t))"
  by (simp add: list_op_def read_txn_def open_r_def)

lemma decoded_rules_set:
  "(k, r) \<in> set (decoded_rules E kvs) \<longleftrightarrow> (\<exists>v. (k, v) \<in> set kvs \<and> k \<noteq> [] \<and> rule_decode E v = Some r)"
  by (induction kvs) (auto split: option.splits if_splits)

lemma rule_upsert_ok:
  assumes "redb_lawful E" and "rule_upsert E row db = (Inr (), db')"
  obtains enc where "rule_encode E (fold_row E row) = Some enc" "write_fault E = None"
    "tview E db' = abs_put (tview E db) RULES (ensure_lower E (row_prefix row)) (Some enc)"
    "tables db' RULES \<noteq> None"
proof -
  from assms(2) obtain enc where enc: "rule_encode E (fold_row E row) = Some enc" and w: "write_fault E = None"
    and ins: "insert_op E RULES (ensure_lower E (row_prefix row)) enc db = ((), db')"
    by (auto simp: rule_upsert_def write_txn_cases Let_def split: option.splits)
  then have "tables db' RULES \<noteq> None" by (auto simp: insert_op_def)
  with that enc w insert_opD [OF ins assms(1)] show ?thesis by blast
qed

lemma rule_list_mem:
  assumes "redb_lawful E" and "read_fault E = None" and "tables db RULES \<noteq> None"
    and "tview E db RULES k = Some v" and "k \<noteq> []" and "rule_decode E v = Some r"
  shows "\<exists>rows. rule_list E db = Inr rows \<and> r \<in> set rows"
proof -
  obtain t where t: "tables db RULES = Some t" using assms(3) by blast
  then have "(k, v) \<in> set (tb_iter E t)"
    using assms(1,4) by (simp add: tview_def iter_mem)
  then have "(k, r) \<in> set (decoded_rules E (tb_iter E t))"
    using assms(5,6) by (auto simp: decoded_rules_set)
  then have "r \<in> set (map snd (decoded_rules E (tb_iter E t)))" by force
  with t assms(2) show ?thesis unfolding rule_list_def by (simp add: list_op_ok)
qed

lemma defaults_round:
  assumes "redb_lawful E" "codec_lawful E" "defaults_get E db = Inr d" "defaults_set E rd wr db = (Inr (), db')"
  shows "defaults_get E db' = Inr \<lparr>def_read = unwrap_or rd (def_read d), def_write = unwrap_or wr (def_write d)\<rparr>"
proof -
  let ?row = "default_row (unwrap_or rd (def_read d)) (unwrap_or wr (def_write d))"
  from assms(3,4) obtain enc where enc: "rule_encode E ?row = Some enc"
    and ins: "insert_op E RULES [] enc db = ((), db')"
    by (auto simp: defaults_set_def write_txn_cases split: option.splits)
  from assms(2) enc have "rule_decode E enc = Some ?row" by (simp add: codec_lawful_def)
  moreover from assms(3) have "read_fault E = None" by (auto simp: defaults_get_def read_txn_cases)
  moreover from ins have "db' = put_table db RULES (tb_insert E (open_w E db RULES) [] enc)" by (simp add: insert_op_def)
  ultimately show ?thesis using assms(1)
    by (simp add: defaults_get_def read_txn_def open_r_def redb row_defaults_def default_row_def)
qed

text \<open>Which operations write the network rules.\<close>

fun writes_net :: "policy_op \<Rightarrow> bool" where
  "writes_net (NetRuleUpsert _) = True"
| "writes_net (NetRuleRemove _) = True"
| "writes_net NetRuleClear = True"
| "writes_net _ = False"

lemma op_gen [simp]:
  "net_rules_gen (snd (insert_op E n k v db)) = net_rules_gen db"
  "net_rules_gen (snd (remove_op E n k db)) = net_rules_gen db"
  "net_rules_gen (snd (remove_keys_op E n sel db)) = net_rules_gen db"
  by (auto simp: insert_op_def remove_op_def remove_keys_op_def Let_def split: prod.splits)

lemma op_genD:
  "insert_op E n k v db = (r, db') \<Longrightarrow> net_rules_gen db' = net_rules_gen db"
  "remove_op E n k db = (r', db') \<Longrightarrow> net_rules_gen db' = net_rules_gen db"
  "remove_keys_op E n sel db = (r', db') \<Longrightarrow> net_rules_gen db' = net_rules_gen db"
  using op_gen by (metis snd_conv)+

lemma exec_gen:
  assumes "exec E op db = (Inr r, db')"
  shows "net_rules_gen db' =
    (if writes_net op then Some (unwrap_or (net_rules_gen db) 0 + 1) else net_rules_gen db)"
  using assms
  by (cases op) (auto simp: exec_defs exec_cases Let_def bump_net_rules_gen_def split: option.splits sum.splits prod.splits
      dest!: op_genD)

section \<open>Properties\<close>

text \<open>
  C10: the operation relay implements the abstract database. Every \<open>PolicyOp\<close> either fails and leaves the
  database exactly as it was, or has the effect \<open>abs_exec\<close> gives on the tables (keys and executables folded,
  the default row kept by clear and remove-by-id), and the removing operations report whether there was
  something to remove.
\<close>

theorem exec_refines_abstract:
  assumes "redb_lawful E"
  shows "case exec E op db of
      (Inl e, db') \<Rightarrow> db' = db
    | (Inr r, db') \<Rightarrow> tview E db' = abs_exec E op (tview E db) \<and>
        (case abs_removed E op (tview E db) of None \<Rightarrow> True | Some b \<Rightarrow> r = ResBool b)"
  using exec_error [of E op db] exec_abs [OF assms, of op db]
  by (auto split: prod.splits sum.splits)

theorem exec_refines_abstract_witness:
  "redb_lawful sample_env \<and>
   (case exec sample_env (RuleRemoveByPrefix (win ''C:|A'')) sample_db of
      (Inl e, db') \<Rightarrow> db' = sample_db
    | (Inr r, db') \<Rightarrow> tview sample_env db' = abs_exec sample_env (RuleRemoveByPrefix (win ''C:|A'')) (tview sample_env sample_db) \<and>
        (case abs_removed sample_env (RuleRemoveByPrefix (win ''C:|A'')) (tview sample_env sample_db) of
           None \<Rightarrow> True | Some b \<Rightarrow> r = ResBool b))"
proof -
  have "redb_lawful sample_env" by (simp add: sample_env_def)
  with exec_refines_abstract [OF this, where op = "RuleRemoveByPrefix (win ''C:|A'')" and db = sample_db]
  show ?thesis by blast
qed

text \<open>
  \<open>touches_fs_snapshot\<close> misses nothing: after an operation it says does not touch the decision snapshot,
  loading the snapshot gives what it gave before. Likewise the registry tables are unchanged after an
  operation \<open>touches_reg_snapshot\<close> says does not touch them, and no operation changes the overlay tables.
\<close>

theorem untouched_snapshots:
  assumes "redb_lawful E"
  shows "(\<not> touches_fs_snapshot op \<longrightarrow> snapshot_load E (snd (exec E op db)) = snapshot_load E db) \<and>
    (\<not> touches_reg_snapshot op \<longrightarrow> (\<forall>n\<in>{REG_RULES, REG_MOCKS}. tview E (snd (exec E op db)) n = tview E db n)) \<and>
    (\<forall>n\<in>{OVERLAY_IDX, OVERLAY_MIGRATIONS, OVERLAY_CASE, WHITEOUTS}. tview E (snd (exec E op db)) n = tview E db n)"
proof (cases "fst (exec E op db)")
  case (Inl e)
  then have "snd (exec E op db) = db" using exec_error [of E op db e] by (metis prod.collapse)
  then show ?thesis by simp
next
  case (Inr r)
  then have "exec E op db = (Inr r, snd (exec E op db))" by (metis prod.collapse)
  from exec_abs [OF assms this] exec_frame [OF assms, of op db] show ?thesis
    by (auto simp: abs_exec_frame)
qed

theorem untouched_snapshots_witness:
  "\<not> touches_fs_snapshot (NetRuleRemove ''n1'') \<and>
   snapshot_load sample_env (snd (exec sample_env (NetRuleRemove ''n1'') sample_db)) = snapshot_load sample_env sample_db"
proof -
  have "redb_lawful sample_env" by (simp add: sample_env_def)
  with untouched_snapshots [OF this, of "NetRuleRemove ''n1''" sample_db] show ?thesis by simp
qed

text \<open>
  a stored rule can be read back and removed. After a successful upsert the rule list holds the row with
  its prefix and executable folded; removing by any spelling of the prefix that folds to the same key
  reports success and leaves the table as it was without that key.
\<close>

theorem rule_upsert_round_trip:
  assumes "redb_lawful E" and "codec_lawful E" and "read_fault E = None"
    and "rule_upsert E row db = (Inr (), db')" and "ensure_lower E (row_prefix row) \<noteq> []"
    and "ensure_lower E p = ensure_lower E (row_prefix row)"
  shows "(\<exists>rows. rule_list E db' = Inr rows \<and> fold_row E row \<in> set rows) \<and>
    fst (rule_remove_by_prefix E p db') = Inr True \<and>
    tview E (snd (rule_remove_by_prefix E p db')) = abs_put (tview E db) RULES (ensure_lower E (row_prefix row)) None"
proof -
  from rule_upsert_ok [OF assms(1,4)] obtain enc where
    enc: "rule_encode E (fold_row E row) = Some enc" and w: "write_fault E = None"
    and v: "tview E db' = abs_put (tview E db) RULES (ensure_lower E (row_prefix row)) (Some enc)"
    and tb: "tables db' RULES \<noteq> None" .
  from enc assms(2) have dec: "rule_decode E enc = Some (fold_row E row)" by (simp add: codec_lawful_def)
  have "tview E db' RULES (ensure_lower E (row_prefix row)) = Some enc" by (simp add: v abs_put_def)
  from rule_list_mem [OF assms(1,3) tb this assms(5) dec]
  have "\<exists>rows. rule_list E db' = Inr rows \<and> fold_row E row \<in> set rows" .
  moreover have "rule_remove_by_prefix E p db' = write_txn E (remove_op E RULES (ensure_lower E (row_prefix row))) db'"
    by (simp add: rule_remove_by_prefix_def assms(6))
  ultimately show ?thesis using remove_op_view [OF assms(1), of RULES "ensure_lower E (row_prefix row)" db'] w
    by (simp add: write_txn_def v abs_put_def case_prod_beta)
qed

theorem rule_upsert_round_trip_witness:
  "\<exists>db'. rule_upsert sample_env (sample_rows ! 0) empty_database = (Inr (), db') \<and>
     fst (rule_remove_by_prefix sample_env (win ''C:|A'') db') = Inr True"
proof -
  have l: "redb_lawful sample_env" "codec_lawful sample_env" "read_fault sample_env = None"
    by (simp_all add: sample_env_def)
  have low: "ensure_lower sample_env (win ''c:|a'') = win ''c:|a''" "ensure_lower sample_env (win ''C:|A'') = win ''c:|a''"
    by (simp_all add: ensure_lower_ascii is_ascii_def win_defs char_of_eq_iff)
  have row: "row_prefix (sample_rows ! 0) = win ''c:|a''" by (simp add: sample_rows_def)
  have "fold_row sample_env (sample_rows ! 0) = sample_rows ! 0"
    using low(1) by (simp add: fold_row_def sample_rows_def fold_when_def)
  then have "rule_encode sample_env (fold_row sample_env (sample_rows ! 0)) = Some []"
    by (simp add: sample_env_def list_table_env_def number_encode_def sample_rows_def)
  then obtain db' where db': "rule_upsert sample_env (sample_rows ! 0) empty_database = (Inr (), db')"
    by (auto simp: rule_upsert_def write_txn_def sample_env_def insert_op_def)
  from rule_upsert_round_trip [OF l this, of "win ''C:|A''"] low row db' show ?thesis
    by (auto simp: win_defs)
qed

text \<open>
  loading a configuration replaces the rules, mocks and mock directories by exactly what the configuration
  says: the default row under the empty key, one row per entry under its folded prefix (a later entry with the
  same prefix wins), nothing left of the old tables, and no other table changed. A failure changes nothing.
\<close>

theorem apply_config_exact:
  assumes "redb_lawful E"
  shows "case apply_config E cfg db of
      (Inl e, db') \<Rightarrow> db' = db
    | (Inr _, db') \<Rightarrow>
        tview E db' RULES = (\<lambda>k. Option.bind (map_of (rev (map (\<lambda>r. (row_prefix r, r)) (config_rows E cfg))) k) (rule_encode E)) \<and>
        tview E db' MOCKS = map_of (rev (map (\<lambda>m. (ensure_lower E (me_path m), unwrap_or (content_inline m) [])) (cfg_mocks cfg))) \<and>
        tview E db' MOCK_DIRS = map_of (rev (map (\<lambda>p. (ensure_lower E p, [])) (cfg_mock_dirs cfg))) \<and>
        (\<forall>n. n \<in> {RULES, MOCKS, MOCK_DIRS} \<or> tview E db' n = tview E db n)"
proof (cases "apply_config E cfg db")
  case (Pair r db')
  show ?thesis
  proof (cases r)
    case (Inl e)
    with Pair show ?thesis using write_try_cases(2) [of E "apply_config_body E cfg" db e db'] by (simp add: apply_config_def)
  next
    case (Inr u)
    with Pair have "apply_config E cfg db = (Inr (), db')" by simp
    from apply_config_view [OF assms this] Pair Inr show ?thesis by auto
  qed
qed

theorem apply_config_exact_witness:
  "redb_lawful sample_env \<and>
   (case apply_config sample_env \<lparr>cfg_default_read = [], cfg_default_write = [], cfg_rules = [], cfg_mocks = [],
        cfg_mock_dirs = [''c:''], cfg_network = None\<rparr> sample_db of
      (Inl e, db') \<Rightarrow> db' = sample_db
    | (Inr _, db') \<Rightarrow> tview sample_env db' MOCK_DIRS = map_of [(ensure_lower sample_env ''c:'', [])])"
proof -
  have "redb_lawful sample_env" by (simp add: sample_env_def)
  with apply_config_exact [OF this, where cfg = "\<lparr>cfg_default_read = [], cfg_default_write = [], cfg_rules = [], cfg_mocks = [],
        cfg_mock_dirs = [''c:''], cfg_network = None\<rparr>" and db = sample_db] show ?thesis
    by (auto split: prod.splits sum.splits)
qed

text \<open>
  setting defaults changes exactly the modes given: reading them back yields the new value where one was
  given and the old one otherwise.
\<close>

theorem defaults_round_trip:
  assumes "redb_lawful E" and "codec_lawful E" and "defaults_get E db = Inr d"
    and "defaults_set E rd wr db = (Inr (), db')"
  shows "defaults_get E db' = Inr \<lparr>def_read = unwrap_or rd (def_read d), def_write = unwrap_or wr (def_write d)\<rparr>"
  using assms by (rule defaults_round)

definition default_env :: "((string \<times> string) list) env" where
  "default_env = list_table_env [default_row RM_Passthrough RM_Deny] [] []"

theorem defaults_round_trip_witness:
  "\<exists>db'. defaults_set default_env None (Some RM_Deny) sample_db = (Inr (), db') \<and>
     defaults_get default_env db' = Inr \<lparr>def_read = RM_Passthrough, def_write = RM_Deny\<rparr>"
proof -
  have l: "redb_lawful default_env" "codec_lawful default_env" by (simp_all add: default_env_def)
  have g: "defaults_get default_env sample_db = Inr \<lparr>def_read = RM_Passthrough, def_write = RM_Cow\<rparr>"
    by (simp add: defaults_get_def read_txn_def default_env_def sample_db_def open_r_def list_table_env_def
        row_defaults_def win_defs)
  have "\<exists>db'. defaults_set default_env None (Some RM_Deny) sample_db = (Inr (), db')"
    unfolding defaults_set_def g
    by (simp add: default_env_def list_table_env_def number_encode_def write_txn_def insert_op_def)
  then obtain db' where s: "defaults_set default_env None (Some RM_Deny) sample_db = (Inr (), db')" by blast
  from defaults_round_trip [OF l g s] s show ?thesis by simp
qed

end
