(* ===== verification/NetRules.thy ===== *)
theory NetRules
  imports PolicyDb
begin

text \<open>
  Network rules of \<^verbatim>\<open>domains/net.rs\<close>: host patterns, IPv4 and CIDR parsing, the rules compiled once per
  generation, the decision over them, and the generation check of \<^verbatim>\<open>Policy::net_rule_decide\<close> in
  \<^verbatim>\<open>domains/policy_impl.rs\<close>.
\<close>

section \<open>Host patterns and addresses\<close>

definition match_host :: "('t, 'e) env_scheme \<Rightarrow> string \<Rightarrow> string \<Rightarrow> bool" where
  "match_host E pattern host =
     (let p = to_lowercase E pattern; h = to_lowercase E host in
      if p = h then True
      else if p = ''*'' then True
      else (case strip_prefix ''*.'' p of
          Some sfx \<Rightarrow> ends_with h (dot # sfx) \<or> h = sfx
        | None \<Rightarrow> segment_match p h))"

text \<open>\<^verbatim>\<open>str::parse::<u32>\<close>: an optional plus sign, at least one digit, no overflow.\<close>

definition digits_value :: "string \<Rightarrow> nat" where
  "digits_value ds = foldl (\<lambda>v c. v * 10 + (of_char c - 48)) 0 ds"

definition parse_u32 :: "string \<Rightarrow> u32 option" where
  "parse_u32 s =
     (let ds = (case s of c # r \<Rightarrow> if c = CHR ''+'' then r else s | [] \<Rightarrow> []) in
      if ds = [] \<or> \<not> list_all is_ascii_digit ds then None
      else if digits_value ds < 2 ^ 32 then Some (of_nat (digits_value ds))
      else None)"

definition parse_ipv4 :: "string \<Rightarrow> u32 option" where
  "parse_ipv4 s =
     (case split_by (\<lambda>c. c = dot) s of
        [pa, pb, pc, pd] \<Rightarrow>
          (case (parse_u32 pa, parse_u32 pb, parse_u32 pc, parse_u32 pd) of
             (Some a, Some b, Some c, Some d) \<Rightarrow>
               if a > 255 \<or> b > 255 \<or> c > 255 \<or> d > 255 then None
               else Some (push_bit 24 a OR push_bit 16 b OR push_bit 8 c OR d)
           | _ \<Rightarrow> None)
      | _ \<Rightarrow> None)"

definition parse_cidr :: "string \<Rightarrow> (u32 \<times> u32) option" where
  "parse_cidr cidr =
     (case split_once fslash cidr of
        None \<Rightarrow> None
      | Some (ip_str, bits_str) \<Rightarrow>
          (case parse_u32 bits_str of
             None \<Rightarrow> None
           | Some bits \<Rightarrow>
               if bits > 32 then None
               else (case parse_ipv4 ip_str of
                   None \<Rightarrow> None
                 | Some ip \<Rightarrow>
                     (let msk = (if bits = 0 then 0 else push_bit (32 - unat bits) (NOT 0))
                      in Some (ip AND msk, msk)))))"

definition ip_in_cidr :: "u32 \<Rightarrow> u32 \<Rightarrow> u32 \<Rightarrow> bool" where
  "ip_in_cidr ip network msk \<longleftrightarrow> ip AND msk = network"

definition is_localhost :: "('t, 'e) env_scheme \<Rightarrow> string \<Rightarrow> bool" where
  "is_localhost E host =
     (let h = to_lowercase E host in h = ''localhost'' \<or> h = ''127.0.0.1'' \<or> h = ''::1'' \<or> h = ''0.0.0.0'')"

section \<open>Compiled rules and the snapshot\<close>

datatype host_kind = KStar | KSuffix string | KGlob string

record compiled_net_rule =
  cn_id :: string
  cn_port :: "u16 option"
  pattern_lower :: string
  cn_mode :: net_mode
  cn_kind :: host_kind
  cn_cidr :: "(u32 \<times> u32) option"

definition compile_net :: "('t, 'e) env_scheme \<Rightarrow> net_rule \<Rightarrow> compiled_net_rule" where
  "compile_net E rule =
     (let p = to_lowercase E (host_pattern rule)
      in \<lparr>cn_id = net_id rule, cn_port = net_port rule, pattern_lower = p, cn_mode = net_mode rule,
          cn_kind = (if p = ''*'' then KStar
            else (case strip_prefix ''*.'' p of Some sfx \<Rightarrow> KSuffix (dot # sfx) | None \<Rightarrow> KGlob p)),
          cn_cidr = parse_cidr (host_pattern rule)\<rparr>)"

definition net_matches :: "compiled_net_rule \<Rightarrow> string \<Rightarrow> bool" where
  "net_matches r host_lower =
     (if pattern_lower r = host_lower then True
      else if (case cn_kind r of
           KStar \<Rightarrow> True
         | KSuffix ds \<Rightarrow> host_lower = drop 1 ds \<or> ends_with host_lower ds
         | KGlob pattern \<Rightarrow> segment_match pattern host_lower) then True
      else (case (cn_cidr r, parse_ipv4 host_lower) of
          (Some (net, msk), Some ip) \<Rightarrow> ip AND msk = net
        | _ \<Rightarrow> False))"

record net_snapshot =
  ns_gen :: u64
  ns_rules :: "compiled_net_rule list"

definition net_from_rules :: "('t, 'e) env_scheme \<Rightarrow> u64 \<Rightarrow> net_rule list \<Rightarrow> net_snapshot" where
  "net_from_rules E gen rules = \<lparr>ns_gen = gen, ns_rules = map (compile_net E) rules\<rparr>"

definition net_snapshot_load :: "('t, 'e) env_scheme \<Rightarrow> 't database \<Rightarrow> u64 \<Rightarrow> policy_error + net_snapshot" where
  "net_snapshot_load E db gen = map_sum id (net_from_rules E gen) (net_rule_list E db)"

text \<open>One turn of the loop of \<^verbatim>\<open>NetSnapshot::decide\<close>: the state is \<^verbatim>\<open>deny_rule\<close> and \<^verbatim>\<open>allow_rule\<close>.\<close>

definition net_step ::
    "string \<Rightarrow> u16 \<Rightarrow> string option \<times> string option \<Rightarrow> compiled_net_rule \<Rightarrow> string option \<times> string option" where
  "net_step host_lower port st r =
     (let (deny_rule, allow_rule) = st in
      if cn_port r \<noteq> None \<and> cn_port r \<noteq> Some port then st
      else if \<not> net_matches r host_lower then st
      else (case cn_mode r of
          NetDeny \<Rightarrow> (if deny_rule = None then Some (cn_id r) else deny_rule, allow_rule)
        | NetAllow \<Rightarrow> (deny_rule, if allow_rule = None then Some (cn_id r) else allow_rule)
        | NetLog \<Rightarrow> st))"

definition net_decide :: "('t, 'e) env_scheme \<Rightarrow> net_snapshot \<Rightarrow> string \<Rightarrow> u16 \<Rightarrow> bool \<times> string option" where
  "net_decide E snap host port =
     (let (deny_rule, allow_rule) = foldl (net_step (to_lowercase E host) port) (None, None) (ns_rules snap)
      in case deny_rule of Some rid \<Rightarrow> (False, Some rid) | None \<Rightarrow> (True, allow_rule))"

text \<open>
  \<^verbatim>\<open>net_rule_decide\<close>: the persisted generation decides whether the snapshot is rebuilt; the result comes with
  the snapshot now published and the rebuild count.
\<close>

definition net_rule_decide ::
    "('t, 'e) env_scheme \<Rightarrow> 't database \<Rightarrow> net_snapshot \<times> nat \<Rightarrow> string \<Rightarrow> u16
     \<Rightarrow> (policy_error + (bool \<times> string option)) \<times> (net_snapshot \<times> nat)" where
  "net_rule_decide E db st host port =
     (let (snap, rebuilds) = st in
      case net_rule_generation E db of
        Inl e \<Rightarrow> (Inl e, st)
      | Inr gen \<Rightarrow>
          if ns_gen snap \<noteq> gen then
            (case net_snapshot_load E db gen of
               Inl e \<Rightarrow> (Inl e, st)
             | Inr fresh \<Rightarrow> (Inr (net_decide E fresh host port), (fresh, rebuilds + 1)))
          else (Inr (net_decide E snap host port), st))"

text \<open>\<^verbatim>\<open>handle_net_decide\<close> of the launcher: any error denies.\<close>

definition handle_net_decide ::
    "('t, 'e) env_scheme \<Rightarrow> 't database \<Rightarrow> net_snapshot \<times> nat \<Rightarrow> string \<Rightarrow> u16
     \<Rightarrow> (bool \<times> string option) \<times> (net_snapshot \<times> nat)" where
  "handle_net_decide E db st host port =
     (case net_rule_decide E db st host port of
        (Inr decision, st') \<Rightarrow> (decision, st')
      | (Inl e, st') \<Rightarrow> ((False, None), st'))"

section \<open>Compiled matching is legacy matching\<close>

text \<open>The matcher the compiled form replaces: the host pattern, or the CIDR block of the raw pattern.\<close>

definition rule_matches_host :: "('t, 'e) env_scheme \<Rightarrow> net_rule \<Rightarrow> string \<Rightarrow> bool" where
  "rule_matches_host E rule host \<longleftrightarrow>
     match_host E (host_pattern rule) host \<or>
     (\<exists>net msk ip. parse_cidr (host_pattern rule) = Some (net, msk) \<and>
        parse_ipv4 (to_lowercase E host) = Some ip \<and> ip_in_cidr ip net msk)"

lemma net_matches_compiled:
  "net_matches (compile_net E rule) (to_lowercase E host) \<longleftrightarrow> rule_matches_host E rule host"
proof -
  let ?p = "to_lowercase E (host_pattern rule)" and ?h = "to_lowercase E host"
  have cidr: "(case (parse_cidr (host_pattern rule), parse_ipv4 ?h) of
        (Some (net, msk), Some ip) \<Rightarrow> ip AND msk = net | _ \<Rightarrow> False) \<longleftrightarrow>
      (\<exists>net msk ip. parse_cidr (host_pattern rule) = Some (net, msk) \<and> parse_ipv4 ?h = Some ip \<and> ip_in_cidr ip net msk)"
    by (auto simp: ip_in_cidr_def split: option.splits)
  show ?thesis
    unfolding net_matches_def rule_matches_host_def cidr [symmetric]
    by (auto simp: compile_net_def match_host_def Let_def split: option.splits)
qed

section \<open>Deny wins\<close>

definition applies :: "('t, 'e) env_scheme \<Rightarrow> string \<Rightarrow> u16 \<Rightarrow> net_rule \<Rightarrow> bool" where
  "applies E host port rule \<longleftrightarrow> (net_port rule = None \<or> net_port rule = Some port) \<and> rule_matches_host E rule host"

definition first_id :: "net_mode \<Rightarrow> net_rule list \<Rightarrow> string option" where
  "first_id m rules = map_option net_id (find (\<lambda>r. net_mode r = m) rules)"

lemma compile_net_simps [simp]:
  "cn_id (compile_net E r) = net_id r" "cn_port (compile_net E r) = net_port r" "cn_mode (compile_net E r) = net_mode r"
  by (simp_all add: compile_net_def Let_def)

lemma net_step_fold:
  "foldl (net_step (to_lowercase E host) port) (dn, al) (map (compile_net E) rules) =
     (option_or dn (first_id NetDeny (filter (applies E host port) rules)),
      option_or al (first_id NetAllow (filter (applies E host port) rules)))"
proof (induction rules arbitrary: dn al)
  case Nil
  then show ?case by (cases dn; cases al) (simp_all add: first_id_def)
next
  case (Cons r rules)
  show ?case
  proof (cases "applies E host port r")
    case True
    then show ?thesis using Cons.IH
      by (cases "net_mode r"; cases dn; cases al)
        (auto simp: net_step_def applies_def net_matches_compiled first_id_def)
  next
    case False
    then show ?thesis using Cons.IH by (auto simp: net_step_def applies_def net_matches_compiled)
  qed
qed

lemma net_decide_rules:
  "net_decide E (net_from_rules E gen rules) host port =
     (let hits = filter (applies E host port) rules in
      case first_id NetDeny hits of Some rid \<Rightarrow> (False, Some rid) | None \<Rightarrow> (True, first_id NetAllow hits))"
  by (simp add: net_decide_def net_from_rules_def net_step_fold Let_def)

section \<open>CIDR blocks\<close>

lemma and_high_mask: "(a :: u32) AND push_bit k (NOT 0) = push_bit k (drop_bit k a)"
  by (rule bit_word_eqI) (auto simp: bit_simps not_less)

lemma drop_push_drop: "drop_bit k (push_bit k (drop_bit k (a :: u32))) = drop_bit k a"
  by (rule bit_word_eqI) (auto simp: bit_simps dest: bit_imp_le_length)

lemma and_prefix_mask:
  "(a :: u32) AND push_bit k (NOT 0) = b AND push_bit k (NOT 0) \<longleftrightarrow> drop_bit k a = drop_bit k b"
  unfolding and_high_mask by (metis drop_push_drop)

lemma parse_cidr_block:
  assumes "parse_cidr s = Some (net, msk)"
  obtains base n where "n \<le> 32" "\<And>ip. ip_in_cidr ip net msk \<longleftrightarrow> drop_bit (32 - n) ip = drop_bit (32 - n) base"
proof -
  from assms obtain a b bits base where "split_once fslash s = Some (a, b)" "parse_u32 b = Some bits" "\<not> bits > 32"
    "parse_ipv4 a = Some base" and m: "msk = (if bits = 0 then 0 else push_bit (32 - unat bits) (NOT 0))" "net = base AND msk"
    by (auto simp: parse_cidr_def Let_def split: option.splits if_splits prod.splits)
  then have n: "unat bits \<le> 32" by (simp add: word_less_nat_alt not_less)
  have "ip_in_cidr ip net msk \<longleftrightarrow> drop_bit (32 - unat bits) ip = drop_bit (32 - unat bits) base" for ip
  proof (cases "bits = 0")
    case True
    then show ?thesis using m by (simp add: ip_in_cidr_def drop_bit_word_beyond)
  next
    case False
    then show ?thesis using m and_prefix_mask [of ip "32 - unat bits" base] by (simp add: ip_in_cidr_def)
  qed
  with that n show ?thesis by blast
qed

section \<open>Freshness of the snapshot\<close>

text \<open>
  What the generation check relies on: a snapshot labelled with the current generation holds the current rules,
  and no label is ahead of the database.
\<close>

definition net_rules_of :: "('t, 'e) env_scheme \<Rightarrow> 't database \<Rightarrow> net_rule list" where
  "net_rules_of E db = List.map_filter (\<lambda>(k, v). net_decode E v) (tentries E db NET_RULES)"

definition db_gen :: "'t database \<Rightarrow> u64" where
  "db_gen db = unwrap_or (net_rules_gen db) 0"

definition net_fresh :: "('t, 'e) env_scheme \<Rightarrow> 't database \<Rightarrow> net_snapshot \<Rightarrow> bool" where
  "net_fresh E db snap \<longleftrightarrow>
     ns_gen snap \<le> db_gen db \<and>
     (ns_gen snap = db_gen db \<longrightarrow> snap = net_from_rules E (db_gen db) (net_rules_of E db))"

lemma net_rule_list_entries: "net_rule_list E db = Inr rules \<Longrightarrow> rules = net_rules_of E db"
  by (auto simp: net_rule_list_def list_op_def read_txn_cases open_r_def net_rules_of_def tentries_def
      split: sum.splits option.splits)

lemma net_snapshot_load_Inr:
  "net_snapshot_load E db g = Inr snap \<longleftrightarrow> (\<exists>rules. net_rule_list E db = Inr rules \<and> snap = net_from_rules E g rules)"
  by (cases "net_rule_list E db") (auto simp: net_snapshot_load_def)

lemma net_load_fresh: "net_snapshot_load E db (db_gen db) = Inr snap \<Longrightarrow> net_fresh E db snap"
  by (auto simp: net_snapshot_load_Inr net_fresh_def net_from_rules_def dest!: net_rule_list_entries)

lemma net_rules_determined:
  "redb_lawful E \<Longrightarrow> tview E db NET_RULES = tview E db' NET_RULES \<Longrightarrow> net_rules_of E db = net_rules_of E db'"
  using tentries_determined [of E db NET_RULES db' NET_RULES] by (simp add: net_rules_of_def)

lemma abs_exec_net: "\<not> writes_net op \<Longrightarrow> abs_exec E op a NET_RULES = a NET_RULES"
  by (cases op) (auto simp: abs_put_def Let_def)

lemma env_fault [simp]:
  "redb_lawful (E\<lparr>write_fault := f\<rparr>) = redb_lawful E" "tview (E\<lparr>write_fault := f\<rparr>) = tview E"
  by (simp_all add: redb_lawful_def tview_def fun_eq_iff split: option.splits)

lemma exec_net_fresh:
  assumes law: "redb_lawful E" and fr: "net_fresh E db snap" and nowrap: "unat (db_gen db) + 1 < 2 ^ 64"
  shows "net_fresh E (snd (exec (E\<lparr>write_fault := f\<rparr>) op db)) snap"
proof (cases "fst (exec (E\<lparr>write_fault := f\<rparr>) op db)")
  case (Inl e)
  then have "snd (exec (E\<lparr>write_fault := f\<rparr>) op db) = db" using exec_error [of _ op db e] by (metis prod.collapse)
  with fr show ?thesis by simp
next
  case (Inr r)
  then have ex: "exec (E\<lparr>write_fault := f\<rparr>) op db = (Inr r, snd (exec (E\<lparr>write_fault := f\<rparr>) op db))" (is "_ = (_, ?db')")
    by (metis prod.collapse)
  show ?thesis
  proof (cases "writes_net op")
    case True
    then have g: "db_gen ?db' = db_gen db + 1" using exec_gen [OF ex] by (simp add: db_gen_def)
    have "unat (db_gen db + 1) = unat (db_gen db) + 1" using nowrap by (simp add: unat_word_ariths)
    then have "ns_gen snap < db_gen ?db'"
      using fr by (simp add: g net_fresh_def word_less_nat_alt word_le_nat_alt)
    then show ?thesis by (auto simp: net_fresh_def)
  next
    case False
    have "tview E ?db' NET_RULES = tview E db NET_RULES"
      using exec_abs [OF _ ex] law False by (simp add: abs_exec_net)
    then have "net_rules_of E ?db' = net_rules_of E db" by (rule net_rules_determined [OF law])
    moreover have "db_gen ?db' = db_gen db" using exec_gen [OF ex] False by (simp add: db_gen_def)
    ultimately show ?thesis using fr by (simp add: net_fresh_def)
  qed
qed

lemma net_rule_decide_fresh:
  assumes "net_fresh E db snap" and "net_rule_decide E db (snap, n) host port = (r, (snap', n'))"
  shows "net_fresh E db snap' \<and>
    (case r of Inl e \<Rightarrow> True | Inr d \<Rightarrow> d = net_decide E (net_from_rules E (db_gen db) (net_rules_of E db)) host port)"
proof (cases "net_rule_generation E db")
  case (Inl e)
  with assms show ?thesis by (auto simp: net_rule_decide_def)
next
  case (Inr g)
  then have g: "g = db_gen db" by (auto simp: net_rule_generation_def read_txn_cases db_gen_def)
  show ?thesis
  proof (cases "ns_gen snap = g")
    case True
    with assms Inr g show ?thesis by (auto simp: net_rule_decide_def net_fresh_def)
  next
    case False
    show ?thesis
    proof (cases "net_snapshot_load E db g")
      case (Inl e)
      with assms Inr False show ?thesis by (auto simp: net_rule_decide_def)
    next
      case load: (Inr fresh)
      then have "net_fresh E db fresh" "ns_gen fresh = db_gen db"
        using net_load_fresh [of E db fresh] by (auto simp: g net_snapshot_load_Inr net_from_rules_def)
      moreover have "r = Inr (net_decide E fresh host port)" "snap' = fresh"
        using assms(2) Inr False load by (auto simp: net_rule_decide_def)
      ultimately show ?thesis by (simp add: net_fresh_def)
    qed
  qed
qed

section \<open>Runs of the network decision\<close>

text \<open>
  The launcher decides while command-line processes write rules to the same database. A state is the
  database, the published snapshot and the rebuild count; a run starts from an opened policy and
  interleaves operations of other processes (which may fail) with decisions.
\<close>

inductive net_reach :: "('t, 'e) env_scheme \<Rightarrow> 't database \<Rightarrow> net_snapshot \<times> nat \<Rightarrow> bool" for E where
  opened: "net_snapshot_load E db (db_gen db) = Inr snap \<Longrightarrow> net_reach E db (snap, 0)"
| op: "net_reach E db st \<Longrightarrow> unat (db_gen db) + 1 < 2 ^ 64 \<Longrightarrow>
    net_reach E (snd (exec (E\<lparr>write_fault := f\<rparr>) op db)) st"
| decision: "net_reach E db st \<Longrightarrow> net_reach E db (snd (net_rule_decide E db st host port))"

inductive_simps net_reach_simps: "net_reach E db st"

lemma net_reach_fresh:
  assumes law: "redb_lawful E"
  shows "net_reach E db st \<Longrightarrow> net_fresh E db (fst st)"
proof (induction rule: net_reach.induct)
  case (opened db snap)
  then show ?case by (simp add: net_load_fresh)
next
  case (op db st f op)
  then show ?case by (simp add: exec_net_fresh law)
next
  case (decision db st host port)
  obtain snap n r snap' n' where "st = (snap, n)" "net_rule_decide E db st host port = (r, (snap', n'))"
    by (metis prod_cases3 surj_pair)
  with decision net_rule_decide_fresh [of E db snap n host port r snap' n'] show ?case by simp
qed

section \<open>Properties\<close>

text \<open>
  in every run the network decision is taken on the rules that are in the database at that moment: the first
  matching deny rule in id order decides against the connection, else the connection is allowed with the
  first matching allow rule; log rules never count. If the rules cannot be read, the launcher denies. So
  a rule another process wrote is in force on the very next decision, however rarely the snapshot is rebuilt.
\<close>

theorem net_decision_current:
  assumes "redb_lawful E" and "net_reach E db st"
  shows "fst (handle_net_decide E db st host port) =
    (case fst (net_rule_decide E db st host port) of
       Inl e \<Rightarrow> (False, None)
     | Inr d \<Rightarrow>
        (let hits = filter (applies E host port) (net_rules_of E db) in
         case first_id NetDeny hits of Some rid \<Rightarrow> (False, Some rid) | None \<Rightarrow> (True, first_id NetAllow hits)))"
proof -
  obtain snap n r snap' n' where st: "st = (snap, n)" and d: "net_rule_decide E db st host port = (r, (snap', n'))"
    by (metis prod_cases3 surj_pair)
  have "net_fresh E db snap" using net_reach_fresh [OF assms] st by simp
  from net_rule_decide_fresh [OF this d [unfolded st]] show ?thesis
    by (auto simp: handle_net_decide_def d net_decide_rules split: sum.splits)
qed

definition deny_example :: net_rule where
  "deny_example = \<lparr>net_id = ''d1'', host_pattern = ''10.0.0.0/8'', net_port = None, net_mode = NetDeny\<rparr>"

definition net_env :: "((string \<times> string) list) env" where
  "net_env = list_table_env [] [deny_example] []"

definition net_db0 :: "(string \<times> string) list database" where
  "net_db0 = put_table empty_database NET_RULES []"

definition net_db1 :: "(string \<times> string) list database" where
  "net_db1 = snd (exec (net_env\<lparr>write_fault := None\<rparr>) (NetRuleUpsert deny_example) net_db0)"

theorem net_decision_current_witness:
  "\<exists>st. net_reach net_env net_db1 st \<and>
     fst (handle_net_decide net_env net_db1 st ''10.1.2.3'' 443) = (False, Some ''d1'')"
proof -
  let ?snap = "\<lparr>ns_gen = 0, ns_rules = []\<rparr> :: net_snapshot"
  have "net_snapshot_load net_env net_db0 (db_gen net_db0) = Inr ?snap"
    by (simp add: net_snapshot_load_def net_rule_list_def list_op_def read_txn_def net_env_def net_db0_def open_r_def
        list_table_env_def db_gen_def empty_database_def put_table_def net_from_rules_def btree_norm_def)
  then have "net_reach net_env net_db0 (?snap, 0)" by (rule net_reach.opened)
  moreover have "unat (db_gen net_db0) + 1 < 2 ^ 64" by (simp add: net_db0_def db_gen_def empty_database_def put_table_def)
  ultimately have r: "net_reach net_env net_db1 (?snap, 0)"
    unfolding net_db1_def by (rule net_reach.op)
  have l: "redb_lawful net_env" by (simp add: net_env_def)
  have rules: "net_rules_of net_env net_db1 = [deny_example]"
    by (simp add: net_rules_of_def tentries_def net_db1_def net_db0_def net_env_def net_rule_upsert_def run_write_def
        write_txn_def insert_op_def open_w_def list_table_env_def number_encode_def number_decode_def
        bump_net_rules_gen_def btree_norm_def List.map_filter_def)
  have ok: "fst (net_rule_decide net_env net_db1 (?snap, 0) ''10.1.2.3'' 443) \<noteq> Inl e" for e
    by (simp add: net_rule_decide_def net_rule_generation_def net_snapshot_load_def net_rule_list_def list_op_def
        read_txn_def net_env_def open_r_def net_db1_def net_db0_def net_rule_upsert_def run_write_def
        write_txn_def insert_op_def list_table_env_def number_encode_def bump_net_rules_gen_def)
  have m: "(NOT (mask 24) :: u32) = 0xFF000000" by (simp add: mask_eq_exp_minus_1 not_eq_complement)
  have "parse_cidr ''10.0.0.0/8'' = Some (0x0A000000, 0xFF000000)" "parse_ipv4 ''10.1.2.3'' = Some 0x0A010203"
    by (simp_all add: parse_cidr_def split_once_def parse_u32_def digits_value_def parse_ipv4_def is_ascii_digit_def Let_def m)
  moreover have "ip_in_cidr 0x0A010203 0x0A000000 0xFF000000" by (simp add: ip_in_cidr_def)
  ultimately have hit: "applies net_env ''10.1.2.3'' 443 deny_example"
    by (simp add: applies_def rule_matches_host_def deny_example_def net_env_def list_table_env_def win_defs)
  from ok obtain d where "fst (net_rule_decide net_env net_db1 (?snap, 0) ''10.1.2.3'' 443) = Inr d"
    by (metis sum.exhaust)
  with net_decision_current [OF l r, of "''10.1.2.3''" 443] rules hit
  have "fst (handle_net_decide net_env net_db1 (?snap, 0) ''10.1.2.3'' 443) = (False, Some ''d1'')"
    by (simp add: first_id_def deny_example_def)
  with r show ?thesis by blast
qed

text \<open>
  C33: the compiled matcher accepts a host exactly when the documented matcher does: the lower-cased pattern as
  exact name, \<open>*\<close>, \<open>*.suffix\<close> or glob, or the CIDR block of the pattern; and a CIDR block of \<open>n\<close> bits contains the
  addresses that agree with its base in the upper \<open>n\<close> bits.
\<close>

theorem compiled_host_matching:
  "(net_matches (compile_net E rule) (to_lowercase E host) \<longleftrightarrow>
      match_host E (host_pattern rule) host \<or>
      (\<exists>net msk ip. parse_cidr (host_pattern rule) = Some (net, msk) \<and>
        parse_ipv4 (to_lowercase E host) = Some ip \<and> ip_in_cidr ip net msk)) \<and>
   (case parse_cidr s of
      None \<Rightarrow> True
    | Some (net, msk) \<Rightarrow> \<exists>base n. n \<le> 32 \<and> (\<forall>ip. ip_in_cidr ip net msk \<longleftrightarrow> drop_bit (32 - n) ip = drop_bit (32 - n) base))"
proof -
  have "case parse_cidr s of
      None \<Rightarrow> True
    | Some (net, msk) \<Rightarrow> \<exists>base n. n \<le> 32 \<and> (\<forall>ip. ip_in_cidr ip net msk \<longleftrightarrow> drop_bit (32 - n) ip = drop_bit (32 - n) base)"
  proof (cases "parse_cidr s")
    case (Some nm)
    obtain net msk where nm: "nm = (net, msk)" by (cases nm)
    from parse_cidr_block [OF Some [unfolded nm]] obtain base n where
      "n \<le> 32" "\<And>ip. ip_in_cidr ip net msk \<longleftrightarrow> drop_bit (32 - n) ip = drop_bit (32 - n) base" by blast
    with Some nm show ?thesis by auto
  qed simp
  then show ?thesis unfolding net_matches_compiled rule_matches_host_def by (intro conjI refl)
qed

end
