(* ===== verification/Policy.thy ===== *)
theory Policy
  imports OverlayLayout NetRules
begin

text \<open>
  The policy object of \<^verbatim>\<open>domains/policy_impl.rs\<close> and the decision engine of \<^verbatim>\<open>decide/mod.rs\<close> and
  \<^verbatim>\<open>decide/overlay.rs\<close>: state, constructor, the decision \<open>compute\<close> with its cache, the overlay index and its
  in-memory children index, whiteouts, migrations, and the traced decision. The file system is a
  parameter: fields of the record \<open>fs_env\<close>.
\<close>

section \<open>The file system\<close>

record file_meta =
  md_is_dir :: bool
  md_attributes :: u32

record file_stat =
  st_is_dir :: bool
  st_size :: u64
  st_creation :: u64
  st_access :: u64
  st_write :: u64

datatype mode = Passthrough | Deny | Cow | Mock | Hidden

record decision =
  d_mode :: mode
  d_overlay :: "string option"
  d_cow_from :: "string option"
  d_mock_payload :: "string option"

type_synonym cache_key_t = "128 word"
type_synonym decision_cache = "cache_key_t \<Rightarrow> decision option"

text \<open>
  \<^verbatim>\<open>symlink_metadata\<close> does not follow the last component, \<^verbatim>\<open>metadata\<close> and \<^verbatim>\<open>is_dir\<close> do;
  \<open>canonicalize\<close> is the handle-based final path and \<open>link_count\<close> what \<^verbatim>\<open>number_of_links\<close> returns.
  \<open>cache_store\<close> is the insertion of the bounded cache (quick_cache), which may evict.
\<close>

record 't fs_env = "'t env" +
  symlink_metadata :: "string \<Rightarrow> file_meta option"
  fs_metadata :: "string \<Rightarrow> file_stat option"
  path_is_dir :: "string \<Rightarrow> bool"
  canonicalize :: "string \<Rightarrow> string option"
  link_count :: "string \<Rightarrow> u32 option"
  cache_store :: "decision_cache \<Rightarrow> cache_key_t \<Rightarrow> decision \<Rightarrow> decision_cache"

text \<open>A bounded cache holds at most what was inserted.\<close>

definition cache_lawful :: "('t, 'e) fs_env_scheme \<Rightarrow> bool" where
  "cache_lawful E \<longleftrightarrow> (\<forall>c k d. cache_store E c k d \<subseteq>\<^sub>m c(k \<mapsto> d))"

definition stat_overlay_phys :: "('t, 'e) fs_env_scheme \<Rightarrow> string \<Rightarrow> file_stat" where
  "stat_overlay_phys E p =
     (case fs_metadata E p of
        Some md \<Rightarrow> md\<lparr>st_size := if st_is_dir md then 0 else st_size md\<rparr>
      | None \<Rightarrow> \<lparr>st_is_dir = False, st_size = 0, st_creation = 0, st_access = 0, st_write = 0\<rparr>)"

definition path_is_plain_file :: "('t, 'e) fs_env_scheme \<Rightarrow> string \<Rightarrow> bool" where
  "path_is_plain_file E dos_path =
     (case symlink_metadata E dos_path of
        Some md \<Rightarrow> md_attributes md AND 0x400 = 0
      | None \<Rightarrow> False)"

definition physical_overlay_path :: "('t, 'e) fs_env_scheme \<Rightarrow> string \<Rightarrow> overlay_layout \<Rightarrow> string option" where
  "physical_overlay_path E lower layout =
     (let mirror = mirror_into_overlay_layout lower layout in
      case symlink_metadata E mirror of
        Some md \<Rightarrow>
          if md_is_dir md then (if path_is_dir E lower then None else Some mirror)
          else Some mirror
      | None \<Rightarrow> None)"

section \<open>Aliases of the project root\<close>

definition canonical_dos_lower :: "('t, 'e) fs_env_scheme \<Rightarrow> string \<Rightarrow> string option" where
  "canonical_dos_lower E p =
     (case canonicalize E p of
        None \<Rightarrow> None
      | Some s \<Rightarrow>
          (case strip_prefix (win ''||?|UNC|'') s of
             Some rest \<Rightarrow> Some (nt_case_fold E (win ''||'' @ rest))
           | None \<Rightarrow>
               (case strip_prefix (win ''||?|'') s of
                  Some rest \<Rightarrow> Some (nt_case_fold E rest)
                | None \<Rightarrow> Some (nt_case_fold E s))))"

text \<open>
  \<^verbatim>\<open>Path::parent\<close> and \<^verbatim>\<open>Path::file_name\<close> on the text of a path: empty and \<open>.\<close> segments at the end are
  skipped, the last segment is dropped, and so are the separators before it; prefix and root stay. A
  leading \<open>.\<close> of a path without root is a component of its own.
\<close>

definition anchor_length :: "string \<Rightarrow> nat" where
  "anchor_length s =
     (let n = (if has_drive s then 2 else 0) in if n < length s \<and> is_sep (s ! n) then n + 1 else n)"

definition is_rooted :: "string \<Rightarrow> bool" where
  "is_rooted s \<longleftrightarrow> (let n = (if has_drive s then 2 else 0) in n < length s \<and> is_sep (s ! n))"

fun skip_junk :: "bool \<Rightarrow> string list \<Rightarrow> string list" where
  "skip_junk rooted [] = []"
| "skip_junk rooted [g] = (if g = [] \<or> g = [dot] \<and> rooted then [] else [g])"
| "skip_junk rooted (g # h # r) = (if g = [] \<or> g = [dot] then skip_junk rooted (h # r) else g # h # r)"

definition rev_segments :: "string \<Rightarrow> string list" where
  "rev_segments s = skip_junk (is_rooted s) (rev (split_by is_sep (drop (anchor_length s) s)))"

fun text_length :: "string list \<Rightarrow> nat" where
  "text_length [] = 0"
| "text_length [g] = length g"
| "text_length (g # h # r) = Suc (length g + text_length (h # r))"

definition path_parent :: "string \<Rightarrow> string option" where
  "path_parent s =
     (case rev_segments s of
        [] \<Rightarrow> None
      | g # gs \<Rightarrow> Some (take (anchor_length s + text_length (skip_junk (is_rooted s) gs)) s))"

definition path_file_name :: "string \<Rightarrow> string option" where
  "path_file_name s =
     (case rev_segments s of
        [] \<Rightarrow> None
      | g # gs \<Rightarrow> if g = [dot] \<or> g = [dot, dot] then None else Some g)"

lemma skip_junk_length: "length (skip_junk r gs) \<le> length gs"
  by (induction r gs rule: skip_junk.induct) auto

lemma skip_junk_text: "text_length (skip_junk r gs) \<le> text_length gs"
  by (induction r gs rule: skip_junk.induct) auto

lemma text_length_tl: "text_length gs \<le> text_length (g # gs)"
  by (cases gs) auto

lemma skip_junk_hd: "skip_junk r gs = g # gs' \<Longrightarrow> g \<noteq> [] \<and> text_length gs' < text_length gs"
proof (induction r gs rule: skip_junk.induct)
  case (2 r h)
  then show ?case by (auto split: if_splits)
next
  case (3 r h k rest)
  show ?case
  proof (cases "h = [] \<or> h = [dot]")
    case True
    with 3 have "g \<noteq> [] \<and> text_length gs' < text_length (k # rest)" by auto
    then show ?thesis by simp
  next
    case False
    with 3 show ?thesis by auto
  qed
qed simp

lemma text_length_split: "text_length (split_by p s) = length s"
proof (induction s)
  case (Cons c s)
  obtain y ys where y: "split_by p s = y # ys" by (rule split_by_cases)
  with Cons show ?case by (cases ys) auto
qed simp

lemma text_length_append: "xs \<noteq> [] \<Longrightarrow> ys \<noteq> [] \<Longrightarrow> text_length (xs @ ys) = Suc (text_length xs + text_length ys)"
  by (induction xs rule: text_length.induct) (auto simp: neq_Nil_conv)

lemma text_length_rev: "text_length (rev gs) = text_length gs"
proof (induction gs)
  case (Cons g gs)
  show ?case
  proof (cases "gs = []")
    case False
    then have "text_length (rev gs @ [g]) = Suc (text_length gs + length g)"
      using text_length_append [of "rev gs" "[g]"] Cons by simp
    moreover from False have "text_length (g # gs) = Suc (length g + text_length gs)" by (cases gs) auto
    ultimately show ?thesis by simp
  qed simp
qed simp

lemma anchor_length_le: "anchor_length s \<le> length s"
  by (auto simp: anchor_length_def has_drive_def Let_def Suc_le_eq)

lemma path_parent_shorter: "path_parent s = Some q \<Longrightarrow> length q < length s"
proof -
  assume q: "path_parent s = Some q"
  then obtain g gs where r: "rev_segments s = g # gs"
    and q: "q = take (anchor_length s + text_length (skip_junk (is_rooted s) gs)) s"
    by (auto simp: path_parent_def split: list.splits)
  have "text_length gs < text_length (rev (split_by is_sep (drop (anchor_length s) s)))"
    using skip_junk_hd r unfolding rev_segments_def by blast
  also have "\<dots> = length s - anchor_length s" by (simp add: text_length_rev text_length_split)
  finally have "anchor_length s + text_length (skip_junk (is_rooted s) gs) < length s"
    using skip_junk_text [of "is_rooted s" gs] by linarith
  then show ?thesis by (simp add: q)
qed

text \<open>The walk up to the deepest existing ancestor, collecting the missing names.\<close>

function alias_walk :: "('t, 'e) fs_env_scheme \<Rightarrow> string \<Rightarrow> string list \<Rightarrow> (string \<times> string list) option" where
  "alias_walk E cur tail =
     (if symlink_metadata E cur \<noteq> None then Some (cur, tail)
      else (case path_parent cur of
          Some parent \<Rightarrow>
            alias_walk E parent (case path_file_name cur of Some name \<Rightarrow> tail @ [name] | None \<Rightarrow> tail)
        | None \<Rightarrow> None))"
  by pat_completeness auto
termination
  by (relation "measure (\<lambda>(E, cur, tail). length cur)") (auto simp: path_parent_shorter)

declare alias_walk.simps [simp del]

definition root_contains :: "('t, 'e) fs_env_scheme \<Rightarrow> string \<Rightarrow> string \<Rightarrow> bool" where
  "root_contains E root_lower c \<longleftrightarrow>
     path_contained_in c root_lower \<or>
     (case canonical_dos_lower E root_lower of None \<Rightarrow> False | Some rc \<Rightarrow> path_contained_in c rc)"

definition path_aliases_outside_root :: "('t, 'e) fs_env_scheme \<Rightarrow> string \<Rightarrow> string \<Rightarrow> bool" where
  "path_aliases_outside_root E dos_path root_lower =
     (case symlink_metadata E dos_path of
        Some md \<Rightarrow>
          if \<not> md_is_dir md \<and> (case link_count E dos_path of None \<Rightarrow> True | Some n \<Rightarrow> n > 1) then True
          else (case canonical_dos_lower E dos_path of
              None \<Rightarrow> True
            | Some c \<Rightarrow> \<not> root_contains E root_lower c)
      | None \<Rightarrow>
          (case alias_walk E dos_path [] of
             None \<Rightarrow> False
           | Some (cur, tail) \<Rightarrow>
               (case canonical_dos_lower E cur of
                  None \<Rightarrow> True
                | Some anc \<Rightarrow>
                    \<not> root_contains E root_lower (foldl (\<lambda>joined seg. joined @ bslash # seg) anc (rev tail)))))"

section \<open>The cache key\<close>

definition depth_bytes :: "u8 option \<Rightarrow> string" where
  "depth_bytes depth = (case depth of Some d \<Rightarrow> [CHR 0x01, char_of (unat d)] | None \<Rightarrow> [CHR 0x00])"

definition exe_bytes :: "string option \<Rightarrow> string" where
  "exe_bytes exe = (case exe of Some e \<Rightarrow> CHR 0x01 # e | None \<Rightarrow> [CHR 0x00])"

definition cache_key :: "('t, 'e) env_scheme \<Rightarrow> string \<Rightarrow> bool \<Rightarrow> u8 option \<Rightarrow> string option \<Rightarrow> cache_key_t" where
  "cache_key E path write depth exe_lower =
     (let path_hash = xxh3 E (path @ [if write then CHR 0x01 else CHR 0x00]);
          ctx_hash = xxh3 E (depth_bytes depth @ exe_bytes exe_lower)
      in push_bit 64 (ucast path_hash) OR ucast ctx_hash)"

section \<open>The policy object\<close>

text \<open>\<open>children_idx\<close> is the in-memory index over \<^verbatim>\<open>OVERLAY_IDX\<close>: parent to sorted child names.\<close>

record 't policy =
  p_db :: "'t database"
  p_cache :: decision_cache
  p_snapshot :: snapshot
  p_net :: "net_snapshot \<times> nat"
  p_layout :: overlay_layout
  p_mock_root :: string
  p_project_root :: string
  children_idx :: "string \<Rightarrow> string list option"

definition split_parent :: "string \<Rightarrow> string \<times> string" where
  "split_parent key = (case rsplit_once bslash key of Some pn \<Rightarrow> pn | None \<Rightarrow> ([], key))"

text \<open>\<^verbatim>\<open>sort_unstable\<close> and \<^verbatim>\<open>dedup\<close>\<close>

definition sort_dedup :: "string list \<Rightarrow> string list" where
  "sort_dedup xs = remdups_adj (sort xs)"

definition build_children :: "(string \<times> string) list \<Rightarrow> string \<Rightarrow> string list option" where
  "build_children kvs parent =
     (let names = map (snd \<circ> split_parent) (filter (\<lambda>k. fst (split_parent k) = parent) (map fst kvs))
      in if names = [] then None else Some (sort_dedup names))"

definition ensure_tables :: "('t, 'e) env_scheme \<Rightarrow> 't database \<Rightarrow> 't database" where
  "ensure_tables E db =
     foldl (\<lambda>db n. put_table db n (open_w E db n)) db
       [RULES, MOCKS, MOCK_DIRS, OVERLAY_IDX, OVERLAY_MIGRATIONS, WHITEOUTS, REG_RULES, REG_MOCKS, DEV_RULES, NET_RULES]"

text \<open>
  \<^verbatim>\<open>open_or_create_with_layout\<close> on what \<^verbatim>\<open>Database::create\<close> returned: create the tables, load the snapshots,
  rebuild the children index; the cache starts empty.
\<close>

definition open_or_create_with_layout ::
    "('t, 'e) fs_env_scheme \<Rightarrow> policy_error + 't database \<Rightarrow> overlay_layout \<Rightarrow> string \<Rightarrow> string \<Rightarrow> policy_error + 't policy" where
  "open_or_create_with_layout E created layout mock_root project_root =
     (case created of
        Inl e \<Rightarrow> Inl e
      | Inr db0 \<Rightarrow>
          (case write_txn E (\<lambda>db. ((), ensure_tables E db)) db0 of
             (Inl e, db) \<Rightarrow> Inl e
           | (Inr u, db) \<Rightarrow>
               (case snapshot_load E db of
                  Inl e \<Rightarrow> Inl e
                | Inr snap \<Rightarrow>
                    (case net_rule_generation E db of
                       Inl e \<Rightarrow> Inl e
                     | Inr gen \<Rightarrow>
                         (case net_snapshot_load E db gen of
                            Inl e \<Rightarrow> Inl e
                          | Inr net \<Rightarrow>
                              Inr \<lparr>p_db = db, p_cache = Map.empty, p_snapshot = snap, p_net = (net, 0),
                                   p_layout = layout, p_mock_root = mock_root,
                                   p_project_root = ensure_lower E project_root,
                                   children_idx = build_children (table_entries E db OVERLAY_IDX)\<rparr>)))))"

definition open_or_create ::
    "('t, 'e) fs_env_scheme \<Rightarrow> policy_error + 't database \<Rightarrow> string \<Rightarrow> string \<Rightarrow> string \<Rightarrow> policy_error + 't policy" where
  "open_or_create E created sandbox_root mock_root project_root =
     open_or_create_with_layout E created (layout_single sandbox_root) mock_root project_root"

definition refresh_after_mutation :: "('t, 'e) fs_env_scheme \<Rightarrow> 't policy \<Rightarrow> (policy_error + unit) \<times> 't policy" where
  "refresh_after_mutation E p =
     (case snapshot_load E (p_db p) of
        Inl e \<Rightarrow> (Inl e, p)
      | Inr snap \<Rightarrow> (Inr (), p\<lparr>p_snapshot := snap, p_cache := Map.empty\<rparr>))"

definition invalidate_snapshot :: "('t, 'e) fs_env_scheme \<Rightarrow> 't policy \<Rightarrow> (policy_error + unit) \<times> 't policy" where
  "invalidate_snapshot E p = refresh_after_mutation E p"

text \<open>A database write of the policy followed, when it succeeded, by the refresh.\<close>

definition then_refresh ::
    "('t, 'e) fs_env_scheme \<Rightarrow> (policy_error + 'r) \<times> 't database \<Rightarrow> 't policy \<Rightarrow> (policy_error + 'r) \<times> 't policy" where
  "then_refresh E w p =
     (case w of
        (Inl e, db) \<Rightarrow> (Inl e, p\<lparr>p_db := db\<rparr>)
      | (Inr r, db) \<Rightarrow>
          (case refresh_after_mutation E (p\<lparr>p_db := db\<rparr>) of
             (Inl e, p') \<Rightarrow> (Inl e, p')
           | (Inr u, p') \<Rightarrow> (Inr r, p')))"

definition policy_rule_upsert :: "('t, 'e) fs_env_scheme \<Rightarrow> rule_row \<Rightarrow> 't policy \<Rightarrow> (policy_error + unit) \<times> 't policy" where
  "policy_rule_upsert E row p = then_refresh E (rule_upsert E row (p_db p)) p"

definition policy_rule_remove :: "('t, 'e) fs_env_scheme \<Rightarrow> string \<Rightarrow> 't policy \<Rightarrow> (policy_error + bool) \<times> 't policy" where
  "policy_rule_remove E pfx p = then_refresh E (rule_remove_by_prefix E pfx (p_db p)) p"

definition policy_defaults_set ::
    "('t, 'e) fs_env_scheme \<Rightarrow> rule_mode option \<Rightarrow> rule_mode option \<Rightarrow> 't policy \<Rightarrow> (policy_error + unit) \<times> 't policy" where
  "policy_defaults_set E rd wr p = then_refresh E (defaults_set E rd wr (p_db p)) p"

text \<open>\<^verbatim>\<open>load_config\<close> on the parsed configuration (reading and parsing the file are outside).\<close>

definition load_config :: "('t, 'e) fs_env_scheme \<Rightarrow> config \<Rightarrow> 't policy \<Rightarrow> (policy_error + unit) \<times> 't policy" where
  "load_config E cfg p = then_refresh E (apply_config E cfg (p_db p)) p"

definition policy_net_decide ::
    "('t, 'e) fs_env_scheme \<Rightarrow> string \<Rightarrow> u16 \<Rightarrow> 't policy \<Rightarrow> (policy_error + (bool \<times> string option)) \<times> 't policy" where
  "policy_net_decide E host port p =
     (let (r, st) = net_rule_decide E (p_db p) (p_net p) host port in (r, p\<lparr>p_net := st\<rparr>))"

section \<open>compute\<close>

definition plain_decision :: "mode \<Rightarrow> decision" where
  "plain_decision m = \<lparr>d_mode = m, d_overlay = None, d_cow_from = None, d_mock_payload = None\<rparr>"

definition cow_decision :: "string \<Rightarrow> string option \<Rightarrow> decision" where
  "cow_decision ov from = \<lparr>d_mode = Cow, d_overlay = Some ov, d_cow_from = from, d_mock_payload = None\<rparr>"

text \<open>A lookup that treats a failing transaction or a missing table as a miss.\<close>

definition lookup :: "('t, 'e) env_scheme \<Rightarrow> 't database \<Rightarrow> table_name \<Rightarrow> string \<Rightarrow> string option" where
  "lookup E db n k =
     (case read_fault E of
        Some e \<Rightarrow> None
      | None \<Rightarrow> (case open_r db n of Inl e \<Rightarrow> None | Inr t \<Rightarrow> tb_get E t k))"

definition in_project :: "('t, 'e) fs_env_scheme \<Rightarrow> 't policy \<Rightarrow> string \<Rightarrow> bool \<Rightarrow> bool" where
  "in_project E p lower write_access \<longleftrightarrow>
     path_contained_in lower (p_project_root p) \<and>
     (\<not> write_access \<or> \<not> path_aliases_outside_root E lower (p_project_root p))"

definition alive_in_overlay :: "('t, 'e) fs_env_scheme \<Rightarrow> 't policy \<Rightarrow> string \<Rightarrow> bool" where
  "alive_in_overlay E p lower \<longleftrightarrow>
     lookup E (p_db p) OVERLAY_IDX lower \<noteq> None \<or> physical_overlay_path E lower (p_layout p) \<noteq> None"

definition hidden_by_whiteout :: "('t, 'e) fs_env_scheme \<Rightarrow> 't policy \<Rightarrow> string \<Rightarrow> bool" where
  "hidden_by_whiteout E p lower \<longleftrightarrow>
     lookup E (p_db p) WHITEOUTS lower \<noteq> None \<and> \<not> alive_in_overlay E p lower"

definition rule_modes :: "snapshot \<Rightarrow> string \<Rightarrow> u8 option \<Rightarrow> string option \<Rightarrow> rule_mode \<times> rule_mode" where
  "rule_modes snap lower depth exe_lower =
     (case best_rule_match snap lower depth exe_lower of
        Some r \<Rightarrow> (mode_read r, mode_write r)
      | None \<Rightarrow> (RM_Passthrough, RM_Cow))"

definition compute ::
    "('t, 'e) fs_env_scheme \<Rightarrow> 't policy \<Rightarrow> string \<Rightarrow> bool \<Rightarrow> u8 option \<Rightarrow> string option \<Rightarrow> decision" where
  "compute E p dos_path write_access depth exe_lower =
     (let lower = trim_trailing_sep (ensure_lower E dos_path) in
      if in_project E p lower write_access then plain_decision Passthrough
      else if hidden_by_whiteout E p lower then plain_decision Hidden
      else (case find_mock_payload (p_snapshot p) lower of
          Some payload \<Rightarrow>
            \<lparr>d_mode = Mock, d_overlay = Some (mirror_into_overlay_layout lower (p_layout p)), d_cow_from = None,
             d_mock_payload = Some payload\<rparr>
        | None \<Rightarrow>
            if matched_mock_dir (p_snapshot p) lower \<noteq> None
            then cow_decision (mirror_into_overlay lower (p_mock_root p)) None
            else
              (let (mread, mwrite) = rule_modes (p_snapshot p) lower depth exe_lower;
                   effective = (if write_access then mwrite else mread)
               in case effective of
                    RM_Deny \<Rightarrow> plain_decision Deny
                  | RM_Passthrough \<Rightarrow>
                      if write_access then plain_decision Passthrough
                      else (case lookup E (p_db p) OVERLAY_IDX lower of
                          Some ov \<Rightarrow> cow_decision ov None
                        | None \<Rightarrow>
                            (case physical_overlay_path E lower (p_layout p) of
                               Some ov \<Rightarrow> cow_decision ov None
                             | None \<Rightarrow> plain_decision Passthrough))
                  | _ \<Rightarrow>
                      (case lookup E (p_db p) OVERLAY_IDX lower of
                         Some ov \<Rightarrow> cow_decision ov None
                       | None \<Rightarrow>
                           cow_decision (mirror_into_overlay_layout lower (p_layout p))
                             (if write_access \<and> path_is_plain_file E dos_path then Some dos_path else None)))))"

definition decide_with_context ::
    "('t, 'e) fs_env_scheme \<Rightarrow> 't policy \<Rightarrow> string \<Rightarrow> bool \<Rightarrow> u8 option \<Rightarrow> string option \<Rightarrow> decision \<times> 't policy" where
  "decide_with_context E p dos_path write_access depth exe_lower =
     (let folded = fold_dos_dots (ensure_lower E dos_path);
          key = cache_key E folded write_access depth exe_lower
      in case p_cache p key of
           Some d \<Rightarrow> (d, p)
         | None \<Rightarrow>
             (let d = compute E p folded write_access depth exe_lower
              in (d, p\<lparr>p_cache := cache_store E (p_cache p) key d\<rparr>)))"

definition decide :: "('t, 'e) fs_env_scheme \<Rightarrow> 't policy \<Rightarrow> string \<Rightarrow> bool \<Rightarrow> decision \<times> 't policy" where
  "decide E p dos_path write_access = decide_with_context E p dos_path write_access None None"

end
