(* ===== verification/Overlay.thy ===== *)
theory Overlay
  imports Policy
begin

text \<open>
  The overlay bookkeeping of \<^verbatim>\<open>decide/overlay.rs\<close> and the migrations of \<^verbatim>\<open>decide/mod.rs\<close>: overlay index and
  children index, whiteouts, server-side validation of guest requests, enumeration, and the traced
  decision behind \<^verbatim>\<open>why\<close>.
\<close>

section \<open>The overlay index\<close>

text \<open>Every mutating method commits one write transaction, then clears the decision cache.\<close>

definition commit_policy ::
    "('t, 'e) fs_env_scheme \<Rightarrow> ('t database \<Rightarrow> 'r \<times> 't database) \<Rightarrow> ('t policy \<Rightarrow> 't policy) \<Rightarrow> 't policy \<Rightarrow> (policy_error + 'r) \<times> 't policy" where
  "commit_policy E f after p =
     (case write_txn E f (p_db p) of
        (Inl e, db) \<Rightarrow> (Inl e, p)
      | (Inr r, db) \<Rightarrow> (Inr r, after (p\<lparr>p_db := db, p_cache := Map.empty\<rparr>)))"

definition index_key :: "'a platform_scheme \<Rightarrow> string \<Rightarrow> string" where
  "index_key pf path = trim_trailing_sep (ensure_lower pf path)"

text \<open>\<^verbatim>\<open>binary_search_by\<close> on a sorted vector: insert at the position found, unless present.\<close>

definition insert_child :: "string \<Rightarrow> string list \<Rightarrow> string list" where
  "insert_child name children = (if name \<in> set children then children else insort name children)"

definition index_add :: "string \<Rightarrow> (string \<Rightarrow> string list option) \<Rightarrow> string \<Rightarrow> string list option" where
  "index_add key idx =
     (let (parent, name) = split_parent key
      in idx(parent \<mapsto> insert_child name (unwrap_or (idx parent) [])))"

definition index_drop :: "string \<Rightarrow> (string \<Rightarrow> string list option) \<Rightarrow> string \<Rightarrow> string list option" where
  "index_drop key idx =
     (let (parent, name) = split_parent key in
      case idx parent of
        None \<Rightarrow> idx
      | Some children \<Rightarrow>
          (let rest = remove1 name children
           in if rest = [] then idx(parent := None) else idx(parent \<mapsto> rest)))"

definition record_overlay :: "('t, 'e) fs_env_scheme \<Rightarrow> string \<Rightarrow> string \<Rightarrow> 't policy \<Rightarrow> (policy_error + unit) \<times> 't policy" where
  "record_overlay E orig overlay p =
     (let key = index_key E orig
      in commit_policy E (insert_op E OVERLAY_IDX key overlay)
           (\<lambda>p. p\<lparr>children_idx := index_add key (children_idx p)\<rparr>) p)"

definition clear_overlay :: "('t, 'e) fs_env_scheme \<Rightarrow> string \<Rightarrow> 't policy \<Rightarrow> (policy_error + unit) \<times> 't policy" where
  "clear_overlay E path p =
     (let key = index_key E path
      in commit_policy E (\<lambda>db. ((), snd (remove_op E OVERLAY_IDX key db)))
           (\<lambda>p. p\<lparr>children_idx := index_drop key (children_idx p)\<rparr>) p)"

definition validate_record_overlay :: "('t, 'e) fs_env_scheme \<Rightarrow> 't policy \<Rightarrow> string \<Rightarrow> string \<Rightarrow> bool" where
  "validate_record_overlay E p orig overlay =
     (let guest_trim = trim_trailing_sep (ensure_lower E overlay) in
      if guest_trim = [] then False
      else if has_dot_segment guest_trim then False
      else
        (let roots = map (\<lambda>(d, r). trim_trailing_sep (ensure_lower E r)) (all_roots (p_layout p))
               @ [trim_trailing_sep (ensure_lower E (p_mock_root p))] in
         if \<not> list_ex (\<lambda>root. root \<noteq> [] \<and> path_contained_in guest_trim root) roots then False
         else
           (let key = index_key E orig;
                mirrors = [mirror_into_overlay_layout key (p_layout p), mirror_into_overlay key (p_mock_root p)]
            in list_ex (\<lambda>m. guest_trim = trim_trailing_sep (ensure_lower E m)) mirrors)))"

text \<open>Recording the case of a name: failures are dropped, the cache is not touched.\<close>

definition record_overlay_case :: "('t, 'e) fs_env_scheme \<Rightarrow> string \<Rightarrow> string \<Rightarrow> 't policy \<Rightarrow> 't policy" where
  "record_overlay_case E lower_path original_basename p =
     (if original_basename = [] then p
      else if nt_case_fold E original_basename = original_basename then p
      else p\<lparr>p_db := snd (write_txn E (insert_op E OVERLAY_CASE (trim_trailing_sep lower_path) original_basename) (p_db p))\<rparr>)"

section \<open>Enumeration\<close>

text \<open>
  The scans over \<^verbatim>\<open>range(prefix..)\<close>: stop at the first key without the prefix, skip keys of deeper
  directories.
\<close>

fun scan_children :: "string \<Rightarrow> (string \<times> string) list \<Rightarrow> (string \<times> string) list" where
  "scan_children pfx [] = []"
| "scan_children pfx ((key, v) # rest) =
     (case strip_prefix pfx key of
        None \<Rightarrow> []
      | Some name \<Rightarrow> if bslash \<in> set name then scan_children pfx rest else (name, v) # scan_children pfx rest)"

definition dir_prefix :: "'a platform_scheme \<Rightarrow> string \<Rightarrow> string option" where
  "dir_prefix pf dir =
     (let dir_trimmed = trim_end_matches (\<lambda>c. c = bslash) (ensure_lower pf dir)
      in if dir_trimmed = [] then None else Some (dir_trimmed @ [bslash]))"

definition range_entries :: "('t, 'e) env_scheme \<Rightarrow> 't database \<Rightarrow> table_name \<Rightarrow> string \<Rightarrow> (string \<times> string) list" where
  "range_entries E db n from =
     (case read_fault E of
        Some e \<Rightarrow> []
      | None \<Rightarrow> (case open_r db n of Inl e \<Rightarrow> [] | Inr t \<Rightarrow> tb_range_from E t from))"

definition overlay_children_with_case :: "('t, 'e) fs_env_scheme \<Rightarrow> 't policy \<Rightarrow> string \<Rightarrow> (string \<times> string) list" where
  "overlay_children_with_case E p dir =
     (case dir_prefix E dir of
        None \<Rightarrow> []
      | Some pfx \<Rightarrow> scan_children pfx (range_entries E (p_db p) OVERLAY_CASE pfx))"

record overlay_child =
  oc_name :: string
  oc_stat :: file_stat

definition overlay_children :: "('t, 'e) fs_env_scheme \<Rightarrow> 't policy \<Rightarrow> string \<Rightarrow> overlay_child list" where
  "overlay_children E p dir =
     (let dir_trimmed = trim_end_matches (\<lambda>c. c = bslash) (ensure_lower E dir) in
      if dir_trimmed = [] then []
      else List.map_filter
        (\<lambda>name.
           (let key = dir_trimmed @ bslash # name in
            case lookup E (p_db p) OVERLAY_IDX key of
              None \<Rightarrow> None
            | Some overlay_phys \<Rightarrow>
                Some \<lparr>oc_name = unwrap_or (lookup E (p_db p) OVERLAY_CASE key) name,
                      oc_stat = stat_overlay_phys E overlay_phys\<rparr>))
        (unwrap_or (children_idx p dir_trimmed) []))"

section \<open>Whiteouts\<close>

definition record_whiteout :: "('t, 'e) fs_env_scheme \<Rightarrow> string \<Rightarrow> 't policy \<Rightarrow> (policy_error + unit) \<times> 't policy" where
  "record_whiteout E path p = commit_policy E (insert_op E WHITEOUTS (index_key E path) []) id p"

definition clear_whiteout_body :: "('t, 'e) env_scheme \<Rightarrow> string \<Rightarrow> 't database \<Rightarrow> unit \<times> 't database" where
  "clear_whiteout_body E lower db =
     (let t = fst (tb_remove E (open_w E db WHITEOUTS) lower);
          pfx = lower @ [bslash];
          child_keys = takeWhile (\<lambda>k. starts_with k pfx) (map fst (tb_range_from E t pfx))
      in ((), put_table db WHITEOUTS (remove_keys E t child_keys)))"

definition clear_whiteout :: "('t, 'e) fs_env_scheme \<Rightarrow> string \<Rightarrow> 't policy \<Rightarrow> (policy_error + unit) \<times> 't policy" where
  "clear_whiteout E path p = commit_policy E (clear_whiteout_body E (index_key E path)) id p"

definition is_whiteouted :: "('t, 'e) fs_env_scheme \<Rightarrow> 't policy \<Rightarrow> string \<Rightarrow> bool" where
  "is_whiteouted E p path \<longleftrightarrow> lookup E (p_db p) WHITEOUTS (index_key E path) \<noteq> None"

definition has_overlay :: "('t, 'e) fs_env_scheme \<Rightarrow> 't policy \<Rightarrow> string \<Rightarrow> bool" where
  "has_overlay E p lower \<longleftrightarrow> lookup E (p_db p) OVERLAY_IDX lower \<noteq> None"

definition whiteouts_under :: "('t, 'e) fs_env_scheme \<Rightarrow> 't policy \<Rightarrow> string \<Rightarrow> string list" where
  "whiteouts_under E p dir =
     (case dir_prefix E dir of
        None \<Rightarrow> []
      | Some pfx \<Rightarrow>
          filter (\<lambda>name. \<not> alive_in_overlay E p (pfx @ name))
            (map fst (scan_children pfx (range_entries E (p_db p) WHITEOUTS pfx))))"

section \<open>Moving an overlay root\<close>

definition strip_root_prefix :: "string \<Rightarrow> string \<Rightarrow> string option" where
  "strip_root_prefix val root_lower =
     (if length val < length root_lower then None
      else if \<not> eq_ignore_ascii_case (take (length root_lower) val) root_lower then None
      else (let rest = drop (length root_lower) val
            in if rest = [] \<or> hd rest = bslash then Some rest else None))"

definition rebase_updates :: "string \<Rightarrow> string \<Rightarrow> (string \<times> string) list \<Rightarrow> (string \<times> string) list" where
  "rebase_updates old_lower new rows =
     List.map_filter (\<lambda>(k, v). map_option (\<lambda>rest. (k, new @ rest)) (strip_root_prefix v old_lower)) rows"

definition rebase_body :: "('t, 'e) env_scheme \<Rightarrow> string \<Rightarrow> string \<Rightarrow> 't database \<Rightarrow> nat \<times> 't database" where
  "rebase_body E old_lower new db =
     (let t = open_w E db OVERLAY_IDX; updates = rebase_updates old_lower new (tb_iter E t)
      in (length updates, put_table db OVERLAY_IDX (foldl (\<lambda>t (k, v). tb_insert E t k v) t updates)))"

text \<open>The rebase clears the cache only when it rewrote something.\<close>

definition commit_rebase ::
    "('t, 'e) fs_env_scheme \<Rightarrow> ('t database \<Rightarrow> nat \<times> 't database) \<Rightarrow> 't policy \<Rightarrow> (policy_error + nat) \<times> 't policy" where
  "commit_rebase E f p =
     (case write_txn E f (p_db p) of
        (Inl e, db) \<Rightarrow> (Inl e, p)
      | (Inr n, db) \<Rightarrow> (Inr n, if n > 0 then p\<lparr>p_db := db, p_cache := Map.empty\<rparr> else p\<lparr>p_db := db\<rparr>))"

definition rebase_overlay_root :: "('t, 'e) fs_env_scheme \<Rightarrow> string \<Rightarrow> string \<Rightarrow> 't policy \<Rightarrow> (policy_error + nat) \<times> 't policy" where
  "rebase_overlay_root E old_root new_root p =
     (let old_lower = to_ascii_lowercase (trim_end_matches (\<lambda>c. c = bslash) old_root);
          new = trim_end_matches (\<lambda>c. c = bslash) new_root
      in if old_lower = [] \<or> old_lower = to_ascii_lowercase new then (Inr 0, p)
         else commit_rebase E (rebase_body E old_lower new) p)"

definition migration_marker :: string where
  "migration_marker = ''legacy-c-overlay-s07-v1''"

definition rebase_legacy_c_overlay_and_mark_complete ::
    "('t, 'e) fs_env_scheme \<Rightarrow> string \<Rightarrow> string \<Rightarrow> 't policy \<Rightarrow> (policy_error + nat) \<times> 't policy" where
  "rebase_legacy_c_overlay_and_mark_complete E old_root new_root p =
     (let old_lower = to_ascii_lowercase (trim_end_matches (\<lambda>c. c = bslash) old_root);
          new = trim_end_matches (\<lambda>c. c = bslash) new_root
      in commit_rebase E (\<lambda>db. let (n, db') = rebase_body E old_lower new db
           in (n, snd (insert_op E OVERLAY_MIGRATIONS migration_marker new db'))) p)"

definition legacy_c_overlay_migration_complete ::
    "('t, 'e) fs_env_scheme \<Rightarrow> 't policy \<Rightarrow> string \<Rightarrow> policy_error + bool" where
  "legacy_c_overlay_migration_complete E p new_root =
     read_txn E (\<lambda>db. case open_r db OVERLAY_MIGRATIONS of
        Inl e \<Rightarrow> Inl e
      | Inr t \<Rightarrow>
          (case tb_get E t migration_marker of
             None \<Rightarrow> Inr False
           | Some v \<Rightarrow> Inr (nt_case_fold E v = nt_case_fold E new_root))) (p_db p)"

definition overlay_values_under_root :: "('t, 'e) fs_env_scheme \<Rightarrow> 't policy \<Rightarrow> string \<Rightarrow> policy_error + string list" where
  "overlay_values_under_root E p root =
     (let root_lower = to_ascii_lowercase (trim_end_matches (\<lambda>c. c = bslash) root) in
      if root_lower = [] then Inr []
      else list_op E OVERLAY_IDX
        (\<lambda>kvs. filter (\<lambda>v. strip_root_prefix v root_lower \<noteq> None) (map snd kvs)) (p_db p))"

section \<open>The traced decision\<close>

fun show_nat :: "nat \<Rightarrow> string" where
  "show_nat n = (if n < 10 then [char_of (48 + n)] else show_nat (n div 10) @ [char_of (48 + n mod 10)])"

datatype verdict = Match nat | Skip string

record considered_rule =
  co_id :: string
  co_prefix :: string
  co_verdict :: verdict

record traced_decision =
  td_decision :: rule_mode
  td_target :: "string option"
  td_rule_id :: "string option"
  td_rule_prefix :: "string option"
  td_mock_match :: "string option"
  td_mockdir_match :: "string option"
  td_chain :: "considered_rule list"

definition simple_trace :: "rule_mode \<Rightarrow> string option \<Rightarrow> string option \<Rightarrow> traced_decision" where
  "simple_trace m target rid =
     \<lparr>td_decision = m, td_target = target, td_rule_id = rid, td_rule_prefix = None, td_mock_match = None,
      td_mockdir_match = None, td_chain = []\<rparr>"

definition depth_shortfall :: "u8 option \<Rightarrow> when_filter \<Rightarrow> u8 option" where
  "depth_shortfall depth w =
     (case (depth, when_depth w) of (Some d, Some m) \<Rightarrow> if d < m then Some m else None | _ \<Rightarrow> None)"

text \<open>The verdict on one explicit rule, in the order of the code: prefix, depth, executable, then the score.\<close>

definition rule_verdict ::
    "('t, 'e) env_scheme \<Rightarrow> string \<Rightarrow> u8 option \<Rightarrow> string option \<Rightarrow> string \<Rightarrow> rule_row \<Rightarrow> verdict" where
  "rule_verdict E lower depth exe_lower pattern row =
     (if \<not> pattern_matches_prefix pattern lower then Skip ''prefix mismatch''
      else (case Option.bind (row_when row) (depth_shortfall depth) of
          Some min_depth \<Rightarrow> Skip (''depth filter: need >= '' @ show_nat (unat min_depth))
        | None \<Rightarrow>
      if (case row_when row of
           None \<Rightarrow> False
         | Some w \<Rightarrow> (case when_exe w of
              None \<Rightarrow> False
            | Some pat \<Rightarrow> (case exe_lower of None \<Rightarrow> True | Some e \<Rightarrow> \<not> pattern_matches_exact (ensure_lower E pat) e)))
      then Skip ''exe filter mismatch''
      else Match (rule_spec pattern row)))"

text \<open>One turn of the rule loop: the state is the chain, the best rule with its prefix, and the default row.\<close>

definition trace_step ::
    "('t, 'e) env_scheme \<Rightarrow> string \<Rightarrow> u8 option \<Rightarrow> string option
     \<Rightarrow> considered_rule list \<times> (nat \<times> string \<times> rule_row) option \<times> rule_row option \<Rightarrow> string \<times> string
     \<Rightarrow> considered_rule list \<times> (nat \<times> string \<times> rule_row) option \<times> rule_row option" where
  "trace_step E lower depth exe_lower st entry =
     (let (chain, best, default_r) = st; (pattern, value) = entry in
      if pattern = [] then (chain, best, rule_decode E value)
      else (case rule_decode E value of
          None \<Rightarrow> st
        | Some row \<Rightarrow>
            (let v = rule_verdict E lower depth exe_lower pattern row;
                 chain' = chain @ [\<lparr>co_id = row_id row, co_prefix = pattern, co_verdict = v\<rparr>]
             in case v of
                  Skip reason \<Rightarrow> (chain', best, default_r)
                | Match spec \<Rightarrow> (chain', keep_better best spec (pattern, row), default_r))))"

text \<open>The rule loop and what follows it, on the opened rules table.\<close>

definition traced_by_rules ::
    "('t, 'e) fs_env_scheme \<Rightarrow> 't policy \<Rightarrow> string \<Rightarrow> bool \<Rightarrow> u8 option \<Rightarrow> string option \<Rightarrow> 't \<Rightarrow> traced_decision" where
  "traced_by_rules E p lower write_access depth exe_lower table =
     (let (chain, best, default_r) =
            foldl (trace_step E lower depth exe_lower) ([], None, None) (tb_iter E table);
          matched = (case best of Some (s, k, r) \<Rightarrow> Some r | None \<Rightarrow> default_r);
          (m, rid, rpfx) = (case matched of
              Some row \<Rightarrow>
                (if write_access then mode_write row else mode_read row, Some (row_id row),
                 Some (case best of Some (s, k, r) \<Rightarrow> k | None \<Rightarrow> []))
            | None \<Rightarrow> (if write_access then RM_Cow else RM_Passthrough, None, None));
          target = (case m of
              RM_Deny \<Rightarrow> None | RM_Passthrough \<Rightarrow> None
            | _ \<Rightarrow> Some (mirror_into_overlay_layout lower (p_layout p)));
          (m', target') =
            (if m = RM_Passthrough \<and> \<not> write_access then
               (case lookup E (p_db p) OVERLAY_IDX lower of
                  Some ov \<Rightarrow> (RM_Cow, Some ov)
                | None \<Rightarrow>
                    (case physical_overlay_path E lower (p_layout p) of
                       Some ov \<Rightarrow> (RM_Cow, Some ov)
                     | None \<Rightarrow> (m, target)))
             else (m, target))
      in \<lparr>td_decision = m', td_target = target', td_rule_id = rid, td_rule_prefix = rpfx,
          td_mock_match = None, td_mockdir_match = None, td_chain = chain\<rparr>)"

definition decide_traced ::
    "('t, 'e) fs_env_scheme \<Rightarrow> 't policy \<Rightarrow> string \<Rightarrow> bool \<Rightarrow> u8 option \<Rightarrow> string option \<Rightarrow> traced_decision" where
  "decide_traced E p dos_path write_access depth exe_lower =
     (let lower = fold_dos_dots (trim_trailing_sep (ensure_lower E dos_path)) in
      if in_project E p lower write_access then simple_trace RM_Passthrough None None
      else if is_whiteouted E p lower \<and>
          \<not> (has_overlay E p lower \<or> physical_overlay_path E lower (p_layout p) \<noteq> None)
      then simple_trace RM_Passthrough None (Some ''whiteout'')
      else if read_fault E \<noteq> None then simple_trace RM_Passthrough None None
      else (case db_find_mock_payload E (p_db p) lower of
          Some payload \<Rightarrow>
            (simple_trace RM_Cow (Some (mirror_into_overlay_layout lower (p_layout p))) None)\<lparr>td_mock_match := Some lower\<rparr>
        | None \<Rightarrow>
            (case db_matched_mock_dir E (p_db p) lower of
               Some m \<Rightarrow>
                 (simple_trace RM_Cow (Some (mirror_into_overlay lower (p_mock_root p))) None)\<lparr>td_mockdir_match := Some m\<rparr>
             | None \<Rightarrow>
                 (case open_r (p_db p) RULES of
                    Inl e \<Rightarrow> simple_trace RM_Passthrough None None
                  | Inr table \<Rightarrow>
                      traced_by_rules E p lower write_access depth exe_lower table))))"

end
