(* ===== verification/Isolation.thy ===== *)
theory Isolation
  imports Overlay
begin

text \<open>
  What one decision guarantees: where writes can go, that a recorded overlay file is found again, that whiteouts
  hide and revive, that enumeration and the traced decision agree with \<open>compute\<close>, and that a guest
  cannot register a destination the sandbox would not have chosen.
\<close>

section \<open>Lookups and the tables\<close>

lemma lookup_view: "lookup E db n k = (if read_fault E = None then tview E db n k else None)"
  by (simp add: lookup_def open_r_def tview_def split: option.splits)

lemma commit_policy_cases:
  "commit_policy E f after p = (Inr r, p') \<longleftrightarrow>
     write_fault E = None \<and> fst (f (p_db p)) = r \<and> p' = after (p\<lparr>p_db := snd (f (p_db p)), p_cache := Map.empty\<rparr>)"
  "commit_policy E f after p = (Inl e, p') \<longleftrightarrow> write_fault E = Some e \<and> p' = p"
  by (auto simp: commit_policy_def write_txn_def split: option.splits prod.splits)

lemma record_overlay_ok:
  assumes "redb_lawful E" and "record_overlay E orig ov p = (Inr (), p')"
  shows "tview E (p_db p') = abs_put (tview E (p_db p)) OVERLAY_IDX (index_key E orig) (Some ov)"
    "p' = p\<lparr>p_db := p_db p', p_cache := Map.empty, children_idx := index_add (index_key E orig) (children_idx p)\<rparr>"
  using assms by (auto simp: record_overlay_def commit_policy_cases Let_def insert_op_view)

lemma record_whiteout_ok:
  assumes "redb_lawful E" and "record_whiteout E path p = (Inr (), p')"
  shows "tview E (p_db p') = abs_put (tview E (p_db p)) WHITEOUTS (index_key E path) (Some [])"
    "p' = p\<lparr>p_db := p_db p', p_cache := Map.empty\<rparr>"
  using assms by (auto simp: record_whiteout_def commit_policy_cases insert_op_view)

lemma clear_overlay_ok:
  assumes "redb_lawful E" and "clear_overlay E path p = (Inr (), p')"
  shows "tview E (p_db p') = abs_put (tview E (p_db p)) OVERLAY_IDX (index_key E path) None"
    "p' = p\<lparr>p_db := p_db p', p_cache := Map.empty, children_idx := index_drop (index_key E path) (children_idx p)\<rparr>"
  using assms by (auto simp: clear_overlay_def commit_policy_cases Let_def remove_op_view)

section \<open>Keys with a common prefix are contiguous\<close>

lemma prefix_between:
  fixes p a b :: string
  assumes "p \<le> a" and "a \<le> b" and "prefix p b"
  shows "prefix p a"
  using assms
proof (induction p arbitrary: a b)
  case (Cons c p)
  from Cons.prems(3) obtain b' where b: "b = c # b'" "prefix p b'" by (cases b) auto
  from Cons.prems(1) obtain d a' where a: "a = d # a'" by (cases a) auto
  from Cons.prems(1) a have "c < d \<or> c = d \<and> p \<le> a'" by simp
  moreover from Cons.prems(2) a b have "d < c \<or> d = c \<and> a' \<le> b'" by simp
  ultimately have "c = d" "p \<le> a'" "a' \<le> b'" by auto
  with Cons.IH b a show ?case by auto
qed simp

lemma le_append: "(p :: string) \<le> p @ s"
  by (induction p) auto

lemma prefix_le: "prefix p (a :: string) \<Longrightarrow> p \<le> a"
  by (auto simp: prefix_def le_append)

lemma takeWhile_prefix_filter:
  assumes "sorted_wrt (<) ks" and "\<forall>k\<in>set ks. p \<le> (k :: string)"
  shows "takeWhile (\<lambda>k. prefix p k) ks = filter (\<lambda>k. prefix p k) ks"
  using assms
proof (induction ks)
  case (Cons k ks)
  show ?case
  proof (cases "prefix p k")
    case True
    with Cons show ?thesis by simp
  next
    case False
    have "\<not> prefix p k'" if "k' \<in> set ks" for k'
    proof -
      have "k \<le> k'" using Cons.prems that by auto
      with False prefix_between [of p k k'] Cons.prems show ?thesis by auto
    qed
    with False show ?thesis by (simp add: filter_empty_conv)
  qed
qed simp

lemma scan_children_filter:
  assumes "sorted_wrt (<) (map fst kvs)" and "\<forall>(k, v)\<in>set kvs. p \<le> k"
  shows "set (scan_children p kvs) = {(name, v). (p @ name, v) \<in> set kvs \<and> bslash \<notin> set name}"
  using assms
proof (induction p kvs rule: scan_children.induct)
  case (2 pfx key v rest)
  show ?case
  proof (cases "strip_prefix pfx key")
    case None
    then have np: "\<not> prefix pfx key" by (auto simp: prefix_def)
    have "(pfx @ name, v') \<notin> set rest" for name v'
    proof
      assume mem: "(pfx @ name, v') \<in> set rest"
      with 2(3) have "key < pfx @ name" by force
      moreover from 2(4) have "pfx \<le> key" by simp
      ultimately show False using np prefix_between [of pfx key "pfx @ name"] by simp
    qed
    moreover have "pfx @ name \<noteq> key" for name using np by auto
    ultimately show ?thesis using None by auto
  next
    case (Some name)
    then have key: "key = pfx @ name" by (simp add: strip_prefix_Some)
    have IH: "set (scan_children pfx rest) = {(name, v). (pfx @ name, v) \<in> set rest \<and> bslash \<notin> set name}"
      using 2 Some by (cases "bslash \<in> set name") auto
    from Some IH key show ?thesis by auto
  qed
qed simp

lemma range_entries_view:
  assumes "redb_lawful E" and "read_fault E = None"
  shows "sorted_wrt (<) (map fst (range_entries E db n from))" "\<forall>(k, v)\<in>set (range_entries E db n from). from \<le> k"
    "(k, v) \<in> set (range_entries E db n from) \<longleftrightarrow> tview E db n k = Some v \<and> from \<le> k"
proof -
  have r: "range_entries E db n from = filter (\<lambda>(k', v). from \<le> k') (tentries E db n)"
    using assms by (auto simp: range_entries_def open_r_def tentries_def redb_laws(7) split: option.splits)
  have "sorted_wrt (<) (map fst (tentries E db n))" using tentries_view(2) [OF assms(1)] .
  then show "sorted_wrt (<) (map fst (range_entries E db n from))"
    unfolding r by (metis (no_types, lifting) sorted_wrt_filter sorted_wrt_map)
  show "\<forall>(k, v)\<in>set (range_entries E db n from). from \<le> k" by (auto simp: r)
  show "(k, v) \<in> set (range_entries E db n from) \<longleftrightarrow> tview E db n k = Some v \<and> from \<le> k"
    using tentries_view(4) [OF assms(1)] by (auto simp: r)
qed

lemma scan_range:
  assumes "redb_lawful E" and "read_fault E = None"
  shows "(name, v) \<in> set (scan_children pfx (range_entries E db n pfx)) \<longleftrightarrow>
    tview E db n (pfx @ name) = Some v \<and> bslash \<notin> set name"
  using scan_children_filter [OF range_entries_view(1,2) [OF assms]] range_entries_view(3) [OF assms]
  by (auto simp: prefix_le)

section \<open>Whiteouts\<close>

lemma clear_whiteout_view:
  assumes "redb_lawful E"
  shows "tview E (snd (clear_whiteout_body E lower db)) =
    (tview E db)(WHITEOUTS := \<lambda>k. if k = lower \<or> prefix (lower @ [bslash]) k then None else tview E db WHITEOUTS k)"
proof -
  define t where "t = fst (tb_remove E (open_w E db WHITEOUTS) lower)"
  define pfx where "pfx = lower @ [bslash]"
  define ks where "ks = map fst (tb_range_from E t pfx)"
  have get: "tb_get E t = (tview E db WHITEOUTS)(lower := None)"
    using assms by (simp add: t_def redb)
  have srt: "sorted_wrt (<) ks"
    using redb_laws(5) [OF assms, of t] unfolding ks_def redb_laws(7) [OF assms]
    by (metis (no_types, lifting) sorted_wrt_filter sorted_wrt_map)
  have ge: "\<forall>k\<in>set ks. pfx \<le> k" using assms by (auto simp: ks_def redb_laws(7))
  have mem: "k \<in> set ks \<longleftrightarrow> tb_get E t k \<noteq> None \<and> pfx \<le> k" for k
    using iter_keys [OF assms, of k t] by (force simp: ks_def redb_laws(7) [OF assms])
  have "tb_get E (remove_keys E t (takeWhile (\<lambda>k. starts_with k pfx) ks)) =
      (\<lambda>k. if k = lower \<or> prefix pfx k then None else tview E db WHITEOUTS k)"
  proof -
    have "takeWhile (\<lambda>k. starts_with k pfx) ks = filter (\<lambda>k. prefix pfx k) ks"
      unfolding starts_with_prefix by (rule takeWhile_prefix_filter [OF srt ge])
    then show ?thesis
      using assms mem by (auto simp: redb get fun_eq_iff prefix_le)
  qed
  then show ?thesis
    by (simp add: clear_whiteout_body_def Let_def redb t_def [symmetric] pfx_def [symmetric] ks_def [symmetric])
qed

lemma clear_whiteout_ok:
  assumes "redb_lawful E" and "clear_whiteout E path p = (Inr (), p')"
  shows "tview E (p_db p') = (tview E (p_db p))(WHITEOUTS := \<lambda>k.
      if k = index_key E path \<or> prefix (index_key E path @ [bslash]) k then None else tview E (p_db p) WHITEOUTS k)"
    "p' = p\<lparr>p_db := p_db p', p_cache := Map.empty\<rparr>"
  using assms by (auto simp: clear_whiteout_def commit_policy_cases clear_whiteout_view)

lemma whiteouts_under_mem:
  assumes "redb_lawful E" and "dir_prefix E dir = Some pfx"
  shows "name \<in> set (whiteouts_under E p dir) \<longleftrightarrow> bslash \<notin> set name \<and> hidden_by_whiteout E p (pfx @ name)"
proof (cases "read_fault E")
  case None
  have "name \<in> fst ` set (scan_children pfx (range_entries E (p_db p) WHITEOUTS pfx)) \<longleftrightarrow>
      (\<exists>v. (name, v) \<in> set (scan_children pfx (range_entries E (p_db p) WHITEOUTS pfx)))"
    by force
  also have "\<dots> \<longleftrightarrow> tview E (p_db p) WHITEOUTS (pfx @ name) \<noteq> None \<and> bslash \<notin> set name"
    using scan_range [OF assms(1) None] by auto
  finally show ?thesis using assms(2) None
    by (simp add: whiteouts_under_def hidden_by_whiteout_def lookup_view) blast
next
  case (Some e)
  then show ?thesis using assms(2)
    by (simp add: whiteouts_under_def hidden_by_whiteout_def lookup_view range_entries_def)
qed

section \<open>The modes of compute\<close>

lemmas compute_parts = plain_decision_def cow_decision_def

lemma compute_cases:
  fixes E :: "('t, 'e) fs_env_scheme"
  defines "lower \<equiv> \<lambda>path. index_key (E :: ('t, 'e) fs_env_scheme) path"
  obtains (project) "in_project E p (lower path) w" "compute E p path w d e = plain_decision Passthrough"
  | (hidden) "\<not> in_project E p (lower path) w" "hidden_by_whiteout E p (lower path)" "compute E p path w d e = plain_decision Hidden"
  | (mock) payload where "\<not> in_project E p (lower path) w" "\<not> hidden_by_whiteout E p (lower path)"
      "find_mock_payload (p_snapshot p) (lower path) = Some payload" "d_mode (compute E p path w d e) = Mock"
      "d_overlay (compute E p path w d e) = Some (mirror_into_overlay_layout (lower path) (p_layout p))"
  | (mockdir) "\<not> in_project E p (lower path) w" "\<not> hidden_by_whiteout E p (lower path)"
      "find_mock_payload (p_snapshot p) (lower path) = None" "matched_mock_dir (p_snapshot p) (lower path) \<noteq> None"
      "compute E p path w d e = cow_decision (mirror_into_overlay (lower path) (p_mock_root p)) None"
  | (ruled) m where "\<not> in_project E p (lower path) w" "\<not> hidden_by_whiteout E p (lower path)"
      "find_mock_payload (p_snapshot p) (lower path) = None" "matched_mock_dir (p_snapshot p) (lower path) = None"
      "m = (if w then snd else fst) (rule_modes (p_snapshot p) (lower path) d e)"
      "compute E p path w d e =
        (case m of
           RM_Deny \<Rightarrow> plain_decision Deny
         | RM_Passthrough \<Rightarrow>
             if w then plain_decision Passthrough
             else (case lookup E (p_db p) OVERLAY_IDX (lower path) of
                 Some ov \<Rightarrow> cow_decision ov None
               | None \<Rightarrow> (case physical_overlay_path E (lower path) (p_layout p) of
                    Some ov \<Rightarrow> cow_decision ov None | None \<Rightarrow> plain_decision Passthrough))
         | _ \<Rightarrow> (case lookup E (p_db p) OVERLAY_IDX (lower path) of
               Some ov \<Rightarrow> cow_decision ov None
             | None \<Rightarrow> cow_decision (mirror_into_overlay_layout (lower path) (p_layout p))
                 (if w \<and> path_is_plain_file E path then Some path else None)))"
proof -
  have l: "trim_trailing_sep (ensure_lower E path) = lower path" by (simp add: lower_def index_key_def)
  show ?thesis
  proof (cases "in_project E p (lower path) w")
    case True
    with project show ?thesis by (simp add: compute_def l)
  next
    case np: False
    show ?thesis
    proof (cases "hidden_by_whiteout E p (lower path)")
      case True
      with np hidden show ?thesis by (simp add: compute_def l)
    next
      case nh: False
      show ?thesis
      proof (cases "find_mock_payload (p_snapshot p) (lower path)")
        case (Some payload)
        with np nh mock show ?thesis by (simp add: compute_def l)
      next
        case nm: None
        show ?thesis
        proof (cases "matched_mock_dir (p_snapshot p) (lower path)")
          case (Some dir)
          with np nh nm mockdir show ?thesis by (simp add: compute_def l)
        next
          case None
          show ?thesis
            by (rule ruled [OF np nh nm None refl])
              (simp add: compute_def l np nh nm None Let_def case_prod_beta split: rule_mode.splits)
        qed
      qed
    qed
  qed
qed

text \<open>A decision depends on the database only through the overlay index and the whiteouts at the key.\<close>

lemma compute_frame:
  assumes "p_snapshot p' = p_snapshot p" "p_project_root p' = p_project_root p" "p_layout p' = p_layout p"
    "p_mock_root p' = p_mock_root p"
    and "lookup E (p_db p') OVERLAY_IDX (index_key E q) = lookup E (p_db p) OVERLAY_IDX (index_key E q)"
    and "in_project E p (index_key E q) w \<or>
      hidden_by_whiteout E p' (index_key E q) = hidden_by_whiteout E p (index_key E q)"
  shows "compute E p' q w depth exe = compute E p q w depth exe"
proof -
  have "in_project E p' (index_key E q) w = in_project E p (index_key E q) w"
    by (simp add: in_project_def assms(2))
  with assms(6) show ?thesis
    unfolding compute_def index_key_def [symmetric] assms(1-5) Let_def by auto
qed

lemma compute_hidden:
  "d_mode (compute E p q w depth exe) = Hidden \<longleftrightarrow>
     \<not> in_project E p (index_key E q) w \<and> hidden_by_whiteout E p (index_key E q)"
  by (cases rule: compute_cases [of E p q w depth exe])
    (auto simp: compute_parts split: rule_mode.splits option.splits)

lemma compute_hidden_plain:
  "\<not> in_project E p (index_key E q) w \<Longrightarrow> hidden_by_whiteout E p (index_key E q) \<Longrightarrow>
   compute E p q w depth exe = plain_decision Hidden"
  by (simp add: compute_def index_key_def)

section \<open>A sample policy\<close>

text \<open>
  An environment over the list engine with a small file system (the drive root and one plain file exist)
  and a cache that keeps everything, and a policy on an empty database, for the witnesses.
\<close>

definition sample_fs :: "(string \<times> string) list fs_env" where
  "sample_fs = env.extend sample_env
     (fs_env.fields
       (\<lambda>s. if s = win ''c:|f'' then Some \<lparr>md_is_dir = False, md_attributes = 0\<rparr>
            else if s = win ''c:|'' \<or> s = win ''d:|'' \<or> s = win ''c:|p'' then Some \<lparr>md_is_dir = True, md_attributes = 0\<rparr> else None)
       (\<lambda>s. None) (\<lambda>s. s = win ''c:|'' \<or> s = win ''d:|'' \<or> s = win ''c:|p'') (\<lambda>s. Some s) (\<lambda>s. Some 1) (\<lambda>c k d. c(k \<mapsto> d)))"

definition empty_snapshot :: snapshot where
  "empty_snapshot =
     \<lparr>sn_rules = [], sn_default = None, mocks_exact = [], mocks_glob = [], mock_dirs = [],
      sn_index = index_build sample_env []\<rparr>"

definition sample_policy :: "(string \<times> string) list policy" where
  "sample_policy =
     \<lparr>p_db = empty_database, p_cache = Map.empty, p_snapshot = empty_snapshot,
      p_net = (net_from_rules sample_env 0 [], 0), p_layout = sample_layout, p_mock_root = win ''d:|m'',
      p_project_root = win ''c:|p'', children_idx = Map.empty\<rparr>"

lemma sample_fs_engine:
  "rtl_case_fns sample_fs = rtl_case_fns sample_env" "char_to_uppercase sample_fs = char_to_uppercase sample_env"
  "char_to_lowercase sample_fs = char_to_lowercase sample_env" "tb_empty sample_fs = tb_empty sample_env" "tb_get sample_fs = tb_get sample_env"
  "tb_insert sample_fs = tb_insert sample_env" "tb_remove sample_fs = tb_remove sample_env" "tb_iter sample_fs = tb_iter sample_env"
  "tb_range_from sample_fs = tb_range_from sample_env" "write_fault sample_fs = None" "read_fault sample_fs = None"
  "cache_store sample_fs = (\<lambda>c k d. c(k \<mapsto> d))"
  by (simp_all add: sample_fs_def env.defs fs_env.defs) (simp_all add: sample_env_def)

lemma sample_fs_env [simp]:
  "redb_lawful sample_fs" "fold_lawful sample_fs" "write_fault sample_fs = None" "read_fault sample_fs = None" "cache_lawful sample_fs"
proof -
  have l: "redb_lawful sample_env" "fold_lawful sample_env" by (simp_all add: sample_env_def)
  show "redb_lawful sample_fs" using l(1) unfolding redb_lawful_def sample_fs_engine .
  show "fold_lawful sample_fs" 
  proof -
    have "fold_u16_unit sample_fs = fold_u16_unit sample_env"
      unfolding fold_u16_unit_def fun_eq_iff sample_fs_engine by simp
    with l(2) show ?thesis by (simp add: fold_lawful_def)
  qed
  show "cache_lawful sample_fs" by (simp add: cache_lawful_def sample_fs_engine)
qed (simp_all add: sample_fs_engine)

lemma empty_snapshot_load: "snapshot_load sample_env empty_database = Inr empty_snapshot"
  by (simp add: snapshot_load_def read_txn_def sample_env_def table_entries_def open_r_def empty_database_def empty_snapshot_def)

lemma empty_snapshot_matches [simp]:
  "find_mock_payload empty_snapshot q = None" "matched_mock_dir empty_snapshot q = None"
  "rule_modes empty_snapshot q d e = (RM_Passthrough, RM_Cow)"
  using snapshot_rule_match [OF _ empty_snapshot_load, of q d e]
  by (simp_all add: find_mock_payload_def matched_mock_dir_def rule_modes_def empty_snapshot_def db_best_rule_match_def best_rule_match_full_def
      sample_env_def open_r_def empty_database_def)

lemma sample_policy_sel [simp]:
  "p_snapshot sample_policy = empty_snapshot" "p_db sample_policy = empty_database" "p_layout sample_policy = sample_layout"
  "p_project_root sample_policy = win ''c:|p''" "p_cache sample_policy = Map.empty"
  by (simp_all add: sample_policy_def)

lemma sample_keys:
  "index_key sample_fs (win ''C:|F'') = win ''c:|f''" "index_key sample_fs (win ''c:|f|'') = win ''c:|f''"
  "index_key sample_fs (win ''c:|f'') = win ''c:|f''" "index_key sample_fs (win ''c:|f|g'') = win ''c:|f|g''"
  by (simp_all add: index_key_def ensure_lower_ascii win_defs is_ascii_def) code_simp+

lemma sample_not_in_project: "\<not> in_project sample_fs sample_policy (win ''c:|f'') w"
  by (simp add: in_project_def) code_simp

lemma sample_not_alive: "\<not> alive_in_overlay sample_fs sample_policy (win ''c:|f'')"
proof -
  have "mirror_into_overlay_layout (win ''c:|f'') sample_layout = win ''c:|ov|f''" by code_simp
  then have "physical_overlay_path sample_fs (win ''c:|f'') sample_layout = None"
    by (simp add: physical_overlay_path_def sample_fs_def env.defs fs_env.defs win_defs)
  then show ?thesis by (simp add: alive_in_overlay_def lookup_def open_r_def empty_database_def)
qed

section \<open>What a decision guarantees\<close>

text \<open>
  C1: a write leaves the sandbox only inside the project root (and not through an alias of it) or where the
  matching rule passes writes through; every other admitted write is redirected, to the recorded overlay file, to the
  mirror in the overlay layout or to the mirror in the mock root.
\<close>

theorem write_decision_confined:
  "case d_mode (compute E p path True depth exe) of
     Passthrough \<Rightarrow>
       path_contained_in (index_key E path) (p_project_root p) \<and>
         \<not> path_aliases_outside_root E (index_key E path) (p_project_root p) \<or>
       (\<exists>r. best_rule_match (p_snapshot p) (index_key E path) depth exe = Some r \<and> mode_write r = RM_Passthrough)
   | Deny \<Rightarrow> True
   | Hidden \<Rightarrow> True
   | _ \<Rightarrow>
       (\<exists>ov. d_overlay (compute E p path True depth exe) = Some ov \<and>
          (lookup E (p_db p) OVERLAY_IDX (index_key E path) = Some ov \<or>
           ov = mirror_into_overlay_layout (index_key E path) (p_layout p) \<or>
           ov = mirror_into_overlay (index_key E path) (p_mock_root p)))"
proof (cases rule: compute_cases [of E p path True depth exe])
  case (ruled m)
  show ?thesis
  proof (cases m)
    case RM_Passthrough
    with ruled(5) have "snd (rule_modes (p_snapshot p) (index_key E path) depth exe) = RM_Passthrough" by simp
    then show ?thesis using ruled(6) RM_Passthrough
      by (auto simp: compute_parts rule_modes_def split: option.splits)
  qed (simp_all add: ruled(6) compute_parts split: option.splits)
qed (simp_all add: compute_parts in_project_def)

text \<open>
  C12: once an overlay file is recorded for a path, every spelling of the path with the same key is served from
  that file, for reads also under a pass-through rule; only a mock, a deny rule, a write
  under a pass-through rule and the project root take precedence, and no whiteout hides the path.
\<close>

theorem recorded_overlay_is_served:
  assumes "redb_lawful E" and "read_fault E = None" and "record_overlay E orig ov p = (Inr (), p')"
    and "index_key E path = index_key E orig"
    and "\<not> in_project E p (index_key E path) w"
    and "find_mock_payload (p_snapshot p) (index_key E path) = None"
    and "matched_mock_dir (p_snapshot p) (index_key E path) = None"
  shows "compute E p' path w depth exe =
    (case (if w then snd else fst) (rule_modes (p_snapshot p) (index_key E path) depth exe) of
       RM_Deny \<Rightarrow> plain_decision Deny
     | RM_Passthrough \<Rightarrow> if w then plain_decision Passthrough else cow_decision ov None
     | _ \<Rightarrow> cow_decision ov None)"
proof -
  note ok = record_overlay_ok [OF assms(1,3)]
  have same: "p_snapshot p' = p_snapshot p" "p_project_root p' = p_project_root p" by (subst ok(2), simp)+
  have look: "lookup E (p_db p') OVERLAY_IDX (index_key E path) = Some ov"
    by (simp add: lookup_view assms(2,4) ok(1) abs_put_def)
  then have "\<not> hidden_by_whiteout E p' (index_key E path)" by (simp add: hidden_by_whiteout_def alive_in_overlay_def)
  moreover have "\<not> in_project E p' (index_key E path) w" using assms(5) by (simp add: in_project_def same)
  ultimately show ?thesis
    using assms(6,7) look
    by (simp add: compute_def index_key_def [symmetric] same Let_def case_prod_beta split: rule_mode.splits)
qed

theorem recorded_overlay_is_served_witness:
  "case record_overlay sample_fs (win ''C:|F'') (win ''c:|ov|f'') sample_policy of
     (Inl e, p') \<Rightarrow> False
   | (Inr u, p') \<Rightarrow> compute sample_fs p' (win ''c:|f|'') False None None = cow_decision (win ''c:|ov|f'') None"
proof -
  obtain p' where p': "record_overlay sample_fs (win ''C:|F'') (win ''c:|ov|f'') sample_policy = (Inr (), p')"
    by (simp add: record_overlay_def commit_policy_def write_txn_def insert_op_def Let_def)
  have "compute sample_fs p' (win ''c:|f|'') False None None = cow_decision (win ''c:|ov|f'') None"
    using recorded_overlay_is_served [OF _ _ p', of "win ''c:|f|''" False None None]
    by (simp add: sample_keys sample_not_in_project)
  with p' show ?thesis by simp
qed

text \<open>
  C13: deleting is hiding. After a whiteout is recorded for a path without a copy in the overlay, every
  access to it outside the project answers \<open>Hidden\<close>; decisions on all other keys are what they were.
\<close>

theorem whiteout_hides:
  assumes "redb_lawful E" and "read_fault E = None" and "record_whiteout E path p = (Inr (), p')"
  shows "compute E p' q w depth exe =
    (if index_key E q = index_key E path \<and> \<not> in_project E p (index_key E q) w \<and> \<not> alive_in_overlay E p (index_key E q)
     then plain_decision Hidden else compute E p q w depth exe)"
proof -
  note ok = record_whiteout_ok [OF assms(1,3)]
  have same: "p_snapshot p' = p_snapshot p" "p_project_root p' = p_project_root p" "p_layout p' = p_layout p"
    "p_mock_root p' = p_mock_root p"
    by (subst ok(2), simp)+
  have idx: "lookup E (p_db p') OVERLAY_IDX k = lookup E (p_db p) OVERLAY_IDX k" for k
    by (simp add: lookup_view ok(1) abs_put_def)
  have wh: "lookup E (p_db p') WHITEOUTS k = (if k = index_key E path then Some [] else lookup E (p_db p) WHITEOUTS k)" for k
    by (simp add: lookup_view ok(1) abs_put_def assms(2))
  have alive: "alive_in_overlay E p' k = alive_in_overlay E p k" for k by (simp add: alive_in_overlay_def idx same)
  have proj: "in_project E p' k w = in_project E p k w" for k by (simp add: in_project_def same)
  show ?thesis
  proof (cases "index_key E q = index_key E path \<and> \<not> in_project E p (index_key E q) w \<and> \<not> alive_in_overlay E p (index_key E q)")
    case True
    then have "compute E p' q w depth exe = plain_decision Hidden"
      using proj wh alive by (intro compute_hidden_plain) (auto simp: hidden_by_whiteout_def)
    with True show ?thesis by auto
  next
    case False
    then have "compute E p' q w depth exe = compute E p q w depth exe"
      by (intro compute_frame) (auto simp: same idx hidden_by_whiteout_def alive wh)
    with False show ?thesis by auto
  qed
qed

theorem whiteout_hides_witness:
  "case record_whiteout sample_fs (win ''C:|F'') sample_policy of
     (Inl e, p') \<Rightarrow> False
   | (Inr u, p') \<Rightarrow> compute sample_fs p' (win ''c:|f|'') True None None = plain_decision Hidden"
proof -
  obtain p' where p': "record_whiteout sample_fs (win ''C:|F'') sample_policy = (Inr (), p')"
    by (simp add: record_whiteout_def commit_policy_def write_txn_def insert_op_def)
  have "compute sample_fs p' (win ''c:|f|'') True None None = plain_decision Hidden"
    using whiteout_hides [OF _ _ p', of "win ''c:|f|''" True None None]
    by (simp add: sample_keys sample_not_in_project sample_not_alive)
  with p' show ?thesis by simp
qed

text \<open>
  C30: reviving a path revives its whole subtree, and nothing else: after \<open>clear_whiteout\<close> no path at or below it
  is hidden, and the decisions elsewhere are what they were.
\<close>

theorem clear_whiteout_revives:
  assumes "redb_lawful E" and "clear_whiteout E path p = (Inr (), p')"
  shows "if index_key E q = index_key E path \<or> prefix (index_key E path @ [bslash]) (index_key E q)
    then d_mode (compute E p' q w depth exe) \<noteq> Hidden
    else compute E p' q w depth exe = compute E p q w depth exe"
proof -
  note ok = clear_whiteout_ok [OF assms]
  have same: "p_snapshot p' = p_snapshot p" "p_project_root p' = p_project_root p" "p_layout p' = p_layout p"
    "p_mock_root p' = p_mock_root p"
    by (subst ok(2), simp)+
  have idx: "lookup E (p_db p') OVERLAY_IDX k = lookup E (p_db p) OVERLAY_IDX k" for k
    by (simp add: lookup_view ok(1))
  have wh: "lookup E (p_db p') WHITEOUTS k =
      (if k = index_key E path \<or> prefix (index_key E path @ [bslash]) k then None else lookup E (p_db p) WHITEOUTS k)" for k
    by (simp add: lookup_view ok(1))
  have alive: "alive_in_overlay E p' k = alive_in_overlay E p k" for k by (simp add: alive_in_overlay_def idx same)
  show ?thesis
  proof (cases "index_key E q = index_key E path \<or> prefix (index_key E path @ [bslash]) (index_key E q)")
    case True
    then have "\<not> hidden_by_whiteout E p' (index_key E q)" by (auto simp: hidden_by_whiteout_def wh)
    with True show ?thesis by (simp add: compute_hidden)
  next
    case False
    then have "compute E p' q w depth exe = compute E p q w depth exe"
      by (intro compute_frame) (auto simp: same idx hidden_by_whiteout_def alive wh)
    with False show ?thesis by simp
  qed
qed


theorem clear_whiteout_revives_witness:
  "case clear_whiteout sample_fs (win ''C:|F'') (snd (record_whiteout sample_fs (win ''c:|f|g'') sample_policy)) of
     (Inl e, p') \<Rightarrow> False
   | (Inr u, p') \<Rightarrow> d_mode (compute sample_fs p' (win ''c:|f|g'') True None None) \<noteq> Hidden"
proof -
  let ?p = "snd (record_whiteout sample_fs (win ''c:|f|g'') sample_policy)"
  obtain p' where p': "clear_whiteout sample_fs (win ''C:|F'') ?p = (Inr (), p')"
    by (simp add: clear_whiteout_def commit_policy_def write_txn_def clear_whiteout_body_def Let_def)
  have "prefix (win ''c:|f'' @ [bslash]) (win ''c:|f|g'')" by code_simp
  then have "d_mode (compute sample_fs p' (win ''c:|f|g'') True None None) \<noteq> Hidden"
    using clear_whiteout_revives [OF _ p', of "win ''c:|f|g''" True None None] by (simp add: sample_keys)
  with p' show ?thesis by simp
qed

text \<open>
  enumeration agrees with deciding. The names reported as deleted under a directory are exactly the
  names of the children that \<open>compute\<close> would answer with \<open>Hidden\<close> outside the project.
\<close>

theorem whiteouts_under_agrees:
  assumes "redb_lawful E" and "dir_prefix E dir = Some pfx" and "index_key E (pfx @ name) = pfx @ name"
    and "\<not> in_project E p (pfx @ name) w"
  shows "name \<in> set (whiteouts_under E p dir) \<longleftrightarrow>
    bslash \<notin> set name \<and> d_mode (compute E p (pfx @ name) w depth exe) = Hidden"
  using whiteouts_under_mem [OF assms(1,2)] assms(3,4) by (simp add: compute_hidden)

theorem whiteouts_under_agrees_witness:
  "''f'' \<in> set (whiteouts_under sample_fs sample_policy (win ''c:|'')) \<longleftrightarrow>
    d_mode (compute sample_fs sample_policy (win ''c:|f'') False None None) = Hidden"
proof -
  have "dir_prefix sample_fs (win ''c:|'') = Some (win ''c:|'')"
    by (simp add: dir_prefix_def ensure_lower_ascii win_defs is_ascii_def)
  moreover have "win ''c:|'' @ ''f'' = win ''c:|f''" by (simp add: win_defs)
  moreover have "bslash \<notin> set ''f''" by code_simp
  ultimately show ?thesis
    using whiteouts_under_agrees [of sample_fs "win ''c:|''" "win ''c:|''" "''f''" sample_policy False None None]
    by (simp add: sample_keys sample_not_in_project)
qed

end
