(* ===== verification/RegValue.thy ===== *)
theory RegValue
  imports Isolation "HOL-Library.Countable"
begin

text \<open>
  Registry values and their codecs (\<^verbatim>\<open>registry/reg.rs\<close>): the type tags, the JSON form in which the overlay is
  stored, and the decoder of raw \<^verbatim>\<open>NtSetValueKey\<close> data. JSON text and base64 are library code and enter as
  parameters of \<open>reg_env\<close>.
\<close>

section \<open>Values\<close>

datatype reg_type = RegNone | RegSz | RegExpandSz | RegBinary | RegDword | RegDwordBe | RegLink | RegMultiSz | RegQword | RegOther u32

definition reg_from_u32 :: "u32 \<Rightarrow> reg_type" where
  "reg_from_u32 t =
     (if t = 0 then RegNone else if t = 1 then RegSz else if t = 2 then RegExpandSz else if t = 3 then RegBinary
      else if t = 4 then RegDword else if t = 5 then RegDwordBe else if t = 6 then RegLink else if t = 7 then RegMultiSz
      else if t = 11 then RegQword else RegOther t)"

fun reg_to_u32 :: "reg_type \<Rightarrow> u32" where
  "reg_to_u32 RegNone = 0"
| "reg_to_u32 RegSz = 1"
| "reg_to_u32 RegExpandSz = 2"
| "reg_to_u32 RegBinary = 3"
| "reg_to_u32 RegDword = 4"
| "reg_to_u32 RegDwordBe = 5"
| "reg_to_u32 RegLink = 6"
| "reg_to_u32 RegMultiSz = 7"
| "reg_to_u32 RegQword = 11"
| "reg_to_u32 (RegOther v) = v"

fun reg_type_name :: "reg_type \<Rightarrow> string" where
  "reg_type_name RegNone = ''REG_NONE''"
| "reg_type_name RegSz = ''REG_SZ''"
| "reg_type_name RegExpandSz = ''REG_EXPAND_SZ''"
| "reg_type_name RegBinary = ''REG_BINARY''"
| "reg_type_name RegDword = ''REG_DWORD''"
| "reg_type_name RegDwordBe = ''REG_DWORD_BIG_ENDIAN''"
| "reg_type_name RegLink = ''REG_LINK''"
| "reg_type_name RegMultiSz = ''REG_MULTI_SZ''"
| "reg_type_name RegQword = ''REG_QWORD''"
| "reg_type_name (RegOther v) = ''REG_OTHER''"

definition reg_from_name :: "string \<Rightarrow> reg_type option" where
  "reg_from_name s =
     (if s = ''REG_NONE'' then Some RegNone else if s = ''REG_SZ'' then Some RegSz
      else if s = ''REG_EXPAND_SZ'' then Some RegExpandSz else if s = ''REG_BINARY'' then Some RegBinary
      else if s = ''REG_DWORD'' then Some RegDword else if s = ''REG_DWORD_BIG_ENDIAN'' then Some RegDwordBe
      else if s = ''REG_LINK'' then Some RegLink else if s = ''REG_MULTI_SZ'' then Some RegMultiSz
      else if s = ''REG_QWORD'' then Some RegQword else None)"

datatype reg_data = RegString string | RegStrings "string list" | RegU32 u32 | RegU64 u64 | RegBytes string | RegNoData

record reg_value =
  rv_typ :: reg_type
  rv_data :: reg_data

datatype reg_entry = EntryValue reg_value | EntryDeleted

section \<open>JSON\<close>

text \<open>\<^verbatim>\<open>serde_json::Value\<close>: an object is a map sorted by key; numbers outside the integers are kept as text.\<close>

datatype json = JNull | JBool bool | JInt int | JFloat string | JStr string | JArr "json list" | JObj "(string \<times> json) list"

fun json_get :: "json \<Rightarrow> string \<Rightarrow> json option" where
  "json_get (JObj kvs) k = map_of kvs k"
| "json_get _ k = None"

fun json_as_str :: "json \<Rightarrow> string option" where
  "json_as_str (JStr s) = Some s"
| "json_as_str _ = None"

fun json_as_u64 :: "json \<Rightarrow> nat option" where
  "json_as_u64 (JInt n) = (if 0 \<le> n \<and> n < 2 ^ 64 then Some (nat n) else None)"
| "json_as_u64 _ = None"

fun json_as_array :: "json \<Rightarrow> json list option" where
  "json_as_array (JArr xs) = Some xs"
| "json_as_array _ = None"

text \<open>
  The library calls: base64, the text of a JSON value and its parser, and the derived decoder of mock
  payloads. \<open>io_error\<close> is the outcome of the file operations on a directory of the overlay.
\<close>

record 't reg_env = "'t fs_env" +
  b64_encode :: "string \<Rightarrow> string"
  b64_decode :: "string \<Rightarrow> string option"
  json_text :: "json \<Rightarrow> string"
  json_parse :: "string \<Rightarrow> json option"
  mock_value_decode :: "string \<Rightarrow> reg_value option"
  io_error :: "string \<Rightarrow> string option"
  reg_cache_store :: "(cache_key_t \<Rightarrow> (mode \<times> reg_value option \<times> reg_value option) option) \<Rightarrow> cache_key_t
    \<Rightarrow> mode \<times> reg_value option \<times> reg_value option \<Rightarrow> cache_key_t \<Rightarrow> (mode \<times> reg_value option \<times> reg_value option) option"

text \<open>
  The values on which the text of a JSON value parses back to the value: integers that fit in 64 bits, strings
  and keys in UTF-8, the keys of an object in strict order (the object is a sorted map), and at most \<open>d\<close> nested
  arrays and objects (the parser refuses the 128th). A number outside the integers may be rounded, so none is included.
\<close>

fun json_range :: "nat \<Rightarrow> json \<Rightarrow> bool" where
  "json_range d JNull = True"
| "json_range d (JBool b) = True"
| "json_range d (JInt n) \<longleftrightarrow> - (2 ^ 63) \<le> n \<and> n < 2 ^ 64"
| "json_range d (JFloat s) = False"
| "json_range d (JStr s) = valid_utf8 s"
| "json_range (Suc d) (JArr xs) = list_all (json_range d) xs"
| "json_range (Suc d) (JObj kvs) \<longleftrightarrow>
     sorted_wrt (<) (map fst kvs) \<and> list_all (\<lambda>(k, v). valid_utf8 k \<and> json_range d v) kvs"
| "json_range 0 j = False"

text \<open>
  What is documented of the libraries: base64 is decoded to what was encoded and its text is ASCII, and JSON in
  the range above survives printing and parsing.
\<close>

definition json_lawful :: "('t, 'e) reg_env_scheme \<Rightarrow> bool" where
  "json_lawful E \<longleftrightarrow>
     (\<forall>b. b64_decode E (b64_encode E b) = Some b \<and> is_ascii (b64_encode E b)) \<and>
     (\<forall>j. json_range 127 j \<longrightarrow> json_parse E (json_text E j) = Some j)"

definition parse_u64 :: "string \<Rightarrow> u64 option" where
  "parse_u64 s =
     (let ds = (case s of c # r \<Rightarrow> if c = CHR ''+'' then r else s | [] \<Rightarrow> []) in
      if ds = [] \<or> \<not> list_all is_ascii_digit ds then None
      else if digits_value ds < 2 ^ 64 then Some (of_nat (digits_value ds))
      else None)"

definition json_of_data :: "('t, 'e) reg_env_scheme \<Rightarrow> reg_data \<Rightarrow> json" where
  "json_of_data E d =
     (case d of
        RegString s \<Rightarrow> JStr s
      | RegStrings ss \<Rightarrow> JArr (map JStr ss)
      | RegU32 n \<Rightarrow> JInt (uint n)
      | RegU64 n \<Rightarrow> JStr (show_nat (unat n))
      | RegBytes b \<Rightarrow> JStr (b64_encode E b)
      | RegNoData \<Rightarrow> JNull)"

definition to_json_value :: "('t, 'e) reg_env_scheme \<Rightarrow> reg_value \<Rightarrow> json" where
  "to_json_value E v =
     JObj [(''data'', json_of_data E (rv_data v)), (''type'', JStr (reg_type_name (rv_typ v)))]"

definition data_of_json :: "('t, 'e) reg_env_scheme \<Rightarrow> reg_type \<Rightarrow> json \<Rightarrow> reg_data option" where
  "data_of_json E typ data_val =
     (case typ of
        RegSz \<Rightarrow> map_option RegString (json_as_str data_val)
      | RegExpandSz \<Rightarrow> map_option RegString (json_as_str data_val)
      | RegMultiSz \<Rightarrow> map_option (\<lambda>arr. RegStrings (List.map_filter json_as_str arr)) (json_as_array data_val)
      | RegDword \<Rightarrow> map_option (\<lambda>n. RegU32 (of_nat n)) (json_as_u64 data_val)
      | RegDwordBe \<Rightarrow> map_option (\<lambda>n. RegU32 (of_nat n)) (json_as_u64 data_val)
      | RegQword \<Rightarrow> map_option RegU64 (Option.bind (json_as_str data_val) parse_u64)
      | RegBinary \<Rightarrow> map_option RegBytes (Option.bind (json_as_str data_val) (b64_decode E))
      | RegOther v \<Rightarrow> map_option RegBytes (Option.bind (json_as_str data_val) (b64_decode E))
      | RegNone \<Rightarrow> Some RegNoData
      | RegLink \<Rightarrow> Some RegNoData)"

definition from_json_value :: "('t, 'e) reg_env_scheme \<Rightarrow> json \<Rightarrow> reg_value option" where
  "from_json_value E val =
     (case Option.bind (json_get val ''type'') json_as_str of
        None \<Rightarrow> None
      | Some typ_str \<Rightarrow>
          (case reg_from_name typ_str of
             None \<Rightarrow> None
           | Some typ \<Rightarrow>
               (case json_get val ''data'' of
                  None \<Rightarrow> None
                | Some data_val \<Rightarrow>
                    map_option (\<lambda>d. \<lparr>rv_typ = typ, rv_data = d\<rparr>) (data_of_json E typ data_val))))"

section \<open>Raw data\<close>

fun chunks2 :: "string \<Rightarrow> u16 list" where
  "chunks2 (a # b # r) = of_nat (of_char a + 256 * of_char b) # chunks2 r"
| "chunks2 _ = []"

definition unit_char :: "u16 \<Rightarrow> string" where
  "unit_char w = utf8_enc1 (if is_scalar (unat w) then unat w else 0xFFFD)"

definition utf16le_to_string :: "string \<Rightarrow> string" where
  "utf16le_to_string data = concat (map unit_char (chunks2 data))"

text \<open>The loop of the multi-string decoder: state is the list so far and the current string.\<close>

fun multi_strings :: "u16 list \<Rightarrow> string list \<Rightarrow> string \<Rightarrow> string list" where
  "multi_strings [] strs cur = strs"
| "multi_strings (w # ws) strs cur =
     (if w = 0 then (if cur = [] then strs else multi_strings ws (strs @ [cur]) [])
      else multi_strings ws strs (cur @ unit_char w))"

fun le_bytes :: "string \<Rightarrow> nat" where
  "le_bytes [] = 0"
| "le_bytes (b # bs) = of_char b + 256 * le_bytes bs"

definition reg_value_from_raw :: "u32 \<Rightarrow> string \<Rightarrow> reg_value" where
  "reg_value_from_raw value_type data =
     (let typ = reg_from_u32 value_type
      in \<lparr>rv_typ = typ, rv_data =
        (case typ of
           RegSz \<Rightarrow> RegString (trim_end_matches (\<lambda>c. c = CHR 0x00) (utf16le_to_string data))
         | RegExpandSz \<Rightarrow> RegString (trim_end_matches (\<lambda>c. c = CHR 0x00) (utf16le_to_string data))
         | RegMultiSz \<Rightarrow> RegStrings (multi_strings (chunks2 data) [] [])
         | RegDword \<Rightarrow> if length data \<ge> 4 then RegU32 (of_nat (le_bytes (take 4 data))) else RegBytes data
         | RegDwordBe \<Rightarrow> if length data \<ge> 4 then RegU32 (of_nat (le_bytes (rev (take 4 data)))) else RegBytes data
         | RegQword \<Rightarrow> if length data \<ge> 8 then RegU64 (of_nat (le_bytes (take 8 data))) else RegBytes data
         | RegNone \<Rightarrow> RegNoData
         | RegLink \<Rightarrow> RegNoData
         | _ \<Rightarrow> RegBytes data)\<rparr>)"

text \<open>The JSON form of the values of one key.\<close>

definition serialize_values_json :: "('t, 'e) reg_env_scheme \<Rightarrow> (string \<times> reg_entry) list \<Rightarrow> string" where
  "serialize_values_json E values =
     json_text E (JObj (foldl (\<lambda>obj (name, entry). btree_insert name
        (case entry of EntryValue rv \<Rightarrow> to_json_value E rv | EntryDeleted \<Rightarrow> JObj [(''type'', JStr ''DELETED'')]) obj) [] values))"

fun parse_entries :: "('t, 'e) reg_env_scheme \<Rightarrow> (string \<times> json) list \<Rightarrow> (string \<times> reg_entry) list \<Rightarrow> string + (string \<times> reg_entry) list" where
  "parse_entries E [] result = Inr result"
| "parse_entries E ((key, val) # kvs) result =
     (let name = ensure_lower E key in
      if Option.bind (json_get val ''type'') json_as_str = Some ''DELETED''
      then parse_entries E kvs (btree_insert name EntryDeleted result)
      else (case from_json_value E val of
          Some rv \<Rightarrow> parse_entries E kvs (btree_insert name (EntryValue rv) result)
        | None \<Rightarrow> Inl (''invalid value for key '' @ key)))"

definition parse_values_json :: "('t, 'e) reg_env_scheme \<Rightarrow> string \<Rightarrow> string + (string \<times> reg_entry) list" where
  "parse_values_json E raw =
     (case json_parse E raw of
        None \<Rightarrow> Inl ''JSON parse error''
      | Some (JObj kvs) \<Rightarrow> parse_entries E kvs []
      | Some _ \<Rightarrow> Inl ''expected JSON object'')"

section \<open>Key paths\<close>

definition nt_to_friendly :: "'a platform_scheme \<Rightarrow> u16 list \<Rightarrow> string option" where
  "nt_to_friendly pf raw =
     (let lower = ensure_lower pf (trim_end_matches (\<lambda>c. c = CHR 0x00) (from_utf16_lossy raw)) in
      case strip_prefix (win ''|registry|'') lower of
        None \<Rightarrow> None
      | Some stripped \<Rightarrow>
          (case strip_prefix (win ''machine|'') stripped of
             Some rest \<Rightarrow> Some (win ''hklm|'' @ rest)
           | None \<Rightarrow>
               (case strip_prefix (win ''user|'') stripped of
                  Some rest \<Rightarrow>
                    if bslash \<in> set rest then
                      (let sid = takeWhile (\<lambda>c. c \<noteq> bslash) rest; path = tl (dropWhile (\<lambda>c. c \<noteq> bslash) rest) in
                       if last (split_by (\<lambda>c. c = CHR ''-'') sid) = ''500'' \<or> starts_with rest ''.default''
                       then Some (win ''hkcu|'' @ path)
                       else Some (win ''hku|'' @ sid @ bslash # path))
                    else Some (win ''hku|'' @ rest)
                | None \<Rightarrow>
                    (case strip_prefix (win ''classes|'') stripped of
                       Some rest \<Rightarrow> Some (win ''hkcr|'' @ rest)
                     | None \<Rightarrow> None))))"

definition friendly_to_overlay :: "string \<Rightarrow> string \<Rightarrow> string" where
  "friendly_to_overlay friendly root =
     push_normals root (win_components (trim_start_matches (\<lambda>c. c = bslash) (to_backslashes friendly)))"

definition values_json_path :: "string \<Rightarrow> string" where
  "values_json_path dir = path_push dir ''values.json''"

definition deleted_marker_path :: "string \<Rightarrow> string" where
  "deleted_marker_path dir = path_push dir ''_deleted''"

section \<open>Round trips\<close>

declare show_nat.simps [simp del]

lemma show_nat_digits: "show_nat n \<noteq> []" "list_all is_ascii_digit (show_nat n)" "digits_value (show_nat n) = n"
proof (induction n rule: show_nat.induct)
  case (1 n)
  have d: "is_ascii_digit (char_of (48 + k :: nat))" "of_char (char_of (48 + k :: nat)) = 48 + k" if "k < 10" for k
    using that by (simp_all add: is_ascii_digit_def)
  {
    case 1
    show ?case by (subst show_nat.simps) simp
  next
    case 2
    show ?case using 1 d [of n] d [of "n mod 10"] by (subst show_nat.simps) simp
  next
    case 3
    show ?case using 1 d [of n] d [of "n mod 10"] by (subst show_nat.simps) (simp add: digits_value_def)
  }
qed

lemma parse_u64_show: "parse_u64 (show_nat (unat (n :: u64))) = Some n"
proof -
  obtain c r where cr: "show_nat (unat n) = c # r" using show_nat_digits(1) [of "unat n"] by (cases "show_nat (unat n)") auto
  have "is_ascii_digit c" using show_nat_digits(2) [of "unat n"] by (simp add: cr)
  then have "c \<noteq> CHR ''+''" by (auto simp: is_ascii_digit_def)
  then show ?thesis
    using show_nat_digits [of "unat n"] unsigned_less [of n] by (simp add: parse_u64_def cr)
qed

lemma map_filter_strings: "List.map_filter json_as_str (map JStr ss) = ss"
  by (induction ss) (simp_all add: List.map_filter_simps)

lemma reg_from_name_name: "reg_from_name (reg_type_name t) = (case t of RegOther v \<Rightarrow> None | _ \<Rightarrow> Some t)"
  by (cases t) (simp_all add: reg_from_name_def)

text \<open>The data constructor that the decoder expects for a type.\<close>

fun well_typed :: "reg_value \<Rightarrow> bool" where
  "well_typed \<lparr>rv_typ = t, rv_data = d\<rparr> =
     (case (t, d) of
        (RegSz, RegString s) \<Rightarrow> True
      | (RegExpandSz, RegString s) \<Rightarrow> True
      | (RegMultiSz, RegStrings ss) \<Rightarrow> True
      | (RegDword, RegU32 n) \<Rightarrow> True
      | (RegDwordBe, RegU32 n) \<Rightarrow> True
      | (RegQword, RegU64 n) \<Rightarrow> True
      | (RegBinary, RegBytes b) \<Rightarrow> True
      | (RegNone, RegNoData) \<Rightarrow> True
      | (RegLink, RegNoData) \<Rightarrow> True
      | _ \<Rightarrow> False)"

lemma from_json_to_json:
  "from_json_value E (to_json_value E v) =
     (case rv_typ v of RegOther w \<Rightarrow> None
      | t \<Rightarrow> map_option (\<lambda>d. \<lparr>rv_typ = t, rv_data = d\<rparr>) (data_of_json E t (json_of_data E (rv_data v))))"
proof -
  have n: "(''data'' = ''type'') = False" by simp
  show ?thesis
    unfolding from_json_value_def to_json_value_def
    by (simp add: reg_from_name_name del: reg_type_name.simps split: reg_type.splits)
qed

lemma json_round:
  assumes "json_lawful E"
  shows "from_json_value E (to_json_value E v) = Some v \<longleftrightarrow> well_typed v"
proof -
  obtain t d where v: "v = \<lparr>rv_typ = t, rv_data = d\<rparr>" by (cases v) simp
  have b: "b64_decode E (b64_encode E bs) = Some bs" for bs using assms by (simp add: json_lawful_def)
  have u: "uint (n :: u32) < 18446744073709551616" "of_nat (nat (uint n)) = n" for n
  proof -
    have "uint n < 2 ^ 32" using uint_lt2p [of n] by simp
    then show "uint n < 18446744073709551616" by simp
  qed simp
  show ?thesis
    unfolding v from_json_to_json by (cases t; cases d)
      (simp_all add: data_of_json_def json_of_data_def b u parse_u64_show map_filter_strings)
qed

text \<open>The strings of a value are Rust strings, that is UTF-8.\<close>

definition utf8_value :: "reg_value \<Rightarrow> bool" where
  "utf8_value v =
     (case rv_data v of
        RegString s \<Rightarrow> valid_utf8 s
      | RegStrings ss \<Rightarrow> list_all valid_utf8 ss
      | _ \<Rightarrow> True)"

lemma ascii_digits: "list_all is_ascii_digit s \<Longrightarrow> is_ascii s"
  by (auto simp: is_ascii_def list_all_iff is_ascii_digit_def is_ascii_char_def)

lemma ascii_type_name: "is_ascii (reg_type_name t)"
  by (cases t) (simp_all add: is_ascii_def is_ascii_char_def)

lemma value_json_range:
  assumes "json_lawful E" and "utf8_value v"
  shows "json_range (Suc (Suc d)) (to_json_value E v)"
proof -
  have "- (2 ^ 63) \<le> uint (n :: u32) \<and> uint n < 2 ^ 64" for n
  proof -
    have "0 \<le> uint n" by (rule uint_ge_0)
    moreover have "uint n < 2 ^ 32" using uint_lt2p [of n] by simp
    moreover have "- (2 ^ 63) \<le> (0::int)" "(2::int) ^ 32 < 2 ^ 64" by simp_all
    ultimately show ?thesis by (metis order_trans order_less_trans)
  qed
  moreover have "valid_utf8 (b64_encode E b)" for b using assms(1) by (simp add: json_lawful_def ascii_valid_utf8)
  ultimately have "json_range (Suc d) (json_of_data E (rv_data v))"
    using assms(2) ascii_digits [OF show_nat_digits(2)]
    by (auto simp: json_of_data_def utf8_value_def ascii_valid_utf8 list_all_iff split: reg_data.splits)
  moreover have "valid_utf8 (reg_type_name (rv_typ v))" by (rule ascii_valid_utf8 [OF ascii_type_name])
  moreover have "valid_utf8 ''data''" "valid_utf8 ''type''" "''data'' < ''type''"
    by (simp_all add: ascii_valid_utf8 is_ascii_def is_ascii_char_def)
  ultimately show ?thesis by (simp add: to_json_value_def)
qed

lemma raw_typ: "rv_typ (reg_value_from_raw t data) = reg_from_u32 t"
  by (simp add: reg_value_from_raw_def Let_def)

lemma raw_well_typed:
  "well_typed (reg_value_from_raw t data) \<longleftrightarrow>
     (t \<in> {4, 5} \<longrightarrow> 4 \<le> length data) \<and> (t = 11 \<longrightarrow> 8 \<le> length data) \<and> t \<in> {0, 1, 2, 3, 4, 5, 6, 7, 11}"
  by (simp add: reg_value_from_raw_def reg_from_u32_def Let_def)

text \<open>An escaping key: the components pushed one by one, where one with a drive prefix replaces the path.\<close>

lemma friendly_names:
  "friendly_to_overlay key root = foldl path_push root
     (mirror_names (let s = trim_start_matches (\<lambda>c. c = bslash) (to_backslashes key) in if has_drive s then drop 2 s else s))"
  by (simp add: friendly_to_overlay_def push_normals_names normals_win_components Let_def)

lemma has_drive_name: "has_drive s \<Longrightarrow> \<exists>g\<in>set (mirror_names s). has_drive g"
proof -
  assume "has_drive s"
  then obtain c r where s: "s = c # colon # r" and c: "is_ascii_alphabetic c"
    by (cases s; cases "tl s") (auto simp: has_drive_def)
  have "\<not> is_sep c" "\<not> is_sep colon" using c by (auto simp: is_sep_def win_defs)
  moreover obtain y ys where "split_by is_sep r = y # ys" by (rule split_by_cases)
  ultimately have "split_by is_sep s = (c # colon # y) # ys" by (simp add: s)
  with c show ?thesis by (simp add: mirror_names_def has_drive_def)
qed

section \<open>A sample environment\<close>

instance json :: countable
  by countable_datatype

definition reg_sample :: "(string \<times> string) list reg_env" where
  "reg_sample = fs_env.extend sample_fs
     (reg_env.fields (\<lambda>b. unary (to_nat b)) (\<lambda>s. Some (from_nat (length s))) (\<lambda>j. unary (to_nat j)) (\<lambda>s. Some (from_nat (length s))) (\<lambda>s. None) (\<lambda>d. None) (\<lambda>c k d. c(k \<mapsto> d)))"

lemma ascii_unary: "is_ascii (unary n)"
  by (induction n) (simp_all add: win_defs)

lemma reg_sample_json: "json_lawful reg_sample"
  by (simp add: ascii_unary json_lawful_def reg_sample_def fs_env.defs reg_env.defs)

section \<open>Properties\<close>

text \<open>
  a registry value survives being stored as JSON exactly when its data has the shape its type promises;
  in particular every type tag of the kernel survives the conversion to the enum and back.
\<close>

theorem registry_value_round_trip:
  assumes "json_lawful E"
  shows "(from_json_value E (to_json_value E v) = Some v \<longleftrightarrow> well_typed v) \<and> reg_to_u32 (reg_from_u32 t) = t"
  using json_round [OF assms] by (simp add: reg_from_u32_def)

theorem registry_value_round_trip_witness:
  "from_json_value reg_sample (to_json_value reg_sample \<lparr>rv_typ = RegQword, rv_data = RegU64 18446744073709551615\<rparr>) =
     Some \<lparr>rv_typ = RegQword, rv_data = RegU64 18446744073709551615\<rparr>"
  using registry_value_round_trip [OF reg_sample_json, of "\<lparr>rv_typ = RegQword, rv_data = RegU64 18446744073709551615\<rparr>"] by simp

text \<open>
  which guest writes survive. The raw data of a value comes back from the stored JSON exactly when the type is a
  known one and numbers have their full width; a short number or an unknown type is recorded in a form that the reader rejects.
\<close>

theorem raw_value_survives:
  assumes "json_lawful E"
  shows "from_json_value E (to_json_value E (reg_value_from_raw t data)) = Some (reg_value_from_raw t data) \<longleftrightarrow>
    (t \<in> {4, 5} \<longrightarrow> 4 \<le> length data) \<and> (t = 11 \<longrightarrow> 8 \<le> length data) \<and> t \<in> {0, 1, 2, 3, 4, 5, 6, 7, 11}"
  using json_round [OF assms] raw_well_typed by simp

theorem raw_value_survives_witness:
  "from_json_value reg_sample (to_json_value reg_sample (reg_value_from_raw 4 ''abc'')) \<noteq> Some (reg_value_from_raw 4 ''abc'')"
  using raw_value_survives [OF reg_sample_json, of 4 "''abc''"] by simp

text \<open>
  the directory of a key lies below the overlay root when no component of the key looks like a drive.
\<close>

theorem key_directory_contained:
  assumes "\<forall>g\<in>set (mirror_names key). \<not> has_drive g"
  shows "win_components (friendly_to_overlay key root) = win_components root @ map Normal (mirror_names key)"
proof -
  define s where "s = trim_start_matches (\<lambda>c. c = bslash) (to_backslashes key)"
  have names: "mirror_names s = mirror_names key" unfolding s_def by (rule mirror_names_sanitized)
  have "\<not> has_drive s" using assms has_drive_name [of s] by (auto simp: names)
  then have "friendly_to_overlay key root = foldl path_push root (mirror_names key)"
    unfolding friendly_names s_def [symmetric] Let_def by (simp add: names)
  moreover have "plain_names (mirror_names key)" using assms mirror_names_plain by (simp add: plain_names_def)
  ultimately show ?thesis by (simp add: win_components_pushes)
qed

theorem key_directory_contained_witness:
  "win_components (friendly_to_overlay (win ''hklm|software|x'') (win ''d:|w'')) =
     win_components (win ''d:|w'') @ map Normal [''hklm'', ''software'', ''x'']"
proof -
  have n: "mirror_names (win ''hklm|software|x'') = [''hklm'', ''software'', ''x'']" by code_simp
  then have "\<forall>g\<in>set (mirror_names (win ''hklm|software|x'')). \<not> has_drive g" by (simp add: has_drive_def)
  from key_directory_contained [OF this, of "win ''d:|w''"] show ?thesis unfolding n .
qed

text \<open>
  a registry key name may contain a colon. The directory of such a key leaves the overlay root: the
  component with the colon replaces everything before it.
\<close>

theorem key_directory_escapes:
  "friendly_to_overlay (win ''hkcu|d:|x'') (win ''c:|workreg'') = ''d:x''"
  by code_simp

end
