(* ===== verification/Trace.thy ===== *)
theory Trace
  imports Isolation
begin

text \<open>
  The traced decision behind \<^verbatim>\<open>winrsbox why\<close> explains the decision the sandbox takes: its own scan of the
  database finds the rule the index of the snapshot finds, and mode and target agree.
\<close>

section \<open>The traced scan is the scan\<close>

definition scan_view ::
    "considered_rule list \<times> (nat \<times> string \<times> rule_row) option \<times> rule_row option
     \<Rightarrow> (nat \<times> string \<times> rule_row) option \<times> (string \<times> rule_row) option" where
  "scan_view st = (fst (snd st), map_option (Pair []) (snd (snd st)))"

lemma rule_verdict_match:
  "rule_verdict E lower depth exe pattern row = Match spec \<longleftrightarrow>
     pattern_matches_prefix pattern lower \<and> when_admits E (row_when row) depth exe \<and> spec = rule_spec pattern row"
  by (auto simp: rule_verdict_def when_admits_def depth_shortfall_def split: option.splits if_splits)

lemma trace_step_view:
  "scan_view (trace_step E lower depth exe st kv) = full_step E lower depth exe (scan_view st) kv"
proof -
  obtain chain best df where st: "st = (chain, best, df)" by (cases st)
  obtain k v where kv: "kv = (k, v)" by (cases kv)
  show ?thesis
  proof (cases "k = [] \<or> rule_decode E v = None")
    case True
    then show ?thesis
      by (auto simp: st kv scan_view_def trace_step_def full_step_def)
  next
    case False
    then obtain row where row: "rule_decode E v = Some row" and k: "k \<noteq> []" by auto
    show ?thesis
    proof (cases "rule_verdict E lower depth exe k row")
      case (Match spec)
      with rule_verdict_match [of E lower depth exe k row spec] k row show ?thesis
        by (simp add: st kv scan_view_def trace_step_def full_step_def Let_def)
    next
      case (Skip reason)
      with rule_verdict_match [of E lower depth exe k row "rule_spec k row"] k row show ?thesis
        by (auto simp: st kv scan_view_def trace_step_def full_step_def Let_def)
    qed
  qed
qed

lemma trace_fold_view:
  "scan_view (foldl (trace_step E lower depth exe) st kvs) = foldl (full_step E lower depth exe) (scan_view st) kvs"
  by (induction kvs arbitrary: st) (simp_all add: trace_step_view)

definition traced_match ::
    "considered_rule list \<times> (nat \<times> string \<times> rule_row) option \<times> rule_row option \<Rightarrow> rule_row option" where
  "traced_match st = (case fst (snd st) of Some (s, k, r) \<Rightarrow> Some r | None \<Rightarrow> snd (snd st))"

lemma traced_match_scan:
  assumes "open_r db RULES = Inr t"
  shows "traced_match (foldl (trace_step E lower depth exe) ([], None, None) (tb_iter E t)) = db_best_rule_match E db lower depth exe"
proof -
  define st where "st = foldl (trace_step E lower depth exe) ([], None, None) (tb_iter E t)"
  have "foldl (full_step E lower depth exe) (None, None) (tb_iter E t) = scan_view st"
    using trace_fold_view [of E lower depth exe "([], None, None)" "tb_iter E t"] by (simp add: st_def scan_view_def)
  then have "db_best_rule_match E db lower depth exe = traced_match st"
    by (auto simp: db_best_rule_match_def best_rule_match_full_def assms scan_view_def traced_match_def option.map_comp comp_def
        option.map_ident split: option.splits)
  then show ?thesis by (simp add: st_def)
qed

text \<open>What the rule loop reports, as a function of the matched row.\<close>

definition row_mode :: "rule_row option \<Rightarrow> bool \<Rightarrow> rule_mode" where
  "row_mode matched w =
     (case matched of Some row \<Rightarrow> if w then mode_write row else mode_read row
      | None \<Rightarrow> if w then RM_Cow else RM_Passthrough)"

lemma traced_by_rules_result:
  fixes E :: "('t, 'e) fs_env_scheme"
  assumes t: "open_r (p_db p) RULES = Inr t" and "matched = db_best_rule_match E (p_db p) lower depth exe"
    and "m = row_mode matched w" and r: "r = traced_by_rules E p lower w depth exe t"
  shows "td_rule_id r = map_option row_id matched"
    "(td_decision r, td_target r) =
       (if m = RM_Passthrough \<and> \<not> w then
          (case lookup E (p_db p) OVERLAY_IDX lower of
             Some ov \<Rightarrow> (RM_Cow, Some ov)
           | None \<Rightarrow> (case physical_overlay_path E lower (p_layout p) of
                Some ov \<Rightarrow> (RM_Cow, Some ov) | None \<Rightarrow> (RM_Passthrough, None)))
        else (m, if m = RM_Deny \<or> m = RM_Passthrough then None else Some (mirror_into_overlay_layout lower (p_layout p))))"
proof -
  obtain chain best df where st: "foldl (trace_step E lower depth exe) ([], None, None) (tb_iter E t) = (chain, best, df)"
    by (metis prod.exhaust)
  have matched: "(case best of Some (s, k, r) \<Rightarrow> Some r | None \<Rightarrow> df) = matched"
    using traced_match_scan [OF t, of E lower depth exe] by (auto simp: st traced_match_def assms(2) split: option.splits)
  show "td_rule_id r = map_option row_id matched"
    by (cases matched) (simp_all add: r traced_by_rules_def st matched Let_def case_prod_beta)
  show "(td_decision r, td_target r) =
       (if m = RM_Passthrough \<and> \<not> w then
          (case lookup E (p_db p) OVERLAY_IDX lower of
             Some ov \<Rightarrow> (RM_Cow, Some ov)
           | None \<Rightarrow> (case physical_overlay_path E lower (p_layout p) of
                Some ov \<Rightarrow> (RM_Cow, Some ov) | None \<Rightarrow> (RM_Passthrough, None)))
        else (m, if m = RM_Deny \<or> m = RM_Passthrough then None else Some (mirror_into_overlay_layout lower (p_layout p))))"
    by (cases m; cases matched)
      (auto simp: assms(3) row_mode_def r traced_by_rules_def st matched Let_def case_prod_beta split: option.splits if_splits)
qed

section \<open>Agreement with the decision\<close>

text \<open>How a mode of the engine is displayed.\<close>

definition mode_shown :: "mode \<Rightarrow> rule_mode \<Rightarrow> bool" where
  "mode_shown m r \<longleftrightarrow>
     (case m of
        Passthrough \<Rightarrow> r = RM_Passthrough
      | Hidden \<Rightarrow> r = RM_Passthrough
      | Deny \<Rightarrow> r = RM_Deny
      | Cow \<Rightarrow> r = RM_Cow \<or> r = RM_Redirect
      | Mock \<Rightarrow> r = RM_Cow)"

text \<open>
  for a path in normal form and a current snapshot, the traced decision shows the mode the sandbox uses,
  marks exactly the hidden paths with the rule id \<^verbatim>\<open>whiteout\<close>, and names the target the sandbox uses unless a
  copy-on-write rule meets a recorded overlay file, whose location only \<open>compute\<close> looks up.
\<close>

theorem traced_decision_agrees:
  assumes "redb_lawful E" and "read_fault E = None" and "snapshot_load E (p_db p) = Inr (p_snapshot p)"
    and "open_r (p_db p) RULES = Inr t"
    and "index_key E path = path" and "fold_dos_dots path = path" and "\<not> has_wildcard path"
  shows "mode_shown (d_mode (compute E p path w depth exe)) (td_decision (decide_traced E p path w depth exe)) \<and>
    (td_target (decide_traced E p path w depth exe) = d_overlay (compute E p path w depth exe) \<or>
     d_mode (compute E p path w depth exe) = Cow \<and> has_overlay E p path) \<and>
    (d_mode (compute E p path w depth exe) = Hidden \<longrightarrow> td_rule_id (decide_traced E p path w depth exe) = Some ''whiteout'')"
proof -
  have hid: "(is_whiteouted E p path \<and> \<not> (has_overlay E p path \<or> physical_overlay_path E path (p_layout p) \<noteq> None)) =
      hidden_by_whiteout E p path"
    by (auto simp: is_whiteouted_def has_overlay_def hidden_by_whiteout_def alive_in_overlay_def assms(5))
  have mocks: "db_find_mock_payload E (p_db p) path = find_mock_payload (p_snapshot p) path"
    "db_matched_mock_dir E (p_db p) path = matched_mock_dir (p_snapshot p) path"
    "db_best_rule_match E (p_db p) path depth exe = best_rule_match (p_snapshot p) path depth exe"
    using snapshot_mock_payload [OF assms(1,3,7)] snapshot_mock_dir [OF assms(3)] snapshot_rule_match [OF assms(1,3)] by simp_all
  have d: "decide_traced E p path w depth exe =
     (if in_project E p path w then simple_trace RM_Passthrough None None
      else if hidden_by_whiteout E p path then simple_trace RM_Passthrough None (Some ''whiteout'')
      else (case find_mock_payload (p_snapshot p) path of
          Some payload \<Rightarrow>
            (simple_trace RM_Cow (Some (mirror_into_overlay_layout path (p_layout p))) None)\<lparr>td_mock_match := Some path\<rparr>
        | None \<Rightarrow>
            (case matched_mock_dir (p_snapshot p) path of
               Some m \<Rightarrow>
                 (simple_trace RM_Cow (Some (mirror_into_overlay path (p_mock_root p))) None)\<lparr>td_mockdir_match := Some m\<rparr>
             | None \<Rightarrow> traced_by_rules E p path w depth exe t)))"
    unfolding decide_traced_def index_key_def [symmetric] assms(2,4-6) hid mocks Let_def sum.case by simp
  show ?thesis
  proof (cases rule: compute_cases [of E p path w depth exe])
    case project
    then show ?thesis by (simp add: d assms(5) simple_trace_def compute_parts mode_shown_def)
  next
    case hidden
    then show ?thesis by (simp add: d assms(5) simple_trace_def compute_parts mode_shown_def)
  next
    case (mock payload)
    then show ?thesis by (simp add: d assms(5) simple_trace_def mode_shown_def)
  next
    case mockdir
    then show ?thesis by (auto simp: d assms(5) simple_trace_def compute_parts mode_shown_def)
  next
    case (ruled m)
    have m: "m = row_mode (db_best_rule_match E (p_db p) path depth exe) w"
      using ruled(5) by (auto simp: row_mode_def rule_modes_def mocks assms(5) split: option.splits)
    have tr: "decide_traced E p path w depth exe = traced_by_rules E p path w depth exe t"
      using ruled(1-4) by (simp add: d assms(5))
    show ?thesis
      using traced_by_rules_result(2) [OF assms(4) refl m tr] ruled(6)
      by (cases m) (auto simp: assms(5) compute_parts mode_shown_def has_overlay_def split: option.splits if_splits)
  qed
qed

text \<open>A policy whose rules table exists and is empty, with its snapshot.\<close>

definition ruled_policy :: "(string \<times> string) list policy" where
  "ruled_policy = sample_policy\<lparr>p_db := put_table empty_database RULES []\<rparr>"

theorem traced_decision_agrees_witness:
  "mode_shown (d_mode (compute sample_fs ruled_policy (win ''c:|f'') True None None))
     (td_decision (decide_traced sample_fs ruled_policy (win ''c:|f'') True None None)) \<and>
   d_mode (compute sample_fs ruled_policy (win ''c:|f'') True None None) = Cow"
proof -
  have s: "snapshot_load sample_fs (p_db ruled_policy) = Inr (p_snapshot ruled_policy)"
    by (simp add: ruled_policy_def snapshot_load_def read_txn_def table_entries_def open_r_def empty_database_def
        empty_snapshot_def index_build_def sample_fs_engine sample_env_def list_table_env_def)
  have m: "fold_dos_dots (win ''c:|f'') = win ''c:|f''" "\<not> has_wildcard (win ''c:|f'')" by code_simp+
  have "open_r (p_db ruled_policy) RULES = Inr []" by (simp add: ruled_policy_def open_r_def)
  from traced_decision_agrees [OF _ _ s this sample_keys(3) m, of True None None]
  have "mode_shown (d_mode (compute sample_fs ruled_policy (win ''c:|f'') True None None))
     (td_decision (decide_traced sample_fs ruled_policy (win ''c:|f'') True None None))" by simp
  moreover have "d_mode (compute sample_fs ruled_policy (win ''c:|f'') True None None) = Cow"
  proof -
    have "in_project sample_fs ruled_policy k w = in_project sample_fs sample_policy k w" for k w
      by (simp add: in_project_def ruled_policy_def)
    moreover have "lookup sample_fs (p_db ruled_policy) n k = None" for n k
      by (simp add: lookup_view tview_def ruled_policy_def empty_database_def sample_fs_engine sample_env_def list_table_env_def)
    moreover have "p_snapshot ruled_policy = empty_snapshot" by (simp add: ruled_policy_def)
    ultimately show ?thesis
      using sample_not_in_project [of True]
      by (simp add: compute_def index_key_def [symmetric] sample_keys hidden_by_whiteout_def cow_decision_def Let_def)
  qed
  ultimately show ?thesis by simp
qed

end
