(* ===== verification/Memo.thy ===== *)
theory Memo
  imports Prelude
begin

text \<open>
  Caches in front of a computation: the interface of the decision caches and of the scan cache, which the components
  interpret on their own keys and computations.
\<close>

text \<open>A bounded cache in front of a function of the state; two inputs may share a key.\<close>

locale memo =
  fixes key :: "'a \<Rightarrow> 'k" and comp :: "'a \<Rightarrow> 'd" and store :: "('k \<Rightarrow> 'd option) \<Rightarrow> 'k \<Rightarrow> 'd \<Rightarrow> 'k \<Rightarrow> 'd option"
  assumes store_le: "store c k d \<subseteq>\<^sub>m c(k \<mapsto> d)"
begin

definition coherent :: "('k \<Rightarrow> 'd option) \<Rightarrow> bool" where
  "coherent c \<longleftrightarrow> (\<forall>k d. c k = Some d \<longrightarrow> (\<exists>a. key a = k \<and> d = comp a))"

lemma coherent_empty: "coherent Map.empty"
  by (simp add: coherent_def)

lemma coherent_store: "coherent c \<Longrightarrow> coherent (store c (key a) (comp a))"
  unfolding coherent_def
proof (intro allI impI)
  fix k d
  assume c: "\<forall>k d. c k = Some d \<longrightarrow> (\<exists>a. key a = k \<and> d = comp a)"
    and "store c (key a) (comp a) k = Some d"
  then have "(c(key a \<mapsto> comp a)) k = Some d"
    using store_le [of c "key a" "comp a"] by (simp add: map_le_def dom_def)
  with c show "\<exists>a. key a = k \<and> d = comp a" by (auto split: if_splits)
qed

lemma hit: "coherent c \<Longrightarrow> c (key a) = Some d \<Longrightarrow> \<exists>b. key b = key a \<and> d = comp b"
  by (auto simp: coherent_def)

lemma hit_unique: "coherent c \<Longrightarrow> c (key a) = Some d \<Longrightarrow> (\<And>b. key b = key a \<Longrightarrow> comp b = comp a) \<Longrightarrow> d = comp a"
  using hit by blast

text \<open>The same relative to the inputs that were computed so far: those alone must not collide.\<close>

definition coherent_on :: "'a set \<Rightarrow> ('k \<Rightarrow> 'd option) \<Rightarrow> bool" where
  "coherent_on A c \<longleftrightarrow> (\<forall>k d. c k = Some d \<longrightarrow> (\<exists>a \<in> A. key a = k \<and> d = comp a))"

lemma coherent_on_empty: "coherent_on A Map.empty"
  by (simp add: coherent_on_def)

lemma coherent_on_mono: "coherent_on A c \<Longrightarrow> A \<subseteq> B \<Longrightarrow> coherent_on B c"
  unfolding coherent_on_def by blast

lemma coherent_on_store: "coherent_on A c \<Longrightarrow> a \<in> A \<Longrightarrow> coherent_on A (store c (key a) (comp a))"
  unfolding coherent_on_def
proof (intro allI impI)
  fix k d
  assume c: "\<forall>k d. c k = Some d \<longrightarrow> (\<exists>a \<in> A. key a = k \<and> d = comp a)" and a: "a \<in> A"
    and "store c (key a) (comp a) k = Some d"
  then have "(c(key a \<mapsto> comp a)) k = Some d"
    using store_le [of c "key a" "comp a"] by (simp add: map_le_def dom_def)
  with c a show "\<exists>a \<in> A. key a = k \<and> d = comp a" by (auto split: if_splits)
qed

lemma hit_in: "coherent_on A c \<Longrightarrow> c (key a) = Some d \<Longrightarrow> \<exists>b \<in> A. key b = key a \<and> d = comp b"
  by (auto simp: coherent_on_def)

lemma hit_on: "coherent_on A c \<Longrightarrow> inj_on key A \<Longrightarrow> a \<in> A \<Longrightarrow> c (key a) = Some d \<Longrightarrow> d = comp a"
  unfolding coherent_on_def by (metis inj_onD)

end

end
