(* ===== verification/PolicyRuns.thy ===== *)
theory PolicyRuns
  imports Trace Memo
begin

text \<open>
  Runs of the policy object: after it was opened, decisions, guest bookkeeping, rule changes and migrations follow
  in any order, any write may fail, and between any two steps the file system may change in any way. In every
  reachable state each cached decision is the one of the current rules and records on the file system of a moment
  since the cache was last empty, the snapshot is the one of the stored rules, and the in-memory children index is
  the one of the overlay index.
\<close>

section \<open>Failing writes\<close>

text \<open>A decision does not depend on whether writes fail.\<close>

abbreviation faulty :: "('t, 'e) fs_env_scheme \<Rightarrow> policy_error option \<Rightarrow> ('t, 'e) fs_env_scheme" where
  "faulty E f \<equiv> E\<lparr>write_fault := f\<rparr>"

lemma faulty_unit [simp]: "fold_u16_unit (faulty E f) = fold_u16_unit E"
  unfolding fold_u16_unit_def fun_eq_iff by (simp split: option.splits)

lemma faulty_fold [simp]: "nt_case_fold (faulty E f) = nt_case_fold E"
  unfolding nt_case_fold_def nt_case_fold_utf16_def faulty_unit fun_eq_iff by simp

lemma faulty_lower [simp]: "ensure_lower (faulty E f) = ensure_lower E" "index_key (faulty E f) = index_key E"
  by (simp_all add: ensure_lower_def index_key_def fun_eq_iff)

lemma faulty_build [simp]: "index_build (faulty E f) rules = index_build E rules"
proof -
  have "compile_rule (faulty E f) = compile_rule E" unfolding compile_rule_def fun_eq_iff faulty_lower by simp
  then have "build_step (faulty E f) = build_step E" unfolding build_step_def fun_eq_iff by simp
  then show ?thesis by (simp add: index_build_def)
qed

lemma faulty_load [simp]: "snapshot_load (faulty E f) db = snapshot_load E db"
proof -
  have "load_rules_step (faulty E f) = load_rules_step E" unfolding load_rules_step_def fun_eq_iff by simp
  moreover have "table_entries (faulty E f) db n = table_entries E db n" for db n
    by (simp add: table_entries_def split: sum.splits)
  ultimately show ?thesis unfolding snapshot_load_def read_txn_def by (simp split: option.splits)
qed

section \<open>The file system at a moment\<close>

text \<open>The answers of the disk, which other programs change while the broker runs.\<close>

record disk =
  dk_symlink_metadata :: "string \<Rightarrow> file_meta option"
  dk_metadata :: "string \<Rightarrow> file_stat option"
  dk_is_dir :: "string \<Rightarrow> bool"
  dk_canonicalize :: "string \<Rightarrow> string option"
  dk_link_count :: "string \<Rightarrow> u32 option"

definition on_disk :: "('t, 'e) fs_env_scheme \<Rightarrow> disk \<Rightarrow> ('t, 'e) fs_env_scheme" where
  "on_disk E D = E\<lparr>symlink_metadata := dk_symlink_metadata D, fs_metadata := dk_metadata D, path_is_dir := dk_is_dir D,
     canonicalize := dk_canonicalize D, link_count := dk_link_count D\<rparr>"

lemma on_disk_store [simp]:
  "tb_get (on_disk E D) = tb_get E" "read_fault (on_disk E D) = read_fault E" "cache_store (on_disk E D) = cache_store E"
  "cache_key (on_disk E D) = cache_key E" "tview (on_disk E D) = tview E"
  "redb_lawful (on_disk E D) = redb_lawful E" "cache_lawful (on_disk E D) = cache_lawful E"
  "table_entries (on_disk E D) db n = table_entries E db n"
  by (simp_all add: on_disk_def cache_key_def tview_def redb_lawful_def cache_lawful_def table_entries_def fun_eq_iff
      split: option.splits sum.splits)

lemma on_disk_later [simp]: "on_disk (on_disk E D) D' = on_disk E D'"
  by (simp add: on_disk_def)

lemma on_disk_unit [simp]: "fold_u16_unit (on_disk E D) = fold_u16_unit E"
  unfolding fold_u16_unit_def fun_eq_iff on_disk_def by (simp split: option.splits)

lemma on_disk_fold [simp]: "nt_case_fold (on_disk E D) = nt_case_fold E"
  unfolding nt_case_fold_def nt_case_fold_utf16_def on_disk_unit fun_eq_iff by (simp add: on_disk_def)

lemma on_disk_lower [simp]: "ensure_lower (on_disk E D) = ensure_lower E"
  by (simp add: ensure_lower_def fun_eq_iff)

lemma on_disk_load [simp]: "snapshot_load (on_disk E D) db = snapshot_load E db"
proof -
  have "compile_rule (on_disk E D) = compile_rule E" unfolding compile_rule_def fun_eq_iff on_disk_lower by simp
  then have "build_step (on_disk E D) = build_step E" unfolding build_step_def fun_eq_iff by simp
  then have "index_build (on_disk E D) rules = index_build E rules" for rules by (simp add: index_build_def)
  moreover have "load_rules_step (on_disk E D) = load_rules_step E"
    unfolding load_rules_step_def fun_eq_iff on_disk_lower by (simp add: on_disk_def)
  ultimately show ?thesis
    unfolding snapshot_load_def read_txn_def on_disk_store on_disk_lower by (simp split: option.splits)
qed

section \<open>Steps and reachable states\<close>

text \<open>
  The broker runs a relayed operation against the shared database and refreshes the snapshot when the
  operation touches it (the file-system part of \<^verbatim>\<open>execute_policy_mutate\<close>).
\<close>

definition policy_mutate :: "('t, 'e) fs_env_scheme \<Rightarrow> policy_op \<Rightarrow> 't policy \<Rightarrow> (policy_error + policy_op_result) \<times> 't policy" where
  "policy_mutate E op p =
     (case exec E op (p_db p) of
        (Inl e, db) \<Rightarrow> (Inl e, p\<lparr>p_db := db\<rparr>)
      | (Inr r, db) \<Rightarrow>
          if touches_fs_snapshot op then
            (case invalidate_snapshot E (p\<lparr>p_db := db\<rparr>) of
               (Inl e, p') \<Rightarrow> (Inl e, p')
             | (Inr u, p') \<Rightarrow> (Inr r, p'))
          else (Inr r, p\<lparr>p_db := db\<rparr>))"

inductive policy_step :: "('t, 'e) fs_env_scheme \<Rightarrow> 't policy \<Rightarrow> 't policy \<Rightarrow> bool" for E where
  Decide: "policy_step E p (snd (decide_with_context E p path w d e))"
| NetDecide: "policy_step E p (snd (policy_net_decide E host port p))"
| RecordOverlay: "policy_step E p (snd (record_overlay (faulty E f) orig ov p))"
| ClearOverlay: "policy_step E p (snd (clear_overlay (faulty E f) path p))"
| RecordCase: "policy_step E p (record_overlay_case (faulty E f) path base p)"
| RecordWhiteout: "policy_step E p (snd (record_whiteout (faulty E f) path p))"
| ClearWhiteout: "policy_step E p (snd (clear_whiteout (faulty E f) path p))"
| Upsert: "policy_step E p (snd (policy_rule_upsert (faulty E f) row p))"
| Remove: "policy_step E p (snd (policy_rule_remove (faulty E f) pfx p))"
| Defaults: "policy_step E p (snd (policy_defaults_set (faulty E f) rd wr p))"
| LoadConfig: "policy_step E p (snd (load_config (faulty E f) cfg p))"
| Mutate: "policy_step E p (snd (policy_mutate (faulty E f) op p))"
| Rebase: "policy_step E p (snd (rebase_overlay_root (faulty E f) old new p))"
| LegacyRebase: "policy_step E p (snd (rebase_legacy_c_overlay_and_mark_complete (faulty E f) old new p))"

text \<open>
  A step sees the disk of its moment, and the next step may see any other one. A reachable state comes with
  the disks of the steps since the cache was last empty.
\<close>

definition moments :: "disk \<Rightarrow> disk list \<Rightarrow> 't policy \<Rightarrow> disk list" where
  "moments D Ds p = (if p_cache p = Map.empty then [] else D # Ds)"

inductive policy_reach :: "('t, 'e) fs_env_scheme \<Rightarrow> disk list \<Rightarrow> 't policy \<Rightarrow> bool" for E where
  opened: "open_or_create_with_layout (faulty E f) created layout mock_root project_root = Inr p \<Longrightarrow> policy_reach E [] p"
| stepped: "policy_reach E Ds p \<Longrightarrow> policy_step (on_disk E D) p p' \<Longrightarrow> policy_reach E (moments D Ds p') p'"

section \<open>What a step can change\<close>

text \<open>
  The summary of a step that the invariants need: what it leaves alone, and what it does with the cache and the
  children index when it changes the overlay index or the whiteouts.
\<close>

definition kept :: "('t, 'e) fs_env_scheme \<Rightarrow> 't policy \<Rightarrow> 't policy \<Rightarrow> bool" where
  "kept E p p' \<longleftrightarrow>
     p_layout p' = p_layout p \<and> p_mock_root p' = p_mock_root p \<and> p_project_root p' = p_project_root p"

text \<open>The decision-relevant state is unchanged.\<close>

definition decides_same :: "('t, 'e) fs_env_scheme \<Rightarrow> 't policy \<Rightarrow> 't policy \<Rightarrow> bool" where
  "decides_same E p p' \<longleftrightarrow>
     kept E p p' \<and> p_snapshot p' = p_snapshot p \<and>
     (\<forall>n\<in>{OVERLAY_IDX, WHITEOUTS}. tview E (p_db p') n = tview E (p_db p) n)"

lemma decides_same_compute: "decides_same E p p' \<Longrightarrow> compute E p' = compute E p"
proof (intro ext)
  fix q w d e
  assume s: "decides_same E p p'"
  then have look: "lookup E (p_db p') n k = lookup E (p_db p) n k" if "n \<in> {OVERLAY_IDX, WHITEOUTS}" for n k
    using that by (auto simp: lookup_view decides_same_def)
  show "compute E p' q w d e = compute E p q w d e"
    using s look by (intro compute_frame) (auto simp: decides_same_def kept_def hidden_by_whiteout_def alive_in_overlay_def)
qed

text \<open>Writes of rules: an error changes nothing, and the overlay tables are never touched.\<close>

definition overlay_frame :: "('t, 'e) fs_env_scheme \<Rightarrow> 't database \<Rightarrow> 't database \<Rightarrow> bool" where
  "overlay_frame E db db' \<longleftrightarrow> (\<forall>n\<in>{OVERLAY_IDX, WHITEOUTS}. tview E db' n = tview E db n)"

definition rules_write :: "('t, 'e) fs_env_scheme \<Rightarrow> 't database \<Rightarrow> (policy_error + 'r) \<times> 't database \<Rightarrow> bool" where
  "rules_write E db w \<longleftrightarrow> (\<forall>e. fst w = Inl e \<longrightarrow> snd w = db) \<and> overlay_frame E db (snd w)"

lemma exec_rules_write: "redb_lawful E \<Longrightarrow> rules_write E db (exec (faulty E f) op db)"
proof (cases "exec (faulty E f) op db")
  case (Pair r db')
  assume law: "redb_lawful E"
  show ?thesis
  proof (cases r)
    case (Inl e)
    with Pair exec_error [of "faulty E f" op db e db'] show ?thesis by (simp add: rules_write_def overlay_frame_def)
  next
    case (Inr x)
    have "tview (faulty E f) db' = abs_exec (faulty E f) op (tview (faulty E f) db)"
      using exec_abs [of "faulty E f" op db x db'] Pair Inr law by simp
    then show ?thesis using abs_exec_frame(3) [of _ "faulty E f" op "tview E db"] Pair Inr
      by (simp add: rules_write_def overlay_frame_def)
  qed
qed

lemma rules_write_run: "rules_write E db (run_write g w) = rules_write E db w"
  by (cases w; cases "fst w") (auto simp: rules_write_def run_write_def)

lemma config_write: "redb_lawful E \<Longrightarrow> rules_write E db (apply_config (faulty E f) cfg db)"
proof (cases "apply_config (faulty E f) cfg db")
  case (Pair r db')
  assume law: "redb_lawful E"
  show ?thesis
  proof (cases r)
    case (Inl e)
    with Pair write_try_cases(2) [of "faulty E f" "apply_config_body (faulty E f) cfg" db e db'] show ?thesis
      by (simp add: rules_write_def overlay_frame_def apply_config_def)
  next
    case (Inr u)
    then have "apply_config (faulty E f) cfg db = (Inr (), db')" using Pair by simp
    from apply_config_view(4) [OF _ this] law Pair Inr show ?thesis by (simp add: rules_write_def overlay_frame_def)
  qed
qed

lemmas rules_writes =
  exec_rules_write [where op = "RuleUpsert row" for row, simplified, unfolded rules_write_run]
  exec_rules_write [where op = "RuleRemoveByPrefix pfx" for pfx, simplified, unfolded rules_write_run]
  exec_rules_write [where op = "DefaultsSet rd wr" for rd wr, simplified, unfolded rules_write_run]
  config_write

section \<open>The children of a directory\<close>

definition child_names :: "('t, 'e) fs_env_scheme \<Rightarrow> 't database \<Rightarrow> string \<Rightarrow> string set" where
  "child_names E db parent = {name. bslash \<notin> set name \<and> tview E db OVERLAY_IDX (parent @ bslash # name) \<noteq> None}"

definition children_of :: "string set \<Rightarrow> string list option" where
  "children_of S = (if S = {} then None else Some (sorted_list_of_set S))"

text \<open>The in-memory index is the one of the table. The parent \<open>[]\<close> is never looked up.\<close>

definition children_current :: "('t, 'e) fs_env_scheme \<Rightarrow> 't policy \<Rightarrow> bool" where
  "children_current E p \<longleftrightarrow> (\<forall>parent. parent \<noteq> [] \<longrightarrow> children_idx p parent = children_of (child_names E (p_db p) parent))"

lemma split_parent_iff:
  "parent \<noteq> [] \<Longrightarrow> split_parent key = (parent, name) \<longleftrightarrow> key = parent @ bslash # name \<and> bslash \<notin> set name"
  using rsplit_once_Some [of bslash key parent name] rsplit_once_None [of bslash key]
  by (cases "rsplit_once bslash key") (auto simp: split_parent_def)

lemma tview_finite: "redb_lawful E \<Longrightarrow> finite (dom (tview E db n))"
  by (metis finite_dom_map_of tentries_view(1))

lemma child_names_finite: "redb_lawful E \<Longrightarrow> finite (child_names E db parent)"
proof -
  assume "redb_lawful E"
  then have "finite {k \<in> dom (tview E db OVERLAY_IDX). True}" by (simp add: tview_finite)
  moreover have "(\<lambda>name. parent @ bslash # name) ` child_names E db parent \<subseteq> {k \<in> dom (tview E db OVERLAY_IDX). True}"
    by (auto simp: child_names_def)
  ultimately have "finite ((\<lambda>name. parent @ bslash # name) ` child_names E db parent)" by (rule finite_subset [rotated])
  then show ?thesis by (rule finite_imageD) (auto simp: inj_on_def)
qed

lemma sorted_remdups_adj_distinct: "sorted xs \<Longrightarrow> distinct (remdups_adj xs)"
  by (induction xs rule: remdups_adj.induct) (auto simp: order.antisym)

lemma sort_dedup_set: "sort_dedup xs = sorted_list_of_set (set xs)"
proof -
  have "sorted (remdups_adj (sort xs))" by simp
  moreover have "distinct (remdups_adj (sort xs))" by (simp add: sorted_remdups_adj_distinct)
  ultimately show ?thesis
    by (simp add: sort_dedup_def sorted_distinct_set_unique)
qed

lemma build_children_of:
  assumes "redb_lawful E" and "parent \<noteq> []"
  shows "build_children (table_entries E db OVERLAY_IDX) parent = children_of (child_names E db parent)"
proof -
  define ks where "ks = map fst (table_entries E db OVERLAY_IDX)"
  define names where "names = map (snd \<circ> split_parent) (filter (\<lambda>k. fst (split_parent k) = parent) ks)"
  have k: "k \<in> set ks \<longleftrightarrow> tview E db OVERLAY_IDX k \<noteq> None" for k
    unfolding ks_def table_entries_tentries using map_of_eq_None_iff [of "tentries E db OVERLAY_IDX" k]
    by (simp add: tentries_view(1) [OF assms(1)])
  have "name \<in> set names \<longleftrightarrow> (\<exists>k\<in>set ks. split_parent k = (parent, name))" for name
    by (auto simp: names_def image_iff prod_eq_iff)
  then have "set names = child_names E db parent"
    by (auto simp: child_names_def k split_parent_iff [OF assms(2)])
  moreover have "build_children (table_entries E db OVERLAY_IDX) parent = (if names = [] then None else Some (sort_dedup names))"
    by (simp add: build_children_def names_def ks_def Let_def)
  ultimately show ?thesis
    by (auto simp: children_of_def sort_dedup_set)
qed

text \<open>A new key adds its name to one parent, a removed key takes it away.\<close>

lemma children_of_list: "finite S \<Longrightarrow> unwrap_or (children_of S) [] = sorted_list_of_set S"
  by (simp add: children_of_def unwrap_or_def)

lemma index_add_parent:
  assumes "split_parent key = (parent', name)" and "idx parent = children_of S" and "finite S"
  shows "index_add key idx parent = children_of (if parent' = parent then insert name S else S)"
proof (cases "parent' = parent")
  case True
  have "insert_child name (sorted_list_of_set S) = sorted_list_of_set (insert name S)"
  proof (cases "name \<in> S")
    case True
    then have "insert name S = S" by auto
    with True assms(3) show ?thesis by (simp add: insert_child_def)
  next
    case False
    with assms(3) show ?thesis by (simp add: insert_child_def)
  qed
  with True assms show ?thesis
    by (simp add: index_add_def children_of_list) (simp add: children_of_def)
next
  case False
  with assms show ?thesis by (simp add: index_add_def)
qed

lemma index_drop_parent:
  assumes "split_parent key = (parent', name)" and "idx parent = children_of S" and "finite S"
  shows "index_drop key idx parent = children_of (if parent' = parent then S - {name} else S)"
proof (cases "parent' = parent")
  case True
  have "remove1 name (sorted_list_of_set S) = sorted_list_of_set (S - {name})"
    using assms(3) by (simp add: sorted_list_of_set_remove)
  moreover have "sorted_list_of_set (S - {name}) = [] \<longleftrightarrow> S - {name} = {}" using assms(3) by simp
  ultimately show ?thesis using True assms
    by (auto simp: index_drop_def children_of_def split: option.splits)
next
  case False
  with assms show ?thesis by (auto simp: index_drop_def Let_def split: option.splits)
qed

section \<open>The invariant\<close>

text \<open>
  What a decision is computed from: the disk of the moment and the arguments. The key covers the
  arguments alone.
\<close>

definition policy_key :: "('t, 'e) fs_env_scheme \<Rightarrow> disk \<times> string \<times> bool \<times> u8 option \<times> string option \<Rightarrow> cache_key_t" where
  "policy_key E a = (case a of (D, path, w, d, e) \<Rightarrow> cache_key E path w d e)"

definition policy_comp :: "('t, 'e) fs_env_scheme \<Rightarrow> 't policy \<Rightarrow> disk \<times> string \<times> bool \<times> u8 option \<times> string option \<Rightarrow> decision" where
  "policy_comp E p a = (case a of (D, path, w, d, e) \<Rightarrow> compute (on_disk E D) p path w d e)"

definition lawful_store :: "('t, 'e) fs_env_scheme \<Rightarrow> decision_cache \<Rightarrow> cache_key_t \<Rightarrow> decision \<Rightarrow> decision_cache" where
  "lawful_store E = (if cache_lawful E then cache_store E else (\<lambda>c k d. c(k \<mapsto> d)))"

interpretation decisions: memo "policy_key E" "policy_comp E p" "lawful_store E"
  for E :: "('t, 'e) fs_env_scheme" and p
  by unfold_locales (simp add: lawful_store_def cache_lawful_def)

definition cache_coherent :: "('t, 'e) fs_env_scheme \<Rightarrow> disk list \<Rightarrow> 't policy \<Rightarrow> bool" where
  "cache_coherent E Ds p \<longleftrightarrow>
     memo.coherent_on (policy_key E) (policy_comp E p) {a. fst a \<in> set Ds} (p_cache p)"

definition snapshot_current :: "('t, 'e) fs_env_scheme \<Rightarrow> 't policy \<Rightarrow> bool" where
  "snapshot_current E p \<longleftrightarrow> (read_fault E = None \<longrightarrow> snapshot_load E (p_db p) = Inr (p_snapshot p))"

definition policy_inv :: "('t, 'e) fs_env_scheme \<Rightarrow> disk list \<Rightarrow> 't policy \<Rightarrow> bool" where
  "policy_inv E Ds p \<longleftrightarrow> cache_coherent E Ds p \<and> snapshot_current E p \<and> children_current E p"

text \<open>None of it depends on the disk of the moment, except through the disks listed.\<close>

lemma on_disk_inv [simp]: "policy_inv (on_disk E D) Ds p = policy_inv E Ds p"
proof -
  have "policy_key (on_disk E D) = policy_key E" "policy_comp (on_disk E D) p = policy_comp E p"
    by (simp_all add: policy_key_def policy_comp_def fun_eq_iff)
  moreover have "child_names (on_disk E D) = child_names E" by (simp add: child_names_def fun_eq_iff)
  ultimately show ?thesis
    by (simp add: policy_inv_def cache_coherent_def snapshot_current_def children_current_def)
qed

lemma cache_empty_coherent: "p_cache p = Map.empty \<Longrightarrow> cache_coherent E Ds p"
  using decisions.coherent_on_empty [of E p] by (simp add: cache_coherent_def)

lemma coherent_same:
  assumes "decides_same E p p'" and "p_cache p' = p_cache p" and "cache_coherent E Ds p"
  shows "cache_coherent E Ds p'"
proof -
  have "decides_same (on_disk E D) p p'" for D using assms(1) by (simp add: decides_same_def kept_def)
  note decides_same_compute [OF this]
  then have "policy_comp E p' = policy_comp E p" by (simp add: policy_comp_def fun_eq_iff)
  with assms(2,3) show ?thesis by (simp add: cache_coherent_def)
qed

lemma coherent_more: "cache_coherent E Ds p \<Longrightarrow> cache_coherent E (D # Ds) p"
  unfolding cache_coherent_def by (rule decisions.coherent_on_mono) auto

lemma inv_moments: "policy_inv E (D # Ds) p \<Longrightarrow> policy_inv E (moments D Ds p) p"
  by (simp add: policy_inv_def moments_def cache_empty_coherent)

lemma snapshot_frame:
  assumes "redb_lawful E" and "p_snapshot p' = p_snapshot p"
    and "\<forall>n\<in>{RULES, MOCKS, MOCK_DIRS}. tview E (p_db p') n = tview E (p_db p) n" and "snapshot_current E p"
  shows "snapshot_current E p'"
  using assms snapshot_load_determined [of E "p_db p'" "p_db p"] by (simp add: snapshot_current_def)

lemma children_frame:
  assumes "children_idx p' = children_idx p" and "dom (tview E (p_db p') OVERLAY_IDX) = dom (tview E (p_db p) OVERLAY_IDX)"
    and "children_current E p"
  shows "children_current E p'"
proof -
  have "tview E (p_db p') OVERLAY_IDX k \<noteq> None \<longleftrightarrow> tview E (p_db p) OVERLAY_IDX k \<noteq> None" for k
    using assms(2) by (auto simp: dom_def set_eq_iff)
  then have "child_names E (p_db p') = child_names E (p_db p)" by (simp add: child_names_def fun_eq_iff)
  with assms(1,3) show ?thesis by (simp add: children_current_def)
qed

subsection \<open>Steps without effect on decisions\<close>

lemma inv_quiet:
  assumes "redb_lawful E" and "policy_inv E Ds p" and "decides_same E p p'" and "p_cache p' = p_cache p"
    and "children_idx p' = children_idx p"
    and "read_fault E = None \<Longrightarrow> \<forall>n\<in>{RULES, MOCKS, MOCK_DIRS}. tview E (p_db p') n = tview E (p_db p) n"
  shows "policy_inv E Ds p'"
proof -
  have "snapshot_current E p'"
    using assms(1,2,3,6) snapshot_frame [of E p' p]
    by (cases "read_fault E") (auto simp: policy_inv_def decides_same_def snapshot_current_def)
  moreover have "children_current E p'"
    using assms(2,3,5) by (intro children_frame [of p' p]) (auto simp: policy_inv_def decides_same_def)
  ultimately show ?thesis using assms(2) coherent_same [OF assms(3,4)] by (simp add: policy_inv_def)
qed

lemma inv_decide:
  assumes "cache_lawful E" and "policy_inv E Ds p" and D: "on_disk E D = E"
  shows "policy_inv E (D # Ds) (snd (decide_with_context E p path w d e))"
proof -
  define a where "a = (D, fold_dos_dots (ensure_lower E path), w, d, e)"
  have inv: "policy_inv E (D # Ds) p" using assms(2) by (simp add: policy_inv_def coherent_more)
  show ?thesis
  proof (cases "p_cache p (policy_key E a)")
    case (Some x)
    then have "snd (decide_with_context E p path w d e) = p"
      by (simp add: decide_with_context_def a_def policy_key_def Let_def)
    with inv show ?thesis by simp
  next
    case None
    define p' where "p' = p\<lparr>p_cache := cache_store E (p_cache p) (policy_key E a) (policy_comp E p a)\<rparr>"
    from None have d: "snd (decide_with_context E p path w d e) = p'"
      by (simp add: decide_with_context_def a_def policy_key_def policy_comp_def p'_def Let_def D)
    have "decides_same (on_disk E D') p p'" for D' by (simp add: decides_same_def kept_def p'_def)
    note decides_same_compute [OF this]
    then have "policy_comp E p' = policy_comp E p" by (simp add: policy_comp_def fun_eq_iff)
    moreover have "memo.coherent_on (policy_key E) (policy_comp E p) {a. fst a \<in> set (D # Ds)} (p_cache p')"
      using decisions.coherent_on_store [of E p "{a. fst a \<in> set (D # Ds)}" "p_cache p" a] assms(1) inv
      by (simp add: p'_def a_def lawful_store_def policy_inv_def cache_coherent_def)
    ultimately have "cache_coherent E (D # Ds) p'" by (simp add: cache_coherent_def)
    moreover have "snapshot_current E p'" "children_current E p'"
      using inv by (simp_all add: p'_def policy_inv_def snapshot_current_def children_current_def)
    ultimately show ?thesis by (simp add: d policy_inv_def)
  qed
qed

subsection \<open>Bookkeeping steps\<close>

lemma child_names_put:
  assumes ne: "parent \<noteq> []" and sp: "split_parent key = (par, name)"
    and v: "tview E db' OVERLAY_IDX = (tview E db OVERLAY_IDX)(key := val)"
  shows "child_names E db' parent =
    (if par = parent then if val = None then child_names E db parent - {name} else insert name (child_names E db parent)
     else child_names E db parent)"
proof (cases "par = parent")
  case True
  with split_parent_iff [OF ne, of key name] sp have "key = parent @ bslash # name" "bslash \<notin> set name" by simp_all
  with True show ?thesis by (auto simp: child_names_def v)
next
  case False
  then have "parent @ bslash # n \<noteq> key" if "bslash \<notin> set n" for n
    using split_parent_iff [OF ne, of key n] sp that by auto
  with False show ?thesis by (auto simp: child_names_def v)
qed

lemma commit_result:
  assumes "commit_policy E f after p = (r, p')"
  shows "p' = p \<or> p' = after (p\<lparr>p_db := snd (f (p_db p)), p_cache := Map.empty\<rparr>)"
  using assms by (cases r) (auto simp: commit_policy_cases)

lemma inv_committed:
  assumes "redb_lawful E" and "policy_inv E Ds p" and "p_cache p' = Map.empty" and "p_snapshot p' = p_snapshot p"
    and "\<forall>n\<in>{RULES, MOCKS, MOCK_DIRS}. tview E (p_db p') n = tview E (p_db p) n"
    and "children_current E p'"
  shows "policy_inv E Ds p'"
  using assms cache_empty_coherent [OF assms(3)] snapshot_frame [OF assms(1,4,5)] by (simp add: policy_inv_def)

lemma inv_record_overlay:
  assumes law: "redb_lawful E" and inv: "policy_inv E Ds p"
  shows "policy_inv E Ds (snd (record_overlay (faulty E f) orig ov p))"
proof (cases "record_overlay (faulty E f) orig ov p")
  case (Pair r p')
  show ?thesis
  proof (cases r)
    case (Inl e)
    with Pair have "p' = p" by (simp add: record_overlay_def commit_policy_cases Let_def)
    with inv Pair show ?thesis by simp
  next
    case (Inr u)
    define key where "key = index_key E orig"
    have v: "tview E (p_db p') = abs_put (tview E (p_db p)) OVERLAY_IDX key (Some ov)"
      and p': "p' = p\<lparr>p_db := p_db p', p_cache := Map.empty, children_idx := index_add key (children_idx p)\<rparr>"
      using record_overlay_ok [of "faulty E f" orig ov p p'] law Pair Inr by (simp_all add: key_def)
    obtain par name where sp: "split_parent key = (par, name)" by (cases "split_parent key")
    have "children_idx p' parent = children_of (child_names E (p_db p') parent)" if ne: "parent \<noteq> []" for parent
    proof -
      have "child_names E (p_db p') parent =
          (if par = parent then insert name (child_names E (p_db p) parent) else child_names E (p_db p) parent)"
        using child_names_put [OF ne sp, of E "p_db p'" "p_db p"] by (simp add: v abs_put_def)
      moreover have "children_idx p parent = children_of (child_names E (p_db p) parent)"
        using inv ne by (simp add: policy_inv_def children_current_def)
      ultimately show ?thesis
        using index_add_parent [OF sp, of "children_idx p" parent] child_names_finite [OF law, of "p_db p" parent] by (subst p') simp
    qed
    then have "children_current E p'" by (simp add: children_current_def)
    moreover have "p_cache p' = Map.empty" "p_snapshot p' = p_snapshot p" by (subst p', simp)+
    ultimately have "policy_inv E Ds p'" using law inv by (intro inv_committed [of E Ds p p']) (auto simp: v abs_put_def)
    with Pair show ?thesis by simp
  qed
qed

lemma inv_clear_overlay:
  assumes law: "redb_lawful E" and inv: "policy_inv E Ds p"
  shows "policy_inv E Ds (snd (clear_overlay (faulty E f) path p))"
proof (cases "clear_overlay (faulty E f) path p")
  case (Pair r p')
  show ?thesis
  proof (cases r)
    case (Inl e)
    with Pair have "p' = p" by (simp add: clear_overlay_def commit_policy_cases Let_def)
    with inv Pair show ?thesis by simp
  next
    case (Inr u)
    define key where "key = index_key E path"
    have v: "tview E (p_db p') = abs_put (tview E (p_db p)) OVERLAY_IDX key None"
      and p': "p' = p\<lparr>p_db := p_db p', p_cache := Map.empty, children_idx := index_drop key (children_idx p)\<rparr>"
      using clear_overlay_ok [of "faulty E f" path p p'] law Pair Inr by (simp_all add: key_def)
    obtain par name where sp: "split_parent key = (par, name)" by (cases "split_parent key")
    have "children_idx p' parent = children_of (child_names E (p_db p') parent)" if ne: "parent \<noteq> []" for parent
    proof -
      have "child_names E (p_db p') parent =
          (if par = parent then child_names E (p_db p) parent - {name} else child_names E (p_db p) parent)"
        using child_names_put [OF ne sp, of E "p_db p'" "p_db p"] by (simp add: v abs_put_def)
      moreover have "children_idx p parent = children_of (child_names E (p_db p) parent)"
        using inv ne by (simp add: policy_inv_def children_current_def)
      ultimately show ?thesis
        using index_drop_parent [OF sp, of "children_idx p" parent] child_names_finite [OF law, of "p_db p" parent] by (subst p') simp
    qed
    then have "children_current E p'" by (simp add: children_current_def)
    moreover have "p_cache p' = Map.empty" "p_snapshot p' = p_snapshot p" by (subst p', simp)+
    ultimately have "policy_inv E Ds p'" using law inv by (intro inv_committed [of E Ds p p']) (auto simp: v abs_put_def)
    with Pair show ?thesis by simp
  qed
qed

lemma inv_whiteout_update:
  assumes "redb_lawful E" and "policy_inv E Ds p" and "p' = p\<lparr>p_db := p_db p', p_cache := Map.empty\<rparr>"
    and "\<forall>n. n \<noteq> WHITEOUTS \<longrightarrow> tview E (p_db p') n = tview E (p_db p) n"
  shows "policy_inv E Ds p'"
proof -
  have eq: "p_cache p' = Map.empty" "p_snapshot p' = p_snapshot p" "children_idx p' = children_idx p" by (subst assms(3), simp)+
  then have "children_current E p'"
    using assms(2,4) by (intro children_frame [of p' p]) (auto simp: policy_inv_def)
  with assms eq show ?thesis by (intro inv_committed [of E Ds p p']) auto
qed

lemma inv_whiteouts:
  assumes law: "redb_lawful E" and inv: "policy_inv E Ds p"
  shows "policy_inv E Ds (snd (record_whiteout (faulty E f) path p))" "policy_inv E Ds (snd (clear_whiteout (faulty E f) path p))"
proof -
  show "policy_inv E Ds (snd (record_whiteout (faulty E f) path p))"
  proof (cases "record_whiteout (faulty E f) path p")
    case (Pair r p')
    show ?thesis
    proof (cases r)
      case (Inl e)
      with Pair have "p' = p" by (simp add: record_whiteout_def commit_policy_cases)
      with inv Pair show ?thesis by simp
    next
      case (Inr u)
      with record_whiteout_ok [of "faulty E f" path p p'] law Pair inv show ?thesis
        using inv_whiteout_update [OF law inv, of p'] by (simp add: abs_put_def)
    qed
  qed
  show "policy_inv E Ds (snd (clear_whiteout (faulty E f) path p))"
  proof (cases "clear_whiteout (faulty E f) path p")
    case (Pair r p')
    show ?thesis
    proof (cases r)
      case (Inl e)
      with Pair have "p' = p" by (simp add: clear_whiteout_def commit_policy_cases)
      with inv Pair show ?thesis by simp
    next
      case (Inr u)
      with clear_whiteout_ok [of "faulty E f" path p p'] law Pair inv show ?thesis
        using inv_whiteout_update [OF law inv, of p'] by simp
    qed
  qed
qed

subsection \<open>Rule changes\<close>

text \<open>After a write of the rules the snapshot is reloaded; if that fails, decisions and cache stay as they were.\<close>

lemma inv_refresh:
  assumes law: "redb_lawful E" and inv: "policy_inv E Ds p" and fr: "overlay_frame E (p_db p) db"
  shows "policy_inv E Ds (snd (refresh_after_mutation (faulty E f) (p\<lparr>p_db := db\<rparr>)))"
proof (cases "snapshot_load E db")
  case (Inl e)
  have "read_fault E \<noteq> None" using Inl by (auto simp: snapshot_load_def read_txn_def case_prod_beta Let_def split: option.splits)
  then have "policy_inv E Ds (p\<lparr>p_db := db\<rparr>)"
    using fr by (intro inv_quiet [OF law inv]) (simp_all add: decides_same_def kept_def overlay_frame_def)
  with Inl show ?thesis by (simp add: refresh_after_mutation_def)
next
  case (Inr snap)
  define p' where "p' = p\<lparr>p_db := db, p_snapshot := snap, p_cache := Map.empty\<rparr>"
  have "children_current E p'"
    using inv fr by (intro children_frame [of p' p]) (auto simp: p'_def overlay_frame_def policy_inv_def)
  moreover have "cache_coherent E Ds p'" "snapshot_current E p'"
    using Inr by (simp_all add: cache_empty_coherent p'_def snapshot_current_def)
  ultimately have "policy_inv E Ds p'" by (simp add: policy_inv_def)
  moreover have "snd (refresh_after_mutation (faulty E f) (p\<lparr>p_db := db\<rparr>)) = p'"
    using Inr by (simp add: refresh_after_mutation_def p'_def)
  ultimately show ?thesis by simp
qed

lemma inv_then_refresh:
  assumes law: "redb_lawful E" and inv: "policy_inv E Ds p" and w: "rules_write E (p_db p) w"
  shows "policy_inv E Ds (snd (then_refresh (faulty E f) w p))"
proof (cases w)
  case (Pair r db)
  show ?thesis
  proof (cases r)
    case (Inl e)
    with Pair w have "db = p_db p" by (simp add: rules_write_def)
    with Pair Inl inv show ?thesis by (simp add: then_refresh_def)
  next
    case (Inr x)
    have "snd (then_refresh (faulty E f) w p) = snd (refresh_after_mutation (faulty E f) (p\<lparr>p_db := db\<rparr>))"
      by (simp add: Pair Inr then_refresh_def split: prod.splits sum.splits)
    moreover have "overlay_frame E (p_db p) db" using w Pair by (simp add: rules_write_def)
    ultimately show ?thesis using inv_refresh [OF law inv] by simp
  qed
qed

lemma inv_mutate:
  assumes law: "redb_lawful E" and inv: "policy_inv E Ds p"
  shows "policy_inv E Ds (snd (policy_mutate (faulty E f) op p))"
proof (cases "exec (faulty E f) op (p_db p)")
  case (Pair r db)
  have w: "rules_write E (p_db p) (r, db)" using exec_rules_write [OF law, of "p_db p" f op] Pair by simp
  show ?thesis
  proof (cases r)
    case (Inl e)
    with Pair w have "db = p_db p" by (simp add: rules_write_def)
    with Pair Inl inv show ?thesis by (simp add: policy_mutate_def)
  next
    case (Inr x)
    show ?thesis
    proof (cases "touches_fs_snapshot op")
      case True
      have "snd (policy_mutate (faulty E f) op p) = snd (refresh_after_mutation (faulty E f) (p\<lparr>p_db := db\<rparr>))"
        using True by (simp add: policy_mutate_def Pair Inr invalidate_snapshot_def split: prod.splits sum.splits)
      with w inv_refresh [OF law inv] show ?thesis by (simp add: rules_write_def)
    next
      case False
      have "tview (faulty E f) db = abs_exec (faulty E f) op (tview (faulty E f) (p_db p))"
        using exec_abs [of "faulty E f" op "p_db p" x db] Pair Inr law by simp
      then have "\<forall>n\<in>{RULES, MOCKS, MOCK_DIRS}. tview E db n = tview E (p_db p) n"
        using abs_exec_frame(1) [OF False, of _ "faulty E f" "tview E (p_db p)"] by simp
      then have "policy_inv E Ds (p\<lparr>p_db := db\<rparr>)" using w
        by (intro inv_quiet [OF law inv]) (simp_all add: decides_same_def kept_def rules_write_def overlay_frame_def)
      with False show ?thesis by (simp add: policy_mutate_def Pair Inr)
    qed
  qed
qed

subsection \<open>Case records, network decisions and migrations\<close>

lemma inv_case:
  assumes law: "redb_lawful E" and inv: "policy_inv E Ds p"
  shows "policy_inv E Ds (record_overlay_case (faulty E f) path base p)"
proof -
  define db where "db = snd (write_txn (faulty E f) (insert_op (faulty E f) OVERLAY_CASE (trim_trailing_sep path) base) (p_db p))"
  have "tview E db n = tview E (p_db p) n" if "n \<noteq> OVERLAY_CASE" for n
    using insert_op_view [of "faulty E f" OVERLAY_CASE "trim_trailing_sep path" base "p_db p"] law that
    by (cases f; simp add: db_def write_txn_atomic abs_put_def)
  then have "policy_inv E Ds (p\<lparr>p_db := db\<rparr>)"
    by (intro inv_quiet [OF law inv]) (simp_all add: decides_same_def kept_def)
  with inv show ?thesis by (simp add: record_overlay_case_def db_def)
qed

lemma inv_net:
  assumes law: "redb_lawful E" and inv: "policy_inv E Ds p"
  shows "policy_inv E Ds (snd (policy_net_decide E host port p))"
proof -
  obtain r st where "net_rule_decide E (p_db p) (p_net p) host port = (r, st)" by (metis surj_pair)
  then have "snd (policy_net_decide E host port p) = p\<lparr>p_net := st\<rparr>" by (simp add: policy_net_decide_def)
  moreover have "policy_inv E Ds (p\<lparr>p_net := st\<rparr>)"
    by (rule inv_quiet [OF law inv]) (simp_all add: decides_same_def kept_def)
  ultimately show ?thesis by simp
qed

text \<open>A rebase changes values, never keys.\<close>

lemma insert_updates_view:
  assumes "redb_lawful E"
  shows "tb_get E (foldl (\<lambda>t (k, v). tb_insert E t k v) t us) = tb_get E t ++ map_of (rev us)"
  using assms
proof (induction us arbitrary: t)
  case (Cons u us)
  then show ?case by (cases u) (simp add: redb map_add_def fun_eq_iff split: option.splits)
qed simp

lemma rebase_updates_keys: "fst ` set (rebase_updates old new rows) \<subseteq> fst ` set rows"
  by (force simp: rebase_updates_def List.map_filter_def split: option.splits)

lemma rebase_body_view:
  assumes law: "redb_lawful E"
  shows "n \<noteq> OVERLAY_IDX \<Longrightarrow> tview E (snd (rebase_body E old new db)) n = tview E db n"
    "dom (tview E (snd (rebase_body E old new db)) OVERLAY_IDX) = dom (tview E db OVERLAY_IDX)"
    "fst (rebase_body E old new db) = 0 \<Longrightarrow> tview E (snd (rebase_body E old new db)) = tview E db"
proof -
  define us where "us = rebase_updates old new (tb_iter E (open_w E db OVERLAY_IDX))"
  have v: "tview E (snd (rebase_body E old new db)) = (tview E db)(OVERLAY_IDX := tview E db OVERLAY_IDX ++ map_of (rev us))"
    using law by (simp add: rebase_body_def Let_def redb insert_updates_view us_def)
  have "fst ` set us \<subseteq> dom (tview E db OVERLAY_IDX)"
  proof
    fix k
    assume "k \<in> fst ` set us"
    then have "k \<in> fst ` set (tb_iter E (open_w E db OVERLAY_IDX))" using rebase_updates_keys us_def by blast
    then show "k \<in> dom (tview E db OVERLAY_IDX)" using law by (simp add: iter_keys redb dom_def)
  qed
  then show "dom (tview E (snd (rebase_body E old new db)) OVERLAY_IDX) = dom (tview E db OVERLAY_IDX)"
    by (auto simp: v dom_map_of_conv_image_fst)
  show "n \<noteq> OVERLAY_IDX \<Longrightarrow> tview E (snd (rebase_body E old new db)) n = tview E db n" by (simp add: v)
  show "fst (rebase_body E old new db) = 0 \<Longrightarrow> tview E (snd (rebase_body E old new db)) = tview E db"
    by (simp add: v) (simp add: rebase_body_def Let_def us_def)
qed

lemma inv_commit_rebase:
  assumes law: "redb_lawful E" and inv: "policy_inv E Ds p"
    and keep: "\<And>db n. n \<noteq> OVERLAY_IDX \<Longrightarrow> n \<noteq> OVERLAY_MIGRATIONS \<Longrightarrow> tview E (snd (g db)) n = tview E db n"
    and keys: "\<And>db. dom (tview E (snd (g db)) OVERLAY_IDX) = dom (tview E db OVERLAY_IDX)"
    and zero: "\<And>db. fst (g db) = 0 \<Longrightarrow> tview E (snd (g db)) OVERLAY_IDX = tview E db OVERLAY_IDX"
  shows "policy_inv E Ds (snd (commit_rebase (faulty E f) g p))"
proof (cases "f = None")
  case False
  with inv show ?thesis by (auto simp: commit_rebase_def write_txn_def)
next
  case f: True
  obtain n db where g: "g (p_db p) = (n, db)" by (cases "g (p_db p)")
  have kept_tables: "tview E db m = tview E (p_db p) m" if "m \<noteq> OVERLAY_IDX" "m \<noteq> OVERLAY_MIGRATIONS" for m
    using keep [OF that, of "p_db p"] g by simp
  show ?thesis
  proof (cases "n = 0")
    case True
    have "tview E db OVERLAY_IDX = tview E (p_db p) OVERLAY_IDX" using zero [of "p_db p"] g True by simp
    with kept_tables have "policy_inv E Ds (p\<lparr>p_db := db\<rparr>)"
      by (intro inv_quiet [OF law inv]) (simp_all add: decides_same_def kept_def)
    with True g f show ?thesis by (simp add: commit_rebase_def write_txn_def)
  next
    case False
    define p' where "p' = p\<lparr>p_db := db, p_cache := Map.empty\<rparr>"
    have "children_current E p'" using inv keys [of "p_db p"] g
      by (intro children_frame [of p' p]) (simp_all add: p'_def policy_inv_def)
    then have "policy_inv E Ds p'" using kept_tables
      by (intro inv_committed [OF law inv]) (simp_all add: p'_def)
    with False g f show ?thesis by (simp add: commit_rebase_def write_txn_def p'_def)
  qed
qed

lemma inv_rebase:
  assumes law: "redb_lawful E" and inv: "policy_inv E Ds p"
  shows "policy_inv E Ds (snd (rebase_overlay_root (faulty E f) old new p))"
    "policy_inv E Ds (snd (rebase_legacy_c_overlay_and_mark_complete (faulty E f) old new p))"
proof -
  have law': "redb_lawful (faulty E f)" using law by simp
  note body = rebase_body_view [OF law', unfolded env_fault]
  have "policy_inv E Ds (snd (commit_rebase (faulty E f) (rebase_body (faulty E f) lo hi) p))" for lo hi
    by (rule inv_commit_rebase [OF law inv]) (simp_all add: body)
  with inv show "policy_inv E Ds (snd (rebase_overlay_root (faulty E f) old new p))"
    by (simp add: rebase_overlay_root_def Let_def)
  let ?lo = "to_ascii_lowercase (trim_end_matches (\<lambda>c. c = bslash) old)"
  let ?new = "trim_end_matches (\<lambda>c. c = bslash) new"
  define g where "g = (\<lambda>db. let (n, db') = rebase_body (faulty E f) ?lo ?new db
    in (n, snd (insert_op (faulty E f) OVERLAY_MIGRATIONS migration_marker ?new db')))"
  have g: "fst (g db) = fst (rebase_body (faulty E f) ?lo ?new db)"
    "tview E (snd (g db)) = abs_put (tview E (snd (rebase_body (faulty E f) ?lo ?new db))) OVERLAY_MIGRATIONS migration_marker (Some ?new)"
    for db
    using insert_op_view [OF law', of OVERLAY_MIGRATIONS migration_marker ?new "snd (rebase_body (faulty E f) ?lo ?new db)"]
    by (simp_all add: g_def case_prod_beta)
  have "policy_inv E Ds (snd (commit_rebase (faulty E f) g p))"
    by (rule inv_commit_rebase [OF law inv]) (simp_all add: g abs_put_def body)
  then show "policy_inv E Ds (snd (rebase_legacy_c_overlay_and_mark_complete (faulty E f) old new p))"
    by (simp add: rebase_legacy_c_overlay_and_mark_complete_def g_def Let_def)
qed

lemma table_entries_faulty: "table_entries (faulty E f) db n = table_entries E db n"
  by (simp add: table_entries_def split: sum.splits)

lemma inv_opened:
  assumes law: "redb_lawful E" and ok: "open_or_create_with_layout (faulty E f) created layout mock_root project_root = Inr p"
  shows "policy_inv E Ds p"
proof -
  from ok have "snapshot_load E (p_db p) = Inr (p_snapshot p)" and "p_cache p = Map.empty"
    and c: "children_idx p = build_children (table_entries E (p_db p) OVERLAY_IDX)"
    by (auto simp: open_or_create_with_layout_def table_entries_faulty split: sum.splits prod.splits)
  moreover have "children_current E p"
    by (simp add: children_current_def c build_children_of [OF law])
  ultimately show ?thesis by (simp add: policy_inv_def cache_empty_coherent snapshot_current_def)
qed

lemma inv_step:
  assumes "policy_step E p p'" and "redb_lawful E" and "cache_lawful E" and "on_disk E D = E" and "policy_inv E Ds p"
  shows "policy_inv E (D # Ds) p'"
proof -
  have more: "policy_inv E Ds p' \<Longrightarrow> policy_inv E (D # Ds) p'" for p' by (simp add: policy_inv_def coherent_more)
  from assms show ?thesis
  proof cases
    case Decide
    with assms inv_decide show ?thesis by blast
  qed (rule more; simp add: inv_net inv_record_overlay inv_clear_overlay inv_case inv_whiteouts inv_mutate inv_rebase
      policy_rule_upsert_def policy_rule_remove_def policy_defaults_set_def load_config_def inv_then_refresh rules_writes)+
qed

lemma inv_reach: "policy_reach E Ds p \<Longrightarrow> redb_lawful E \<Longrightarrow> cache_lawful E \<Longrightarrow> policy_inv E Ds p"
proof (induction rule: policy_reach.induct)
  case (stepped Ds p D p')
  have "policy_inv (on_disk E D) (D # Ds) p'" using stepped by (intro inv_step) auto
  then show ?case using inv_moments by simp
qed (rule inv_opened)

section \<open>Enumeration from the index\<close>

lemma append_less: "(p :: string) @ a < p @ b \<longleftrightarrow> a < b"
  by (induction p) auto

lemma scan_children_mem: "(n, x) \<in> set (scan_children pfx kvs) \<Longrightarrow> (pfx @ n, x) \<in> set kvs"
proof (induction pfx kvs rule: scan_children.induct)
  case (2 pfx key v rest)
  then show ?case
  proof (cases "strip_prefix pfx key")
    case (Some name)
    then have "key = pfx @ name" by (simp add: strip_prefix_Some)
    with 2 Some show ?thesis by (cases "bslash \<in> set name") auto
  qed simp
qed simp

lemma scan_children_sorted:
  "sorted_wrt (<) (map fst kvs) \<Longrightarrow> sorted_wrt (<) (map fst (scan_children pfx kvs))"
proof (induction pfx kvs rule: scan_children.induct)
  case (2 pfx key v rest)
  show ?case
  proof (cases "strip_prefix pfx key")
    case (Some name)
    have IH: "sorted_wrt (<) (map fst (scan_children pfx rest))"
      using 2 Some by (cases "bslash \<in> set name") auto
    have "name < n" if "(n, x) \<in> set (scan_children pfx rest)" for n x
    proof -
      have "(pfx @ n, x) \<in> set rest" using that by (rule scan_children_mem)
      then have "key < pfx @ n" using 2 by force
      with Some show ?thesis by (simp add: strip_prefix_Some append_less)
    qed
    with IH Some show ?thesis by auto
  qed simp
qed simp

lemma scan_names:
  assumes "redb_lawful E" and "read_fault E = None"
  shows "map fst (scan_children (dir @ [bslash]) (range_entries E db OVERLAY_IDX (dir @ [bslash]))) =
    sorted_list_of_set (child_names E db dir)"
proof -
  define xs where "xs = scan_children (dir @ [bslash]) (range_entries E db OVERLAY_IDX (dir @ [bslash]))"
  have "sorted_wrt (<) (map fst xs)"
    unfolding xs_def by (rule scan_children_sorted) (rule range_entries_view(1) [OF assms])
  then have "sorted (map fst xs)" "distinct (map fst xs)" by (simp_all add: strict_sorted_iff)
  moreover have "set (map fst xs) = child_names E db dir"
  proof -
    have "(n, v) \<in> set xs \<longleftrightarrow> tview E db OVERLAY_IDX (dir @ bslash # n) = Some v \<and> bslash \<notin> set n" for n v
      using scan_range [OF assms, of n v "dir @ [bslash]" db OVERLAY_IDX] by (simp add: xs_def)
    then show ?thesis by (force simp: child_names_def)
  qed
  ultimately show ?thesis unfolding xs_def [symmetric]
    using sorted_distinct_set_unique [of "map fst xs" "sorted_list_of_set (child_names E db dir)"] child_names_finite [OF assms(1)]
    by simp
qed

text \<open>What a listing owes: every recorded direct child of the directory, once, in bytewise order.\<close>

definition recorded_child :: "('t, 'e) fs_env_scheme \<Rightarrow> 't policy \<Rightarrow> string \<Rightarrow> string \<Rightarrow> overlay_child" where
  "recorded_child E p key name =
     \<lparr>oc_name = unwrap_or (lookup E (p_db p) OVERLAY_CASE key) name,
      oc_stat = stat_overlay_phys E (the (lookup E (p_db p) OVERLAY_IDX key))\<rparr>"

lemma children_exact:
  assumes law: "redb_lawful E" and nf: "read_fault E = None" and inv: "policy_inv E Ds p" and pfx: "dir_prefix E dir = Some pfx"
  shows "overlay_children E p dir = map (\<lambda>name. recorded_child E p (pfx @ name) name)
    (sorted_list_of_set {name. bslash \<notin> set name \<and> lookup E (p_db p) OVERLAY_IDX (pfx @ name) \<noteq> None})"
proof -
  define d where "d = trim_end_matches (\<lambda>c. c = bslash) (ensure_lower E dir)"
  have d: "d \<noteq> []" "pfx = d @ [bslash]" using pfx by (auto simp: dir_prefix_def d_def Let_def split: if_splits)
  define xs where "xs = sorted_list_of_set (child_names E (p_db p) d)"
  have names: "{name. bslash \<notin> set name \<and> lookup E (p_db p) OVERLAY_IDX (pfx @ name) \<noteq> None} = child_names E (p_db p) d"
    by (simp add: child_names_def lookup_view nf d(2))
  have "unwrap_or (children_idx p d) [] = xs"
    using inv d(1) child_names_finite [OF law, of "p_db p" d]
    by (simp add: policy_inv_def children_current_def children_of_list xs_def)
  moreover have "\<forall>n\<in>set xs. lookup E (p_db p) OVERLAY_IDX (d @ bslash # n) \<noteq> None"
    using child_names_finite [OF law, of "p_db p" d] by (simp add: xs_def child_names_def lookup_view nf)
  then have "List.map_filter (\<lambda>name. case lookup E (p_db p) OVERLAY_IDX (d @ bslash # name) of
      None \<Rightarrow> None | Some phys \<Rightarrow> Some \<lparr>oc_name = unwrap_or (lookup E (p_db p) OVERLAY_CASE (d @ bslash # name)) name,
        oc_stat = stat_overlay_phys E phys\<rparr>) xs = map (\<lambda>name. recorded_child E p (pfx @ name) name) xs"
  proof (induction xs)
    case (Cons n xs)
    then show ?case by (auto simp: List.map_filter_simps recorded_child_def d(2))
  qed (simp add: List.map_filter_simps)
  ultimately show ?thesis using d(1)
    unfolding names xs_def [symmetric] overlay_children_def d_def [symmetric] Let_def by simp
qed

section \<open>Properties\<close>

text \<open>
  C34: in every reachable state of a run in which writes may fail and the file system may change between the steps,
  each cached decision is the one of \<open>compute\<close> on the current rules and records, on the disk of a step since
  the cache was last empty, for some input with that cache key; the snapshot is the one of the stored rules (when
  database reads do not fail), and the children index is the one of the overlay index.
\<close>

theorem reachable_policy_coherent:
  assumes "redb_lawful E" and "cache_lawful E" and "policy_reach E Ds p"
  shows "policy_inv E Ds p"
  using inv_reach [OF assms(3,1,2)] .

lemma sample_opened:
  obtains p where "policy_reach sample_fs [] p" "p_project_root p = win ''c:|p''" "p_layout p = sample_layout"
    "p_snapshot p = empty_snapshot" "p_cache p = Map.empty" "tview sample_fs (p_db p) = (\<lambda>_. Map.empty)"
proof -
  define created where "created = open_or_create_with_layout sample_fs (Inr empty_database) sample_layout (win ''d:|m'') (win ''c:|p'')"
  have root: "ensure_lower sample_fs (win ''c:|p'') = win ''c:|p''" by (simp add: ensure_lower_ascii win_defs is_ascii_def)
  have e: "tview sample_fs (ensure_tables sample_fs empty_database) = (\<lambda>_. Map.empty)"
    by (simp add: ensure_tables_def redb sample_fs_env(1) fun_eq_iff) (simp add: tview_def empty_database_def)
  have "snapshot_load sample_fs (ensure_tables sample_fs empty_database) = snapshot_load sample_fs empty_database"
    by (rule snapshot_load_determined [OF sample_fs_env(1)]) (simp add: e, simp add: tview_def empty_database_def)
  moreover have "snapshot_load sample_fs empty_database = Inr empty_snapshot"
    by (simp add: snapshot_load_def read_txn_def table_entries_def open_r_def empty_database_def empty_snapshot_def index_build_def)
  moreover have "\<exists>net gen. net_rule_generation sample_fs (ensure_tables sample_fs empty_database) = Inr gen \<and>
      net_snapshot_load sample_fs (ensure_tables sample_fs empty_database) gen = Inr net"
    by (simp add: net_rule_generation_def read_txn_def net_snapshot_load_def net_rule_list_def list_op_def open_r_def ensure_tables_def)
  ultimately obtain p where "created = Inr p" "p_project_root p = win ''c:|p''" "p_layout p = sample_layout"
    "p_snapshot p = empty_snapshot" "p_cache p = Map.empty" "p_db p = ensure_tables sample_fs empty_database"
    by (auto simp: created_def open_or_create_with_layout_def write_txn_def root)
  moreover have "sample_fs = faulty sample_fs None" by simp
  ultimately show ?thesis using that e
    policy_reach.opened [where E = sample_fs and f = None and created = "Inr empty_database"] unfolding created_def by metis
qed

text \<open>A run in which a decision is cached and the disk changes afterwards.\<close>

definition later_fs :: "(string \<times> string) list fs_env" where
  "later_fs = sample_fs\<lparr>symlink_metadata := (symlink_metadata sample_fs)(win ''c:|ov|g'' \<mapsto> \<lparr>md_is_dir = False, md_attributes = 0\<rparr>)\<rparr>"

definition disk_of :: "('t, 'e) fs_env_scheme \<Rightarrow> disk" where
  "disk_of E = \<lparr>dk_symlink_metadata = symlink_metadata E, dk_metadata = fs_metadata E, dk_is_dir = path_is_dir E,
     dk_canonicalize = canonicalize E, dk_link_count = link_count E\<rparr>"

lemma on_disk_of: "on_disk E (disk_of E) = E" "on_disk sample_fs (disk_of later_fs) = later_fs"
  by (simp_all add: on_disk_def disk_of_def later_fs_def)

lemma sample_decided:
  obtains p where "policy_reach sample_fs [disk_of sample_fs] p"
    "p_cache p = [cache_key sample_fs (win ''c:|g'') False None None \<mapsto> plain_decision Passthrough]"
    "compute sample_fs p (win ''c:|g'') False None None = plain_decision Passthrough"
    "compute later_fs p (win ''c:|g'') False None None = cow_decision (win ''c:|ov|g'') None"
    "fst (decide later_fs p (win ''c:|g'') False) = plain_decision Passthrough"
proof -
  obtain p where p: "policy_reach sample_fs [] p" "p_project_root p = win ''c:|p''" "p_layout p = sample_layout"
    "p_snapshot p = empty_snapshot" "p_cache p = Map.empty" "tview sample_fs (p_db p) = (\<lambda>_. Map.empty)"
    by (rule sample_opened)
  have low: "ensure_lower sample_fs (win ''c:|g'') = win ''c:|g''" "ensure_lower later_fs (win ''c:|g'') = win ''c:|g''"
    by (simp_all add: ensure_lower_ascii win_defs is_ascii_def)
  have fold: "fold_dos_dots (win ''c:|g'') = win ''c:|g''" "trim_trailing_sep (win ''c:|g'') = win ''c:|g''"
    "mirror_into_overlay_layout (win ''c:|g'') sample_layout = win ''c:|ov|g''"
    "\<not> path_contained_in (win ''c:|g'') (win ''c:|p'')"
    by code_simp+
  have "tview later_fs = tview sample_fs" by (simp add: tview_def later_fs_def fun_eq_iff split: option.splits)
  then have look: "lookup sample_fs (p_db p) n k = None" "lookup later_fs (p_db p) n k = None" for n k
    by (simp_all add: lookup_view p(6))
  have key: "cache_key later_fs = cache_key sample_fs" by (simp add: cache_key_def later_fs_def fun_eq_iff)
  have phys: "physical_overlay_path sample_fs (win ''c:|g'') sample_layout = None"
    "physical_overlay_path later_fs (win ''c:|g'') sample_layout = Some (win ''c:|ov|g'')"
    unfolding physical_overlay_path_def fold(3) Let_def
    by (simp_all add: later_fs_def sample_fs_def env.defs fs_env.defs win_defs)
  have comp: "compute sample_fs p (win ''c:|g'') False None None = plain_decision Passthrough"
    by (simp add: compute_def low fold in_project_def p(2-4) hidden_by_whiteout_def look phys)
  have comp': "compute later_fs p (win ''c:|g'') False None None = cow_decision (win ''c:|ov|g'') None"
    by (simp add: compute_def low fold in_project_def p(2-4) hidden_by_whiteout_def look phys)
  define p' where "p' = snd (decide_with_context sample_fs p (win ''c:|g'') False None None)"
  have p': "p' = p\<lparr>p_cache := [cache_key sample_fs (win ''c:|g'') False None None \<mapsto> plain_decision Passthrough]\<rparr>"
    by (simp add: p'_def decide_with_context_def Let_def low fold p(5) comp sample_fs_engine)
  have "policy_step (on_disk sample_fs (disk_of sample_fs)) p p'"
    unfolding on_disk_of p'_def by (rule policy_step.Decide)
  from policy_reach.stepped [OF p(1) this] have reach: "policy_reach sample_fs [disk_of sample_fs] p'"
    by (simp add: moments_def p')
  have "decides_same sample_fs p p'" "decides_same later_fs p p'" by (simp_all add: p' decides_same_def kept_def)
  then have "compute sample_fs p' = compute sample_fs p" "compute later_fs p' = compute later_fs p"
    by (simp_all add: decides_same_compute)
  moreover have "fst (decide later_fs p' (win ''c:|g'') False) = plain_decision Passthrough"
    by (simp add: decide_def decide_with_context_def Let_def low fold p' key)
  ultimately show ?thesis using that [OF reach] comp comp' p' by simp
qed

theorem reachable_policy_coherent_witness:
  "\<exists>p. policy_reach sample_fs [disk_of sample_fs] p \<and> policy_inv sample_fs [disk_of sample_fs] p \<and> p_cache p \<noteq> Map.empty"
proof -
  obtain p where p: "policy_reach sample_fs [disk_of sample_fs] p"
    "p_cache p = [cache_key sample_fs (win ''c:|g'') False None None \<mapsto> plain_decision Passthrough]"
    by (rule sample_decided)
  with reachable_policy_coherent [OF _ _ p(1)] show ?thesis by (intro exI [of _ p]) simp
qed

text \<open>
  C35: in every reachable state a decision asked for on the disk of now is the one of \<open>compute\<close> on the
  current rules, records and whiteouts: of the folded path on the disk of now when nothing is cached under its key,
  and otherwise on the disk of a step since the cache was last empty, for an input with the same 128-bit key.
\<close>

theorem decision_of_current_rules:
  assumes "redb_lawful E" and "cache_lawful E" and "policy_reach E Ds p"
  shows "if p_cache p (cache_key E (fold_dos_dots (ensure_lower E path)) w depth exe) = None
    then fst (decide_with_context (on_disk E D) p path w depth exe) =
      compute (on_disk E D) p (fold_dos_dots (ensure_lower E path)) w depth exe
    else (\<exists>D'\<in>set Ds. \<exists>q w' depth' exe'.
      cache_key E q w' depth' exe' = cache_key E (fold_dos_dots (ensure_lower E path)) w depth exe \<and>
      fst (decide_with_context (on_disk E D) p path w depth exe) = compute (on_disk E D') p q w' depth' exe')"
proof (cases "p_cache p (cache_key E (fold_dos_dots (ensure_lower E path)) w depth exe)")
  case None
  then show ?thesis by (simp add: decide_with_context_def Let_def)
next
  case (Some d)
  have "memo.coherent_on (policy_key E) (policy_comp E p) {a. fst a \<in> set Ds} (p_cache p)"
    using inv_reach [OF assms(3,1,2)] by (simp add: policy_inv_def cache_coherent_def)
  from decisions.hit_in [OF this, of "(undefined, fold_dos_dots (ensure_lower E path), w, depth, exe)" d] Some
  obtain b where "fst b \<in> set Ds" "policy_key E b = cache_key E (fold_dos_dots (ensure_lower E path)) w depth exe"
    "d = policy_comp E p b" by (auto simp: policy_key_def)
  moreover obtain D' q w' depth' exe' where "b = (D', q, w', depth', exe')" by (cases b)
  ultimately show ?thesis using Some
    by (simp add: policy_key_def policy_comp_def decide_with_context_def Let_def) blast
qed

theorem decision_of_current_rules_witness:
  "\<exists>p. policy_reach sample_fs [disk_of sample_fs] p \<and> (\<exists>q w' depth' exe'.
    cache_key sample_fs q w' depth' exe' = cache_key sample_fs (win ''c:|g'') False None None \<and>
    fst (decide_with_context later_fs p (win ''c:|g'') False None None) = compute sample_fs p q w' depth' exe')"
proof -
  obtain p where p: "policy_reach sample_fs [disk_of sample_fs] p"
    "p_cache p = [cache_key sample_fs (win ''c:|g'') False None None \<mapsto> plain_decision Passthrough]"
    by (rule sample_decided)
  have "fold_dos_dots (ensure_lower sample_fs (win ''c:|g'')) = win ''c:|g''"
    by (simp add: ensure_lower_ascii win_defs is_ascii_def) code_simp
  with decision_of_current_rules [OF _ _ p(1), of "win ''c:|g''" False None None "disk_of later_fs"] p show ?thesis
    by (intro exI [of _ p]) (simp add: on_disk_of)
qed

text \<open>The same directory by the full range scan of the overlay index, which the children index replaced.\<close>

lemma scan_lists_same:
  assumes law: "redb_lawful E" and nf: "read_fault E = None" and "policy_inv E Ds p" and "dir_prefix E dir = Some pfx"
  shows "overlay_children E p dir = map (\<lambda>(name, phys). \<lparr>oc_name = unwrap_or (lookup E (p_db p) OVERLAY_CASE (pfx @ name)) name,
      oc_stat = stat_overlay_phys E phys\<rparr>) (scan_children pfx (range_entries E (p_db p) OVERLAY_IDX pfx))"
proof -
  obtain d where d: "pfx = d @ [bslash]" using assms(4) by (auto simp: dir_prefix_def Let_def split: if_splits)
  define xs where "xs = scan_children pfx (range_entries E (p_db p) OVERLAY_IDX pfx)"
  have "{name. bslash \<notin> set name \<and> lookup E (p_db p) OVERLAY_IDX (pfx @ name) \<noteq> None} = child_names E (p_db p) d"
    by (simp add: child_names_def lookup_view nf d)
  then have "overlay_children E p dir = map (\<lambda>name. recorded_child E p (pfx @ name) name) (map fst xs)"
    unfolding children_exact [OF assms] using scan_names [OF law nf, of d "p_db p"] by (simp add: xs_def d)
  moreover have "lookup E (p_db p) OVERLAY_IDX (pfx @ n) = Some v" if "(n, v) \<in> set xs" for n v
    using scan_range [OF law nf, of n v pfx "p_db p" OVERLAY_IDX] that by (simp add: xs_def lookup_view nf)
  ultimately show ?thesis unfolding xs_def [symmetric] by (auto simp: recorded_child_def)
qed

text \<open>
  C28: a directory listing of the overlay is complete and exact. In every reachable state, on the disk of the
  moment, \<open>overlay_children\<close>, which takes its names from the children index in memory, gives exactly one entry for
  each direct child of the directory that the overlay index records, in bytewise order of the names, with the recorded
  spelling (the key where none is recorded) and the metadata of its overlay file, and nothing for the empty path. Database reads are taken to succeed.
\<close>

theorem overlay_listing_exact:
  assumes "redb_lawful E" and "cache_lawful E" and "read_fault E = None" and "policy_reach E Ds p"
  shows "overlay_children (on_disk E D) p dir =
    (case dir_prefix E dir of
       None \<Rightarrow> []
     | Some pfx \<Rightarrow> map (\<lambda>name. recorded_child (on_disk E D) p (pfx @ name) name)
         (sorted_list_of_set {name. bslash \<notin> set name \<and> lookup E (p_db p) OVERLAY_IDX (pfx @ name) \<noteq> None}))"
proof -
  have inv: "policy_inv (on_disk E D) Ds p" using inv_reach [OF assms(4,1,2)] by simp
  have look: "lookup (on_disk E D) (p_db p) OVERLAY_IDX k = lookup E (p_db p) OVERLAY_IDX k" for k by (simp add: lookup_view)
  have pfx: "dir_prefix (on_disk E D) dir = dir_prefix E dir" by (simp add: dir_prefix_def)
  show ?thesis
  proof (cases "dir_prefix E dir")
    case None
    then show ?thesis by (simp add: dir_prefix_def overlay_children_def Let_def split: if_splits)
  next
    case (Some q)
    with children_exact [of "on_disk E D" Ds p dir q] assms(1,3) inv show ?thesis by (simp add: pfx look)
  qed
qed

theorem overlay_listing_exact_witness:
  "\<exists>p. policy_reach sample_fs [] p \<and>
     overlay_children later_fs p (win ''C:|'') = [\<lparr>oc_name = ''g'', oc_stat = stat_overlay_phys later_fs (win ''c:|ov|g'')\<rparr>]"
proof -
  obtain p where p: "policy_reach sample_fs [] p" "p_cache p = Map.empty" "tview sample_fs (p_db p) = (\<lambda>_. Map.empty)"
    by (rule sample_opened)
  obtain p' where p': "record_overlay sample_fs (win ''C:|G'') (win ''c:|ov|g'') p = (Inr (), p')"
    by (simp add: record_overlay_def commit_policy_def write_txn_def insert_op_def Let_def)
  have key: "index_key sample_fs (win ''C:|G'') = win ''c:|g''" "dir_prefix sample_fs (win ''C:|'') = Some (win ''c:|'')"
    by code_simp+
  note ok = record_overlay_ok [OF sample_fs_env(1) p']
  have f: "faulty sample_fs None = sample_fs" by simp
  have c: "p_cache p' = Map.empty" by (subst ok(2)) simp
  have "policy_step (on_disk sample_fs (disk_of sample_fs)) p p'"
    unfolding on_disk_of using policy_step.RecordOverlay [of sample_fs p None "win ''C:|G''" "win ''c:|ov|g''"]
    unfolding f p' by simp
  from policy_reach.stepped [OF p(1) this] have reach: "policy_reach sample_fs [] p'" by (simp add: moments_def c)
  have look: "lookup sample_fs (p_db p') OVERLAY_IDX k = (if k = win ''c:|g'' then Some (win ''c:|ov|g'') else None)"
    "lookup sample_fs (p_db p') OVERLAY_CASE k = None" for k
    by (simp_all add: lookup_view ok(1) p(3) key abs_put_def)
  have "{name. bslash \<notin> set name \<and> lookup sample_fs (p_db p') OVERLAY_IDX (win ''c:|'' @ name) \<noteq> None} = {''g''}"
    unfolding look(1) by (auto simp: win_def)
  moreover have "lookup (on_disk sample_fs D) db n k = lookup sample_fs db n k" for D db n k by (simp add: lookup_view)
  from this [of "disk_of later_fs"] have later: "lookup later_fs db n k = lookup sample_fs db n k" for db n k by (simp add: on_disk_of)
  have child: "recorded_child later_fs p' (win ''c:|'' @ ''g'') ''g'' =
      \<lparr>oc_name = ''g'', oc_stat = stat_overlay_phys later_fs (win ''c:|ov|g'')\<rparr>"
    unfolding recorded_child_def later look by (simp add: unwrap_or_def win_def)
  ultimately show ?thesis using overlay_listing_exact [OF _ _ _ reach, of "disk_of later_fs" "win ''C:|''"] reach
    unfolding on_disk_of key(2) option.case by (intro exI [of _ p']) (simp add: child)
qed

text \<open>
  the cache does not see the file system. A read that was decided before a file appears in the overlay mirror
  without a recorded index row keeps passing through to the real disk, although \<open>compute\<close>, whose
  look at the mirror tree is meant for exactly these files, would serve it from the overlay.
\<close>

theorem cached_read_misses_new_overlay_file:
  "\<exists>p. policy_reach sample_fs [disk_of sample_fs] p \<and>
     compute later_fs p (win ''c:|g'') False None None = cow_decision (win ''c:|ov|g'') None \<and>
     fst (decide later_fs p (win ''c:|g'') False) = plain_decision Passthrough"
  by (rule sample_decided) blast

end
