(* ===== verification/Registry.thy ===== *)
theory Registry
  imports RegValue PolicyRuns
begin

text \<open>
  The registry half of the policy (\<^verbatim>\<open>registry/mod.rs\<close>, \<^verbatim>\<open>registry/reg_overlay.rs\<close>): the copy-on-write
  overlay of values and deleted keys with its directory tree on disk, the snapshot of the registry rules,
  and the cached decision.
\<close>

section \<open>The overlay on disk\<close>

text \<open>A file is its text, or \<open>None\<close> when it cannot be read; a directory lists its entries in the order \<^verbatim>\<open>read_dir\<close> does.\<close>

datatype fnode = FFile "string option" | FDir "(string \<times> fnode) list"

record reg_overlay =
  ov_values :: "(string \<times> (string \<times> reg_entry) list) list"
  ov_deleted :: "string set"
  ov_root :: string

definition overlay_new :: "string \<Rightarrow> reg_overlay" where
  "overlay_new root = \<lparr>ov_values = [], ov_deleted = {}, ov_root = root\<rparr>"

definition insert_entry :: "string \<Rightarrow> string \<Rightarrow> reg_entry \<Rightarrow> reg_overlay \<Rightarrow> reg_overlay" where
  "insert_entry key name entry ov =
     ov\<lparr>ov_values := btree_insert key (btree_insert name entry (unwrap_or (map_of (ov_values ov) key) [])) (ov_values ov)\<rparr>"

text \<open>\<^verbatim>\<open>walk_dir\<close>: the entries of one directory, in order; a subdirectory is walked with the longer prefix.\<close>

function walk_dir :: "('t, 'e) reg_env_scheme \<Rightarrow> string \<Rightarrow> (string \<times> fnode) list \<Rightarrow> reg_overlay \<Rightarrow> string + reg_overlay" where
  "walk_dir E friendly_prefix [] ov = Inr ov"
| "walk_dir E friendly_prefix ((file_name, FFile content) # rest) ov =
     (let name = ensure_lower E file_name; key = trim_end_matches (\<lambda>c. c = bslash) friendly_prefix in
      if name = ''values.json'' then
        (case content of
           None \<Rightarrow> Inl ''read''
         | Some raw \<Rightarrow>
             (case parse_values_json E raw of
                Inl e \<Rightarrow> Inl e
              | Inr parsed \<Rightarrow>
                  walk_dir E friendly_prefix rest (foldl (\<lambda>ov (vname, ventry). insert_entry key vname ventry ov) ov parsed)))
      else if name = ''_deleted'' then walk_dir E friendly_prefix rest (ov\<lparr>ov_deleted := insert key (ov_deleted ov)\<rparr>)
      else walk_dir E friendly_prefix rest ov)"
| "walk_dir E friendly_prefix ((file_name, FDir entries) # rest) ov =
     (let name = ensure_lower E file_name;
          child_prefix = (if friendly_prefix = [] then name else friendly_prefix @ bslash # name)
      in case walk_dir E child_prefix entries ov of
           Inl e \<Rightarrow> Inl e
         | Inr ov' \<Rightarrow> walk_dir E friendly_prefix rest ov')"
  by pat_completeness auto
termination
  by (relation "measure (\<lambda>(E, p, es, ov). size_list (size_prod (\<lambda>_. 0) size) es)") simp_all

definition load_from_disk :: "('t, 'e) reg_env_scheme \<Rightarrow> string \<Rightarrow> fnode option \<Rightarrow> string + reg_overlay" where
  "load_from_disk E root disk =
     (case disk of
        Some (FDir entries) \<Rightarrow> walk_dir E [] entries (overlay_new root)
      | _ \<Rightarrow> Inr (overlay_new root))"

definition overlay_get :: "reg_overlay \<Rightarrow> string \<Rightarrow> string \<Rightarrow> reg_entry option" where
  "overlay_get ov key name = Option.bind (map_of (ov_values ov) key) (\<lambda>inner. map_of inner name)"

definition is_key_deleted :: "reg_overlay \<Rightarrow> string \<Rightarrow> bool" where
  "is_key_deleted ov key \<longleftrightarrow> key \<in> ov_deleted ov"

definition enumerate_overlay_values :: "reg_overlay \<Rightarrow> string \<Rightarrow> (string \<times> reg_entry) list" where
  "enumerate_overlay_values ov key = unwrap_or (map_of (ov_values ov) key) []"

text \<open>
  \<^verbatim>\<open>create_dir_all\<close> and a write below it: \<open>None\<close> when a component on the way is a file, or a
  directory has the name of the file.
\<close>

fun put_file :: "string list \<Rightarrow> string \<Rightarrow> string \<Rightarrow> (string \<times> fnode) list \<Rightarrow> (string \<times> fnode) list option" where
  "put_file [] fname content es =
     (case map_of es fname of
        Some (FDir sub) \<Rightarrow> None
      | _ \<Rightarrow> Some (AList.update fname (FFile (Some content)) es))"
| "put_file (d # ds) fname content es =
     (case (case map_of es d of None \<Rightarrow> Some [] | Some (FDir sub) \<Rightarrow> Some sub | Some (FFile c) \<Rightarrow> None) of
        None \<Rightarrow> None
      | Some sub \<Rightarrow> map_option (\<lambda>sub'. AList.update d (FDir sub') es) (put_file ds fname content sub))"

definition disk_entries :: "fnode option \<Rightarrow> (string \<times> fnode) list" where
  "disk_entries disk = (case disk of Some (FDir es) \<Rightarrow> es | _ \<Rightarrow> [])"

text \<open>
  A write into the directory of a key. A key with a drive-like component has its directory outside the overlay
  root; such a write leaves the tree of the root alone.
\<close>

definition write_under :: "('t, 'e) reg_env_scheme \<Rightarrow> string \<Rightarrow> string \<Rightarrow> string \<Rightarrow> string \<Rightarrow> fnode option \<Rightarrow> string + fnode option" where
  "write_under E root key fname content disk =
     (case io_error E (friendly_to_overlay key root) of
        Some e \<Rightarrow> Inl e
      | None \<Rightarrow>
          if \<exists>g\<in>set (mirror_names key). has_drive g then Inr disk
          else (case put_file (mirror_names key) fname content (disk_entries disk) of
              None \<Rightarrow> Inl ''mkdir''
            | Some es \<Rightarrow> Inr (Some (FDir es))))"

definition flush_key :: "('t, 'e) reg_env_scheme \<Rightarrow> reg_overlay \<Rightarrow> string \<Rightarrow> fnode option \<Rightarrow> string + fnode option" where
  "flush_key E ov key disk =
     write_under E (ov_root ov) key ''values.json'' (serialize_values_json E (unwrap_or (map_of (ov_values ov) key) [])) disk"

section \<open>The registry policy\<close>

record reg_snapshot =
  rs_rules :: "snapshot_rule list"
  rs_default :: "rule_row option"
  rs_mocks :: "(string \<times> string) list"

type_synonym reg_decision = "mode \<times> reg_value option \<times> reg_value option" \<comment> \<open>mode, overlay value, mock value\<close>

record 't reg_policy =
  rg_db :: "'t database"
  rg_cache :: "cache_key_t \<Rightarrow> reg_decision option"
  rg_snapshot :: reg_snapshot
  rg_overlay :: reg_overlay
  rg_disk :: "fnode option"

definition reg_snapshot_load :: "('t, 'e) env_scheme \<Rightarrow> 't database \<Rightarrow> policy_error + reg_snapshot" where
  "reg_snapshot_load E db = read_txn E (\<lambda>db.
     (let (rules, default_rule) = foldl (load_rules_step E) ([], None) (table_entries E db REG_RULES)
      in Inr \<lparr>rs_rules = rules, rs_default = default_rule,
              rs_mocks = foldl (\<lambda>m (k, v). AList.update k v m) [] (table_entries E db REG_MOCKS)\<rparr>)) db"

definition reg_rule_step ::
    "('t, 'e) env_scheme \<Rightarrow> string \<Rightarrow> u8 option \<Rightarrow> string option \<Rightarrow> (nat \<times> rule_row) option \<Rightarrow> snapshot_rule \<Rightarrow> (nat \<times> rule_row) option" where
  "reg_rule_step E lower_path depth exe_lower best sr =
     (if \<not> pattern_matches_prefix (sr_pattern sr) lower_path then best
      else if \<not> when_admits E (row_when (sr_row sr)) depth exe_lower then best
      else keep_better best (pattern_specificity (sr_pattern sr)) (sr_row sr))"

definition reg_best_rule_match ::
    "('t, 'e) env_scheme \<Rightarrow> reg_snapshot \<Rightarrow> string \<Rightarrow> u8 option \<Rightarrow> string option \<Rightarrow> rule_row option" where
  "reg_best_rule_match E snap lower_path depth exe_lower =
     (case foldl (reg_rule_step E lower_path depth exe_lower) None (rs_rules snap) of
        Some (s, r) \<Rightarrow> Some r
      | None \<Rightarrow> rs_default snap)"

definition reg_open :: "('t, 'e) reg_env_scheme \<Rightarrow> 't database \<Rightarrow> string \<Rightarrow> fnode option \<Rightarrow> policy_error + 't reg_policy" where
  "reg_open E db workreg_root disk =
     (case reg_snapshot_load E db of
        Inl e \<Rightarrow> Inl e
      | Inr snap \<Rightarrow>
          (case load_from_disk E workreg_root disk of
             Inl e \<Rightarrow> Inl (Ktav e)
           | Inr ov \<Rightarrow> Inr \<lparr>rg_db = db, rg_cache = Map.empty, rg_snapshot = snap, rg_overlay = ov, rg_disk = disk\<rparr>))"

definition reload_snapshot :: "('t, 'e) reg_env_scheme \<Rightarrow> 't reg_policy \<Rightarrow> (policy_error + unit) \<times> 't reg_policy" where
  "reload_snapshot E rp =
     (case reg_snapshot_load E (rg_db rp) of
        Inl e \<Rightarrow> (Inl e, rp)
      | Inr snap \<Rightarrow> (Inr (), rp\<lparr>rg_snapshot := snap, rg_cache := Map.empty\<rparr>))"

definition compute_reg ::
    "('t, 'e) reg_env_scheme \<Rightarrow> 't reg_policy \<Rightarrow> string \<Rightarrow> string option \<Rightarrow> bool \<Rightarrow> u8 option \<Rightarrow> string option \<Rightarrow> reg_decision" where
  "compute_reg E rp lower_key value_name write depth exe_lower =
     (let snap = rg_snapshot rp; ov = rg_overlay rp;
          mock = Option.bind value_name (\<lambda>v. Option.bind (map_of (rs_mocks snap) (lower_key @ bslash # ensure_lower E v)) (mock_value_decode E));
          entry = Option.bind value_name (\<lambda>v. overlay_get ov lower_key (ensure_lower E v));
          (mode_read, mode_write) = (case reg_best_rule_match E snap lower_key depth exe_lower of
              Some r \<Rightarrow> (mode_read r, mode_write r) | None \<Rightarrow> (RM_Passthrough, RM_Cow));
          ruled = (case (if write then mode_write else mode_read) of
              RM_Deny \<Rightarrow> (Deny, None, None) | RM_Passthrough \<Rightarrow> (Passthrough, None, None) | _ \<Rightarrow> (Cow, None, None))
      in case mock of
           Some val \<Rightarrow> (Mock, None, Some val)
         | None \<Rightarrow>
             if write then ruled
             else if is_key_deleted ov lower_key then (Deny, None, None)
             else (case entry of
                 Some (EntryValue v) \<Rightarrow> (Cow, Some v, None)
               | Some EntryDeleted \<Rightarrow> (Deny, None, None)
               | None \<Rightarrow> ruled))"

definition reg_cache_path :: "('t, 'e) reg_env_scheme \<Rightarrow> string \<Rightarrow> string option \<Rightarrow> string" where
  "reg_cache_path E lower value_name =
     (case value_name of Some v \<Rightarrow> lower @ bslash # ensure_lower E v | None \<Rightarrow> lower)"

definition reg_decide_with_context ::
    "('t, 'e) reg_env_scheme \<Rightarrow> 't reg_policy \<Rightarrow> string \<Rightarrow> string option \<Rightarrow> bool \<Rightarrow> u8 option \<Rightarrow> string option \<Rightarrow> reg_decision \<times> 't reg_policy" where
  "reg_decide_with_context E rp key_path value_name write depth exe_lower =
     (let lower = ensure_lower E key_path;
          key = cache_key E (reg_cache_path E lower value_name) write depth exe_lower
      in case rg_cache rp key of
           Some d \<Rightarrow> (d, rp)
         | None \<Rightarrow>
             (let d = compute_reg E rp lower value_name write depth exe_lower
              in (d, rp\<lparr>rg_cache := reg_cache_store E (rg_cache rp) key d\<rparr>)))"

definition reg_decide :: "('t, 'e) reg_env_scheme \<Rightarrow> 't reg_policy \<Rightarrow> string \<Rightarrow> string option \<Rightarrow> bool \<Rightarrow> reg_decision \<times> 't reg_policy" where
  "reg_decide E rp key_path value_name write = reg_decide_with_context E rp key_path value_name write None None"

text \<open>
  The three mutations change the overlay in memory first and then write to disk; when the write fails the
  error returns before the cache is cleared.
\<close>

definition finish_update :: "string + fnode option \<Rightarrow> 't reg_policy \<Rightarrow> (string + unit) \<times> 't reg_policy" where
  "finish_update w rp =
     (case w of
        Inl e \<Rightarrow> (Inl e, rp)
      | Inr disk \<Rightarrow> (Inr (), rp\<lparr>rg_disk := disk, rg_cache := Map.empty\<rparr>))"

definition set_entry :: "('t, 'e) reg_env_scheme \<Rightarrow> string \<Rightarrow> string \<Rightarrow> reg_entry \<Rightarrow> 't reg_policy \<Rightarrow> (string + unit) \<times> 't reg_policy" where
  "set_entry E key name entry rp =
     (let ov = insert_entry key name entry (rg_overlay rp)
      in finish_update (flush_key E ov key (rg_disk rp)) (rp\<lparr>rg_overlay := ov\<rparr>))"

definition write_to_overlay ::
    "('t, 'e) reg_env_scheme \<Rightarrow> string \<Rightarrow> string \<Rightarrow> reg_value \<Rightarrow> 't reg_policy \<Rightarrow> (string + unit) \<times> 't reg_policy" where
  "write_to_overlay E key_path value_name val rp =
     set_entry E (ensure_lower E key_path) (ensure_lower E value_name) (EntryValue val) rp"

definition delete_value_in_overlay ::
    "('t, 'e) reg_env_scheme \<Rightarrow> string \<Rightarrow> string \<Rightarrow> 't reg_policy \<Rightarrow> (string + unit) \<times> 't reg_policy" where
  "delete_value_in_overlay E key_path value_name rp =
     set_entry E (ensure_lower E key_path) (ensure_lower E value_name) EntryDeleted rp"

definition delete_key_in_overlay :: "('t, 'e) reg_env_scheme \<Rightarrow> string \<Rightarrow> 't reg_policy \<Rightarrow> (string + unit) \<times> 't reg_policy" where
  "delete_key_in_overlay E key_path rp =
     (let key = ensure_lower E key_path; ov = (rg_overlay rp)\<lparr>ov_deleted := insert key (ov_deleted (rg_overlay rp))\<rparr>
      in finish_update (write_under E (ov_root ov) key ''_deleted'' [] (rg_disk rp)) (rp\<lparr>rg_overlay := ov\<rparr>))"

section \<open>The overlay as a map\<close>

lemma overlay_get_insert:
  "overlay_get (insert_entry key name entry ov) k n = (if k = key \<and> n = name then Some entry else overlay_get ov k n)"
  by (auto simp: overlay_get_def insert_entry_def unwrap_or_def split: option.splits)

lemma deleted_insert [simp]: "ov_deleted (insert_entry key name entry ov) = ov_deleted ov"
  by (simp add: insert_entry_def)

lemma set_entry_ok:
  assumes "set_entry E key name entry rp = (Inr (), rp')"
  shows "rg_overlay rp' = insert_entry key name entry (rg_overlay rp)" "rg_cache rp' = Map.empty"
    "rg_snapshot rp' = rg_snapshot rp"
  using assms by (auto simp: set_entry_def finish_update_def Let_def split: sum.splits)

lemma delete_key_ok:
  assumes "delete_key_in_overlay E key_path rp = (Inr (), rp')"
  shows "rg_overlay rp' = (rg_overlay rp)\<lparr>ov_deleted := insert (ensure_lower E key_path) (ov_deleted (rg_overlay rp))\<rparr>"
    "rg_cache rp' = Map.empty" "rg_snapshot rp' = rg_snapshot rp"
  using assms by (auto simp: delete_key_in_overlay_def finish_update_def Let_def split: sum.splits)

lemma decide_fresh:
  "rg_cache rp = Map.empty \<Longrightarrow>
   fst (reg_decide_with_context E rp key v w d e) = compute_reg E rp (ensure_lower E key) v w d e"
  by (simp add: reg_decide_with_context_def Let_def)

lemma compute_reg_read:
  "compute_reg E rp k (Some v) False d e =
     (case Option.bind (map_of (rs_mocks (rg_snapshot rp)) (k @ bslash # ensure_lower E v)) (mock_value_decode E) of
        Some m \<Rightarrow> (Mock, None, Some m)
      | None \<Rightarrow>
          if k \<in> ov_deleted (rg_overlay rp) then (Deny, None, None)
          else (case overlay_get (rg_overlay rp) k (ensure_lower E v) of
              Some (EntryValue x) \<Rightarrow> (Cow, Some x, None)
            | Some EntryDeleted \<Rightarrow> (Deny, None, None)
            | None \<Rightarrow> compute_reg E (rp\<lparr>rg_overlay := overlay_new []\<rparr>) k (Some v) False d e))"
  by (auto simp: compute_reg_def Let_def case_prod_beta is_key_deleted_def overlay_new_def overlay_get_def
      split: option.splits reg_entry.splits)

text \<open>A mock of the value comes first; then a read consults the deleted keys.\<close>

definition value_mock :: "('t, 'e) reg_env_scheme \<Rightarrow> 't reg_policy \<Rightarrow> string \<Rightarrow> string option \<Rightarrow> reg_value option" where
  "value_mock E rp lower_key value_name =
     Option.bind value_name (\<lambda>v. Option.bind (map_of (rs_mocks (rg_snapshot rp)) (lower_key @ bslash # ensure_lower E v)) (mock_value_decode E))"

lemma compute_reg_mock: "value_mock E rp k v = Some m \<Longrightarrow> compute_reg E rp k v w d e = (Mock, None, Some m)"
  by (simp add: compute_reg_def value_mock_def Let_def case_prod_beta)

lemma compute_reg_deleted:
  "value_mock E rp k v = None \<Longrightarrow> \<not> w \<Longrightarrow> k \<in> ov_deleted (rg_overlay rp) \<Longrightarrow> compute_reg E rp k v w d e = (Deny, None, None)"
  by (simp add: compute_reg_def value_mock_def Let_def case_prod_beta is_key_deleted_def)

lemma compute_reg_deleted_only:
  assumes "rg_snapshot rp' = rg_snapshot rp" and "ov_values (rg_overlay rp') = ov_values (rg_overlay rp)"
    and "w \<or> (k \<in> ov_deleted (rg_overlay rp') \<longleftrightarrow> k \<in> ov_deleted (rg_overlay rp))"
  shows "compute_reg E rp' k v w d e = compute_reg E rp k v w d e"
proof -
  have "overlay_get (rg_overlay rp') = overlay_get (rg_overlay rp)" by (simp add: overlay_get_def fun_eq_iff assms(2))
  then show ?thesis using assms(3)
    by (cases w) (simp_all add: compute_reg_def Let_def case_prod_beta assms(1) is_key_deleted_def cong: option.case_cong)
qed

lemma compute_reg_no_mock: "value_mock E rp k v = None \<Longrightarrow> fst (compute_reg E rp k v w d e) \<noteq> Mock"
  by (simp add: compute_reg_def value_mock_def Let_def case_prod_beta split: option.split reg_entry.split rule_mode.split)

section \<open>A sample registry policy\<close>

definition reg_sample_policy :: "(string \<times> string) list reg_policy" where
  "reg_sample_policy =
     \<lparr>rg_db = empty_database, rg_cache = Map.empty, rg_snapshot = \<lparr>rs_rules = [], rs_default = None, rs_mocks = []\<rparr>,
      rg_overlay = overlay_new (win ''d:|w''), rg_disk = None\<rparr>"

lemma reg_sample_policy_sel [simp]:
  "rg_cache reg_sample_policy = Map.empty" "rs_rules (rg_snapshot reg_sample_policy) = []"
  "rs_default (rg_snapshot reg_sample_policy) = None" "rs_mocks (rg_snapshot reg_sample_policy) = []"
  "rg_overlay reg_sample_policy = overlay_new (win ''d:|w'')" "rg_disk reg_sample_policy = None"
  by (simp_all add: reg_sample_policy_def)

lemma reg_sample_lower:
  "ensure_lower reg_sample (win ''HKLM|T'') = win ''hklm|t''" "ensure_lower reg_sample (win ''hklm|t'') = win ''hklm|t''"
  "ensure_lower reg_sample ''N'' = ''n''" "ensure_lower reg_sample ''n'' = ''n''"
  by code_simp+

lemma reg_sample_io [simp]: "io_error reg_sample d = None"
  by (simp add: reg_sample_def fs_env.defs reg_env.defs)

lemma reg_sample_names: "mirror_names (win ''hklm|t'') = [''hklm'', ''t'']"
  by code_simp

section \<open>Properties\<close>

text \<open>
  a value the guest wrote is read back under every spelling of key and name, a value it deleted reads as
  missing, and the decisions on all other values are unchanged; a mock of the value and a deleted key take precedence.
\<close>

theorem registry_write_read_back:
  assumes "set_entry E (ensure_lower E k) (ensure_lower E n) entry rp = (Inr (), rp')"
    and "ensure_lower E k \<notin> ov_deleted (rg_overlay rp)"
    and "Option.bind (map_of (rs_mocks (rg_snapshot rp)) (ensure_lower E k' @ bslash # ensure_lower E n')) (mock_value_decode E) = None"
  shows "fst (reg_decide_with_context E rp' k' (Some n') False d e) =
    (if ensure_lower E k' = ensure_lower E k \<and> ensure_lower E n' = ensure_lower E n
     then (case entry of EntryValue x \<Rightarrow> (Cow, Some x, None) | EntryDeleted \<Rightarrow> (Deny, None, None))
     else compute_reg E rp (ensure_lower E k') (Some n') False d e)"
proof -
  note ok = set_entry_ok [OF assms(1)]
  have base: "compute_reg E (rp'\<lparr>rg_overlay := overlay_new []\<rparr>) q v False d e = compute_reg E (rp\<lparr>rg_overlay := overlay_new []\<rparr>) q v False d e" for q v
    by (simp add: compute_reg_def ok(3))
  show ?thesis
    unfolding decide_fresh [OF ok(2)] compute_reg_read [of E rp'] compute_reg_read [of E rp] base
    using assms(2,3) by (simp add: ok(1,3) overlay_get_insert split: reg_entry.splits option.splits)
qed

theorem registry_write_read_back_witness:
  "fst (reg_decide_with_context reg_sample
     (snd (write_to_overlay reg_sample (win ''HKLM|T'') ''N'' \<lparr>rv_typ = RegSz, rv_data = RegString ''x''\<rparr> reg_sample_policy))
     (win ''hklm|t'') (Some ''n'') False None None) = (Cow, Some \<lparr>rv_typ = RegSz, rv_data = RegString ''x''\<rparr>, None)"
proof -
  let ?e = "EntryValue \<lparr>rv_typ = RegSz, rv_data = RegString ''x''\<rparr>"
  let ?w = "set_entry reg_sample (ensure_lower reg_sample (win ''HKLM|T'')) (ensure_lower reg_sample ''N'') ?e reg_sample_policy"
  have "fst ?w = Inr ()"
    unfolding set_entry_def flush_key_def write_under_def reg_sample_lower reg_sample_names
    by (simp add: finish_update_def disk_entries_def has_drive_def Let_def)
  then have "?w = (Inr (), snd ?w)" by (simp add: prod_eq_iff)
  from registry_write_read_back [OF this, of "win ''hklm|t''" "''n''" None None]
  show ?thesis unfolding write_to_overlay_def reg_sample_lower by (simp add: overlay_new_def)
qed

text \<open>
  a deleted key reads as missing under every spelling, with or without a value name,
  unless a mock answers; writes to it and all other keys are decided as before.
\<close>

theorem registry_delete_hides:
  assumes "delete_key_in_overlay E k rp = (Inr (), rp')"
  shows "fst (reg_decide_with_context E rp' k' v w d e) =
    (let old = compute_reg E rp (ensure_lower E k') v w d e
     in if ensure_lower E k' = ensure_lower E k \<and> \<not> w \<and> fst old \<noteq> Mock then (Deny, None, None) else old)"
proof (cases "value_mock E rp (ensure_lower E k') v")
  case None
  note ok = delete_key_ok [OF assms]
  from None have m: "value_mock E rp' (ensure_lower E k') v = None" by (simp add: value_mock_def ok(3))
  have same: "\<not> (ensure_lower E k' = ensure_lower E k \<and> \<not> w) \<Longrightarrow>
      compute_reg E rp' (ensure_lower E k') v w d e = compute_reg E rp (ensure_lower E k') v w d e"
    by (rule compute_reg_deleted_only) (auto simp: ok)
  show ?thesis
    unfolding decide_fresh [OF ok(2)] Let_def
    using same compute_reg_deleted [OF m] compute_reg_no_mock [OF None] ok(1) by auto
next
  case (Some x)
  note ok = delete_key_ok [OF assms]
  from Some have m: "value_mock E rp' (ensure_lower E k') v = Some x" by (simp add: value_mock_def ok(3))
  show ?thesis
    unfolding decide_fresh [OF ok(2)] Let_def compute_reg_mock [OF Some] compute_reg_mock [OF m] by simp
qed

theorem registry_delete_hides_witness:
  "fst (reg_decide_with_context reg_sample (snd (delete_key_in_overlay reg_sample (win ''HKLM|T'') reg_sample_policy))
     (win ''hklm|t'') None False None None) = (Deny, None, None)"
proof -
  let ?w = "delete_key_in_overlay reg_sample (win ''HKLM|T'') reg_sample_policy"
  have "fst ?w = Inr ()"
    unfolding delete_key_in_overlay_def write_under_def reg_sample_lower Let_def reg_sample_names
    by (simp add: finish_update_def disk_entries_def has_drive_def)
  then have "?w = (Inr (), snd ?w)" by (simp add: prod_eq_iff)
  from registry_delete_hides [OF this, of "win ''hklm|t''" None False None None]
  show ?thesis using compute_reg_no_mock [of reg_sample reg_sample_policy _ None]
    by (simp add: reg_sample_lower value_mock_def Let_def)
qed

text \<open>Writing values into a deleted key does not bring it back: no operation removes a key from the deleted set.\<close>

lemma registry_deleted_key_stays:
  assumes "set_entry E key name entry rp = (Inr (), rp')" and "k \<in> ov_deleted (rg_overlay rp)"
  shows "k \<in> ov_deleted (rg_overlay rp')"
  using assms by (simp add: set_entry_ok(1))

end
