(* ===== verification/RegistryRuns.thy ===== *)
theory RegistryRuns
  imports Registry
begin

text \<open>
  The registry overlay across restarts, along runs in which any update may fail on disk: the directory tree that the
  updates leave behind is read back by \<^verbatim>\<open>load_from_disk\<close> as the overlay that was in memory, and cached decisions
  are those of the current overlay, except for the keys of failed updates. A failed write is taken to leave the tree as it was; what it
  may leave besides, empty directories and a \<^verbatim>\<open>values.json.tmp\<close>, is skipped by the reader.
\<close>

section \<open>Files of the tree\<close>

fun file_at :: "(string \<times> fnode) list \<Rightarrow> string list \<Rightarrow> string \<Rightarrow> string option option" where
  "file_at es [] f = (case map_of es f of Some (FFile c) \<Rightarrow> Some c | _ \<Rightarrow> None)"
| "file_at es (d # ds) f = (case map_of es d of Some (FDir sub) \<Rightarrow> file_at sub ds f | _ \<Rightarrow> None)"

text \<open>A name as the updates use them: not empty, one component, in the spelling that the reader produces.\<close>

definition tidy_name :: "'a platform_scheme \<Rightarrow> string \<Rightarrow> bool" where
  "tidy_name E g \<longleftrightarrow> g \<noteq> [] \<and> bslash \<notin> set g \<and> ensure_lower E g = g"


lemma file_at_Nil [simp]: "file_at [] q f = None"
  by (cases q) simp_all







section \<open>The values of one key\<close>

text \<open>An entry that the reader gives back as it was.\<close>

definition storable_entry :: "reg_entry \<Rightarrow> bool" where
  "storable_entry e = (case e of EntryValue v \<Rightarrow> well_typed v \<and> utf8_value v | EntryDeleted \<Rightarrow> True)"

text \<open>A value name in folded form; it is a Rust string.\<close>

definition stored_name :: "'a platform_scheme \<Rightarrow> string \<Rightarrow> bool" where
  "stored_name E n \<longleftrightarrow> ensure_lower E n = n \<and> valid_utf8 n"












section \<open>Reading the tree\<close>

text \<open>The names below a directory \<open>ps\<close> that lead to a key.\<close>

definition key_names :: "string \<Rightarrow> string list" where
  "key_names k = (if k = [] then [] else split_by (\<lambda>c. c = bslash) k)"

definition rel_names :: "string list \<Rightarrow> string \<Rightarrow> string list option" where
  "rel_names ps k = strip_prefix ps (key_names k)"





text \<open>What the tree \<open>es\<close> of the directory \<open>ps\<close> stores for a key.\<close>

definition content :: "('t, 'e) reg_env_scheme \<Rightarrow> (string \<times> fnode) list \<Rightarrow> string list \<Rightarrow> string \<Rightarrow> reg_entry option" where
  "content E es q = (case file_at es q ''values.json'' of
      Some (Some raw) \<Rightarrow> (case parse_values_json E raw of Inr parsed \<Rightarrow> map_of parsed | Inl e \<Rightarrow> Map.empty)
    | _ \<Rightarrow> Map.empty)"


definition stored :: "('t, 'e) reg_env_scheme \<Rightarrow> string list \<Rightarrow> (string \<times> fnode) list \<Rightarrow> string \<Rightarrow> string \<Rightarrow> reg_entry option" where
  "stored E ps es k = (case rel_names ps k of Some q \<Rightarrow> content E es q | None \<Rightarrow> Map.empty)"

definition marked :: "string list \<Rightarrow> (string \<times> fnode) list \<Rightarrow> string \<Rightarrow> bool" where
  "marked ps es k \<longleftrightarrow> (case rel_names ps k of Some q \<Rightarrow> file_at es q ''_deleted'' \<noteq> None | None \<Rightarrow> False)"


lemma content_Nil [simp]: "content E [] q = Map.empty"
  by (simp add: content_def)

lemma stored_Nil [simp]: "stored E ps [] k = Map.empty" "marked ps [] k = False"
  by (simp_all add: stored_def marked_def split: option.split)






lemma overlay_get_insert_map:
  "overlay_get (insert_entry key n e ov) k = (if k = key then (overlay_get ov k)(n \<mapsto> e) else overlay_get ov k)"
  by (rule ext) (simp add: overlay_get_insert)




definition sorted_values :: "reg_overlay \<Rightarrow> bool" where
  "sorted_values ov \<longleftrightarrow> (\<forall>k. sorted_wrt (<) (map fst (enumerate_overlay_values ov k)))"

lemma sorted_values_insert: "sorted_values ov \<Longrightarrow> sorted_values (insert_entry key n e ov)"
  by (auto simp: sorted_values_def enumerate_overlay_values_def insert_entry_def intro!: btree_insert_sorted)








section \<open>Runs\<close>

datatype reg_update = SetValue string string reg_value | DropValue string string | DropKey string

definition apply_update :: "('t, 'e) reg_env_scheme \<Rightarrow> reg_update \<Rightarrow> 't reg_policy \<Rightarrow> (string + unit) \<times> 't reg_policy" where
  "apply_update E u rp =
     (case u of
        SetValue k n v \<Rightarrow> write_to_overlay E k n v rp
      | DropValue k n \<Rightarrow> delete_value_in_overlay E k n rp
      | DropKey k \<Rightarrow> delete_key_in_overlay E k rp)"

text \<open>The key of an update, in folded form.\<close>

definition update_key :: "'a platform_scheme \<Rightarrow> reg_update \<Rightarrow> string" where
  "update_key E u = ensure_lower E (case u of SetValue k n v \<Rightarrow> k | DropValue k n \<Rightarrow> k | DropKey k \<Rightarrow> k)"

text \<open>
  From a sandbox without an overlay: decisions, updates that satisfy \<open>P\<close>, changes of the shared database by
  others, reloads of the snapshot, and restarts. An update whose write fails has changed the overlay in memory but
  neither the tree nor the cache: \<open>F\<close> are the keys of the failed updates since the policy was opened, and
  \<open>S\<close> those since the cache was last cleared.
\<close>

inductive reg_reach :: "('t, 'e) reg_env_scheme \<Rightarrow> (reg_update \<Rightarrow> bool) \<Rightarrow> string set \<Rightarrow> string set \<Rightarrow> 't reg_policy \<Rightarrow> bool"
  for E P where
  first: "reg_open E db root None = Inr rp \<Longrightarrow> reg_reach E P {} {} rp"
| decide: "reg_reach E P F S rp \<Longrightarrow> reg_reach E P F S (snd (reg_decide_with_context E rp k v w d e))"
| update: "reg_reach E P F S rp \<Longrightarrow> P u \<Longrightarrow> apply_update E u rp = (Inr (), rp') \<Longrightarrow> reg_reach E P F {} rp'"
| failed: "reg_reach E P F S rp \<Longrightarrow> P u \<Longrightarrow> apply_update E u rp = (Inl err, rp') \<Longrightarrow>
    reg_reach E P (insert (update_key E u) F) (insert (update_key E u) S) rp'"
| store: "reg_reach E P F S rp \<Longrightarrow> reg_reach E P F S (rp\<lparr>rg_db := db\<rparr>)"
| reload: "reg_reach E P F S rp \<Longrightarrow> reload_snapshot E rp = (Inr (), rp') \<Longrightarrow> reg_reach E P F {} rp'"
| restart: "reg_reach E P F S rp \<Longrightarrow> reg_open E db root (rg_disk rp) = Inr rp' \<Longrightarrow> reg_reach E P {} {} rp'"

text \<open>
  An update that can be read back: the key is the path of its directory, no component is a drive, names and
  strings are UTF-8 and the folded name is in folded form, and the value has the data its type promises.
\<close>

definition storable_key :: "'a platform_scheme \<Rightarrow> string \<Rightarrow> bool" where
  "storable_key E key \<longleftrightarrow>
     (let k = ensure_lower E key in
      key_names k = mirror_names k \<and> list_all (\<lambda>g. tidy_name E g \<and> \<not> has_drive g) (mirror_names k))"

definition storable :: "'a platform_scheme \<Rightarrow> reg_update \<Rightarrow> bool" where
  "storable E u =
     (case u of
        SetValue k n v \<Rightarrow> storable_key E k \<and> stored_name E (ensure_lower E n) \<and> well_typed v \<and> utf8_value v
      | DropValue k n \<Rightarrow> storable_key E k \<and> stored_name E (ensure_lower E n)
      | DropKey k \<Rightarrow> storable_key E k)"

text \<open>Two overlays that agree on every key outside \<open>F\<close>.\<close>

definition agree_off :: "string set \<Rightarrow> reg_overlay \<Rightarrow> reg_overlay \<Rightarrow> bool" where
  "agree_off F ov ov' \<longleftrightarrow>
     (\<forall>k. k \<notin> F \<longrightarrow> overlay_get ov k = overlay_get ov' k \<and> (k \<in> ov_deleted ov \<longleftrightarrow> k \<in> ov_deleted ov'))"

lemma agree_off_refl: "agree_off F ov ov"
  by (simp add: agree_off_def)

lemma agree_off_step: "agree_off S ov ov' \<Longrightarrow> agree_off {u} ov'' ov' \<Longrightarrow> agree_off (insert u S) ov ov''"
  by (simp add: agree_off_def)

text \<open>Memory and disk: the tree can be read back, and outside the keys \<open>F\<close> it holds what is in memory.\<close>

definition storable_overlay :: "'a platform_scheme \<Rightarrow> reg_overlay \<Rightarrow> bool" where
  "storable_overlay E ov \<longleftrightarrow>
     sorted_values ov \<and> (\<forall>k n e. overlay_get ov k n = Some e \<longrightarrow> storable_entry e \<and> stored_name E n)"


lemma overlay_new_empty [simp]: "overlay_get (overlay_new r) k = Map.empty" "ov_deleted (overlay_new r) = {}" "sorted_values (overlay_new r)"
  by (simp_all add: overlay_new_def overlay_get_def sorted_values_def enumerate_overlay_values_def fun_eq_iff)









lemma storable_insert:
  "storable_overlay E ov \<Longrightarrow> storable_entry e \<Longrightarrow> stored_name E n \<Longrightarrow> storable_overlay E (insert_entry k n e ov)"
  by (auto simp: storable_overlay_def sorted_values_insert overlay_get_insert)

lemma storable_deleted: "storable_overlay E (ov\<lparr>ov_deleted := d\<rparr>) \<longleftrightarrow> storable_overlay E ov"
  by (simp add: storable_overlay_def overlay_get_def sorted_values_def enumerate_overlay_values_def)





text \<open>A failed update changes the overlay at its key and nothing else.\<close>

lemma failed_update:
  assumes "apply_update E u rp = (Inl err, rp')"
  obtains ov where "rp' = rp\<lparr>rg_overlay := ov\<rparr>" "agree_off {update_key E u} ov (rg_overlay rp)"
    "storable E u \<Longrightarrow> storable_overlay E (rg_overlay rp) \<Longrightarrow> storable_overlay E ov"
proof (cases u)
  case (SetValue k n v)
  let ?ov = "insert_entry (ensure_lower E k) (ensure_lower E n) (EntryValue v) (rg_overlay rp)"
  show ?thesis
  proof (rule that [of ?ov])
    show "rp' = rp\<lparr>rg_overlay := ?ov\<rparr>" using assms SetValue
      by (auto simp: apply_update_def write_to_overlay_def set_entry_def finish_update_def Let_def split: sum.splits)
    show "storable E u \<Longrightarrow> storable_overlay E (rg_overlay rp) \<Longrightarrow> storable_overlay E ?ov" using SetValue
      by (simp add: storable_def storable_entry_def storable_insert)
  qed (simp add: agree_off_def update_key_def SetValue overlay_get_insert_map)
next
  case (DropValue k n)
  let ?ov = "insert_entry (ensure_lower E k) (ensure_lower E n) EntryDeleted (rg_overlay rp)"
  show ?thesis
  proof (rule that [of ?ov])
    show "rp' = rp\<lparr>rg_overlay := ?ov\<rparr>" using assms DropValue
      by (auto simp: apply_update_def delete_value_in_overlay_def set_entry_def finish_update_def Let_def split: sum.splits)
    show "storable E u \<Longrightarrow> storable_overlay E (rg_overlay rp) \<Longrightarrow> storable_overlay E ?ov" using DropValue
      by (simp add: storable_def storable_entry_def storable_insert)
  qed (simp add: agree_off_def update_key_def DropValue overlay_get_insert_map)
next
  case (DropKey k)
  let ?ov = "(rg_overlay rp)\<lparr>ov_deleted := insert (ensure_lower E k) (ov_deleted (rg_overlay rp))\<rparr>"
  show ?thesis
  proof (rule that [of ?ov])
    show "rp' = rp\<lparr>rg_overlay := ?ov\<rparr>" using assms DropKey
      by (auto simp: apply_update_def delete_key_in_overlay_def finish_update_def Let_def split: sum.splits)
  qed (simp_all add: agree_off_def update_key_def DropKey storable_deleted overlay_get_def fun_eq_iff)
qed



section \<open>The decision cache\<close>

type_synonym reg_request = "string \<times> string option \<times> bool \<times> u8 option \<times> string option"

definition reg_key :: "('t, 'e) reg_env_scheme \<Rightarrow> reg_request \<Rightarrow> cache_key_t" where
  "reg_key E a = (case a of (k, v, w, d, e) \<Rightarrow> cache_key E (reg_cache_path E (ensure_lower E k) v) w d e)"

definition reg_comp :: "('t, 'e) reg_env_scheme \<Rightarrow> 't reg_policy \<Rightarrow> reg_request \<Rightarrow> reg_decision" where
  "reg_comp E rp a = (case a of (k, v, w, d, e) \<Rightarrow> compute_reg E rp (ensure_lower E k) v w d e)"

definition reg_cache_lawful :: "('t, 'e) reg_env_scheme \<Rightarrow> bool" where
  "reg_cache_lawful E \<longleftrightarrow> (\<forall>c k d. reg_cache_store E c k d \<subseteq>\<^sub>m c(k \<mapsto> d))"

definition lawful_reg_store :: "('t, 'e) reg_env_scheme \<Rightarrow> (cache_key_t \<Rightarrow> reg_decision option) \<Rightarrow> cache_key_t \<Rightarrow> reg_decision
    \<Rightarrow> cache_key_t \<Rightarrow> reg_decision option" where
  "lawful_reg_store E = (if reg_cache_lawful E then reg_cache_store E else (\<lambda>c k d. c(k \<mapsto> d)))"

text \<open>What the cache may hold: decisions on the overlays that memory has had since the cache was last cleared.\<close>

definition reg_comp_at :: "('t, 'e) reg_env_scheme \<Rightarrow> 't reg_policy \<Rightarrow> reg_request \<times> reg_overlay \<Rightarrow> reg_decision" where
  "reg_comp_at E rp a = reg_comp E (rp\<lparr>rg_overlay := snd a\<rparr>) (fst a)"

interpretation reg_decisions: memo "\<lambda>a. reg_key E (fst a)" "reg_comp_at E rp" "lawful_reg_store E"
  for E :: "('t, 'e) reg_env_scheme" and rp
  by unfold_locales (auto simp: lawful_reg_store_def reg_cache_lawful_def)

definition recent :: "string set \<Rightarrow> 't reg_policy \<Rightarrow> (reg_request \<times> reg_overlay) set" where
  "recent S rp = {a. agree_off S (snd a) (rg_overlay rp)}"

lemma compute_reg_cong:
  assumes "rg_snapshot rp' = rg_snapshot rp" and "overlay_get (rg_overlay rp') k = overlay_get (rg_overlay rp) k"
    and "k \<in> ov_deleted (rg_overlay rp') \<longleftrightarrow> k \<in> ov_deleted (rg_overlay rp)"
  shows "compute_reg E rp' k v w d e = compute_reg E rp k v w d e"
  by (cases v) (simp_all add: compute_reg_def Let_def case_prod_beta assms is_key_deleted_def cong: option.case_cong)

lemma reg_comp_at_cong: "rg_snapshot rp' = rg_snapshot rp \<Longrightarrow> reg_comp_at E rp' = reg_comp_at E rp"
  by (rule ext) (simp add: reg_comp_at_def reg_comp_def compute_reg_cong split: prod.split)

lemma recent_cong: "rg_overlay rp' = rg_overlay rp \<Longrightarrow> recent S rp' = recent S rp"
  by (simp add: recent_def)

lemma recent_now: "(a, rg_overlay rp) \<in> recent S rp"
  by (simp add: recent_def agree_off_refl)

lemma reg_comp_now: "reg_comp_at E rp (a, rg_overlay rp) = reg_comp E rp a"
  by (simp add: reg_comp_at_def)

lemma decide_fields:
  "rg_snapshot (snd (reg_decide_with_context E rp k v w d e)) = rg_snapshot rp"
  "rg_overlay (snd (reg_decide_with_context E rp k v w d e)) = rg_overlay rp"
  by (simp_all add: reg_decide_with_context_def Let_def split: option.split)

lemma reach_coherent:
  "reg_reach E P F S rp \<Longrightarrow> reg_cache_lawful E \<Longrightarrow>
   memo.coherent_on (\<lambda>a. reg_key E (fst a)) (reg_comp_at E rp) (recent S rp) (rg_cache rp)"
proof (induction rule: reg_reach.induct)
  case (first db root rp)
  then have "rg_cache rp = Map.empty" by (auto simp: reg_open_def split: sum.splits)
  then show ?case using reg_decisions.coherent_on_empty by simp
next
  case (decide F S rp k v w d e)
  let ?a = "((k, v, w, d, e), rg_overlay rp)"
  let ?c = "rg_cache (snd (reg_decide_with_context E rp k v w d e))"
  have c: "?c = rg_cache rp \<or> ?c = lawful_reg_store E (rg_cache rp) (reg_key E (fst ?a)) (reg_comp_at E rp ?a)"
    using decide.prems unfolding reg_comp_now
    by (simp add: reg_decide_with_context_def Let_def lawful_reg_store_def reg_key_def reg_comp_def split: option.split)
  note ih = decide.IH [OF decide.prems]
  have st: "memo.coherent_on (\<lambda>a. reg_key E (fst a)) (reg_comp_at E rp) (recent S rp)
      (lawful_reg_store E (rg_cache rp) (reg_key E (fst ?a)) (reg_comp_at E rp ?a))"
    by (rule reg_decisions.coherent_on_store [OF ih recent_now])
  from c show ?case
    unfolding reg_comp_at_cong [OF decide_fields(1)] recent_cong [OF decide_fields(2)]
    by (elim disjE) (simp_all only: ih st)
next
  case (update F S rp u rp')
  then have "rg_cache rp' = Map.empty"
    by (cases u) (auto simp: apply_update_def write_to_overlay_def delete_value_in_overlay_def dest: set_entry_ok delete_key_ok)
  then show ?case using reg_decisions.coherent_on_empty by simp
next
  case (failed F S rp u err rp')
  from failed_update [OF failed.hyps(3)] obtain ov where ov: "rp' = rp\<lparr>rg_overlay := ov\<rparr>" "agree_off {update_key E u} ov (rg_overlay rp)"
    by blast
  have sub: "recent S rp \<subseteq> recent (insert (update_key E u) S) rp'"
  proof
    fix a assume "a \<in> recent S rp"
    then have "agree_off S (snd a) (rg_overlay rp)" by (simp add: recent_def)
    from agree_off_step [OF this ov(2)] show "a \<in> recent (insert (update_key E u) S) rp'" by (simp add: recent_def ov(1))
  qed
  have same: "reg_comp_at E rp' = reg_comp_at E rp" "rg_cache rp' = rg_cache rp"
    unfolding ov(1) by (rule reg_comp_at_cong, simp) simp
  show ?case unfolding same by (rule reg_decisions.coherent_on_mono [OF failed.IH [OF failed.prems] sub])
next
  case (store F S rp db)
  have same: "reg_comp_at E (rp\<lparr>rg_db := db\<rparr>) = reg_comp_at E rp" "recent S (rp\<lparr>rg_db := db\<rparr>) = recent S rp"
    by (rule reg_comp_at_cong, simp) (rule recent_cong, simp)
  show ?case unfolding same using store.IH [OF store.prems] by simp
next
  case (reload F S rp rp')
  then have "rg_cache rp' = Map.empty" by (auto simp: reload_snapshot_def split: sum.splits)
  then show ?case using reg_decisions.coherent_on_empty by simp
next
  case (restart F S rp db root rp')
  then have "rg_cache rp' = Map.empty" by (auto simp: reg_open_def split: sum.splits)
  then show ?case using reg_decisions.coherent_on_empty by simp
qed

section \<open>Properties\<close>

lemma sample_reg_open: "reg_open reg_sample empty_database (win ''d:|w'') None = Inr reg_sample_policy"
  by (simp add: reg_open_def reg_snapshot_load_def read_txn_def table_entries_def open_r_def empty_database_def
      reg_sample_def fs_env.defs reg_env.defs sample_fs_def env.defs sample_env_def load_from_disk_def reg_sample_policy_def)

lemma sample_storable: "storable reg_sample (SetValue (win ''HKLM|T'') ''N'' \<lparr>rv_typ = RegSz, rv_data = RegString ''x''\<rparr>)"
proof -
  have t: "tidy_name reg_sample ''hklm''" "tidy_name reg_sample ''t''" by code_simp+
  have "key_names (win ''hklm|t'') = [''hklm'', ''t'']" by code_simp
  moreover have u: "is_ascii ''n''" "is_ascii ''x''" by code_simp+
  ultimately show ?thesis using t
    unfolding storable_def storable_key_def reg_update.case reg_sample_lower Let_def reg_sample_names
    by (simp add: has_drive_def stored_name_def reg_sample_lower utf8_value_def ascii_valid_utf8 u)
qed

definition sample_written :: "(string \<times> string) list reg_policy" where
  "sample_written = snd (write_to_overlay reg_sample (win ''HKLM|T'') ''N'' \<lparr>rv_typ = RegSz, rv_data = RegString ''x''\<rparr> reg_sample_policy)"

lemma sample_write:
  "write_to_overlay reg_sample (win ''HKLM|T'') ''N'' \<lparr>rv_typ = RegSz, rv_data = RegString ''x''\<rparr> reg_sample_policy = (Inr (), sample_written)"
proof -
  have "fst (write_to_overlay reg_sample (win ''HKLM|T'') ''N'' \<lparr>rv_typ = RegSz, rv_data = RegString ''x''\<rparr> reg_sample_policy) = Inr ()"
    unfolding write_to_overlay_def set_entry_def flush_key_def write_under_def reg_sample_lower reg_sample_names
    by (simp add: finish_update_def disk_entries_def has_drive_def Let_def)
  then show ?thesis by (simp add: sample_written_def prod_eq_iff)
qed

lemma sample_reach: "reg_reach reg_sample (storable reg_sample) {} {} sample_written"
proof (rule reg_reach.update)
  show "reg_reach reg_sample (storable reg_sample) {} {} reg_sample_policy" by (rule reg_reach.first [OF sample_reg_open])
  show "storable reg_sample (SetValue (win ''HKLM|T'') ''N'' \<lparr>rv_typ = RegSz, rv_data = RegString ''x''\<rparr>)" by (rule sample_storable)
qed (simp add: apply_update_def sample_write)



text \<open>
  C37: at any point of a run, failed updates included, a registry decision, cached or not, is the one of
  \<open>compute_reg\<close> on the current overlay and snapshot for this request or one with the same cache key, unless that
  request is about a key of \<open>S\<close>: one with an update that failed on disk since the cache was last cleared.
\<close>

theorem registry_decision_current:
  assumes "reg_reach E P F S rp" and "reg_cache_lawful E"
  shows "\<exists>k' v' w' d' e'. reg_key E (k', v', w', d', e') = reg_key E (k, v, w, d, e) \<and>
    (ensure_lower E k' \<in> S \<or>
     fst (reg_decide_with_context E rp k v w d e) = compute_reg E rp (ensure_lower E k') v' w' d' e')"
proof (cases "rg_cache rp (reg_key E (k, v, w, d, e))")
  case None
  then show ?thesis by (intro exI [of _ k] exI [of _ v] exI [of _ w] exI [of _ d] exI [of _ e])
      (simp add: reg_decide_with_context_def reg_key_def Let_def)
next
  case (Some x)
  from reg_decisions.hit_in [OF reach_coherent [OF assms], of "((k, v, w, d, e), rg_overlay rp)"] Some
  obtain k' v' w' d' e' ov where b: "reg_key E (k', v', w', d', e') = reg_key E (k, v, w, d, e)"
      "x = reg_comp_at E rp ((k', v', w', d', e'), ov)" "agree_off S ov (rg_overlay rp)"
    by (auto simp: recent_def)
  moreover have "fst (reg_decide_with_context E rp k v w d e) = x"
    using Some by (simp add: reg_decide_with_context_def reg_key_def Let_def)
  moreover have "x = compute_reg E rp (ensure_lower E k') v' w' d' e'" if "ensure_lower E k' \<notin> S"
  proof -
    have "x = compute_reg E (rp\<lparr>rg_overlay := ov\<rparr>) (ensure_lower E k') v' w' d' e'"
      using b(2) by (simp add: reg_comp_at_def reg_comp_def)
    also have "\<dots> = compute_reg E rp (ensure_lower E k') v' w' d' e'"
      by (rule compute_reg_cong) (use that b(3) in \<open>simp_all add: agree_off_def\<close>)
    finally show ?thesis .
  qed
  ultimately have "reg_key E (k', v', w', d', e') = reg_key E (k, v, w, d, e) \<and>
      (ensure_lower E k' \<in> S \<or>
       fst (reg_decide_with_context E rp k v w d e) = compute_reg E rp (ensure_lower E k') v' w' d' e')"
    by (cases "ensure_lower E k' \<in> S") simp_all
  then show ?thesis by (intro exI)
qed

theorem registry_decision_current_witness:
  "\<exists>k' v' w' d' e'. reg_key reg_sample (k', v', w', d', e') = reg_key reg_sample (win ''hklm|t'', Some ''n'', False, None, None) \<and>
    fst (reg_decide_with_context reg_sample sample_written (win ''hklm|t'') (Some ''n'') False None None) =
      compute_reg reg_sample sample_written (ensure_lower reg_sample k') v' w' d' e'"
proof -
  have "reg_cache_lawful reg_sample" by (simp add: reg_cache_lawful_def reg_sample_def fs_env.defs reg_env.defs)
  from registry_decision_current [OF sample_reach this, where k = "win ''hklm|t''" and v = "Some ''n''" and w = False and d = None and e = None]
  show ?thesis by (simp only: empty_iff simp_thms)
qed

text \<open>
  The value \<open>n\<close> of a key and its subkey \<open>n\<close> have the same cache key. A key-level lookup of the subkey leaves
  its decision in the cache, and the read of the value then passes through to the real registry although the guest has written it.
\<close>

theorem registry_cache_confuses_value_and_subkey:
  "(let rp = snd (reg_decide reg_sample sample_written (win ''hklm|t|n'') None False)
    in reg_decide reg_sample rp (win ''hklm|t'') (Some ''n'') False = ((Passthrough, None, None), rp) \<and>
       compute_reg reg_sample rp (win ''hklm|t'') (Some ''n'') False None None =
         (Cow, Some \<lparr>rv_typ = RegSz, rv_data = RegString ''x''\<rparr>, None))"
proof -
  note w = set_entry_ok [OF sample_write [unfolded write_to_overlay_def reg_sample_lower]]
  have l: "ensure_lower reg_sample (win ''hklm|t|n'') = win ''hklm|t|n''" by code_simp
  have p: "win ''hklm|t|n'' = win ''hklm|t'' @ bslash # ''n''" by code_simp
  have get: "overlay_get (rg_overlay sample_written) (win ''hklm|t'') ''n'' = Some (EntryValue \<lparr>rv_typ = RegSz, rv_data = RegString ''x''\<rparr>)"
    using w(1) by (simp add: overlay_get_insert)
  have store: "reg_cache_store reg_sample c k d = c(k \<mapsto> d)" for c k d by (simp add: reg_sample_def fs_env.defs reg_env.defs)
  have miss: "compute_reg reg_sample sample_written (win ''hklm|t|n'') None False None None = (Passthrough, None, None)"
    by (simp add: compute_reg_def Let_def is_key_deleted_def w overlay_new_def reg_best_rule_match_def)
  define key where "key = cache_key reg_sample (win ''hklm|t|n'') False None None"
  define rp where "rp = sample_written\<lparr>rg_cache := [key \<mapsto> (Passthrough, None, None)]\<rparr>"
  have "reg_decide reg_sample sample_written (win ''hklm|t|n'') None False = ((Passthrough, None, None), rp)"
    unfolding reg_decide_def reg_decide_with_context_def l Let_def reg_cache_path_def option.case key_def [symmetric] w(2) miss store
    by (simp add: rp_def w(2))
  moreover have "reg_decide reg_sample rp (win ''hklm|t'') (Some ''n'') False = ((Passthrough, None, None), rp)"
    unfolding reg_decide_def reg_decide_with_context_def reg_sample_lower Let_def reg_cache_path_def option.case p [symmetric] key_def [symmetric]
    by (simp add: rp_def)
  moreover have "compute_reg reg_sample rp (win ''hklm|t'') (Some ''n'') False None None =
      (Cow, Some \<lparr>rv_typ = RegSz, rv_data = RegString ''x''\<rparr>, None)"
  proof -
    have f: "rg_overlay rp = rg_overlay sample_written" "rg_snapshot rp = rg_snapshot reg_sample_policy" by (simp_all add: rp_def w(3))
    have nd: "ov_deleted (rg_overlay sample_written) = {}" by (simp add: w(1) overlay_new_def)
    show ?thesis by (subst compute_reg_read) (simp only: reg_sample_lower f get nd, simp)
  qed
  ultimately show ?thesis by (simp add: Let_def)
qed

text \<open>
  A write that fails on disk is reported as failed but has changed the overlay in memory, and the cache keeps the
  decisions from before it.
\<close>

theorem registry_failed_write_remains:
  assumes "io_error E (friendly_to_overlay (ensure_lower E k) (ov_root (rg_overlay rp))) = Some err"
  shows "write_to_overlay E k n v rp =
    (Inl err, rp\<lparr>rg_overlay := insert_entry (ensure_lower E k) (ensure_lower E n) (EntryValue v) (rg_overlay rp)\<rparr>)"
  using assms
  by (simp add: write_to_overlay_def set_entry_def flush_key_def write_under_def finish_update_def insert_entry_def Let_def)

text \<open>A slash is an ordinary character of a registry key name, but two such keys share one directory.\<close>

theorem key_directory_collides:
  "friendly_to_overlay (win ''hkcr|text/html'') (win ''d:|w'') = friendly_to_overlay (win ''hkcr|text|html'') (win ''d:|w'')"
  by code_simp

end
