(* ===== verification/HotStats.thy ===== *)
theory HotStats
  imports Prelude "HOL-Library.Product_Lexorder" "HOL-Library.Multiset"
begin

text \<open>
  Access statistics of the launcher (\<^verbatim>\<open>observe/hot_stats.rs\<close>): total counters, and per-path counters in maps that
  are cut down to the hottest entries when they grow past a bound.
\<close>

section \<open>State\<close>

record path_counters =
  pc_reads :: u64
  pc_writes :: u64
  pc_denies :: u64

record totals =
  fs_decides :: u64
  fs_denies :: u64
  fs_cows :: u64
  fs_mocks :: u64
  reg_decides :: u64
  reg_denies :: u64
  net_decides :: u64
  net_denies :: u64
  t_violations :: u64
  hellos :: u64
  t_children :: u64

type_synonym path_map = "(string \<times> path_counters) list"

record hot_stats =
  fs_paths :: path_map
  reg_keys :: path_map
  net_hosts :: path_map
  hs_totals :: totals

definition MAX_TRACKED_PATHS :: nat where
  "MAX_TRACKED_PATHS = 8192"

definition EVICT_KEEP_TOP :: nat where
  "EVICT_KEEP_TOP = 4096"

definition no_counters :: path_counters where
  "no_counters = \<lparr>pc_reads = 0, pc_writes = 0, pc_denies = 0\<rparr>"

section \<open>Operations\<close>

definition bump :: "bool \<Rightarrow> bool \<Rightarrow> path_counters \<Rightarrow> path_counters" where
  "bump write denied c =
     (if denied then c\<lparr>pc_denies := pc_denies c + 1\<rparr>
      else if write then c\<lparr>pc_writes := pc_writes c + 1\<rparr>
      else c\<lparr>pc_reads := pc_reads c + 1\<rparr>)"

definition score :: "path_counters \<Rightarrow> u64" where
  "score c = pc_reads c + pc_writes c + pc_denies c"

text \<open>
  \<^verbatim>\<open>select_keep_top\<close>: the hottest entries, ties broken by the key. \<^verbatim>\<open>select_nth_unstable_by\<close> leaves them in front in
  some order; here they are sorted.
\<close>

definition heat :: "string \<times> u64 \<Rightarrow> int \<times> string" where
  "heat e = (- uint (snd e), fst e)"

definition select_keep_top :: "(string \<times> u64) list \<Rightarrow> nat \<Rightarrow> (string \<times> u64) list" where
  "select_keep_top scored keep = (if length scored \<le> keep then scored else take keep (sort_key heat scored))"

text \<open>\<open>busy\<close> is the outcome of the compare-and-exchange that guards the pass: another thread runs it.\<close>

definition evict_if_over_capacity :: "bool \<Rightarrow> path_map \<Rightarrow> path_map" where
  "evict_if_over_capacity busy m =
     (if length m < MAX_TRACKED_PATHS then m
      else if busy then m
      else (let keep = fst ` set (select_keep_top (map (\<lambda>(k, c). (k, score c)) m) EVICT_KEEP_TOP)
            in filter (\<lambda>(k, c). k \<in> keep) m))"

definition record_path :: "bool \<Rightarrow> string \<Rightarrow> bool \<Rightarrow> bool \<Rightarrow> path_map \<Rightarrow> path_map" where
  "record_path busy path write denied m =
     evict_if_over_capacity busy (btree_insert path (bump write denied (unwrap_or (map_of m path) no_counters)) m)"

definition record_fs :: "bool \<Rightarrow> string \<Rightarrow> bool \<Rightarrow> bool \<Rightarrow> hot_stats \<Rightarrow> hot_stats" where
  "record_fs busy path write denied hs = hs\<lparr>fs_paths := record_path busy path write denied (fs_paths hs)\<rparr>"

definition record_reg :: "bool \<Rightarrow> string \<Rightarrow> bool \<Rightarrow> bool \<Rightarrow> hot_stats \<Rightarrow> hot_stats" where
  "record_reg busy key_path write denied hs = hs\<lparr>reg_keys := record_path busy key_path write denied (reg_keys hs)\<rparr>"

definition record_net :: "bool \<Rightarrow> string \<Rightarrow> bool \<Rightarrow> hot_stats \<Rightarrow> hot_stats" where
  "record_net busy host denied hs = hs\<lparr>net_hosts := record_path busy host False denied (net_hosts hs)\<rparr>"

section \<open>Eviction\<close>

definition path_map_ok :: "path_map \<Rightarrow> bool" where
  "path_map_ok m \<longleftrightarrow> sorted_wrt (<) (map fst m)"

definition scores :: "path_map \<Rightarrow> (string \<times> u64) list" where
  "scores m = map (\<lambda>(k, c). (k, score c)) m"

lemma scores_keys [simp]: "map fst (scores m) = map fst m" "length (scores m) = length m"
  by (simp_all add: scores_def comp_def case_prod_beta)

lemma top_size: "length (select_keep_top (scores m) k) = min k (length m)"
  by (simp add: select_keep_top_def)

lemma top_subset: "set (select_keep_top xs k) \<subseteq> set xs"
  using set_take_subset [of k "sort_key heat xs"] by (auto simp: select_keep_top_def)

lemma top_distinct: "distinct (map fst xs) \<Longrightarrow> distinct (map fst (select_keep_top xs k))"
proof -
  assume "distinct (map fst xs)"
  moreover have "mset (map fst (sort_key heat xs)) = mset (map fst xs)" by simp
  ultimately have "distinct (map fst (sort_key heat xs))" by (metis mset_eq_imp_distinct_iff)
  then show ?thesis using \<open>distinct (map fst xs)\<close> by (simp add: select_keep_top_def take_map [symmetric] distinct_take)
qed

text \<open>Every kept entry is at least as hot as every dropped one.\<close>

lemma top_hotter:
  assumes "a \<in> set (select_keep_top xs k)" and "b \<in> set xs" and "b \<notin> set (select_keep_top xs k)"
  shows "heat a \<le> heat b"
proof -
  have s: "sorted (map heat (sort_key heat xs))" by simp
  from assms have big: "k < length xs" by (auto simp: select_keep_top_def split: if_splits)
  define ys where "ys = sort_key heat xs"
  from assms big have a: "a \<in> set (take k ys)" and b: "b \<in> set (drop k ys)"
    by (auto simp: select_keep_top_def ys_def) (metis UnE append_take_drop_id set_append set_sort)
  from s have "sorted (map heat (take k ys) @ map heat (drop k ys))" by (simp add: ys_def flip: map_append)
  with a b show ?thesis by (auto simp: sorted_append)
qed

lemma evict_filter:
  "MAX_TRACKED_PATHS \<le> length m \<Longrightarrow>
   evict_if_over_capacity False m = filter (\<lambda>e. fst e \<in> fst ` set (select_keep_top (scores m) EVICT_KEEP_TOP)) m"
  by (simp add: evict_if_over_capacity_def scores_def Let_def case_prod_beta cong: filter_cong)

lemma score_unique:
  assumes "distinct (map fst m)" and "(k, c) \<in> set m" and "(k, s) \<in> set (scores m)"
  shows "s = score c"
  using assms by (auto simp: scores_def dest: eq_key_imp_eq_value)

lemma evict_mem:
  assumes "distinct (map fst m)" and "MAX_TRACKED_PATHS \<le> length m" and "(k, c) \<in> set m"
  shows "(k, c) \<in> set (evict_if_over_capacity False m) \<longleftrightarrow> (k, score c) \<in> set (select_keep_top (scores m) EVICT_KEEP_TOP)"
proof -
  let ?top = "set (select_keep_top (scores m) EVICT_KEEP_TOP)"
  have "k \<in> fst ` ?top \<longleftrightarrow> (k, score c) \<in> ?top"
  proof
    assume "k \<in> fst ` ?top"
    then obtain s where s: "(k, s) \<in> ?top" by force
    then have "(k, s) \<in> set (scores m)" using top_subset by blast
    with score_unique [OF assms(1,3)] s show "(k, score c) \<in> ?top" by simp
  qed force
  with assms(3) show ?thesis by (simp add: evict_filter [OF assms(2)])
qed

lemma evict_length:
  assumes "distinct (map fst m)" and "MAX_TRACKED_PATHS \<le> length m"
  shows "length (evict_if_over_capacity False m) = EVICT_KEEP_TOP"
proof -
  let ?top = "select_keep_top (scores m) EVICT_KEEP_TOP"
  let ?keep = "fst ` set ?top"
  have m': "map fst (evict_if_over_capacity False m) = filter (\<lambda>k. k \<in> ?keep) (map fst m)"
    unfolding evict_filter [OF assms(2)] by (simp add: filter_map comp_def)
  have "?keep \<subseteq> fst ` set (scores m)" using top_subset by (intro image_mono)
  also have "fst ` set (scores m) = set (map fst m)" by (metis scores_keys(1) set_map)
  finally have "set (filter (\<lambda>k. k \<in> ?keep) (map fst m)) = ?keep" by auto
  moreover have "distinct (filter (\<lambda>k. k \<in> ?keep) (map fst m))" using assms(1) by simp
  ultimately have "length (filter (\<lambda>k. k \<in> ?keep) (map fst m)) = card ?keep" by (metis distinct_card)
  also have "card ?keep = length ?top" using top_distinct [of "scores m" EVICT_KEEP_TOP] assms(1) distinct_card [of "map fst ?top"] by simp
  also have "\<dots> = EVICT_KEEP_TOP" using assms(2) by (simp add: top_size EVICT_KEEP_TOP_def MAX_TRACKED_PATHS_def)
  finally show ?thesis by (metis m' length_map)
qed

section \<open>Properties\<close>

text \<open>
  a record without contention leaves fewer than \<open>MAX_TRACKED_PATHS\<close> entries, sorted by path, and an entry that
  an eviction dropped is no hotter than any that it kept.
\<close>

theorem hot_paths_bounded:
  assumes "path_map_ok m"
  shows "path_map_ok (record_path False path write denied m) \<and> length (record_path False path write denied m) < MAX_TRACKED_PATHS \<and>
    (\<forall>k c k' c'. (k, c) \<in> set (record_path False path write denied m) \<and> 
       (k', c') \<in> set (btree_insert path (bump write denied (unwrap_or (map_of m path) no_counters)) m) - set (record_path False path write denied m)
       \<longrightarrow> score c' \<le> score c)"
proof -
  define grown where "grown = btree_insert path (bump write denied (unwrap_or (map_of m path) no_counters)) m"
  have g: "sorted_wrt (<) (map fst grown)" using assms(1) unfolding grown_def path_map_ok_def by (rule btree_insert_sorted)
  then have d: "distinct (map fst grown)" by (simp add: strict_sorted_iff)
  have m': "record_path False path write denied m = evict_if_over_capacity False grown" by (simp add: record_path_def grown_def)
  show ?thesis
  proof (cases "length grown < MAX_TRACKED_PATHS")
    case True
    with g show ?thesis unfolding m' grown_def [symmetric] by (simp add: evict_if_over_capacity_def path_map_ok_def)
  next
    case False
    then have big: "MAX_TRACKED_PATHS \<le> length grown" by simp
    have "path_map_ok (evict_if_over_capacity False grown)"
      unfolding evict_filter [OF big] path_map_ok_def using g by (simp add: sorted_wrt_map sorted_wrt_filter)
    moreover have "length (evict_if_over_capacity False grown) < MAX_TRACKED_PATHS"
      using evict_length [OF d big] by (simp add: EVICT_KEEP_TOP_def MAX_TRACKED_PATHS_def)
    moreover have "score c' \<le> score c" if k: "(k, c) \<in> set (evict_if_over_capacity False grown)"
        and k': "(k', c') \<in> set grown - set (evict_if_over_capacity False grown)" for k c k' c'
    proof -
      let ?top = "select_keep_top (scores grown) EVICT_KEEP_TOP"
      have "(k, c) \<in> set grown" using k by (auto simp: evict_filter [OF big])
      then have "(k, score c) \<in> set ?top" "(k', score c') \<notin> set ?top"
        using k k' evict_mem [OF d big] by auto
      moreover have "(k', score c') \<in> set (scores grown)" using k' by (force simp: scores_def)
      ultimately have "heat (k, score c) \<le> heat (k', score c')" by (metis top_hotter)
      then show ?thesis by (auto simp: heat_def word_le_def)
    qed
    ultimately show ?thesis unfolding m' grown_def [symmetric] by blast
  qed
qed

theorem hot_paths_bounded_witness:
  "path_map_ok [(''a'', no_counters)] \<and> length (record_path False ''b'' True False [(''a'', no_counters)]) < MAX_TRACKED_PATHS"
proof -
  have "path_map_ok [(''a'', no_counters)]" by (simp add: path_map_ok_def)
  with hot_paths_bounded [OF this, of "''b''" True False] show ?thesis by blast
qed

end
