(* ===== verification/Records.thy ===== *)
theory Records
  imports RegistryRuns HotStats
begin

text \<open>
  The registry and network handlers of the launcher (\<^verbatim>\<open>pipe_server/records.rs\<close>): the fixed list of registry keys that a
  guest may never write, matched at component boundaries, in front of the stored rules.
\<close>

section \<open>The fixed deny list\<close>

definition PERSISTENCE_DENY_SUFFIXES :: "string list" where
  "PERSISTENCE_DENY_SUFFIXES = map win
     [''|software|microsoft|windows nt|currentversion|windows'',
      ''|software|wow6432node|microsoft|windows nt|currentversion|windows'',
      ''|software|microsoft|windows nt|currentversion|image file execution options'',
      ''|software|microsoft|windows nt|currentversion|silentprocessexit'',
      ''|system|currentcontrolset|control|session manager|appcertdlls'',
      ''|system|currentcontrolset|services'',
      ''|software|microsoft|windows|currentversion|run'',
      ''|software|microsoft|windows|currentversion|runonce'',
      ''|software|microsoft|windows|currentversion|runonceex'',
      ''|software|microsoft|windows|currentversion|explorer|startupapproved|run'',
      ''|software|microsoft|windows nt|currentversion|winlogon|userinit'',
      ''|software|microsoft|windows nt|currentversion|winlogon|shell'',
      ''|software|microsoft|windows nt|currentversion|winlogon|notify'',
      ''|software|microsoft|windows nt|currentversion|drivers32'',
      ''|software|microsoft|windows|currentversion|app paths'',
      ''|software|classes|clsid'',
      ''|shell|open|command'',
      ''|shellex|contextmenuhandlers'',
      ''|software|microsoft|command processor|autorun'',
      ''|system|currentcontrolset|control|lsa|notification packages'',
      ''|system|currentcontrolset|control|lsa|authentication packages'',
      ''|system|currentcontrolset|control|lsa|security packages'',
      ''|security|trusted locations'',
      ''_classes|clsid'',
      ''|environment'']"

definition ENV_VALUE_NAME_ALLOWLIST :: "string list" where
  "ENV_VALUE_NAME_ALLOWLIST =
     [''path'', ''pathext'', ''hermes_*'', ''npm_config_*'', ''cargo_home'', ''rustup_home'', ''python*'', ''pip_*'', ''uv_*'',
      ''node_path'', ''node_options'']"

text \<open>\<^verbatim>\<open>str::find\<close>.\<close>

fun str_find :: "'a list \<Rightarrow> 'a list \<Rightarrow> nat option" where
  "str_find s p = (if starts_with s p then Some 0 else (case s of [] \<Rightarrow> None | c # cs \<Rightarrow> map_option Suc (str_find cs p)))"

declare str_find.simps [simp del]

lemma str_find_Some: "str_find s p = Some i \<Longrightarrow> i \<le> length s \<and> starts_with (drop i s) p \<and> (\<forall>j<i. \<not> starts_with (drop j s) p)"
proof (induction s arbitrary: i)
  case Nil
  then show ?case by (auto simp: str_find.simps split: if_splits)
next
  case (Cons c cs)
  show ?case
  proof (cases "starts_with (c # cs) p")
    case True
    with Cons.prems show ?thesis by (simp add: str_find.simps)
  next
    case False
    with Cons.prems obtain k where k: "str_find cs p = Some k" "i = Suc k" by (auto simp: str_find.simps [of "c # cs"])
    from Cons.IH [OF k(1)] False k(2) show ?thesis by (auto simp: less_Suc_eq_0_disj)
  qed
qed

lemma str_find_None: "str_find s p = None \<longleftrightarrow> (\<forall>j<Suc (length s). \<not> starts_with (drop j s) p)"
proof (induction s)
  case Nil
  then show ?case by (simp add: str_find.simps)
next
  case (Cons c cs)
  then show ?case
    unfolding list.size(4) All_less_Suc2 [of "Suc (length cs)", simplified]
    by (simp add: str_find.simps [of "c # cs"] All_less_Suc2 del: All_less_Suc)
qed

text \<open>The loop of \<^verbatim>\<open>segment_contains\<close>, from the byte \<open>start\<close>.\<close>

function segment_scan :: "string \<Rightarrow> string \<Rightarrow> nat \<Rightarrow> bool" where
  "segment_scan key_lower fragment start =
     (case str_find (drop start key_lower) fragment of
        None \<Rightarrow> False
      | Some pos \<Rightarrow>
          (let abs = start + pos; after = abs + length fragment in
           if after = length key_lower \<or> key_lower ! after = bslash then True
           else if length key_lower \<le> abs + 1 then False
           else segment_scan key_lower fragment (abs + 1)))"
  by pat_completeness auto
termination
  by (relation "measure (\<lambda>(k, f, s). length k - s)") auto

declare segment_scan.simps [simp del]

definition segment_contains :: "string \<Rightarrow> string \<Rightarrow> bool" where
  "segment_contains key_lower fragment = segment_scan key_lower fragment 0"

definition is_persistence_denied :: "string \<Rightarrow> bool" where
  "is_persistence_denied key_path =
     (let lower = to_ascii_lowercase key_path in list_ex (segment_contains lower) PERSISTENCE_DENY_SUFFIXES)"

definition is_env_value_allowed :: "string option \<Rightarrow> bool" where
  "is_env_value_allowed value_name =
     (case value_name of
        None \<Rightarrow> False
      | Some name \<Rightarrow>
          (let lower = to_ascii_lowercase name in
           list_ex (\<lambda>pat. if pat \<noteq> [] \<and> last pat = CHR ''*'' then starts_with lower (butlast pat) else lower = pat)
             ENV_VALUE_NAME_ALLOWLIST))"

section \<open>Handlers\<close>

text \<open>
  What the launcher asks of its host: the compact text of a JSON value, the kernel's record of a process, and
  whether another thread holds the eviction guard of a statistics map.
\<close>

record 't host_env = "'t reg_env" +
  json_to_vec :: "json \<Rightarrow> string"
  image_path_of :: "u32 \<Rightarrow> string option"
  create_time_of :: "u32 \<Rightarrow> u64 option"
  parent_of :: "u32 \<Rightarrow> u32 option"
  evict_busy :: bool

definition count_total :: "(totals \<Rightarrow> totals) \<Rightarrow> hot_stats \<Rightarrow> hot_stats" where
  "count_total f hs = hs\<lparr>hs_totals := f (hs_totals hs)\<rparr>"

definition resp_reg_decide ::
    "('t, 'e) host_env_scheme \<Rightarrow> string \<Rightarrow> string option \<Rightarrow> bool \<Rightarrow> 't reg_policy \<times> hot_stats
     \<Rightarrow> (mode \<times> string option) \<times> 't reg_policy \<times> hot_stats" where
  "resp_reg_decide E key_path value_name write st =
     (case st of
        (rp, hs) \<Rightarrow>
          (let key_lower = to_ascii_lowercase key_path;
               is_persistence = is_persistence_denied key_lower;
               env_allowed = (is_persistence \<and> ends_with key_lower (win ''|environment'') \<and> is_env_value_allowed value_name);
               ((mode, value_json), rp') =
                 (if write \<and> is_persistence \<and> \<not> env_allowed then ((Deny, None), rp)
                  else (case reg_decide E rp key_path value_name write of
                      ((m, overlay_value, mock_value), rp') \<Rightarrow>
                        ((m, map_option (\<lambda>v. json_to_vec E (to_json_value E v)) (option_or overlay_value mock_value)), rp')));
               denied = (mode = Deny);
               hs1 = count_total (\<lambda>t. t\<lparr>reg_decides := reg_decides t + 1\<rparr>) hs;
               hs2 = (if denied then count_total (\<lambda>t. t\<lparr>reg_denies := reg_denies t + 1\<rparr>) hs1 else hs1)
           in ((mode, value_json), rp', record_reg (evict_busy E) key_path write denied hs2)))"

definition resp_reg_write ::
    "('t, 'e) host_env_scheme \<Rightarrow> string \<Rightarrow> string \<Rightarrow> reg_value \<Rightarrow> 't reg_policy \<Rightarrow> (string + unit) \<times> 't reg_policy" where
  "resp_reg_write E key_path value_name val rp = write_to_overlay E key_path value_name val rp"

definition resp_net_decide ::
    "('t, 'e) host_env_scheme \<Rightarrow> string \<Rightarrow> u16 \<Rightarrow> 't policy \<times> hot_stats \<Rightarrow> bool \<times> 't policy \<times> hot_stats" where
  "resp_net_decide E host port st =
     (case st of
        (p, hs) \<Rightarrow>
          (case handle_net_decide E (p_db p) (p_net p) host port of
             ((allow, rule_id), net) \<Rightarrow>
               (allow, p\<lparr>p_net := net\<rparr>,
                record_net (evict_busy E) (host @ colon # show_nat (unat port)) (\<not> allow)
                  (count_total (\<lambda>t. t\<lparr>net_decides := net_decides t + 1\<rparr>) hs))))"

section \<open>What the scan decides\<close>

text \<open>An occurrence of the fragment that ends at a component boundary.\<close>

definition aligned_at :: "string \<Rightarrow> string \<Rightarrow> nat \<Rightarrow> bool" where
  "aligned_at key f i \<longleftrightarrow> starts_with (drop i key) f \<and> (i + length f = length key \<or> i + length f < length key \<and> key ! (i + length f) = bslash)"

lemma starts_with_fits: "starts_with (drop i key) f \<Longrightarrow> f \<noteq> [] \<Longrightarrow> i + length f \<le> length key"
proof -
  assume "starts_with (drop i key) f" and "f \<noteq> []"
  then have "length f \<le> length key - i" by (auto simp: starts_with_iff dest: arg_cong [of _ _ length])
  moreover have "i < length key" using calculation \<open>f \<noteq> []\<close> by (cases "i < length key") auto
  ultimately show ?thesis by simp
qed

lemma segment_scan_iff: "f \<noteq> [] \<Longrightarrow> start \<le> length key \<Longrightarrow> segment_scan key f start \<longleftrightarrow> (\<exists>i\<ge>start. aligned_at key f i)"
proof (induction key f start rule: segment_scan.induct)
  case (1 key f start)
  show ?case
  proof (cases "str_find (drop start key) f")
    case None
    then have "\<not> starts_with (drop (start + j) key) f" if "j < Suc (length key - start)" for j
      using that by (simp add: str_find_None add.commute)
    then have "\<not> starts_with (drop i key) f" if "start \<le> i" "i \<le> length key" for i
      using that by (metis le_add_diff_inverse less_Suc_eq_le diff_le_mono)
    moreover have "\<not> starts_with (drop i key) f" if "length key < i" for i using that "1.prems"(1) by (simp add: starts_with_def)
    ultimately show ?thesis using None by (auto simp: segment_scan.simps [of key f start] aligned_at_def not_le)
  next
    case (Some pos)
    define at where "at = start + pos"
    from str_find_Some [OF Some] have f: "starts_with (drop at key) f" and before: "\<And>j. j < pos \<Longrightarrow> \<not> starts_with (drop (start + j) key) f"
      by (simp_all add: at_def add.commute)
    note fits = starts_with_fits [OF f "1.prems"(1)]
    have least: "at \<le> i" if "start \<le> i" "aligned_at key f i" for i
    proof (rule ccontr)
      assume "\<not> at \<le> i"
      with that(1) have "i - start < pos" "start + (i - start) = i" by (simp_all add: at_def)
      with before [of "i - start"] that(2) show False by (simp add: aligned_at_def)
    qed
    show ?thesis
    proof (cases "aligned_at key f at")
      case True
      then have "segment_scan key f start"
        using Some by (auto simp: segment_scan.simps [of key f start] aligned_at_def at_def Let_def)
      moreover have "start \<le> at" by (simp add: at_def)
      ultimately show ?thesis using True by blast
    next
      case False
      then have no: "at + length f \<noteq> length key" "key ! (at + length f) \<noteq> bslash" using f fits by (auto simp: aligned_at_def)
      then have lt: "at + 1 < length key" using fits "1.prems"(1) by (cases f) auto
      have "segment_scan key f start = segment_scan key f (at + 1)"
        using Some no lt by (simp add: segment_scan.simps [of key f start] at_def Let_def)
      also have "\<dots> \<longleftrightarrow> (\<exists>i\<ge>at + 1. aligned_at key f i)"
        using "1.IH" [OF Some refl refl] no lt "1.prems"(1) by (simp add: at_def)
      also have "\<dots> \<longleftrightarrow> (\<exists>i\<ge>start. aligned_at key f i)"
      proof
        assume "\<exists>i\<ge>at + 1. aligned_at key f i"
        then obtain i where "at + 1 \<le> i" "aligned_at key f i" by blast
        then show "\<exists>i\<ge>start. aligned_at key f i" by (intro exI [of _ i]) (simp add: at_def)
      next
        assume "\<exists>i\<ge>start. aligned_at key f i"
        then obtain i where i: "start \<le> i" "aligned_at key f i" by blast
        with least False have "at \<le> i" "at \<noteq> i" by auto
        with i(2) show "\<exists>i\<ge>at + 1. aligned_at key f i" by (intro exI [of _ i]) simp
      qed
      finally show ?thesis .
    qed
  qed
qed

lemma segment_contains_aligned:
  assumes "f \<noteq> []"
  shows "segment_contains key f \<longleftrightarrow> (\<exists>a b. key = a @ f @ b \<and> (b = [] \<or> hd b = bslash))"
proof -
  have "(\<exists>i\<ge>0. aligned_at key f i) \<longleftrightarrow> (\<exists>a b. key = a @ f @ b \<and> (b = [] \<or> hd b = bslash))"
  proof
    assume "\<exists>i\<ge>0. aligned_at key f i"
    then obtain i where i: "aligned_at key f i" by blast
    then have l: "i + length f \<le> length key" by (auto simp: aligned_at_def)
    from i obtain b where b: "drop i key = f @ b" by (auto simp: aligned_at_def starts_with_iff)
    have k: "key = take i key @ f @ b" using b by (metis append_take_drop_id)
    have "b = drop (i + length f) key" using b by (metis add.commute append_eq_conv_conj drop_drop)
    with i l have "b = [] \<or> hd b = bslash" by (auto simp: aligned_at_def hd_drop_conv_nth)
    with k show "\<exists>a b. key = a @ f @ b \<and> (b = [] \<or> hd b = bslash)" by blast
  next
    assume "\<exists>a b. key = a @ f @ b \<and> (b = [] \<or> hd b = bslash)"
    then obtain a b where k: "key = a @ f @ b" and b: "b = [] \<or> hd b = bslash" by blast
    have "aligned_at key f (length a)"
      using b by (cases b) (auto simp: k aligned_at_def starts_with_def nth_append)
    then show "\<exists>i\<ge>0. aligned_at key f i" by blast
  qed
  then show ?thesis using segment_scan_iff [OF assms, of 0 key] by (simp add: segment_contains_def)
qed

text \<open>A fragment that starts with a separator is found exactly as a run of whole components.\<close>

lemma segment_contains_components:
  "segment_contains key (bslash # g) \<longleftrightarrow>
     (\<exists>front rear. front \<noteq> [] \<and> split_by (\<lambda>c. c = bslash) key = front @ split_by (\<lambda>c. c = bslash) g @ rear)"
proof -
  let ?sp = "split_by (\<lambda>c. c = bslash)"
  have split: "?sp (a @ bslash # b) = ?sp a @ ?sp b" for a b by (rule split_by_append_sep) simp
  show ?thesis
  proof
    assume "segment_contains key (bslash # g)"
    then obtain a b where k: "key = a @ bslash # g @ b" and b: "b = [] \<or> hd b = bslash"
      using segment_contains_aligned [of "bslash # g" key] by auto
    from b consider "b = []" | b' where "b = bslash # b'" by (cases b) auto
    then show "\<exists>front rear. front \<noteq> [] \<and> ?sp key = front @ ?sp g @ rear"
    proof cases
      case 1
      with k split [of a g] show ?thesis by (intro exI [of _ "?sp a"] exI [of _ "[]"]) simp
    next
      case (2 b')
      with k split [of a "g @ b"] split [of g b'] show ?thesis by (intro exI [of _ "?sp a"] exI [of _ "?sp b'"]) simp
    qed
  next
    assume "\<exists>front rear. front \<noteq> [] \<and> ?sp key = front @ ?sp g @ rear"
    then obtain front rear where fb: "front \<noteq> []" "?sp key = front @ ?sp g @ rear" by blast
    have "key = join_with bslash (front @ ?sp g @ rear)" by (metis fb(2) join_split)
    also have "\<dots> = join_with bslash front @ bslash # join_with bslash (?sp g @ rear)" by (rule join_with_append) (simp_all add: fb(1))
    finally have key: "key = join_with bslash front @ (bslash # join_with bslash (?sp g @ rear))" .
    have "\<exists>b. join_with bslash (?sp g @ rear) = g @ b \<and> (b = [] \<or> hd b = bslash)"
    proof (cases "rear = []")
      case False
      then have "join_with bslash (?sp g @ rear) = g @ bslash # join_with bslash rear" by (simp add: join_with_append)
      then show ?thesis by auto
    qed simp
    then show "segment_contains key (bslash # g)"
      using key segment_contains_aligned [of "bslash # g" key] by auto
  qed
qed

lemma segment_contains_subkey: "f \<noteq> [] \<Longrightarrow> segment_contains key f \<Longrightarrow> segment_contains (key @ bslash # sub) f"
proof -
  assume f: "f \<noteq> []" and "segment_contains key f"
  then obtain a b where "key = a @ f @ b" "b = [] \<or> hd b = bslash" by (auto simp: segment_contains_aligned)
  then have "key @ bslash # sub = a @ f @ (b @ bslash # sub) \<and> hd (b @ bslash # sub) = bslash" by (cases b) auto
  with f show ?thesis by (auto simp: segment_contains_aligned)
qed

lemma denied_subkey: "is_persistence_denied key \<Longrightarrow> is_persistence_denied (key @ bslash # sub)"
proof -
  assume "is_persistence_denied key"
  then obtain f where f: "f \<in> set PERSISTENCE_DENY_SUFFIXES" "segment_contains (to_ascii_lowercase key) f"
    by (auto simp: is_persistence_denied_def list_ex_iff)
  from f(1) have "f \<noteq> []" by (auto simp: PERSISTENCE_DENY_SUFFIXES_def win_def)
  from segment_contains_subkey [OF this f(2), of "to_ascii_lowercase sub"] f(1)
  have "\<exists>f\<in>set PERSISTENCE_DENY_SUFFIXES. segment_contains (to_ascii_lowercase (key @ bslash # sub)) f"
    by (auto simp: to_ascii_lowercase_def ascii_lower_def is_ascii_uppercase_def)
  then show ?thesis by (simp add: is_persistence_denied_def list_ex_iff)
qed

lemma denied_case: "is_persistence_denied (to_ascii_lowercase key) = is_persistence_denied key"
  by (simp add: is_persistence_denied_def)

lemma denied_write:
  assumes "is_persistence_denied k" and "\<not> (ends_with (to_ascii_lowercase k) (win ''|environment'') \<and> is_env_value_allowed v)"
  shows "fst (resp_reg_decide E k v True (rp, hs)) = (Deny, None) \<and> fst (snd (resp_reg_decide E k v True (rp, hs))) = rp"
  unfolding resp_reg_decide_def denied_case prod.case Let_def using assms by auto

text \<open>Rules that are scoped to an executable do not apply to a request without one.\<close>

definition exe_scoped :: "snapshot_rule \<Rightarrow> bool" where
  "exe_scoped sr = (case row_when (sr_row sr) of Some f \<Rightarrow> when_exe f \<noteq> None | None \<Rightarrow> False)"

lemma scoped_rules_skipped:
  "foldl (reg_rule_step E key depth None) best rules = foldl (reg_rule_step E key depth None) best (filter (\<lambda>sr. \<not> exe_scoped sr) rules)"
proof (induction rules arbitrary: best)
  case (Cons sr rules)
  have "exe_scoped sr \<Longrightarrow> reg_rule_step E key depth None best sr = best"
    by (auto simp: exe_scoped_def reg_rule_step_def when_admits_def split: option.splits)
  with Cons show ?case by simp
qed simp

section \<open>Properties\<close>

text \<open>
  a fragment of the deny list matches a key exactly when its components occur in the key as a run of whole
  components behind the first one: nothing inside a component matches, and no spelling in between is missed.
\<close>

theorem deny_fragment_is_component_run:
  "segment_contains key (bslash # g) \<longleftrightarrow>
     (\<exists>front rear. front \<noteq> [] \<and> split_by (\<lambda>c. c = bslash) key = front @ split_by (\<lambda>c. c = bslash) g @ rear)"
  by (rule segment_contains_components)

text \<open>
  C29: a guest write below a key of the deny list is denied whatever the stored rules, mocks and overlay say, in every
  spelling, unless it is an allowed value of an environment key; the stored decision is not consulted and not cached.
\<close>

theorem persistence_write_denied:
  assumes "is_persistence_denied key" and "\<not> (ends_with (to_ascii_lowercase (key @ bslash # sub)) (win ''|environment'') \<and> is_env_value_allowed v)"
  shows "fst (resp_reg_decide E (key @ bslash # sub) v True (rp, hs)) = (Deny, None) \<and>
    fst (snd (resp_reg_decide E (key @ bslash # sub) v True (rp, hs))) = rp"
  using denied_write [OF denied_subkey [OF assms(1)] assms(2)] .

definition host_sample :: "(string \<times> string) list host_env" where
  "host_sample = reg_env.extend reg_sample (host_env.fields (\<lambda>j. []) (\<lambda>p. Some (win ''C:|App.exe'')) (\<lambda>p. Some 7) (\<lambda>p. Some 1) False)"

definition no_totals :: totals where
  "no_totals = \<lparr>fs_decides = 0, fs_denies = 0, fs_cows = 0, fs_mocks = 0, reg_decides = 0, reg_denies = 0, net_decides = 0,
     net_denies = 0, t_violations = 0, hellos = 0, t_children = 0\<rparr>"

definition no_stats :: hot_stats where
  "no_stats = \<lparr>fs_paths = [], reg_keys = [], net_hosts = [], hs_totals = no_totals\<rparr>"

theorem persistence_write_denied_witness:
  "fst (resp_reg_decide host_sample (win ''HKCU|Software|Microsoft|Windows|CurrentVersion|Run'' @ bslash # ''sub'') (Some ''x'') True
      (reg_sample_policy, no_stats)) = (Deny, None)"
proof -
  have d: "is_persistence_denied (win ''HKCU|Software|Microsoft|Windows|CurrentVersion|Run'')" by code_simp
  have e: "\<not> (ends_with (to_ascii_lowercase (win ''HKCU|Software|Microsoft|Windows|CurrentVersion|Run'' @ bslash # ''sub'')) (win ''|environment'') \<and>
      is_env_value_allowed (Some ''x''))" by code_simp
  from persistence_write_denied [OF d e, of host_sample reg_sample_policy no_stats] show ?thesis by blast
qed


text \<open>
  The handler asks for a decision without an executable, so it decides as if the registry rules that are scoped to
  an executable did not exist.
\<close>

theorem exe_scoped_registry_rules_ignored:
  "reg_best_rule_match E snap key depth None =
   reg_best_rule_match E (snap\<lparr>rs_rules := filter (\<lambda>sr. \<not> exe_scoped sr) (rs_rules snap)\<rparr>) key depth None"
  using scoped_rules_skipped [of E key depth None "rs_rules snap"] by (simp add: reg_best_rule_match_def split: option.split)

end
