(* ===== verification/Ownership.thy ===== *)
theory Ownership
  imports Records
begin

text \<open>
  Who may talk to the launcher (\<^verbatim>\<open>pipe_server/ownership.rs\<close>, \<^verbatim>\<open>sandbox/proc_table.rs\<close>, \<^verbatim>\<open>sandbox/child_drain.rs\<close>): the table of
  tracked processes with their creation times, the admission of a connecting process through its own entry, the
  root target or its chain of parents, and the depth and executable that policy decisions are made for. The
  kernel's answers about processes are fields of \<open>host_env\<close>.
\<close>

section \<open>State\<close>

record proc_info =
  pi_depth :: u8
  pi_exe :: string
  pi_create_time :: u64

type_synonym proc_table = "u32 \<Rightarrow> proc_info option"

definition child_depth :: "u8 \<Rightarrow> u8" where
  "child_depth parent_depth = (if parent_depth = 255 then 255 else parent_depth + 1)"

section \<open>Kernel facts\<close>

definition query_process_create_time :: "('t, 'e) host_env_scheme \<Rightarrow> u32 \<Rightarrow> u64 option" where
  "query_process_create_time E pid =
     (if pid = 0 then None
      else (case create_time_of E pid of None \<Rightarrow> None | Some ct \<Rightarrow> if ct = 0 then None else Some ct))"

definition query_process_image_path :: "('t, 'e) host_env_scheme \<Rightarrow> u32 \<Rightarrow> string option" where
  "query_process_image_path E pid = (if pid = 0 then None else image_path_of E pid)"

definition fold_published :: "'a platform_scheme \<Rightarrow> string \<Rightarrow> string" where
  "fold_published E s = nt_case_fold E s"

definition exe_paths_match :: "'a platform_scheme \<Rightarrow> string \<Rightarrow> string \<Rightarrow> bool" where
  "exe_paths_match E claimed_exe kernel_folded = (fold_dos_dots (fold_published E claimed_exe) = fold_dos_dots kernel_folded)"

definition hello_exe_context :: "('t, 'e) host_env_scheme \<Rightarrow> u32 \<Rightarrow> string \<Rightarrow> (string \<times> bool) option" where
  "hello_exe_context E client_pid claimed_exe =
     (case query_process_image_path E client_pid of
        None \<Rightarrow> None
      | Some kernel_path \<Rightarrow>
          (let lower = fold_published E kernel_path in Some (lower, \<not> exe_paths_match E claimed_exe lower)))"

definition spawned_child_kinship :: "('t, 'e) host_env_scheme \<Rightarrow> u32 \<Rightarrow> u32 \<Rightarrow> bool" where
  "spawned_child_kinship E child_pid client_pid \<longleftrightarrow> child_pid \<noteq> 0 \<and> parent_of E child_pid = Some client_pid"

definition decide_context :: "proc_table \<Rightarrow> u32 option \<Rightarrow> (u8 \<times> string) option" where
  "decide_context table conn_pid =
     Option.bind conn_pid (\<lambda>pid. map_option (\<lambda>info. (pi_depth info, pi_exe info)) (table pid))"

section \<open>Walks up the chain of parents\<close>

definition MAX_DEPTH :: nat where
  "MAX_DEPTH = 16"

text \<open>The loop of \<^verbatim>\<open>resolve_new_entry_depth_impl\<close>: turns left, the processes seen, the current one.\<close>

fun resolve_loop :: "('t, 'e) host_env_scheme \<Rightarrow> proc_table \<Rightarrow> nat \<Rightarrow> u32 set \<Rightarrow> u32 \<Rightarrow> u8" where
  "resolve_loop E table 0 seen current = 255"
| "resolve_loop E table (Suc n) seen current =
     (if current \<in> seen then 255
      else (case parent_of E current of
          None \<Rightarrow> 255
        | Some parent \<Rightarrow>
            if parent = 0 then 255
            else (case table parent of
                Some info \<Rightarrow> child_depth (pi_depth info)
              | None \<Rightarrow> resolve_loop E table n (insert current seen) parent)))"

definition resolve_new_entry_depth :: "('t, 'e) host_env_scheme \<Rightarrow> proc_table \<Rightarrow> u32 \<Rightarrow> u8" where
  "resolve_new_entry_depth E table pid = resolve_loop E table MAX_DEPTH {} pid"

text \<open>A tracked entry still describes the live process; a stale entry is removed.\<close>

definition tracked_entry_still_owned :: "('t, 'e) host_env_scheme \<Rightarrow> u32 \<Rightarrow> proc_table \<Rightarrow> bool \<times> proc_table" where
  "tracked_entry_still_owned E pid table =
     (case table pid of
        None \<Rightarrow> (False, table)
      | Some entry \<Rightarrow>
          if pi_create_time entry = 0 then (False, table)
          else (case query_process_create_time E pid of
              Some t \<Rightarrow> if t = pi_create_time entry then (True, table) else (False, table(pid := None))
            | None \<Rightarrow> (False, table(pid := None))))"

definition root_verified :: "('t, 'e) host_env_scheme \<Rightarrow> u32 \<Rightarrow> u64 \<Rightarrow> u32 \<Rightarrow> bool" where
  "root_verified E root_target_pid root_create_time pid \<longleftrightarrow>
     root_target_pid \<noteq> 0 \<and> pid = root_target_pid \<and> root_create_time \<noteq> 0 \<and> query_process_create_time E pid = Some root_create_time"

fun walk_parents_to_owned ::
    "('t, 'e) host_env_scheme \<Rightarrow> u32 \<Rightarrow> u64 \<Rightarrow> nat \<Rightarrow> u32 set \<Rightarrow> u32 \<Rightarrow> proc_table \<Rightarrow> bool \<times> proc_table" where
  "walk_parents_to_owned E root rct 0 seen current table = (False, table)"
| "walk_parents_to_owned E root rct (Suc n) seen current table =
     (if current \<in> seen then (False, table)
      else (case parent_of E current of
          None \<Rightarrow> (False, table)
        | Some parent \<Rightarrow>
            if parent = 0 then (False, table)
            else (case tracked_entry_still_owned E parent table of
                (True, table') \<Rightarrow> (True, table')
              | (False, table') \<Rightarrow>
                  if root_verified E root rct parent then (True, table')
                  else walk_parents_to_owned E root rct n (insert current seen) parent table')))"

definition is_owned_client_pid ::
    "('t, 'e) host_env_scheme \<Rightarrow> u32 \<Rightarrow> u64 \<Rightarrow> (u32 \<Rightarrow> bool) option \<Rightarrow> u32 \<Rightarrow> proc_table \<Rightarrow> bool \<times> proc_table" where
  "is_owned_client_pid E root_target_pid root_create_time folder_job client_pid table =
     (if client_pid = 0 then (False, table)
      else (case folder_job of
          Some in_job \<Rightarrow> (in_job client_pid, table)
        | None \<Rightarrow>
            (case tracked_entry_still_owned E client_pid table of
               (True, table') \<Rightarrow> (True, table')
             | (False, table') \<Rightarrow>
                 if root_target_pid \<noteq> 0 \<and> client_pid = root_target_pid
                 then (root_create_time \<noteq> 0 \<and> query_process_create_time E client_pid = Some root_create_time, table')
                 else walk_parents_to_owned E root_target_pid root_create_time MAX_DEPTH {} client_pid table')))"

text \<open>The bounded queue of reported children (\<^verbatim>\<open>queue_child_pid\<close>).\<close>

definition CHILD_PID_QUEUE_CAP :: nat where
  "CHILD_PID_QUEUE_CAP = 4096"

definition queue_child_pid :: "u32 list \<Rightarrow> u32 \<Rightarrow> bool \<times> u32 list" where
  "queue_child_pid q pid =
     (if pid = 0 then (False, q)
      else if CHILD_PID_QUEUE_CAP \<le> length q then (False, q)
      else (True, q @ [pid]))"

section \<open>The nearest ancestor with a property\<close>

fun nearest :: "(u32 \<Rightarrow> u32 option) \<Rightarrow> (u32 \<Rightarrow> bool) \<Rightarrow> nat \<Rightarrow> u32 \<Rightarrow> u32 option" where
  "nearest par test 0 current = None"
| "nearest par test (Suc n) current =
     (case par current of
        None \<Rightarrow> None
      | Some p \<Rightarrow> if p = 0 then None else if test p then Some p else nearest par test n p)"

text \<open>A walk that has come back to a process it has seen will not find anything.\<close>

definition exhausted :: "(u32 \<Rightarrow> u32 option) \<Rightarrow> (u32 \<Rightarrow> bool) \<Rightarrow> u32 set \<Rightarrow> u32 \<Rightarrow> bool" where
  "exhausted par test seen current \<longleftrightarrow> (\<forall>x\<in>seen. \<exists>y. par x = Some y \<and> \<not> test y \<and> (y \<in> seen \<or> y = current))"

lemma exhausted_none: "exhausted par test seen current \<Longrightarrow> current \<in> seen \<Longrightarrow> x \<in> seen \<Longrightarrow> nearest par test n x = None"
proof (induction n arbitrary: x)
  case (Suc n)
  then obtain y where "par x = Some y" "\<not> test y" "y \<in> seen" by (auto simp: exhausted_def)
  with Suc show ?case by simp
qed simp

lemma exhausted_insert:
  "exhausted par test seen current \<Longrightarrow> par current = Some p \<Longrightarrow> \<not> test p \<Longrightarrow> exhausted par test (insert current seen) p"
  by (auto simp: exhausted_def)

lemma resolve_loop_nearest:
  "exhausted (parent_of E) (\<lambda>p. table p \<noteq> None) seen current \<Longrightarrow>
   resolve_loop E table n seen current =
     (case nearest (parent_of E) (\<lambda>p. table p \<noteq> None) n current of
        Some p \<Rightarrow> child_depth (pi_depth (the (table p))) | None \<Rightarrow> 255)"
proof (induction n arbitrary: seen current)
  case (Suc n)
  show ?case
  proof (cases "current \<in> seen")
    case True
    show ?thesis unfolding exhausted_none [OF Suc.prems True True] using True by simp
  next
    case False
    with Suc.IH [OF exhausted_insert [OF Suc.prems]] show ?thesis by (auto split: option.split)
  qed
qed simp

section \<open>Admission\<close>

text \<open>The process is one the launcher knows, and it is still the same process.\<close>

definition tracked_ok :: "('t, 'e) host_env_scheme \<Rightarrow> proc_table \<Rightarrow> u32 \<Rightarrow> bool" where
  "tracked_ok E table p =
     (case table p of Some i \<Rightarrow> pi_create_time i \<noteq> 0 \<and> query_process_create_time E p = Some (pi_create_time i) | None \<Rightarrow> False)"

definition verified :: "('t, 'e) host_env_scheme \<Rightarrow> u32 \<Rightarrow> u64 \<Rightarrow> proc_table \<Rightarrow> u32 \<Rightarrow> bool" where
  "verified E root rct table p \<longleftrightarrow> tracked_ok E table p \<or> root_verified E root rct p"

text \<open>Entries go away only when they are stale.\<close>

definition pruned :: "('t, 'e) host_env_scheme \<Rightarrow> proc_table \<Rightarrow> proc_table \<Rightarrow> bool" where
  "pruned E table table' \<longleftrightarrow> (\<forall>p. table' p = table p \<or> table' p = None \<and> \<not> tracked_ok E table p)"

lemma pruned_refl: "pruned E table table"
  by (simp add: pruned_def)

lemma pruned_tracked: "pruned E table table' \<Longrightarrow> tracked_ok E table' = tracked_ok E table"
proof
  fix p
  assume "pruned E table table'"
  then have "table' p = table p \<or> table' p = None \<and> \<not> tracked_ok E table p" by (simp add: pruned_def)
  then show "tracked_ok E table' p = tracked_ok E table p" by (auto simp: tracked_ok_def)
qed

lemma pruned_trans: "pruned E t1 t2 \<Longrightarrow> pruned E t2 t3 \<Longrightarrow> pruned E t1 t3"
  using pruned_tracked [of E t1 t2] unfolding pruned_def by metis

lemma still_owned_spec: "fst (tracked_entry_still_owned E p table) = tracked_ok E table p" "pruned E table (snd (tracked_entry_still_owned E p table))"
proof -
  show "fst (tracked_entry_still_owned E p table) = tracked_ok E table p"
    by (auto simp: tracked_entry_still_owned_def tracked_ok_def split: option.split)
  show "pruned E table (snd (tracked_entry_still_owned E p table))"
    by (auto simp: tracked_entry_still_owned_def tracked_ok_def pruned_def split: option.split)
qed

lemma walk_spec:
  "exhausted (parent_of E) (verified E root rct table) seen current \<Longrightarrow>
   fst (walk_parents_to_owned E root rct n seen current table) = (nearest (parent_of E) (verified E root rct table) n current \<noteq> None) \<and>
   pruned E table (snd (walk_parents_to_owned E root rct n seen current table))"
proof (induction n arbitrary: seen current table)
  case 0
  then show ?case by (simp add: pruned_refl)
next
  case (Suc n)
  show ?case
  proof (cases "current \<in> seen")
    case True
    show ?thesis unfolding exhausted_none [OF Suc.prems True True] using True by (simp add: pruned_refl)
  next
    case False
    show ?thesis
    proof (cases "parent_of E current")
      case None
      with False show ?thesis by (simp add: pruned_refl)
    next
      case (Some p)
      obtain ok table' where t: "tracked_entry_still_owned E p table = (ok, table')" by (cases "tracked_entry_still_owned E p table")
      with still_owned_spec [where E = E and p = p and table = table] have ok: "ok = tracked_ok E table p" and pr: "pruned E table table'" by simp_all
      have v: "verified E root rct table' = verified E root rct table" by (simp add: verified_def fun_eq_iff pruned_tracked [OF pr])
      show ?thesis
      proof (cases "p = 0 \<or> verified E root rct table p")
        case True
        with Some False t ok pr show ?thesis by (auto simp: verified_def pruned_refl split: bool.split)
      next
        case nv: False
        with exhausted_insert [OF Suc.prems Some] have "exhausted (parent_of E) (verified E root rct table') (insert current seen) p" by (simp add: v)
        from Suc.IH [OF this] nv Some False t ok pr show ?thesis
          by (auto simp: v verified_def intro: pruned_trans split: bool.split)
      qed
    qed
  qed
qed

lemma resolve_depth_nearest:
  "resolve_new_entry_depth E table pid =
     (case nearest (parent_of E) (\<lambda>p. table p \<noteq> None) MAX_DEPTH pid of
        Some p \<Rightarrow> child_depth (pi_depth (the (table p))) | None \<Rightarrow> 255)"
  unfolding resolve_new_entry_depth_def by (rule resolve_loop_nearest) (simp add: exhausted_def)

lemma unat_child_depth: "unat (child_depth d) = min 255 (unat d + 1)"
proof (cases "d = 255")
  case False
  have "unat d < 256" using unsigned_less [of d] by simp
  moreover have "unat d \<noteq> 255" using False word_unat_eq_iff [of d 255] by simp
  moreover have "unat (d + 1) = (unat d + 1) mod 256" by (simp add: unat_word_ariths)
  ultimately show ?thesis using False by (simp add: child_depth_def)
qed (simp add: child_depth_def)

lemma child_depth_pos: "child_depth d \<noteq> 0"
  using unat_child_depth [of d] by (auto simp: min_def split: if_splits)

lemma new_depth_pos: "resolve_new_entry_depth E table pid \<noteq> 0"
  by (auto simp: resolve_depth_nearest child_depth_pos split: option.split)

lemma admission_spec:
  "(fst (is_owned_client_pid E root rct None client table) \<longleftrightarrow>
     client \<noteq> 0 \<and>
     (if root \<noteq> 0 \<and> client = root then verified E root rct table client
      else tracked_ok E table client \<or> nearest (parent_of E) (verified E root rct table) MAX_DEPTH client \<noteq> None)) \<and>
   (fst (is_owned_client_pid E root rct (Some job) client table) \<longleftrightarrow> client \<noteq> 0 \<and> job client) \<and>
   pruned E table (snd (is_owned_client_pid E root rct probe client table))"
proof -
  obtain ok table' where t: "tracked_entry_still_owned E client table = (ok, table')" by (cases "tracked_entry_still_owned E client table")
  with still_owned_spec [where E = E and p = client and table = table] have ok: "ok = tracked_ok E table client" and pr: "pruned E table table'" by simp_all
  have v: "verified E root rct table' = verified E root rct table" by (simp add: verified_def fun_eq_iff pruned_tracked [OF pr])
  have "exhausted (parent_of E) (verified E root rct table') {} client" by (simp add: exhausted_def)
  note walk = walk_spec [OF this, of MAX_DEPTH, unfolded v]
  have "fst (is_owned_client_pid E root rct None client table) \<longleftrightarrow> client \<noteq> 0 \<and>
     (if root \<noteq> 0 \<and> client = root then verified E root rct table client
      else tracked_ok E table client \<or> nearest (parent_of E) (verified E root rct table) MAX_DEPTH client \<noteq> None)"
    unfolding is_owned_client_pid_def t option.case prod.case
    using walk ok by (cases ok) (auto simp: verified_def root_verified_def)
  moreover have "pruned E table (snd (is_owned_client_pid E root rct probe client table))"
    unfolding is_owned_client_pid_def t prod.case
    using walk pr pruned_trans [OF pr] by (cases ok) (auto simp: pruned_refl split: option.split)
  ultimately show ?thesis by (simp add: is_owned_client_pid_def)
qed

section \<open>Properties\<close>

text \<open>
  C14: with a folder job, a process is admitted exactly when it is a member of the job, whatever the table says. Without
  one, the root target is admitted exactly when it still has its pinned creation time or its tracked entry matches its live
  creation time, and any other process exactly when its own tracked entry matches, or one of its sixteen nearest
  kernel ancestors is a tracked process whose entry matches or the root target with its pinned creation time;
  a cycle of process ids changes nothing. The ancestors are those the kernel records by id, so a process whose parent's id was
  given to a tracked process is admitted too (\<open>reused_parent_id_admits_stranger\<close>). Only entries that are stale are
  dropped from the table.
\<close>

theorem admission_correct:
  "(fst (is_owned_client_pid E root rct None client table) \<longleftrightarrow>
     client \<noteq> 0 \<and>
     (if root \<noteq> 0 \<and> client = root then verified E root rct table client
      else tracked_ok E table client \<or> (\<exists>a. nearest (parent_of E) (verified E root rct table) MAX_DEPTH client = Some a))) \<and>
   (fst (is_owned_client_pid E root rct (Some job) client table) \<longleftrightarrow> client \<noteq> 0 \<and> job client) \<and>
   pruned E table (snd (is_owned_client_pid E root rct probe client table))"
  using admission_spec [of E root rct client table job probe] by simp

text \<open>
  the depth recorded for a new process is one more than the one of its nearest tracked ancestor, saturated, or
  the maximum when there is none within sixteen steps; it is never the depth of the root.
\<close>

theorem new_process_depth:
  "unat (resolve_new_entry_depth E table pid) =
     (case nearest (parent_of E) (\<lambda>p. table p \<noteq> None) MAX_DEPTH pid of
        Some p \<Rightarrow> min 255 (unat (pi_depth (the (table p))) + 1) | None \<Rightarrow> 255) \<and>
   resolve_new_entry_depth E table pid \<noteq> 0"
  using new_depth_pos [of E table pid] by (auto simp: resolve_depth_nearest unat_child_depth split: option.split)

text \<open>
  The walk compares each process id with the table, not with the time the child was created. Process 30 was created
  at time 5 by a process 20 that is gone; the id 20 was given to a sandboxed process at time 9; process 30, which
  no sandboxed process created, is admitted.
\<close>

definition reuse_host :: "(string \<times> string) list host_env" where
  "reuse_host = host_sample\<lparr>create_time_of := [30 \<mapsto> 5, 20 \<mapsto> 9], parent_of := [30 \<mapsto> 20]\<rparr>"

theorem reused_parent_id_admits_stranger:
  "create_time_of reuse_host 30 = Some 5 \<and> create_time_of reuse_host 20 = Some 9 \<and>
   fst (is_owned_client_pid reuse_host 1 3 None 30 [20 \<mapsto> \<lparr>pi_depth = 1, pi_exe = win ''c:|app.exe'', pi_create_time = 9\<rparr>])"
proof -
  have m: "MAX_DEPTH = Suc 15" by (simp add: MAX_DEPTH_def)
  show ?thesis
    unfolding is_owned_client_pid_def m walk_parents_to_owned.simps
    by (simp add: reuse_host_def tracked_entry_still_owned_def query_process_create_time_def)
qed

end
