(* ===== verification/Framing.thy ===== *)
theory Framing
  imports RegValue "HOL-Library.Multiset"
begin

text \<open>
  The wire format between hook and launcher (\<^verbatim>\<open>winrsbox-ipc/src/framing.rs\<close>, \<^verbatim>\<open>lib.rs\<close>) and the reader on the
  launcher's side (\<^verbatim>\<open>pipe_server/conn.rs\<close>): length-prefixed frames over a byte stream with short reads, the replayed
  length prefix, the section of session settings, and the budget of bytes in flight. The body codec (bincode)
  is a parameter.
\<close>

section \<open>Streams\<close>

text \<open>
  \<^verbatim>\<open>Read::read_exact\<close>: the default loop over \<^verbatim>\<open>read\<close>, which may return fewer bytes than asked for; no bytes mean
  the end of the stream.
\<close>

function read_exact :: "('r \<Rightarrow> nat \<Rightarrow> string \<times> 'r) \<Rightarrow> nat \<Rightarrow> 'r \<Rightarrow> (string \<times> 'r) option" where
  "read_exact rd n r =
     (if n = 0 then Some ([], r)
      else (case rd r n of
          (got, r') \<Rightarrow>
            if got = [] \<or> n < length got then None
            else map_option (\<lambda>(rest, r''). (got @ rest, r'')) (read_exact rd (n - length got) r')))"
  by pat_completeness auto
termination
  by (relation "measure (\<lambda>(rd, n, r). n)") auto

declare read_exact.simps [simp del]

text \<open>What a reader promises: its bytes in order, never too many, and some while there are any.\<close>

locale reader =
  fixes rd :: "'r \<Rightarrow> nat \<Rightarrow> string \<times> 'r" and bytes :: "'r \<Rightarrow> string"
  assumes rd_bytes: "rd r n = (got, r') \<Longrightarrow> bytes r = got @ bytes r'"
    and rd_bound: "rd r n = (got, r') \<Longrightarrow> length got \<le> n"
    and rd_some: "rd r n = (got, r') \<Longrightarrow> 0 < n \<Longrightarrow> bytes r \<noteq> [] \<Longrightarrow> got \<noteq> []"
begin

lemma read_exact_spec:
  "(n \<le> length (bytes r) \<longrightarrow> (\<exists>r'. read_exact rd n r = Some (take n (bytes r), r') \<and> bytes r' = drop n (bytes r))) \<and>
   (length (bytes r) < n \<longrightarrow> read_exact rd n r = None)"
proof (induction n arbitrary: r rule: less_induct)
  case (less n)
  obtain got r' where rd: "rd r n = (got, r')" by (cases "rd r n")
  note b = rd_bytes [OF rd] rd_bound [OF rd]
  show ?case
  proof (cases "n = 0 \<or> bytes r = []")
    case True
    then show ?thesis using b rd by (auto simp: read_exact.simps [of rd n r])
  next
    case False
    then have g: "got \<noteq> []" using rd_some [OF rd] by simp
    then have "n - length got < n" using False by (cases got) simp_all
    note ih = less.IH [OF this, of r']
    show ?thesis
    proof (cases "n \<le> length (bytes r)")
      case True
      then have "n - length got \<le> length (bytes r')" using b by simp
      with ih obtain r'' where "read_exact rd (n - length got) r' = Some (take (n - length got) (bytes r'), r'')"
          "bytes r'' = drop (n - length got) (bytes r')" by blast
      with g rd b False True show ?thesis by (simp add: read_exact.simps [of rd n r])
    next
      case False
      then have "length (bytes r') < n - length got" using b by simp
      with ih g rd b \<open>\<not> (n = 0 \<or> bytes r = [])\<close> False show ?thesis by (simp add: read_exact.simps [of rd n r])
    qed
  qed
qed

lemma read_exact_enough:
  "n \<le> length (bytes r) \<Longrightarrow> \<exists>r'. read_exact rd n r = Some (take n (bytes r), r') \<and> bytes r' = drop n (bytes r)"
  using read_exact_spec by blast

lemma read_exact_short: "length (bytes r) < n \<Longrightarrow> read_exact rd n r = None"
  using read_exact_spec by blast

end

text \<open>A pipe hands out what was written in pieces of its own choice.\<close>

fun pipe_read :: "string list \<Rightarrow> nat \<Rightarrow> string \<times> string list" where
  "pipe_read [] n = ([], [])"
| "pipe_read (c # cs) n =
     (if c = [] then pipe_read cs n
      else (take n c, if length c \<le> n then cs else drop n c # cs))"

interpretation pipe: reader pipe_read concat
proof
  show "pipe_read r n = (got, r') \<Longrightarrow> concat r = got @ concat r'" for r n got r'
    by (induction r n rule: pipe_read.induct) (auto split: if_splits)
  show "pipe_read r n = (got, r') \<Longrightarrow> length got \<le> n" for r n got r'
    by (induction r n rule: pipe_read.induct) (auto split: if_splits)
  show "pipe_read r n = (got, r') \<Longrightarrow> 0 < n \<Longrightarrow> concat r \<noteq> [] \<Longrightarrow> got \<noteq> []" for r n got r'
    by (induction r n rule: pipe_read.induct) (auto split: if_splits)
qed

text \<open>\<^verbatim>\<open>PrefixedReader\<close>: the length prefix that was already taken from the stream, then the stream.\<close>

definition prefixed_read :: "('r \<Rightarrow> nat \<Rightarrow> string \<times> 'r) \<Rightarrow> string \<times> nat \<times> 'r \<Rightarrow> nat \<Rightarrow> string \<times> string \<times> nat \<times> 'r" where
  "prefixed_read rd r n =
     (case r of
        (pfx, pos, inner) \<Rightarrow>
          if pos < length pfx then
            (let k = min (length pfx - pos) n in (take k (drop pos pfx), pfx, pos + k, inner))
          else (case rd inner n of (got, inner') \<Rightarrow> (got, pfx, pos, inner')))"

definition prefixed_bytes :: "('r \<Rightarrow> string) \<Rightarrow> string \<times> nat \<times> 'r \<Rightarrow> string" where
  "prefixed_bytes bs r = (case r of (pfx, pos, inner) \<Rightarrow> drop pos pfx @ bs inner)"

section \<open>Frames\<close>

definition MAX_MSG_LEN :: nat where
  "MAX_MSG_LEN = 16 * 1024 * 1024"

datatype ipc_error = IpcIo string | IpcEncode string | IpcDecode string

record 'm body_codec =
  body_encode :: "'m \<Rightarrow> string + string"
  body_decode :: "string \<Rightarrow> string + 'm"

definition body_lawful :: "('m, 'e) body_codec_scheme \<Rightarrow> bool" where
  "body_lawful C \<longleftrightarrow> (\<forall>m b. body_encode C m = Inr b \<longrightarrow> body_decode C b = Inr m)"

text \<open>\<^verbatim>\<open>u32::to_le_bytes\<close>.\<close>

definition le4 :: "u32 \<Rightarrow> string" where
  "le4 n = map (\<lambda>i. char_of (unat (drop_bit (8 * i) n) mod 256)) [0, 1, 2, 3]"

definition encode_msg :: "('m, 'e) body_codec_scheme \<Rightarrow> 'm \<Rightarrow> ipc_error + string" where
  "encode_msg C msg =
     (case body_encode C msg of
        Inl e \<Rightarrow> Inl (IpcEncode e)
      | Inr enc \<Rightarrow> if MAX_MSG_LEN < length enc then Inl (IpcEncode ''message too large to send'') else Inr enc)"

definition frame_len_guard :: "nat \<Rightarrow> ipc_error + unit" where
  "frame_len_guard len = (if MAX_MSG_LEN < len then Inl (IpcDecode ''message too large'') else Inr ())"

definition decode_frame :: "('m, 'e) body_codec_scheme \<Rightarrow> string \<Rightarrow> ipc_error + 'm" where
  "decode_frame C buf = (case body_decode C buf of Inl e \<Rightarrow> Inl (IpcDecode e) | Inr m \<Rightarrow> Inr m)"

definition write_msg :: "('m, 'e) body_codec_scheme \<Rightarrow> string \<Rightarrow> 'm \<Rightarrow> ipc_error + string" where
  "write_msg C w msg =
     (case encode_msg C msg of
        Inl e \<Rightarrow> Inl e
      | Inr bs \<Rightarrow> Inr (w @ le4 (of_nat (length bs)) @ bs))"

definition read_msg :: "('m, 'e) body_codec_scheme \<Rightarrow> ('r \<Rightarrow> nat \<Rightarrow> string \<times> 'r) \<Rightarrow> 'r \<Rightarrow> ipc_error + 'm \<times> 'r" where
  "read_msg C rd r =
     (case read_exact rd 4 r of
        None \<Rightarrow> Inl (IpcIo ''failed to fill whole buffer'')
      | Some (len_buf, r1) \<Rightarrow>
          (let len = le_bytes len_buf in
           case frame_len_guard len of
             Inl e \<Rightarrow> Inl e
           | Inr u \<Rightarrow>
               (case read_exact rd len r1 of
                  None \<Rightarrow> Inl (IpcIo ''failed to fill whole buffer'')
                | Some (buf, r2) \<Rightarrow> (case decode_frame C buf of Inl e \<Rightarrow> Inl e | Inr m \<Rightarrow> Inr (m, r2)))))"

text \<open>\<^verbatim>\<open>r.take(n).read_to_end(buf)\<close>: everything up to \<open>n\<close> bytes or the end of the stream.\<close>

function read_to_end :: "('r \<Rightarrow> nat \<Rightarrow> string \<times> 'r) \<Rightarrow> nat \<Rightarrow> 'r \<Rightarrow> string \<times> 'r" where
  "read_to_end rd n r =
     (if n = 0 then ([], r)
      else (case rd r n of
          (got, r') \<Rightarrow>
            if got = [] \<or> n < length got then ([], r')
            else (case read_to_end rd (n - length got) r' of (rest, r'') \<Rightarrow> (got @ rest, r''))))"
  by pat_completeness auto
termination
  by (relation "measure (\<lambda>(rd, n, r). n)") auto

declare read_to_end.simps [simp del]

definition read_msg_with_buf :: "('m, 'e) body_codec_scheme \<Rightarrow> ('r \<Rightarrow> nat \<Rightarrow> string \<times> 'r) \<Rightarrow> 'r \<Rightarrow> ipc_error + 'm \<times> 'r" where
  "read_msg_with_buf C rd r =
     (case read_exact rd 4 r of
        None \<Rightarrow> Inl (IpcIo ''failed to fill whole buffer'')
      | Some (len_buf, r1) \<Rightarrow>
          (let len = le_bytes len_buf in
           case frame_len_guard len of
             Inl e \<Rightarrow> Inl e
           | Inr u \<Rightarrow>
               (case read_to_end rd len r1 of
                  (buf, r2) \<Rightarrow>
                    if length buf \<noteq> len then Inl (IpcIo ''truncated frame'')
                    else (case decode_frame C buf of Inl e \<Rightarrow> Inl e | Inr m \<Rightarrow> Inr (m, r2)))))"

section \<open>The budget of bytes in flight\<close>

record byte_budget =
  bb_max :: nat
  bb_in_use :: nat

definition MAX_INFLIGHT_MSG_BYTES :: nat where
  "MAX_INFLIGHT_MSG_BYTES = 64 * 1024 * 1024"

definition budget_new :: "nat \<Rightarrow> byte_budget" where
  "budget_new mx = \<lparr>bb_max = mx, bb_in_use = 0\<rparr>"

text \<open>One turn of the loop of \<^verbatim>\<open>reserve_timeout\<close>, under the lock; \<open>None\<close> waits or times out.\<close>

definition reserve_attempt :: "byte_budget \<Rightarrow> nat \<Rightarrow> (byte_budget \<times> nat) option" where
  "reserve_attempt b n =
     (let k = min n (bb_max b) in
      if bb_in_use b + k \<le> bb_max b then Some (b\<lparr>bb_in_use := bb_in_use b + k\<rparr>, k) else None)"

text \<open>The loop itself: the budget as found at each wake-up until the deadline.\<close>

fun reserve_timeout :: "byte_budget list \<Rightarrow> nat \<Rightarrow> (byte_budget \<times> nat) option" where
  "reserve_timeout [] n = None"
| "reserve_timeout (b # wakes) n = (case reserve_attempt b n of Some r \<Rightarrow> Some r | None \<Rightarrow> reserve_timeout wakes n)"

definition budget_release :: "byte_budget \<Rightarrow> nat \<Rightarrow> byte_budget" where
  "budget_release b k = b\<lparr>bb_in_use := bb_in_use b - k\<rparr>"

text \<open>
  \<^verbatim>\<open>read_request_with_budget\<close>: the prefix is taken from the pipe, the declared length reserved, and the prefix
  replayed in front of the pipe for the parser. The result has the request, the reservation and the pipe.
\<close>

definition read_request_with_budget ::
    "('m, 'e) body_codec_scheme \<Rightarrow> ('r \<Rightarrow> nat \<Rightarrow> string \<times> 'r) \<Rightarrow> byte_budget list \<Rightarrow> 'r \<Rightarrow> ('m \<times> (byte_budget \<times> nat) option \<times> 'r) option" where
  "read_request_with_budget C rd wakes file =
     (case read_exact rd 4 file of
        None \<Rightarrow> None
      | Some (len_buf, file1) \<Rightarrow>
          (let declared = le_bytes len_buf;
               reservation = (if 0 < declared \<and> declared \<le> MAX_MSG_LEN
                 then map_option Some (reserve_timeout wakes declared) else Some None)
           in case reservation of
                None \<Rightarrow> None
              | Some res \<Rightarrow>
                  (case read_msg_with_buf C (prefixed_read rd) (len_buf, 0, file1) of
                     Inl e \<Rightarrow> None
                   | Inr (req, pfx, pos, file2) \<Rightarrow> Some (req, res, file2))))"

section \<open>The section of session settings\<close>

definition SESSION_CONFIG_SECTION_SIZE :: nat where
  "SESSION_CONFIG_SECTION_SIZE = 4096"

definition SESSION_CONFIG_MAGIC :: u32 where
  "SESSION_CONFIG_MAGIC = 0x42535257"

definition to_section_bytes :: "('m, 'e) body_codec_scheme \<Rightarrow> 'm \<Rightarrow> ipc_error + string" where
  "to_section_bytes C cfg =
     (case body_encode C cfg of
        Inl e \<Rightarrow> Inl (IpcEncode e)
      | Inr body \<Rightarrow>
          if SESSION_CONFIG_SECTION_SIZE < 8 + length body then Inl (IpcEncode ''session config too large'')
          else Inr (le4 SESSION_CONFIG_MAGIC @ le4 (of_nat (length body)) @ body))"

definition from_section_bytes :: "('m, 'e) body_codec_scheme \<Rightarrow> string \<Rightarrow> ipc_error + 'm" where
  "from_section_bytes C buf =
     (if length buf < 8 then Inl (IpcDecode ''session section too short'')
      else if le_bytes (take 4 buf) \<noteq> unat SESSION_CONFIG_MAGIC then Inl (IpcDecode ''session section magic mismatch'')
      else (let len = le_bytes (take 4 (drop 4 buf)) in
            if len = 0 \<or> length buf < 8 + len then Inl (IpcDecode ''session section body length invalid'')
            else (case body_decode C (take len (drop 8 buf)) of Inl e \<Rightarrow> Inl (IpcDecode e) | Inr cfg \<Rightarrow> Inr cfg)))"

section \<open>Reading frames\<close>

context reader
begin

lemma read_to_end_spec:
  "\<exists>r'. read_to_end rd n r = (take n (bytes r), r') \<and> (n \<le> length (bytes r) \<longrightarrow> bytes r' = drop n (bytes r))"
proof (induction n arbitrary: r rule: less_induct)
  case (less n)
  obtain got r' where rd: "rd r n = (got, r')" by (cases "rd r n")
  note b = rd_bytes [OF rd] rd_bound [OF rd]
  show ?case
  proof (cases "n = 0 \<or> bytes r = []")
    case True
    then show ?thesis using b rd by (auto simp: read_to_end.simps [of rd n r])
  next
    case False
    then have g: "got \<noteq> []" using rd_some [OF rd] by simp
    then have "n - length got < n" using False by (cases got) simp_all
    from less.IH [OF this, of r'] obtain r'' where
      "read_to_end rd (n - length got) r' = (take (n - length got) (bytes r'), r'')"
      "n - length got \<le> length (bytes r') \<longrightarrow> bytes r'' = drop (n - length got) (bytes r')" by blast
    with g rd b False show ?thesis by (simp add: read_to_end.simps [of rd n r])
  qed
qed

text \<open>The allocating reader and the one with a reused buffer give the same result, up to the text of errors.\<close>

lemma buffered_agrees:
  "map_sum (\<lambda>_. ()) (map_prod id bytes) (read_msg_with_buf C rd r) = map_sum (\<lambda>_. ()) (map_prod id bytes) (read_msg C rd r)"
proof (cases "read_exact rd 4 r")
  case (Some p)
  obtain len_buf r1 where p: "p = (len_buf, r1)" by (cases p)
  let ?len = "le_bytes len_buf"
  obtain r2 where r2: "read_to_end rd ?len r1 = (take ?len (bytes r1), r2)" "?len \<le> length (bytes r1) \<longrightarrow> bytes r2 = drop ?len (bytes r1)"
    using read_to_end_spec [of ?len r1] by blast
  show ?thesis
  proof (cases "?len \<le> length (bytes r1)")
    case True
    with read_exact_enough obtain r3 where "read_exact rd ?len r1 = Some (take ?len (bytes r1), r3)" "bytes r3 = drop ?len (bytes r1)" by blast
    with True r2 Some p show ?thesis
      by (simp add: read_msg_with_buf_def read_msg_def Let_def split: sum.split)
  next
    case False
    then have "read_exact rd ?len r1 = None" by (intro read_exact_short) simp
    with False r2 Some p show ?thesis
      by (simp add: read_msg_with_buf_def read_msg_def Let_def split: sum.split)
  qed
qed (simp add: read_msg_with_buf_def read_msg_def)

end

text \<open>The replayed prefix is read as it was; behind it the reader is the inner one.\<close>

lemma prefixed_exact:
  assumes "pfx \<noteq> []"
  shows "read_exact (prefixed_read rd) (length pfx) (pfx, 0, inner) = Some (pfx, pfx, length pfx, inner)"
  using assms by (simp add: read_exact.simps prefixed_read_def)

lemma prefixed_rest:
  "length pfx \<le> pos \<Longrightarrow>
   read_to_end (prefixed_read rd) n (pfx, pos, inner) = (case read_to_end rd n inner of (got, inner') \<Rightarrow> (got, pfx, pos, inner'))"
proof (induction rd n inner rule: read_to_end.induct)
  case (1 rd n r)
  obtain got r' where rd: "rd r n = (got, r')" by (cases "rd r n")
  with "1.prems" have p: "prefixed_read rd (pfx, pos, r) n = (got, pfx, pos, r')" by (simp add: prefixed_read_def)
  show ?case
  proof (cases "n = 0 \<or> got = [] \<or> n < length got")
    case True
    then show ?thesis using p rd by (auto simp: read_to_end.simps [of _ n])
  next
    case False
    with "1.IH" [OF _ rd [symmetric] _ "1.prems"] p rd show ?thesis
      by (simp add: read_to_end.simps [of _ n] case_prod_beta)
  qed
qed

lemma prefixed_msg:
  assumes "length len_buf = 4"
  shows "read_msg_with_buf C (prefixed_read rd) (len_buf, 0, inner) =
    (case frame_len_guard (le_bytes len_buf) of
       Inl e \<Rightarrow> Inl e
     | Inr u \<Rightarrow>
         (case read_to_end rd (le_bytes len_buf) inner of
            (buf, r2) \<Rightarrow>
              if length buf \<noteq> le_bytes len_buf then Inl (IpcIo ''truncated frame'')
              else (case decode_frame C buf of Inl e \<Rightarrow> Inl e | Inr m \<Rightarrow> Inr (m, len_buf, 4, r2))))"
proof -
  have "len_buf \<noteq> []" using assms by auto
  from prefixed_exact [OF this, of rd inner] assms have "read_exact (prefixed_read rd) 4 (len_buf, 0, inner) = Some (len_buf, len_buf, 4, inner)"
    by simp
  moreover have "read_to_end (prefixed_read rd) n (len_buf, 4, inner) = (case read_to_end rd n inner of (got, i) \<Rightarrow> (got, len_buf, 4, i))" for n
    using assms by (intro prefixed_rest) simp
  ultimately show ?thesis
    by (simp add: read_msg_with_buf_def case_prod_beta split: sum.split)
qed

lemma le4_length [simp]: "length (le4 n) = 4"
  by (simp add: le4_def)

lemma le4_round: "le_bytes (le4 n) = unat n"
proof -
  define x where "x = unat n"
  have x: "x < 2 ^ 32" using unsigned_less [of n] by (simp add: x_def)
  have d: "unat (drop_bit k n) = x div 2 ^ k" for k
    unfolding unat_drop_bit_eq x_def by (rule drop_bit_eq_div)
  have "x = x mod 256 + 256 * (x div 256 mod 256 + 256 * (x div 65536 mod 256 + 256 * (x div 16777216)))"
  proof -
    define a b c where "a = x div 256" and "b = a div 256" and "c = b div 256"
    have "x = 256 * a + x mod 256" "a = 256 * b + a mod 256" "b = 256 * c + b mod 256" by (simp_all add: a_def b_def c_def)
    moreover have "x div 65536 = b" "x div 16777216 = c" by (simp_all add: a_def b_def c_def div_mult2_eq [symmetric])
    ultimately show ?thesis by (simp add: a_def [symmetric])
  qed
  moreover have "x div 16777216 mod 256 = x div 16777216" using x by simp
  ultimately show ?thesis by (simp add: le4_def d x_def [symmetric])
qed

lemma le4_round_nat: "k < 2 ^ 32 \<Longrightarrow> le_bytes (le4 (of_nat k)) = k"
  by (simp add: le4_round unat_of_nat take_bit_eq_mod)

section \<open>Runs of the budget\<close>

text \<open>The budget with its live reservations: attempts of any handler, and drops of reservations.\<close>

inductive budget_step :: "byte_budget \<times> nat multiset \<Rightarrow> byte_budget \<times> nat multiset \<Rightarrow> bool" where
  reserve: "reserve_attempt b n = Some (b', k) \<Longrightarrow> budget_step (b, live) (b', add_mset k live)"
| release: "k \<in># live \<Longrightarrow> budget_step (b, live) (budget_release b k, live - {#k#})"

definition budget_ok :: "byte_budget \<times> nat multiset \<Rightarrow> bool" where
  "budget_ok s \<longleftrightarrow> bb_in_use (fst s) = sum_mset (snd s) \<and> bb_in_use (fst s) \<le> bb_max (fst s)"

lemma budget_step_ok: "budget_step s s' \<Longrightarrow> budget_ok s \<Longrightarrow> budget_ok s' \<and> bb_max (fst s') = bb_max (fst s)"
proof (induction rule: budget_step.induct)
  case (reserve b n b' k live)
  then show ?case by (auto simp: reserve_attempt_def budget_ok_def Let_def split: if_splits)
next
  case (release k live b)
  from multi_member_split [OF release(1)] obtain live' where "live = add_mset k live'" by blast
  with release show ?case by (simp add: budget_ok_def budget_release_def)
qed

lemma budget_run_ok:
  "budget_step\<^sup>*\<^sup>* s s' \<Longrightarrow> budget_ok s \<Longrightarrow> budget_ok s' \<and> bb_max (fst s') = bb_max (fst s)"
  by (induction rule: rtranclp_induct) (auto dest: budget_step_ok)

section \<open>Properties\<close>

text \<open>
  C38: a message that was written is read back by the launcher with the reservation of its body length, however
  the pipe cuts the bytes into pieces, and what follows the frame is left in the pipe.
\<close>

theorem request_read_back:
  assumes "body_lawful C" and "write_msg C [] m = Inr frame" and "concat chunks = frame @ rest" and "4 < length frame"
    and "reserve_timeout wakes (length frame - 4) = Some res"
  shows "\<exists>chunks'. read_request_with_budget C pipe_read wakes chunks = Some (m, Some res, chunks') \<and> concat chunks' = rest"
proof -
  from assms(1,2) obtain body where body: "frame = le4 (of_nat (length body)) @ body" "length body \<le> MAX_MSG_LEN" "body_decode C body = Inr m"
    by (auto simp: write_msg_def encode_msg_def body_lawful_def split: sum.splits if_splits)
  let ?le = "le4 (of_nat (length body))"
  have len: "le_bytes ?le = length body" using body(2) by (intro le4_round_nat) (simp add: MAX_MSG_LEN_def)
  from pipe.read_exact_enough [of 4 chunks] assms(3) body(1) obtain r1 where
    r1: "read_exact pipe_read 4 chunks = Some (?le, r1)" "concat r1 = body @ rest" by auto
  from pipe.read_to_end_spec [of "length body" r1] r1(2) obtain r2 where
    r2: "read_to_end pipe_read (length body) r1 = (body, r2)" "concat r2 = rest" by auto
  have "read_msg_with_buf C (prefixed_read pipe_read) (?le, 0, r1) = Inr (m, ?le, 4, r2)"
    unfolding prefixed_msg [OF le4_length] len using body(2,3) r2(1)
    by (simp add: frame_len_guard_def decode_frame_def)
  moreover have "0 < length body" "reserve_timeout wakes (length body) = Some res" using assms(4,5) body(1) by simp_all
  ultimately show ?thesis using r1(1) r2(2) body(2) by (simp add: read_request_with_budget_def len)
qed

definition sample_codec :: "string body_codec" where
  "sample_codec = \<lparr>body_encode = Inr, body_decode = Inr\<rparr>"

theorem request_read_back_witness:
  "\<exists>chunks'. read_request_with_budget sample_codec pipe_read [budget_new 5] [[CHR 0x02], [CHR 0x00, CHR 0x00], CHR 0x00 # ''h'', ''iX''] =
     Some (''hi'', Some (\<lparr>bb_max = 5, bb_in_use = 2\<rparr>, 2), chunks') \<and> concat chunks' = ''X''"
proof (rule request_read_back [where frame = "[CHR 0x02, CHR 0x00, CHR 0x00, CHR 0x00] @ ''hi''"])
  have "le4 2 = [CHR 0x02, CHR 0x00, CHR 0x00, CHR 0x00]" by code_simp
  then show "write_msg sample_codec [] ''hi'' = Inr ([CHR 0x02, CHR 0x00, CHR 0x00, CHR 0x00] @ ''hi'')"
    by (simp add: write_msg_def encode_msg_def sample_codec_def MAX_MSG_LEN_def)
qed (simp_all add: body_lawful_def sample_codec_def reserve_attempt_def budget_new_def)

text \<open>
  reading with a reused buffer and reading with a fresh one take the same message and the same bytes from a
  pipe, and fail on the same inputs.
\<close>

theorem buffered_read_agrees:
  "map_sum (\<lambda>_. ()) (map_prod id concat) (read_msg_with_buf C pipe_read chunks) =
   map_sum (\<lambda>_. ()) (map_prod id concat) (read_msg C pipe_read chunks)"
  by (rule pipe.buffered_agrees)

text \<open>
  the session settings read from the shared section are the ones written, whatever follows them in the section,
  and they fit the section.
\<close>

theorem session_section_round_trip:
  assumes "body_lawful C" and "to_section_bytes C cfg = Inr buf" and "8 < length buf"
  shows "from_section_bytes C (buf @ rest) = Inr cfg \<and> length buf \<le> SESSION_CONFIG_SECTION_SIZE"
proof -
  from assms(1,2) obtain body where body: "buf = le4 SESSION_CONFIG_MAGIC @ le4 (of_nat (length body)) @ body"
      "body_decode C body = Inr cfg" "8 + length body \<le> SESSION_CONFIG_SECTION_SIZE"
    by (auto simp: to_section_bytes_def body_lawful_def split: sum.splits if_splits)
  then have "le_bytes (le4 (of_nat (length body))) = length body"
    by (intro le4_round_nat) (simp add: SESSION_CONFIG_SECTION_SIZE_def)
  with body assms(3) show ?thesis by (simp add: from_section_bytes_def le4_round)
qed

theorem session_section_round_trip_witness:
  "case to_section_bytes sample_codec ''cfg'' of
     Inl e \<Rightarrow> False
   | Inr buf \<Rightarrow> from_section_bytes sample_codec (buf @ ''###'') = Inr ''cfg'' \<and> length buf \<le> SESSION_CONFIG_SECTION_SIZE"
proof -
  have l: "body_lawful sample_codec" by (simp add: body_lawful_def sample_codec_def)
  obtain buf where b: "to_section_bytes sample_codec ''cfg'' = Inr buf" "length buf = 11"
    by (simp add: to_section_bytes_def sample_codec_def SESSION_CONFIG_SECTION_SIZE_def)
  from session_section_round_trip [OF l b(1), of "''###''"] b show ?thesis by simp
qed

text \<open>
  C39: in every run of the budget the bytes in flight are the live reservations, never more than the cap, so a release
  never underflows; and when nothing is reserved every request, clamped to the cap, is granted at once.
\<close>

theorem byte_budget_bounded:
  assumes "budget_step\<^sup>*\<^sup>* (budget_new mx, {#}) (b, live)"
  shows "bb_in_use b = sum_mset live \<and> bb_in_use b \<le> mx \<and> (\<forall>k\<in>#live. k \<le> bb_in_use b) \<and>
    (live = {#} \<longrightarrow> reserve_attempt b n = Some (b\<lparr>bb_in_use := min n mx\<rparr>, min n mx))"
proof -
  from budget_run_ok [OF assms] have ok: "bb_in_use b = sum_mset live" "bb_in_use b \<le> mx" "bb_max b = mx"
    by (simp_all add: budget_ok_def budget_new_def)
  moreover have "k \<in># live \<Longrightarrow> k \<le> sum_mset live" for k by (auto dest!: multi_member_split)
  ultimately show ?thesis by (auto simp: reserve_attempt_def Let_def)
qed

theorem byte_budget_bounded_witness:
  "\<exists>b. budget_step\<^sup>*\<^sup>* (budget_new 10, {#}) (b, {#4#}) \<and> bb_in_use b = 4 \<and> bb_in_use b \<le> 10"
proof -
  have "budget_step (budget_new 10, {#}) (\<lparr>bb_max = 10, bb_in_use = 4\<rparr>, {#4#})"
    by (rule budget_step.reserve [where n = 4]) (simp add: reserve_attempt_def budget_new_def)
  then have r: "budget_step\<^sup>*\<^sup>* (budget_new 10, {#}) (\<lparr>bb_max = 10, bb_in_use = 4\<rparr>, {#4#})" by (rule r_into_rtranclp)
  from byte_budget_bounded [OF r, of 0] r show ?thesis by auto
qed

end
