(* ===== verification/Session.thy ===== *)
theory Session
  imports Ownership Framing
begin

text \<open>
  The requests of guests (\<^verbatim>\<open>winrsbox-ipc/src/lib.rs\<close>) and the connection handler of the launcher (\<^verbatim>\<open>handle_connection\<close> in
  \<^verbatim>\<open>pipe_server/mod.rs\<close>): one arm per request over the shared state of the launcher. The text of error messages is
  reduced to its fixed part, and console output is left out.
\<close>

section \<open>Messages\<close>

datatype log_level = LogTrace | LogInfo | LogWarn | LogError

datatype alloc_kind = AllocAllocate | AllocProtect | AllocMapView | AllocWrite

datatype inject_kind = CreateRemoteThread | QueueApc | ContextHijack

fun alloc_kind_name :: "alloc_kind \<Rightarrow> string" where
  "alloc_kind_name AllocAllocate = ''Allocate''"
| "alloc_kind_name AllocProtect = ''Protect''"
| "alloc_kind_name AllocMapView = ''MapView''"
| "alloc_kind_name AllocWrite = ''Write''"

fun inject_kind_name :: "inject_kind \<Rightarrow> string" where
  "inject_kind_name CreateRemoteThread = ''CreateRemoteThread''"
| "inject_kind_name QueueApc = ''QueueApc''"
| "inject_kind_name ContextHijack = ''ContextHijack''"

datatype req =
    Hello u32 string \<comment> \<open>pid, exe\_path\<close>
  | SpawnedChild u32 u32 string \<comment> \<open>parent\_pid, child\_pid, child\_exe\<close>
  | Decide string bool
  | RecordOverlay string string \<comment> \<open>orig, overlay\<close>
  | RecordOverlayCase string string
  | ClearOverlay string
  | RecordWhiteout string
  | ClearWhiteout string
  | WhiteoutsUnder string
  | OverlayChildrenWithCase string
  | OverlayChildren string
  | Log u32 log_level string
  | RegisterChild u32
  | RecordCleanImage string
  | InjectionViolation u32 string inject_kind u32 u64 u64 "string option" "u64 list"
  | PreLaunchViolation u32 string "(u64 \<times> string) list"
  | MemoryViolation u32 string alloc_kind u32 u64 u64 u64 "string option" "u64 list"
  | EscapeViolation u32 string string string u64 "string option" "u64 list"
  | RegDecide string "string option" bool
  | RegWrite string string reg_value
  | RegDeleteValue string string
  | RegDeleteKey string
  | NetDecide string u16
  | MemDecide u32 string
  | VerifyMicrosoftImage u64
  | DeviceDriveMap
  | Attach u32 u64
  | LauncherLog string
  | SessionStats
  | PolicyMutate policy_op
  | Ping
  | BrokerStatus

datatype resp =
    RDecision decision
  | ROk
  | RErr string
  | RRegDecision mode "string option"
  | RNetDecision bool
  | RMemDecision bool
  | RWhiteouts "string list"
  | ROverlayChildrenWithCase "(string \<times> string) list"
  | ROverlayChildren "overlay_child list"
  | RImagePublisher bool
  | RDeviceDriveMap "(u8 \<times> string) list"
  | RPolicyMutated policy_op_result

section \<open>State of the launcher\<close>

record stats =
  st_decide :: u64
  st_redirect :: u64
  st_deny :: u64
  st_mock :: u64
  st_cow :: u64
  st_violations :: u64

record 't launcher =
  l_policy :: "'t policy"
  l_reg :: "'t reg_policy"
  l_stats :: stats
  l_hot :: hot_stats
  l_procs :: proc_table
  l_children :: "u32 list"
  l_events :: "(u32 \<times> string) list" \<comment> \<open>violations in the log: process and kind\<close>
  l_violations_log :: "json list"

text \<open>
  Services of the host that the handler calls: the cache of clean images, the signature check of a mapped image, and
  the drive map.
\<close>

record 't session_env = "'t host_env" +
  record_clean :: "string \<Rightarrow> string + unit"
  verify_microsoft_mapping :: "u32 \<Rightarrow> u64 \<Rightarrow> bool"
  device_drive_map :: "(u8 \<times> string) list"

section \<open>Records of violations\<close>

function hex_digits :: "nat \<Rightarrow> string" where
  "hex_digits n =
     (let d = n mod 16; c = (if d < 10 then char_of (48 + d) else char_of (87 + d))
      in if n < 16 then [c] else hex_digits (n div 16) @ [c])"
  by pat_completeness auto
termination
  by (relation "measure id") auto

declare hex_digits.simps [simp del]

definition show_hex :: "'w::len word \<Rightarrow> string" where
  "show_hex w = ''0x'' @ hex_digits (unat w)"

definition json_opt :: "string option \<Rightarrow> json" where
  "json_opt s = (case s of None \<Rightarrow> JNull | Some t \<Rightarrow> JStr t)"

text \<open>The \<^verbatim>\<open>json!\<close> objects, keys in the order of the map.\<close>

definition json_object :: "(string \<times> json) list \<Rightarrow> json" where
  "json_object kvs = JObj (foldl (\<lambda>m (k, v). btree_insert k v m) [] kvs)"

definition injection_violation_record ::
    "u32 \<Rightarrow> string \<Rightarrow> inject_kind \<Rightarrow> u32 \<Rightarrow> u64 \<Rightarrow> u64 \<Rightarrow> string option \<Rightarrow> u64 list \<Rightarrow> json" where
  "injection_violation_record pid exe kind target_pid start_address caller_pc caller_module stack_top =
     json_object
       [(''pid'', JInt (uint pid)), (''exe'', JStr exe), (''kind'', JStr (inject_kind_name kind)), (''target_pid'', JInt (uint target_pid)),
        (''start_addr'', JStr (show_hex start_address)), (''caller_pc'', JStr (show_hex caller_pc)),
        (''caller_module'', json_opt caller_module), (''stack'', JArr (map (\<lambda>f. JStr (show_hex f)) stack_top))]"

definition memory_violation_record ::
    "u32 \<Rightarrow> string \<Rightarrow> alloc_kind \<Rightarrow> u32 \<Rightarrow> u64 \<Rightarrow> u64 \<Rightarrow> u64 \<Rightarrow> string option \<Rightarrow> u64 list \<Rightarrow> json" where
  "memory_violation_record pid exe kind requested_protect region_size target_address caller_pc caller_module stack_top =
     json_object
       [(''pid'', JInt (uint pid)), (''exe'', JStr exe), (''kind'', JStr (alloc_kind_name kind)), (''protect'', JStr (show_hex requested_protect)),
        (''size'', JInt (uint region_size)), (''addr'', JStr (show_hex target_address)), (''caller_pc'', JStr (show_hex caller_pc)),
        (''caller_module'', json_opt caller_module), (''stack'', JArr (map (\<lambda>f. JStr (show_hex f)) stack_top))]"

definition escape_violation_record ::
    "u32 \<Rightarrow> string \<Rightarrow> string \<Rightarrow> string \<Rightarrow> u64 \<Rightarrow> string option \<Rightarrow> u64 list \<Rightarrow> json" where
  "escape_violation_record pid exe vector detail caller_pc caller_module stack_top =
     json_object
       [(''pid'', JInt (uint pid)), (''exe'', JStr exe), (''kind'', JStr ''Escape''), (''vector'', JStr vector), (''detail'', JStr detail), (''action'', JStr ''terminate''),
        (''caller_pc'', JStr (show_hex caller_pc)), (''caller_module'', json_opt caller_module),
        (''stack'', JArr (map (\<lambda>f. JStr (show_hex f)) stack_top))]"

definition append_violation_record :: "json \<Rightarrow> 't launcher \<Rightarrow> 't launcher" where
  "append_violation_record rec l = l\<lparr>l_violations_log := l_violations_log l @ [rec]\<rparr>"

section \<open>Handlers\<close>

text \<open>Both counters of violations, and the event in the log.\<close>

definition count_violation :: "'t launcher \<Rightarrow> 't launcher" where
  "count_violation l =
     l\<lparr>l_stats := (l_stats l)\<lparr>st_violations := st_violations (l_stats l) + 1\<rparr>,
       l_hot := count_total (\<lambda>t. t\<lparr>t_violations := t_violations t + 1\<rparr>) (l_hot l)\<rparr>"

definition violation :: "u32 \<Rightarrow> string \<Rightarrow> 't launcher \<Rightarrow> 't launcher" where
  "violation pid kind l = (count_violation l)\<lparr>l_events := l_events l @ [(pid, kind)]\<rparr>"

definition count_hot :: "(totals \<Rightarrow> totals) \<Rightarrow> 't launcher \<Rightarrow> 't launcher" where
  "count_hot f l = l\<lparr>l_hot := count_total f (l_hot l)\<rparr>"

definition count_stat :: "(stats \<Rightarrow> stats) \<Rightarrow> 't launcher \<Rightarrow> 't launcher" where
  "count_stat f l = l\<lparr>l_stats := f (l_stats l)\<rparr>"

definition handle_hello ::
    "('t, 'e) session_env_scheme \<Rightarrow> u32 \<Rightarrow> u32 option \<Rightarrow> u32 \<Rightarrow> string \<Rightarrow> 't launcher \<Rightarrow> resp \<times> u32 option \<times> 't launcher" where
  "handle_hello E client_pid conn_pid pid exe_path l =
     (let l1 = (if pid \<noteq> client_pid then violation client_pid ''HelloPidSpoof'' l else l);
          l2 = count_hot (\<lambda>t. t\<lparr>hellos := hellos t + 1\<rparr>) l1
      in case hello_exe_context E client_pid exe_path of
           Some (exe_lower, claimed_mismatch) \<Rightarrow>
             (let l3 = (if claimed_mismatch then violation client_pid ''HelloExeSpoof'' l2 else l2);
                  live_ct = unwrap_or (query_process_create_time E client_pid) 0;
                  info = (case l_procs l3 client_pid of
                      Some existing \<Rightarrow>
                        \<lparr>pi_depth = pi_depth existing, pi_exe = exe_lower,
                         pi_create_time = (if live_ct \<noteq> 0 then live_ct else pi_create_time existing)\<rparr>
                    | None \<Rightarrow>
                        \<lparr>pi_depth = resolve_new_entry_depth E (l_procs l3) client_pid, pi_exe = exe_lower, pi_create_time = live_ct\<rparr>)
              in (ROk, Some client_pid, l3\<lparr>l_procs := (l_procs l3)(client_pid \<mapsto> info)\<rparr>))
         | None \<Rightarrow> (RErr ''hello: kernel image path unavailable'', conn_pid, violation client_pid ''HelloExeUnresolved'' l2))"

definition handle_spawned_child ::
    "('t, 'e) session_env_scheme \<Rightarrow> u32 \<Rightarrow> u32 option \<Rightarrow> u32 \<Rightarrow> u32 \<Rightarrow> string \<Rightarrow> 't launcher \<Rightarrow> resp \<times> 't launcher" where
  "handle_spawned_child E client_pid conn_pid parent_pid child_pid child_exe l =
     (let l1 = (if parent_pid \<noteq> client_pid then violation client_pid ''SpawnedChildParentSpoof'' l else l) in
      if conn_pid = None then (RErr ''spawned_child: handshake required'', violation client_pid ''SpawnedChildBeforeHello'' l1)
      else if \<not> spawned_child_kinship E child_pid client_pid
      then (RErr ''spawned_child: kinship unverified'', violation client_pid ''SpawnedChildNotKin'' l1)
      else
        (let l2 = count_hot (\<lambda>t. t\<lparr>t_children := t_children t + 1\<rparr>) l1;
             (queued, q) = queue_child_pid (l_children l2) child_pid;
             l3 = l2\<lparr>l_children := q\<rparr>;
             l4 = (if queued then l3 else violation client_pid ''ChildPidQueueRejected'' l3);
             child_ct = unwrap_or (query_process_create_time E child_pid) 0;
             parent_depth = (case l_procs l4 client_pid of Some p \<Rightarrow> pi_depth p | None \<Rightarrow> 0);
             (exe_lower, claimed_mismatch) = (case query_process_image_path E child_pid of
                 Some k \<Rightarrow> (let kl = fold_published E k in (kl, \<not> exe_paths_match E child_exe kl))
               | None \<Rightarrow> (fold_published E child_exe, False));
             l5 = (if claimed_mismatch then violation client_pid ''SpawnedChildExeSpoof'' l4 else l4)
         in (ROk, l5\<lparr>l_procs := (l_procs l5)(child_pid \<mapsto>
               \<lparr>pi_depth = child_depth parent_depth, pi_exe = exe_lower, pi_create_time = child_ct\<rparr>)\<rparr>)))"

definition handle_decide ::
    "('t, 'e) session_env_scheme \<Rightarrow> u32 \<Rightarrow> u32 option \<Rightarrow> string \<Rightarrow> bool \<Rightarrow> 't launcher \<Rightarrow> resp \<times> 't launcher" where
  "handle_decide E client_pid conn_pid dos_path write l =
     (let l1 = count_stat (\<lambda>s. s\<lparr>st_decide := st_decide s + 1\<rparr>) l in
      case decide_context (l_procs l1) conn_pid of
        Some (depth, exe_lower) \<Rightarrow>
          (let (d, p) = decide_with_context E (l_policy l1) dos_path write (Some depth) (Some exe_lower);
               l2 = count_hot (\<lambda>t. t\<lparr>fs_decides := fs_decides t + 1\<rparr>) (l1\<lparr>l_policy := p\<rparr>);
               denied = (d_mode d = Deny);
               l3 = (case d_mode d of
                   Deny \<Rightarrow> count_hot (\<lambda>t. t\<lparr>fs_denies := fs_denies t + 1\<rparr>) (count_stat (\<lambda>s. s\<lparr>st_deny := st_deny s + 1\<rparr>) l2)
                 | Cow \<Rightarrow> count_hot (\<lambda>t. t\<lparr>fs_cows := fs_cows t + 1\<rparr>) (count_stat (\<lambda>s. s\<lparr>st_cow := st_cow s + 1\<rparr>) l2)
                 | Mock \<Rightarrow> count_hot (\<lambda>t. t\<lparr>fs_mocks := fs_mocks t + 1\<rparr>) (count_stat (\<lambda>s. s\<lparr>st_mock := st_mock s + 1\<rparr>) l2)
                 | Hidden \<Rightarrow> count_hot (\<lambda>t. t\<lparr>fs_decides := fs_decides t + 1\<rparr>) l2
                 | Passthrough \<Rightarrow> l2)
           in (RDecision d, l3\<lparr>l_hot := record_fs (evict_busy E) dos_path write denied (l_hot l3)\<rparr>))
      | None \<Rightarrow> (RErr ''decide: handshake required'', violation client_pid ''DecideBeforeHello'' l1))"

definition handle_record_overlay ::
    "('t, 'e) session_env_scheme \<Rightarrow> u32 \<Rightarrow> string \<Rightarrow> string \<Rightarrow> 't launcher \<Rightarrow> resp \<times> 't launcher" where
  "handle_record_overlay E client_pid orig overlay l =
     (if validate_record_overlay E (l_policy l) orig overlay then
        (case record_overlay E orig overlay (l_policy l) of
           (Inr u, p) \<Rightarrow> (ROk, l\<lparr>l_policy := p\<rparr>)
         | (Inl e, p) \<Rightarrow> (RErr ''record_overlay'', l\<lparr>l_policy := p\<rparr>))
      else (RErr ''record_overlay rejected'', violation client_pid ''RecordOverlayEscape'' l))"

definition MAX_OVERLAY_LISTING_ENTRIES :: nat where
  "MAX_OVERLAY_LISTING_ENTRIES = 16384"

definition cap_listing :: "'a list \<Rightarrow> 'a list \<times> bool" where
  "cap_listing entries =
     (if MAX_OVERLAY_LISTING_ENTRIES < length entries then (take MAX_OVERLAY_LISTING_ENTRIES entries, True) else (entries, False))"

definition resp_whiteouts :: "('t, 'e) session_env_scheme \<Rightarrow> u32 \<Rightarrow> string \<Rightarrow> 't launcher \<Rightarrow> resp \<times> 't launcher" where
  "resp_whiteouts E client_pid dir l =
     (case cap_listing (whiteouts_under E (l_policy l) dir) of
        (names, truncated) \<Rightarrow> (RWhiteouts names, if truncated then violation client_pid ''WhiteoutListingTruncated'' l else l))"

definition resp_overlay_children_with_case :: "('t, 'e) session_env_scheme \<Rightarrow> u32 \<Rightarrow> string \<Rightarrow> 't launcher \<Rightarrow> resp \<times> 't launcher" where
  "resp_overlay_children_with_case E client_pid dir l =
     (case cap_listing (overlay_children_with_case E (l_policy l) dir) of
        (pairs, truncated) \<Rightarrow> (ROverlayChildrenWithCase pairs, if truncated then violation client_pid ''OverlayListingTruncated'' l else l))"

definition resp_overlay_children :: "('t, 'e) session_env_scheme \<Rightarrow> u32 \<Rightarrow> string \<Rightarrow> 't launcher \<Rightarrow> resp \<times> 't launcher" where
  "resp_overlay_children E client_pid dir l =
     (case cap_listing (overlay_children E (l_policy l) dir) of
        (entries, truncated) \<Rightarrow> (ROverlayChildren entries, if truncated then violation client_pid ''OverlayListingTruncated'' l else l))"

definition put_policy :: "string \<Rightarrow> (policy_error + unit) \<times> 't policy \<Rightarrow> 't launcher \<Rightarrow> resp \<times> 't launcher" where
  "put_policy err r l = (case r of (Inr u, p) \<Rightarrow> (ROk, l\<lparr>l_policy := p\<rparr>) | (Inl e, p) \<Rightarrow> (RErr err, l\<lparr>l_policy := p\<rparr>))"

definition put_reg :: "(string + unit) \<times> 't reg_policy \<Rightarrow> 't launcher \<Rightarrow> resp \<times> 't launcher" where
  "put_reg r l = (case r of (Inr u, rp) \<Rightarrow> (ROk, l\<lparr>l_reg := rp\<rparr>) | (Inl e, rp) \<Rightarrow> (RErr e, l\<lparr>l_reg := rp\<rparr>))"

definition register_child :: "u32 \<Rightarrow> u32 \<Rightarrow> 't launcher \<Rightarrow> resp \<times> 't launcher" where
  "register_child client_pid pid l =
     (let (queued, q) = queue_child_pid (l_children l) pid; l1 = l\<lparr>l_children := q\<rparr>
      in (ROk, if queued then l1 else violation client_pid ''ChildPidQueueRejected'' l1))"

text \<open>The arms other than the handshake, which alone changes the process of the connection.\<close>

fun handle_arm :: "('t, 'e) session_env_scheme \<Rightarrow> u32 \<Rightarrow> u32 option \<Rightarrow> req \<Rightarrow> 't launcher \<Rightarrow> resp \<times> 't launcher" where
  "handle_arm E client conn (Hello pid exe) l = (case handle_hello E client conn pid exe l of (r, c, l') \<Rightarrow> (r, l'))"
| "handle_arm E client conn (SpawnedChild parent child exe) l = handle_spawned_child E client conn parent child exe l"
| "handle_arm E client conn (Decide path write) l = handle_decide E client conn path write l"
| "handle_arm E client conn (RecordOverlay orig overlay) l = handle_record_overlay E client orig overlay l"
| "handle_arm E client conn (RecordOverlayCase path base) l = (ROk, l\<lparr>l_policy := record_overlay_case E path base (l_policy l)\<rparr>)"
| "handle_arm E client conn (ClearOverlay path) l = put_policy ''clear_overlay'' (clear_overlay E path (l_policy l)) l"
| "handle_arm E client conn (RecordWhiteout path) l = put_policy ''record_whiteout'' (record_whiteout E path (l_policy l)) l"
| "handle_arm E client conn (ClearWhiteout path) l = put_policy ''clear_whiteout'' (clear_whiteout E path (l_policy l)) l"
| "handle_arm E client conn (WhiteoutsUnder dir) l = resp_whiteouts E client dir l"
| "handle_arm E client conn (OverlayChildrenWithCase dir) l = resp_overlay_children_with_case E client dir l"
| "handle_arm E client conn (OverlayChildren dir) l = resp_overlay_children E client dir l"
| "handle_arm E client conn (Log pid level msg) l = (ROk, l)"
| "handle_arm E client conn (RegisterChild pid) l = register_child client pid l"
| "handle_arm E client conn (RecordCleanImage key) l = (case record_clean E key of Inr u \<Rightarrow> (ROk, l) | Inl e \<Rightarrow> (RErr e, l))"
| "handle_arm E client conn (InjectionViolation pid exe kind target start pc modl stack) l =
     (ROk, append_violation_record (injection_violation_record pid exe kind target start pc modl stack) (violation pid (inject_kind_name kind) l))"
| "handle_arm E client conn (PreLaunchViolation pid exe hits) l = (ROk, count_violation l)"
| "handle_arm E client conn (MemoryViolation pid exe kind protect sz addr pc modl stack) l =
     (ROk, append_violation_record (memory_violation_record pid exe kind protect sz addr pc modl stack) (violation pid (alloc_kind_name kind) l))"
| "handle_arm E client conn (EscapeViolation pid exe vec detail pc modl stack) l =
     (ROk, append_violation_record (escape_violation_record pid exe vec detail pc modl stack) (violation pid ''Escape'' l))"
| "handle_arm E client conn (RegDecide key v write) l =
     (case resp_reg_decide E key v write (l_reg l, l_hot l) of
        ((m, vj), rp, hs) \<Rightarrow> (RRegDecision m vj, l\<lparr>l_reg := rp, l_hot := hs\<rparr>))"
| "handle_arm E client conn (RegWrite key v val) l = put_reg (resp_reg_write E key v val (l_reg l)) l"
| "handle_arm E client conn (RegDeleteValue key v) l = put_reg (delete_value_in_overlay E key v (l_reg l)) l"
| "handle_arm E client conn (RegDeleteKey key) l = put_reg (delete_key_in_overlay E key (l_reg l)) l"
| "handle_arm E client conn (NetDecide host port) l =
     (case resp_net_decide E host port (l_policy l, l_hot l) of
        (allow, p, hs) \<Rightarrow> (RNetDecision allow, l\<lparr>l_policy := p, l_hot := hs\<rparr>))"
| "handle_arm E client conn (MemDecide pid op) l = (RMemDecision False, l)"
| "handle_arm E client conn (VerifyMicrosoftImage base) l = (RImagePublisher (verify_microsoft_mapping E client base), l)"
| "handle_arm E client conn DeviceDriveMap l = (RDeviceDriveMap (device_drive_map E), l)"
| "handle_arm E client conn (Attach pid ct) l = (RErr ''attach: not valid on an admitted connection'', l)"
| "handle_arm E client conn (PolicyMutate op) l = (RErr ''policy mutate: not valid on an admitted connection'', l)"
| "handle_arm E client conn (LauncherLog line) l = (RErr ''launcher_log/session_stats: not valid on a guest connection'', l)"
| "handle_arm E client conn SessionStats l = (RErr ''launcher_log/session_stats: not valid on a guest connection'', l)"
| "handle_arm E client conn Ping l = (RErr ''ping: not valid on a guest connection'', l)"
| "handle_arm E client conn BrokerStatus l = (RErr ''broker_status: not valid on a guest connection'', l)"

definition next_conn :: "('t, 'e) session_env_scheme \<Rightarrow> u32 \<Rightarrow> u32 option \<Rightarrow> req \<Rightarrow> 't launcher \<Rightarrow> u32 option" where
  "next_conn E client conn r l = (case r of Hello pid exe \<Rightarrow> fst (snd (handle_hello E client conn pid exe l)) | _ \<Rightarrow> conn)"

definition handle_request ::
    "('t, 'e) session_env_scheme \<Rightarrow> u32 \<Rightarrow> req \<Rightarrow> u32 option \<times> 't launcher \<Rightarrow> resp \<times> u32 option \<times> 't launcher" where
  "handle_request E client r st =
     (case st of (conn, l) \<Rightarrow> (case handle_arm E client conn r l of (resp, l') \<Rightarrow> (resp, next_conn E client conn r l, l')))"

text \<open>
  \<^verbatim>\<open>execute_policy_mutate\<close>, for both policies present as on every connection of the server: the two share one
  database handle, which the registry policy reads only on a reload.
\<close>

definition share_db :: "'t database \<Rightarrow> 't launcher \<Rightarrow> 't launcher" where
  "share_db db l = l\<lparr>l_policy := (l_policy l)\<lparr>p_db := db\<rparr>, l_reg := (l_reg l)\<lparr>rg_db := db\<rparr>\<rparr>"

definition execute_policy_mutate :: "('t, 'e) session_env_scheme \<Rightarrow> policy_op \<Rightarrow> 't launcher \<Rightarrow> resp \<times> 't launcher" where
  "execute_policy_mutate E op l =
     (case exec E op (p_db (l_policy l)) of
        (Inl e, db) \<Rightarrow> (RErr ''policy mutate'', share_db db l)
      | (Inr result, db) \<Rightarrow>
          (let l1 = share_db db l in
           case (if touches_fs_snapshot op then invalidate_snapshot E (l_policy l1) else (Inr (), l_policy l1)) of
             (Inl e, p) \<Rightarrow> (RErr ''policy mutate applied but cache refresh failed'', l1\<lparr>l_policy := p\<rparr>)
           | (Inr u, p) \<Rightarrow>
               (let l2 = l1\<lparr>l_policy := p\<rparr> in
                case (if touches_reg_snapshot op then reload_snapshot E (l_reg l2) else (Inr (), l_reg l2)) of
                  (Inl e, rp) \<Rightarrow> (RErr ''policy mutate applied but registry cache refresh failed'', l2\<lparr>l_reg := rp\<rparr>)
                | (Inr u', rp) \<Rightarrow> (RPolicyMutated result, l2\<lparr>l_reg := rp\<rparr>))))"

text \<open>
  \<^verbatim>\<open>handle_connection\<close>: the requests of one connection until the client is gone, a read fails or a response
  cannot be written. \<open>alive\<close> and \<open>sent\<close> tell for each turn whether the loop goes on.
\<close>

fun handle_connection ::
    "('t, 'e) session_env_scheme \<Rightarrow> u32 \<Rightarrow> (bool \<times> req option \<times> bool) list \<Rightarrow> u32 option \<times> 't launcher \<Rightarrow> resp list \<times> 't launcher" where
  "handle_connection E client [] st = ([], snd st)"
| "handle_connection E client ((alive, r, sent) # turns) st =
     (if \<not> alive then ([], snd st)
      else (case r of
          None \<Rightarrow> ([], snd st)
        | Some rq \<Rightarrow>
            (case handle_request E client rq st of
               (resp, st') \<Rightarrow>
                 if sent then (case handle_connection E client turns st' of (rs, l) \<Rightarrow> (resp # rs, l))
                 else ([], snd st'))))"

end
