(* ===== verification/SessionRuns.thy ===== *)
theory SessionRuns
  imports Session
begin

text \<open>
  Runs of the launcher: connections are admitted or refused, guests send requests in any order, the operator
  changes the policy, and entries of the process table are dropped. Between steps the machine changes: the
  file system, the processes and the failures of writes are those of the moment.
\<close>

section \<open>Steps\<close>

text \<open>The parts of the environment that stay: case folding and the database engine.\<close>

definition same_machine :: "('t, 'e) session_env_scheme \<Rightarrow> ('t, 'e) session_env_scheme \<Rightarrow> bool" where
  "same_machine E E' \<longleftrightarrow> ensure_lower E' = ensure_lower E \<and> tb_get E' = tb_get E \<and> redb_lawful E' \<and> cache_lawful E'"

type_synonym conns = "nat \<Rightarrow> (u32 \<times> u32 option) option"

inductive session_step ::
    "('t, 'e) session_env_scheme \<Rightarrow> u32 \<Rightarrow> 't launcher \<times> conns \<Rightarrow> 't launcher \<times> conns \<Rightarrow> bool" for E root where
  admit: "same_machine E E' \<Longrightarrow> is_owned_client_pid E' root rct job client (l_procs l) = (True, t) \<Longrightarrow> cs i = None \<Longrightarrow>
     session_step E root (l, cs) (l\<lparr>l_procs := t\<rparr>, cs(i \<mapsto> (client, None)))"
| refuse: "same_machine E E' \<Longrightarrow> is_owned_client_pid E' root rct job client (l_procs l) = (False, t) \<Longrightarrow>
     session_step E root (l, cs) (violation client ''PipeClientNotOwned'' (l\<lparr>l_procs := t\<rparr>), cs)"
| operator: "same_machine E E' \<Longrightarrow> execute_policy_mutate E' op l = (resp, l') \<Longrightarrow> session_step E root (l, cs) (l', cs)"
| request: "same_machine E E' \<Longrightarrow> cs i = Some (client, conn) \<Longrightarrow> handle_request E' client r (conn, l) = (resp, conn', l') \<Longrightarrow>
     session_step E root (l, cs) (l', cs(i \<mapsto> (client, conn')))"
| closed: "session_step E root (l, cs) (l, cs(i := None))"
| drained: "session_step E root (l, cs) (l\<lparr>l_procs := (l_procs l)(pid := None), l_children := q\<rparr>, cs)"
  if "set q \<subseteq> set (l_children l)" "length q \<le> length (l_children l)"


inductive session_reach :: "('t, 'e) session_env_scheme \<Rightarrow> u32 \<Rightarrow> 't launcher \<Rightarrow> 't launcher \<times> conns \<Rightarrow> bool" for E root l\<^sub>0 where
  start: "session_reach E root l\<^sub>0 (l\<^sub>0, Map.empty)"
| step: "session_reach E root l\<^sub>0 s \<Longrightarrow> session_step E root s s' \<Longrightarrow> session_reach E root l\<^sub>0 s'"

section \<open>Destinations\<close>

text \<open>Up to case and trailing separators, the file is the mirror of the key, in the overlay or in the mock root.\<close>

definition mirror_of :: "'a platform_scheme \<Rightarrow> 't policy \<Rightarrow> string \<Rightarrow> string \<Rightarrow> bool" where
  "mirror_of E p k ov \<longleftrightarrow>
     index_key E ov = index_key E (mirror_into_overlay_layout k (p_layout p)) \<or>
     index_key E ov = index_key E (mirror_into_overlay k (p_mock_root p))"

definition rows_mirrored :: "('t, 'e) session_env_scheme \<Rightarrow> 't policy \<Rightarrow> bool" where
  "rows_mirrored E p \<longleftrightarrow> (\<forall>k v. tview E (p_db p) OVERLAY_IDX k = Some v \<longrightarrow> mirror_of E p k v)"

definition decision_mirrored :: "('t, 'e) session_env_scheme \<Rightarrow> 't policy \<Rightarrow> decision \<Rightarrow> bool" where
  "decision_mirrored E p d \<longleftrightarrow> (\<forall>ov. d_overlay d = Some ov \<longrightarrow> (\<exists>k. mirror_of E p k ov))"

definition confined :: "('t, 'e) session_env_scheme \<Rightarrow> 't policy \<Rightarrow> bool" where
  "confined E p \<longleftrightarrow> rows_mirrored E p \<and> (\<forall>key d. p_cache p key = Some d \<longrightarrow> decision_mirrored E p d)"

text \<open>What guests never change: the layout of the sandbox, the loaded rules, and every table but the overlay's own.\<close>

definition guest_frame :: "('t, 'e) session_env_scheme \<Rightarrow> 't policy \<Rightarrow> 't policy \<Rightarrow> bool" where
  "guest_frame E p p' \<longleftrightarrow>
     kept E p p' \<and> p_snapshot p' = p_snapshot p \<and>
     (\<forall>n. n \<notin> {OVERLAY_IDX, WHITEOUTS, OVERLAY_CASE} \<longrightarrow> tview E (p_db p') n = tview E (p_db p) n)"

text \<open>A step of the policy that keeps destinations confined.\<close>

definition safe_step :: "('t, 'e) session_env_scheme \<Rightarrow> 't policy \<Rightarrow> 't policy \<Rightarrow> bool" where
  "safe_step E p p' \<longleftrightarrow> guest_frame E p p' \<and> (confined E p \<longrightarrow> confined E p')"

lemma same_machine_laws:
  assumes "same_machine E E'"
  shows "tview E' = tview E" "index_key E' = index_key E" "redb_lawful E'" "cache_lawful E'"
  using assms by (auto simp: same_machine_def tview_def index_key_def fun_eq_iff split: option.split)

lemma validated_mirror: "validate_record_overlay E p orig ov \<Longrightarrow> mirror_of E p (index_key E orig) ov"
  by (auto simp: validate_record_overlay_def mirror_of_def index_key_def Let_def split: if_splits)

lemma compute_mirrored:
  assumes "same_machine E E'" and "rows_mirrored E p"
  shows "decision_mirrored E p (compute E' p path w depth exe)"
proof -
  have look: "mirror_of E p k ov" if "lookup E' (p_db p) OVERLAY_IDX k = Some ov" for k ov
    using that assms(2) by (auto simp: lookup_view same_machine_laws [OF assms(1)] rows_mirrored_def split: if_splits)
  have m: "mirror_of E p k (mirror_into_overlay_layout k (p_layout p))" "mirror_of E p k (mirror_into_overlay k (p_mock_root p))" for k
    by (simp_all add: mirror_of_def)
  have phys: "mirror_of E p k ov" if "physical_overlay_path E' k (p_layout p) = Some ov" for k ov
    using that m by (auto simp: physical_overlay_path_def Let_def split: option.splits if_splits)
  show ?thesis
    by (cases rule: compute_cases [of E' p path w depth exe])
      (use m in \<open>auto simp: decision_mirrored_def compute_parts dest: look phys split: rule_mode.splits option.splits if_splits\<close>)
qed

lemma safe_refl: "safe_step E p p"
  by (simp add: safe_step_def guest_frame_def kept_def)

text \<open>Rows come from the old table or are mirrors of their key; the cache is emptied or kept.\<close>

lemma confined_step:
  assumes "kept E p p'" and "p_cache p' \<subseteq>\<^sub>m p_cache p"
    and "\<And>k v. tview E (p_db p') OVERLAY_IDX k = Some v \<Longrightarrow> tview E (p_db p) OVERLAY_IDX k = Some v \<or> mirror_of E p k v"
  shows "confined E p \<Longrightarrow> confined E p'"
proof -
  have "mirror_of E p' k v = mirror_of E p k v" for k v
    using assms(1) by (simp add: mirror_of_def kept_def)
  moreover have "p_cache p key = Some d" if "p_cache p' key = Some d" for key d
    using assms(2) that by (force simp: map_le_def dom_def)
  ultimately show "confined E p \<Longrightarrow> confined E p'"
    unfolding confined_def rows_mirrored_def decision_mirrored_def using assms(3) by meson
qed

lemma safe_stepI:
  assumes "guest_frame E p p'" and "p_cache p' \<subseteq>\<^sub>m p_cache p"
    and "\<And>k v. tview E (p_db p') OVERLAY_IDX k = Some v \<Longrightarrow> tview E (p_db p) OVERLAY_IDX k = Some v \<or> mirror_of E p k v"
  shows "safe_step E p p'"
  using assms confined_step [OF _ assms(2,3)] by (simp add: safe_step_def guest_frame_def)

lemma commit_safe:
  assumes "commit_policy E' f after p = (x, p')" and "\<And>q. \<exists>c. after q = q\<lparr>children_idx := c\<rparr>"
    and "\<And>n. n \<notin> {OVERLAY_IDX, WHITEOUTS, OVERLAY_CASE} \<Longrightarrow> tview E (snd (f (p_db p))) n = tview E (p_db p) n"
    and "\<And>k v. tview E (snd (f (p_db p))) OVERLAY_IDX k = Some v \<Longrightarrow> tview E (p_db p) OVERLAY_IDX k = Some v \<or> mirror_of E p k v"
  shows "safe_step E p p'"
proof (cases x)
  case (Inl e)
  with assms(1) show ?thesis by (simp add: commit_policy_cases safe_refl)
next
  case (Inr r)
  obtain c where "after (p\<lparr>p_db := snd (f (p_db p)), p_cache := Map.empty\<rparr>) = p\<lparr>p_db := snd (f (p_db p)), p_cache := Map.empty\<rparr>\<lparr>children_idx := c\<rparr>"
    using assms(2) by blast
  with assms(1) Inr have "p' = p\<lparr>p_db := snd (f (p_db p)), p_cache := Map.empty, children_idx := c\<rparr>" by (simp add: commit_policy_cases)
  with assms(3,4) show ?thesis by (intro safe_stepI) (simp_all add: guest_frame_def kept_def)
qed

lemma decide_safe:
  assumes m: "same_machine E E'" and d: "decide_with_context E' p path w depth exe = (d, p')"
  shows "safe_step E p p'" "confined E p \<Longrightarrow> decision_mirrored E p d"
proof -
  define folded where "folded = fold_dos_dots (ensure_lower E' path)"
  define key where "key = cache_key E' folded w depth exe"
  show "confined E p \<Longrightarrow> decision_mirrored E p d"
    using d compute_mirrored [OF m, of p folded w depth exe]
    by (auto simp: decide_with_context_def Let_def folded_def [symmetric] key_def [symmetric] confined_def split: option.splits)
  show "safe_step E p p'"
  proof (cases "p_cache p key")
    case None
    with d have p': "p' = p\<lparr>p_cache := cache_store E' (p_cache p) key (compute E' p folded w depth exe)\<rparr>"
      by (auto simp: decide_with_context_def Let_def folded_def [symmetric] key_def [symmetric])
    have le: "p_cache p' \<subseteq>\<^sub>m (p_cache p)(key \<mapsto> compute E' p folded w depth exe)"
      using same_machine_laws(4) [OF m] by (simp add: p' cache_lawful_def)
    have mir: "mirror_of E p' = mirror_of E p" by (simp add: p' mirror_of_def fun_eq_iff)
    have "decision_mirrored E p x" if "confined E p" "p_cache p' k = Some x" for k x
    proof -
      have "((p_cache p)(key \<mapsto> compute E' p folded w depth exe)) k = Some x" using le that(2) by (force simp: map_le_def)
      with that(1) compute_mirrored [OF m] show ?thesis by (auto simp: confined_def split: if_splits)
    qed
    then show ?thesis
      by (auto simp: safe_step_def confined_def rows_mirrored_def decision_mirrored_def mir) (simp_all add: p' guest_frame_def kept_def)
  next
    case (Some x)
    with d have "p' = p" by (simp add: decide_with_context_def Let_def folded_def [symmetric] key_def [symmetric])
    then show ?thesis by (simp add: safe_refl)
  qed
qed

lemma record_overlay_safe:
  assumes m: "same_machine E E'" and v: "validate_record_overlay E' p orig ov" and r: "record_overlay E' orig ov p = (x, p')"
  shows "safe_step E p p'"
proof -
  note law = same_machine_laws [OF m]
  have "mirror_of E p (index_key E orig) ov" using validated_mirror [OF v] by (simp add: mirror_of_def law)
  then show ?thesis
    by (intro commit_safe [OF r [unfolded record_overlay_def Let_def]])
      (auto simp: insert_op_view [OF law(3), unfolded law] abs_put_def law split: if_splits)
qed

lemma bookkeeping_safe:
  assumes m: "same_machine E E'"
  shows "clear_overlay E' path p = (x, p') \<Longrightarrow> safe_step E p p'"
    "record_whiteout E' path p = (x, p') \<Longrightarrow> safe_step E p p'"
    "clear_whiteout E' path p = (x, p') \<Longrightarrow> safe_step E p p'"
    "safe_step E p (record_overlay_case E' path base p)"
    "safe_step E p (p\<lparr>p_net := net\<rparr>)"
proof -
  note law = same_machine_laws [OF m]
  note views = insert_op_view [OF law(3), unfolded law] remove_op_view [OF law(3), unfolded law]
    clear_whiteout_view [OF law(3), unfolded law] abs_put_def law
  have idle: "\<exists>c. q = q\<lparr>children_idx := c\<rparr>" for q :: "'a policy" by (rule exI [of _ "children_idx q"]) simp
  show "clear_overlay E' path p = (x, p') \<Longrightarrow> safe_step E p p'"
    unfolding clear_overlay_def Let_def by (erule commit_safe) (auto simp: views split: if_splits)
  show "record_whiteout E' path p = (x, p') \<Longrightarrow> safe_step E p p'"
    unfolding record_whiteout_def by (erule commit_safe) (use idle in \<open>auto simp: views split: if_splits\<close>)
  show "clear_whiteout E' path p = (x, p') \<Longrightarrow> safe_step E p p'"
    unfolding clear_whiteout_def by (erule commit_safe) (use idle in \<open>auto simp: views split: if_splits\<close>)
  show "safe_step E p (record_overlay_case E' path base p)"
    by (rule safe_stepI) (auto simp: record_overlay_case_def guest_frame_def kept_def write_txn_atomic views split: if_splits)
  show "safe_step E p (p\<lparr>p_net := net\<rparr>)" by (rule safe_stepI) (simp_all add: guest_frame_def kept_def)
qed

text \<open>The operator changes rules, never the overlay index.\<close>

lemma invalidate_cases:
  "invalidate_snapshot E p = (x, p') \<Longrightarrow> p' = p \<or> (\<exists>snap. p' = p\<lparr>p_snapshot := snap, p_cache := Map.empty\<rparr>)"
  by (auto simp: invalidate_snapshot_def refresh_after_mutation_def split: sum.splits)

lemma mutate_shape:
  assumes x: "execute_policy_mutate E op l = (resp, l')" and ex: "exec E op (p_db (l_policy l)) = (r, db)"
  shows "\<exists>p rp. l' = l\<lparr>l_policy := p, l_reg := rp\<rparr> \<and>
    (p = (l_policy l)\<lparr>p_db := db\<rparr> \<or> (\<exists>y. invalidate_snapshot E ((l_policy l)\<lparr>p_db := db\<rparr>) = (y, p)))"
proof (cases r)
  case (Inl e)
  with x ex show ?thesis by (auto simp: execute_policy_mutate_def share_db_def)
next
  case (Inr a)
  define l1 where "l1 = share_db db l"
  define q where "q = (if touches_fs_snapshot op then invalidate_snapshot E (l_policy l1) else (Inr (), l_policy l1))"
  obtain y p where q': "q = (y, p)" by (cases q)
  have p: "p = (l_policy l)\<lparr>p_db := db\<rparr> \<or> (\<exists>y. invalidate_snapshot E ((l_policy l)\<lparr>p_db := db\<rparr>) = (y, p))"
    using q' by (auto simp: q_def l1_def share_db_def split: if_splits)
  have "\<exists>rp. l' = l1\<lparr>l_policy := p, l_reg := rp\<rparr>"
  proof (cases y)
    case (Inl e)
    then have "execute_policy_mutate E op l = (RErr ''policy mutate applied but cache refresh failed'', l1\<lparr>l_policy := p\<rparr>)"
      by (simp only: execute_policy_mutate_def ex \<open>r = Inr a\<close> sum.case prod.case Let_def l1_def [symmetric] q_def [symmetric] q')
    with x have "l' = l1\<lparr>l_policy := p\<rparr>" by simp
    then have "l' = l1\<lparr>l_policy := p, l_reg := l_reg l1\<rparr>" by simp
    then show ?thesis by blast
  next
    case (Inr u)
    define w where "w = (if touches_reg_snapshot op then reload_snapshot E (l_reg (l1\<lparr>l_policy := p\<rparr>)) else (Inr (), l_reg (l1\<lparr>l_policy := p\<rparr>)))"
    obtain z rp where w': "w = (z, rp)" by (cases w)
    have "execute_policy_mutate E op l = (case w of
        (Inl e, rp) \<Rightarrow> (RErr ''policy mutate applied but registry cache refresh failed'', l1\<lparr>l_policy := p, l_reg := rp\<rparr>)
      | (Inr u', rp) \<Rightarrow> (RPolicyMutated a, l1\<lparr>l_policy := p, l_reg := rp\<rparr>))"
      by (simp only: execute_policy_mutate_def ex \<open>r = Inr a\<close> sum.case prod.case Let_def l1_def [symmetric] q_def [symmetric] q' Inr w_def)
    with x w' have "l' = l1\<lparr>l_policy := p, l_reg := rp\<rparr>" by (cases z) simp_all
    then show ?thesis by blast
  qed
  with p show ?thesis by (auto simp: l1_def share_db_def)
qed

lemma mutate_confined:
  assumes m: "same_machine E E'" and x: "execute_policy_mutate E' op l = (resp, l')"
  shows "confined E (l_policy l) \<Longrightarrow> confined E (l_policy l')" "l_procs l' = l_procs l" "l_children l' = l_children l"
proof -
  note law = same_machine_laws [OF m]
  obtain r db where ex: "exec E' op (p_db (l_policy l)) = (r, db)" by (cases "exec E' op (p_db (l_policy l))")
  have v: "tview E db OVERLAY_IDX = tview E (p_db (l_policy l)) OVERLAY_IDX"
  proof (cases r)
    case (Inl e)
    with ex exec_error [of E' op "p_db (l_policy l)" e db] show ?thesis by simp
  next
    case (Inr a)
    with ex exec_abs [OF law(3), of op "p_db (l_policy l)" a db]
    have "tview E db = abs_exec E' op (tview E (p_db (l_policy l)))" by (simp add: law)
    then show ?thesis using abs_exec_frame(3) [of OVERLAY_IDX E' op] by simp
  qed
  obtain p rp where l': "l' = l\<lparr>l_policy := p, l_reg := rp\<rparr>"
    and p: "p = (l_policy l)\<lparr>p_db := db\<rparr> \<or> (\<exists>y. invalidate_snapshot E' ((l_policy l)\<lparr>p_db := db\<rparr>) = (y, p))"
    using mutate_shape [OF x ex] by blast
  have f: "p_db p = db" "kept E (l_policy l) p" "p_cache p \<subseteq>\<^sub>m p_cache (l_policy l)"
    using p by (auto simp: kept_def dest!: invalidate_cases)
  show "confined E (l_policy l) \<Longrightarrow> confined E (l_policy l')"
    using confined_step [OF f(2,3)] by (simp add: l' f(1) v)
  show "l_procs l' = l_procs l" "l_children l' = l_children l" by (simp_all add: l')
qed

section \<open>What one request does\<close>

lemma counters_keep [simp]:
  "l_policy (violation c k l) = l_policy l" "l_procs (violation c k l) = l_procs l" "l_children (violation c k l) = l_children l"
  "l_policy (count_violation l) = l_policy l" "l_procs (count_violation l) = l_procs l" "l_children (count_violation l) = l_children l"
  "l_policy (count_hot f l) = l_policy l" "l_procs (count_hot f l) = l_procs l" "l_children (count_hot f l) = l_children l"
  "l_policy (count_stat g l) = l_policy l" "l_procs (count_stat g l) = l_procs l" "l_children (count_stat g l) = l_children l"
  "l_policy (append_violation_record v l) = l_policy l" "l_procs (append_violation_record v l) = l_procs l"
  "l_children (append_violation_record v l) = l_children l"
  by (simp_all add: violation_def count_violation_def count_hot_def count_stat_def append_violation_record_def)

lemma listing_keeps:
  "resp_whiteouts E c dir l = (resp, l') \<Longrightarrow> l' = l \<or> l' = violation c ''WhiteoutListingTruncated'' l"
  "resp_overlay_children_with_case E c dir l = (resp, l') \<Longrightarrow> l' = l \<or> l' = violation c ''OverlayListingTruncated'' l"
  "resp_overlay_children E c dir l = (resp, l') \<Longrightarrow> l' = l \<or> l' = violation c ''OverlayListingTruncated'' l"
  by (auto simp: resp_whiteouts_def resp_overlay_children_with_case_def resp_overlay_children_def split: prod.splits)

lemma put_policy_keeps:
  "put_policy err r l = (resp, l') \<Longrightarrow> l' = l\<lparr>l_policy := snd r\<rparr> \<and> (resp = ROk \<or> resp = RErr err)"
  by (auto simp: put_policy_def split: prod.splits sum.splits)

lemma put_reg_keeps: "put_reg r l = (resp, l') \<Longrightarrow> l' = l\<lparr>l_reg := snd r\<rparr> \<and> (resp = ROk \<or> (\<exists>e. resp = RErr e))"
  by (auto simp: put_reg_def split: prod.splits sum.splits)

text \<open>The handshake: refused, or the entry of the kernel's process is written.\<close>

lemma hello_cases:
  assumes "handle_hello E client conn pid exe l = (resp, conn', l')"
  obtains (refused) "hello_exe_context E client exe = None" "resp = RErr ''hello: kernel image path unavailable''" "conn' = conn"
      "l_policy l' = l_policy l" "l_procs l' = l_procs l" "l_children l' = l_children l"
  | (greeted) exe_lower b info where "hello_exe_context E client exe = Some (exe_lower, b)" "resp = ROk" "conn' = Some client"
      "l_policy l' = l_policy l" "l_procs l' = (l_procs l)(client \<mapsto> info)" "l_children l' = l_children l" "pi_exe info = exe_lower"
      "pi_depth info = (case l_procs l client of Some i \<Rightarrow> pi_depth i | None \<Rightarrow> resolve_new_entry_depth E (l_procs l) client)"
proof (cases "hello_exe_context E client exe")
  case None
  then have e: "handle_hello E client conn pid exe l =
      (RErr ''hello: kernel image path unavailable'', conn, violation client ''HelloExeUnresolved''
        (count_hot (\<lambda>t. t\<lparr>hellos := hellos t + 1\<rparr>) (if pid \<noteq> client then violation client ''HelloPidSpoof'' l else l)))"
    unfolding handle_hello_def Let_def by simp
  have *: "resp = RErr ''hello: kernel image path unavailable''" "conn' = conn"
    "l' = violation client ''HelloExeUnresolved''
        (count_hot (\<lambda>t. t\<lparr>hellos := hellos t + 1\<rparr>) (if pid \<noteq> client then violation client ''HelloPidSpoof'' l else l))"
    using e assms by simp_all
  show ?thesis by (rule refused [OF None *(1,2)]) (simp_all add: *(3))
next
  case (Some a)
  obtain exe_lower b where a: "a = (exe_lower, b)" by (cases a)
  define l3 where "l3 = (let l2 = count_hot (\<lambda>t. t\<lparr>hellos := hellos t + 1\<rparr>) (if pid \<noteq> client then violation client ''HelloPidSpoof'' l else l)
      in if b then violation client ''HelloExeSpoof'' l2 else l2)"
  define live_ct where "live_ct = unwrap_or (query_process_create_time E client) 0"
  define info where "info = (case l_procs l3 client of
      Some existing \<Rightarrow>
        \<lparr>pi_depth = pi_depth existing, pi_exe = exe_lower, pi_create_time = (if live_ct \<noteq> 0 then live_ct else pi_create_time existing)\<rparr>
    | None \<Rightarrow> \<lparr>pi_depth = resolve_new_entry_depth E (l_procs l3) client, pi_exe = exe_lower, pi_create_time = live_ct\<rparr>)"
  have e: "handle_hello E client conn pid exe l = (ROk, Some client, l3\<lparr>l_procs := (l_procs l3)(client \<mapsto> info)\<rparr>)"
    unfolding handle_hello_def Let_def by (simp only: Some a option.case prod.case l3_def Let_def info_def live_ct_def)
  have k: "l_policy l3 = l_policy l" "l_procs l3 = l_procs l" "l_children l3 = l_children l" by (simp_all add: l3_def Let_def)
  have *: "resp = ROk" "conn' = Some client" "l' = l3\<lparr>l_procs := (l_procs l3)(client \<mapsto> info)\<rparr>" using e assms by simp_all
  have i: "pi_exe info = exe_lower"
    "pi_depth info = (case l_procs l client of Some i \<Rightarrow> pi_depth i | None \<Rightarrow> resolve_new_entry_depth E (l_procs l) client)"
    by (cases "l_procs l client"; simp add: info_def k)+
  show ?thesis
    by (rule greeted [OF Some [unfolded a] *(1,2) _ _ _ i]) (simp_all add: *(3) k)
qed

text \<open>A report of a child: refused, or written for a real child of the client.\<close>

lemma queue_cases: "queue_child_pid q pid = (b, q') \<Longrightarrow> q' = q \<or> q' = q @ [pid] \<and> pid \<noteq> 0 \<and> length q < CHILD_PID_QUEUE_CAP"
  by (auto simp: queue_child_pid_def split: if_splits)

lemma spawned_cases:
  assumes "handle_spawned_child E client conn parent child exe l = (resp, l')"
  obtains (refused) e k where "resp = RErr e" "conn = None \<or> \<not> spawned_child_kinship E child client"
      "l' = violation client k (if parent \<noteq> client then violation client ''SpawnedChildParentSpoof'' l else l)"
  | (told) b q info where "resp = ROk" "conn \<noteq> None" "spawned_child_kinship E child client"
      "queue_child_pid (l_children l) child = (b, q)" "l_policy l' = l_policy l" "l_children l' = q"
      "l_procs l' = (l_procs l)(child \<mapsto> info)"
      "pi_depth info = child_depth (case l_procs l client of Some p \<Rightarrow> pi_depth p | None \<Rightarrow> 0)"
      "pi_exe info = fold_published E (unwrap_or (query_process_image_path E child) exe)"
proof (cases "conn = None")
  case True
  show ?thesis by (rule refused) (use True assms in \<open>auto simp: handle_spawned_child_def Let_def\<close>)
next
  case c: False
  show ?thesis
  proof (cases "spawned_child_kinship E child client")
    case False
    show ?thesis by (rule refused) (use c False assms in \<open>auto simp: handle_spawned_child_def Let_def\<close>)
  next
    case kin: True
    define l1 where "l1 = (if parent \<noteq> client then violation client ''SpawnedChildParentSpoof'' l else l)"
    define l2 where "l2 = count_hot (\<lambda>t. t\<lparr>t_children := t_children t + 1\<rparr>) l1"
    have k2: "l_policy l2 = l_policy l" "l_procs l2 = l_procs l" "l_children l2 = l_children l" by (simp_all add: l2_def l1_def)
    obtain b q where q: "queue_child_pid (l_children l2) child = (b, q)" by (cases "queue_child_pid (l_children l2) child")
    define l4 where "l4 = (if b then l2\<lparr>l_children := q\<rparr> else violation client ''ChildPidQueueRejected'' (l2\<lparr>l_children := q\<rparr>))"
    have k4: "l_policy l4 = l_policy l" "l_procs l4 = l_procs l" "l_children l4 = q" by (simp_all add: l4_def k2)
    define im where "im = (case query_process_image_path E child of
         Some k \<Rightarrow> (let kl = fold_published E k in (kl, \<not> exe_paths_match E exe kl)) | None \<Rightarrow> (fold_published E exe, False))"
    obtain exe_lower mis where im: "im = (exe_lower, mis)" by (cases im)
    have ex: "exe_lower = fold_published E (unwrap_or (query_process_image_path E child) exe)"
      using im by (cases "query_process_image_path E child") (simp_all add: im_def Let_def unwrap_or_def)
    define l5 where "l5 = (if mis then violation client ''SpawnedChildExeSpoof'' l4 else l4)"
    have k5: "l_policy l5 = l_policy l" "l_procs l5 = l_procs l" "l_children l5 = q" by (simp_all add: l5_def k4)
    define info where "info = \<lparr>pi_depth = child_depth (case l_procs l4 client of Some p \<Rightarrow> pi_depth p | None \<Rightarrow> 0),
      pi_exe = exe_lower, pi_create_time = unwrap_or (query_process_create_time E child) 0\<rparr>"
    have e: "handle_spawned_child E client conn parent child exe l = (ROk, l5\<lparr>l_procs := (l_procs l5)(child \<mapsto> info)\<rparr>)"
      using c kin
      by (simp only: handle_spawned_child_def l1_def [symmetric] l2_def [symmetric] Let_def q prod.case l4_def [symmetric]
          im_def [unfolded Let_def, symmetric] im l5_def [symmetric] info_def [symmetric] if_False not_True_eq_False)
    show ?thesis
    proof (rule told [OF _ c kin q [unfolded k2]])
      show "resp = ROk" "l_policy l' = l_policy l" "l_children l' = q" "l_procs l' = (l_procs l)(child \<mapsto> info)"
        using e assms by (auto simp: k5)
      show "pi_depth info = child_depth (case l_procs l client of Some p \<Rightarrow> pi_depth p | None \<Rightarrow> 0)"
        "pi_exe info = fold_published E (unwrap_or (query_process_image_path E child) exe)"
        by (simp_all add: info_def k4 ex)
    qed
  qed
qed

lemma decide_cases:
  assumes "handle_decide E client conn path w l = (resp, l')"
  obtains (refused) "decide_context (l_procs l) conn = None" "resp = RErr ''decide: handshake required''"
      "l' = violation client ''DecideBeforeHello'' (count_stat (\<lambda>s. s\<lparr>st_decide := st_decide s + 1\<rparr>) l)"
  | (decided) depth exe d p where "decide_context (l_procs l) conn = Some (depth, exe)" "resp = RDecision d"
      "decide_with_context E (l_policy l) path w (Some depth) (Some exe) = (d, p)"
      "l_policy l' = p" "l_procs l' = l_procs l" "l_children l' = l_children l"
proof (cases "decide_context (l_procs l) conn")
  case None
  with assms refused show ?thesis by (simp add: handle_decide_def)
next
  case (Some a)
  obtain depth exe where a: "a = (depth, exe)" by (cases a)
  obtain d p where d: "decide_with_context E (l_policy l) path w (Some depth) (Some exe) = (d, p)"
    by (cases "decide_with_context E (l_policy l) path w (Some depth) (Some exe)")
  have "resp = RDecision d" "l_policy l' = p" "l_procs l' = l_procs l" "l_children l' = l_children l"
    using assms by (cases "d_mode d"; auto simp: handle_decide_def Some a d Let_def)+
  with Some a d decided show ?thesis by blast
qed

text \<open>Every arm: the policy is stepped safely, decisions go to mirrors, the queue stays bounded.\<close>

definition queue_ok :: "u32 list \<Rightarrow> bool" where
  "queue_ok q \<longleftrightarrow> length q \<le> CHILD_PID_QUEUE_CAP \<and> 0 \<notin> set q"

lemma queue_child_ok: "queue_child_pid q pid = (b, q') \<Longrightarrow> queue_ok q \<Longrightarrow> queue_ok q'"
  by (auto simp: queue_ok_def dest!: queue_cases)

definition arm_ok :: "('t, 'e) session_env_scheme \<Rightarrow> 't launcher \<Rightarrow> resp \<Rightarrow> 't launcher \<Rightarrow> bool" where
  "arm_ok E l resp l' \<longleftrightarrow>
     safe_step E (l_policy l) (l_policy l') \<and> (queue_ok (l_children l) \<longrightarrow> queue_ok (l_children l')) \<and>
     (\<forall>d. resp = RDecision d \<longrightarrow> confined E (l_policy l) \<longrightarrow> decision_mirrored E (l_policy l) d)"

lemma arm_quiet: "l_policy l' = l_policy l \<Longrightarrow> l_children l' = l_children l \<Longrightarrow> (\<forall>d. resp \<noteq> RDecision d) \<Longrightarrow> arm_ok E l resp l'"
  by (simp add: arm_ok_def safe_refl)

lemma arm_put: "safe_step E (l_policy l) (snd r) \<Longrightarrow> put_policy err r l = (resp, l') \<Longrightarrow> arm_ok E l resp l'"
  using put_policy_keeps [of err r l resp l'] by (auto simp: arm_ok_def)

lemma arm_spec:
  assumes m: "same_machine E E'" and h: "handle_arm E' client conn r l = (resp, l')"
  shows "arm_ok E l resp l'"
proof -
  note book = bookkeeping_safe [OF m]
  show ?thesis
  proof (cases r)
    case (Hello pid exe)
    obtain a b c where hh: "handle_hello E' client conn pid exe l = (a, b, c)" by (metis surj_pair)
    with h Hello have "a = resp" "c = l'" by simp_all
    with hh show ?thesis by (auto elim!: hello_cases intro!: arm_quiet)
  next
    case (SpawnedChild parent child exe)
    with h have "handle_spawned_child E' client conn parent child exe l = (resp, l')" by simp
    then show ?thesis
    proof (cases rule: spawned_cases)
      case (told b q info)
      then show ?thesis using queue_child_ok [of "l_children l" child b q] by (auto simp: arm_ok_def safe_refl)
    qed (auto intro!: arm_quiet)
  next
    case (Decide path w)
    with h have "handle_decide E' client conn path w l = (resp, l')" by simp
    then show ?thesis
    proof (cases rule: decide_cases)
      case (decided depth exe d p)
      then show ?thesis using decide_safe [OF m, of "l_policy l" path w "Some depth" "Some exe" d p] by (simp add: arm_ok_def)
    qed (auto intro!: arm_quiet)
  next
    case (RecordOverlay orig ov)
    show ?thesis
    proof (cases "validate_record_overlay E' (l_policy l) orig ov")
      case True
      obtain x p where "record_overlay E' orig ov (l_policy l) = (x, p)" by (metis surj_pair)
      with h RecordOverlay True record_overlay_safe [OF m True this] show ?thesis
        by (cases x) (auto simp: handle_record_overlay_def arm_ok_def)
    next
      case False
      with h RecordOverlay show ?thesis by (auto simp: handle_record_overlay_def intro!: arm_quiet)
    qed
  next
    case (RecordOverlayCase path base)
    with h book(4) show ?thesis by (auto simp: arm_ok_def)
  next
    case (ClearOverlay path)
    with h book(1) [of path "l_policy l"] show ?thesis by (auto intro!: arm_put simp: prod_eq_iff)
  next
    case (RecordWhiteout path)
    with h book(2) [of path "l_policy l"] show ?thesis by (auto intro!: arm_put simp: prod_eq_iff)
  next
    case (ClearWhiteout path)
    with h book(3) [of path "l_policy l"] show ?thesis by (auto intro!: arm_put simp: prod_eq_iff)
  next
    case (WhiteoutsUnder dir)
    with h listing_keeps(1) [of E' client dir l resp l'] show ?thesis
      by (auto simp: resp_whiteouts_def split: prod.splits intro!: arm_quiet)
  next
    case (OverlayChildrenWithCase dir)
    with h listing_keeps(2) [of E' client dir l resp l'] show ?thesis
      by (auto simp: resp_overlay_children_with_case_def split: prod.splits intro!: arm_quiet)
  next
    case (OverlayChildren dir)
    with h listing_keeps(3) [of E' client dir l resp l'] show ?thesis
      by (auto simp: resp_overlay_children_def split: prod.splits intro!: arm_quiet)
  next
    case (RegisterChild pid)
    obtain b q where q: "queue_child_pid (l_children l) pid = (b, q)" by (metis surj_pair)
    with h RegisterChild queue_child_ok [OF q] show ?thesis by (auto simp: register_child_def Let_def arm_ok_def safe_refl)
  next
    case (RecordCleanImage key)
    with h show ?thesis by (auto intro!: arm_quiet split: sum.splits)
  next
    case (RegDecide key v w)
    with h show ?thesis by (auto intro!: arm_quiet split: prod.splits)
  next
    case (RegWrite key v val)
    with h put_reg_keeps show ?thesis by (fastforce intro!: arm_quiet)
  next
    case (RegDeleteValue key v)
    with h put_reg_keeps show ?thesis by (fastforce intro!: arm_quiet)
  next
    case (RegDeleteKey key)
    with h put_reg_keeps show ?thesis by (fastforce intro!: arm_quiet)
  next
    case (NetDecide host port)
    obtain allow rid net where n: "handle_net_decide E' (p_db (l_policy l)) (p_net (l_policy l)) host port = ((allow, rid), net)"
      by (metis surj_pair)
    then show ?thesis using h NetDecide book(5) [of "l_policy l" net] by (auto simp: resp_net_decide_def arm_ok_def)
  qed (use h in \<open>auto intro!: arm_quiet\<close>)
qed

section \<open>Reachable states\<close>

lemma request_arm:
  "handle_request E client r (conn, l) = (resp, conn', l') \<longleftrightarrow>
     handle_arm E client conn r l = (resp, l') \<and> conn' = next_conn E client conn r l"
  by (auto simp: handle_request_def split: prod.splits)

lemma next_conn_cases: "next_conn E client conn r l = conn \<or> next_conn E client conn r l = Some client"
proof (cases r)
  case (Hello pid exe)
  obtain a b c where "handle_hello E client conn pid exe l = (a, b, c)" by (metis surj_pair)
  with Hello show ?thesis by (auto simp: next_conn_def elim!: hello_cases)
qed (simp_all add: next_conn_def)

text \<open>The table: only the root target has depth 0.\<close>

definition depths_ok :: "u32 \<Rightarrow> proc_table \<Rightarrow> bool" where
  "depths_ok root table \<longleftrightarrow> (\<forall>p i. table p = Some i \<longrightarrow> pi_depth i = 0 \<longrightarrow> p = root)"

text \<open>The identity of a connection is the process the kernel named.\<close>

definition conns_ok :: "conns \<Rightarrow> bool" where
  "conns_ok cs \<longleftrightarrow> (\<forall>i client conn. cs i = Some (client, conn) \<longrightarrow> conn = None \<or> conn = Some client)"

definition session_inv :: "('t, 'e) session_env_scheme \<Rightarrow> u32 \<Rightarrow> 't launcher \<times> conns \<Rightarrow> bool" where
  "session_inv E root s \<longleftrightarrow>
     confined E (l_policy (fst s)) \<and> queue_ok (l_children (fst s)) \<and> depths_ok root (l_procs (fst s)) \<and> conns_ok (snd s)"

lemma depths_pruned: "pruned E t t' \<Longrightarrow> depths_ok root t \<Longrightarrow> depths_ok root t'"
  unfolding pruned_def depths_ok_def by (metis option.distinct(1))

lemma depths_insert: "depths_ok root t \<Longrightarrow> (pi_depth i = 0 \<Longrightarrow> p = root) \<Longrightarrow> depths_ok root (t(p \<mapsto> i))"
  by (simp add: depths_ok_def)

lemma depths_request:
  assumes "handle_arm E client conn r l = (resp, l')" and ok: "depths_ok root (l_procs l)"
  shows "depths_ok root (l_procs l')"
proof (cases r)
  case (Hello pid exe)
  obtain a b c where hh: "handle_hello E client conn pid exe l = (a, b, c)" by (metis surj_pair)
  with assms(1) Hello have "c = l'" by simp
  from hh show ?thesis
  proof (cases rule: hello_cases)
    case (greeted exe_lower b' info)
    have "pi_depth info = 0 \<Longrightarrow> client = root"
      using greeted(8) ok new_depth_pos [of E "l_procs l" client] by (auto simp: depths_ok_def split: option.splits)
    with greeted(5) ok \<open>c = l'\<close> show ?thesis by (simp add: depths_insert)
  qed (use ok \<open>c = l'\<close> in simp)
next
  case (SpawnedChild parent child exe)
  with assms(1) have "handle_spawned_child E client conn parent child exe l = (resp, l')" by simp
  then show ?thesis
  proof (cases rule: spawned_cases)
    case (told b q info)
    then show ?thesis using ok by (auto intro!: depths_insert simp: child_depth_pos)
  qed (use ok in auto)
next
  case (Decide path w)
  with assms(1) have "handle_decide E client conn path w l = (resp, l')" by simp
  then show ?thesis by (cases rule: decide_cases) (use ok in auto)
next
  case (RecordOverlay orig ov)
  with assms show ?thesis by (auto simp: handle_record_overlay_def split: if_splits prod.splits sum.splits)
next
  case (ClearOverlay path)
  with assms put_policy_keeps show ?thesis by fastforce
next
  case (RecordWhiteout path)
  with assms put_policy_keeps show ?thesis by fastforce
next
  case (ClearWhiteout path)
  with assms put_policy_keeps show ?thesis by fastforce
next
  case (WhiteoutsUnder dir)
  with assms listing_keeps(1) [of E client dir l resp l'] show ?thesis by auto
next
  case (OverlayChildrenWithCase dir)
  with assms listing_keeps(2) [of E client dir l resp l'] show ?thesis by auto
next
  case (OverlayChildren dir)
  with assms listing_keeps(3) [of E client dir l resp l'] show ?thesis by auto
next
  case (RegisterChild pid)
  with assms show ?thesis by (auto simp: register_child_def Let_def split: prod.splits if_splits)
next
  case (RegWrite key v val)
  with assms put_reg_keeps show ?thesis by fastforce
next
  case (RegDeleteValue key v)
  with assms put_reg_keeps show ?thesis by fastforce
next
  case (RegDeleteKey key)
  with assms put_reg_keeps show ?thesis by fastforce
qed (use assms in \<open>auto split: sum.splits prod.splits\<close>)

lemma session_inv_step:
  assumes "session_step E root s s'" and "session_inv E root s"
  shows "session_inv E root s'"
  using assms
proof (induction rule: session_step.induct)
  case (admit E' rct job client l t cs i)
  then have "pruned E' (l_procs l) t" using admission_spec [of E' root rct client "l_procs l" _ job] by simp
  with admit show ?case by (auto simp: session_inv_def conns_ok_def dest: depths_pruned)
next
  case (refuse E' rct job client l t cs)
  then have "pruned E' (l_procs l) t" using admission_spec [of E' root rct client "l_procs l" _ job] by simp
  with refuse show ?case by (auto simp: session_inv_def dest: depths_pruned)
next
  case (operator E' op l resp l' cs)
  then show ?case using mutate_confined [OF operator(1,2)] by (simp add: session_inv_def)
next
  case (request E' cs i client conn r l resp conn' l')
  then have h: "handle_arm E' client conn r l = (resp, l')" "conn' = next_conn E' client conn r l" by (simp_all add: request_arm)
  have "arm_ok E l resp l'" by (rule arm_spec [OF request(1) h(1)])
  moreover have "conns_ok (cs(i \<mapsto> (client, conn')))"
    using request next_conn_cases [of E' client conn r l] h(2) by (auto simp: session_inv_def conns_ok_def)
  ultimately show ?case using request depths_request [OF h(1), of root]
    by (auto simp: session_inv_def arm_ok_def safe_step_def)
next
  case (closed l cs i)
  then show ?case by (auto simp: session_inv_def conns_ok_def)
next
  case (drained q l cs pid)
  then show ?case by (auto simp: session_inv_def queue_ok_def depths_ok_def)
qed

lemma session_inv_reach: "session_reach E root l s \<Longrightarrow> session_inv E root (l, Map.empty) \<Longrightarrow> session_inv E root s"
  by (induction rule: session_reach.induct) (auto intro: session_inv_step)

section \<open>Refusals\<close>

text \<open>A refusal leaves everything but the counters and the log, where it leaves a trace of the client.\<close>

definition refusal_logged :: "u32 \<Rightarrow> 't launcher \<Rightarrow> 't launcher \<Rightarrow> bool" where
  "refusal_logged client l l' \<longleftrightarrow>
     l_policy l' = l_policy l \<and> l_reg l' = l_reg l \<and> l_procs l' = l_procs l \<and> l_children l' = l_children l \<and>
     (\<exists>ks. ks \<noteq> [] \<and> l_events l' = l_events l @ map (\<lambda>k. (client, k)) ks \<and>
       st_violations (l_stats l') = st_violations (l_stats l) + of_nat (length ks))"

lemma refusal_one: "refusal_logged client l (violation client k l)"
  by (auto simp: refusal_logged_def violation_def count_violation_def intro!: exI [of _ "[k]"])

lemma refusal_more: "refusal_logged client l l1 \<Longrightarrow> refusal_logged client l (violation client k l1)"
  unfolding refusal_logged_def
proof (elim conjE exE)
  fix ks
  assume "ks \<noteq> []" "l_events l1 = l_events l @ map (\<lambda>k. (client, k)) ks"
    "st_violations (l_stats l1) = st_violations (l_stats l) + of_nat (length ks)"
  then have "\<exists>ks'. ks' \<noteq> [] \<and> l_events (violation client k l1) = l_events l @ map (\<lambda>k. (client, k)) ks' \<and>
      st_violations (l_stats (violation client k l1)) = st_violations (l_stats l) + of_nat (length ks')"
    by (intro exI [of _ "ks @ [k]"]) (simp add: violation_def count_violation_def)
  moreover assume "l_policy l1 = l_policy l" "l_reg l1 = l_reg l" "l_procs l1 = l_procs l" "l_children l1 = l_children l"
  ultimately show "l_policy (violation client k l1) = l_policy l \<and> l_reg (violation client k l1) = l_reg l \<and>
      l_procs (violation client k l1) = l_procs l \<and> l_children (violation client k l1) = l_children l \<and>
      (\<exists>ks. ks \<noteq> [] \<and> l_events (violation client k l1) = l_events l @ map (\<lambda>k. (client, k)) ks \<and>
        st_violations (l_stats (violation client k l1)) = st_violations (l_stats l) + of_nat (length ks))"
    by (simp add: violation_def count_violation_def)
qed

lemma refusal_counted:
  "refusal_logged client (count_hot f l) l' = refusal_logged client l l'"
  "refusal_logged client l l1 \<Longrightarrow> refusal_logged client l (count_hot f l1)"
  "refusal_logged client (count_stat (\<lambda>s. s\<lparr>st_decide := n s\<rparr>) l) l' = refusal_logged client l l'"
  by (simp_all add: refusal_logged_def count_hot_def count_stat_def)

lemma refusal_later: "refusal_logged client l (violation client k (count_hot f l))"
  "refusal_logged client l (violation client k (count_stat (\<lambda>s. s\<lparr>st_decide := n s\<rparr>) l))"
  using refusal_one [of client "count_hot f l" k] refusal_one [of client "count_stat (\<lambda>s. s\<lparr>st_decide := n s\<rparr>) l" k]
  by (simp_all add: refusal_counted)

lemmas refusals = refusal_one refusal_later refusal_more refusal_counted(2)

section \<open>The rules in force\<close>



lemma clear_whiteout_gen [simp]: "net_rules_gen (snd (clear_whiteout_body E k db)) = net_rules_gen db"
  by (simp add: clear_whiteout_body_def case_prod_beta Let_def)



lemma decide_gen [simp]:
  "p_db (snd (decide_with_context E p path w d e)) = p_db p" "p_net (snd (decide_with_context E p path w d e)) = p_net p"
  by (simp_all add: decide_with_context_def Let_def split: option.splits)

lemma registry_rules [simp]:
  "rg_snapshot (snd (set_entry E k n x rp)) = rg_snapshot rp" "rg_db (snd (set_entry E k n x rp)) = rg_db rp"
  "rg_snapshot (snd (delete_key_in_overlay E k rp)) = rg_snapshot rp" "rg_db (snd (delete_key_in_overlay E k rp)) = rg_db rp"
  "rg_snapshot (snd (reg_decide_with_context E rp k v w d e)) = rg_snapshot rp" "rg_db (snd (reg_decide_with_context E rp k v w d e)) = rg_db rp"
  by (simp_all add: set_entry_def delete_key_in_overlay_def finish_update_def reg_decide_with_context_def Let_def
      split: sum.splits option.splits)


lemma counters_reg [simp]:
  "l_reg (violation c k l) = l_reg l" "l_reg (count_violation l) = l_reg l" "l_reg (count_hot f l) = l_reg l" "l_reg (count_stat g l) = l_reg l"
  "l_reg (append_violation_record v l) = l_reg l"
  by (simp_all add: violation_def count_violation_def count_hot_def count_stat_def append_violation_record_def)








section \<open>A sample session\<close>

text \<open>The root target with process id 1 runs in the folder job; it says hello and asks for a decision.\<close>

definition session_sample :: "(string \<times> string) list session_env" where
  "session_sample = host_env.extend host_sample (session_env.fields (\<lambda>k. Inr ()) (\<lambda>p b. True) [])"

definition sample_launcher :: "(string \<times> string) list launcher" where
  "sample_launcher =
     \<lparr>l_policy = sample_policy, l_reg = reg_sample_policy,
      l_stats = \<lparr>st_decide = 0, st_redirect = 0, st_deny = 0, st_mock = 0, st_cow = 0, st_violations = 0\<rparr>,
      l_hot = no_stats, l_procs = [1 \<mapsto> \<lparr>pi_depth = 0, pi_exe = win ''c:|app.exe'', pi_create_time = 7\<rparr>],
      l_children = [], l_events = [], l_violations_log = []\<rparr>"

lemma session_sample_laws: "redb_lawful session_sample" "cache_lawful session_sample"
proof -
  have e: "tb_empty session_sample = tb_empty sample_fs" "tb_get session_sample = tb_get sample_fs" "tb_insert session_sample = tb_insert sample_fs"
    "tb_remove session_sample = tb_remove sample_fs" "tb_iter session_sample = tb_iter sample_fs"
    "tb_range_from session_sample = tb_range_from sample_fs" "cache_store session_sample = cache_store sample_fs"
    by (simp_all add: session_sample_def host_env.defs session_env.defs host_sample_def reg_env.defs reg_sample_def fs_env.defs)
  show "redb_lawful session_sample" using sample_fs_env(1) unfolding redb_lawful_def e .
  show "cache_lawful session_sample" using sample_fs_env(5) unfolding cache_lawful_def e .
qed

lemma sample_machine: "same_machine session_sample session_sample"
  by (simp add: same_machine_def session_sample_laws)

lemma sample_start: "session_inv session_sample 1 (sample_launcher, Map.empty)"
proof -
  have "tview session_sample (p_db sample_policy) = (\<lambda>_. Map.empty)"
    by (simp add: tview_def empty_database_def fun_eq_iff)
  then have "confined session_sample sample_policy" by (simp add: confined_def rows_mirrored_def)
  then show ?thesis by (simp add: session_inv_def sample_launcher_def queue_ok_def depths_ok_def conns_ok_def)
qed

lemma sample_session:
  obtains l cs where "session_reach session_sample 1 sample_launcher (l, cs)" "cs 0 = Some (1, Some 1)"
    "\<exists>info. l_procs l 1 = Some info"
proof -
  have a: "is_owned_client_pid session_sample 1 7 (Some (\<lambda>p. True)) 1 (l_procs sample_launcher) = (True, l_procs sample_launcher)"
    by (simp add: is_owned_client_pid_def)
  let ?l = "sample_launcher\<lparr>l_procs := l_procs sample_launcher\<rparr>"
  have r1: "session_reach session_sample 1 sample_launcher (?l, Map.empty(0 \<mapsto> (1, None)))"
    by (rule session_reach.step [OF session_reach.start session_step.admit [OF sample_machine a]]) simp
  have same: "?l = sample_launcher" by simp
  obtain resp conn l where h: "handle_hello session_sample 1 None 1 (win ''C:|App.exe'') sample_launcher = (resp, conn, l)" by (metis surj_pair)
  have img: "hello_exe_context session_sample 1 (win ''C:|App.exe'') \<noteq> None"
    by (simp add: hello_exe_context_def query_process_image_path_def session_sample_def host_env.defs session_env.defs host_sample_def reg_env.defs Let_def)
  from h have g: "conn = Some 1 \<and> (\<exists>info. l_procs l 1 = Some info)"
    by (cases rule: hello_cases) (use img in auto)
  have "handle_request session_sample 1 (Hello 1 (win ''C:|App.exe'')) (None, sample_launcher) = (resp, conn, l)"
    by (simp add: handle_request_def next_conn_def h)
  then have "session_reach session_sample 1 sample_launcher (l, (Map.empty(0 \<mapsto> (1, None)))(0 \<mapsto> (1, conn)))"
    by (intro session_reach.step [OF r1 [unfolded same]] session_step.request [OF sample_machine]) simp_all
  with g have "session_reach session_sample 1 sample_launcher (l, [0 \<mapsto> (1, Some 1)])" by auto
  with g show ?thesis using that [of l "[0 \<mapsto> (1, Some 1)]"] by simp
qed

section \<open>Properties\<close>

text \<open>
  C2: in every reachable state of the launcher, with guests sending any requests in any order and the operator
  changing rules in between, every row of the overlay index leads to the mirror of its own path, every cached
  decision leads to a mirror, connections carry the identity the kernel vouches for, only the root target has depth
  0, and the queue of reported children holds at most 4096 process ids.
\<close>

theorem session_invariant:
  assumes "session_reach E root l s" and "session_inv E root (l, Map.empty)"
  shows "session_inv E root s"
  using session_inv_reach [OF assms] .

theorem session_invariant_witness:
  "\<exists>l cs. session_reach session_sample 1 sample_launcher (l, cs) \<and> cs 0 = Some (1, Some 1) \<and> session_inv session_sample 1 (l, cs)"
proof -
  obtain l cs where "session_reach session_sample 1 sample_launcher (l, cs)" "cs 0 = Some (1, Some 1)" by (rule sample_session)
  with session_invariant [OF this(1) sample_start] show ?thesis by blast
qed

text \<open>
  C3: a guest gets a decision only after its handshake, for the depth and the executable the launcher keeps for the
  process the kernel named, and no guest but the root target is decided at depth 0; whatever guests recorded and the cache
  holds, the destination is the mirror of some path in the overlay or in the mock root.
\<close>

theorem guest_decision_confined:
  assumes "session_reach E root l\<^sub>0 (l, cs)" and "session_inv E root (l\<^sub>0, Map.empty)"
    and "cs i = Some (client, conn)" and "same_machine E E'" and "handle_request E' client r (conn, l) = (RDecision d, st)"
  shows "decision_mirrored E (l_policy l) d \<and> conn = Some client \<and>
    (\<exists>path w info. r = Decide path w \<and> l_procs l client = Some info \<and>
       d = fst (decide_with_context E' (l_policy l) path w (Some (pi_depth info)) (Some (pi_exe info))) \<and>
       (pi_depth info \<noteq> 0 \<or> client = root))"
proof -
  have inv: "session_inv E root (l, cs)" by (rule session_inv_reach [OF assms(1,2)])
  obtain conn' l' where st: "st = (conn', l')" by (cases st)
  then have h: "handle_arm E' client conn r l = (RDecision d, l')" using assms(5) by (simp add: request_arm)
  have mir: "decision_mirrored E (l_policy l) d"
    using arm_spec [OF assms(4) h] inv by (simp add: arm_ok_def session_inv_def)
  have c: "conn = None \<or> conn = Some client" using inv assms(3) by (simp add: session_inv_def conns_ok_def)
  obtain path w where r: "r = Decide path w"
  proof (cases r)
    case (Hello pid exe)
    obtain a b c where hh: "handle_hello E' client conn pid exe l = (a, b, c)" by (metis surj_pair)
    with h Hello have "a = RDecision d" by simp
    with hh show ?thesis by (auto elim!: hello_cases)
  next
    case (SpawnedChild parent child exe)
    with h have "handle_spawned_child E' client conn parent child exe l = (RDecision d, l')" by simp
    then show ?thesis by (cases rule: spawned_cases) simp_all
  next
    case (RecordOverlay orig ov)
    with h show ?thesis by (auto simp: handle_record_overlay_def split: if_splits prod.splits sum.splits)
  qed (use h that in \<open>auto dest!: put_policy_keeps put_reg_keeps
      simp: resp_whiteouts_def resp_overlay_children_with_case_def resp_overlay_children_def register_child_def Let_def
      split: prod.splits sum.splits if_splits\<close>)
  then have "handle_decide E' client conn path w l = (RDecision d, l')" using h by simp
  then show ?thesis
  proof (cases rule: decide_cases)
    case (decided depth exe d' p)
    from decided(1) c obtain info where "conn = Some client" "l_procs l client = Some info" "depth = pi_depth info" "exe = pi_exe info"
      by (auto simp: decide_context_def)
    moreover from this inv have "pi_depth info \<noteq> 0 \<or> client = root" by (auto simp: session_inv_def depths_ok_def)
    ultimately show ?thesis using decided r mir by auto
  qed simp
qed

theorem guest_decision_confined_witness:
  "\<exists>l cs d st. session_reach session_sample 1 sample_launcher (l, cs) \<and>
     handle_request session_sample 1 (Decide (win ''C:|F'') True) (Some 1, l) = (RDecision d, st) \<and>
     decision_mirrored session_sample (l_policy l) d"
proof -
  obtain l cs where s: "session_reach session_sample 1 sample_launcher (l, cs)" "cs 0 = Some (1, Some 1)" "\<exists>info. l_procs l 1 = Some info"
    by (rule sample_session)
  obtain resp l' where d: "handle_decide session_sample 1 (Some 1) (win ''C:|F'') True l = (resp, l')" by (metis surj_pair)
  then obtain dec where "resp = RDecision dec" using s(3) by (cases rule: decide_cases) (auto simp: decide_context_def)
  with d have "handle_request session_sample 1 (Decide (win ''C:|F'') True) (Some 1, l) = (RDecision dec, Some 1, l')"
    by (simp add: handle_request_def next_conn_def)
  with guest_decision_confined [OF s(1) sample_start s(2) sample_machine this] s(1) show ?thesis by blast
qed



text \<open>
  C15: a refused handshake, a refused report of a child, a decision asked for before the handshake and a
  rejected overlay record change nothing but the counters and the log, and each of them is logged and counted
  as a violation of the client.
\<close>

theorem refusals_are_violations:
  assumes "handle_arm E client conn r l = (RErr e, l')"
    and "(\<exists>pid exe. r = Hello pid exe) \<or> (\<exists>p c exe. r = SpawnedChild p c exe) \<or> (\<exists>path w. r = Decide path w) \<or>
      (\<exists>orig ov. r = RecordOverlay orig ov \<and> \<not> validate_record_overlay E (l_policy l) orig ov)"
  shows "refusal_logged client l l'"
  using assms(2)
proof (elim disjE exE conjE)
  fix pid exe assume "r = Hello pid exe"
  moreover obtain a b c where hh: "handle_hello E client conn pid exe l = (a, b, c)" by (metis surj_pair)
  ultimately have a: "a = RErr e" "c = l'" using assms(1) by simp_all
  then have "hello_exe_context E client exe = None" using hh by (auto elim!: hello_cases)
  with hh a show "refusal_logged client l l'"
    by (auto simp: handle_hello_def Let_def intro!: refusals split: if_splits)
next
  fix p c exe assume "r = SpawnedChild p c exe"
  with assms(1) have "handle_spawned_child E client conn p c exe l = (RErr e, l')" by simp
  then show "refusal_logged client l l'"
    by (cases rule: spawned_cases) (auto intro!: refusals)
next
  fix path w assume "r = Decide path w"
  with assms(1) have "handle_decide E client conn path w l = (RErr e, l')" by simp
  then show "refusal_logged client l l'"
    by (cases rule: decide_cases) (auto intro: refusals)
next
  fix orig ov assume "r = RecordOverlay orig ov" "\<not> validate_record_overlay E (l_policy l) orig ov"
  with assms(1) show "refusal_logged client l l'" by (auto simp: handle_record_overlay_def intro!: refusals)
qed

theorem refusals_are_violations_witness:
  "refusal_logged 1 sample_launcher (snd (handle_arm session_sample 1 None (Decide (win ''C:|F'') True) sample_launcher))"
proof -
  obtain e l' where "handle_arm session_sample 1 None (Decide (win ''C:|F'') True) sample_launcher = (RErr e, l')"
    by (simp add: handle_decide_def decide_context_def)
  moreover from refusals_are_violations [OF this] have "refusal_logged 1 sample_launcher l'" by blast
  ultimately show ?thesis by simp
qed

section \<open>What the handlers do beside their comments\<close>

text \<open>
  A process that comes back under a process id the table still knows keeps the old depth, the one of the root included:
  the handshake replaces the executable and the creation time without comparing them with the entry. With a
  folder job no other check removes the stale entry.
\<close>

theorem recycled_id_keeps_depth:
  assumes "l_procs l client = Some old" and "query_process_create_time E client = Some now" and "now \<noteq> pi_create_time old"
    and "query_process_image_path E client = Some img"
  shows "is_owned_client_pid E root rct (Some (\<lambda>p. True)) client (l_procs l) = (True, l_procs l) \<and>
    map_option pi_depth (l_procs (snd (snd (handle_hello E client conn pid exe l))) client) = Some (pi_depth old)"
proof -
  have "client \<noteq> 0" using assms(2) by (auto simp: query_process_create_time_def)
  moreover obtain resp conn' l' where h: "handle_hello E client conn pid exe l = (resp, conn', l')" by (metis surj_pair)
  then have "map_option pi_depth (l_procs l' client) = Some (pi_depth old)"
    by (cases rule: hello_cases) (use assms in \<open>auto simp: hello_exe_context_def Let_def\<close>)
  ultimately show ?thesis using h by (simp add: is_owned_client_pid_def)
qed

text \<open>
  A report of the parent that arrives after the child's own handshake replaces what the handshake established: when
  the image of the child cannot be queried at that moment, the executable that the parent claims is what the
  child's decisions are made for.
\<close>

theorem late_report_overrides_handshake:
  assumes "client \<noteq> 0" and "conn \<noteq> None" and "spawned_child_kinship E child client" and "query_process_image_path E child = None"
  shows "decide_context (l_procs (snd (handle_spawned_child E client conn client child claimed l))) (Some child) =
    Some (child_depth (case l_procs l client of Some p \<Rightarrow> pi_depth p | None \<Rightarrow> 0), fold_published E claimed)"
proof -
  obtain resp l' where h: "handle_spawned_child E client conn client child claimed l = (resp, l')" by (metis surj_pair)
  then show ?thesis
    by (cases rule: spawned_cases) (use assms h in \<open>auto simp: decide_context_def unwrap_or_def\<close>)
qed

end
