(* ===== verification/FolderSection.thy ===== *)
theory FolderSection
  imports CaseFold "HOL-Library.Multiset"
begin

text \<open>
  The section shared by all processes of one folder (\<^verbatim>\<open>winrsbox-ipc/src/folder_section.rs\<close>): the identity of the
  broker, its pipe and the trusted launchers, protected by a generation counter that is odd while a write is in
  progress. One writer, any number of readers in other processes; a writer can die at any point. Memory is a map
  of cells, and each volatile access reads or writes one cell; accesses are interleaved in program order.
\<close>

section \<open>Layout\<close>

datatype cell = CMagic | CVersion | CBrokerPid | CBrokerTime | CName nat | CLen | CPid nat | CTime nat

type_synonym section_mem = "cell \<Rightarrow> u64"

definition FOLDER_SECTION_MAGIC :: u32 where
  "FOLDER_SECTION_MAGIC = 0x42465257"

definition FOLDER_SECTION_VERSION :: u32 where
  "FOLDER_SECTION_VERSION = 1"

definition MAX_LAUNCHERS :: nat where
  "MAX_LAUNCHERS = 32"

definition PIPE_NAME_WCHARS :: nat where
  "PIPE_NAME_WCHARS = 128"

definition FOLDER_SECTION_SEQLOCK_MAX_RETRIES :: nat where
  "FOLDER_SECTION_SEQLOCK_MAX_RETRIES = 10000"

record folder_snapshot =
  sn_generation :: u64
  sn_broker_pid :: u32
  sn_broker_create_time :: u64
  sn_pipe_name :: string
  sn_launchers :: "(u32 \<times> u64) list"

datatype section_error =
    BadMagic u32 | BadVersion u32 | LaunchersLenOverflow u32 | PipeNameNotTerminated | SeqlockRetryExhausted nat
  | LaunchersFull | DuplicateLauncher u32 u64 | PipeNameTooLong nat | TooManyLaunchers nat

definition is_trusted_server :: "folder_snapshot \<Rightarrow> u32 \<Rightarrow> u64 \<Rightarrow> bool" where
  "is_trusted_server s pid ct \<longleftrightarrow>
     sn_broker_pid s = pid \<and> sn_broker_create_time s = ct \<or> list_ex (\<lambda>(p, t). p = pid \<and> t = ct) (sn_launchers s)"

definition encode_pipe_name :: "string \<Rightarrow> section_error + u16 list" where
  "encode_pipe_name name =
     (let wide = encode_utf16 (utf8_decode name) in
      if PIPE_NAME_WCHARS < length wide + 1 then Inl (PipeNameTooLong (length wide))
      else Inr (wide @ replicate (PIPE_NAME_WCHARS - length wide) 0))"

definition decode_pipe_name :: "u16 list \<Rightarrow> section_error + string" where
  "decode_pipe_name arr = (if 0 \<in> set arr then Inr (from_utf16_lossy (takeWhile (\<lambda>c. c \<noteq> 0) arr)) else Inl PipeNameNotTerminated)"

text \<open>The fields as they are read.\<close>

definition name_cells :: "section_mem \<Rightarrow> u16 list" where
  "name_cells m = map (\<lambda>i. ucast (m (CName i))) [0..<PIPE_NAME_WCHARS]"

definition len_cell :: "section_mem \<Rightarrow> u32" where
  "len_cell m = ucast (m CLen)"

definition slot_cells :: "section_mem \<Rightarrow> (u32 \<times> u64) list" where
  "slot_cells m = map (\<lambda>i. (ucast (m (CPid i)), m (CTime i))) [0..<MAX_LAUNCHERS]"

definition read_launchers_for_writer :: "section_mem \<Rightarrow> (u32 \<times> u64) list" where
  "read_launchers_for_writer m = take (min (unat (len_cell m)) MAX_LAUNCHERS) (slot_cells m)"

text \<open>The checks of \<^verbatim>\<open>snapshot\<close> on the values it read.\<close>

definition validate_payload :: "u64 \<Rightarrow> section_mem \<Rightarrow> section_error + folder_snapshot" where
  "validate_payload g m =
     (if (ucast (m CMagic) :: u32) \<noteq> FOLDER_SECTION_MAGIC then Inl (BadMagic (ucast (m CMagic)))
      else if (ucast (m CVersion) :: u32) \<noteq> FOLDER_SECTION_VERSION then Inl (BadVersion (ucast (m CVersion)))
      else if MAX_LAUNCHERS < unat (len_cell m) then Inl (LaunchersLenOverflow (len_cell m))
      else (case decode_pipe_name (name_cells m) of
          Inl e \<Rightarrow> Inl e
        | Inr name \<Rightarrow>
            Inr \<lparr>sn_generation = g, sn_broker_pid = ucast (m CBrokerPid), sn_broker_create_time = m CBrokerTime,
                 sn_pipe_name = name, sn_launchers = take (unat (len_cell m)) (slot_cells m)\<rparr>))"

section \<open>Writes\<close>

datatype section_op =
    SetBroker u32 u64 string
  | AddLauncher u32 u64
  | RemoveLauncher u32 u64
  | Rebuild u32 u64 string "(u32 \<times> u64) list"

definition name_stores :: "u16 list \<Rightarrow> (cell \<times> u64) list" where
  "name_stores arr = map (\<lambda>i. (CName i, ucast (arr ! i))) [0..<PIPE_NAME_WCHARS]"

definition broker_stores :: "u32 \<Rightarrow> u64 \<Rightarrow> u16 list \<Rightarrow> (cell \<times> u64) list" where
  "broker_stores pid ct arr = [(CBrokerPid, ucast pid), (CBrokerTime, ct)] @ name_stores arr"

definition slot_store :: "nat \<Rightarrow> u32 \<times> u64 \<Rightarrow> (cell \<times> u64) list" where
  "slot_store i s = [(CPid i, ucast (fst s)), (CTime i, snd s)]"

definition len_store :: "nat \<Rightarrow> cell \<times> u64" where
  "len_store n = (CLen, ucast (of_nat n :: u32))"

fun find_index :: "('a \<Rightarrow> bool) \<Rightarrow> 'a list \<Rightarrow> nat option" where
  "find_index P [] = None"
| "find_index P (x # xs) = (if P x then Some 0 else map_option Suc (find_index P xs))"

text \<open>
  The stores of one operation between its two bumps of the generation; \<open>Inr None\<close> is \<^verbatim>\<open>remove_launcher\<close> returning
  \<^verbatim>\<open>false\<close> without a write.
\<close>

fun section_stores :: "section_op \<Rightarrow> section_mem \<Rightarrow> section_error + (cell \<times> u64) list option" where
  "section_stores (SetBroker pid ct name) m =
     (case encode_pipe_name name of Inl e \<Rightarrow> Inl e | Inr arr \<Rightarrow> Inr (Some (broker_stores pid ct arr)))"
| "section_stores (AddLauncher pid ct) m =
     (let ls = read_launchers_for_writer m; len = length ls in
      if list_ex (\<lambda>(p, t). p = pid \<and> t = ct) ls then Inl (DuplicateLauncher pid ct)
      else if MAX_LAUNCHERS \<le> len then Inl LaunchersFull
      else Inr (Some (slot_store len (pid, ct) @ [len_store (len + 1)])))"
| "section_stores (RemoveLauncher pid ct) m =
     (let ls = read_launchers_for_writer m; len = length ls in
      case find_index (\<lambda>(p, t). p = pid \<and> t = ct) ls of
        None \<Rightarrow> Inr None
      | Some idx \<Rightarrow> Inr (Some ((if idx \<noteq> len - 1 then slot_store idx (ls ! (len - 1)) else []) @ [len_store (len - 1)])))"
| "section_stores (Rebuild pid ct name ls) m =
     (if MAX_LAUNCHERS < length ls then Inl (TooManyLaunchers (length ls))
      else (case encode_pipe_name name of
          Inl e \<Rightarrow> Inl e
        | Inr arr \<Rightarrow>
            Inr (Some ([(CMagic, ucast FOLDER_SECTION_MAGIC), (CVersion, ucast FOLDER_SECTION_VERSION)] @ broker_stores pid ct arr @
              concat (map (\<lambda>(i, s). slot_store i s) (List.enumerate 0 ls)) @ [len_store (length ls)]))))"

definition init_stores :: "u32 \<Rightarrow> u64 \<Rightarrow> string \<Rightarrow> section_error + (cell \<times> u64) list" where
  "init_stores pid ct name =
     (case encode_pipe_name name of
        Inl e \<Rightarrow> Inl e
      | Inr arr \<Rightarrow>
          Inr ([(CMagic, ucast FOLDER_SECTION_MAGIC), (CVersion, ucast FOLDER_SECTION_VERSION)] @ broker_stores pid ct arr @ [len_store 0]))"

definition apply_stores :: "section_mem \<Rightarrow> (cell \<times> u64) list \<Rightarrow> section_mem" where
  "apply_stores m sts = foldl (\<lambda>m (c, v). m(c := v)) m sts"

text \<open>The mark of a write in progress: \<^verbatim>\<open>begin_write\<close> adds one, \<^verbatim>\<open>rebuild\<close> also accepts a counter left odd.\<close>

fun begin_mark :: "section_op \<Rightarrow> u64 \<Rightarrow> u64" where
  "begin_mark (Rebuild pid ct name ls) g = g OR 1"
| "begin_mark _ g = g + 1"

section \<open>Snapshots\<close>

text \<open>
  The retry loop of \<^verbatim>\<open>snapshot\<close>, on what each turn reads: the counter, the payload, the counter again.
\<close>

fun snapshot_loop :: "nat \<Rightarrow> (u64 \<times> section_mem \<times> u64) list \<Rightarrow> section_error + folder_snapshot" where
  "snapshot_loop 0 reads = Inl (SeqlockRetryExhausted FOLDER_SECTION_SEQLOCK_MAX_RETRIES)"
| "snapshot_loop (Suc n) [] = Inl (SeqlockRetryExhausted FOLDER_SECTION_SEQLOCK_MAX_RETRIES)"
| "snapshot_loop (Suc n) ((g1, m, g2) # reads) =
     (if odd (unat g1) then snapshot_loop n reads
      else if g1 \<noteq> g2 then snapshot_loop n reads
      else validate_payload g1 m)"

definition section_snapshot :: "(u64 \<times> section_mem \<times> u64) list \<Rightarrow> section_error + folder_snapshot" where
  "section_snapshot reads = snapshot_loop FOLDER_SECTION_SEQLOCK_MAX_RETRIES reads"

section \<open>Interleavings\<close>

definition all_cells :: "cell list" where
  "all_cells = [CMagic, CVersion, CBrokerPid, CBrokerTime] @ map CName [0..<PIPE_NAME_WCHARS] @ [CLen] @
     concat (map (\<lambda>i. [CPid i, CTime i]) [0..<MAX_LAUNCHERS])"

datatype writer_phase = Quiet | Storing "(cell \<times> u64) list" | Dead

datatype reader_phase = Outside | Reading u64 section_mem "cell list" | Taken u64 section_mem

text \<open>\<open>ss_published\<close> is the history of completed writes, which no process reads.\<close>

record section_state =
  ss_generation :: u64
  ss_mem :: section_mem
  ss_writer :: writer_phase
  ss_readers :: "nat \<Rightarrow> reader_phase"
  ss_published :: "(u64 \<times> section_mem) list"

fun is_rebuild :: "section_op \<Rightarrow> bool" where
  "is_rebuild (Rebuild pid ct name ls) = True"
| "is_rebuild _ = False"

inductive section_step :: "section_state \<Rightarrow> section_state \<Rightarrow> bool" where
  begin_write: "ss_writer s = Quiet \<or> ss_writer s = Dead \<and> is_rebuild op \<Longrightarrow> section_stores op (ss_mem s) = Inr (Some sts) \<Longrightarrow>
     unat (ss_generation s) + 2 < 2 ^ 64 \<Longrightarrow>
     section_step s (s\<lparr>ss_generation := begin_mark op (ss_generation s), ss_writer := Storing sts\<rparr>)"
| store: "ss_writer s = Storing ((c, v) # sts) \<Longrightarrow> section_step s (s\<lparr>ss_mem := (ss_mem s)(c := v), ss_writer := Storing sts\<rparr>)"
| end_write: "ss_writer s = Storing [] \<Longrightarrow>
     section_step s (s\<lparr>ss_generation := ss_generation s + 1, ss_writer := Quiet,
       ss_published := (ss_generation s + 1, ss_mem s) # ss_published s\<rparr>)"
| writer_dies: "ss_writer s = Storing sts \<Longrightarrow> section_step s (s\<lparr>ss_writer := Dead\<rparr>)"
| read_first: "even (unat (ss_generation s)) \<Longrightarrow>
     section_step s (s\<lparr>ss_readers := (ss_readers s)(r := Reading (ss_generation s) (\<lambda>c. 0) all_cells)\<rparr>)"
| read_cell: "ss_readers s r = Reading g got todo \<Longrightarrow> c \<in> set todo \<Longrightarrow>
     section_step s (s\<lparr>ss_readers := (ss_readers s)(r := Reading g (got(c := ss_mem s c)) (removeAll c todo))\<rparr>)"
| read_again: "ss_readers s r = Reading g got [] \<Longrightarrow>
     section_step s (s\<lparr>ss_readers := (ss_readers s)(r := (if ss_generation s = g then Taken g got else Outside))\<rparr>)"

inductive section_reach :: "section_state \<Rightarrow> bool" where
  created: "init_stores pid ct name = Inr sts \<Longrightarrow>
     section_reach \<lparr>ss_generation = 0, ss_mem = apply_stores m sts, ss_writer = Quiet, ss_readers = (\<lambda>r. Outside),
       ss_published = [(0, apply_stores m sts)]\<rparr>"
| step: "section_reach s \<Longrightarrow> section_step s s' \<Longrightarrow> section_reach s'"

section \<open>The effect of the stores\<close>

lemma apply_stores_simps [simp]:
  "apply_stores m [] = m" "apply_stores m ((c, v) # sts) = apply_stores (m(c := v)) sts"
  "apply_stores m (xs @ ys) = apply_stores (apply_stores m xs) ys"
  by (simp_all add: apply_stores_def)

lemma apply_names:
  "apply_stores m (map (\<lambda>i. (CName i, f i)) [0..<n]) = (\<lambda>c. case c of CName i \<Rightarrow> if i < n then f i else m c | _ \<Rightarrow> m c)"
proof (induction n)
  case (Suc n)
  then show ?case by (auto simp: fun_eq_iff less_Suc_eq split: cell.split)
qed (auto simp: fun_eq_iff split: cell.split)

lemma apply_slot: "apply_stores m (slot_store i s) = m(CPid i := ucast (fst s), CTime i := snd s)"
  by (simp add: slot_store_def)

lemma apply_slots:
  "apply_stores m (concat (map (\<lambda>(i, s). slot_store i s) (List.enumerate k ls))) =
     (\<lambda>c. case c of
        CPid i \<Rightarrow> if k \<le> i \<and> i < k + length ls then ucast (fst (ls ! (i - k))) else m c
      | CTime i \<Rightarrow> if k \<le> i \<and> i < k + length ls then snd (ls ! (i - k)) else m c
      | _ \<Rightarrow> m c)"
proof (induction ls arbitrary: k m)
  case (Cons l ls)
  have i: "Suc k \<le> i \<and> i < Suc k + length ls \<Longrightarrow> (l # ls) ! (i - k) = ls ! (i - Suc k)" for i
    by (simp add: Suc_diff_le nth_Cons')
  have c: "k \<le> i \<and> i < k + length (l # ls) \<longleftrightarrow> i = k \<or> Suc k \<le> i \<and> i < Suc k + length ls" for i by auto
  show ?case by (auto simp: Cons.IH apply_slot fun_eq_iff c i split: cell.split)
qed (auto simp: fun_eq_iff split: cell.split)

lemma ucast_fits [simp]:
  "ucast (ucast (x :: u16) :: u64) = x" "ucast (ucast (y :: u32) :: u64) = y"
  by (auto intro!: bit_word_eqI simp: bit_simps)


lemma unat_small: "n < 2 ^ 32 \<Longrightarrow> unat (of_nat n :: u32) = n"
  by (simp add: unat_of_nat take_bit_nat_eq_self)

section \<open>Fields after a write\<close>

lemma encode_pipe_name_cases:
  "encode_pipe_name name = Inr arr \<Longrightarrow> length arr = PIPE_NAME_WCHARS \<and> 0 \<in> set arr \<and>
     takeWhile (\<lambda>c. c \<noteq> 0) arr = takeWhile (\<lambda>c. c \<noteq> 0) (encode_utf16 (utf8_decode name))"
proof -
  assume a: "encode_pipe_name name = Inr arr"
  define wide where "wide = encode_utf16 (utf8_decode name)"
  from a have arr: "arr = wide @ replicate (PIPE_NAME_WCHARS - length wide) 0" and l: "length wide < PIPE_NAME_WCHARS"
    by (auto simp: encode_pipe_name_def Let_def wide_def split: if_splits)
  have "takeWhile (\<lambda>c. c \<noteq> 0) (wide @ replicate n 0) = takeWhile (\<lambda>c. c \<noteq> 0) wide" for n
    by (cases n) (auto simp: takeWhile_append takeWhile_eq_all_conv [THEN iffD2])
  with arr l show ?thesis by (simp add: wide_def)
qed

lemma name_after_broker:
  "length arr = PIPE_NAME_WCHARS \<Longrightarrow> name_cells (apply_stores m (broker_stores pid ct arr)) = arr"
  by (rule nth_equalityI) (simp_all add: name_cells_def broker_stores_def name_stores_def apply_names)

lemma others_after_broker:
  "apply_stores m (broker_stores pid ct arr) CMagic = m CMagic" "apply_stores m (broker_stores pid ct arr) CVersion = m CVersion"
  "apply_stores m (broker_stores pid ct arr) CBrokerPid = ucast pid" "apply_stores m (broker_stores pid ct arr) CBrokerTime = ct"
  "apply_stores m (broker_stores pid ct arr) CLen = m CLen" "apply_stores m (broker_stores pid ct arr) (CPid i) = m (CPid i)"
  "apply_stores m (broker_stores pid ct arr) (CTime i) = m (CTime i)"
  by (simp_all add: broker_stores_def name_stores_def apply_names)

section \<open>Well-formed sections\<close>

definition section_wf :: "section_mem \<Rightarrow> bool" where
  "section_wf m \<longleftrightarrow>
     ucast (m CMagic) = FOLDER_SECTION_MAGIC \<and> ucast (m CVersion) = FOLDER_SECTION_VERSION \<and>
     unat (len_cell m) \<le> MAX_LAUNCHERS \<and> 0 \<in> set (name_cells m)"

definition payload_of :: "u64 \<Rightarrow> section_mem \<Rightarrow> folder_snapshot" where
  "payload_of g m =
     \<lparr>sn_generation = g, sn_broker_pid = ucast (m CBrokerPid), sn_broker_create_time = m CBrokerTime,
      sn_pipe_name = from_utf16_lossy (takeWhile (\<lambda>c. c \<noteq> 0) (name_cells m)), sn_launchers = read_launchers_for_writer m\<rparr>"

lemma validate_wf: "section_wf m \<Longrightarrow> validate_payload g m = Inr (payload_of g m)"
  by (simp add: section_wf_def validate_payload_def decode_pipe_name_def payload_of_def read_launchers_for_writer_def min_def)

lemma length_launchers: "length (read_launchers_for_writer m) = min (unat (len_cell m)) MAX_LAUNCHERS"
  by (simp add: read_launchers_for_writer_def slot_cells_def)

lemma launchers_nth:
  "i < length (read_launchers_for_writer m) \<Longrightarrow> read_launchers_for_writer m ! i = (ucast (m (CPid i)), m (CTime i))"
  by (simp add: length_launchers) (simp add: read_launchers_for_writer_def slot_cells_def)

lemma launchers_eqI:
  "unat (len_cell m) = length ls \<Longrightarrow> length ls \<le> MAX_LAUNCHERS \<Longrightarrow>
   (\<And>i. i < length ls \<Longrightarrow> (ucast (m (CPid i)), m (CTime i)) = ls ! i) \<Longrightarrow> read_launchers_for_writer m = ls"
  by (rule nth_equalityI) (simp_all add: length_launchers launchers_nth)

lemma len_after: "n \<le> MAX_LAUNCHERS \<Longrightarrow> unat (len_cell (m(CLen := ucast (of_nat n :: u32)))) = n"
  by (simp add: len_cell_def unat_small MAX_LAUNCHERS_def)

text \<open>The name that a reader gets back for a name that was published.\<close>

definition stored_name :: "string \<Rightarrow> string" where
  "stored_name name = from_utf16_lossy (takeWhile (\<lambda>c. c \<noteq> 0) (encode_utf16 (utf8_decode name)))"

type_synonym section_abs = "(u32 \<times> u64) \<times> string \<times> (u32 \<times> u64) multiset"

definition abs_section :: "folder_snapshot \<Rightarrow> section_abs" where
  "abs_section s = ((sn_broker_pid s, sn_broker_create_time s), sn_pipe_name s, mset (sn_launchers s))"

fun section_spec :: "section_op \<Rightarrow> section_abs \<Rightarrow> section_abs" where
  "section_spec (SetBroker pid ct name) (b, n, L) = ((pid, ct), stored_name name, L)"
| "section_spec (AddLauncher pid ct) (b, n, L) = (b, n, add_mset (pid, ct) L)"
| "section_spec (RemoveLauncher pid ct) (b, n, L) = (b, n, L - {#(pid, ct)#})"
| "section_spec (Rebuild pid ct name ls) (b, n, L) = ((pid, ct), stored_name name, mset ls)"

lemma find_index_Some: "find_index P xs = Some i \<Longrightarrow> i < length xs \<and> P (xs ! i)"
  by (induction xs arbitrary: i) (auto split: if_splits)

lemma swap_remove_mset:
  assumes "i < length xs"
  shows "mset (take (length xs - 1) (xs[i := last xs])) = mset xs - {#xs ! i#}"
proof -
  from assms obtain ys y where x: "xs = ys @ [y]" by (cases xs rule: rev_cases) auto
  show ?thesis
  proof (cases "i < length ys")
    case True
    then have "take (length xs - 1) (xs[i := last xs]) = ys[i := y]" by (simp add: x list_update_append)
    moreover from True have "mset (ys[i := y]) = add_mset y (mset ys - {#ys ! i#})" by (simp add: mset_update)
    moreover from True have "ys ! i \<in># mset ys" by simp
    ultimately show ?thesis using True by (simp add: x nth_append)
  next
    case False
    with assms have "i = length ys" by (simp add: x)
    then show ?thesis by (simp add: x list_update_append)
  qed
qed

section \<open>A write refines the abstract operation\<close>

lemma write_refines:
  assumes wf: "section_wf m \<or> is_rebuild op" and st: "section_stores op m = Inr (Some sts)"
  shows "section_wf (apply_stores m sts) \<and>
    abs_section (payload_of g' (apply_stores m sts)) = section_spec op (abs_section (payload_of g m))"
proof (cases op)
  case (SetBroker pid ct name)
  with wf have w: "section_wf m" by simp
  from st SetBroker obtain arr where arr: "encode_pipe_name name = Inr arr" and sts: "sts = broker_stores pid ct arr"
    by (auto split: sum.splits)
  note e = encode_pipe_name_cases [OF arr]
  have n: "name_cells (apply_stores m sts) = arr" using e by (simp add: sts name_after_broker)
  have l: "len_cell (apply_stores m sts) = len_cell m" by (simp add: sts len_cell_def others_after_broker)
  have "read_launchers_for_writer (apply_stores m sts) = read_launchers_for_writer m"
    by (simp add: read_launchers_for_writer_def l) (simp add: slot_cells_def sts others_after_broker)
  with w e n l show ?thesis
    by (simp add: SetBroker section_wf_def abs_section_def payload_of_def stored_name_def) (simp add: sts others_after_broker)
next
  case (AddLauncher pid ct)
  with wf have w: "section_wf m" by simp
  define ls where "ls = read_launchers_for_writer m"
  have len: "length ls = unat (len_cell m)" using w by (simp add: ls_def length_launchers section_wf_def min_def)
  from st AddLauncher have sts: "sts = slot_store (length ls) (pid, ct) @ [len_store (length ls + 1)]" and lt: "length ls < MAX_LAUNCHERS"
    by (auto simp: Let_def ls_def split: if_splits)
  define m' where "m' = apply_stores m sts"
  have m': "m' = m(CPid (length ls) := ucast pid, CTime (length ls) := ct, CLen := ucast (of_nat (length ls + 1) :: u32))"
    by (simp add: m'_def sts apply_slot len_store_def)
  have u: "unat (len_cell m') = length ls + 1" unfolding m' using lt by (intro len_after) simp
  have "read_launchers_for_writer m' = ls @ [(pid, ct)]"
    by (rule launchers_eqI) (use u lt len in \<open>auto simp: m' nth_append launchers_nth ls_def\<close>)
  moreover have "name_cells m' = name_cells m" by (simp add: name_cells_def m')
  ultimately show ?thesis using w u lt unfolding m'_def [symmetric]
    by (simp add: AddLauncher section_wf_def abs_section_def payload_of_def ls_def) (simp add: m')
next
  case (RemoveLauncher pid ct)
  with wf have w: "section_wf m" by simp
  define ls where "ls = read_launchers_for_writer m"
  have len: "length ls = unat (len_cell m)" "length ls \<le> MAX_LAUNCHERS"
    using w by (simp_all add: ls_def length_launchers section_wf_def min_def)
  from st RemoveLauncher obtain idx where i: "find_index (\<lambda>(p, t). p = pid \<and> t = ct) ls = Some idx"
    and sts: "sts = (if idx \<noteq> length ls - 1 then slot_store idx (ls ! (length ls - 1)) else []) @ [len_store (length ls - 1)]"
    by (auto simp: Let_def ls_def split: option.splits)
  from find_index_Some [OF i] have idx: "idx < length ls" "ls ! idx = (pid, ct)" by auto
  then have last: "ls ! (length ls - 1) = last ls" by (intro last_conv_nth [symmetric]) auto
  define m' where "m' = apply_stores m sts"
  have m': "m' = (if idx \<noteq> length ls - 1 then m(CPid idx := ucast (fst (last ls)), CTime idx := snd (last ls)) else m)
      (CLen := ucast (of_nat (length ls - 1) :: u32))"
    by (simp add: m'_def sts apply_slot len_store_def last [simplified])
  have u: "unat (len_cell m') = length ls - 1" unfolding m' using len by (intro len_after) simp
  have "read_launchers_for_writer m' = take (length ls - 1) (ls[idx := last ls])"
  proof (rule launchers_eqI)
    fix j assume "j < length (take (length ls - 1) (ls[idx := last ls]))"
    then have j: "j < length ls - 1" by simp
    then have "ls ! j = (ucast (m (CPid j)), m (CTime j))" by (simp add: ls_def launchers_nth)
    with j idx show "(ucast (m' (CPid j)), m' (CTime j)) = take (length ls - 1) (ls[idx := last ls]) ! j"
      by (auto simp: m' nth_list_update)
  qed (use u len in auto)
  then have "mset (read_launchers_for_writer m') = mset ls - {#(pid, ct)#}" using swap_remove_mset [OF idx(1)] idx(2) by simp
  moreover have "name_cells m' = name_cells m" by (simp add: name_cells_def m')
  moreover have "m' CMagic = m CMagic" "m' CVersion = m CVersion" "m' CBrokerPid = m CBrokerPid" "m' CBrokerTime = m CBrokerTime"
    by (simp_all add: m')
  ultimately show ?thesis using w u len unfolding m'_def [symmetric]
    by (simp add: RemoveLauncher section_wf_def abs_section_def payload_of_def ls_def)
next
  case (Rebuild pid ct name ls)
  from st Rebuild obtain arr where arr: "encode_pipe_name name = Inr arr" and le: "length ls \<le> MAX_LAUNCHERS"
    and sts: "sts = [(CMagic, ucast FOLDER_SECTION_MAGIC), (CVersion, ucast FOLDER_SECTION_VERSION)] @ broker_stores pid ct arr @
        concat (map (\<lambda>(i, s). slot_store i s) (List.enumerate 0 ls)) @ [len_store (length ls)]"
    by (auto split: sum.splits if_splits)
  note e = encode_pipe_name_cases [OF arr]
  define m1 where "m1 = apply_stores (m(CMagic := ucast FOLDER_SECTION_MAGIC, CVersion := ucast FOLDER_SECTION_VERSION)) (broker_stores pid ct arr)"
  define m' where "m' = apply_stores m sts"
  have m': "m' = (apply_stores m1 (concat (map (\<lambda>(i, s). slot_store i s) (List.enumerate 0 ls))))(CLen := ucast (of_nat (length ls) :: u32))"
    by (simp add: m'_def sts m1_def len_store_def)
  have u: "unat (len_cell m') = length ls" unfolding m' using le by (intro len_after) simp
  have "read_launchers_for_writer m' = ls"
    by (rule launchers_eqI) (use u le in \<open>auto simp: m' apply_slots\<close>)
  moreover have "name_cells m' = name_cells m1" by (simp add: name_cells_def m' apply_slots)
  then have "name_cells m' = arr" using e by (simp add: m1_def name_after_broker)
  moreover have "ucast (m' CMagic) = FOLDER_SECTION_MAGIC" "ucast (m' CVersion) = FOLDER_SECTION_VERSION"
    "ucast (m' CBrokerPid) = pid" "m' CBrokerTime = ct"
    by (simp_all add: m' apply_slots m1_def others_after_broker)
  ultimately show ?thesis using u le e unfolding m'_def [symmetric]
    by (simp add: Rebuild section_wf_def abs_section_def payload_of_def stored_name_def)
qed

lemma init_wf:
  assumes "init_stores pid ct name = Inr sts"
  shows "section_wf (apply_stores m sts)"
proof -
  from assms obtain arr where arr: "encode_pipe_name name = Inr arr"
    and sts: "sts = [(CMagic, ucast FOLDER_SECTION_MAGIC), (CVersion, ucast FOLDER_SECTION_VERSION)] @ broker_stores pid ct arr @ [len_store 0]"
    by (auto simp: init_stores_def split: sum.splits)
  note e = encode_pipe_name_cases [OF arr]
  define m1 where "m1 = apply_stores (m(CMagic := ucast FOLDER_SECTION_MAGIC, CVersion := ucast FOLDER_SECTION_VERSION)) (broker_stores pid ct arr)"
  have m': "apply_stores m sts = m1(CLen := ucast (of_nat 0 :: u32))" by (simp add: sts m1_def len_store_def)
  have "name_cells (m1(CLen := ucast (of_nat 0 :: u32))) = name_cells m1" by (simp add: name_cells_def)
  also have "\<dots> = arr" using e by (simp add: m1_def name_after_broker)
  finally show ?thesis using e unfolding m' section_wf_def
    by (simp add: len_cell_def) (simp add: m1_def others_after_broker)
qed

section \<open>The invariant of the protocol\<close>

lemma generation_parity:
  "unat (g :: u64) + 2 < 2 ^ 64 \<Longrightarrow> unat (g + 1) = Suc (unat g)"
  "even (unat g) \<Longrightarrow> g OR 1 = g + 1" "odd (unat g) \<Longrightarrow> g OR 1 = g"
proof -
  have e: "even (unat g) \<longleftrightarrow> even g" by transfer (simp add: even_nat_iff)
  show "even (unat g) \<Longrightarrow> g OR 1 = g + 1" "odd (unat g) \<Longrightarrow> g OR 1 = g" by (simp_all add: e or_one_eq)
  show "unat g + 2 < 2 ^ 64 \<Longrightarrow> unat (g + 1) = Suc (unat g)"
    by (subst unat_add_lem [THEN iffD1]) simp_all
qed

lemma mark_parity:
  assumes "unat g + 2 < 2 ^ 64" and "even (unat g) \<or> is_rebuild op"
  shows "odd (unat (begin_mark op g)) \<and> unat g \<le> unat (begin_mark op g) \<and> unat (begin_mark op g) + 1 < 2 ^ 64"
  using assms by (cases op; cases "even (unat g)") (auto simp: generation_parity)

text \<open>What a reader holds: cells read under the counter it started from, as long as the counter has not moved.\<close>

fun reader_ok :: "u64 \<Rightarrow> section_mem \<Rightarrow> (u64 \<times> section_mem) list \<Rightarrow> reader_phase \<Rightarrow> bool" where
  "reader_ok gen m pub Outside = True"
| "reader_ok gen m pub (Reading g got todo) =
     (even (unat g) \<and> unat g \<le> unat gen \<and> (gen = g \<longrightarrow> (\<forall>c \<in> set all_cells - set todo. got c = m c)))"
| "reader_ok gen m pub (Taken g got) = (\<exists>m'. (g, m') \<in> set pub \<and> (\<forall>c \<in> set all_cells. got c = m' c))"

fun writer_ok :: "u64 \<Rightarrow> section_mem \<Rightarrow> (u64 \<times> section_mem) list \<Rightarrow> writer_phase \<Rightarrow> bool" where
  "writer_ok gen m pub Quiet = (even (unat gen) \<and> (gen, m) \<in> set pub)"
| "writer_ok gen m pub (Storing sts) = (odd (unat gen) \<and> unat gen + 1 < 2 ^ 64 \<and> section_wf (apply_stores m sts))"
| "writer_ok gen m pub Dead = odd (unat gen)"

definition published_ok :: "u64 \<Rightarrow> (u64 \<times> section_mem) list \<Rightarrow> bool" where
  "published_ok gen pub \<longleftrightarrow>
     (\<forall>(g, m) \<in> set pub. even (unat g) \<and> unat g \<le> unat gen \<and> section_wf m) \<and>
     sorted_wrt (\<lambda>a b. unat (fst b) < unat (fst a)) pub"

definition section_inv :: "section_state \<Rightarrow> bool" where
  "section_inv s \<longleftrightarrow>
     published_ok (ss_generation s) (ss_published s) \<and>
     writer_ok (ss_generation s) (ss_mem s) (ss_published s) (ss_writer s) \<and>
     (\<forall>r. reader_ok (ss_generation s) (ss_mem s) (ss_published s) (ss_readers s r))"

lemma published_mono: "published_ok g pub \<Longrightarrow> unat g \<le> unat g' \<Longrightarrow> published_ok g' pub"
  by (fastforce simp: published_ok_def)

lemma published_wf: "published_ok gen pub \<Longrightarrow> (g, m) \<in> set pub \<Longrightarrow> section_wf m"
  by (auto simp: published_ok_def)

lemma published_unique:
  assumes "published_ok gen pub" and "(g, m') \<in> set pub" and "(g, m) \<in> set pub"
  shows "m' = m"
proof -
  have "sorted_wrt (\<lambda>a b. unat (fst b) < unat (fst a)) xs \<Longrightarrow> (g, m') \<in> set xs \<Longrightarrow> (g, m) \<in> set xs \<Longrightarrow> m' = m" for xs
    by (induction xs) auto
  with assms show ?thesis unfolding published_ok_def by blast
qed

lemma reader_moves:
  "reader_ok gen m pub p \<Longrightarrow> odd (unat gen') \<Longrightarrow> unat gen \<le> unat gen' \<Longrightarrow> reader_ok gen' m' pub p"
  by (cases p) auto

lemma reader_ends:
  assumes "reader_ok gen m pub p" and "odd (unat gen)" and "unat gen < unat gen'"
  shows "reader_ok gen' m pub' p \<or> (\<exists>g got. p = Taken g got)"
  using assms by (cases p) auto

lemma reader_new_pub: "reader_ok gen m pub (Taken g got) \<Longrightarrow> reader_ok gen' m' (x # pub) (Taken g got)"
  by auto

lemma published_add:
  assumes p: "published_ok gen pub" and o: "odd (unat gen)" and n: "unat gen' = Suc (unat gen)" and w: "section_wf m"
  shows "published_ok gen' ((gen', m) # pub)"
proof -
  have "\<forall>(g, m) \<in> set pub. unat g < unat gen'" using p n by (auto simp: published_ok_def)
  with p o n w show ?thesis by (auto simp: published_ok_def)
qed

lemma section_inv_reader:
  "section_inv s \<Longrightarrow> reader_ok (ss_generation s) (ss_mem s) (ss_published s) p \<Longrightarrow>
     section_inv (s\<lparr>ss_readers := (ss_readers s)(r := p)\<rparr>)"
  by (simp add: section_inv_def)

lemma reader_reads:
  "reader_ok gen m pub (Reading g got todo) \<Longrightarrow> reader_ok gen m pub (Reading g (got(c := m c)) (removeAll c todo))"
  by (cases "gen = g") auto

lemma section_inv_step:
  assumes inv: "section_inv s" and st: "section_step s s'"
  shows "section_inv s'"
proof -
  from inv have P: "published_ok (ss_generation s) (ss_published s)"
    and W: "writer_ok (ss_generation s) (ss_mem s) (ss_published s) (ss_writer s)"
    and R: "\<And>r. reader_ok (ss_generation s) (ss_mem s) (ss_published s) (ss_readers s r)"
    by (simp_all add: section_inv_def)
  from st show ?thesis
  proof cases
    case (begin_write op sts)
    have par: "even (unat (ss_generation s)) \<or> is_rebuild op" and wf: "section_wf (ss_mem s) \<or> is_rebuild op"
      using begin_write(2) W P by (auto dest: published_wf)
    define g' where "g' = begin_mark op (ss_generation s)"
    note kk = mark_parity [OF begin_write(4) par, folded g'_def]
    have k: "odd (unat g')" "unat (ss_generation s) \<le> unat g'" "unat g' + 1 < 2 ^ 64"
      by (fact kk [THEN conjunct1], fact kk [THEN conjunct2, THEN conjunct1], fact kk [THEN conjunct2, THEN conjunct2])
    have "writer_ok g' (ss_mem s) (ss_published s) (Storing sts)"
      using write_refines [OF wf begin_write(3), THEN conjunct1] k by simp
    then show ?thesis using published_mono [OF P k(2)] reader_moves [OF R k(1,2)]
      unfolding begin_write(1) g'_def [symmetric] section_inv_def by simp
  next
    case (store c v sts)
    with W have o: "odd (unat (ss_generation s))" by simp
    from W store P reader_moves [OF R o order_refl] show ?thesis by (simp add: section_inv_def)
  next
    case end_write
    with W have o: "odd (unat (ss_generation s))" and l: "unat (ss_generation s) + 1 < 2 ^ 64"
      and w: "section_wf (ss_mem s)" by simp_all
    define g' where "g' = ss_generation s + 1"
    have n: "unat g' = Suc (unat (ss_generation s))" unfolding g'_def using l by (subst unat_add_lem [THEN iffD1]) simp_all
    have "reader_ok g' (ss_mem s) ((g', ss_mem s) # ss_published s) (ss_readers s r)" for r
    proof (cases "\<exists>g got. ss_readers s r = Taken g got")
      case True
      then obtain g got where t: "ss_readers s r = Taken g got" by blast
      from R [of r] show ?thesis unfolding t by (rule reader_new_pub)
    next
      case False
      then show ?thesis using reader_ends [OF R [of r] o, of g'] n by simp
    qed
    with published_add [OF P o n w] o n show ?thesis by (simp add: end_write(1) section_inv_def g'_def [symmetric])
  next
    case (writer_dies sts)
    with W P R show ?thesis by (simp add: section_inv_def)
  next
    case (read_first r)
    then show ?thesis unfolding read_first(1) by (intro section_inv_reader [OF inv]) simp
  next
    case (read_cell r g got todo c)
    show ?thesis unfolding read_cell(1)
      by (rule section_inv_reader [OF inv reader_reads]) (use R [of r] read_cell(2) in simp)
  next
    case (read_again r g got)
    have r: "reader_ok (ss_generation s) (ss_mem s) (ss_published s) (Reading g got [])" using R [of r] read_again(2) by simp
    have "ss_writer s = Quiet" if "ss_generation s = g"
      using W r that by (cases "ss_writer s") simp_all
    with W r have "reader_ok (ss_generation s) (ss_mem s) (ss_published s) (if ss_generation s = g then Taken g got else Outside)"
      by (cases "ss_generation s = g") auto
    then show ?thesis unfolding read_again(1) by (rule section_inv_reader [OF inv])
  qed
qed

lemma section_inv_reach: "section_reach s \<Longrightarrow> section_inv s"
proof (induction rule: section_reach.induct)
  case (created pid ct name sts m)
  then show ?case by (simp add: section_inv_def published_ok_def init_wf)
qed (rule section_inv_step)

text \<open>The checks of a snapshot depend on the cells it reads and on nothing else.\<close>

lemma validate_cong:
  assumes eq: "\<And>c. c \<in> set all_cells \<Longrightarrow> m c = m' c"
  shows "validate_payload g m = validate_payload g m'"
proof -
  have f: "m CMagic = m' CMagic" "m CVersion = m' CVersion" "m CBrokerPid = m' CBrokerPid" "m CBrokerTime = m' CBrokerTime"
    "m CLen = m' CLen" "\<And>i. i < PIPE_NAME_WCHARS \<Longrightarrow> m (CName i) = m' (CName i)"
    "\<And>i. i < MAX_LAUNCHERS \<Longrightarrow> m (CPid i) = m' (CPid i)" "\<And>i. i < MAX_LAUNCHERS \<Longrightarrow> m (CTime i) = m' (CTime i)"
    by (rule eq; force simp: all_cells_def)+
  have "name_cells m = name_cells m'" "slot_cells m = slot_cells m'" by (simp_all add: name_cells_def slot_cells_def f)
  moreover have "len_cell m = len_cell m'" by (simp add: len_cell_def f)
  ultimately show ?thesis by (simp only: validate_payload_def f)
qed

section \<open>Runs that complete\<close>

lemma reach_steps: "section_step\<^sup>*\<^sup>* s s' \<Longrightarrow> section_reach s \<Longrightarrow> section_reach s'"
  by (induction rule: rtranclp_induct) (auto intro: section_reach.step)

lemma stores_run:
  "ss_writer s = Storing sts \<Longrightarrow> section_step\<^sup>*\<^sup>* s (s\<lparr>ss_mem := apply_stores (ss_mem s) sts, ss_writer := Storing []\<rparr>)"
proof (induction sts arbitrary: s)
  case Nil
  then have "s\<lparr>ss_mem := apply_stores (ss_mem s) [], ss_writer := Storing []\<rparr> = s" by simp
  then show ?case by simp
next
  case (Cons st sts)
  obtain c v where st: "st = (c, v)" by (cases st)
  define t where "t = s\<lparr>ss_mem := (ss_mem s)(c := v), ss_writer := Storing sts\<rparr>"
  have "section_step s t" unfolding t_def by (rule section_step.store) (simp add: Cons.prems st)
  moreover have "section_step\<^sup>*\<^sup>* t (t\<lparr>ss_mem := apply_stores (ss_mem t) sts, ss_writer := Storing []\<rparr>)"
    by (rule Cons.IH) (simp add: t_def)
  ultimately show ?case by (simp add: t_def st)
qed

lemma reads_run:
  "ss_readers s r = Reading g got todo \<Longrightarrow> \<exists>got'. section_step\<^sup>*\<^sup>* s (s\<lparr>ss_readers := (ss_readers s)(r := Reading g got' [])\<rparr>)"
proof (induction "length todo" arbitrary: s got todo rule: less_induct)
  case less
  show ?case
  proof (cases todo)
    case Nil
    with less.prems have "s\<lparr>ss_readers := (ss_readers s)(r := Reading g got [])\<rparr> = s" by (simp add: fun_upd_idem)
    then show ?thesis by (intro exI [of _ got]) simp
  next
    case (Cons c cs)
    define t where "t = s\<lparr>ss_readers := (ss_readers s)(r := Reading g (got(c := ss_mem s c)) (removeAll c todo))\<rparr>"
    have st: "section_step s t" unfolding t_def by (rule section_step.read_cell) (simp_all add: less.prems Cons)
    have rt: "ss_readers t r = Reading g (got(c := ss_mem s c)) (removeAll c cs)" by (simp add: t_def Cons)
    have "length (removeAll c cs) < length todo" by (simp add: Cons le_imp_less_Suc length_removeAll_less_eq)
    from less.hyps [OF this rt]
    obtain got' where "section_step\<^sup>*\<^sup>* t (t\<lparr>ss_readers := (ss_readers t)(r := Reading g got' [])\<rparr>)" by auto
    with st have "section_step\<^sup>*\<^sup>* s (t\<lparr>ss_readers := (ss_readers t)(r := Reading g got' [])\<rparr>)" by (rule converse_rtranclp_into_rtranclp)
    then show ?thesis by (intro exI [of _ got']) (simp add: t_def)
  qed
qed

text \<open>C16: A snapshot is never torn. What a reader has taken passes every check of \<^verbatim>\<open>snapshot\<close> and is the payload of
  one completed write, the only one with that generation, whatever the writer did meanwhile, its death in the middle of
  a write included.\<close>

theorem snapshot_untorn:
  assumes "section_reach s" and "ss_readers s r = Taken g got"
  shows "\<exists>m. (g, m) \<in> set (ss_published s) \<and> (\<forall>m'. (g, m') \<in> set (ss_published s) \<longrightarrow> m' = m) \<and>
    validate_payload g got = Inr (payload_of g m)"
proof -
  note inv = section_inv_reach [OF assms(1)]
  then have P: "published_ok (ss_generation s) (ss_published s)" by (simp add: section_inv_def)
  from inv have "reader_ok (ss_generation s) (ss_mem s) (ss_published s) (ss_readers s r)" by (simp add: section_inv_def)
  with assms(2) obtain m where m: "(g, m) \<in> set (ss_published s)" "\<forall>c \<in> set all_cells. got c = m c" by auto
  have "validate_payload g got = validate_payload g m" using m(2) by (intro validate_cong) simp
  with validate_wf [OF published_wf [OF P m(1)]] have v: "validate_payload g got = Inr (payload_of g m)" by simp
  have "m' = m" if "(g, m') \<in> set (ss_published s)" for m'
    by (rule published_unique [OF P that m(1)])
  with m(1) v show ?thesis by blast
qed

text \<open>A section on which one reader has taken a snapshot.\<close>

lemma quiet_read:
  assumes "section_reach s" and q: "ss_writer s = Quiet"
  shows "\<exists>s' got. section_step\<^sup>*\<^sup>* s s' \<and> ss_readers s' r = Taken (ss_generation s) got \<and> ss_published s' = ss_published s"
proof -
  from section_inv_reach [OF assms(1)] q have e: "even (unat (ss_generation s))" by (simp add: section_inv_def)
  define t where "t = s\<lparr>ss_readers := (ss_readers s)(r := Reading (ss_generation s) (\<lambda>c. 0) all_cells)\<rparr>"
  have 1: "section_step s t" unfolding t_def by (rule section_step.read_first) (rule e)
  have "ss_readers t r = Reading (ss_generation s) (\<lambda>c. 0) all_cells" by (simp add: t_def)
  from reads_run [OF this] obtain got where
    2: "section_step\<^sup>*\<^sup>* t (t\<lparr>ss_readers := (ss_readers t)(r := Reading (ss_generation s) got [])\<rparr>)" (is "section_step\<^sup>*\<^sup>* t ?u") by blast
  define v where "v = ?u\<lparr>ss_readers := (ss_readers ?u)(r := Taken (ss_generation s) got)\<rparr>"
  have "section_step ?u (?u\<lparr>ss_readers := (ss_readers ?u)(r := (if ss_generation ?u = ss_generation s then Taken (ss_generation s) got else Outside))\<rparr>)"
    by (rule section_step.read_again) simp
  then have 3: "section_step ?u v" by (simp add: v_def t_def)
  from 1 2 3 have "section_step\<^sup>*\<^sup>* s v" by (meson converse_rtranclp_into_rtranclp rtranclp.rtrancl_into_rtrancl)
  then show ?thesis by (intro exI [of _ v] exI [of _ got]) (simp add: v_def t_def)
qed

lemma sample_init: "\<exists>sts. init_stores 1 2 [] = Inr sts"
  by (simp add: init_stores_def encode_pipe_name_def utf8_decode.simps encode_utf16_def PIPE_NAME_WCHARS_def)

theorem snapshot_untorn_witness:
  "\<exists>s g got m. section_reach s \<and> ss_readers s 0 = Taken g got \<and> (g, m) \<in> set (ss_published s) \<and>
     validate_payload g got = Inr (payload_of g m)"
proof -
  from sample_init obtain sts where "init_stores 1 2 [] = Inr sts" ..
  from section_reach.created [OF this, of "\<lambda>c. 0"] obtain s where s: "section_reach s" "ss_writer s = Quiet" by auto
  from quiet_read [OF this, of 0] obtain s' got where
    s': "section_step\<^sup>*\<^sup>* s s'" "ss_readers s' 0 = Taken (ss_generation s) got" by blast
  from snapshot_untorn [OF reach_steps [OF s'(1) s(1)] s'(2)] reach_steps [OF s'(1) s(1)] s'(2) show ?thesis by blast
qed

text \<open>C17: Each operation of the broker, seen through a snapshot, does what its contract says to the broker identity, the
  pipe name and the set of launchers: \<^verbatim>\<open>set_broker\<close> keeps the launchers, \<^verbatim>\<open>add_launcher\<close> adds one, \<^verbatim>\<open>remove_launcher\<close>
  removes one occurrence although it moves the last slot, \<^verbatim>\<open>rebuild\<close> replaces everything even over a payload left in
  pieces.\<close>

theorem section_write_refines:
  assumes "section_wf m \<or> is_rebuild op" and "section_stores op m = Inr (Some sts)"
  shows "\<exists>sn. validate_payload g (apply_stores m sts) = Inr sn \<and> sn_generation sn = g \<and>
    abs_section sn = section_spec op (abs_section (payload_of g m))"
proof -
  note w = write_refines [OF assms, of g] write_refines [OF assms, of g, THEN conjunct1, THEN validate_wf, of g]
  have "abs_section (payload_of g' m) = abs_section (payload_of g m)" for g' by (simp add: abs_section_def payload_of_def)
  with w show ?thesis by (simp add: payload_of_def)
qed

lemma fresh_launchers:
  assumes "init_stores pid ct name = Inr sts"
  shows "read_launchers_for_writer (apply_stores m sts) = []"
proof -
  from assms have "\<exists>ys. sts = ys @ [len_store 0]" by (auto simp: init_stores_def split: sum.splits)
  then have "len_cell (apply_stores m sts) = 0" by (auto simp: len_store_def len_cell_def)
  then show ?thesis by (simp add: read_launchers_for_writer_def)
qed

theorem section_write_refines_witness:
  "\<exists>m sts sn. section_stores (AddLauncher 7 8) m = Inr (Some sts) \<and> validate_payload 2 (apply_stores m sts) = Inr sn \<and>
     sn_launchers sn = [(7, 8)]"
proof -
  from sample_init obtain sts0 where i: "init_stores 1 2 [] = Inr sts0" ..
  define m where "m = apply_stores (\<lambda>c. 0) sts0"
  have r: "read_launchers_for_writer m = []" unfolding m_def by (rule fresh_launchers [OF i])
  have w: "section_wf m" unfolding m_def by (rule init_wf [OF i])
  obtain sts where st: "section_stores (AddLauncher 7 8) m = Inr (Some sts)"
    by (simp add: r MAX_LAUNCHERS_def)
  from section_write_refines [OF _ this, of 2] w obtain sn where
    sn: "validate_payload 2 (apply_stores m sts) = Inr sn" "abs_section sn = section_spec (AddLauncher 7 8) (abs_section (payload_of 2 m))"
    by blast
  from sn(2) have "mset (sn_launchers sn) = {#(7, 8)#}" by (simp add: abs_section_def payload_of_def r)
  with st sn(1) show ?thesis by auto
qed

text \<open>C18: A broker that died in the middle of a write leaves nothing that its successor cannot repair: from any reachable
  state without a live writer, \<^verbatim>\<open>rebuild\<close> with at most \<open>MAX_LAUNCHERS\<close> launchers runs to its end and leaves a
  generation strictly above every earlier one, under which a snapshot yields exactly the identity and launchers it was
  given.\<close>

theorem rebuild_recovers:
  assumes "section_reach s" and "ss_writer s = Dead \<or> ss_writer s = Quiet" and "length ls \<le> MAX_LAUNCHERS"
    and "encode_pipe_name name = Inr arr" and "unat (ss_generation s) + 2 < 2 ^ 64"
  shows "\<exists>s' sn. section_step\<^sup>*\<^sup>* s s' \<and> ss_writer s' = Quiet \<and> unat (ss_generation s) < unat (ss_generation s') \<and>
    validate_payload (ss_generation s') (ss_mem s') = Inr sn \<and>
    abs_section sn = ((pid, ct), stored_name name, mset ls)"
proof -
  define op where "op = Rebuild pid ct name ls"
  have r: "is_rebuild op" by (simp add: op_def)
  obtain sts where st: "section_stores op (ss_mem s) = Inr (Some sts)" using assms(3,4) by (simp add: op_def)
  define g where "g = begin_mark op (ss_generation s)"
  define t where "t = s\<lparr>ss_generation := g, ss_writer := Storing sts\<rparr>"
  have 1: "section_step s t" unfolding t_def g_def
    by (rule section_step.begin_write) (use assms r st in auto)
  define u where "u = t\<lparr>ss_mem := apply_stores (ss_mem t) sts, ss_writer := Storing []\<rparr>"
  have 2: "section_step\<^sup>*\<^sup>* t u" unfolding u_def by (rule stores_run) (simp add: t_def)
  define v where "v = u\<lparr>ss_generation := ss_generation u + 1, ss_writer := Quiet,
      ss_published := (ss_generation u + 1, ss_mem u) # ss_published u\<rparr>"
  have 3: "section_step u v" unfolding v_def by (rule section_step.end_write) (simp add: u_def)
  from 1 2 3 have run: "section_step\<^sup>*\<^sup>* s v" by (meson converse_rtranclp_into_rtranclp rtranclp.rtrancl_into_rtrancl)
  from mark_parity [OF assms(5)] r have k: "unat (ss_generation s) \<le> unat g" "unat g + 1 < 2 ^ 64" unfolding g_def by blast+
  have gv: "ss_generation v = g + 1" by (simp add: v_def u_def t_def)
  have "unat (g + 1) = Suc (unat g)" using k by (subst unat_add_lem [THEN iffD1]) simp_all
  with k gv have gen: "unat (ss_generation s) < unat (ss_generation v)" by simp
  have m: "ss_mem v = apply_stores (ss_mem s) sts" by (simp add: v_def u_def t_def)
  from write_refines [OF disjI2 [OF r] st, of "ss_generation v"] validate_wf
  have w: "validate_payload (ss_generation v) (ss_mem v) = Inr (payload_of (ss_generation v) (ss_mem v))"
    and a: "abs_section (payload_of (ss_generation v) (ss_mem v)) = section_spec op (abs_section (payload_of (ss_generation v) (ss_mem s)))"
    unfolding m by blast+
  have "section_spec op x = ((pid, ct), stored_name name, mset ls)" for x by (cases x) (simp add: op_def)
  moreover have "ss_writer v = Quiet" by (simp add: v_def)
  ultimately show ?thesis using run gen w a by metis
qed

theorem rebuild_recovers_witness:
  "\<exists>s s' sn. section_reach s \<and> ss_writer s = Dead \<and> section_step\<^sup>*\<^sup>* s s' \<and>
     validate_payload (ss_generation s') (ss_mem s') = Inr sn \<and> sn_launchers sn = [(7, 8)]"
proof -
  from sample_init obtain sts where i: "init_stores 1 2 [] = Inr sts" ..
  from section_reach.created [OF i, of "\<lambda>c. 0"] obtain s0 where
    s0: "section_reach s0" "ss_writer s0 = Quiet" "ss_generation s0 = 0" "ss_mem s0 = apply_stores (\<lambda>c. 0) sts" by force
  from fresh_launchers [OF i] obtain ws where ws: "section_stores (AddLauncher 7 8) (ss_mem s0) = Inr (Some ws)"
    by (simp add: s0(4) MAX_LAUNCHERS_def)
  define s1 where "s1 = s0\<lparr>ss_generation := begin_mark (AddLauncher 7 8) (ss_generation s0), ss_writer := Storing ws\<rparr>"
  have "section_step s0 s1" unfolding s1_def by (rule section_step.begin_write [OF _ ws]) (simp_all add: s0)
  then have r1: "section_reach s1" by (rule section_reach.step [OF s0(1)])
  define s2 where "s2 = s1\<lparr>ss_writer := Dead\<rparr>"
  have "section_step s1 s2" unfolding s2_def by (rule section_step.writer_dies [of _ ws]) (simp add: s1_def)
  then have r2: "section_reach s2" by (rule section_reach.step [OF r1])
  have d: "ss_writer s2 = Dead" and g: "ss_generation s2 = 1" by (simp_all add: s2_def s1_def s0)
  obtain arr where arr: "encode_pipe_name [] = Inr arr"
    by (simp add: encode_pipe_name_def encode_utf16_def PIPE_NAME_WCHARS_def)
  from rebuild_recovers [OF r2 _ _ arr, of "[(7, 8)]" 3 4] d g obtain s' sn where
    "section_step\<^sup>*\<^sup>* s2 s'" "validate_payload (ss_generation s') (ss_mem s') = Inr sn"
    "abs_section sn = ((3, 4), stored_name [], mset [(7, 8)])" by (auto simp: MAX_LAUNCHERS_def)
  moreover from this(3) have "sn_launchers sn = [(7, 8)]" by (simp add: abs_section_def)
  ultimately show ?thesis using r2 d by blast
qed

definition settled_turn :: "u64 \<times> section_mem \<times> u64 \<Rightarrow> bool" where
  "settled_turn t = (case t of (g1, m, g2) \<Rightarrow> even (unat g1) \<and> g1 = g2)"

lemma snapshot_loop_find:
  "snapshot_loop n reads =
     (case List.find settled_turn (take n reads) of
        None \<Rightarrow> Inl (SeqlockRetryExhausted FOLDER_SECTION_SEQLOCK_MAX_RETRIES)
      | Some (g, m, _) \<Rightarrow> validate_payload g m)"
  by (induction n reads rule: snapshot_loop.induct) (auto simp: settled_turn_def)

text \<open>C19: \<^verbatim>\<open>snapshot\<close> always returns, after at most \<open>FOLDER_SECTION_SEQLOCK_MAX_RETRIES\<close> turns: the result is decided
  by the first turn that saw the same even generation before and after the payload, and is the error
  \<open>SeqlockRetryExhausted\<close> when no turn did.\<close>

theorem snapshot_decided_by_first_settled_turn:
  "section_snapshot reads =
     (case List.find settled_turn (take 10000 reads) of
        None \<Rightarrow> Inl (SeqlockRetryExhausted 10000)
      | Some (g, m, _) \<Rightarrow> validate_payload g m)"
  by (simp only: section_snapshot_def snapshot_loop_find FOLDER_SECTION_SEQLOCK_MAX_RETRIES_def)

end
