(* ===== verification/DirFilter.thy ===== *)
theory DirFilter
  imports Overlay
begin

text \<open>
  The buffers of directory queries (\<^verbatim>\<open>winrsbox-hook/src/fs/dir_filter/match.rs\<close> and the offset tables of
  \<^verbatim>\<open>dir_filter/mod.rs\<close>): removing hidden records, appending overlay records, restoring the case of names and
  measuring what is left, all in place in a buffer of linked records whose content a guest or the kernel wrote. A
  buffer is a map from offsets to bytes and every function gets the number of bytes it may touch.
\<close>

section \<open>Bytes\<close>

type_synonym membuf = "nat \<Rightarrow> u8"

text \<open>Unaligned little-endian loads and stores of \<open>n\<close> bytes; a store keeps the low bytes (\<^verbatim>\<open>as u32\<close>).\<close>

fun rd_le :: "nat \<Rightarrow> membuf \<Rightarrow> nat \<Rightarrow> nat" where
  "rd_le 0 m i = 0"
| "rd_le (Suc n) m i = unat (m i) + 256 * rd_le n m (Suc i)"

fun wr_le :: "nat \<Rightarrow> membuf \<Rightarrow> nat \<Rightarrow> nat \<Rightarrow> membuf" where
  "wr_le 0 m i v = m"
| "wr_le (Suc n) m i v = (wr_le n m (Suc i) (v div 256))(i := of_nat v)"

lemma rd_cong: "(\<And>k. k < n \<Longrightarrow> m (i + k) = m' (j + k)) \<Longrightarrow> rd_le n m i = rd_le n m' j"
proof (induction n arbitrary: i j)
  case (Suc n)
  have "rd_le n m (Suc i) = rd_le n m' (Suc j)" using Suc.prems [of "Suc _"] by (intro Suc.IH) simp
  with Suc.prems [of 0] show ?case by simp
qed simp

lemma wr_outside: "k < i \<or> i + n \<le> k \<Longrightarrow> wr_le n m i v k = m k"
  by (induction n arbitrary: i v) auto

lemma wr_inside: "k < n \<Longrightarrow> wr_le n m i v (i + k) = wr_le n m' i v (i + k)"
proof (induction n arbitrary: i v k)
  case (Suc n)
  then show ?case using Suc.IH [of "k - 1" "Suc i" "v div 256"] by (cases k) auto
qed simp

lemma wr_shift: "k < n \<Longrightarrow> wr_le n m i v (i + k) = wr_le n m' j v (j + k)"
proof (induction n arbitrary: i j v k)
  case (Suc n)
  then show ?case using Suc.IH [of "k - 1" "Suc i" "v div 256" "Suc j"] by (cases k) auto
qed simp

lemma rd_wr: "rd_le n (wr_le n m i v) i = v mod 256 ^ n"
proof (induction n arbitrary: i v)
  case (Suc n)
  have "rd_le n ((wr_le n m (Suc i) (v div 256))(i := of_nat v)) (Suc i) = rd_le n (wr_le n m (Suc i) (v div 256)) (Suc i)"
    by (rule rd_cong) simp
  also have "\<dots> = v div 256 mod 256 ^ n" by (rule Suc.IH)
  finally have tl: "rd_le n (wr_le (Suc n) m i v) (Suc i) = v div 256 mod 256 ^ n" by (simp only: wr_le.simps)
  have hd: "unat (wr_le (Suc n) m i v i) = v mod 256" by (simp add: unat_of_nat take_bit_eq_mod)
  have "v mod 256 ^ Suc n = v mod 256 + 256 * (v div 256 mod 256 ^ n)" by (simp add: mod_mult2_eq)
  then show ?case by (simp only: rd_le.simps tl hd)
qed simp

lemma rd_bound: "rd_le n m i < 256 ^ n"
proof (induction n arbitrary: i)
  case (Suc n)
  have "unat (m i) < 256" using unsigned_less [of "m i"] by simp
  with Suc.IH [of "Suc i"] show ?case by simp
qed simp

lemma rd_wr_apart: "i + k \<le> j \<or> j + n \<le> i \<Longrightarrow> rd_le k (wr_le n m j v) i = rd_le k m i"
  by (rule rd_cong) (auto intro: wr_outside)

section \<open>Layout of the records\<close>

definition dir_info_name_offsets :: "u32 \<Rightarrow> (nat \<times> nat) option" where
  "dir_info_name_offsets cls =
     (if cls = 1 then Some (0x3C, 0x40)
      else if cls = 2 then Some (0x3C, 0x44)
      else if cls = 3 then Some (0x3C, 0x5E)
      else if cls = 12 then Some (0x08, 0x0C)
      else if cls = 37 then Some (0x3C, 0x68)
      else if cls = 38 then Some (0x3C, 0x50)
      else None)"

definition dir_info_attr_offset :: "u32 \<Rightarrow> nat option" where
  "dir_info_attr_offset cls = (if cls \<in> {1, 2, 3, 37, 38} then Some 0x38 else None)"

record dir_info_times =
  to_creation_time :: nat
  to_last_access_time :: nat
  to_last_write_time :: nat
  to_end_of_file :: nat
  to_allocation_size :: nat

definition dir_info_time_offsets :: "u32 \<Rightarrow> dir_info_times option" where
  "dir_info_time_offsets cls =
     (if cls \<in> {1, 2, 3, 37, 38}
      then Some \<lparr>to_creation_time = 0x08, to_last_access_time = 0x10, to_last_write_time = 0x18,
                 to_end_of_file = 0x28, to_allocation_size = 0x30\<rparr>
      else None)"

definition FILE_ATTRIBUTE_DIRECTORY :: nat where
  "FILE_ATTRIBUTE_DIRECTORY = 0x10"

definition FILE_ATTRIBUTE_NORMAL :: nat where
  "FILE_ATTRIBUTE_NORMAL = 0x80"

definition ASSUMED_CLUSTER_SIZE :: nat where
  "ASSUMED_CLUSTER_SIZE = 4096"

text \<open>The UTF-16 units of a name, read one by one.\<close>

definition name_units :: "membuf \<Rightarrow> nat \<Rightarrow> nat \<Rightarrow> u16 list" where
  "name_units m p chars = map (\<lambda>i. of_nat (rd_le 2 m (p + 2 * i))) [0..<chars]"

section \<open>Names\<close>

definition fold_unit :: "u16 \<Rightarrow> u16" where
  "fold_unit u = (if 0x41 \<le> u \<and> u \<le> 0x5A then u + 0x20 else u)"

definition name_matches_any :: "u16 list \<Rightarrow> u16 list list \<Rightarrow> bool" where
  "name_matches_any us hide_names = list_ex (\<lambda>h. length us = length h \<and> list_all2 (\<lambda>a b. fold_unit a = fold_unit b) us h) hide_names"

definition dot_winrsbox_u16 :: "u16 list" where
  "dot_winrsbox_u16 = encode_utf16 (utf8_decode ''.winrsbox'')"

text \<open>
  The lower-case name by which records and overlay children are compared: every unit is decoded alone, so both
  halves of a surrogate pair become U+FFFD.
\<close>

definition unit_lower :: "u16 \<Rightarrow> nat" where
  "unit_lower u =
     (let c = (if 0xD800 \<le> unat u \<and> unat u < 0xE000 then 0xFFFD else unat u)
      in if 0x41 \<le> c \<and> c \<le> 0x5A then c + 32 else c)"

definition units_lower :: "u16 list \<Rightarrow> string" where
  "units_lower us = utf8_encode (map unit_lower us)"

section \<open>Walking a buffer\<close>

text \<open>\<^verbatim>\<open>collect_present_names_lower\<close>; \<open>avail\<close> is the number of bytes from \<open>cur\<close> to the end.\<close>

function collect_loop :: "nat \<Rightarrow> nat \<Rightarrow> membuf \<Rightarrow> nat \<Rightarrow> nat \<Rightarrow> string list" where
  "collect_loop nl no m cur avail =
     (if avail = 0 \<or> avail < nl + 4 then []
      else (let next_off = rd_le 4 m cur; name_len = rd_le 4 m (cur + nl);
                here = (if 2 \<le> name_len \<and> no + name_len \<le> avail
                        then [units_lower (name_units m (cur + no) (name_len div 2))] else [])
            in if next_off = 0 \<or> avail < next_off then here
               else here @ collect_loop nl no m (cur + next_off) (avail - next_off)))"
  by pat_completeness auto
termination
  by (relation "measure (\<lambda>(nl, no, m, cur, avail). avail)") auto

declare collect_loop.simps [simp del]

definition collect_present_names_lower :: "membuf \<Rightarrow> nat \<Rightarrow> u32 \<Rightarrow> string set" where
  "collect_present_names_lower m sz cls =
     (case dir_info_name_offsets cls of None \<Rightarrow> {} | Some (nl, no) \<Rightarrow> set (collect_loop nl no m 0 sz))"

function live_loop :: "nat \<Rightarrow> nat \<Rightarrow> membuf \<Rightarrow> nat \<Rightarrow> nat \<Rightarrow> nat" where
  "live_loop nl no m cur avail =
     (if avail < nl + 4 then cur
      else (let next_off = rd_le 4 m cur; name_len = rd_le 4 m (cur + nl)
            in if next_off = 0 then (if avail < no + name_len then cur else cur + no + name_len)
               else if avail < next_off then cur
               else live_loop nl no m (cur + next_off) (avail - next_off)))"
  by pat_completeness auto
termination
  by (relation "measure (\<lambda>(nl, no, m, cur, avail). avail)") auto

declare live_loop.simps [simp del]

definition buffer_live_size :: "membuf \<Rightarrow> nat \<Rightarrow> u32 \<Rightarrow> nat" where
  "buffer_live_size m mx cls =
     (case dir_info_name_offsets cls of
        None \<Rightarrow> mx
      | Some (nl, no) \<Rightarrow> if mx = 0 then 0 else live_loop nl no m 0 mx)"

section \<open>Removing hidden records\<close>

text \<open>\<^verbatim>\<open>ptr::copy(cur + off, cur, n)\<close>.\<close>

definition memmove :: "membuf \<Rightarrow> nat \<Rightarrow> nat \<Rightarrow> nat \<Rightarrow> membuf" where
  "memmove m dst src n = (\<lambda>i. if dst \<le> i \<and> i < dst + n then m (src + (i - dst)) else m i)"

text \<open>The result is whether something was removed, \<^verbatim>\<open>only_hidden\<close>, and the buffer.\<close>

function filter_loop ::
    "nat \<Rightarrow> nat \<Rightarrow> u16 list list \<Rightarrow> membuf \<Rightarrow> nat option \<Rightarrow> nat \<Rightarrow> nat \<Rightarrow> bool \<Rightarrow> bool \<times> bool \<times> membuf" where
  "filter_loop nl no hide m prev cur avail filtered =
     (if avail = 0 \<or> avail < nl + 4 then (filtered, False, m)
      else (let next_off = rd_le 4 m cur; name_len = rd_le 4 m (cur + nl) in
        if 2 \<le> name_len \<and> no + name_len \<le> avail \<and> name_matches_any (name_units m (cur + no) (name_len div 2)) hide
        then (case prev of
            Some p \<Rightarrow>
              (let m' = wr_le 4 m p (if next_off = 0 then 0 else rd_le 4 m p + next_off)
               in if next_off = 0 \<or> avail < next_off then (True, False, m')
                  else filter_loop nl no hide m' prev (cur + next_off) (avail - next_off) True)
          | None \<Rightarrow>
              if next_off = 0 then (True, True, m)
              else if avail < next_off then (True, False, m)
              else filter_loop nl no hide (memmove m cur (cur + next_off) (avail - next_off)) None cur (avail - next_off) True)
        else if next_off = 0 \<or> avail < next_off then (filtered, False, m)
        else filter_loop nl no hide m (Some cur) (cur + next_off) (avail - next_off) filtered))"
  by pat_completeness auto
termination
  by (relation "measure (\<lambda>(nl, no, hide, m, prev, cur, avail, filtered). avail)") auto

declare filter_loop.simps [simp del]

definition filter_entries :: "membuf \<Rightarrow> nat \<Rightarrow> u32 \<Rightarrow> u16 list list \<Rightarrow> bool \<times> bool \<times> membuf" where
  "filter_entries m total_size cls hide_names =
     (case dir_info_name_offsets cls of
        None \<Rightarrow> (False, False, m)
      | Some (nl, no) \<Rightarrow> filter_loop nl no hide_names m None 0 total_size False)"

section \<open>Appending overlay records\<close>

function tail_loop :: "membuf \<Rightarrow> nat \<Rightarrow> nat \<Rightarrow> nat option" where
  "tail_loop m cur avail =
     (if avail < 4 then None
      else (let next_off = rd_le 4 m cur
            in if next_off = 0 \<or> avail < next_off then Some cur else tail_loop m (cur + next_off) (avail - next_off)))"
  by pat_completeness auto
termination
  by (relation "measure (\<lambda>(m, cur, avail). avail)") auto

declare tail_loop.simps [simp del]

definition round8 :: "nat \<Rightarrow> nat" where
  "round8 n = (n + 7) div 8 * 8"

definition fill_zero :: "membuf \<Rightarrow> nat \<Rightarrow> nat \<Rightarrow> membuf" where
  "fill_zero m at n = (\<lambda>i. if at \<le> i \<and> i < at + n then 0 else m i)"

fun write_units :: "membuf \<Rightarrow> nat \<Rightarrow> u16 list \<Rightarrow> membuf" where
  "write_units m p [] = m"
| "write_units m p (u # us) = write_units (wr_le 2 m p (unat u)) (p + 2) us"

definition write_times :: "dir_info_times \<Rightarrow> file_stat \<Rightarrow> membuf \<Rightarrow> nat \<Rightarrow> membuf" where
  "write_times t s m at =
     (let m = wr_le 8 m (at + to_creation_time t) (unat (st_creation s));
          m = wr_le 8 m (at + to_last_access_time t) (unat (st_access s));
          m = wr_le 8 m (at + to_last_write_time t) (unat (st_write s));
          m = wr_le 8 m (at + to_end_of_file t) (unat (st_size s));
          alloc = (unat (st_size s) + (ASSUMED_CLUSTER_SIZE - 1)) div ASSUMED_CLUSTER_SIZE * ASSUMED_CLUSTER_SIZE
      in wr_le 8 m (at + to_allocation_size t) alloc)"

text \<open>One record at \<open>at\<close>, zero padded to \<open>aligned\<close> bytes.\<close>

definition write_entry :: "u32 \<Rightarrow> nat \<times> nat \<Rightarrow> overlay_child \<Rightarrow> u16 list \<Rightarrow> membuf \<Rightarrow> nat \<Rightarrow> nat \<Rightarrow> membuf" where
  "write_entry cls offs e us m at aligned =
     (let (nl, no) = offs;
          m = fill_zero m at aligned;
          m = wr_le 4 m at 0;
          m = wr_le 4 m (at + nl) (2 * length us);
          m = (case dir_info_attr_offset cls of
                 None \<Rightarrow> m
               | Some a \<Rightarrow> wr_le 4 m (at + a) (if st_is_dir (oc_stat e) then FILE_ATTRIBUTE_DIRECTORY else FILE_ATTRIBUTE_NORMAL));
          m = (case dir_info_time_offsets cls of None \<Rightarrow> m | Some t \<Rightarrow> write_times t (oc_stat e) m at)
      in write_units m (at + no) us)"

fun append_loop ::
    "u32 \<Rightarrow> nat \<times> nat \<Rightarrow> nat \<Rightarrow> overlay_child list \<Rightarrow> membuf \<Rightarrow> nat option \<Rightarrow> nat \<Rightarrow> nat \<times> membuf" where
  "append_loop cls offs capacity [] m prev write_at = (write_at, m)"
| "append_loop cls offs capacity (e # extra) m prev write_at =
     (let us = encode_utf16 (utf8_decode (oc_name e));
          aligned = round8 (snd offs + 2 * length us)
      in if capacity < write_at + aligned then (write_at, m)
         else
           (let m = write_entry cls offs e us m write_at aligned;
                m = (case prev of None \<Rightarrow> m | Some p \<Rightarrow> wr_le 4 m p (write_at - p))
            in append_loop cls offs capacity extra m (Some write_at) (write_at + aligned)))"

definition append_overlay_entries :: "membuf \<Rightarrow> nat \<Rightarrow> nat \<Rightarrow> u32 \<Rightarrow> overlay_child list \<Rightarrow> nat \<times> membuf" where
  "append_overlay_entries m used capacity cls extra =
     (case dir_info_name_offsets cls of
        None \<Rightarrow> (used, m)
      | Some offs \<Rightarrow>
          if extra = [] then (used, m)
          else append_loop cls offs capacity extra m (if 0 < used then tail_loop m 0 used else None) (round8 used))"

section \<open>Restoring the case of names\<close>

function rewrite_loop :: "nat \<Rightarrow> nat \<Rightarrow> (string \<Rightarrow> u16 list option) \<Rightarrow> membuf \<Rightarrow> nat \<Rightarrow> nat \<Rightarrow> membuf" where
  "rewrite_loop nl no case_map m cur avail =
     (if avail = 0 \<or> avail < nl + 4 then m
      else (let next_off = rd_le 4 m cur; name_len = rd_le 4 m (cur + nl); chars = name_len div 2;
                m' = (if 2 \<le> name_len \<and> no + name_len \<le> avail
                      then (case case_map (units_lower (name_units m (cur + no) chars)) of
                          Some correct \<Rightarrow> if length correct = chars then write_units m (cur + no) correct else m
                        | None \<Rightarrow> m)
                      else m)
            in if next_off = 0 \<or> avail < next_off then m'
               else rewrite_loop nl no case_map m' (cur + next_off) (avail - next_off)))"
  by pat_completeness auto
termination
  by (relation "measure (\<lambda>(nl, no, c, m, cur, avail). avail)") auto

declare rewrite_loop.simps [simp del]

definition rewrite_entry_case :: "membuf \<Rightarrow> nat \<Rightarrow> u32 \<Rightarrow> (string \<Rightarrow> u16 list option) \<Rightarrow> membuf" where
  "rewrite_entry_case m total_size cls case_map =
     (case dir_info_name_offsets cls of None \<Rightarrow> m | Some (nl, no) \<Rightarrow> rewrite_loop nl no case_map m 0 total_size)"

text \<open>
  \<^verbatim>\<open>build_case_map_with_fallback\<close>: the names of the directory on disk (\<open>None\<close> when it cannot be read), then those of the
  overlay. A directory name that is not valid Unicode is no name for \<open>to_str\<close> and is absent from \<open>names\<close>.
\<close>

definition build_case_map :: "string list option \<Rightarrow> (string \<times> string) list option \<Rightarrow> (string \<Rightarrow> u16 list option) option" where
  "build_case_map read_dir overlay_pairs =
     (let names = unwrap_or read_dir [];
          mp = foldl (\<lambda>mp n. mp(to_ascii_lowercase n \<mapsto> encode_utf16 (utf8_decode n))) Map.empty names;
          pairs = unwrap_or overlay_pairs [];
          mp = foldl (\<lambda>mp (l, orig). if mp l = None then mp(l \<mapsto> encode_utf16 (utf8_decode orig)) else mp) mp pairs
      in if names = [] \<and> pairs = [] then None else Some mp)"

section \<open>Name patterns of a query\<close>

text \<open>The two-pointer loop of \<^verbatim>\<open>filename_matches_pattern\<close> on code points; \<open>star\<close> remembers the last \<open>*\<close>.\<close>

function skip_pattern_stars :: "nat list \<Rightarrow> nat \<Rightarrow> nat" where
  "skip_pattern_stars p pi = (if pi < length p \<and> p ! pi = 42 then skip_pattern_stars p (pi + 1) else pi)"
  by pat_completeness auto
termination
  by (relation "measure (\<lambda>(p, pi). length p - pi)") auto

declare skip_pattern_stars.simps [simp del]

function name_pattern_loop :: "nat list \<Rightarrow> nat list \<Rightarrow> nat \<Rightarrow> nat \<Rightarrow> (nat \<times> nat) option \<Rightarrow> bool" where
  "name_pattern_loop n p ni pi st =
     (if ni < length n then
        if pi < length p \<and> (p ! pi = 63 \<or> p ! pi = n ! ni) then name_pattern_loop n p (ni + 1) (pi + 1) st
        else if pi < length p \<and> p ! pi = 42 then name_pattern_loop n p ni (pi + 1) (Some (pi + 1, ni))
        else (case st of
            Some (sp, sn) \<Rightarrow> name_pattern_loop n p (sn + 1) sp (Some (sp, sn + 1))
          | None \<Rightarrow> False)
      else skip_pattern_stars p pi = length p)"
  by pat_completeness auto

text \<open>As for the loops of Glob: the remembered star moves right, or its name position does, or the pattern advances.\<close>

definition pattern_rank :: "nat \<Rightarrow> nat \<Rightarrow> nat \<Rightarrow> (nat \<times> nat) option \<Rightarrow> nat" where
  "pattern_rank n pi ni st =
     (case st of None \<Rightarrow> n + 1 | Some (sp, sn) \<Rightarrow> if sp \<le> pi \<and> sn \<le> ni then n - sp else n + 2)"

termination name_pattern_loop
  by (relation "measures [\<lambda>(n, p, ni, pi, st). pattern_rank (length p) pi ni st,
        \<lambda>(n, p, ni, pi, st). length n - (case st of None \<Rightarrow> 0 | Some (sp, sn) \<Rightarrow> sn),
        \<lambda>(n, p, ni, pi, st). length p - pi]")
    (auto simp: pattern_rank_def split: option.splits if_splits)

declare name_pattern_loop.simps [simp del]

definition filename_matches_pattern :: "string \<Rightarrow> string \<Rightarrow> bool" where
  "filename_matches_pattern name pattern = name_pattern_loop (utf8_decode name) (utf8_decode pattern) 0 0 None"

text \<open>\<^verbatim>\<open>extract_search_pattern\<close> on the units of the \<^verbatim>\<open>FileName\<close> argument; \<open>None\<close> is a null pointer or buffer.\<close>

definition extract_search_pattern :: "u16 list option \<Rightarrow> string option" where
  "extract_search_pattern p =
     (case p of None \<Rightarrow> None | Some us \<Rightarrow> if us = [] then None else Some (from_utf16_lossy us))"

section \<open>Well-formed chains\<close>

text \<open>
  A record at \<open>c\<close> with \<open>a\<close> bytes left: its name lies inside, and the next record, if any, begins behind the name.
  The offsets of the fields are those of one information class.
\<close>

function well_chain :: "nat \<Rightarrow> nat \<Rightarrow> membuf \<Rightarrow> nat \<Rightarrow> nat \<Rightarrow> bool" where
  "well_chain nl no m c a =
     (let next_off = rd_le 4 m c; name_len = rd_le 4 m (c + nl)
      in if a < no + name_len then False
         else if next_off = 0 then True
         else if next_off < no + name_len \<or> a \<le> next_off then False
         else well_chain nl no m (c + next_off) (a - next_off))"
  by pat_completeness auto
termination
  by (relation "measure (\<lambda>(nl, no, m, c, a). a)") auto

declare well_chain.simps [simp del]

lemma well_chain_cases:
  "well_chain nl no m c a \<Longrightarrow>
     no + rd_le 4 m (c + nl) \<le> a \<and>
     (rd_le 4 m c = 0 \<or> no + rd_le 4 m (c + nl) \<le> rd_le 4 m c \<and> rd_le 4 m c < a \<and> well_chain nl no m (c + rd_le 4 m c) (a - rd_le 4 m c))"
  by (subst (asm) well_chain.simps) (auto simp: Let_def split: if_splits)

text \<open>An entry is what a record says: its bytes behind the link field, and its name.\<close>

type_synonym dir_entry = "u8 list \<times> u16 list"

definition entry_at :: "nat \<Rightarrow> nat \<Rightarrow> membuf \<Rightarrow> nat \<Rightarrow> dir_entry" where
  "entry_at nl no m c =
     (let name_len = rd_le 4 m (c + nl) in (map (\<lambda>i. m (c + i)) [4..<no + name_len], name_units m (c + no) (name_len div 2)))"

function entries :: "nat \<Rightarrow> nat \<Rightarrow> membuf \<Rightarrow> nat \<Rightarrow> nat \<Rightarrow> dir_entry list" where
  "entries nl no m c a =
     (let next_off = rd_le 4 m c
      in if next_off = 0 \<or> a \<le> next_off then [entry_at nl no m c]
         else entry_at nl no m c # entries nl no m (c + next_off) (a - next_off))"
  by pat_completeness auto
termination
  by (relation "measure (\<lambda>(nl, no, m, c, a). a)") auto

declare entries.simps [simp del]

text \<open>The offsets of every information class: the length field lies behind the link and before the name.\<close>

definition lawful_offsets :: "nat \<times> nat \<Rightarrow> bool" where
  "lawful_offsets offs \<longleftrightarrow> (case offs of (nl, no) \<Rightarrow> 4 \<le> nl \<and> nl + 4 \<le> no)"

lemma dir_info_lawful: "dir_info_name_offsets cls = Some offs \<Longrightarrow> lawful_offsets offs"
  by (auto simp: dir_info_name_offsets_def lawful_offsets_def split: if_splits)

lemma name_units_cong:
  "(\<And>k. k < 2 * n \<Longrightarrow> m (i + k) = m' (j + k)) \<Longrightarrow> name_units m i n = name_units m' j n"
  unfolding name_units_def by (intro map_cong refl arg_cong [where f = of_nat] rd_cong) (simp add: add.assoc)

lemma entry_cong:
  assumes l: "lawful_offsets (nl, no)" and n: "no + rd_le 4 m (c + nl) \<le> a"
    and eq: "\<And>k. 4 \<le> k \<Longrightarrow> k < a \<Longrightarrow> m' (c' + k) = m (c + k)"
  shows "rd_le 4 m' (c' + nl) = rd_le 4 m (c + nl) \<and> entry_at nl no m' c' = entry_at nl no m c"
proof -
  have r: "rd_le 4 m' (c' + nl) = rd_le 4 m (c + nl)"
    by (rule rd_cong) (use l n eq [of "nl + _"] in \<open>auto simp: lawful_offsets_def add.assoc\<close>)
  have "name_units m' (c' + no) (rd_le 4 m (c + nl) div 2) = name_units m (c + no) (rd_le 4 m (c + nl) div 2)"
    by (rule name_units_cong) (use l n eq [of "no + _"] in \<open>auto simp: lawful_offsets_def add.assoc\<close>)
  moreover have "map (\<lambda>i. m' (c' + i)) [4..<no + rd_le 4 m (c + nl)] = map (\<lambda>i. m (c + i)) [4..<no + rd_le 4 m (c + nl)]"
    using n eq by simp
  ultimately show ?thesis by (simp add: entry_at_def r Let_def del: map_eq_conv)
qed

text \<open>A chain is determined by its bytes, wherever they are.\<close>

lemma chain_cong:
  assumes l: "lawful_offsets (nl, no)"
  shows "well_chain nl no m c a \<Longrightarrow> (\<And>k. k < a \<Longrightarrow> m' (c' + k) = m (c + k)) \<Longrightarrow>
    well_chain nl no m' c' a \<and> entries nl no m' c' a = entries nl no m c a"
proof (induction a arbitrary: c c' rule: less_induct)
  case (less a)
  let ?next = "rd_le 4 m c" and ?len = "rd_le 4 m (c + nl)"
  note w = less.prems(1) [THEN well_chain_cases]
  have n: "no + ?len \<le> a" and four: "4 \<le> no" using w l by (auto simp: lawful_offsets_def)
  have nx: "rd_le 4 m' c' = ?next" by (rule rd_cong) (use less.prems(2) n four in auto)
  have e: "rd_le 4 m' (c' + nl) = ?len \<and> entry_at nl no m' c' = entry_at nl no m c"
    by (rule entry_cong [OF l n]) (rule less.prems(2))
  show ?case
  proof (cases "?next = 0")
    case True
    with e n nx show ?thesis by (simp add: well_chain.simps [of nl no m' c' a] entries.simps [of nl no _ _ a])
  next
    case False
    with w have t: "no + ?len \<le> ?next" "?next < a" "well_chain nl no m (c + ?next) (a - ?next)" by auto
    have "well_chain nl no m' (c' + ?next) (a - ?next) \<and> entries nl no m' (c' + ?next) (a - ?next) = entries nl no m (c + ?next) (a - ?next)"
      by (rule less.IH [OF _ t(3)]) (use t False less.prems(2) [of "?next + _"] in \<open>auto simp: add.assoc\<close>)
    with e n nx t False show ?thesis by (simp add: well_chain.simps [of nl no m' c' a] entries.simps [of nl no _ _ a])
  qed
qed

lemma well_chain_mono:
  "well_chain nl no m c a \<Longrightarrow> a \<le> a' \<Longrightarrow> well_chain nl no m c a' \<and> entries nl no m c a' = entries nl no m c a"
proof (induction a arbitrary: c a' rule: less_induct)
  case (less a)
  note w = less.prems(1) [THEN well_chain_cases]
  show ?case
  proof (cases "rd_le 4 m c = 0")
    case True
    with w less.prems(2) show ?thesis by (simp add: well_chain.simps [of nl no m c a'] entries.simps [of nl no m c])
  next
    case False
    with w have t: "rd_le 4 m c < a" "well_chain nl no m (c + rd_le 4 m c) (a - rd_le 4 m c)" "a - rd_le 4 m c < a" by auto
    from less.IH [OF t(3,2), of "a' - rd_le 4 m c"] less.prems(2) w False t(1)
    show ?thesis by (simp add: well_chain.simps [of nl no m c a'] entries.simps [of nl no m c])
  qed
qed

lemma entries_step:
  assumes "well_chain nl no m c a"
  shows "entries nl no m c a =
    (if rd_le 4 m c = 0 then [entry_at nl no m c] else entry_at nl no m c # entries nl no m (c + rd_le 4 m c) (a - rd_le 4 m c))"
  using well_chain_cases [OF assms] by (auto simp: entries.simps [of nl no m c a] Let_def)

section \<open>Removing hidden records is exact\<close>

definition hidden_entry :: "u16 list list \<Rightarrow> dir_entry \<Rightarrow> bool" where
  "hidden_entry hide e \<longleftrightarrow> snd e \<noteq> [] \<and> name_matches_any (snd e) hide"

lemma hidden_entry_at:
  "no + rd_le 4 m (c + nl) \<le> a \<Longrightarrow>
   hidden_entry hide (entry_at nl no m c) \<longleftrightarrow>
     2 \<le> rd_le 4 m (c + nl) \<and> no + rd_le 4 m (c + nl) \<le> a \<and> name_matches_any (name_units m (c + no) (rd_le 4 m (c + nl) div 2)) hide"
  by (auto simp: hidden_entry_def entry_at_def Let_def name_units_def)

text \<open>The record at \<open>p\<close> is the last one kept; behind it follow exactly the records \<open>es\<close>.\<close>

definition follows :: "nat \<Rightarrow> nat \<Rightarrow> membuf \<Rightarrow> nat \<Rightarrow> nat \<Rightarrow> nat \<Rightarrow> dir_entry list \<Rightarrow> bool" where
  "follows nl no m p c e es \<longleftrightarrow>
     (if es = [] then rd_le 4 m p = 0
      else c \<le> p + rd_le 4 m p \<and> p + rd_le 4 m p < e \<and>
        well_chain nl no m (p + rd_le 4 m p) (e - (p + rd_le 4 m p)) \<and> entries nl no m (p + rd_le 4 m p) (e - (p + rd_le 4 m p)) = es)"

lemma follows_mono: "follows nl no m p c' e es \<Longrightarrow> c \<le> c' \<Longrightarrow> follows nl no m p c e es"
  by (simp add: follows_def split: if_splits)

lemma follows_here:
  "rd_le 4 m p = c - p \<Longrightarrow> p \<le> c \<Longrightarrow> 0 < a \<Longrightarrow> well_chain nl no m c a \<Longrightarrow> entries nl no m c a = e # es \<Longrightarrow>
     follows nl no m p c (c + a) (e # es)"
  by (simp add: follows_def)

lemma follows_chain:
  assumes l: "lawful_offsets (nl, no)" and n: "no + rd_le 4 m (c + nl) \<le> a" and t: "no + rd_le 4 m (c + nl) \<le> nx" and nx: "nx < a"
    and keep: "\<And>i. c + 4 \<le> i \<Longrightarrow> i < c + nx \<Longrightarrow> m' i = m i" and F: "follows nl no m' c (c + nx) (c + a) es"
  shows "well_chain nl no m' c a \<and> entries nl no m' c a = entry_at nl no m c # es"
proof -
  have e: "rd_le 4 m' (c + nl) = rd_le 4 m (c + nl) \<and> entry_at nl no m' c = entry_at nl no m c"
    by (rule entry_cong [OF l t]) (use keep in auto)
  show ?thesis
  proof (cases "es = []")
    case True
    with F have "rd_le 4 m' c = 0" by (simp add: follows_def)
    with e n True show ?thesis by (simp add: well_chain.simps [of nl no m' c a] entries.simps [of nl no m' c a])
  next
    case ne: False
    define k where "k = rd_le 4 m' c"
    from F ne have k: "nx \<le> k" "k < a" "well_chain nl no m' (c + k) (a - k)" "entries nl no m' (c + k) (a - k) = es"
      by (auto simp: follows_def k_def)
    have "0 < no" using l by (simp add: lawful_offsets_def)
    with e n t k show ?thesis
      by (simp add: well_chain.simps [of nl no m' c a] entries.simps [of nl no m' c a] k_def [symmetric])
  qed
qed

lemma filter_loop_some:
  assumes l: "lawful_offsets (nl, no)"
  shows "well_chain nl no m c a \<Longrightarrow> p + 4 \<le> c \<Longrightarrow> rd_le 4 m p = c - p \<Longrightarrow> c + a < 2 ^ 32 \<Longrightarrow>
    filter_loop nl no hide m (Some p) c a f = (g, only, m') \<Longrightarrow>
    \<not> only \<and> (g \<longleftrightarrow> f \<or> list_ex (hidden_entry hide) (entries nl no m c a)) \<and>
    (\<forall>i. i < p \<or> p + 4 \<le> i \<and> i < c \<or> c + a \<le> i \<longrightarrow> m' i = m i) \<and>
    follows nl no m' p c (c + a) (filter (\<lambda>e. \<not> hidden_entry hide e) (entries nl no m c a))"
proof (induction a arbitrary: m c p f rule: less_induct)
  case (less a)
  let ?next = "rd_le 4 m c" and ?len = "rd_le 4 m (c + nl)" and ?e = "entry_at nl no m c"
  note w = less.prems(1) [THEN well_chain_cases] and es = entries_step [OF less.prems(1)]
  note run = less.prems(5) [unfolded filter_loop.simps [of nl no hide m "Some p" c a f]]
  have no: "8 \<le> no" "nl + 4 \<le> no" "no + ?len \<le> a" using l w by (auto simp: lawful_offsets_def)
  then have ok: "\<not> (a = 0 \<or> a < nl + 4)" by simp
  note hid = hidden_entry_at [OF no(3), of hide]
  have next_a: "?next < a" using w no by auto
  show ?case
  proof (cases "hidden_entry hide ?e")
    case hidden: True
    define m1 where "m1 = wr_le 4 m p (if ?next = 0 then 0 else rd_le 4 m p + ?next)"
    have keep: "m1 i = m i" if "i < p \<or> p + 4 \<le> i" for i unfolding m1_def using that by (rule wr_outside)
    show ?thesis
    proof (cases "?next = 0")
      case True
      with run ok hidden hid have "(g, only, m') = (True, False, m1)" by (simp add: Let_def m1_def)
      moreover from True have "rd_le 4 m1 p = 0" by (simp add: m1_def rd_wr)
      ultimately show ?thesis using True hidden es keep less.prems(2) by (simp add: follows_def)
    next
      case False
      with w have t: "no + ?len \<le> ?next" "well_chain nl no m (c + ?next) (a - ?next)" by auto
      from chain_cong [OF l t(2), of m1 "c + ?next"] keep less.prems(2)
      have w1: "well_chain nl no m1 (c + ?next) (a - ?next)"
        and e1: "entries nl no m1 (c + ?next) (a - ?next) = entries nl no m (c + ?next) (a - ?next)" by auto
      have r1: "rd_le 4 m1 p = c + ?next - p"
        using False less.prems(2,3,4) next_a by (simp add: m1_def rd_wr)
      from run ok hidden hid False next_a
      have run1: "filter_loop nl no hide m1 (Some p) (c + ?next) (a - ?next) True = (g, only, m')"
        by (simp add: Let_def m1_def)
      have small: "a - ?next < a" "c + ?next + (a - ?next) = c + a" using False next_a by auto
      from less.IH [OF small(1) w1 _ r1 _ run1] less.prems(2,4) e1 keep small
      have R: "\<not> only \<and> g \<and> (\<forall>i. i < p \<or> p + 4 \<le> i \<and> i < c + ?next \<or> c + a \<le> i \<longrightarrow> m' i = m1 i) \<and>
         follows nl no m' p (c + ?next) (c + a) (filter (\<lambda>e. \<not> hidden_entry hide e) (entries nl no m (c + ?next) (a - ?next)))"
        by simp
      have "m' i = m i" if "i < p \<or> p + 4 \<le> i \<and> i < c \<or> c + a \<le> i" for i
        using R that keep [of i] less.prems(2) by auto
      moreover have "follows nl no m' p c (c + a) (filter (\<lambda>e. \<not> hidden_entry hide e) (entries nl no m c a))"
        using follows_mono [of nl no m' p "c + ?next" "c + a" _ c] R False hidden es by simp
      ultimately show ?thesis using R False hidden es by simp
    qed
  next
    case shown: False
    show ?thesis
    proof (cases "?next = 0")
      case True
      with run ok shown hid have "(g, only, m') = (f, False, m)" by (auto simp: Let_def split: if_splits)
      with less.prems(1,2,3) no shown True es show ?thesis by (simp add: follows_def)
    next
      case False
      with w have t: "no + ?len \<le> ?next" "well_chain nl no m (c + ?next) (a - ?next)" by auto
      have nh: "\<not> (2 \<le> ?len \<and> no + ?len \<le> a \<and> name_matches_any (name_units m (c + no) (?len div 2)) hide)"
        using shown hid by blast
      have more: "\<not> (?next = 0 \<or> a < ?next)" using False next_a by simp
      from run have run1: "filter_loop nl no hide m (Some c) (c + ?next) (a - ?next) f = (g, only, m')"
        unfolding if_not_P [OF ok] Let_def if_not_P [OF nh] if_not_P [OF more] .
      have small: "a - ?next < a" "c + ?next + (a - ?next) = c + a" using False next_a by auto
      let ?rest = "filter (\<lambda>e. \<not> hidden_entry hide e) (entries nl no m (c + ?next) (a - ?next))"
      have p1: "c + 4 \<le> c + ?next" and p2: "?next = c + ?next - c" and p3: "c + ?next + (a - ?next) < 2 ^ 32"
        using t(1) no less.prems(4) small by simp_all
      note ih = less.IH [OF small(1) t(2) p1 p2 p3 run1, unfolded small(2)]
      have R: "\<not> only \<and> (g \<longleftrightarrow> f \<or> list_ex (hidden_entry hide) (entries nl no m (c + ?next) (a - ?next))) \<and>
         (\<forall>i. i < c \<or> c + 4 \<le> i \<and> i < c + ?next \<or> c + a \<le> i \<longrightarrow> m' i = m i) \<and> follows nl no m' c (c + ?next) (c + a) ?rest"
        by (fact ih)
      have rp: "rd_le 4 m' p = c - p" unfolding less.prems(3) [symmetric] by (rule rd_cong) (use R less.prems(2) in auto)
      have "well_chain nl no m' c a \<and> entries nl no m' c a = ?e # ?rest"
        by (rule follows_chain [OF l no(3) t(1) next_a]) (use R False in auto)
      then have "follows nl no m' p c (c + a) (?e # ?rest)"
        using rp less.prems(2) no by (intro follows_here) auto
      moreover have "m' i = m i" if "i < p \<or> p + 4 \<le> i \<and> i < c \<or> c + a \<le> i" for i
        using R that less.prems(2) by auto
      ultimately show ?thesis using R shown False es by simp
    qed
  qed
qed

lemma memmove_to:
  "dst \<le> src \<Longrightarrow> k < n \<Longrightarrow> memmove m dst src n (dst + k) = m (src + k)"
  "i < dst \<or> dst + n \<le> i \<Longrightarrow> memmove m dst src n i = m i"
  by (auto simp: memmove_def)

lemma filter_loop_none:
  assumes l: "lawful_offsets (nl, no)"
  shows "well_chain nl no m c a \<Longrightarrow> c + a < 2 ^ 32 \<Longrightarrow> filter_loop nl no hide m None c a f = (g, only, m') \<Longrightarrow>
    (only \<longleftrightarrow> list_all (hidden_entry hide) (entries nl no m c a)) \<and>
    (g \<longleftrightarrow> f \<or> list_ex (hidden_entry hide) (entries nl no m c a)) \<and>
    (\<forall>i. i < c \<or> c + a \<le> i \<longrightarrow> m' i = m i) \<and>
    (\<not> only \<longrightarrow> well_chain nl no m' c a \<and>
       entries nl no m' c a = filter (\<lambda>e. \<not> hidden_entry hide e) (entries nl no m c a))"
proof (induction a arbitrary: m f rule: less_induct)
  case (less a)
  let ?next = "rd_le 4 m c" and ?len = "rd_le 4 m (c + nl)" and ?e = "entry_at nl no m c"
  note w = less.prems(1) [THEN well_chain_cases] and es = entries_step [OF less.prems(1)]
  note run = less.prems(3) [unfolded filter_loop.simps [of nl no hide m None c a f]]
  have no: "8 \<le> no" "nl + 4 \<le> no" "no + ?len \<le> a" using l w by (auto simp: lawful_offsets_def)
  then have ok: "\<not> (a = 0 \<or> a < nl + 4)" by simp
  note hid = hidden_entry_at [OF no(3), of hide]
  have next_a: "?next < a" using w no by auto
  show ?case
  proof (cases "hidden_entry hide ?e")
    case hidden: True
    show ?thesis
    proof (cases "?next = 0")
      case True
      with run ok hidden hid have "(g, only, m') = (True, True, m)" by (simp add: Let_def)
      with True hidden es show ?thesis by simp
    next
      case False
      with w have t: "no + ?len \<le> ?next" "well_chain nl no m (c + ?next) (a - ?next)" by auto
      define m1 where "m1 = memmove m c (c + ?next) (a - ?next)"
      from run ok hidden hid False next_a
      have run1: "filter_loop nl no hide m1 None c (a - ?next) True = (g, only, m')" by (simp add: Let_def m1_def)
      have "m1 (c + k) = m (c + ?next + k)" if "k < a - ?next" for k
        unfolding m1_def using that by (intro memmove_to(1)) simp_all
      from chain_cong [OF l t(2) this]
      have w1: "well_chain nl no m1 c (a - ?next)"
        and e1: "entries nl no m1 c (a - ?next) = entries nl no m (c + ?next) (a - ?next)" by auto
      have small: "a - ?next < a" using False next_a by auto
      have out: "m1 i = m i" if "i < c \<or> c + a \<le> i" for i
        unfolding m1_def using that by (intro memmove_to(2)) auto
      from less.IH [OF small w1 _ run1] less.prems(2)
      have R: "(only \<longleftrightarrow> list_all (hidden_entry hide) (entries nl no m1 c (a - ?next))) \<and> g \<and>
         (\<forall>i. i < c \<or> c + (a - ?next) \<le> i \<longrightarrow> m' i = m1 i) \<and>
         (\<not> only \<longrightarrow> well_chain nl no m' c (a - ?next) \<and>
            entries nl no m' c (a - ?next) = filter (\<lambda>e. \<not> hidden_entry hide e) (entries nl no m1 c (a - ?next)))" by simp
      have "m' i = m i" if "i < c \<or> c + a \<le> i" for i using R that out [of i] by auto
      moreover have "well_chain nl no m' c a \<and> entries nl no m' c a = entries nl no m' c (a - ?next)" if "\<not> only"
        by (rule well_chain_mono) (use R that in auto)
      ultimately show ?thesis using R False hidden es e1 by auto
    qed
  next
    case shown: False
    show ?thesis
    proof (cases "?next = 0")
      case True
      with run ok shown hid have "(g, only, m') = (f, False, m)" by (auto simp: Let_def split: if_splits)
      with less.prems(1) shown True es show ?thesis by simp
    next
      case False
      with w have t: "no + ?len \<le> ?next" "well_chain nl no m (c + ?next) (a - ?next)" by auto
      have nh: "\<not> (2 \<le> ?len \<and> no + ?len \<le> a \<and> name_matches_any (name_units m (c + no) (?len div 2)) hide)"
        using shown hid by blast
      have more: "\<not> (?next = 0 \<or> a < ?next)" using False next_a by simp
      from run have run1: "filter_loop nl no hide m (Some c) (c + ?next) (a - ?next) f = (g, only, m')"
        unfolding if_not_P [OF ok] Let_def if_not_P [OF nh] if_not_P [OF more] .
      have small: "c + ?next + (a - ?next) = c + a" using next_a by auto
      let ?rest = "filter (\<lambda>e. \<not> hidden_entry hide e) (entries nl no m (c + ?next) (a - ?next))"
      have p1: "c + 4 \<le> c + ?next" and p2: "?next = c + ?next - c" and p3: "c + ?next + (a - ?next) < 2 ^ 32"
        using t(1) no less.prems(2) small by simp_all
      note ih = filter_loop_some [OF l t(2) p1 p2 p3 run1, unfolded small]
      have R: "\<not> only \<and> (g \<longleftrightarrow> f \<or> list_ex (hidden_entry hide) (entries nl no m (c + ?next) (a - ?next))) \<and>
         (\<forall>i. i < c \<or> c + 4 \<le> i \<and> i < c + ?next \<or> c + a \<le> i \<longrightarrow> m' i = m i) \<and> follows nl no m' c (c + ?next) (c + a) ?rest"
        by (fact ih)
      have "well_chain nl no m' c a \<and> entries nl no m' c a = ?e # ?rest"
        by (rule follows_chain [OF l no(3) t(1) next_a]) (use R False in auto)
      with R shown False es show ?thesis by auto
    qed
  qed
qed

text \<open>C22: Filtering a directory page removes exactly the hidden records: the records that remain are those whose name
  matches no hidden name, with all their bytes and in their order, the page stays well formed and nothing outside is
  touched; the page is reported as hidden altogether exactly when every record is.\<close>

theorem filter_entries_exact:
  assumes "dir_info_name_offsets cls = Some (nl, no)" and "well_chain nl no m 0 sz" and "sz < 2 ^ 32"
    and "filter_entries m sz cls hide = (filtered, only, m')"
  shows "(only \<longleftrightarrow> list_all (hidden_entry hide) (entries nl no m 0 sz)) \<and>
    (filtered \<longleftrightarrow> list_ex (hidden_entry hide) (entries nl no m 0 sz)) \<and>
    (\<forall>i \<ge> sz. m' i = m i) \<and>
    (only \<or> well_chain nl no m' 0 sz \<and> entries nl no m' 0 sz = filter (\<lambda>e. \<not> hidden_entry hide e) (entries nl no m 0 sz))"
proof -
  from assms(1,4) have "filter_loop nl no hide m None 0 sz False = (filtered, only, m')" by (simp add: filter_entries_def)
  from filter_loop_none [OF dir_info_lawful [OF assms(1)] assms(2) _ this] assms(3) show ?thesis by auto
qed

section \<open>Hostile pages\<close>

text \<open>Two buffers with the same first \<open>B\<close> bytes are treated alike, and no byte behind is written.\<close>

lemma filter_loop_bounds:
  assumes l: "lawful_offsets (nl, no)"
  shows "(\<And>i. i < B \<Longrightarrow> m2 i = m i) \<Longrightarrow> c + a \<le> B \<Longrightarrow> (\<And>p. prev = Some p \<Longrightarrow> p + 4 \<le> B) \<Longrightarrow>
    filter_loop nl no hide m prev c a f = (g, only, m') \<Longrightarrow> filter_loop nl no hide m2 prev c a f = (g2, only2, m2') \<Longrightarrow>
    g2 = g \<and> only2 = only \<and> (\<forall>i < B. m2' i = m' i) \<and> (\<forall>i \<ge> B. m' i = m i)"
proof (induction a arbitrary: m m2 c prev f rule: less_induct)
  case (less a)
  let ?next = "rd_le 4 m c" and ?len = "rd_le 4 m (c + nl)"
  note run = less.prems(4) [unfolded filter_loop.simps [of nl no hide m prev c a f]]
  note run2 = less.prems(5) [unfolded filter_loop.simps [of nl no hide m2 prev c a f]]
  have nl: "4 \<le> nl" using l by (simp add: lawful_offsets_def)
  show ?case
  proof (cases "a < nl + 4")
    case True
    with run run2 less.prems(1) show ?thesis by simp
  next
    case ok: False
    then have ok': "\<not> (a = 0 \<or> a < nl + 4)" by simp
    have r: "rd_le 4 m2 c = ?next" "rd_le 4 m2 (c + nl) = ?len"
      by (rule rd_cong; use less.prems(1,2) ok in auto)+
    let ?name = "\<lambda>m. 2 \<le> ?len \<and> no + ?len \<le> a \<and> name_matches_any (name_units m (c + no) (?len div 2)) hide"
    have nm: "?name m2 = ?name m"
    proof (cases "no + ?len \<le> a")
      case True
      then have "name_units m2 (c + no) (?len div 2) = name_units m (c + no) (?len div 2)"
        by (intro name_units_cong) (use less.prems(1,2) in auto)
      then show ?thesis by simp
    qed simp
    show ?thesis
    proof (cases "?name m")
      case hidden: True
      show ?thesis
      proof (cases prev)
        case (Some p)
        define w where "w m = wr_le 4 m p (if ?next = 0 then 0 else rd_le 4 m p + ?next)" for m
        have pB: "p + 4 \<le> B" using less.prems(3) Some by simp
        have rp: "rd_le 4 m2 p = rd_le 4 m p" by (rule rd_cong) (use less.prems(1) pB in auto)
        have eq: "w m2 i = w m i" if "i < B" for i
        proof (cases "p \<le> i \<and> i < p + 4")
          case True
          then have "w m2 (p + (i - p)) = w m (p + (i - p))" unfolding w_def rp by (intro wr_inside) auto
          with True show ?thesis by simp
        next
          case False
          then have o: "i < p \<or> p + 4 \<le> i" by auto
          show ?thesis using less.prems(1) [OF that] unfolding w_def wr_outside [OF o] .
        qed
        have out: "w m i = m i" if "B \<le> i" for i using that pB by (simp add: w_def wr_outside)
        show ?thesis
        proof (cases "?next = 0 \<or> a < ?next")
          case True
          with run run2 ok' hidden nm r Some eq out show ?thesis by (auto simp: Let_def w_def)
        next
          case False
          from run ok' hidden Some False
          have a: "filter_loop nl no hide (w m) prev (c + ?next) (a - ?next) True = (g, only, m')" by (simp add: Let_def w_def)
          from run2 ok' hidden nm r Some False
          have b: "filter_loop nl no hide (w m2) prev (c + ?next) (a - ?next) True = (g2, only2, m2')" by (simp add: Let_def w_def)
          from less.IH [OF _ eq _ less.prems(3) a b] False less.prems(2) out show ?thesis by auto
        qed
      next
        case None
        define w where "w m = memmove m c (c + ?next) (a - ?next)" for m
        show ?thesis
        proof (cases "?next = 0 \<or> a < ?next")
          case True
          with run run2 ok' hidden nm r None less.prems(1) show ?thesis by (auto simp: Let_def)
        next
          case False
          have eq: "w m2 i = w m i" if "i < B" for i using that False less.prems(1,2) by (auto simp: w_def memmove_def)
          have out: "w m i = m i" if "B \<le> i" for i using that less.prems(2) False by (auto simp: w_def memmove_def)
          from run ok' hidden None False
          have a: "filter_loop nl no hide (w m) None c (a - ?next) True = (g, only, m')" by (simp add: Let_def w_def)
          from run2 ok' hidden nm r None False
          have b: "filter_loop nl no hide (w m2) None c (a - ?next) True = (g2, only2, m2')" by (simp add: Let_def w_def)
          from less.IH [OF _ eq _ _ a b] False less.prems(2) out show ?thesis by auto
        qed
      qed
    next
      case shown: False
      show ?thesis
      proof (cases "?next = 0 \<or> a < ?next")
        case True
        with run run2 ok' shown nm r less.prems(1) show ?thesis by (auto simp: Let_def)
      next
        case False
        from run ok' shown False
        have a: "filter_loop nl no hide m (Some c) (c + ?next) (a - ?next) f = (g, only, m')" by (simp add: Let_def)
        from run2 ok' shown nm r False
        have b: "filter_loop nl no hide m2 (Some c) (c + ?next) (a - ?next) f = (g2, only2, m2')" by (simp add: Let_def)
        from less.IH [OF _ less.prems(1) _ _ a b] False less.prems(2) ok show ?thesis by auto
      qed
    qed
  qed
qed

text \<open>C23: Whatever bytes a page holds, filtering it reads and writes inside the page only: its outcome and the bytes it
  leaves depend on the first \<open>sz\<close> bytes alone, and every byte behind them keeps its value.\<close>

theorem filter_entries_in_bounds:
  assumes "\<And>i. i < sz \<Longrightarrow> m2 i = m i"
    and "filter_entries m sz cls hide = (filtered, only, m')" and "filter_entries m2 sz cls hide = (filtered2, only2, m2')"
  shows "filtered2 = filtered \<and> only2 = only \<and> (\<forall>i < sz. m2' i = m' i) \<and> (\<forall>i \<ge> sz. m' i = m i)"
proof (cases "dir_info_name_offsets cls")
  case None
  with assms show ?thesis by (simp add: filter_entries_def)
next
  case (Some offs)
  obtain nl no where offs: "offs = (nl, no)" by (cases offs)
  show ?thesis
    by (rule filter_loop_bounds [OF dir_info_lawful [OF Some, unfolded offs] assms(1), where c = 0 and a = sz and prev = None])
      (use assms(2,3) Some offs in \<open>simp_all add: filter_entries_def\<close>)
qed

section \<open>The live size of a page\<close>

lemma live_loop_well:
  assumes l: "lawful_offsets (nl, no)"
  shows "well_chain nl no m c a \<Longrightarrow>
    \<exists>k \<le> a. live_loop nl no m c a = c + k \<and> well_chain nl no m c k \<and> entries nl no m c k = entries nl no m c a"
proof (induction a arbitrary: c rule: less_induct)
  case (less a)
  let ?next = "rd_le 4 m c" and ?len = "rd_le 4 m (c + nl)"
  note w = less.prems [THEN well_chain_cases] and es = entries_step [OF less.prems]
  have no: "8 \<le> no" "nl + 4 \<le> no" "no + ?len \<le> a" using l w by (auto simp: lawful_offsets_def)
  note run = live_loop.simps [of nl no m c a]
  show ?case
  proof (cases "?next = 0")
    case True
    with no run have "live_loop nl no m c a = c + (no + ?len)" by (simp add: Let_def)
    moreover from True have "well_chain nl no m c (no + ?len)" by (simp add: well_chain.simps [of nl no m c "no + ?len"])
    ultimately show ?thesis using no es True by (intro exI [of _ "no + ?len"]) (simp add: entries.simps [of nl no m c "no + ?len"])
  next
    case False
    with w have t: "no + ?len \<le> ?next" "?next < a" "well_chain nl no m (c + ?next) (a - ?next)" by auto
    with False have "a - ?next < a" by auto
    from less.IH [OF this t(3)] obtain k where k: "k \<le> a - ?next" "live_loop nl no m (c + ?next) (a - ?next) = c + ?next + k"
      "well_chain nl no m (c + ?next) k" "entries nl no m (c + ?next) k = entries nl no m (c + ?next) (a - ?next)" by blast
    have "0 < k" using well_chain_cases [OF k(3)] no by auto
    with k(3) t(1) False have w': "well_chain nl no m c (?next + k)" by (simp add: well_chain.simps [of nl no m c "?next + k"])
    from run no False t(2) have "live_loop nl no m c a = c + (?next + k)" by (simp add: Let_def k(2))
    then show ?thesis using k t w' False es entries_step [OF w'] by (intro exI [of _ "?next + k"]) simp
  qed
qed

section \<open>Appending records\<close>

lemma round8_bounds: "n \<le> round8 n" "round8 n < n + 8" "8 dvd round8 n"
  by (auto simp: round8_def)

text \<open>The last record of a chain.\<close>

lemma tail_loop_well:
  assumes l: "lawful_offsets (nl, no)"
  shows "well_chain nl no m c a \<Longrightarrow>
    \<exists>t. tail_loop m c a = Some t \<and> c \<le> t \<and> t + no \<le> c + a \<and> rd_le 4 m t = 0"
proof (induction a arbitrary: c rule: less_induct)
  case (less a)
  let ?next = "rd_le 4 m c"
  note w = less.prems [THEN well_chain_cases]
  have no: "8 \<le> no" "no \<le> a" using l w by (auto simp: lawful_offsets_def)
  note run = tail_loop.simps [of m c a]
  show ?case
  proof (cases "?next = 0")
    case True
    with run no show ?thesis by (simp add: Let_def)
  next
    case False
    with w have t: "?next < a" "well_chain nl no m (c + ?next) (a - ?next)" by auto
    with False have "a - ?next < a" by auto
    from less.IH [OF this t(2)] t(1) run no False show ?thesis by (auto simp: Let_def)
  qed
qed

text \<open>A record written behind a chain and linked to its last record extends the chain by one entry.\<close>

lemma link_extends:
  assumes l: "lawful_offsets (nl, no)"
  shows "well_chain nl no m c a \<Longrightarrow> tail_loop m c a = Some t \<Longrightarrow> c + a \<le> w \<Longrightarrow> w + n < 2 ^ 32 \<Longrightarrow>
    (\<And>i. c \<le> i \<Longrightarrow> i < c + a \<Longrightarrow> i < t \<or> t + 4 \<le> i \<Longrightarrow> m' i = m i) \<Longrightarrow> rd_le 4 m' t = w - t \<Longrightarrow>
    well_chain nl no m' w n \<Longrightarrow> rd_le 4 m' w = 0 \<Longrightarrow>
    well_chain nl no m' c (w + n - c) \<and> entries nl no m' c (w + n - c) = entries nl no m c a @ [entry_at nl no m' w] \<and>
      tail_loop m' c (w + n - c) = Some w"
proof (induction a arbitrary: c rule: less_induct)
  case (less a)
  let ?next = "rd_le 4 m c" and ?len = "rd_le 4 m (c + nl)"
  note w = less.prems(1) [THEN well_chain_cases] and es = entries_step [OF less.prems(1)]
  have no: "8 \<le> no" "nl + 4 \<le> no" "4 \<le> nl" "no + ?len \<le> a" using l w by (auto simp: lawful_offsets_def)
  note run = tail_loop.simps [of m c a]
  have n: "0 < n" "4 \<le> n" using less.prems(7) [THEN well_chain_cases] no by auto
  show ?case
  proof (cases "?next = 0")
    case True
    with run no less.prems(2) have t: "t = c" by (simp add: Let_def)
    have e: "rd_le 4 m' (c + nl) = ?len \<and> entry_at nl no m' c = entry_at nl no m c"
      by (rule entry_cong [OF l no(4)]) (use less.prems(5) t in auto)
    have "w - c < w + n - c" "no + ?len \<le> w - c" using n less.prems(3) no by auto
    moreover have "c + (w - c) = w" "w + n - c - (w - c) = n" using less.prems(3) by auto
    ultimately show ?thesis using e less.prems(6,7,8) t no es True entries_step [OF less.prems(7)] less.prems(3)
      by (simp add: well_chain.simps [of nl no m' c] entries.simps [of nl no m' c] tail_loop.simps [of m' c] tail_loop.simps [of m' w])
        (use n no less.prems(3) in linarith)
  next
    case False
    with w have t: "no + ?len \<le> ?next" "?next < a" "well_chain nl no m (c + ?next) (a - ?next)" by auto
    have small: "a - ?next < a" "c + ?next + (a - ?next) = c + a" using False t(2) by auto
    have tl: "tail_loop m (c + ?next) (a - ?next) = Some t" using run no False t(2) less.prems(2) by (simp add: Let_def)
    from tail_loop_well [OF l t(3)] tl have ct: "c + ?next \<le> t" by auto
    have nx: "rd_le 4 m' c = ?next" by (rule rd_cong) (use less.prems(5) ct t no in auto)
    have e: "rd_le 4 m' (c + nl) = ?len \<and> entry_at nl no m' c = entry_at nl no m c"
      by (rule entry_cong [OF l t(1)]) (use less.prems(5) ct t in auto)
    have p: "c + ?next + (a - ?next) \<le> w" using small(2) less.prems(3) by simp
    have keep: "\<And>i. c + ?next \<le> i \<Longrightarrow> i < c + ?next + (a - ?next) \<Longrightarrow> i < t \<or> t + 4 \<le> i \<Longrightarrow> m' i = m i"
      using less.prems(5) small(2) by auto
    note ih = less.IH [OF small(1) t(3) tl p less.prems(4) keep less.prems(6,7,8)]
    have d: "w + n - c - ?next = w + n - (c + ?next)" "?next < w + n - c" "no + ?len \<le> w + n - c" using t(1,2) less.prems(3) n by auto
    have "4 \<le> w + n - c" using n less.prems(3) by simp
    then show ?thesis using ih e nx t(1) False d es
      by (simp add: well_chain.simps [of nl no m' c] entries.simps [of nl no m' c] tail_loop.simps [of m' c] Let_def)
  qed
qed

lemma write_units_outside: "k < p \<or> p + 2 * length us \<le> k \<Longrightarrow> write_units m p us k = m k"
  by (induction us arbitrary: m p) (auto simp: wr_outside)

lemma name_units_Cons: "name_units m p (Suc n) = of_nat (rd_le 2 m p) # name_units m (p + 2) n"
  by (simp add: name_units_def upt_conv_Cons map_Suc_upt [symmetric] comp_def algebra_simps del: upt_Suc)

lemma name_units_write: "name_units (write_units m p us) p (length us) = us"
proof (induction us arbitrary: m p)
  case Nil
  then show ?case by (simp add: name_units_def)
next
  case (Cons u us)
  have "rd_le 2 (write_units (wr_le 2 m p (unat u)) (p + 2) us) p = rd_le 2 (wr_le 2 m p (unat u)) p"
    by (rule rd_cong) (simp add: write_units_outside)
  also have "\<dots> = unat u" using unsigned_less [of u] by (simp add: rd_wr)
  finally show ?case using Cons.IH by (simp add: name_units_Cons)
qed

text \<open>The optional fields lie between the link and the length.\<close>

lemma dir_info_fields:
  assumes "dir_info_name_offsets cls = Some (nl, no)"
  shows "dir_info_attr_offset cls = Some a \<Longrightarrow> 4 \<le> a \<and> a + 4 \<le> nl"
    and "dir_info_time_offsets cls = Some t \<Longrightarrow>
      (\<forall>o' \<in> {to_creation_time t, to_last_access_time t, to_last_write_time t, to_end_of_file t, to_allocation_size t}. 4 \<le> o' \<and> o' + 8 \<le> 0x38) \<and>
      dir_info_attr_offset cls = Some 0x38"
  using assms by (auto simp: dir_info_name_offsets_def dir_info_attr_offset_def dir_info_time_offsets_def split: if_splits)

lemma write_times_outside:
  assumes "\<forall>o' \<in> {to_creation_time t, to_last_access_time t, to_last_write_time t, to_end_of_file t, to_allocation_size t}. 4 \<le> o' \<and> o' + 8 \<le> 0x38"
    and "k < at + 4 \<or> at + 0x38 \<le> k"
  shows "write_times t s m at k = m k"
  using assms by (auto simp: write_times_def Let_def wr_outside)

lemma write_entry_spec:
  fixes m :: membuf and at aligned :: nat and e :: overlay_child
  assumes c: "dir_info_name_offsets cls = Some (nl, no)" and n: "no + 2 * length us \<le> aligned" and s: "2 * length us < 2 ^ 32"
  defines "m' \<equiv> write_entry cls (nl, no) e us m at aligned"
  shows "\<And>k. k < at \<or> at + aligned \<le> k \<Longrightarrow> m' k = m k" and "rd_le 4 m' at = 0" and "rd_le 4 m' (at + nl) = 2 * length us"
    and "name_units m' (at + no) (length us) = us"
    and "dir_info_attr_offset cls = Some a \<Longrightarrow>
      rd_le 4 m' (at + a) = (if st_is_dir (oc_stat e) then FILE_ATTRIBUTE_DIRECTORY else FILE_ATTRIBUTE_NORMAL)"
proof -
  have l: "4 \<le> nl" "nl + 4 \<le> no" using dir_info_lawful [OF c] by (auto simp: lawful_offsets_def)
  define m1 where "m1 = wr_le 4 (wr_le 4 (fill_zero m at aligned) at 0) (at + nl) (2 * length us)"
  define m2 where "m2 = (case dir_info_attr_offset cls of None \<Rightarrow> m1
      | Some a \<Rightarrow> wr_le 4 m1 (at + a) (if st_is_dir (oc_stat e) then FILE_ATTRIBUTE_DIRECTORY else FILE_ATTRIBUTE_NORMAL))"
  define m3 where "m3 = (case dir_info_time_offsets cls of None \<Rightarrow> m2 | Some t \<Rightarrow> write_times t (oc_stat e) m2 at)"
  have m': "m' = write_units m3 (at + no) us" unfolding m'_def write_entry_def Let_def m1_def m2_def m3_def by simp
  have f3: "m3 k = m2 k" if "k < at + 4 \<or> at + 0x38 \<le> k" for k
    using dir_info_fields(2) [OF c] that by (auto simp: m3_def write_times_outside split: option.split)
  have f2: "m2 k = m1 k" if "k < at + 4 \<or> at + nl \<le> k" for k
    using dir_info_fields(1) [OF c] that by (auto simp: m2_def wr_outside split: option.split)
  have t38: "0x38 \<le> nl" if "dir_info_time_offsets cls \<noteq> None"
    using that dir_info_fields [OF c] by auto
  have f3': "m3 k = m2 k" if "k < at + 4 \<or> at + nl \<le> k" for k
    using f3 [of k] t38 that by (cases "dir_info_time_offsets cls") (auto simp: m3_def)
  have m1: "m1 k = m k" if "k < at \<or> at + aligned \<le> k" for k
    using that n l by (auto simp: m1_def wr_outside fill_zero_def)
  show "m' k = m k" if "k < at \<or> at + aligned \<le> k" for k
    using that n l f2 [of k] f3' [of k] m1 [of k] unfolding m' by (subst write_units_outside) auto
  have r: "rd_le 4 m' i = rd_le 4 m1 i" if "i + 4 \<le> at + 4 \<or> at + nl \<le> i \<and> i + 4 \<le> at + no" for i
    by (rule rd_cong) (use that f2 f3' l in \<open>auto simp: m' write_units_outside\<close>)
  show "rd_le 4 m' at = 0" using l by (subst r) (simp_all add: m1_def rd_wr_apart rd_wr)
  show "rd_le 4 m' (at + nl) = 2 * length us" using l s by (subst r) (simp_all add: m1_def rd_wr)
  show "name_units m' (at + no) (length us) = us" unfolding m' by (rule name_units_write)
  assume a: "dir_info_attr_offset cls = Some a"
  note la = dir_info_fields(1) [OF c a]
  have a38: "a = 0x38" using a by (auto simp: dir_info_attr_offset_def split: if_splits)
  have "rd_le 4 m' (at + a) = rd_le 4 m2 (at + a)"
    by (rule rd_cong) (use la l f3 a38 in \<open>auto simp: m' write_units_outside\<close>)
  also have "\<dots> = (if st_is_dir (oc_stat e) then FILE_ATTRIBUTE_DIRECTORY else FILE_ATTRIBUTE_NORMAL)"
    by (simp add: m2_def a rd_wr FILE_ATTRIBUTE_DIRECTORY_def FILE_ATTRIBUTE_NORMAL_def)
  finally show "rd_le 4 m' (at + a) = (if st_is_dir (oc_stat e) then FILE_ATTRIBUTE_DIRECTORY else FILE_ATTRIBUTE_NORMAL)" .
qed

abbreviation child_units :: "overlay_child \<Rightarrow> u16 list" where
  "child_units e \<equiv> encode_utf16 (utf8_decode (oc_name e))"

definition record_size :: "nat \<Rightarrow> overlay_child \<Rightarrow> nat" where
  "record_size no e = round8 (no + 2 * length (child_units e))"

lemma written_record:
  fixes m :: membuf
  assumes c: "dir_info_name_offsets cls = Some (nl, no)" and cap: "w + record_size no e < 2 ^ 32"
  defines "m' \<equiv> write_entry cls (nl, no) e (child_units e) m w (record_size no e)"
  shows "well_chain nl no m' w (record_size no e)" and "rd_le 4 m' w = 0" and "snd (entry_at nl no m' w) = child_units e"
    and "\<And>k. k < w \<or> w + record_size no e \<le> k \<Longrightarrow> m' k = m k"
proof -
  have n: "no + 2 * length (child_units e) \<le> record_size no e" unfolding record_size_def by (rule round8_bounds)
  then have s: "2 * length (child_units e) < 2 ^ 32" using cap by simp
  note spec = write_entry_spec [OF c n s, where e = e and m = m and at = w, folded m'_def]
  show "rd_le 4 m' w = 0" "snd (entry_at nl no m' w) = child_units e"
    using spec by (simp_all add: entry_at_def Let_def)
  show "well_chain nl no m' w (record_size no e)" using spec n by (simp add: well_chain.simps [of nl no m' w])
  show "m' k = m k" if "k < w \<or> w + record_size no e \<le> k" for k using that by (rule spec(1))
qed

lemma append_loop_some:
  assumes c: "dir_info_name_offsets cls = Some (nl, no)"
  shows "well_chain nl no m 0 used \<Longrightarrow> tail_loop m 0 used = Some t \<Longrightarrow> used \<le> w \<Longrightarrow> cap < 2 ^ 32 \<Longrightarrow>
    append_loop cls (nl, no) cap extra m (Some t) w = (k, m') \<Longrightarrow>
    \<exists>n \<le> length extra. \<exists>new. well_chain nl no m' 0 k \<and> entries nl no m' 0 k = entries nl no m 0 used @ new \<and>
      map snd new = map child_units (take n extra) \<and> k = w + sum_list (map (record_size no) (take n extra)) \<and>
      (n < length extra \<longrightarrow> cap < k + record_size no (extra ! n)) \<and> (0 < n \<longrightarrow> k \<le> cap) \<and>
      (\<forall>i \<ge> k. m' i = m i)"
proof (induction extra arbitrary: m used t w)
  case Nil
  then show ?case using well_chain_mono [of nl no m 0 used w] by simp
next
  case (Cons e extra)
  note l = dir_info_lawful [OF c]
  let ?n = "record_size no e"
  show ?case
  proof (cases "cap < w + ?n")
    case True
    then have "k = w" "m' = m" using Cons.prems(5) by (simp_all add: Let_def record_size_def)
    with True Cons.prems(1,3) well_chain_mono [of nl no m 0 used w] show ?thesis by (intro exI [of _ 0]) simp
  next
    case False
    define m1 where "m1 = write_entry cls (nl, no) e (child_units e) m w ?n"
    define m2 where "m2 = wr_le 4 m1 t (w - t)"
    have small: "w + ?n < 2 ^ 32" using False Cons.prems(4) by simp
    note rec = written_record [OF c small, where m = m, folded m1_def]
    from tail_loop_well [OF l Cons.prems(1)] Cons.prems(2) have t: "t + no \<le> used" by simp
    have no: "8 \<le> no" using l by (simp add: lawful_offsets_def)
    have keep: "m2 i = m1 i" if "i < t \<or> t + 4 \<le> i" for i unfolding m2_def using that by (rule wr_outside)
    have w2: "well_chain nl no m2 w ?n \<and> entries nl no m2 w ?n = entries nl no m1 w ?n"
      by (rule chain_cong [OF l rec(1)]) (rule keep, use t no Cons.prems(3) in simp)
    have r2: "rd_le 4 m2 w = 0" unfolding rec(2) [symmetric] by (rule rd_cong) (rule keep, use t no Cons.prems(3) in simp)
    have e2: "entry_at nl no m2 w = entry_at nl no m1 w"
      using w2 entries_step [OF rec(1)] entries_step [of nl no m2 w ?n] r2 rec(2) by simp
    have tr: "rd_le 4 m2 t = w - t" unfolding m2_def using small by (simp add: rd_wr)
    have old: "\<And>i. 0 \<le> i \<Longrightarrow> i < 0 + used \<Longrightarrow> i < t \<or> t + 4 \<le> i \<Longrightarrow> m2 i = m i"
      using keep rec(4) Cons.prems(3) by simp
    have uw: "0 + used \<le> w" using Cons.prems(3) by simp
    note ext = link_extends [OF l Cons.prems(1,2) uw small old tr conjunct1 [OF w2] r2]
    then have ext': "well_chain nl no m2 0 (w + ?n)" "entries nl no m2 0 (w + ?n) = entries nl no m 0 used @ [entry_at nl no m1 w]"
      "tail_loop m2 0 (w + ?n) = Some w" by (simp_all add: e2)
    have run: "append_loop cls (nl, no) cap extra m2 (Some w) (w + ?n) = (k, m')"
      using Cons.prems(5) False by (simp add: Let_def record_size_def m1_def m2_def)
    from Cons.IH [OF ext'(1,3) order_refl Cons.prems(4) run] ext'(2) obtain n new where
      n: "n \<le> length extra" "well_chain nl no m' 0 k" "entries nl no m' 0 k = (entries nl no m 0 used @ [entry_at nl no m1 w]) @ new"
      "map snd new = map child_units (take n extra)" "k = w + ?n + sum_list (map (record_size no) (take n extra))"
      "n < length extra \<longrightarrow> cap < k + record_size no (extra ! n)" "0 < n \<longrightarrow> k \<le> cap"
      "\<forall>i \<ge> k. m' i = m2 i" by auto
    have "k \<le> cap" using n(5,7) False by (cases "n = 0") auto
    moreover have "m' i = m i" if "k \<le> i" for i
      using n(5,8) that keep [of i] rec(4) [of i] t no Cons.prems(3) by auto
    ultimately show ?thesis using n
      by (intro exI [of _ "Suc n"] conjI exI [of _ "entry_at nl no m1 w # new"]) (auto simp: rec(3))
  qed
qed

section \<open>Restoring names keeps the chain\<close>

definition restore_name :: "(string \<Rightarrow> u16 list option) \<Rightarrow> u16 list \<Rightarrow> u16 list" where
  "restore_name case_map us =
     (if us = [] then us
      else (case case_map (units_lower us) of
          Some correct \<Rightarrow> if length correct = length us then correct else us
        | None \<Rightarrow> us))"

lemma length_name_units [simp]: "length (name_units m p n) = n"
  by (simp add: name_units_def)

lemma restore_here:
  fixes m :: membuf and c no len a :: nat and case_map :: "string \<Rightarrow> u16 list option"
  assumes n: "no + len \<le> a"
  defines "us \<equiv> name_units m (c + no) (len div 2)"
  defines "m1 \<equiv> (if 2 \<le> len \<and> no + len \<le> a
      then (case case_map (units_lower us) of
          Some correct \<Rightarrow> if length correct = len div 2 then write_units m (c + no) correct else m
        | None \<Rightarrow> m)
      else m)"
  shows "name_units m1 (c + no) (len div 2) = restore_name case_map us"
    and "\<And>i. i < c + no \<or> c + no + len \<le> i \<Longrightarrow> m1 i = m i"
proof -
  have u: "us = [] \<longleftrightarrow> len div 2 = 0" "length us = len div 2" by (auto simp: us_def name_units_def)
  have w: "name_units (write_units m (c + no) cs) (c + no) (len div 2) = cs" if "length cs = len div 2" for cs
    unfolding that [symmetric] by (rule name_units_write)
  show "name_units m1 (c + no) (len div 2) = restore_name case_map us"
  proof (cases "2 \<le> len")
    case True
    with n u w show ?thesis by (auto simp: m1_def restore_name_def us_def [symmetric] split: option.split)
  next
    case False
    with u show ?thesis by (simp add: m1_def restore_name_def name_units_def)
  qed
  show "m1 i = m i" if "i < c + no \<or> c + no + len \<le> i" for i
    using that by (auto simp: m1_def write_units_outside split: option.split)
qed

lemma rewrite_loop_well:
  assumes l: "lawful_offsets (nl, no)"
  shows "well_chain nl no m c a \<Longrightarrow> m' = rewrite_loop nl no case_map m c a \<Longrightarrow>
    (\<forall>i. i < c + no \<or> c + a \<le> i \<longrightarrow> m' i = m i) \<and> well_chain nl no m' c a \<and>
    map snd (entries nl no m' c a) = map (\<lambda>e. restore_name case_map (snd e)) (entries nl no m c a) \<and>
    map (\<lambda>e. take (no - 4) (fst e)) (entries nl no m' c a) = map (\<lambda>e. take (no - 4) (fst e)) (entries nl no m c a)"
proof (induction a arbitrary: m c m' rule: less_induct)
  case (less a)
  let ?next = "rd_le 4 m c" and ?len = "rd_le 4 m (c + nl)" and ?e = "entry_at nl no m c"
  note w = less.prems(1) [THEN well_chain_cases] and es = entries_step [OF less.prems(1)]
  have no: "8 \<le> no" "nl + 4 \<le> no" "no + ?len \<le> a" using l w by (auto simp: lawful_offsets_def)
  then have ok: "\<not> (a = 0 \<or> a < nl + 4)" by simp
  have next_a: "\<not> a < ?next" using w no by auto
  define us where "us = name_units m (c + no) (?len div 2)"
  define m1 where "m1 = (if 2 \<le> ?len \<and> no + ?len \<le> a
      then (case case_map (units_lower us) of
          Some correct \<Rightarrow> if length correct = ?len div 2 then write_units m (c + no) correct else m
        | None \<Rightarrow> m)
      else m)"
  note here = restore_here [OF no(3), where m = m and c = c and case_map = case_map, folded us_def, folded m1_def]
  have run: "m' = (if ?next = 0 then m1 else rewrite_loop nl no case_map m1 (c + ?next) (a - ?next))"
    using less.prems(2) next_a unfolding rewrite_loop.simps [of nl no case_map m c a] if_not_P [OF ok] Let_def
      us_def [symmetric] m1_def [symmetric] by simp
  text \<open>What holds as soon as the bytes up to the next record are those of the first step.\<close>
  have entry: "rd_le 4 m' c = ?next" "rd_le 4 m' (c + nl) = ?len" "snd (entry_at nl no m' c) = restore_name case_map (snd ?e)"
    "take (no - 4) (fst (entry_at nl no m' c)) = take (no - 4) (fst ?e)"
    if same: "\<And>i. i < c + no + ?len \<Longrightarrow> m' i = m1 i"
  proof -
    have low: "m' i = m i" if "i < c + no" for i using same [of i] here(2) [of i] that by simp
    show 1: "rd_le 4 m' c = ?next" by (rule rd_cong) (rule low, use no in simp)
    show 2: "rd_le 4 m' (c + nl) = ?len" by (rule rd_cong) (rule low, use no in simp)
    have "name_units m' (c + no) (?len div 2) = name_units m1 (c + no) (?len div 2)"
      by (rule name_units_cong) (rule same, simp)
    then show "snd (entry_at nl no m' c) = restore_name case_map (snd ?e)"
      by (simp add: entry_at_def Let_def 2 here(1) us_def)
    show "take (no - 4) (fst (entry_at nl no m' c)) = take (no - 4) (fst ?e)"
    proof -
      have "take (no - 4) [4..<no + ?len] = [4..<no]" using no by (simp add: take_upt)
      then show ?thesis using low by (simp add: entry_at_def Let_def 2 take_map)
    qed
  qed
  show ?case
  proof (cases "?next = 0")
    case True
    with run have m': "m' = m1" by simp
    note en = entry [unfolded m', OF refl]
    from True en es no here(2) show ?thesis unfolding m'
      by (simp add: well_chain.simps [of nl no m1 c a] entries.simps [of nl no m1 c a])
  next
    case False
    with w have t: "no + ?len \<le> ?next" "?next < a" "well_chain nl no m (c + ?next) (a - ?next)" by auto
    have w1: "well_chain nl no m1 (c + ?next) (a - ?next) \<and> entries nl no m1 (c + ?next) (a - ?next) = entries nl no m (c + ?next) (a - ?next)"
      by (rule chain_cong [OF l t(3)]) (rule here(2), use t in simp)
    have small: "a - ?next < a" "c + ?next + (a - ?next) = c + a" using False t(2) by auto
    from run False have "m' = rewrite_loop nl no case_map m1 (c + ?next) (a - ?next)" by simp
    note ih = less.IH [OF small(1) conjunct1 [OF w1] this, unfolded small(2)]
    have en: "rd_le 4 m' c = ?next" "rd_le 4 m' (c + nl) = ?len" "snd (entry_at nl no m' c) = restore_name case_map (snd ?e)"
      "take (no - 4) (fst (entry_at nl no m' c)) = take (no - 4) (fst ?e)"
      by (rule entry; use ih t in auto)+
    have "m' i = m i" if "i < c + no \<or> c + a \<le> i" for i
      using ih here(2) [of i] that t by auto
    then show ?thesis using ih en t False es w1 no
      by (simp add: well_chain.simps [of nl no m' c a] entries.simps [of nl no m' c a] Let_def)
  qed
qed

section \<open>Sample pages\<close>

theorem filter_entries_exact_witness:
  "\<exists>m sz m'. filter_entries m sz 12 [[97]] = (True, True, m')"
proof -
  have c: "dir_info_name_offsets 12 = Some (8, 12)" by (simp add: dir_info_name_offsets_def)
  obtain e where e: "child_units e = [97]"
    by (rule that [of "\<lparr>oc_name = ''a'', oc_stat = \<lparr>st_is_dir = False, st_size = 0, st_creation = 0, st_access = 0, st_write = 0\<rparr>\<rparr>"])
      (simp add: utf8_decode.simps encode_utf16_def utf16_enc1_def)
  define n where "n = record_size 12 e"
  have n: "n = 16" by (simp add: n_def record_size_def e round8_def)
  define m where "m = write_entry 12 (8, 12) e (child_units e) (\<lambda>i. 0) 0 n"
  have "0 + record_size 12 e < 2 ^ 32" using n by (simp add: n_def)
  note rec = written_record [OF c this, where m = "\<lambda>i. 0", folded n_def, folded m_def]
  obtain g only m' where f: "filter_entries m n 12 [[97]] = (g, only, m')" by (cases "filter_entries m n 12 [[97]]")
  have "entries 8 12 m 0 n = [entry_at 8 12 m 0]" using entries_step [OF rec(1)] rec(2) by simp
  moreover have "hidden_entry [[97]] (entry_at 8 12 m 0)" using rec(3) by (simp add: hidden_entry_def name_matches_any_def e)
  ultimately have "g \<and> only" using filter_entries_exact [OF c rec(1) _ f] n by simp
  with f show ?thesis by auto
qed

theorem filter_entries_in_bounds_witness:
  "fst (filter_entries (\<lambda>i. if i < 80 then 1 else 7) 80 1 [[97]]) = fst (filter_entries (\<lambda>i. 1) 80 1 [[97]])"
proof -
  obtain g only m' where a: "filter_entries (\<lambda>i. 1) 80 1 [[97]] = (g, only, m')" by (cases "filter_entries (\<lambda>i. 1) 80 1 [[97]]")
  obtain g2 only2 m2' where b: "filter_entries (\<lambda>i. if i < 80 then 1 else 7) 80 1 [[97]] = (g2, only2, m2')"
    by (cases "filter_entries (\<lambda>i. if i < 80 then 1 else 7) 80 1 [[97]]")
  from filter_entries_in_bounds [OF _ a b] show ?thesis by (simp add: a b)
qed

end
