(* ===== verification/DirMerge.thy ===== *)
theory DirMerge
  imports DirFilter "HOL-Library.Multiset"
begin

text \<open>
  The merged directory listing of a guest (\<^verbatim>\<open>process_dir_output\<close> in \<^verbatim>\<open>dir_filter/supervision.rs\<close>, the states of
  \<^verbatim>\<open>dir_filter/enum_state.rs\<close>): one call hides deleted entries in the pages of the kernel, asks for further pages
  while every entry is hidden, restores the case of names and appends the children that exist only in the overlay,
  with a cursor per handle. The kernel is the list of its next replies; when it is empty the enumeration is over and
  a query answers \<^verbatim>\<open>STATUS_NO_MORE_FILES\<close>.
\<close>

section \<open>State per handle\<close>

type_synonym ntstatus = u32

definition STATUS_NO_SUCH_FILE :: ntstatus where
  "STATUS_NO_SUCH_FILE = 0xC000000F"

definition STATUS_NO_MORE_FILES :: ntstatus where
  "STATUS_NO_MORE_FILES = 0x80000006"

record dir_state =
  ds_dir :: "string option"
  ds_generation :: u64
  ds_mask :: "string option"
  ds_real_done :: bool
  ds_cursor :: nat
  ds_overlay_done :: bool
  ds_delivered :: "string set"
  ds_case_map :: "(string \<Rightarrow> u16 list option) option option"
  ds_extras :: "overlay_child list option option"

type_synonym registry_of_states = "(nat \<times> dir_state) list"

definition ENUM_STATES_CAP :: nat where
  "ENUM_STATES_CAP = 256"

fun take_enum_state :: "nat \<Rightarrow> registry_of_states \<Rightarrow> dir_state option \<times> registry_of_states" where
  "take_enum_state key [] = (None, [])"
| "take_enum_state key ((k, st) # rest) =
     (if k = key then (Some st, rest)
      else (let (found, rest') = take_enum_state key rest in (found, (k, st) # rest')))"

fun replace_state :: "nat \<Rightarrow> dir_state \<Rightarrow> registry_of_states \<Rightarrow> registry_of_states option" where
  "replace_state key st [] = None"
| "replace_state key st ((k, old) # rest) =
     (if k = key then Some ((k, st) # rest) else map_option ((#) (k, old)) (replace_state key st rest))"

definition store_enum_state :: "nat \<Rightarrow> dir_state \<Rightarrow> registry_of_states \<Rightarrow> registry_of_states" where
  "store_enum_state key st states =
     (case replace_state key st states of
        Some states' \<Rightarrow> states'
      | None \<Rightarrow> (if ENUM_STATES_CAP \<le> length states then drop 1 states else states) @ [(key, st)])"

section \<open>One query\<close>

record merge_sources =
  ms_unmirror :: "string \<Rightarrow> string option"
  ms_overlay_children :: "string \<Rightarrow> overlay_child list option"
  ms_whiteouts_under :: "string \<Rightarrow> string list option"
  ms_read_dir :: "string \<Rightarrow> string list option"
  ms_overlay_case :: "string \<Rightarrow> (string \<times> string) list option"

record io_status =
  io_code :: ntstatus
  io_information :: nat

text \<open>A reply of the kernel: status, IO status block and content of the output buffer after the call.\<close>

record kernel_reply =
  kr_status :: ntstatus
  kr_io :: io_status
  kr_buf :: membuf

record dir_query =
  dq_null_iosb :: bool
  dq_null_buffer :: bool
  dq_class :: u32
  dq_capacity :: nat
  dq_handle :: nat
  dq_single :: bool
  dq_restart :: bool
  dq_pattern :: "string option"
  dq_dir_dos :: "string option"

definition resolve_virtual_dir :: "merge_sources \<Rightarrow> string option \<Rightarrow> string option" where
  "resolve_virtual_dir S dir_dos = map_option (\<lambda>raw. unwrap_or (ms_unmirror S raw) raw) dir_dos"

definition fresh_state :: "u64 \<Rightarrow> string option \<Rightarrow> string option \<Rightarrow> dir_state" where
  "fresh_state gen dir kept_pattern =
     \<lparr>ds_dir = dir, ds_generation = gen, ds_mask = kept_pattern, ds_real_done = False, ds_cursor = 0, ds_overlay_done = False,
      ds_delivered = {}, ds_case_map = None, ds_extras = None\<rparr>"

definition resume_state :: "dir_query \<Rightarrow> string option \<Rightarrow> dir_state option \<Rightarrow> dir_state" where
  "resume_state q dir found =
     (case found of
        Some prev \<Rightarrow>
          if \<not> dq_restart q \<and> (dir = None \<or> ds_dir prev = dir)
          then (case dq_pattern q of Some p \<Rightarrow> prev\<lparr>ds_mask := Some p\<rparr> | None \<Rightarrow> prev)
          else fresh_state (if dq_restart q then ds_generation prev + 1 else 0) dir (dq_pattern q)
      | None \<Rightarrow> fresh_state 0 dir (dq_pattern q))"

definition hide_set :: "merge_sources \<Rightarrow> string option \<Rightarrow> u16 list list" where
  "hide_set S dir =
     dot_winrsbox_u16 #
     (case dir of
        None \<Rightarrow> []
      | Some d \<Rightarrow> (case ms_whiteouts_under S d of None \<Rightarrow> [] | Some ns \<Rightarrow> map (\<lambda>n. encode_utf16 (utf8_decode n)) ns))"

definition hide_lower_set :: "u16 list list \<Rightarrow> string set" where
  "hide_lower_set hide = set (map (\<lambda>w. to_ascii_lowercase (from_utf16_lossy w)) hide)"

text \<open>The case map is built once per pass and only when the directory is known; an empty one changes no name.\<close>

definition restore_case :: "merge_sources \<Rightarrow> u32 \<Rightarrow> string option \<Rightarrow> nat \<Rightarrow> membuf \<Rightarrow> dir_state \<Rightarrow> membuf \<times> dir_state" where
  "restore_case S cls dir info buf st =
     (case dir of
        None \<Rightarrow> (buf, st)
      | Some d \<Rightarrow>
          (let st' = (case ds_case_map st of
               None \<Rightarrow> st\<lparr>ds_case_map := Some (build_case_map (ms_read_dir S d) (ms_overlay_case S d))\<rparr>
             | Some _ \<Rightarrow> st)
           in (case ds_case_map st' of
                 Some (Some cm) \<Rightarrow> (rewrite_entry_case buf info cls cm, st')
               | _ \<Rightarrow> (buf, st'))))"

datatype real_phase = RealError ntstatus | RealDone ntstatus | RealPage nat

fun real_loop ::
    "merge_sources \<Rightarrow> u32 \<Rightarrow> string option \<Rightarrow> u16 list list \<Rightarrow> kernel_reply \<Rightarrow> dir_state \<Rightarrow> kernel_reply list \<Rightarrow>
     real_phase \<times> io_status \<times> membuf \<times> dir_state \<times> kernel_reply list" where
  "real_loop S cls dir hide r st replies =
     (let status = kr_status r; io = kr_io r; buf = kr_buf r; info = io_information io in
      if status = STATUS_NO_SUCH_FILE \<or> status = STATUS_NO_MORE_FILES
      then (RealDone status, io, buf, st\<lparr>ds_real_done := True\<rparr>, replies)
      else if status \<noteq> 0 then (RealError status, io, buf, st, replies)
      else if info = 0 then (RealDone status, io, buf, st\<lparr>ds_real_done := True\<rparr>, replies)
      else
        (let st = st\<lparr>ds_delivered := ds_delivered st \<union> collect_present_names_lower buf info cls\<rparr>;
             (filtered, only_hidden, buf) = filter_entries buf info cls hide
         in if only_hidden
            then (let io = io\<lparr>io_information := 0\<rparr> in
              case replies of
                [] \<Rightarrow> (RealDone STATUS_NO_MORE_FILES, io\<lparr>io_code := STATUS_NO_MORE_FILES\<rparr>, buf, st\<lparr>ds_real_done := True\<rparr>, [])
              | r' # rest \<Rightarrow> real_loop S cls dir hide r' st rest)
            else
              (let (buf, st) = restore_case S cls dir info buf st;
                   live = buffer_live_size buf info cls
               in (RealPage live, io\<lparr>io_information := live\<rparr>, buf, st, replies))))"

declare real_loop.simps [simp del]

text \<open>One turn for each child behind the cursor; \<open>i\<close> is its index. The result: cursor, delivered names, used bytes, whether
  something was delivered, the children appended, and the buffer.\<close>

type_synonym merge_acc = "nat \<times> string set \<times> nat \<times> bool \<times> overlay_child list \<times> membuf"

fun overlay_loop :: "dir_query \<Rightarrow> string option \<Rightarrow> string set \<Rightarrow> nat \<Rightarrow> overlay_child list \<Rightarrow> merge_acc \<Rightarrow> merge_acc" where
  "overlay_loop q kept_pattern hide i [] acc = acc"
| "overlay_loop q kept_pattern hide i (e # es) (cursor, delivered, base, some, out, buf) =
     (let lower = to_ascii_lowercase (oc_name e) in
      if (case kept_pattern of None \<Rightarrow> False | Some pat \<Rightarrow> \<not> filename_matches_pattern lower pat)
      then overlay_loop q kept_pattern hide (i + 1) es (i + 1, delivered, base, some, out, buf)
      else if lower \<in> delivered then overlay_loop q kept_pattern hide (i + 1) es (i + 1, delivered, base, some, out, buf)
      else if lower \<in> hide then overlay_loop q kept_pattern hide (i + 1) es (i + 1, delivered, base, some, out, buf)
      else if dq_single q \<and> some then (cursor, delivered, base, some, out, buf)
      else
        (let (new_size, buf') = append_overlay_entries buf base (dq_capacity q) (dq_class q) [e]
         in if base + 8 \<le> new_size
            then overlay_loop q kept_pattern hide (i + 1) es (i + 1, insert lower delivered, new_size, True, out @ [e], buf')
            else (cursor, delivered, base, some, out, buf')))"

definition overlay_phase ::
    "merge_sources \<Rightarrow> dir_query \<Rightarrow> string option \<Rightarrow> string set \<Rightarrow> nat \<Rightarrow> bool \<Rightarrow> membuf \<Rightarrow> dir_state \<Rightarrow>
     nat \<times> bool \<times> overlay_child list \<times> membuf \<times> dir_state" where
  "overlay_phase S q dir hide base some buf st =
     (if ds_overlay_done st then (base, some, [], buf, st)
      else (case dir of
          None \<Rightarrow> (base, some, [], buf, st)
        | Some d \<Rightarrow>
            (let fetched = (case ds_extras st of
                 Some (Some es) \<Rightarrow> Some (Some es)
               | _ \<Rightarrow> Some (ms_overlay_children S d))
             in case fetched of
                  Some (Some extras) \<Rightarrow>
                    (let (cursor, delivered, base, some, out, buf) =
                       overlay_loop q (map_option to_ascii_lowercase (ds_mask st)) hide (ds_cursor st) (drop (ds_cursor st) extras)
                         (ds_cursor st, ds_delivered st, base, some, [], buf)
                     in (base, some, out, buf,
                         st\<lparr>ds_cursor := cursor, ds_delivered := delivered,
                            ds_overlay_done := ds_overlay_done st \<or> length extras \<le> cursor, ds_extras := Some (Some extras)\<rparr>))
                | _ \<Rightarrow> (base, some, [], buf, st\<lparr>ds_extras := fetched\<rparr>))))"

record merge_result =
  mr_status :: ntstatus
  mr_io :: io_status
  mr_buf :: membuf
  mr_states :: registry_of_states
  mr_replies :: "kernel_reply list"

text \<open>The real phase is skipped once the real stream is exhausted.\<close>

definition real_stream ::
    "merge_sources \<Rightarrow> dir_query \<Rightarrow> string option \<Rightarrow> u16 list list \<Rightarrow> kernel_reply \<Rightarrow> dir_state \<Rightarrow> kernel_reply list \<Rightarrow>
     real_phase \<times> io_status \<times> membuf \<times> dir_state \<times> kernel_reply list" where
  "real_stream S q dir hide r st replies =
     (if ds_real_done st then (RealDone (kr_status r), kr_io r, kr_buf r, st, replies)
      else real_loop S (dq_class q) dir hide r st replies)"

text \<open>The end phase; \<open>states\<close> is the registry without the entry of this handle.\<close>

definition end_phase ::
    "nat \<Rightarrow> ntstatus \<Rightarrow> nat \<Rightarrow> bool \<Rightarrow> io_status \<Rightarrow> membuf \<Rightarrow> dir_state \<Rightarrow> registry_of_states \<Rightarrow> kernel_reply list \<Rightarrow> merge_result" where
  "end_phase key status base delivered_this_call io buf st states replies =
     (if delivered_this_call
      then \<lparr>mr_status = 0, mr_io = \<lparr>io_code = 0, io_information = base\<rparr>, mr_buf = buf,
            mr_states = store_enum_state key st states, mr_replies = replies\<rparr>
      else
        (let states = (if ds_real_done st \<and> ds_overlay_done st then states else store_enum_state key st states);
             io = io\<lparr>io_information := 0\<rparr>
         in if status = STATUS_NO_SUCH_FILE
            then \<lparr>mr_status = status, mr_io = io, mr_buf = buf, mr_states = states, mr_replies = replies\<rparr>
            else \<lparr>mr_status = STATUS_NO_MORE_FILES, mr_io = io\<lparr>io_code := STATUS_NO_MORE_FILES\<rparr>,
                  mr_buf = buf, mr_states = states, mr_replies = replies\<rparr>))"

definition process_dir_output ::
    "merge_sources \<Rightarrow> dir_query \<Rightarrow> kernel_reply \<Rightarrow> kernel_reply list \<Rightarrow> registry_of_states \<Rightarrow> merge_result" where
  "process_dir_output S q r replies states =
     (if dq_null_iosb q
      then \<lparr>mr_status = kr_status r, mr_io = kr_io r, mr_buf = kr_buf r, mr_states = states, mr_replies = replies\<rparr>
      else
        (let dir = resolve_virtual_dir S (dq_dir_dos q);
             key = dq_handle q;
             (found, states) = take_enum_state key states;
             st = resume_state q dir found
         in if dq_null_buffer q
            then \<lparr>mr_status = kr_status r, mr_io = kr_io r, mr_buf = kr_buf r, mr_states = store_enum_state key st states,
                  mr_replies = replies\<rparr>
            else
              (let hide = hide_set S dir;
                   (phase, io, buf, st, replies) = real_stream S q dir hide r st replies
               in case phase of
                    RealError status \<Rightarrow>
                      \<lparr>mr_status = status, mr_io = io, mr_buf = buf, mr_states = store_enum_state key st states, mr_replies = replies\<rparr>
                  | RealDone status \<Rightarrow>
                      (let (base, some, out, buf, st) = overlay_phase S q dir (hide_lower_set hide) 0 False buf st
                       in end_phase key status base some io buf st states replies)
                  | RealPage live \<Rightarrow>
                      (let (base, some, out, buf, st) = overlay_phase S q dir (hide_lower_set hide) live True buf st
                       in end_phase key 0 base some io buf st states replies))))"

section \<open>The registry of states\<close>

lemma take_enum_state_props:
  "take_enum_state key states = (found, rest) \<Longrightarrow>
     length rest \<le> length states \<and> set rest \<subseteq> set states \<and>
     (distinct (map fst states) \<longrightarrow> distinct (map fst rest) \<and> key \<notin> fst ` set rest)"
proof (induction states arbitrary: found rest)
  case (Cons a states)
  obtain k st where a: "a = (k, st)" by (cases a)
  obtain found' rest' where t: "take_enum_state key states = (found', rest')" by (cases "take_enum_state key states")
  show ?case
  proof (cases "k = key")
    case True
    with Cons.prems a show ?thesis by auto
  next
    case False
    with Cons.prems a t have r: "rest = (k, st) # rest'" by simp
    from Cons.IH [OF t] False r a show ?thesis by auto
  qed
qed simp

lemma replace_state_None: "replace_state key st states = None \<longleftrightarrow> key \<notin> fst ` set states"
proof (induction states)
  case (Cons a states)
  then show ?case by (cases a) (auto simp: image_iff)
qed simp

lemma replace_state_Some:
  "replace_state key st states = Some states' \<Longrightarrow>
     length states' = length states \<and> map fst states' = map fst states \<and> fst (take_enum_state key states') = Some st"
proof (induction states arbitrary: states')
  case (Cons a states)
  obtain k old where a: "a = (k, old)" by (cases a)
  show ?case
  proof (cases "k = key")
    case True
    with Cons.prems a show ?thesis by auto
  next
    case False
    with Cons.prems a obtain r where r: "replace_state key st states = Some r" "states' = (k, old) # r" by auto
    with Cons.IH [OF r(1)] False a show ?thesis by (cases "take_enum_state key r") auto
  qed
qed simp

lemma take_appended: "key \<notin> fst ` set states \<Longrightarrow> fst (take_enum_state key (states @ [(key, st)])) = Some st"
  by (induction states) (auto split: prod.split)

lemma store_then_take: "fst (take_enum_state key (store_enum_state key st states)) = Some st"
proof (cases "replace_state key st states")
  case None
  then have k: "key \<notin> fst ` set states" by (simp add: replace_state_None)
  then have "key \<notin> fst ` set (drop 1 states)" by (meson image_mono in_mono set_drop_subset)
  with k None show ?thesis by (simp add: store_enum_state_def take_appended)
next
  case (Some s)
  with replace_state_Some [OF Some] show ?thesis by (simp add: store_enum_state_def)
qed

lemma store_bounded: "length states \<le> ENUM_STATES_CAP \<Longrightarrow> length (store_enum_state key st states) \<le> ENUM_STATES_CAP"
  by (auto simp: store_enum_state_def ENUM_STATES_CAP_def split: option.split dest: replace_state_Some)

section \<open>What the overlay still owes\<close>

definition wanted :: "string option \<Rightarrow> string set \<Rightarrow> string set \<Rightarrow> overlay_child \<Rightarrow> bool" where
  "wanted kept_pattern hide delivered e \<longleftrightarrow>
     (let lower = to_ascii_lowercase (oc_name e)
      in (case kept_pattern of None \<Rightarrow> True | Some pat \<Rightarrow> filename_matches_pattern lower pat) \<and> lower \<notin> delivered \<and> lower \<notin> hide)"

text \<open>The children to deliver, in order, each lower-case name once.\<close>

fun owed :: "string option \<Rightarrow> string set \<Rightarrow> string set \<Rightarrow> overlay_child list \<Rightarrow> overlay_child list" where
  "owed kept_pattern hide delivered [] = []"
| "owed kept_pattern hide delivered (e # es) =
     (if wanted kept_pattern hide delivered e
      then e # owed kept_pattern hide (insert (to_ascii_lowercase (oc_name e)) delivered) es
      else owed kept_pattern hide delivered es)"

lemma owed_distinct:
  "distinct (map (\<lambda>e. to_ascii_lowercase (oc_name e)) (owed kept_pattern hide delivered es)) \<and>
   (\<forall>e \<in> set (owed kept_pattern hide delivered es). e \<in> set es \<and> wanted kept_pattern hide delivered e)"
proof (induction es arbitrary: delivered)
  case (Cons e es)
  let ?x = "to_ascii_lowercase (oc_name e)"
  have w: "wanted kept_pattern hide delivered d \<and> to_ascii_lowercase (oc_name d) \<noteq> ?x" if "wanted kept_pattern hide (insert ?x delivered) d" for d
    using that by (auto simp: wanted_def Let_def)
  show ?case
  proof (cases "wanted kept_pattern hide delivered e")
    case True
    let ?o = "owed kept_pattern hide (insert ?x delivered) es"
    from Cons.IH [of "insert ?x delivered"] have ih: "distinct (map (\<lambda>e. to_ascii_lowercase (oc_name e)) ?o)"
      "\<And>d. d \<in> set ?o \<Longrightarrow> d \<in> set es \<and> wanted kept_pattern hide (insert ?x delivered) d" by auto
    have "?x \<notin> (\<lambda>e. to_ascii_lowercase (oc_name e)) ` set ?o" using ih(2) w by force
    with True ih w show ?thesis by auto
  next
    case False
    with Cons.IH [of delivered] show ?thesis by auto
  qed
qed simp

definition page_ok :: "nat \<Rightarrow> nat \<Rightarrow> membuf \<Rightarrow> nat \<Rightarrow> bool" where
  "page_ok nl no buf n \<longleftrightarrow> n = 0 \<or> well_chain nl no buf 0 n"

definition page_names :: "nat \<Rightarrow> nat \<Rightarrow> membuf \<Rightarrow> nat \<Rightarrow> u16 list list" where
  "page_names nl no buf n = (if n = 0 then [] else map snd (entries nl no buf 0 n))"

lemma append_one:
  assumes c: "dir_info_name_offsets cls = Some (nl, no)" and p: "page_ok nl no m used" and cap: "cap < 2 ^ 32"
    and run: "append_overlay_entries m used cap cls [e] = (k, m')"
  shows "k < used + 8 \<and> m' = m \<and> cap < round8 used + record_size no e \<or>
    used + 8 \<le> k \<and> k \<le> cap \<and> well_chain nl no m' 0 k \<and> page_names nl no m' k = page_names nl no m used @ [child_units e]"
proof -
  note l = dir_info_lawful [OF c]
  have no: "8 \<le> no" using l by (simp add: lawful_offsets_def)
  let ?w = "round8 used" and ?n = "record_size no e"
  have n8: "8 \<le> ?n" using round8_bounds(1) [of "no + 2 * length (child_units e)"] no by (simp add: record_size_def)
  show ?thesis
  proof (cases "cap < ?w + ?n")
    case True
    with run c have "k = ?w \<and> m' = m" by (simp add: append_overlay_entries_def Let_def record_size_def)
    then show ?thesis using round8_bounds(2) [of used] True by simp
  next
    case False
    show ?thesis
    proof (cases "used = 0")
      case True
      then have w: "?w = 0" by (simp add: round8_def)
      have small: "0 + ?n < 2 ^ 32" using False cap by simp
      note rec = written_record [OF c small, where m = m]
      from run c False True w have k: "k = ?n" "m' = write_entry cls (nl, no) e (child_units e) m 0 ?n"
        by (auto simp: append_overlay_entries_def Let_def record_size_def)
      from rec entries_step [OF rec(1)] k n8 False w True show ?thesis by (simp add: page_names_def)
    next
      case used: False
      with p have w: "well_chain nl no m 0 used" by (simp add: page_ok_def)
      from tail_loop_well [OF l w] obtain t where t: "tail_loop m 0 used = Some t" by blast
      from run c used t have "append_loop cls (nl, no) cap [e] m (Some t) ?w = (k, m')" by (simp add: append_overlay_entries_def)
      note spec = append_loop_some [OF c w t round8_bounds(1) cap this]
      from spec obtain n new where n: "n \<le> length [e]" "well_chain nl no m' 0 k"
        "entries nl no m' 0 k = entries nl no m 0 used @ new" "map snd new = map child_units (take n [e])"
        "k = ?w + sum_list (map (record_size no) (take n [e]))" "n < length [e] \<longrightarrow> cap < k + record_size no ([e] ! n)" "0 < n \<longrightarrow> k \<le> cap"
        by blast
      have n1: "n = 1"
      proof (rule ccontr)
        assume "n \<noteq> 1"
        with n(1) have "n = 0" by simp
        with n(5,6) False show False by simp
      qed
      have k: "k = ?w + ?n" "k \<le> cap" "map snd new = [child_units e]" using n(4,5,7) by (simp_all add: n1)
      have "used + 8 \<le> k" using k(1) n8 round8_bounds(1) [of used] by linarith
      then show ?thesis using n(2,3) k(2,3) used by (simp add: page_names_def)
    qed
  qed
qed

text \<open>
  Why the loop stopped: nothing is owed any more, or one entry was asked for and there is one, or the next child does
  not fit behind the bytes in use.
\<close>

definition page_full :: "nat \<Rightarrow> dir_query \<Rightarrow> bool \<Rightarrow> nat \<Rightarrow> overlay_child list \<Rightarrow> bool" where
  "page_full no q shown used left \<longleftrightarrow>
     (case left of [] \<Rightarrow> True | e # rest \<Rightarrow> dq_single q \<and> shown \<or> dq_capacity q < round8 used + record_size no e)"

lemma overlay_loop_spec:
  assumes c: "dir_info_name_offsets (dq_class q) = Some (nl, no)" and cap: "dq_capacity q < 2 ^ 32"
  shows "page_ok nl no buf base \<Longrightarrow>
    overlay_loop q kept_pattern hide i es (i, D, base, some, out, buf) = (cursor, D', base', some', out', buf') \<Longrightarrow>
    \<exists>new. out' = out @ new \<and> D' = D \<union> (\<lambda>e. to_ascii_lowercase (oc_name e)) ` set new \<and> i \<le> cursor \<and> cursor \<le> i + length es \<and>
      owed kept_pattern hide D es = new @ owed kept_pattern hide D' (drop (cursor - i) es) \<and> page_ok nl no buf' base' \<and>
      page_names nl no buf' base' = page_names nl no buf base @ map child_units new \<and>
      (some' \<longleftrightarrow> some \<or> new \<noteq> []) \<and> (new \<noteq> [] \<longrightarrow> base' \<le> dq_capacity q) \<and> (new = [] \<longrightarrow> base' = base) \<and>
      (new \<noteq> [] \<longrightarrow> i < cursor) \<and>
      (new = [] \<and> \<not> some \<and> base = 0 \<and> (\<forall>e \<in> set es. record_size no e \<le> dq_capacity q) \<longrightarrow> cursor = i + length es) \<and>
      page_full no q some' base' (owed kept_pattern hide D' (drop (cursor - i) es)) \<and>
      (dq_single q \<longrightarrow> length new \<le> (if some then 0 else 1))"
proof (induction es arbitrary: i D base some out buf)
  case Nil
  then show ?case by (simp add: page_full_def)
next
  case (Cons e es)
  let ?lower = "to_ascii_lowercase (oc_name e)"
  have d: "drop (cursor - i) (e # es) = drop (cursor - (i + 1)) es" if "i + 1 \<le> cursor" for cursor
    using that by (simp add: drop_Cons' Suc_diff_le [symmetric])
  show ?case
  proof (cases "wanted kept_pattern hide D e")
    case False
    then have "overlay_loop q kept_pattern hide (i + 1) es (i + 1, D, base, some, out, buf) = (cursor, D', base', some', out', buf')"
      using Cons.prems(2) by (auto simp: wanted_def Let_def split: option.splits if_splits)
    note ih = Cons.IH [OF Cons.prems(1) this]
    then have "i + 1 \<le> cursor" by blast
    note dd = d [OF this]
    have o: "owed kept_pattern hide D (e # es) = owed kept_pattern hide D es" using False by simp
    from ih show ?thesis unfolding dd o by (rule ex_forward) auto
  next
    case True
    then have w: "\<not> (case kept_pattern of None \<Rightarrow> False | Some pat \<Rightarrow> \<not> filename_matches_pattern ?lower pat)" "?lower \<notin> D" "?lower \<notin> hide"
      by (auto simp: wanted_def Let_def split: option.splits)
    show ?thesis
    proof (cases "dq_single q \<and> some")
      case stop: True
      have "(i, D, base, some, out, buf) = (cursor, D', base', some', out', buf')"
        using Cons.prems(2) w stop by (simp add: Let_def)
      with stop True Cons.prems(1) show ?thesis by (intro exI [of _ "[]"]) (auto simp: page_full_def)
    next
      case go: False
      obtain k m' where a: "append_overlay_entries buf base (dq_capacity q) (dq_class q) [e] = (k, m')"
        by (cases "append_overlay_entries buf base (dq_capacity q) (dq_class q) [e]")
      note one = append_one [OF c Cons.prems(1) cap a]
      show ?thesis
      proof (cases "base + 8 \<le> k")
        case fits: True
        from Cons.prems(2) w go a fits
        have run: "overlay_loop q kept_pattern hide (i + 1) es (i + 1, insert ?lower D, k, True, out @ [e], m') = (cursor, D', base', some', out', buf')"
          by (simp add: Let_def)
        from one fits have p: "page_ok nl no m' k" "page_names nl no m' k = page_names nl no buf base @ [child_units e]" "k \<le> dq_capacity q"
          by (auto simp: page_ok_def)
        from Cons.IH [OF p(1) run] obtain new where n: "out' = (out @ [e]) @ new"
          "D' = insert ?lower D \<union> (\<lambda>e. to_ascii_lowercase (oc_name e)) ` set new" "i + 1 \<le> cursor" "cursor \<le> i + 1 + length es"
          "owed kept_pattern hide (insert ?lower D) es = new @ owed kept_pattern hide D' (drop (cursor - (i + 1)) es)" "page_ok nl no buf' base'"
          "page_names nl no buf' base' = page_names nl no m' k @ map child_units new" "some'" "new \<noteq> [] \<longrightarrow> base' \<le> dq_capacity q"
          "new = [] \<longrightarrow> base' = k" "page_full no q some' base' (owed kept_pattern hide D' (drop (cursor - (i + 1)) es))"
          "dq_single q \<longrightarrow> new = []" by auto
        have dd: "drop (cursor - i) (e # es) = drop (cursor - (i + 1)) es" by (rule d [OF n(3)])
        have o: "owed kept_pattern hide D (e # es) = e # owed kept_pattern hide (insert ?lower D) es" using True by simp
        have "dq_single q \<longrightarrow> length (e # new) \<le> (if some then 0 else 1)" using go n(12) by auto
        moreover have "base' \<le> dq_capacity q" using n(9,10) p(3) by (cases "new = []") simp_all
        ultimately show ?thesis unfolding dd o
          using n(1-11) p by (intro exI [of _ "e # new"]) simp
      next
        case full: False
        with one have m': "m' = buf" and big: "dq_capacity q < round8 base + record_size no e" by auto
        have "\<not> (base = 0 \<and> record_size no e \<le> dq_capacity q)" using big by (auto simp: round8_def)
        moreover from big True have "page_full no q some base (owed kept_pattern hide D (e # es))" by (simp add: page_full_def)
        moreover have "(i, D, base, some, out, buf) = (cursor, D', base', some', out', buf')"
          using m' Cons.prems(2) w go a full by (simp add: Let_def)
        ultimately show ?thesis using m' Cons.prems(1) by (intro exI [of _ "[]"]) auto
      qed
    qed
  qed
qed

section \<open>The pages of the kernel\<close>

lemma collect_loop_well:
  assumes l: "lawful_offsets (nl, no)"
  shows "well_chain nl no m c a \<Longrightarrow>
    collect_loop nl no m c a = map units_lower (filter (\<lambda>us. us \<noteq> []) (map snd (entries nl no m c a)))"
proof (induction a arbitrary: c rule: less_induct)
  case (less a)
  let ?next = "rd_le 4 m c" and ?len = "rd_le 4 m (c + nl)"
  note w = less.prems(1) [THEN well_chain_cases] and es = entries_step [OF less.prems(1)]
  have no: "8 \<le> no" "nl + 4 \<le> no" "no + ?len \<le> a" using l w by (auto simp: lawful_offsets_def)
  then have ok: "\<not> (a = 0 \<or> a < nl + 4)" by simp
  have e: "snd (entry_at nl no m c) = name_units m (c + no) (?len div 2)" by (simp add: entry_at_def Let_def)
  have ne: "name_units m (c + no) (?len div 2) \<noteq> [] \<longleftrightarrow> 2 \<le> ?len" by (auto simp: name_units_def)
  note run = collect_loop.simps [of nl no m c a, unfolded if_not_P [OF ok] Let_def]
  show ?case
  proof (cases "?next = 0")
    case True
    with run no e ne es show ?thesis by simp
  next
    case False
    with w have t: "no + ?len \<le> ?next" "?next < a" "well_chain nl no m (c + ?next) (a - ?next)" by auto
    with False have "a - ?next < a" by auto
    from less.IH [OF this t(3)] run no e ne es False t(2) show ?thesis by simp
  qed
qed

abbreviation reply_size :: "kernel_reply \<Rightarrow> nat" where
  "reply_size r \<equiv> io_information (kr_io r)"

definition good_page :: "nat \<Rightarrow> nat \<Rightarrow> kernel_reply \<Rightarrow> bool" where
  "good_page nl no r \<longleftrightarrow> kr_status r = 0 \<and> reply_size r \<noteq> 0 \<and> reply_size r < 2 ^ 32 \<and> well_chain nl no (kr_buf r) 0 (reply_size r)"

definition end_reply :: "kernel_reply \<Rightarrow> bool" where
  "end_reply r \<longleftrightarrow> kr_status r \<in> {STATUS_NO_SUCH_FILE, STATUS_NO_MORE_FILES}"

definition reply_entries :: "nat \<Rightarrow> nat \<Rightarrow> kernel_reply \<Rightarrow> dir_entry list" where
  "reply_entries nl no r = entries nl no (kr_buf r) 0 (reply_size r)"

definition reply_names :: "nat \<Rightarrow> nat \<Rightarrow> kernel_reply \<Rightarrow> string set" where
  "reply_names nl no r = (if end_reply r then {} else units_lower ` {us \<in> snd ` set (reply_entries nl no r). us \<noteq> []})"

definition all_hidden :: "nat \<Rightarrow> nat \<Rightarrow> u16 list list \<Rightarrow> kernel_reply \<Rightarrow> bool" where
  "all_hidden nl no hide r \<longleftrightarrow> list_all (hidden_entry hide) (reply_entries nl no r)"

definition visible_names :: "nat \<Rightarrow> nat \<Rightarrow> u16 list list \<Rightarrow> kernel_reply \<Rightarrow> u16 list list" where
  "visible_names nl no hide r = map snd (filter (\<lambda>e. \<not> hidden_entry hide e) (reply_entries nl no r))"

text \<open>The names of the pass are restored with the case map of the pass, when there is one.\<close>

definition pass_case_map :: "merge_sources \<Rightarrow> string option \<Rightarrow> dir_state \<Rightarrow> (string \<Rightarrow> u16 list option) option" where
  "pass_case_map S dir st =
     (case dir of
        None \<Rightarrow> None
      | Some d \<Rightarrow> (case ds_case_map st of Some c \<Rightarrow> c | None \<Rightarrow> build_case_map (ms_read_dir S d) (ms_overlay_case S d)))"

definition restored :: "(string \<Rightarrow> u16 list option) option \<Rightarrow> u16 list \<Rightarrow> u16 list" where
  "restored cm us = (case cm of None \<Rightarrow> us | Some c \<Rightarrow> restore_name c us)"

text \<open>The real phase leaves everything but the delivered names, the case map and the end of the real stream alone.\<close>

definition same_pass :: "merge_sources \<Rightarrow> string option \<Rightarrow> dir_state \<Rightarrow> dir_state \<Rightarrow> bool" where
  "same_pass S dir st st' \<longleftrightarrow>
     pass_case_map S dir st' = pass_case_map S dir st \<and>
     ds_cursor st' = ds_cursor st \<and> ds_overlay_done st' = ds_overlay_done st \<and> ds_mask st' = ds_mask st \<and>
     ds_extras st' = ds_extras st \<and> ds_dir st' = ds_dir st \<and> ds_generation st' = ds_generation st"

lemma pass_case_map_updates [simp]:
  "pass_case_map S dir (st\<lparr>ds_real_done := b\<rparr>) = pass_case_map S dir st"
  "pass_case_map S dir (st\<lparr>ds_delivered := D\<rparr>) = pass_case_map S dir st"
  by (simp_all add: pass_case_map_def split: option.split)

lemma status_codes [simp]: "STATUS_NO_SUCH_FILE \<noteq> 0" "STATUS_NO_MORE_FILES \<noteq> 0" "STATUS_NO_SUCH_FILE \<noteq> STATUS_NO_MORE_FILES"
  by (simp_all add: STATUS_NO_SUCH_FILE_def STATUS_NO_MORE_FILES_def)

lemma collect_reply:
  assumes c: "dir_info_name_offsets cls = Some (nl, no)" and g: "good_page nl no r"
  shows "collect_present_names_lower (kr_buf r) (reply_size r) cls = reply_names nl no r"
proof -
  from g have w: "well_chain nl no (kr_buf r) 0 (reply_size r)" and n: "\<not> end_reply r" by (auto simp: good_page_def end_reply_def)
  show ?thesis unfolding collect_present_names_lower_def c
    using collect_loop_well [OF dir_info_lawful [OF c] w] n by (auto simp: reply_names_def reply_entries_def)
qed

lemma restore_case_spec:
  assumes c: "dir_info_name_offsets cls = Some (nl, no)" and w: "well_chain nl no buf 0 n"
    and run: "restore_case S cls dir n buf st = (buf', st')"
  shows "well_chain nl no buf' 0 n \<and>
    map snd (entries nl no buf' 0 n) = map (\<lambda>e. restored (pass_case_map S dir st) (snd e)) (entries nl no buf 0 n) \<and>
    same_pass S dir st st' \<and> ds_delivered st' = ds_delivered st \<and> ds_real_done st' = ds_real_done st"
proof -
  have rw: "well_chain nl no (rewrite_entry_case buf n cls cm) 0 n \<and>
      map snd (entries nl no (rewrite_entry_case buf n cls cm) 0 n) = map (\<lambda>e. restore_name cm (snd e)) (entries nl no buf 0 n)" for cm
    using rewrite_loop_well [OF dir_info_lawful [OF c] w refl, of cm] c by (simp add: rewrite_entry_case_def)
  from run w rw show ?thesis
    by (auto simp: restore_case_def pass_case_map_def restored_def same_pass_def Let_def split: option.splits)
qed

lemma live_size_spec:
  fixes buf :: membuf
  assumes c: "dir_info_name_offsets cls = Some (nl, no)" and w: "well_chain nl no buf 0 n" and n: "n \<noteq> 0"
  defines "live \<equiv> buffer_live_size buf n cls"
  shows "live \<noteq> 0 \<and> live \<le> n \<and> well_chain nl no buf 0 live \<and> entries nl no buf 0 live = entries nl no buf 0 n"
proof -
  from live_loop_well [OF dir_info_lawful [OF c] w] obtain k where
    k: "k \<le> n" "live_loop nl no buf 0 n = 0 + k" "well_chain nl no buf 0 k" "entries nl no buf 0 k = entries nl no buf 0 n" by blast
  have "live = k" using c n k(2) by (simp add: live_def buffer_live_size_def)
  moreover have "k \<noteq> 0" using well_chain_cases [OF k(3)] dir_info_lawful [OF c] by (auto simp: lawful_offsets_def)
  ultimately show ?thesis using k by simp
qed

text \<open>One reply: an end, a page that is hidden altogether, or a page with something to show.\<close>

lemma real_turn_visible:
  assumes c: "dir_info_name_offsets cls = Some (nl, no)" and g: "good_page nl no r" and v: "\<not> all_hidden nl no hide r"
  shows "\<exists>live io buf st'. real_loop S cls dir hide r st replies = (RealPage live, io, buf, st', replies) \<and>
    live \<noteq> 0 \<and> live \<le> reply_size r \<and> well_chain nl no buf 0 live \<and>
    page_names nl no buf live = map (restored (pass_case_map S dir st)) (visible_names nl no hide r) \<and>
    same_pass S dir st st' \<and> ds_delivered st' = ds_delivered st \<union> reply_names nl no r \<and> ds_real_done st' = ds_real_done st"
proof -
  let ?n = "reply_size r"
  from g have w: "well_chain nl no (kr_buf r) 0 ?n" and n: "?n \<noteq> 0" "?n < 2 ^ 32" and s: "kr_status r = 0" by (auto simp: good_page_def)
  obtain f only buf1 where fe: "filter_entries (kr_buf r) ?n cls hide = (f, only, buf1)" by (cases "filter_entries (kr_buf r) ?n cls hide")
  then have "filter_loop nl no hide (kr_buf r) None 0 ?n False = (f, only, buf1)" using c by (simp add: filter_entries_def)
  from filter_loop_none [OF dir_info_lawful [OF c] w _ this] n v
  have F: "\<not> only" "well_chain nl no buf1 0 ?n" "entries nl no buf1 0 ?n = filter (\<lambda>e. \<not> hidden_entry hide e) (reply_entries nl no r)"
    by (auto simp: all_hidden_def reply_entries_def)
  define st1 where "st1 = st\<lparr>ds_delivered := ds_delivered st \<union> reply_names nl no r\<rparr>"
  have cm: "pass_case_map S dir st1 = pass_case_map S dir st" by (simp add: pass_case_map_def st1_def split: option.split)
  obtain buf2 st2 where rc: "restore_case S cls dir ?n buf1 st1 = (buf2, st2)" by (cases "restore_case S cls dir ?n buf1 st1")
  note R = restore_case_spec [OF c F(2) rc, unfolded cm]
  note L = live_size_spec [OF c conjunct1 [OF R] n(1)]
  have "real_loop S cls dir hide r st replies =
      (RealPage (buffer_live_size buf2 ?n cls), (kr_io r)\<lparr>io_information := buffer_live_size buf2 ?n cls\<rparr>, buf2, st2, replies)"
    using s n(1) F(1) by (subst real_loop.simps) (simp add: Let_def fe collect_reply [OF c g] st1_def [symmetric] rc)
  moreover have "page_names nl no buf2 (buffer_live_size buf2 ?n cls) = map (restored (pass_case_map S dir st)) (visible_names nl no hide r)"
    using L R F(3) by (simp add: page_names_def visible_names_def comp_def)
  moreover have "same_pass S dir st st2" "ds_delivered st2 = ds_delivered st \<union> reply_names nl no r" "ds_real_done st2 = ds_real_done st"
    using R cm by (auto simp: same_pass_def st1_def)
  ultimately show ?thesis using L by blast
qed

lemma real_turn_hidden:
  fixes st :: dir_state
  assumes c: "dir_info_name_offsets cls = Some (nl, no)" and g: "good_page nl no r" and v: "all_hidden nl no hide r"
  defines "st1 \<equiv> st\<lparr>ds_delivered := ds_delivered st \<union> reply_names nl no r\<rparr>"
  shows "real_loop S cls dir hide r st (r' # rest) = real_loop S cls dir hide r' st1 rest"
    and "\<exists>io buf. real_loop S cls dir hide r st [] = (RealDone STATUS_NO_MORE_FILES, io, buf, st1\<lparr>ds_real_done := True\<rparr>, [])"
proof -
  let ?n = "reply_size r"
  from g have w: "well_chain nl no (kr_buf r) 0 ?n" and n: "?n \<noteq> 0" "?n < 2 ^ 32" and s: "kr_status r = 0" by (auto simp: good_page_def)
  obtain f only buf1 where fe: "filter_entries (kr_buf r) ?n cls hide = (f, only, buf1)" by (cases "filter_entries (kr_buf r) ?n cls hide")
  then have "filter_loop nl no hide (kr_buf r) None 0 ?n False = (f, only, buf1)" using c by (simp add: filter_entries_def)
  from filter_loop_none [OF dir_info_lawful [OF c] w _ this] n v have F: "only" by (auto simp: all_hidden_def reply_entries_def)
  show "real_loop S cls dir hide r st (r' # rest) = real_loop S cls dir hide r' st1 rest"
    using s n(1) F by (subst real_loop.simps) (simp add: Let_def fe collect_reply [OF c g] st1_def)
  show "\<exists>io buf. real_loop S cls dir hide r st [] = (RealDone STATUS_NO_MORE_FILES, io, buf, st1\<lparr>ds_real_done := True\<rparr>, [])"
    using s n(1) F by (subst real_loop.simps) (simp add: Let_def fe collect_reply [OF c g] st1_def)
qed

lemma real_turn_end:
  "end_reply r \<Longrightarrow> real_loop S cls dir hide r st replies = (RealDone (kr_status r), kr_io r, kr_buf r, st\<lparr>ds_real_done := True\<rparr>, replies)"
  by (subst real_loop.simps) (auto simp: end_reply_def Let_def)

text \<open>The stream of visible pages: what the next page shows, the names it and the pages skipped before it carried, the
  replies left, and whether the stream has ended.\<close>

fun next_page :: "nat \<Rightarrow> nat \<Rightarrow> u16 list list \<Rightarrow> kernel_reply list \<Rightarrow> u16 list list \<times> string set \<times> kernel_reply list \<times> bool" where
  "next_page nl no hide [] = ([], {}, [], True)"
| "next_page nl no hide (r # rs) =
     (if end_reply r then ([], {}, rs, True)
      else if all_hidden nl no hide r
      then (let (v, N, rest, ended) = next_page nl no hide rs in (v, reply_names nl no r \<union> N, rest, ended))
      else (visible_names nl no hide r, reply_names nl no r, rs, False))"

lemma all_hidden_names: "\<not> all_hidden nl no hide r \<Longrightarrow> visible_names nl no hide r \<noteq> []"
  by (auto simp: all_hidden_def visible_names_def list_all_iff filter_empty_conv)

lemma next_page_ended: "next_page nl no hide rs = (v, N, rest, ended) \<Longrightarrow> (v = [] \<longleftrightarrow> ended)"
  by (induction rs arbitrary: v N rest ended) (auto simp: all_hidden_names split: if_splits prod.splits)

lemma real_loop_spec:
  assumes c: "dir_info_name_offsets cls = Some (nl, no)"
  shows "\<forall>p \<in> set (r # replies). good_page nl no p \<or> end_reply p \<Longrightarrow>
    next_page nl no hide (r # replies) = (vis, N, rest, ended) \<Longrightarrow>
    \<exists>phase io buf st'. real_loop S cls dir hide r st replies = (phase, io, buf, st', rest) \<and>
      same_pass S dir st st' \<and> ds_delivered st' = ds_delivered st \<union> N \<and> ds_real_done st' = (ds_real_done st \<or> ended) \<and>
      (if ended then \<exists>status. phase = RealDone status \<and> status \<in> {STATUS_NO_SUCH_FILE, STATUS_NO_MORE_FILES}
       else \<exists>live. phase = RealPage live \<and> live \<noteq> 0 \<and> page_ok nl no buf live \<and>
         page_names nl no buf live = map (restored (pass_case_map S dir st)) vis)"
proof (induction replies arbitrary: r st vis N rest ended)
  case Nil
  show ?case
  proof (cases "end_reply r")
    case True
    with Nil.prems(2) real_turn_end [OF True, of S cls dir hide st "[]"] show ?thesis by (auto simp: same_pass_def end_reply_def)
  next
    case False
    with Nil.prems(1) have g: "good_page nl no r" by simp
    show ?thesis
    proof (cases "all_hidden nl no hide r")
      case True
      with Nil.prems(2) False real_turn_hidden(2) [OF c g True, of S dir st] show ?thesis by (auto simp: same_pass_def)
    next
      case v: False
      from real_turn_visible [OF c g v, of S dir st "[]"] Nil.prems(2) False v show ?thesis by (auto simp: page_ok_def)
    qed
  qed
next
  case (Cons r' replies)
  show ?case
  proof (cases "end_reply r")
    case True
    with Cons.prems(2) real_turn_end [OF True, of S cls dir hide st "r' # replies"] show ?thesis by (auto simp: same_pass_def end_reply_def)
  next
    case False
    with Cons.prems(1) have g: "good_page nl no r" by simp
    show ?thesis
    proof (cases "all_hidden nl no hide r")
      case True
      define st1 where "st1 = st\<lparr>ds_delivered := ds_delivered st \<union> reply_names nl no r\<rparr>"
      obtain N1 where np: "next_page nl no hide (r' # replies) = (vis, N1, rest, ended)" "N = reply_names nl no r \<union> N1"
        using Cons.prems(2) False True by (auto simp del: next_page.simps(2) simp: next_page.simps(2) [of nl no hide r] split: prod.splits)
      have good: "\<forall>p \<in> set (r' # replies). good_page nl no p \<or> end_reply p" using Cons.prems(1) by simp
      have same: "same_pass S dir st1 st' \<longleftrightarrow> same_pass S dir st st'" "pass_case_map S dir st1 = pass_case_map S dir st" for st'
        by (auto simp: same_pass_def pass_case_map_def st1_def split: option.split)
      from Cons.IH [OF good np(1), of st1] np(2) show ?thesis
        unfolding real_turn_hidden(1) [OF c g True, of S dir st r' replies, folded st1_def] same
        by (simp add: st1_def Un_assoc)
    next
      case v: False
      from real_turn_visible [OF c g v, of S dir st "r' # replies"] Cons.prems(2) False v show ?thesis by (auto simp: page_ok_def)
    qed
  qed
qed

section \<open>One call\<close>

text \<open>The overlay children that the pass uses.\<close>

definition pass_extras :: "merge_sources \<Rightarrow> string \<Rightarrow> dir_state \<Rightarrow> overlay_child list option" where
  "pass_extras S d st = (case ds_extras st of Some (Some es) \<Rightarrow> Some es | _ \<Rightarrow> ms_overlay_children S d)"

lemma overlay_phase_spec:
  assumes c: "dir_info_name_offsets (dq_class q) = Some (nl, no)" and cap: "dq_capacity q < 2 ^ 32"
    and es: "pass_extras S d st = Some es" and dn: "ds_overlay_done st \<longrightarrow> length es \<le> ds_cursor st" and p: "page_ok nl no buf base"
    and run: "overlay_phase S q (Some d) hide base some buf st = (base', some', out, buf', st')"
  shows "\<exists>new. (let m = map_option to_ascii_lowercase (ds_mask st) in
      owed m hide (ds_delivered st) (drop (ds_cursor st) es) = new @ owed m hide (ds_delivered st') (drop (ds_cursor st') es)) \<and>
    page_ok nl no buf' base' \<and> page_names nl no buf' base' = page_names nl no buf base @ map child_units new \<and>
    (some' \<longleftrightarrow> some \<or> new \<noteq> []) \<and> ds_delivered st' = ds_delivered st \<union> (\<lambda>e. to_ascii_lowercase (oc_name e)) ` set new \<and>
    ds_cursor st \<le> ds_cursor st' \<and> (new \<noteq> [] \<longrightarrow> ds_cursor st < ds_cursor st' \<and> ds_cursor st' \<le> length es) \<and>
    (ds_overlay_done st' \<longrightarrow> length es \<le> ds_cursor st') \<and>
    (new = [] \<and> \<not> some \<and> base = 0 \<and> (\<forall>e \<in> set es. record_size no e \<le> dq_capacity q) \<longrightarrow> length es \<le> ds_cursor st' \<and> ds_overlay_done st') \<and>
    pass_extras S d st' = Some es \<and> ds_mask st' = ds_mask st \<and> ds_real_done st' = ds_real_done st \<and> ds_dir st' = ds_dir st \<and>
    ds_case_map st' = ds_case_map st \<and> (new = [] \<longrightarrow> base' = base) \<and>
    page_full no q some' base' (owed (map_option to_ascii_lowercase (ds_mask st)) hide (ds_delivered st') (drop (ds_cursor st') es)) \<and>
    (dq_single q \<longrightarrow> length new \<le> (if some then 0 else 1))"
proof (cases "ds_overlay_done st")
  case True
  with run have "base' = base" "some' = some" "buf' = buf" "st' = st" by (simp_all add: overlay_phase_def)
  with True dn p es show ?thesis by (intro exI [of _ "[]"]) (simp add: Let_def page_full_def)
next
  case False
  let ?m = "map_option to_ascii_lowercase (ds_mask st)" and ?cu = "ds_cursor st" and ?D = "ds_delivered st"
  have f: "(case ds_extras st of Some (Some es) \<Rightarrow> Some (Some es) | _ \<Rightarrow> Some (ms_overlay_children S d)) = Some (Some es)"
    using es by (auto simp: pass_extras_def split: option.splits)
  obtain cu D b sm o' bf where l: "overlay_loop q ?m hide ?cu (drop ?cu es) (?cu, ?D, base, some, [], buf) = (cu, D, b, sm, o', bf)"
    by (cases "overlay_loop q ?m hide ?cu (drop ?cu es) (?cu, ?D, base, some, [], buf)")
  from run False f l have r: "base' = b" "some' = sm" "buf' = bf"
    "st' = st\<lparr>ds_cursor := cu, ds_delivered := D, ds_overlay_done := ds_overlay_done st \<or> length es \<le> cu, ds_extras := Some (Some es)\<rparr>"
    by (simp_all add: overlay_phase_def)
  from overlay_loop_spec [OF c cap p l] obtain new where n: "D = ?D \<union> (\<lambda>e. to_ascii_lowercase (oc_name e)) ` set new" "?cu \<le> cu"
    "cu \<le> ?cu + length (drop ?cu es)" "owed ?m hide ?D (drop ?cu es) = new @ owed ?m hide D (drop (cu - ?cu) (drop ?cu es))"
    "page_ok nl no bf b" "page_names nl no bf b = page_names nl no buf base @ map child_units new" "sm \<longleftrightarrow> some \<or> new \<noteq> []" "new \<noteq> [] \<longrightarrow> ?cu < cu"
    "new = [] \<and> \<not> some \<and> base = 0 \<and> (\<forall>e \<in> set (drop ?cu es). record_size no e \<le> dq_capacity q) \<longrightarrow> cu = ?cu + length (drop ?cu es)"
    "new = [] \<longrightarrow> b = base" "page_full no q sm b (owed ?m hide D (drop (cu - ?cu) (drop ?cu es)))"
    "dq_single q \<longrightarrow> length new \<le> (if some then 0 else 1)"
    by blast
  have dd: "drop (cu - ?cu) (drop ?cu es) = drop cu es" using n(2) by simp
  have adv: "?cu < cu \<and> cu \<le> length es" if "new \<noteq> []"
  proof -
    have "?cu < cu" using n(8) that by simp
    moreover from this n(3) have "cu \<le> length es" by auto
    ultimately show ?thesis ..
  qed
  have fin: "length es \<le> cu" if "new = [] \<and> \<not> some \<and> base = 0 \<and> (\<forall>e \<in> set es. record_size no e \<le> dq_capacity q)"
    using n(9) that by (auto dest: in_set_dropD)
  show ?thesis unfolding r using n dd adv fin False by (intro exI [of _ new]) (simp add: pass_extras_def Let_def)
qed

text \<open>What one call shows and leaves, in terms of the stream of visible pages and of the children still owed.\<close>

definition stream_turn :: "nat \<Rightarrow> nat \<Rightarrow> u16 list list \<Rightarrow> dir_state \<Rightarrow> kernel_reply \<Rightarrow> kernel_reply list \<Rightarrow>
    u16 list list \<times> string set \<times> kernel_reply list \<times> bool" where
  "stream_turn nl no hide st r replies =
     (if ds_real_done st then ([], {}, replies, True) else next_page nl no hide (r # replies))"

definition state_ok :: "merge_sources \<Rightarrow> string \<Rightarrow> overlay_child list \<Rightarrow> dir_state \<Rightarrow> bool" where
  "state_ok S d es st \<longleftrightarrow> pass_extras S d st = Some es \<and> (ds_overlay_done st \<longrightarrow> length es \<le> ds_cursor st) \<and> ds_dir st = Some d"

definition call_result ::
    "nat \<Rightarrow> nat \<Rightarrow> merge_sources \<Rightarrow> dir_query \<Rightarrow> string \<Rightarrow> overlay_child list \<Rightarrow> dir_state \<Rightarrow> registry_of_states \<Rightarrow>
     u16 list list \<Rightarrow> overlay_child list \<Rightarrow> dir_state \<Rightarrow> merge_result \<Rightarrow> bool" where
  "call_result nl no S q d es st states vis new st' res \<longleftrightarrow>
     (let names = map (restored (pass_case_map S (Some d) st)) vis @ map child_units new
      in if names = []
         then mr_status res \<in> {STATUS_NO_SUCH_FILE, STATUS_NO_MORE_FILES} \<and> io_information (mr_io res) = 0 \<and>
           mr_states res = (if ds_real_done st' \<and> ds_overlay_done st' then states else store_enum_state (dq_handle q) st' states)
         else mr_status res = 0 \<and> io_code (mr_io res) = 0 \<and> page_ok nl no (mr_buf res) (io_information (mr_io res)) \<and>
           page_names nl no (mr_buf res) (io_information (mr_io res)) = names \<and>
           mr_states res = store_enum_state (dq_handle q) st' states)"

definition state_moves ::
    "merge_sources \<Rightarrow> dir_query \<Rightarrow> string \<Rightarrow> overlay_child list \<Rightarrow> dir_state \<Rightarrow> string set \<Rightarrow> bool \<Rightarrow> overlay_child list \<Rightarrow> dir_state \<Rightarrow> bool" where
  "state_moves S q d es st N ended new st' \<longleftrightarrow>
     (let m = map_option to_ascii_lowercase (ds_mask st); hide = hide_lower_set (hide_set S (Some d))
      in owed m hide (ds_delivered st \<union> N) (drop (ds_cursor st) es) = new @ owed m hide (ds_delivered st') (drop (ds_cursor st') es)) \<and>
     ds_delivered st' = ds_delivered st \<union> N \<union> (\<lambda>e. to_ascii_lowercase (oc_name e)) ` set new \<and>
     ds_cursor st \<le> ds_cursor st' \<and> (new \<noteq> [] \<longrightarrow> ds_cursor st < ds_cursor st' \<and> ds_cursor st' \<le> length es) \<and>
     ds_real_done st' = (ds_real_done st \<or> ended) \<and> ds_mask st' = ds_mask st \<and>
     pass_case_map S (Some d) st' = pass_case_map S (Some d) st \<and> state_ok S d es st'"

lemma process_call:
  assumes c: "dir_info_name_offsets (dq_class q) = Some (nl, no)" and cap: "dq_capacity q < 2 ^ 32"
    and nn: "\<not> dq_null_iosb q" "\<not> dq_null_buffer q" and dir: "resolve_virtual_dir S (dq_dir_dos q) = Some d"
    and good: "\<forall>p \<in> set (r # replies). good_page nl no p \<or> end_reply p"
    and tk: "take_enum_state (dq_handle q) states = (found, states1)" and st: "resume_state q (Some d) found = st"
    and ok: "state_ok S d es st" and turn: "stream_turn nl no (hide_set S (Some d)) st r replies = (vis, N, rest, ended)"
  shows "\<exists>new st'. mr_replies (process_dir_output S q r replies states) = rest \<and>
      call_result nl no S q d es st states1 vis new st' (process_dir_output S q r replies states) \<and>
      state_moves S q d es st N ended new st' \<and>
      (vis = [] \<and> new = [] \<and> (\<forall>e \<in> set es. record_size no e \<le> dq_capacity q) \<longrightarrow> ds_real_done st' \<and> ds_overlay_done st') \<and>
      page_full no q (vis \<noteq> [] \<or> new \<noteq> []) (io_information (mr_io (process_dir_output S q r replies states)))
        (owed (map_option to_ascii_lowercase (ds_mask st)) (hide_lower_set (hide_set S (Some d))) (ds_delivered st') (drop (ds_cursor st') es)) \<and>
      (dq_single q \<longrightarrow> length new \<le> (if vis = [] then 1 else 0))"
proof -
  let ?hide = "hide_set S (Some d)" and ?hl = "hide_lower_set (hide_set S (Some d))"
  have ve: "vis = [] \<longleftrightarrow> ended" using turn next_page_ended [of nl no ?hide "r # replies" vis N rest ended]
    by (auto simp: stream_turn_def split: if_splits)
  define R where "R = real_stream S q (Some d) ?hide r st replies"
  obtain phase io buf st2 where R: "R = (phase, io, buf, st2, rest)"
    and R2: "same_pass S (Some d) st st2" "ds_delivered st2 = ds_delivered st \<union> N" "ds_real_done st2 = (ds_real_done st \<or> ended)"
    and R3: "if ended then \<exists>status. phase = RealDone status
       else \<exists>live. phase = RealPage live \<and> live \<noteq> 0 \<and> page_ok nl no buf live \<and>
         page_names nl no buf live = map (restored (pass_case_map S (Some d) st)) vis"
  proof (cases "ds_real_done st")
    case True
    with turn have "R = (RealDone (kr_status r), kr_io r, kr_buf r, st, rest)" "N = {}" "ended"
      by (auto simp: R_def real_stream_def stream_turn_def)
    then show ?thesis using True by (intro that [of "RealDone (kr_status r)" "kr_io r" "kr_buf r" st]) (auto simp: same_pass_def)
  next
    case False
    with turn have np: "next_page nl no ?hide (r # replies) = (vis, N, rest, ended)" by (simp add: stream_turn_def)
    from real_loop_spec [OF c good np, of S "Some d" st] False that show ?thesis
      by (auto simp: R_def real_stream_def split: if_splits)
  qed
  define base0 where "base0 = (case phase of RealPage b \<Rightarrow> b | _ \<Rightarrow> 0)"
  define some0 where "some0 = (\<not> ended)"
  have p0: "page_ok nl no buf base0" "page_names nl no buf base0 = map (restored (pass_case_map S (Some d) st)) vis" "ended \<longrightarrow> base0 = 0"
    using R3 ve by (auto simp: base0_def page_ok_def page_names_def split: if_splits)
  have ok2: "pass_extras S d st2 = Some es" "ds_overlay_done st2 \<longrightarrow> length es \<le> ds_cursor st2"
    using ok R2(1) by (auto simp: state_ok_def pass_extras_def same_pass_def)
  obtain base some out buf' st' where O: "overlay_phase S q (Some d) ?hl base0 some0 buf st2 = (base, some, out, buf', st')"
    by (cases "overlay_phase S q (Some d) ?hl base0 some0 buf st2")
  from overlay_phase_spec [OF c cap ok2 p0(1) O] obtain new where
    n: "owed (map_option to_ascii_lowercase (ds_mask st2)) ?hl (ds_delivered st2) (drop (ds_cursor st2) es) =
        new @ owed (map_option to_ascii_lowercase (ds_mask st2)) ?hl (ds_delivered st') (drop (ds_cursor st') es)"
      "page_ok nl no buf' base" "page_names nl no buf' base = page_names nl no buf base0 @ map child_units new"
      "some \<longleftrightarrow> some0 \<or> new \<noteq> []" "ds_delivered st' = ds_delivered st2 \<union> (\<lambda>e. to_ascii_lowercase (oc_name e)) ` set new"
      "ds_cursor st2 \<le> ds_cursor st'" "new \<noteq> [] \<longrightarrow> ds_cursor st2 < ds_cursor st' \<and> ds_cursor st' \<le> length es"
      "ds_overlay_done st' \<longrightarrow> length es \<le> ds_cursor st'"
      "new = [] \<and> \<not> some0 \<and> base0 = 0 \<and> (\<forall>e \<in> set es. record_size no e \<le> dq_capacity q) \<longrightarrow> length es \<le> ds_cursor st' \<and> ds_overlay_done st'"
      "pass_extras S d st' = Some es" "ds_mask st' = ds_mask st2" "ds_real_done st' = ds_real_done st2" "ds_dir st' = ds_dir st2"
      "ds_case_map st' = ds_case_map st2" "new = [] \<longrightarrow> base = base0"
      "page_full no q some base (owed (map_option to_ascii_lowercase (ds_mask st2)) ?hl (ds_delivered st') (drop (ds_cursor st') es))"
      "dq_single q \<longrightarrow> length new \<le> (if some0 then 0 else 1)"
    unfolding Let_def by blast
  have moves: "state_moves S q d es st N ended new st'"
    using n R2 ok by (simp add: state_moves_def same_pass_def state_ok_def Let_def pass_case_map_def)
  have some_iff: "some \<longleftrightarrow> map (restored (pass_case_map S (Some d) st)) vis @ map child_units new \<noteq> []"
    using n(4) ve by (simp add: some0_def)
  have fin: "ds_real_done st' \<and> ds_overlay_done st'" if "vis = [] \<and> new = [] \<and> (\<forall>e \<in> set es. record_size no e \<le> dq_capacity q)"
    using that n(9,12) ve p0(3) R2(3) by (auto simp: some0_def)
  obtain status where ph: "phase = (if ended then RealDone status else RealPage base0)" using R3 by (auto simp: base0_def split: if_splits)
  define res where "res = process_dir_output S q r replies states"
  have res: "\<exists>status. res = end_phase (dq_handle q) status base some io buf' st' states1 rest"
  proof (cases ended)
    case True
    with ph p0(3) have "phase = RealDone status" "base0 = 0" "some0 = False" by (simp_all add: some0_def)
    with O R nn dir tk st show ?thesis
      unfolding res_def process_dir_output_def by (intro exI [of _ status]) (simp add: R_def)
  next
    case False
    with ph have "phase = RealPage base0" "some0 = True" by (simp_all add: some0_def)
    with O R nn dir tk st show ?thesis
      unfolding res_def process_dir_output_def by (intro exI [of _ 0]) (simp add: R_def)
  qed
  have "\<not> some \<longrightarrow> base = 0" using n(4,15) p0(3) by (auto simp: some0_def)
  with res have info: "io_information (mr_io res) = base" by (auto simp: end_phase_def Let_def)
  have "some \<longleftrightarrow> vis \<noteq> [] \<or> new \<noteq> []" using some_iff by simp
  then have full: "page_full no q (vis \<noteq> [] \<or> new \<noteq> []) (io_information (mr_io res))
      (owed (map_option to_ascii_lowercase (ds_mask st)) ?hl (ds_delivered st') (drop (ds_cursor st') es))"
    using n(16) R2(1) unfolding info by (simp add: same_pass_def)
  have one: "dq_single q \<longrightarrow> length new \<le> (if vis = [] then 1 else 0)" using n(17) ve by (cases ended) (simp_all add: some0_def)
  from res have "mr_replies res = rest" by (auto simp: end_phase_def Let_def)
  moreover have "call_result nl no S q d es st states1 vis new st' res"
    using some_iff n(2,3) p0(2) res by (auto simp: call_result_def end_phase_def Let_def)
  ultimately show ?thesis using moves fin full one unfolding res_def by blast
qed

section \<open>A whole enumeration\<close>

lemma next_page_good:
  assumes c: "dir_info_name_offsets cls = Some (nl, no)"
  shows "\<forall>p \<in> set rs. good_page nl no p \<Longrightarrow> next_page nl no hide rs = (vis, N, rest, ended) \<Longrightarrow>
    concat (map (visible_names nl no hide) rs) = vis @ concat (map (visible_names nl no hide) rest) \<and>
    (\<Union>p \<in> set rs. reply_names nl no p) = N \<union> (\<Union>p \<in> set rest. reply_names nl no p) \<and>
    (ended \<longrightarrow> rest = []) \<and> length rest \<le> length rs - 1 \<and> set rest \<subseteq> set rs"
proof (induction rs arbitrary: vis N rest ended)
  case (Cons r rs)
  have g: "\<not> end_reply r" using Cons.prems(1) by (auto simp: good_page_def end_reply_def)
  show ?case
  proof (cases "all_hidden nl no hide r")
    case True
    obtain N1 where np: "next_page nl no hide rs = (vis, N1, rest, ended)" "N = reply_names nl no r \<union> N1"
      using Cons.prems(2) g True by (auto split: prod.splits)
    have "visible_names nl no hide r = []" using True by (auto simp: all_hidden_def visible_names_def list_all_iff filter_empty_conv)
    with Cons.IH [OF _ np(1)] Cons.prems(1) np(2) show ?thesis by auto
  next
    case False
    with Cons.prems(2) g show ?thesis by auto
  qed
qed simp

lemma owed_complete:
  "e \<in> set es \<Longrightarrow> (case m of None \<Rightarrow> True | Some pat \<Rightarrow> filename_matches_pattern (to_ascii_lowercase (oc_name e)) pat) \<Longrightarrow>
   to_ascii_lowercase (oc_name e) \<notin> hide \<Longrightarrow>
   to_ascii_lowercase (oc_name e) \<in> D \<union> (\<lambda>e. to_ascii_lowercase (oc_name e)) ` set (owed m hide D es)"
proof (induction es arbitrary: D)
  case (Cons x es)
  then show ?case by (cases "e = x") (auto simp: wanted_def Let_def)
qed simp

text \<open>
  A client that queries until the end: each query takes the next reply of the kernel, or \<open>eof\<close> when there is none. The
  result is the list of the pages it saw and whether the end was reported.
\<close>

fun list_dir ::
    "nat \<Rightarrow> merge_sources \<Rightarrow> dir_query \<Rightarrow> kernel_reply \<Rightarrow> kernel_reply list \<Rightarrow> registry_of_states \<Rightarrow> (u16 list list list) \<times> bool" where
  "list_dir 0 S q eof replies states = ([], False)"
| "list_dir (Suc n) S q eof replies states =
     (let res = (case replies of [] \<Rightarrow> process_dir_output S q eof [] states | r # rs \<Rightarrow> process_dir_output S q r rs states)
      in if mr_status res \<noteq> 0 then ([], True)
         else (case dir_info_name_offsets (dq_class q) of
             None \<Rightarrow> ([], False)
           | Some (nl, no) \<Rightarrow>
               (let (pages, ended) = list_dir n S q eof (mr_replies res) (mr_states res)
                in (page_names nl no (mr_buf res) (io_information (mr_io res)) # pages, ended))))"

definition pattern_ok :: "string option \<Rightarrow> overlay_child \<Rightarrow> bool" where
  "pattern_ok m e \<longleftrightarrow>
     (case m of None \<Rightarrow> True | Some pat \<Rightarrow> filename_matches_pattern (to_ascii_lowercase (oc_name e)) pat)"

text \<open>What a run from a state with replies still to come delivers.\<close>

definition delivers ::
    "nat \<Rightarrow> nat \<Rightarrow> merge_sources \<Rightarrow> string \<Rightarrow> overlay_child list \<Rightarrow> dir_state \<Rightarrow> kernel_reply list \<Rightarrow> u16 list list \<Rightarrow> overlay_child list \<Rightarrow> bool" where
  "delivers nl no S d es st replies names deliv \<longleftrightarrow>
     (let hide = hide_set S (Some d); m = map_option to_ascii_lowercase (ds_mask st);
          lowers = (\<lambda>es. (\<lambda>e. to_ascii_lowercase (oc_name e)) ` set es)
      in mset names = mset (map (restored (pass_case_map S (Some d) st)) (concat (map (visible_names nl no hide) replies))) + mset (map child_units deliv) \<and>
         distinct (map (\<lambda>e. to_ascii_lowercase (oc_name e)) deliv) \<and>
         (\<forall>e \<in> set deliv. e \<in> set (drop (ds_cursor st) es) \<and> wanted m (hide_lower_set hide) (ds_delivered st) e) \<and>
         (\<forall>e \<in> set (drop (ds_cursor st) es). pattern_ok m e \<and> to_ascii_lowercase (oc_name e) \<notin> hide_lower_set hide \<longrightarrow>
            to_ascii_lowercase (oc_name e) \<in> lowers deliv \<union> ds_delivered st \<union> (\<Union>p \<in> set replies. reply_names nl no p)))"

lemma delivers_step:
  assumes c: "dir_info_name_offsets cls = Some (nl, no)"
    and names: "names = map (restored (pass_case_map S (Some d) st)) vis @ map child_units new"
    and vis: "concat (map (visible_names nl no (hide_set S (Some d))) replies) = vis @ concat (map (visible_names nl no (hide_set S (Some d))) rest)"
    and N: "(\<Union>p \<in> set replies. reply_names nl no p) = N \<union> (\<Union>p \<in> set rest. reply_names nl no p)"
    and mv: "state_moves S q d es st N ended new st'" and D: "delivers nl no S d es st' rest names' deliv'"
  shows "delivers nl no S d es st replies (names @ names') (new @ deliv')"
proof -
  let ?hide = "hide_set S (Some d)" and ?m = "map_option to_ascii_lowercase (ds_mask st)"
  let ?low = "\<lambda>e. to_ascii_lowercase (oc_name e)" and ?hl = "hide_lower_set (hide_set S (Some d))"
  from mv have o: "owed ?m ?hl (ds_delivered st \<union> N) (drop (ds_cursor st) es) = new @ owed ?m ?hl (ds_delivered st') (drop (ds_cursor st') es)"
    and dl: "ds_delivered st' = ds_delivered st \<union> N \<union> ?low ` set new" and cu: "ds_cursor st \<le> ds_cursor st'"
    and mk: "ds_mask st' = ds_mask st" and cm: "pass_case_map S (Some d) st' = pass_case_map S (Some d) st"
    by (auto simp: state_moves_def Let_def)
  from D have D': "mset names' = mset (map (restored (pass_case_map S (Some d) st)) (concat (map (visible_names nl no ?hide) rest))) + mset (map child_units deliv')"
    "distinct (map ?low deliv')" "\<And>e. e \<in> set deliv' \<Longrightarrow> e \<in> set (drop (ds_cursor st') es) \<and> wanted ?m ?hl (ds_delivered st') e"
    "\<And>e. e \<in> set (drop (ds_cursor st') es) \<Longrightarrow> pattern_ok ?m e \<Longrightarrow> ?low e \<notin> ?hl \<Longrightarrow>
      ?low e \<in> ?low ` set deliv' \<union> ds_delivered st' \<union> (\<Union>p \<in> set rest. reply_names nl no p)"
    unfolding delivers_def Let_def cm mk by blast+
  have sub: "set (drop (ds_cursor st') es) \<subseteq> set (drop (ds_cursor st) es)" using cu by (rule set_drop_subset_set_drop)
  have wm: "wanted ?m ?hl (ds_delivered st) e" if "wanted ?m ?hl X e" "ds_delivered st \<subseteq> X" for e X
    using that by (auto simp: wanted_def Let_def)
  note od = owed_distinct [of ?m ?hl "ds_delivered st \<union> N" "drop (ds_cursor st) es", unfolded o]
  have 1: "mset (names @ names') = mset (map (restored (pass_case_map S (Some d) st)) (concat (map (visible_names nl no ?hide) replies))) + mset (map child_units (new @ deliv'))"
    by (simp add: names vis D'(1) del: mset_map map_concat)
  have 2: "distinct (map ?low (new @ deliv'))"
  proof -
    have f: "?low e \<notin> ?low ` set new" if "e \<in> set deliv'" for e
      using D'(3) [OF that] dl by (auto simp: wanted_def Let_def)
    have "x \<notin> ?low ` set new" if "x \<in> ?low ` set deliv'" for x
    proof -
      from that obtain e where "e \<in> set deliv'" "x = ?low e" by blast
      with f [of e] show ?thesis by simp
    qed
    then have "?low ` set new \<inter> ?low ` set deliv' = {}" by blast
    moreover have "distinct (map ?low new)" using od by simp
    ultimately show ?thesis using D'(2) by simp
  qed
  have 3: "e \<in> set (drop (ds_cursor st) es) \<and> wanted ?m ?hl (ds_delivered st) e" if "e \<in> set (new @ deliv')" for e
  proof (cases "e \<in> set new")
    case True
    with od have "e \<in> set (drop (ds_cursor st) es) \<and> wanted ?m ?hl (ds_delivered st \<union> N) e" by auto
    then show ?thesis using wm [of "ds_delivered st \<union> N" e] by blast
  next
    case False
    with that D'(3) [of e] sub wm [of "ds_delivered st'" e] dl show ?thesis by auto
  qed
  have 4: "?low e \<in> ?low ` set (new @ deliv') \<union> ds_delivered st \<union> (\<Union>p \<in> set replies. reply_names nl no p)"
    if e: "e \<in> set (drop (ds_cursor st) es)" "pattern_ok ?m e" "?low e \<notin> ?hl" for e
  proof -
    have "?low e \<in> (ds_delivered st \<union> N) \<union> ?low ` set (new @ owed ?m ?hl (ds_delivered st') (drop (ds_cursor st') es))"
      unfolding o [symmetric] by (rule owed_complete) (use e in \<open>auto simp: pattern_ok_def\<close>)
    moreover have "?low e' \<in> ?low ` set deliv' \<union> ds_delivered st' \<union> (\<Union>p \<in> set rest. reply_names nl no p)"
      if "e' \<in> set (owed ?m ?hl (ds_delivered st') (drop (ds_cursor st') es))" for e'
    proof -
      from owed_distinct [of ?m ?hl "ds_delivered st'" "drop (ds_cursor st') es"] that
      have "e' \<in> set (drop (ds_cursor st') es)" "wanted ?m ?hl (ds_delivered st') e'" by auto
      then show ?thesis by (intro D'(4)) (auto simp: wanted_def pattern_ok_def Let_def)
    qed
    then have "?low ` set (owed ?m ?hl (ds_delivered st') (drop (ds_cursor st') es)) \<subseteq>
        ?low ` set deliv' \<union> ds_delivered st' \<union> (\<Union>p \<in> set rest. reply_names nl no p)" by (rule image_subsetI)
    ultimately show ?thesis unfolding N dl set_append image_Un by blast
  qed
  from 1 2 3 4 show ?thesis unfolding delivers_def Let_def by blast
qed

lemma resume_stored:
  "\<not> dq_restart q \<Longrightarrow> ds_dir st = Some d \<Longrightarrow> ds_mask st = dq_pattern q \<Longrightarrow> resume_state q (Some d) (Some st) = st"
  by (auto simp: resume_state_def split: option.split)

lemma list_dir_delivers:
  assumes c: "dir_info_name_offsets (dq_class q) = Some (nl, no)" and cap: "dq_capacity q < 2 ^ 32"
    and nn: "\<not> dq_null_iosb q" "\<not> dq_null_buffer q" "\<not> dq_restart q" and dir: "resolve_virtual_dir S (dq_dir_dos q) = Some d"
    and eof: "end_reply eof" and fits: "\<forall>e \<in> set es. record_size no e \<le> dq_capacity q"
  shows "\<forall>p \<in> set replies. good_page nl no p \<Longrightarrow>
    resume_state q (Some d) (fst (take_enum_state (dq_handle q) states)) = st \<Longrightarrow> state_ok S d es st \<Longrightarrow>
    ds_mask st = dq_pattern q \<Longrightarrow> (ds_real_done st \<longrightarrow> replies = []) \<Longrightarrow> length replies + (length es - ds_cursor st) < n \<Longrightarrow>
    \<exists>pages deliv. list_dir n S q eof replies states = (pages, True) \<and> delivers nl no S d es st replies (concat pages) deliv"
proof (induction n arbitrary: replies states st)
  case (Suc n)
  let ?hide = "hide_set S (Some d)"
  define r where "r = (case replies of [] \<Rightarrow> eof | p # ps \<Rightarrow> p)"
  define rs where "rs = tl replies"
  obtain found states1 where tk: "take_enum_state (dq_handle q) states = (found, states1)" by (cases "take_enum_state (dq_handle q) states")
  have st: "resume_state q (Some d) found = st" using Suc.prems(2) tk by simp
  have good: "\<forall>p \<in> set (r # rs). good_page nl no p \<or> end_reply p"
    using Suc.prems(1) eof by (cases replies) (auto simp: r_def rs_def)
  obtain vis N rest ended where turn: "stream_turn nl no ?hide st r rs = (vis, N, rest, ended)" by (cases "stream_turn nl no ?hide st r rs")
  have stream: "concat (map (visible_names nl no ?hide) replies) = vis @ concat (map (visible_names nl no ?hide) rest) \<and>
      (\<Union>p \<in> set replies. reply_names nl no p) = N \<union> (\<Union>p \<in> set rest. reply_names nl no p) \<and>
      (ended \<longrightarrow> rest = []) \<and> length rest \<le> length replies - 1 \<and> set rest \<subseteq> set replies \<and> (vis = [] \<longleftrightarrow> ended)"
  proof (cases "replies = []")
    case True
    with turn eof show ?thesis by (auto simp: stream_turn_def r_def rs_def split: if_splits)
  next
    case False
    then have rr: "r # rs = replies" by (cases replies) (simp_all add: r_def rs_def)
    with turn False Suc.prems(5) have np: "next_page nl no ?hide replies = (vis, N, rest, ended)"
      by (simp add: stream_turn_def)
    from next_page_good [OF c Suc.prems(1) np] next_page_ended [OF np] show ?thesis by blast
  qed
  note stv = conjunct1 [OF stream] and stN = conjunct1 [OF conjunct2 [OF stream]]
  define res where "res = process_dir_output S q r rs states"
  have run: "(case replies of [] \<Rightarrow> process_dir_output S q eof [] states | r # rs \<Rightarrow> process_dir_output S q r rs states) = res"
    by (cases replies) (simp_all add: res_def r_def rs_def)
  from process_call [OF c cap nn(1,2) dir good tk st Suc.prems(3) turn] obtain new st' where
    R: "mr_replies res = rest" "call_result nl no S q d es st states1 vis new st' res" "state_moves S q d es st N ended new st'"
    "vis = [] \<and> new = [] \<and> (\<forall>e \<in> set es. record_size no e \<le> dq_capacity q) \<longrightarrow> ds_real_done st' \<and> ds_overlay_done st'"
    unfolding res_def by blast
  define names where "names = map (restored (pass_case_map S (Some d) st)) vis @ map child_units new"
  have ok': "state_ok S d es st'" "ds_mask st' = dq_pattern q" "ds_dir st' = Some d" "ds_real_done st' \<longrightarrow> rest = []"
    using R(3) Suc.prems(4,5) stream by (auto simp: state_moves_def state_ok_def Let_def)
  show ?case
  proof (cases "names = []")
    case True
    then have e: "vis = []" "new = []" by (simp_all add: names_def)
    with R(4) fits have "ds_overlay_done st'" by simp
    with ok'(1) have "drop (ds_cursor st') es = []" by (simp add: state_ok_def)
    then have "delivers nl no S d es st' [] [] []" by (simp add: delivers_def Let_def)
    then have D: "delivers nl no S d es st' rest [] []" using stream e by simp
    have "mr_status res \<noteq> 0" using R(2) True by (auto simp: call_result_def names_def)
    then have "list_dir (Suc n) S q eof replies states = ([], True)" using run by (simp add: Let_def)
    moreover from delivers_step [OF c names_def stv stN R(3) D] True e have "delivers nl no S d es st replies [] []" by simp
    ultimately show ?thesis by auto
  next
    case False
    from R(2) False have S: "mr_status res = 0" "page_names nl no (mr_buf res) (io_information (mr_io res)) = names"
      "mr_states res = store_enum_state (dq_handle q) st' states1"
      by (simp_all add: call_result_def names_def [symmetric] Let_def)
    have next_st: "resume_state q (Some d) (fst (take_enum_state (dq_handle q) (mr_states res))) = st'"
      using resume_stored [OF nn(3) ok'(3,2)] by (simp add: S(3) store_then_take)
    have cu: "ds_cursor st \<le> ds_cursor st'" "new \<noteq> [] \<longrightarrow> ds_cursor st < ds_cursor st' \<and> ds_cursor st' \<le> length es"
      using R(3) by (auto simp: state_moves_def)
    have "length rest + (length es - ds_cursor st') < length replies + (length es - ds_cursor st)"
    proof (cases "replies = []")
      case True
      with stream have "vis = []" "rest = []" by auto
      with False have "new \<noteq> []" by (simp add: names_def)
      with cu True \<open>rest = []\<close> show ?thesis by auto
    next
      case ne: False
      then have "length rest < length replies" using stream by (cases replies) auto
      with cu(1) show ?thesis by linarith
    qed
    with Suc.prems(6) have less: "length rest + (length es - ds_cursor st') < n" by linarith
    have "\<forall>p \<in> set rest. good_page nl no p" using stream Suc.prems(1) by blast
    from Suc.IH [OF this next_st ok'(1,2,4) less] obtain pages deliv where
      L: "list_dir n S q eof rest (mr_states res) = (pages, True)" "delivers nl no S d es st' rest (concat pages) deliv" by blast
    have "list_dir (Suc n) S q eof replies states = (names # pages, True)" using run S(1,2) c L(1) R(1) by (simp add: Let_def)
    moreover from delivers_step [OF c names_def _ _ R(3) L(2)] stream
    have "delivers nl no S d es st replies (concat (names # pages)) (new @ deliv)" by simp
    ultimately show ?thesis by blast
  qed
qed simp

text \<open>A sample directory: a page with one file, a deleted file among the overlay children.\<close>

definition sample_child :: "string \<Rightarrow> overlay_child" where
  "sample_child n = \<lparr>oc_name = n, oc_stat = \<lparr>st_is_dir = False, st_size = 0, st_creation = 0, st_access = 0, st_write = 0\<rparr>\<rparr>"

definition sample_sources :: merge_sources where
  "sample_sources =
     \<lparr>ms_unmirror = (\<lambda>p. None), ms_overlay_children = (\<lambda>d. Some [sample_child ''a'', sample_child ''c'']),
      ms_whiteouts_under = (\<lambda>d. Some [''c'']), ms_read_dir = (\<lambda>d. None), ms_overlay_case = (\<lambda>d. None)\<rparr>"

definition sample_query :: dir_query where
  "sample_query =
     \<lparr>dq_null_iosb = False, dq_null_buffer = False, dq_class = 12, dq_capacity = 100, dq_handle = 4, dq_single = False,
      dq_restart = False, dq_pattern = None, dq_dir_dos = Some ''d''\<rparr>"

definition sample_eof :: kernel_reply where
  "sample_eof = \<lparr>kr_status = STATUS_NO_MORE_FILES, kr_io = \<lparr>io_code = STATUS_NO_MORE_FILES, io_information = 0\<rparr>, kr_buf = (\<lambda>i. 0)\<rparr>"

lemma sample_page:
  assumes "length (child_units (sample_child n)) \<le> 20"
  shows "\<exists>m k. good_page 8 12 \<lparr>kr_status = 0, kr_io = \<lparr>io_code = 0, io_information = k\<rparr>, kr_buf = m\<rparr> \<and>
     map snd (entries 8 12 m 0 k) = [child_units (sample_child n)]"
proof -
  have c: "dir_info_name_offsets 12 = Some (8, 12)" by (simp add: dir_info_name_offsets_def)
  obtain k m where a: "append_overlay_entries (\<lambda>i. 0) 0 100 12 [sample_child n] = (k, m)"
    by (cases "append_overlay_entries (\<lambda>i. 0) 0 100 12 [sample_child n]")
  have p: "page_ok 8 12 (\<lambda>i. 0) 0" by (simp add: page_ok_def)
  have "round8 0 + record_size 12 (sample_child n) \<le> 100"
    using assms round8_bounds(2) [of "12 + 2 * length (child_units (sample_child n))"] by (simp add: record_size_def round8_def)
  with append_one [OF c p _ a] have "8 \<le> k" "k \<le> 100" "well_chain 8 12 m 0 k" "page_names 8 12 m k = [child_units (sample_child n)]"
    by (auto simp: page_names_def)
  then show ?thesis by (intro exI [of _ m] exI [of _ k]) (simp add: good_page_def page_names_def)
qed

lemmas sample_eval = utf8_decode.simps encode_utf16_def utf16_enc1_def utf8_encode_def utf8_enc1_def from_utf16_lossy_def
  to_ascii_lowercase_def ascii_lower_def is_ascii_uppercase_def dot_winrsbox_u16_def

text \<open>C21: One directory query shows exactly what it should: the names of the next page of the kernel that has anything to
  show, without the hidden ones and with their case restored, followed by the next overlay children that are still owed, as
  many as fit: it stops only when no child is owed any more, when the next one does not fit behind the records in the
  buffer, or when a single entry was asked for and there is one. What is owed after the call, by the state that is kept for
  the handle, is what was owed before it minus what it showed. It reports the end exactly when it shows nothing, and
  forgets the handle only when the kernel and the overlay are both exhausted.\<close>

theorem merged_page_exact:
  assumes "dir_info_name_offsets (dq_class q) = Some (nl, no)" and "dq_capacity q < 2 ^ 32"
    and "\<not> dq_null_iosb q" and "\<not> dq_null_buffer q" and "resolve_virtual_dir S (dq_dir_dos q) = Some d"
    and "\<forall>p \<in> set (r # replies). good_page nl no p \<or> end_reply p"
    and "take_enum_state (dq_handle q) states = (found, states1)" and "resume_state q (Some d) found = st"
    and "state_ok S d es st" and "stream_turn nl no (hide_set S (Some d)) st r replies = (vis, N, rest, ended)"
    and "process_dir_output S q r replies states = res"
  shows "\<exists>new st'.
    (let names = map (restored (pass_case_map S (Some d) st)) vis @ map child_units new;
         hide = hide_lower_set (hide_set S (Some d)); m = map_option to_ascii_lowercase (ds_mask st);
         left = owed m hide (ds_delivered st') (drop (ds_cursor st') es)
     in mr_replies res = rest \<and>
        (mr_status res = 0 \<longleftrightarrow> names \<noteq> []) \<and>
        (mr_status res = 0 \<longrightarrow> page_ok nl no (mr_buf res) (io_information (mr_io res)) \<and>
           page_names nl no (mr_buf res) (io_information (mr_io res)) = names) \<and>
        (mr_status res \<noteq> 0 \<longrightarrow> mr_status res \<in> {STATUS_NO_SUCH_FILE, STATUS_NO_MORE_FILES} \<and> io_information (mr_io res) = 0) \<and>
        mr_states res = (if names = [] \<and> ds_real_done st' \<and> ds_overlay_done st' then states1
                         else store_enum_state (dq_handle q) st' states1) \<and>
        owed m hide (ds_delivered st \<union> N) (drop (ds_cursor st) es) = new @ left \<and>
        page_full no q (names \<noteq> []) (io_information (mr_io res)) left \<and> (dq_single q \<longrightarrow> length new \<le> (if vis = [] then 1 else 0)) \<and>
        ds_delivered st' = ds_delivered st \<union> N \<union> (\<lambda>e. to_ascii_lowercase (oc_name e)) ` set new \<and>
        ds_real_done st' = (ds_real_done st \<or> ended) \<and> state_ok S d es st')"
proof -
  from process_call [OF assms(1-10)] obtain new st' where
    "mr_replies res = rest" "call_result nl no S q d es st states1 vis new st' res" "state_moves S q d es st N ended new st'"
    "page_full no q (vis \<noteq> [] \<or> new \<noteq> []) (io_information (mr_io res))
        (owed (map_option to_ascii_lowercase (ds_mask st)) (hide_lower_set (hide_set S (Some d))) (ds_delivered st') (drop (ds_cursor st') es))"
    "dq_single q \<longrightarrow> length new \<le> (if vis = [] then 1 else 0)"
    unfolding assms(11) by blast
  then show ?thesis
    by (intro exI [of _ new] exI [of _ st']) (auto simp: call_result_def state_moves_def Let_def split: if_splits)
qed

text \<open>C20: A client that opens a directory and queries until the end sees every visible name of every kernel page, and every
  overlay child that matches its pattern and is not deleted, unless some page carried the child's name; no overlay child is
  added twice (a child that was added can be seen once more as a kernel name, when its page comes later), and nothing else is
  added. It reaches the end after at most one query for each page and each child, when its buffer holds one record of
  any child.\<close>

theorem enumeration_complete:
  assumes "dir_info_name_offsets (dq_class q) = Some (nl, no)" and "dq_capacity q < 2 ^ 32"
    and "\<not> dq_null_iosb q" and "\<not> dq_null_buffer q" and "\<not> dq_restart q" and "resolve_virtual_dir S (dq_dir_dos q) = Some d"
    and "end_reply eof" and "\<forall>e \<in> set es. record_size no e \<le> dq_capacity q" and "\<forall>p \<in> set replies. good_page nl no p"
    and "fst (take_enum_state (dq_handle q) states) = None" and "ms_overlay_children S d = Some es"
    and "length replies + length es < n"
  shows "\<exists>pages deliv. list_dir n S q eof replies states = (pages, True) \<and>
    (let hide = hide_set S (Some d); m = map_option to_ascii_lowercase (dq_pattern q);
         cm = build_case_map (ms_read_dir S d) (ms_overlay_case S d)
     in mset (concat pages) =
          mset (map (restored cm) (concat (map (visible_names nl no hide) replies))) + mset (map child_units deliv) \<and>
        distinct (map (\<lambda>e. to_ascii_lowercase (oc_name e)) deliv) \<and>
        (\<forall>e \<in> set deliv. e \<in> set es \<and> pattern_ok m e \<and> to_ascii_lowercase (oc_name e) \<notin> hide_lower_set hide) \<and>
        (\<forall>e \<in> set es. pattern_ok m e \<and> to_ascii_lowercase (oc_name e) \<notin> hide_lower_set hide \<longrightarrow>
           to_ascii_lowercase (oc_name e) \<in> (\<lambda>e. to_ascii_lowercase (oc_name e)) ` set deliv \<union> (\<Union>p \<in> set replies. reply_names nl no p)))"
proof -
  define st where "st = fresh_state 0 (Some d) (dq_pattern q)"
  have st: "resume_state q (Some d) (fst (take_enum_state (dq_handle q) states)) = st" by (simp add: assms(10) resume_state_def st_def)
  have ok: "state_ok S d es st" by (simp add: state_ok_def pass_extras_def st_def fresh_state_def assms(11))
  have f: "ds_mask st = dq_pattern q" "ds_real_done st \<longrightarrow> replies = []" "ds_cursor st = 0" "ds_delivered st = {}"
    "pass_case_map S (Some d) st = build_case_map (ms_read_dir S d) (ms_overlay_case S d)"
    by (simp_all add: st_def fresh_state_def pass_case_map_def)
  have n: "length replies + (length es - ds_cursor st) < n" using assms(12) by (simp add: f)
  from list_dir_delivers [OF assms(1-8,9) st ok f(1,2) n] obtain pages deliv where
    L: "list_dir n S q eof replies states = (pages, True)" "delivers nl no S d es st replies (concat pages) deliv" by blast
  have w: "pattern_ok m e \<and> to_ascii_lowercase (oc_name e) \<notin> h" if "wanted m h {} e" for m h e
    using that by (auto simp: wanted_def pattern_ok_def Let_def)
  show ?thesis using L w unfolding delivers_def Let_def f
    by (intro exI [of _ pages] exI [of _ deliv]) auto
qed

lemma sample_lower:
  "hide_lower_set [dot_winrsbox_u16, [99]] = {''.winrsbox'', ''c''}" "units_lower [98] = ''b''"
proof -
  have c: "char_of (46::nat) = CHR ''.''" "char_of (119::nat) = CHR ''w''" "char_of (105::nat) = CHR ''i''" "char_of (110::nat) = CHR ''n''"
    "char_of (114::nat) = CHR ''r''" "char_of (115::nat) = CHR ''s''" "char_of (98::nat) = CHR ''b''" "char_of (111::nat) = CHR ''o''"
    "char_of (120::nat) = CHR ''x''" "char_of (99::nat) = CHR ''c''"
    by (simp_all add: char_of_eq_iff)
  show "hide_lower_set [dot_winrsbox_u16, [99]] = {''.winrsbox'', ''c''}" "units_lower [98] = ''b''"
    by (simp_all add: hide_lower_set_def units_lower_def unit_lower_def sample_eval c)
qed

lemma sample_facts:
  "resolve_virtual_dir sample_sources (dq_dir_dos sample_query) = Some ''d''"
  "hide_set sample_sources (Some ''d'') = [dot_winrsbox_u16, [99]]"
  "hide_lower_set [dot_winrsbox_u16, [99]] = {''.winrsbox'', ''c''}"
  "child_units (sample_child ''a'') = [97]" "child_units (sample_child ''b'') = [98]" "child_units (sample_child ''c'') = [99]"
  "\<not> name_matches_any [98] [dot_winrsbox_u16, [99]]" "end_reply sample_eof"
  "ms_overlay_children sample_sources ''d'' = Some [sample_child ''a'', sample_child ''c'']"
  "build_case_map (ms_read_dir sample_sources ''d'') (ms_overlay_case sample_sources ''d'') = None"
  "dir_info_name_offsets (dq_class sample_query) = Some (8, 12)" "dq_capacity sample_query = 100" "units_lower [98] = ''b''"
  by (rule sample_lower | simp add: resolve_virtual_dir_def hide_set_def sample_sources_def sample_query_def sample_child_def
      name_matches_any_def fold_unit_def end_reply_def sample_eof_def build_case_map_def dir_info_name_offsets_def unwrap_or_def
      sample_eval)+

lemma sample_fits: "\<forall>e \<in> set [sample_child ''a'', sample_child ''c'']. record_size 12 e \<le> dq_capacity sample_query"
  by (simp add: sample_facts record_size_def round8_def)

lemma sample_b:
  "\<exists>r. good_page 8 12 r \<and> visible_names 8 12 [dot_winrsbox_u16, [99]] r = [[98]] \<and> reply_names 8 12 r = {''b''} \<and>
     \<not> all_hidden 8 12 [dot_winrsbox_u16, [99]] r"
proof -
  obtain m k where g: "good_page 8 12 \<lparr>kr_status = 0, kr_io = \<lparr>io_code = 0, io_information = k\<rparr>, kr_buf = m\<rparr>" (is "good_page 8 12 ?r")
    and e: "map snd (entries 8 12 m 0 k) = [[98]]"
    using sample_page [of "''b''"] by (auto simp: sample_facts)
  then obtain x where x: "entries 8 12 m 0 k = [x]" "snd x = [98]" by auto
  have "\<not> end_reply ?r" using g by (auto simp: good_page_def end_reply_def)
  with g x sample_facts(7,13) show ?thesis
    by (intro exI [of _ ?r]) (auto simp: visible_names_def reply_names_def reply_entries_def all_hidden_def hidden_entry_def)
qed

theorem enumeration_complete_witness:
  "\<exists>r pages. list_dir 9 sample_sources sample_query sample_eof [r] [] = (pages, True) \<and>
     [98] \<in> set (concat pages) \<and> [97] \<in> set (concat pages)"
proof -
  from sample_b obtain r where r: "good_page 8 12 r" "visible_names 8 12 [dot_winrsbox_u16, [99]] r = [[98]]" "reply_names 8 12 r = {''b''}"
    by blast
  let ?low = "\<lambda>e. to_ascii_lowercase (oc_name e)"
  have q: "\<not> dq_null_iosb sample_query" "\<not> dq_null_buffer sample_query" "\<not> dq_restart sample_query" "dq_pattern sample_query = None"
    by (simp_all add: sample_query_def)
  have pre: "dq_capacity sample_query < 2 ^ 32" "\<forall>p \<in> set [r]. good_page 8 12 p"
    "fst (take_enum_state (dq_handle sample_query) []) = None"
    "length [r] + length [sample_child ''a'', sample_child ''c''] < 9"
    using r(1) by (simp_all add: sample_facts)
  note E = enumeration_complete [OF sample_facts(11) pre(1) q(1-3) sample_facts(1,8) sample_fits pre(2,3) sample_facts(9) pre(4),
      unfolded Let_def sample_facts(2,10)]
  then obtain pages deliv where L: "list_dir 9 sample_sources sample_query sample_eof [r] [] = (pages, True)"
    "mset (concat pages) = mset (map (restored None) (concat (map (visible_names 8 12 [dot_winrsbox_u16, [99]]) [r]))) + mset (map child_units deliv)"
    "\<forall>e \<in> set deliv. e \<in> set [sample_child ''a'', sample_child ''c''] \<and>
       pattern_ok (map_option to_ascii_lowercase (dq_pattern sample_query)) e \<and> ?low e \<notin> hide_lower_set [dot_winrsbox_u16, [99]]"
    "\<forall>e \<in> set [sample_child ''a'', sample_child ''c'']. pattern_ok (map_option to_ascii_lowercase (dq_pattern sample_query)) e \<and>
       ?low e \<notin> hide_lower_set [dot_winrsbox_u16, [99]] \<longrightarrow> ?low e \<in> ?low ` set deliv \<union> (\<Union>p \<in> set [r]. reply_names 8 12 p)"
    by blast
  have low: "?low (sample_child ''a'') = ''a''" "?low (sample_child ''c'') = ''c''" by (simp_all add: sample_child_def sample_eval)
  have "?low (sample_child ''a'') \<in> ?low ` set deliv \<union> {''b''}"
    using L(4) by (simp add: low sample_facts(3) pattern_ok_def q(4) r(3))
  then obtain e where e: "e \<in> set deliv" "?low e = ''a''" unfolding low by auto
  have "sample_child ''a'' \<in> set deliv"
  proof (cases "e = sample_child ''a''")
    case True
    with e show ?thesis by simp
  next
    case False
    moreover from L(3) e(1) have "e = sample_child ''a'' \<or> e = sample_child ''c''" by simp
    ultimately have "e = sample_child ''c''" by simp
    with e(2) low(2) show ?thesis by simp
  qed
  then have "child_units (sample_child ''a'') \<in> set (map child_units deliv)" by (simp only: set_map) (rule imageI)
  then have "[97] \<in> set (map child_units deliv)" unfolding sample_facts(4) .
  then have "[97] \<in># mset (map child_units deliv)" by (simp only: set_mset_mset)
  moreover have "set (concat pages) = set_mset (mset [[98]] + mset (map child_units deliv))"
  proof -
    have "map (restored None) (concat (map (visible_names 8 12 [dot_winrsbox_u16, [99]]) [r])) = [[98]]"
      by (simp add: restored_def r(2))
    from L(2) [unfolded this, symmetric] show ?thesis by simp
  qed
  ultimately have "[98] \<in> set (concat pages) \<and> [97] \<in> set (concat pages)" by (simp del: set_concat)
  with L(1) show ?thesis by blast
qed

text \<open>A page of the kernel with one visible name, and the end of the kernel's stream with one overlay child still owed.\<close>

theorem merged_page_exact_witness:
  "(\<exists>r. mr_status (process_dir_output sample_sources sample_query r [] []) = 0 \<and>
     [98] \<in> set (page_names 8 12 (mr_buf (process_dir_output sample_sources sample_query r [] []))
       (io_information (mr_io (process_dir_output sample_sources sample_query r [] []))))) \<and>
   page_names 8 12 (mr_buf (process_dir_output sample_sources sample_query sample_eof [] []))
     (io_information (mr_io (process_dir_output sample_sources sample_query sample_eof [] []))) = [[97]]"
proof -
  from sample_b obtain r where r: "good_page 8 12 r" "visible_names 8 12 [dot_winrsbox_u16, [99]] r = [[98]]" "reply_names 8 12 r = {''b''}"
    "\<not> all_hidden 8 12 [dot_winrsbox_u16, [99]] r" by blast
  have q: "\<not> dq_null_iosb sample_query" "\<not> dq_null_buffer sample_query" "\<not> dq_single sample_query" by (simp_all add: sample_query_def)
  define st where "st = fresh_state 0 (Some ''d'') None"
  have st: "resume_state sample_query (Some ''d'') None = st" by (simp add: resume_state_def st_def sample_query_def)
  have f: "ds_mask st = None" "ds_cursor st = 0" "ds_delivered st = {}" by (simp_all add: st_def fresh_state_def)
  have ok: "state_ok sample_sources ''d'' [sample_child ''a'', sample_child ''c''] st"
    by (simp add: state_ok_def pass_extras_def st_def fresh_state_def sample_facts)
  have cm: "pass_case_map sample_sources (Some ''d'') st = None" by (simp add: pass_case_map_def st_def fresh_state_def sample_facts)
  have e: "\<not> end_reply r" using r(1) by (auto simp: good_page_def end_reply_def)
  have turn: "stream_turn 8 12 (hide_set sample_sources (Some ''d'')) st r [] = ([[98]], {''b''}, [], False)"
    "stream_turn 8 12 (hide_set sample_sources (Some ''d'')) st sample_eof [] = ([], {}, [], True)"
    using r e by (simp_all add: stream_turn_def st_def fresh_state_def sample_facts)
  note page = merged_page_exact [OF sample_facts(11) _ q(1,2) sample_facts(1) _ _ st ok _ refl]
  have low: "to_ascii_lowercase (oc_name (sample_child ''a'')) = ''a''" "to_ascii_lowercase (oc_name (sample_child ''c'')) = ''c''"
    by (simp_all add: sample_child_def sample_eval)
  have owed: "owed None (hide_lower_set (hide_set sample_sources (Some ''d''))) {} [sample_child ''a'', sample_child ''c''] = [sample_child ''a'']"
    by (simp add: wanted_def low sample_facts)
  have small: "\<not> page_full 12 sample_query False 0 [sample_child ''a'']"
    by (simp add: page_full_def record_size_def round8_def sample_facts)
  have pre: "dq_capacity sample_query < 2 ^ 32" "\<forall>p \<in> set [sample_eof]. good_page 8 12 p \<or> end_reply p"
    "take_enum_state (dq_handle sample_query) [] = (None, [])" by (simp_all add: sample_facts)
  let ?res = "process_dir_output sample_sources sample_query sample_eof [] []"
  let ?left = "\<lambda>st' :: dir_state. owed None (hide_lower_set (hide_set sample_sources (Some ''d''))) (ds_delivered st')
    (drop (ds_cursor st') [sample_child ''a'', sample_child ''c''])"
  from page [OF pre turn(2)] obtain new st' where
    "?left st = new @ ?left st'" "page_full 12 sample_query (map child_units new \<noteq> []) (io_information (mr_io ?res)) (?left st')"
    "mr_status ?res = 0 \<longleftrightarrow> map child_units new \<noteq> []"
    "mr_status ?res = 0 \<longrightarrow> page_names 8 12 (mr_buf ?res) (io_information (mr_io ?res)) = map child_units new"
    "mr_status ?res \<noteq> 0 \<longrightarrow> io_information (mr_io ?res) = 0"
    unfolding Let_def
    apply (elim exE)
    subgoal for new st' unfolding f(1) option.map list.map append_Nil Un_empty_right by (rule that [of new st']) blast+
    done
  then obtain left where L: "[sample_child ''a''] = new @ left" "page_full 12 sample_query (new \<noteq> []) (io_information (mr_io ?res)) left"
    "new = [] \<longrightarrow> io_information (mr_io ?res) = 0"
    "new \<noteq> [] \<longrightarrow> page_names 8 12 (mr_buf ?res) (io_information (mr_io ?res)) = map child_units new"
    by (auto simp only: f drop_0 owed map_is_Nil_conv)
  have "new \<noteq> []"
  proof
    assume n: "new = []"
    with L(1) have "left = [sample_child ''a'']" by simp
    with L(2,3) n small show False by simp
  qed
  with L(1) have "new = [sample_child ''a'']" by (cases new) auto
  with L(4) have "page_names 8 12 (mr_buf (process_dir_output sample_sources sample_query sample_eof [] []))
     (io_information (mr_io (process_dir_output sample_sources sample_query sample_eof [] []))) = [[97]]" by (simp add: sample_facts)
  moreover from page [OF pre(1) _ pre(3) turn(1)] r(1)
  have "mr_status (process_dir_output sample_sources sample_query r [] []) = 0 \<and>
     [98] \<in> set (page_names 8 12 (mr_buf (process_dir_output sample_sources sample_query r [] []))
       (io_information (mr_io (process_dir_output sample_sources sample_query r [] []))))"
    by (auto simp: cm restored_def sample_facts Let_def)
  ultimately show ?thesis by blast
qed

section \<open>Where the listing falls short\<close>

text \<open>A restart without a pattern forgets the retained one.\<close>

lemma restart_forgets_pattern:
  "dq_restart q \<Longrightarrow> dq_pattern q = None \<Longrightarrow> ds_mask (resume_state q dir (Some prev)) = None"
  by (simp add: resume_state_def fresh_state_def)

text \<open>A page that comes with any other status, such as \<^verbatim>\<open>STATUS_BUFFER_OVERFLOW\<close>, reaches the guest unfiltered.\<close>

lemma other_status_unfiltered:
  assumes "kr_status r \<notin> {0, STATUS_NO_SUCH_FILE, STATUS_NO_MORE_FILES}"
    and "take_enum_state (dq_handle q) states = (None, states1)"
  shows "mr_buf (process_dir_output S q r replies states) = kr_buf r \<and> mr_io (process_dir_output S q r replies states) = kr_io r"
  using assms by (auto simp: process_dir_output_def real_stream_def resume_state_def fresh_state_def real_loop.simps Let_def)

text \<open>A deleted name is compared by ASCII case only, although whiteouts are stored folded like NTFS does.\<close>

lemma deleted_name_reappears: "\<not> hidden_entry [dot_winrsbox_u16, [0xE9]] (bs, [0xC9])"
  by (simp add: hidden_entry_def name_matches_any_def fold_unit_def sample_eval)

text \<open>The halves of a surrogate pair are decoded alone, so such a name on a page is never recognised among the children.\<close>

lemma astral_name_differs: "units_lower [0xD83D, 0xDE00] \<noteq> to_ascii_lowercase (utf8_encode [0x1F600])"
  by (simp add: units_lower_def unit_lower_def sample_eval)

end
