(* ===== verification/Scan.thy ===== *)
theory Scan
  imports Prelude
begin

text \<open>
  The code integrity scanner (\<^verbatim>\<open>winrsbox-policy/src/domains/scan.rs\<close>): direct system calls in x86-64 code, found by linear
  sweeps from several entry offsets, and the section table of a PE image. The instruction decoder (the crate
  \<^verbatim>\<open>iced-x86\<close>) is a parameter; \<open>decodes_patterns\<close> states what its documentation says and the scanner relies on.
\<close>

section \<open>Instructions\<close>

datatype mnemonic = MSyscall | MSysenter | MInt | MMov | MOther

datatype op_kind = OkRegister | OkImmediate32 | OkOther

datatype x86_register = R10 | RCX | EAX | ROther

record instruction =
  in_invalid :: bool
  in_mnemonic :: mnemonic
  in_immediate8 :: u8
  in_op_count :: nat
  in_op_kind :: "nat \<Rightarrow> op_kind"
  in_op_register :: "nat \<Rightarrow> x86_register"

text \<open>\<open>dec ip bytes\<close>: the instruction that starts at the first byte, and its length.\<close>

type_synonym decoder = "u64 \<Rightarrow> u8 list \<Rightarrow> instruction \<times> nat"

datatype syscall_kind = Syscall | Sysenter | Int2e

record syscall_hit =
  sh_offset :: nat
  sh_kind :: syscall_kind

definition MAX_INSTRUCTION_LEN :: nat where
  "MAX_INSTRUCTION_LEN = 15"

definition DATA_CONTEXT_LOOKBACK :: nat where
  "DATA_CONTEXT_LOOKBACK = 4"

definition kind_of_instruction :: "instruction \<Rightarrow> syscall_kind option" where
  "kind_of_instruction i =
     (case in_mnemonic i of
        MSyscall \<Rightarrow> Some Syscall
      | MSysenter \<Rightarrow> Some Sysenter
      | MInt \<Rightarrow> if in_immediate8 i = 0x2e then Some Int2e else None
      | _ \<Rightarrow> None)"

definition is_mov_r10_rcx :: "instruction \<Rightarrow> bool" where
  "is_mov_r10_rcx i \<longleftrightarrow>
     in_mnemonic i = MMov \<and> in_op_count i = 2 \<and> in_op_kind i 0 = OkRegister \<and> in_op_register i 0 = R10 \<and>
     in_op_kind i 1 = OkRegister \<and> in_op_register i 1 = RCX"

definition is_mov_eax_imm32 :: "instruction \<Rightarrow> bool" where
  "is_mov_eax_imm32 i \<longleftrightarrow>
     in_mnemonic i = MMov \<and> in_op_count i = 2 \<and> in_op_kind i 0 = OkRegister \<and> in_op_register i 0 = EAX \<and>
     in_op_kind i 1 = OkImmediate32"

section \<open>The context of a sweep\<close>

record data_context =
  dc_exempt :: bool
  dc_since_invalid :: nat
  dc_after_mov_r10_rcx :: bool
  dc_after_stub_setup :: bool

definition new_context :: "nat \<Rightarrow> data_context" where
  "new_context len =
     \<lparr>dc_exempt = (len \<le> MAX_INSTRUCTION_LEN), dc_since_invalid = DATA_CONTEXT_LOOKBACK, dc_after_mov_r10_rcx = False,
      dc_after_stub_setup = False\<rparr>"

text \<open>\<^verbatim>\<open>DataContext::hit\<close>; the counter is a \<^verbatim>\<open>usize\<close> that saturates beyond any buffer, here a number.\<close>

definition context_hit :: "data_context \<Rightarrow> instruction \<Rightarrow> syscall_kind option \<times> data_context" where
  "context_hit c i =
     (if in_invalid i
      then (None, c\<lparr>dc_since_invalid := 0, dc_after_mov_r10_rcx := False, dc_after_stub_setup := False\<rparr>)
      else
        (let is_syscall = kind_of_instruction i;
             canonical_stub = (dc_after_stub_setup c \<and> is_syscall = Some Syscall);
             kind = (if dc_exempt c \<or> DATA_CONTEXT_LOOKBACK \<le> dc_since_invalid c \<or> canonical_stub then is_syscall else None)
         in (kind, c\<lparr>dc_after_stub_setup := dc_after_mov_r10_rcx c \<and> is_mov_eax_imm32 i,
                     dc_after_mov_r10_rcx := is_mov_r10_rcx i, dc_since_invalid := dc_since_invalid c + 1\<rparr>)))"

section \<open>Sweeps\<close>

text \<open>The decoder moves on by the length of the instruction, at least by one byte.\<close>

function sweep_loop :: "decoder \<Rightarrow> u64 \<Rightarrow> data_context \<Rightarrow> nat \<Rightarrow> u8 list \<Rightarrow> syscall_hit list" where
  "sweep_loop dec base c pos bytes =
     (if bytes = [] then []
      else (let (i, n) = dec (base + of_nat pos) bytes;
                (k, c') = context_hit c i;
                rest = sweep_loop dec base c' (pos + max 1 n) (drop (max 1 n) bytes)
            in case k of Some k \<Rightarrow> \<lparr>sh_offset = pos, sh_kind = k\<rparr> # rest | None \<Rightarrow> rest))"
  by pat_completeness auto
termination
  by (relation "measure (\<lambda>(dec, base, c, pos, bytes). length bytes)") auto

declare sweep_loop.simps [simp del]

function sweep_has :: "decoder \<Rightarrow> u64 \<Rightarrow> data_context \<Rightarrow> nat \<Rightarrow> u8 list \<Rightarrow> bool" where
  "sweep_has dec base c pos bytes =
     (if bytes = [] then False
      else (let (i, n) = dec (base + of_nat pos) bytes; (k, c') = context_hit c i
            in if k \<noteq> None then True else sweep_has dec base c' (pos + max 1 n) (drop (max 1 n) bytes)))"
  by pat_completeness auto
termination
  by (relation "measure (\<lambda>(dec, base, c, pos, bytes). length bytes)") auto

declare sweep_has.simps [simp del]

definition sweep_has_direct_syscall :: "decoder \<Rightarrow> u8 list \<Rightarrow> u64 \<Rightarrow> bool \<Rightarrow> bool" where
  "sweep_has_direct_syscall dec bytes base data_context =
     (let c = new_context (length bytes)
      in sweep_has dec base (c\<lparr>dc_exempt := dc_exempt c \<or> \<not> data_context\<rparr>) 0 bytes)"

text \<open>\<^verbatim>\<open>mov r10, rcx; mov eax, imm32; syscall\<close> as bytes.\<close>

definition stub_window :: "u8 list \<Rightarrow> bool" where
  "stub_window w \<longleftrightarrow> starts_with w [0x4c, 0x8b, 0xd1, 0xb8] \<and> drop 8 w = [0x0f, 0x05]"

definition canonical_stub_syscalls :: "u8 list \<Rightarrow> nat list" where
  "canonical_stub_syscalls bytes =
     map (\<lambda>i. i + 8) (filter (\<lambda>i. stub_window (take 10 (drop i bytes))) [0..<length bytes + 1 - 10])"

text \<open>\<^verbatim>\<open>dedup_by_key\<close>: of neighbours with the same offset the first one stays.\<close>

fun dedup_hits :: "syscall_hit list \<Rightarrow> syscall_hit list" where
  "dedup_hits [] = []"
| "dedup_hits [h] = [h]"
| "dedup_hits (h # h' # hs) = (if sh_offset h = sh_offset h' then dedup_hits (h # hs) else h # dedup_hits (h' # hs))"

definition find_direct_syscalls :: "decoder \<Rightarrow> u8 list \<Rightarrow> u64 \<Rightarrow> syscall_hit list" where
  "find_direct_syscalls dec bytes base =
     (let hits = sweep_loop dec base (new_context (length bytes)) 0 bytes;
          hits = hits @ map (\<lambda>off. \<lparr>sh_offset = off, sh_kind = Syscall\<rparr>) (canonical_stub_syscalls bytes)
      in dedup_hits (sort_key sh_offset hits))"

definition entry_window :: "u8 list \<Rightarrow> nat \<Rightarrow> u8 list" where
  "entry_window bytes entry = take (min (entry + 2 * MAX_INSTRUCTION_LEN) (length bytes) - entry) (drop entry bytes)"

definition find_direct_syscalls_multi_entry :: "decoder \<Rightarrow> u8 list \<Rightarrow> u64 \<Rightarrow> syscall_hit list" where
  "find_direct_syscalls_multi_entry dec bytes base =
     (let hits = find_direct_syscalls dec bytes base;
          entries = min (length bytes) (MAX_INSTRUCTION_LEN + 1);
          more = concat (map (\<lambda>entry. map (\<lambda>h. h\<lparr>sh_offset := sh_offset h + entry\<rparr>)
                   (find_direct_syscalls dec (entry_window bytes entry) (base + of_nat entry))) [1..<entries])
      in dedup_hits (sort_key sh_offset (hits @ more)))"

definition has_direct_syscall_with :: "decoder \<Rightarrow> u8 list \<Rightarrow> u64 \<Rightarrow> bool \<Rightarrow> bool" where
  "has_direct_syscall_with dec bytes base data_context =
     (if sweep_has_direct_syscall dec bytes base data_context then True
      else if canonical_stub_syscalls bytes \<noteq> [] then True
      else list_ex (\<lambda>entry. sweep_has_direct_syscall dec (entry_window bytes entry) (base + of_nat entry) data_context)
             [1..<min (length bytes) (MAX_INSTRUCTION_LEN + 1)])"

definition has_direct_syscall :: "decoder \<Rightarrow> u8 list \<Rightarrow> u64 \<Rightarrow> bool" where
  "has_direct_syscall dec bytes base = has_direct_syscall_with dec bytes base True"

definition has_direct_syscall_strict :: "decoder \<Rightarrow> u8 list \<Rightarrow> u64 \<Rightarrow> bool" where
  "has_direct_syscall_strict dec bytes base = has_direct_syscall_with dec bytes base False"

section \<open>PE images\<close>

definition DOS_MAGIC :: nat where "DOS_MAGIC = 0x5A4D"
definition NT_MAGIC :: nat where "NT_MAGIC = 0x00004550"
definition IMAGE_SCN_MEM_EXECUTE :: u32 where "IMAGE_SCN_MEM_EXECUTE = 0x20000000"
definition SECTION_HEADER_SIZE :: nat where "SECTION_HEADER_SIZE = 40"

definition read_u16_le :: "u8 list \<Rightarrow> nat \<Rightarrow> nat option" where
  "read_u16_le buf off =
     (if off + 2 \<le> length buf then Some (unat (buf ! off) + 256 * unat (buf ! (off + 1))) else None)"

definition read_u32_le :: "u8 list \<Rightarrow> nat \<Rightarrow> nat option" where
  "read_u32_le buf off =
     (if off + 4 \<le> length buf
      then Some (unat (buf ! off) + 256 * unat (buf ! (off + 1)) + 65536 * unat (buf ! (off + 2)) + 16777216 * unat (buf ! (off + 3)))
      else None)"

record raw_section =
  rs_name :: "u8 list"
  rs_virtual_size :: nat
  rs_virtual_address :: nat
  rs_characteristics :: u32

definition read_section :: "u8 list \<Rightarrow> nat \<Rightarrow> raw_section option" where
  "read_section buf s =
     (if s + 8 \<le> length buf
      then (case read_u32_le buf (s + 8) of None \<Rightarrow> None | Some vs \<Rightarrow>
           (case read_u32_le buf (s + 12) of None \<Rightarrow> None | Some va \<Rightarrow>
           (case read_u32_le buf (s + 36) of None \<Rightarrow> None | Some ch \<Rightarrow>
              Some \<lparr>rs_name = take 8 (drop s buf), rs_virtual_size = vs, rs_virtual_address = va, rs_characteristics = of_nat ch\<rparr>)))
      else None)"

fun read_sections :: "u8 list \<Rightarrow> nat \<Rightarrow> nat \<Rightarrow> raw_section list option" where
  "read_sections buf s 0 = Some []"
| "read_sections buf s (Suc n) =
     (case read_section buf s of
        None \<Rightarrow> None
      | Some sec \<Rightarrow> map_option ((#) sec) (read_sections buf (s + SECTION_HEADER_SIZE) n))"

text \<open>The header fields before the table: its offset and the number of entries.\<close>

definition section_table :: "u8 list \<Rightarrow> (nat \<times> nat) option" where
  "section_table buf =
     (if read_u16_le buf 0 \<noteq> Some DOS_MAGIC then None
      else (case read_u32_le buf 0x3C of None \<Rightarrow> None | Some e_lfanew \<Rightarrow>
        if read_u32_le buf e_lfanew \<noteq> Some NT_MAGIC then None
        else (let coff = e_lfanew + 4 in
          case read_u16_le buf (coff + 2) of None \<Rightarrow> None | Some num_sections \<Rightarrow>
          case read_u16_le buf (coff + 16) of None \<Rightarrow> None | Some size_optional \<Rightarrow>
            Some (coff + 20 + size_optional, num_sections))))"

definition pe_sections :: "u8 list \<Rightarrow> raw_section list option" where
  "pe_sections buf = (case section_table buf of None \<Rightarrow> None | Some (at, n) \<Rightarrow> read_sections buf at n)"

record pe_section =
  ps_name :: "u8 list"
  ps_virtual_address :: nat
  ps_virtual_size :: nat

definition pe_executable_sections :: "u8 list \<Rightarrow> pe_section list" where
  "pe_executable_sections buf =
     (case pe_sections buf of
        None \<Rightarrow> []
      | Some ss \<Rightarrow> map (\<lambda>s. \<lparr>ps_name = rs_name s, ps_virtual_address = rs_virtual_address s, ps_virtual_size = rs_virtual_size s\<rparr>)
          (filter (\<lambda>s. and (rs_characteristics s) IMAGE_SCN_MEM_EXECUTE \<noteq> 0) ss))"

definition pe_text_section :: "u8 list \<Rightarrow> (nat \<times> nat) option" where
  "pe_text_section buf =
     (case pe_sections buf of
        None \<Rightarrow> None
      | Some ss \<Rightarrow> map_option (\<lambda>s. (rs_virtual_address s, rs_virtual_size s))
          (List.find (\<lambda>s. rs_name s = [0x2E, 0x74, 0x65, 0x78, 0x74, 0, 0, 0]) ss))"

section \<open>Sweeps and their boolean twin\<close>

lemma sweep_has_iff: "sweep_has dec base c pos bytes \<longleftrightarrow> sweep_loop dec base c pos bytes \<noteq> []"
proof (induction dec base c pos bytes rule: sweep_has.induct)
  case (1 dec base c pos bytes)
  show ?case
  proof (cases "bytes = []")
    case True
    then show ?thesis by (simp add: sweep_has.simps sweep_loop.simps)
  next
    case False
    obtain i n where d: "dec (base + of_nat pos) bytes = (i, n)" by fastforce
    obtain k c' where h: "context_hit c i = (k, c')" by fastforce
    from 1 [OF False d [symmetric] refl h [symmetric] refl] False d h show ?thesis
      by (cases k) (simp_all add: sweep_has.simps [of dec base c pos bytes] sweep_loop.simps [of dec base c pos bytes] Let_def)
  qed
qed

lemma dedup_offsets: "sh_offset ` set (dedup_hits hs) = sh_offset ` set hs"
  by (induction hs rule: dedup_hits.induct) auto

lemma dedup_subset: "set (dedup_hits hs) \<subseteq> set hs"
  by (induction hs rule: dedup_hits.induct) auto

lemma dedup_strict: "sorted (map sh_offset hs) \<Longrightarrow> sorted_wrt (\<lambda>a b. sh_offset a < sh_offset b) (dedup_hits hs)"
proof (induction hs rule: dedup_hits.induct)
  case (3 h h' hs)
  show ?case
  proof (cases "sh_offset h = sh_offset h'")
    case True
    with 3 show ?thesis by simp
  next
    case False
    with 3 have s: "sorted_wrt (\<lambda>a b. sh_offset a < sh_offset b) (dedup_hits (h' # hs))" and lt: "sh_offset h < sh_offset h'" by auto
    have "sh_offset h < sh_offset x" if "x \<in> set (dedup_hits (h' # hs))" for x
      using that dedup_subset [of "h' # hs"] lt 3(3) by (auto dest!: subsetD)
    with s False show ?thesis by simp
  qed
qed simp_all

lemma find_offsets:
  "sh_offset ` set (find_direct_syscalls dec bytes base) =
     sh_offset ` set (sweep_loop dec base (new_context (length bytes)) 0 bytes) \<union> set (canonical_stub_syscalls bytes)"
  by (simp add: find_direct_syscalls_def Let_def dedup_offsets image_Un image_image)

lemma find_empty:
  "find_direct_syscalls dec bytes base = [] \<longleftrightarrow>
     \<not> sweep_has_direct_syscall dec bytes base True \<and> canonical_stub_syscalls bytes = []"
proof -
  have "new_context n\<lparr>dc_exempt := dc_exempt (new_context n) \<or> \<not> True\<rparr> = new_context n" for n by simp
  then have s: "sweep_has_direct_syscall dec bytes base True \<longleftrightarrow> sweep_loop dec base (new_context (length bytes)) 0 bytes \<noteq> []"
    by (simp add: sweep_has_direct_syscall_def sweep_has_iff Let_def)
  have "find_direct_syscalls dec bytes base = [] \<longleftrightarrow> sh_offset ` set (find_direct_syscalls dec bytes base) = {}" by simp
  then show ?thesis unfolding find_offsets s by simp
qed

text \<open>A stub in a window of the buffer is a stub of the buffer.\<close>

lemma canonical_stub_iff:
  "off \<in> set (canonical_stub_syscalls bytes) \<longleftrightarrow>
     (\<exists>i. off = i + 8 \<and> i + 10 \<le> length bytes \<and> stub_window (take 10 (drop i bytes)))"
proof -
  have "i < length bytes + 1 - 10 \<longleftrightarrow> i + 10 \<le> length bytes" for i by linarith
  then show ?thesis unfolding canonical_stub_syscalls_def by auto
qed

lemma stub_in_window:
  assumes "off \<in> set (canonical_stub_syscalls (take n (drop entry bytes)))"
  shows "off + entry \<in> set (canonical_stub_syscalls bytes)"
proof -
  obtain i where i: "off = i + 8" "i + 10 \<le> length (take n (drop entry bytes))" "stub_window (take 10 (drop i (take n (drop entry bytes))))"
    using assms by (auto simp only: canonical_stub_iff)
  have n: "i + 10 \<le> n" "i + 10 + entry \<le> length bytes" using i(2) by auto
  have "take 10 (drop i (take n (drop entry bytes))) = take 10 (drop (i + entry) bytes)"
    using n by (simp add: drop_take min_def)
  with i(1,3) n show ?thesis unfolding canonical_stub_iff by (intro exI [of _ "i + entry"]) simp
qed

lemma no_stub_in_window: "canonical_stub_syscalls bytes = [] \<Longrightarrow> canonical_stub_syscalls (entry_window bytes e) = []"
proof (rule ccontr)
  assume n: "canonical_stub_syscalls bytes = []" and "canonical_stub_syscalls (entry_window bytes e) \<noteq> []"
  then have "hd (canonical_stub_syscalls (entry_window bytes e)) \<in> set (canonical_stub_syscalls (entry_window bytes e))" by simp
  from stub_in_window [OF this [unfolded entry_window_def]] n show False by simp
qed

section \<open>The boolean scan\<close>

lemma multi_entry_empty:
  "find_direct_syscalls_multi_entry dec bytes base = [] \<longleftrightarrow>
     find_direct_syscalls dec bytes base = [] \<and>
     (\<forall>e \<in> set [1..<min (length bytes) (MAX_INSTRUCTION_LEN + 1)]. find_direct_syscalls dec (entry_window bytes e) (base + of_nat e) = [])"
proof -
  have "find_direct_syscalls_multi_entry dec bytes base = [] \<longleftrightarrow> sh_offset ` set (find_direct_syscalls_multi_entry dec bytes base) = {}" by simp
  then show ?thesis by (simp add: find_direct_syscalls_multi_entry_def Let_def dedup_offsets image_Un del: set_upt)
qed

lemma has_found: "has_direct_syscall dec bytes base \<longleftrightarrow> find_direct_syscalls_multi_entry dec bytes base \<noteq> []"
  using no_stub_in_window [of bytes]
  by (auto simp: has_direct_syscall_def has_direct_syscall_with_def multi_entry_empty find_empty list_ex_iff simp del: set_upt)

text \<open>C40: \<^verbatim>\<open>has_direct_syscall\<close>, which stops at the first hit and builds no list, answers true exactly when
  \<^verbatim>\<open>find_direct_syscalls_multi_entry\<close> reports at least one hit.\<close>

theorem has_direct_syscall_iff_found:
  "has_direct_syscall dec bytes base = (find_direct_syscalls_multi_entry dec bytes base \<noteq> [])"
  by (rule has_found)

text \<open>The strict scan reports whatever the plain scan reports: a sweep without the data context only adds hits.\<close>

definition context_below :: "data_context \<Rightarrow> data_context \<Rightarrow> bool" where
  "context_below c d \<longleftrightarrow>
     dc_exempt d \<and> dc_since_invalid c = dc_since_invalid d \<and>
     dc_after_mov_r10_rcx c = dc_after_mov_r10_rcx d \<and> dc_after_stub_setup c = dc_after_stub_setup d"

lemma context_hit_below:
  "context_below c d \<Longrightarrow>
     context_below (snd (context_hit c i)) (snd (context_hit d i)) \<and>
     (fst (context_hit c i) \<noteq> None \<longrightarrow> fst (context_hit d i) \<noteq> None)"
  by (auto simp: context_below_def context_hit_def Let_def)

lemma sweep_has_mono:
  "sweep_has dec base c pos bytes \<Longrightarrow> context_below c d \<Longrightarrow> sweep_has dec base d pos bytes"
proof (induction dec base c pos bytes arbitrary: d rule: sweep_has.induct)
  case (1 dec base c pos bytes)
  show ?case
  proof (cases "bytes = []")
    case True
    with 1 show ?thesis by (simp add: sweep_has.simps)
  next
    case False
    obtain i n where d: "dec (base + of_nat pos) bytes = (i, n)" by fastforce
    obtain k c' where h: "context_hit c i = (k, c')" by fastforce
    obtain k' d' where h': "context_hit d i = (k', d')" by fastforce
    from context_hit_below [OF 1(3), of i] h h' have b: "context_below c' d'" "k \<noteq> None \<longrightarrow> k' \<noteq> None" by auto
    from 1(2) False d h have "k \<noteq> None \<or> sweep_has dec base c' (pos + max 1 n) (drop (max 1 n) bytes)"
      by (auto simp: sweep_has.simps [of dec base c pos bytes] split: if_splits)
    with 1(1) [OF False d [symmetric] refl h [symmetric] refl] b
    have "k' \<noteq> None \<or> sweep_has dec base d' (pos + max 1 n) (drop (max 1 n) bytes)" by blast
    with False d h' show ?thesis by (auto simp: sweep_has.simps [of dec base d pos bytes])
  qed
qed

lemma sweep_strict: "sweep_has_direct_syscall dec bytes base True \<Longrightarrow> sweep_has_direct_syscall dec bytes base False"
  unfolding sweep_has_direct_syscall_def Let_def
  by (rule sweep_has_mono) (assumption, simp add: context_below_def new_context_def)

lemma strict_reports_more: "has_direct_syscall dec bytes base \<Longrightarrow> has_direct_syscall_strict dec bytes base"
  unfolding has_direct_syscall_def has_direct_syscall_strict_def has_direct_syscall_with_def
  using sweep_strict by (auto simp: list_ex_iff simp del: set_upt split: if_splits)

section \<open>Short buffers\<close>

text \<open>What the scan relies on of the decoder: the two bytes \<^verbatim>\<open>0F 05\<close> at the start are the instruction \<^verbatim>\<open>syscall\<close>, \<^verbatim>\<open>0F 34\<close>
  is \<^verbatim>\<open>sysenter\<close>, and \<^verbatim>\<open>CD 2E\<close> is \<^verbatim>\<open>int 2eh\<close>, each two bytes long.\<close>

definition pattern_kind :: "u8 \<Rightarrow> u8 \<Rightarrow> syscall_kind option" where
  "pattern_kind a b =
     (if a = 0x0f \<and> b = 0x05 then Some Syscall
      else if a = 0x0f \<and> b = 0x34 then Some Sysenter
      else if a = 0xcd \<and> b = 0x2e then Some Int2e else None)"

definition decodes_patterns :: "decoder \<Rightarrow> bool" where
  "decodes_patterns dec \<longleftrightarrow>
     (\<forall>ip a b rest k. pattern_kind a b = Some k \<longrightarrow>
        snd (dec ip (a # b # rest)) = 2 \<and> \<not> in_invalid (fst (dec ip (a # b # rest))) \<and>
        kind_of_instruction (fst (dec ip (a # b # rest))) = Some k)"

lemma sweep_first:
  assumes d: "decodes_patterns dec" and k: "pattern_kind a b = Some k" and e: "dc_exempt c \<or> DATA_CONTEXT_LOOKBACK \<le> dc_since_invalid c"
  shows "pos \<in> sh_offset ` set (sweep_loop dec base c pos (a # b # rest))"
proof -
  obtain i n where i: "dec (base + of_nat pos) (a # b # rest) = (i, n)" by fastforce
  from d k i have v: "\<not> in_invalid i" "kind_of_instruction i = Some k"
    unfolding decodes_patterns_def by (metis fst_conv)+
  obtain c' where "context_hit c i = (Some k, c')" using v e by (auto simp: context_hit_def Let_def)
  with i show ?thesis by (subst sweep_loop.simps) (simp add: Let_def)
qed

text \<open>A pattern at the very start of a buffer is reported, whatever its length.\<close>

lemma pattern_at_start:
  "decodes_patterns dec \<Longrightarrow> pattern_kind a b = Some k \<Longrightarrow> 0 \<in> sh_offset ` set (find_direct_syscalls dec (a # b # rest) base)"
  unfolding find_offsets by (rule UnI1, rule sweep_first) (auto simp: new_context_def)

lemma multi_entry_offsets:
  "sh_offset ` set (find_direct_syscalls_multi_entry dec bytes base) =
     sh_offset ` set (find_direct_syscalls dec bytes base) \<union>
     (\<Union>e \<in> {1..<min (length bytes) (MAX_INSTRUCTION_LEN + 1)}.
        (\<lambda>off. off + e) ` sh_offset ` set (find_direct_syscalls dec (entry_window bytes e) (base + of_nat e)))"
  by (auto simp: find_direct_syscalls_multi_entry_def Let_def dedup_offsets image_Un image_image image_UN)

lemma entry_reported:
  assumes d: "decodes_patterns dec" and e: "e \<le> MAX_INSTRUCTION_LEN" "e + 1 < length bytes"
    and k: "pattern_kind (bytes ! e) (bytes ! (e + 1)) = Some k"
  shows "e \<in> sh_offset ` set (find_direct_syscalls_multi_entry dec bytes base)"
proof (cases "e = 0")
  case True
  obtain a b rest where b: "bytes = a # b # rest" using e(2) True by (cases bytes; cases "tl bytes") auto
  from pattern_at_start [OF d, of a b k rest base] k True b show ?thesis unfolding multi_entry_offsets by simp
next
  case False
  have b: "drop e bytes = bytes ! e # bytes ! (e + 1) # drop (e + 2) bytes" using e(2) by (simp add: Cons_nth_drop_Suc)
  obtain n where n: "min (e + 2 * MAX_INSTRUCTION_LEN) (length bytes) - e = Suc (Suc n)"
  proof -
    have "2 \<le> min (e + 2 * MAX_INSTRUCTION_LEN) (length bytes) - e" using e(2) by (simp add: MAX_INSTRUCTION_LEN_def)
    then show thesis using that by (metis add_2_eq_Suc le_Suc_ex)
  qed
  have "entry_window bytes e = bytes ! e # bytes ! (e + 1) # take n (drop (e + 2) bytes)"
    unfolding entry_window_def n b by simp
  with pattern_at_start [OF d k] have "0 \<in> sh_offset ` set (find_direct_syscalls dec (entry_window bytes e) (base + of_nat e))" by metis
  then have "e \<in> (\<lambda>off. off + e) ` sh_offset ` set (find_direct_syscalls dec (entry_window bytes e) (base + of_nat e))" by force
  moreover have "e \<in> {1..<min (length bytes) (MAX_INSTRUCTION_LEN + 1)}" using False e by auto
  ultimately show ?thesis unfolding multi_entry_offsets by blast
qed

text \<open>every occurrence of the byte patterns of a system call within the entry offsets (the first sixteen bytes) is
  reported, whatever instruction of the plain sweep swallows it; in a buffer of at most 15 bytes that is every occurrence at
  any alignment.\<close>

theorem pattern_at_entry_reported:
  assumes "decodes_patterns dec" and "e \<le> MAX_INSTRUCTION_LEN" and "e + 1 < length bytes"
    and "pattern_kind (bytes ! e) (bytes ! (e + 1)) = Some k"
  shows "e \<in> sh_offset ` set (find_direct_syscalls_multi_entry dec bytes base)"
  by (rule entry_reported [OF assms])

text \<open>A decoder of the instructions of one example: \<^verbatim>\<open>mov rax, 0x050F\<close>, whose immediate holds the bytes of \<^verbatim>\<open>syscall\<close>.\<close>

definition plain_instruction :: "mnemonic \<Rightarrow> u8 \<Rightarrow> instruction" where
  "plain_instruction m imm =
     \<lparr>in_invalid = False, in_mnemonic = m, in_immediate8 = imm, in_op_count = 0, in_op_kind = (\<lambda>_. OkOther), in_op_register = (\<lambda>_. ROther)\<rparr>"

definition example_decoder :: decoder where
  "example_decoder ip bs =
     (if starts_with bs [0x0f, 0x05] then (plain_instruction MSyscall 0, 2)
      else if starts_with bs [0x0f, 0x34] then (plain_instruction MSysenter 0, 2)
      else if starts_with bs [0xcd, 0x2e] then (plain_instruction MInt 0x2e, 2)
      else if starts_with bs [0x48, 0xc7, 0xc0] then (plain_instruction MMov 0, 7)
      else if starts_with bs [0x06] then (plain_instruction MOther 0\<lparr>in_invalid := True\<rparr>, 1)
      else (plain_instruction MOther 0, 1))"

lemma example_decoder_lawful: "decodes_patterns example_decoder"
  by (auto simp: decodes_patterns_def pattern_kind_def example_decoder_def starts_with_def kind_of_instruction_def plain_instruction_def
      split: if_splits)

lemma pattern_at_entry_reported_witness:
  "3 \<in> sh_offset ` set (find_direct_syscalls_multi_entry example_decoder [0x48, 0xc7, 0xc0, 0x0f, 0x05, 0, 0] 0x1000)"
  by (rule pattern_at_entry_reported [where k = Syscall, OF example_decoder_lawful])
    (simp_all add: MAX_INSTRUCTION_LEN_def pattern_kind_def)

text \<open>The plain sweep of the same buffer swallows the immediate.\<close>

lemma plain_sweep_swallows: "find_direct_syscalls example_decoder [0x48, 0xc7, 0xc0, 0x0f, 0x05, 0, 0] 0x1000 = []"
  by code_simp

text \<open>The comment of \<^verbatim>\<open>find_direct_syscalls_multi_entry\<close> promises for longer buffers \<^verbatim>\<open>any pattern that is an instruction
  boundary of a linear decode starting within the first MAX_INSTRUCTION_LEN bytes\<close>. The sweep from the first byte of this
  buffer reaches \<^verbatim>\<open>syscall\<close> at offset 17 as an instruction of its own; the invalid byte before it suppresses the report, and
  only the strict scan has it.\<close>

lemma boundary_after_invalid_unreported:
  "find_direct_syscalls_multi_entry example_decoder (replicate 16 0x90 @ [0x06, 0x0f, 0x05] @ replicate 20 0x90) 0 = [] \<and>
   has_direct_syscall_strict example_decoder (replicate 16 0x90 @ [0x06, 0x0f, 0x05] @ replicate 20 0x90) 0"
  by code_simp

lemma pattern_in_short_buffer:
  "decodes_patterns dec \<Longrightarrow> length bytes \<le> MAX_INSTRUCTION_LEN \<Longrightarrow> e + 1 < length bytes \<Longrightarrow>
     pattern_kind (bytes ! e) (bytes ! (e + 1)) = Some k \<Longrightarrow> has_direct_syscall dec bytes base"
  using entry_reported [of dec e bytes k base] by (auto simp: has_found)

section \<open>The hits in order\<close>

lemma hits_sorted_strictly:
  "sorted_wrt (\<lambda>a b. sh_offset a < sh_offset b) (find_direct_syscalls_multi_entry dec bytes base)"
  unfolding find_direct_syscalls_multi_entry_def Let_def by (rule dedup_strict) simp

lemma sweep_bounds: "h \<in> set (sweep_loop dec base c pos bytes) \<Longrightarrow> pos \<le> sh_offset h \<and> sh_offset h < pos + length bytes"
proof (induction dec base c pos bytes rule: sweep_loop.induct)
  case (1 dec base c pos bytes)
  show ?case
  proof (cases "bytes = []")
    case True
    with 1 show ?thesis by (simp add: sweep_loop.simps)
  next
    case False
    obtain i n where d: "dec (base + of_nat pos) bytes = (i, n)" by fastforce
    obtain k c' where h: "context_hit c i = (k, c')" by fastforce
    from 1(2) False d h have "sh_offset h = pos \<or> h \<in> set (sweep_loop dec base c' (pos + max 1 n) (drop (max 1 n) bytes))"
      by (subst (asm) sweep_loop.simps) (auto simp: Let_def split: option.splits)
    then show ?thesis
    proof
      assume "h \<in> set (sweep_loop dec base c' (pos + max 1 n) (drop (max 1 n) bytes))"
      from 1(1) [OF False d [symmetric] refl h [symmetric] refl this] show ?thesis by auto
    qed (use False in simp)
  qed
qed

lemma find_bounds: "off \<in> sh_offset ` set (find_direct_syscalls dec bytes base) \<Longrightarrow> off < length bytes"
  unfolding find_offsets by (auto simp: canonical_stub_iff dest: sweep_bounds)

text \<open>Every reported offset lies in the scanned buffer.\<close>

lemma hits_in_bounds: "off \<in> sh_offset ` set (find_direct_syscalls_multi_entry dec bytes base) \<Longrightarrow> off < length bytes"
  unfolding multi_entry_offsets
proof (elim UnE UN_E imageE)
  fix e h h' off'
  assume e: "e \<in> {1..<min (length bytes) (MAX_INSTRUCTION_LEN + 1)}"
    and h: "off = off' + e" "off' = sh_offset h" "h \<in> set (find_direct_syscalls dec (entry_window bytes e) (base + of_nat e))"
  have "off' < length (entry_window bytes e)" by (rule find_bounds) (use h in blast)
  with e h show "off < length bytes" by (simp add: entry_window_def)
qed (auto intro: find_bounds)

section \<open>The section table\<close>

lemma read_sections_all:
  "read_sections buf s n = Some ss \<longleftrightarrow>
     length ss = n \<and> (\<forall>i < n. read_section buf (s + i * SECTION_HEADER_SIZE) = Some (ss ! i))"
proof (induction n arbitrary: s ss)
  case (Suc n)
  have "read_sections buf s (Suc n) = Some ss \<longleftrightarrow>
      (\<exists>sec rest. ss = sec # rest \<and> read_section buf s = Some sec \<and> read_sections buf (s + SECTION_HEADER_SIZE) n = Some rest)"
    by (auto split: option.splits)
  also have "\<dots> \<longleftrightarrow> length ss = Suc n \<and> (\<forall>i < Suc n. read_section buf (s + i * SECTION_HEADER_SIZE) = Some (ss ! i))"
    unfolding Suc.IH by (cases ss) (auto simp: All_less_Suc2 add.assoc add.commute add.left_commute)
  finally show ?case .
qed auto

text \<open>Of an image whose table is readable the scan gets every executable section, in the order of the table and with the
  range the table gives; one unreadable entry makes the whole table unreadable and nothing is scanned.\<close>

theorem executable_sections_exact:
  "pe_executable_sections buf =
     (case section_table buf of
        None \<Rightarrow> []
      | Some (at, n) \<Rightarrow>
          (let entry = \<lambda>i. read_section buf (at + i * SECTION_HEADER_SIZE)
           in if list_all (\<lambda>i. \<not> Option.is_none (entry i)) [0..<n]
              then map (\<lambda>s. \<lparr>ps_name = rs_name s, ps_virtual_address = rs_virtual_address s, ps_virtual_size = rs_virtual_size s\<rparr>)
                     (filter (\<lambda>s. and (rs_characteristics s) IMAGE_SCN_MEM_EXECUTE \<noteq> 0) (map (\<lambda>i. the (entry i)) [0..<n]))
              else []))"
proof (cases "section_table buf")
  case (Some t)
  obtain at n where t: "t = (at, n)" by fastforce
  show ?thesis
  proof (cases "read_sections buf at n")
    case None
    have "\<not> list_all (\<lambda>i. \<not> Option.is_none (read_section buf (at + i * SECTION_HEADER_SIZE))) [0..<n]"
    proof
      assume "list_all (\<lambda>i. \<not> Option.is_none (read_section buf (at + i * SECTION_HEADER_SIZE))) [0..<n]"
      then have "read_sections buf at n = Some (map (\<lambda>i. the (read_section buf (at + i * SECTION_HEADER_SIZE))) [0..<n])"
        unfolding read_sections_all by (auto simp: list_all_iff Option.is_none_def)
      with None show False by simp
    qed
    with Some t None show ?thesis by (simp add: pe_executable_sections_def pe_sections_def Let_def)
  next
    case s: (Some ss)
    from s [unfolded read_sections_all] have a: "length ss = n" "\<And>i. i < n \<Longrightarrow> read_section buf (at + i * SECTION_HEADER_SIZE) = Some (ss ! i)" by auto
    have m: "map (\<lambda>i. the (read_section buf (at + i * SECTION_HEADER_SIZE))) [0..<n] = ss"
      by (rule nth_equalityI) (use a in auto)
    have l: "list_all (\<lambda>i. \<not> Option.is_none (read_section buf (at + i * SECTION_HEADER_SIZE))) [0..<n]"
      using a by (auto simp: list_all_iff)
    show ?thesis using Some t s by (simp add: pe_executable_sections_def pe_sections_def Let_def m l)
  qed
qed (simp add: pe_executable_sections_def pe_sections_def)

end
