(* ===== verification/ProcTracker.thy ===== *)
theory ProcTracker
  imports Prelude
begin

text \<open>
  The children a guest process has started (\<^verbatim>\<open>winrsbox-hook/src/proc/process_tracker.rs\<close> and \<^verbatim>\<open>child_handles.rs\<close>): a map from
  process ids to the creation time read from the handle of the new process, and a list of own duplicates of those
  handles. The kernel may give the id of a dead child to another process; \<open>owned_child_is_ours\<close> shows that such a
  process is not taken for the child, unless the creation time of the child could not be read when it was recorded.
\<close>

section \<open>The tracked processes\<close>

record spawned_process =
  sp_parent_pid :: u32
  sp_exe_path :: string
  sp_spawned_at_ms :: u64
  sp_create_time :: u64

type_synonym tracker = "u32 \<rightharpoonup> spawned_process"

text \<open>\<open>os\<close> is \<^verbatim>\<open>OpenProcess\<close> with \<^verbatim>\<open>GetProcessTimes\<close>: the creation time of the live process with that id.\<close>

definition query_child_create_time :: "(u32 \<rightharpoonup> u64) \<Rightarrow> u32 \<Rightarrow> u64 option" where
  "query_child_create_time os pid = (if pid = 0 then None else os pid)"

text \<open>\<^verbatim>\<open>create_time_from_handle\<close>: zero when the handle is null or the query fails.\<close>

definition create_time_from_handle :: "bool \<Rightarrow> u64 option \<Rightarrow> u64" where
  "create_time_from_handle handle_is_null created = (if handle_is_null then 0 else unwrap_or created 0)"

definition mark_spawned :: "u64 \<Rightarrow> u32 \<Rightarrow> u32 \<Rightarrow> string \<Rightarrow> u64 \<Rightarrow> tracker \<Rightarrow> tracker" where
  "mark_spawned now child_pid parent_pid exe_path create_time m =
     m(child_pid \<mapsto> \<lparr>sp_parent_pid = parent_pid, sp_exe_path = exe_path, sp_spawned_at_ms = now, sp_create_time = create_time\<rparr>)"

definition is_owned_child :: "(u32 \<rightharpoonup> u64) \<Rightarrow> tracker \<Rightarrow> u32 \<Rightarrow> bool" where
  "is_owned_child os m pid =
     (case map_option sp_create_time (m pid) of
        None \<Rightarrow> False
      | Some stored_create_time \<Rightarrow>
          if stored_create_time = 0 then True
          else (case query_child_create_time os pid of
                  Some live_create_time \<Rightarrow> live_create_time = stored_create_time
                | None \<Rightarrow> False))"

definition parent_of :: "tracker \<Rightarrow> u32 \<Rightarrow> u32 option" where
  "parent_of m pid = map_option sp_parent_pid (m pid)"

section \<open>Duplicates of child handles\<close>

text \<open>A handle of this process names a kernel object; \<open>same\<close> is \<^verbatim>\<open>NtCompareObjects\<close>, absent before Windows 10 1607.\<close>

type_synonym 'h child_handles = "(u32 \<times> 'h) list"

definition prune_handles :: "('h \<Rightarrow> bool) \<Rightarrow> 'h child_handles \<Rightarrow> 'h child_handles" where
  "prune_handles exited v = filter (\<lambda>(pid, h). \<not> exited h) v"

text \<open>\<open>dup\<close> is the duplicate of the handle, when the duplication succeeds.\<close>

definition remember_handle :: "('h \<Rightarrow> bool) \<Rightarrow> u32 \<Rightarrow> 'h option \<Rightarrow> 'h child_handles \<Rightarrow> 'h child_handles" where
  "remember_handle exited pid dup v =
     (case dup of None \<Rightarrow> v | Some d \<Rightarrow> prune_handles exited v @ [(pid, d)])"

definition child_pid_of :: "('h \<Rightarrow> 'h \<Rightarrow> bool) option \<Rightarrow> ('h \<Rightarrow> bool) \<Rightarrow> 'h \<Rightarrow> 'h child_handles \<Rightarrow> u32 option \<times> 'h child_handles" where
  "child_pid_of same exited h v =
     (case same of
        None \<Rightarrow> (None, v)
      | Some eq \<Rightarrow> (let v' = prune_handles exited v in (map_option fst (List.find (\<lambda>(pid, own). eq h own) v'), v')))"

definition exit_code_of :: "('h \<Rightarrow> 'h \<Rightarrow> bool) option \<Rightarrow> ('h \<rightharpoonup> u32) \<Rightarrow> 'h \<Rightarrow> 'h child_handles \<Rightarrow> u32 option" where
  "exit_code_of same code h v =
     (case same of
        None \<Rightarrow> None
      | Some eq \<Rightarrow> (case List.find (\<lambda>(pid, own). eq h own) v of None \<Rightarrow> None | Some (pid, own) \<Rightarrow> code own))"

definition forget_handles :: "u32 \<Rightarrow> 'h child_handles \<Rightarrow> 'h child_handles" where
  "forget_handles pid v = filter (\<lambda>(p, h). p \<noteq> pid) v"

text \<open>\<^verbatim>\<open>untrack\<close> drops the entry and the duplicates of the id.\<close>

definition untrack :: "u32 \<Rightarrow> tracker \<times> 'h child_handles \<Rightarrow> tracker \<times> 'h child_handles" where
  "untrack pid s = ((fst s)(pid := None), forget_handles pid (snd s))"

text \<open>A handle is resolved to the id of a remembered child that has not exited.\<close>

lemma child_pid_of_live:
  "fst (child_pid_of same exited h v) = Some pid \<Longrightarrow>
     \<exists>eq own. same = Some eq \<and> (pid, own) \<in> set v \<and> \<not> exited own \<and> eq h own"
proof -
  assume a: "fst (child_pid_of same exited h v) = Some pid"
  then obtain eq where e: "same = Some eq" by (cases same) (auto simp: child_pid_of_def)
  with a obtain own where "List.find (\<lambda>(pid, own). eq h own) (prune_handles exited v) = Some (pid, own)"
    by (auto simp: child_pid_of_def Let_def)
  then obtain i where "i < length (prune_handles exited v)" "prune_handles exited v ! i = (pid, own)" "eq h own"
    by (auto simp: find_Some_iff)
  then have "(pid, own) \<in> set (prune_handles exited v)" "eq h own" by (metis nth_mem)+
  with e show ?thesis by (auto simp: prune_handles_def)
qed

lemma forgotten_not_resolved: "fst (child_pid_of same exited h (forget_handles pid v)) \<noteq> Some pid"
  using child_pid_of_live [of same exited h "forget_handles pid v" pid] by (auto simp: forget_handles_def)

section \<open>Processes come and go\<close>

text \<open>The machine around one guest: the live processes with their creation times, the clock that gives them (a later
  process has a later time), the tracked children, the processes this guest has started, and those of them whose
  creation time could not be read when they were recorded.\<close>

record world =
  w_live :: "u32 \<rightharpoonup> u64"
  w_clock :: u64
  w_tracker :: tracker
  w_ours :: "(u32 \<times> u64) set"
  w_unread :: "(u32 \<times> u64) set"

definition world_init :: "(u32 \<rightharpoonup> u64) \<Rightarrow> u64 \<Rightarrow> world" where
  "world_init live clock = \<lparr>w_live = live, w_clock = clock, w_tracker = Map.empty, w_ours = {}, w_unread = {}\<rparr>"

text \<open>A child is recorded with what the query on its handle gives: its time, or nothing when the handle is null or the query
  fails. It may be dead, and its id may be in use again, whenever the guest asks.\<close>

inductive world_step :: "world \<Rightarrow> world \<Rightarrow> bool" where
  start_foreign: "w_live w pid = None \<Longrightarrow> w_clock w < t \<Longrightarrow>
     world_step w (w\<lparr>w_live := (w_live w)(pid \<mapsto> t), w_clock := t\<rparr>)"
| start_child: "w_live w pid = None \<Longrightarrow> w_clock w < t \<Longrightarrow> queried = Some t \<or> queried = None \<Longrightarrow>
     world_step w (w\<lparr>w_live := (w_live w)(pid \<mapsto> t), w_clock := t,
       w_tracker := mark_spawned now pid self exe (create_time_from_handle handle_is_null queried) (w_tracker w),
       w_ours := insert (pid, t) (w_ours w),
       w_unread := (if handle_is_null \<or> queried = None then insert (pid, t) (w_unread w) else w_unread w)\<rparr>)"
| exit: "world_step w (w\<lparr>w_live := (w_live w)(pid := None)\<rparr>)"
| drop_entry: "world_step w (w\<lparr>w_tracker := fst (untrack pid (w_tracker w, [] :: unit child_handles))\<rparr>)"

inductive_cases world_stepE: "world_step w w'"

text \<open>Every entry of the map carries the time of a child of ours, or the mark of an unknown time, which only a child whose
  time could not be read gets.\<close>

definition tracker_inv :: "world \<Rightarrow> bool" where
  "tracker_inv w \<longleftrightarrow>
     (\<forall>pid e. w_tracker w pid = Some e \<longrightarrow>
        (if sp_create_time e = 0 then \<exists>t. (pid, t) \<in> w_unread w else (pid, sp_create_time e) \<in> w_ours w))"

lemma tracker_inv_init: "tracker_inv (world_init live clock)"
  by (simp add: tracker_inv_def world_init_def)

lemma tracker_inv_step: "world_step w w' \<Longrightarrow> tracker_inv w \<Longrightarrow> tracker_inv w'"
proof (induction rule: world_step.induct)
  case (start_child w pid t queried handle_is_null now self exe)
  from start_child(2) have "t \<noteq> 0" by auto
  moreover from start_child(3) have "create_time_from_handle handle_is_null queried = (if handle_is_null \<or> queried = None then 0 else t)"
    by (auto simp: create_time_from_handle_def unwrap_or_def)
  ultimately show ?case using start_child(4) by (fastforce simp: tracker_inv_def mark_spawned_def)
qed (auto simp: tracker_inv_def untrack_def split: if_splits)

lemma tracker_inv_reachable: "world_step\<^sup>*\<^sup>* (world_init live clock) w \<Longrightarrow> tracker_inv w"
  by (induction rule: rtranclp_induct) (auto intro: tracker_inv_init tracker_inv_step)

lemma owned_needs_match:
  assumes "tracker_inv w" and "os \<subseteq>\<^sub>m w_live w" and "is_owned_child os (w_tracker w) pid"
  shows "(\<exists>t. w_live w pid = Some t \<and> (pid, t) \<in> w_ours w) \<or>
    map_option sp_create_time (w_tracker w pid) = Some 0 \<and> (\<exists>t. (pid, t) \<in> w_unread w)"
proof -
  from assms(3) obtain e where e: "w_tracker w pid = Some e" by (auto simp: is_owned_child_def split: option.splits)
  show ?thesis
  proof (cases "sp_create_time e = 0")
    case True
    with assms(1) e show ?thesis by (auto simp: tracker_inv_def)
  next
    case False
    with assms(3) e have "os pid = Some (sp_create_time e)"
      by (auto simp: is_owned_child_def query_child_create_time_def split: option.splits if_splits)
    with assms(2) have "w_live w pid = Some (sp_create_time e)" by (auto simp: map_le_def dom_def)
    with False assms(1) e show ?thesis by (auto simp: tracker_inv_def)
  qed
qed

text \<open>C27: whatever processes start and end, and whichever queries about a process fail, an id that passes
  \<^verbatim>\<open>is_owned_child\<close> belongs to a live process that this guest has started itself, so the successor of a dead child under the
  same id does not pass; the one exception is an id recorded with an unknown creation time, for a child of this guest
  whose time could not be read when it was started.\<close>

theorem owned_child_is_ours:
  assumes "world_step\<^sup>*\<^sup>* (world_init live clock) w" and "os \<subseteq>\<^sub>m w_live w" and "is_owned_child os (w_tracker w) pid"
  shows "(\<exists>t. w_live w pid = Some t \<and> (pid, t) \<in> w_ours w) \<or>
    map_option sp_create_time (w_tracker w pid) = Some 0 \<and> (\<exists>t. (pid, t) \<in> w_unread w)"
  by (rule owned_needs_match [OF tracker_inv_reachable [OF assms(1)] assms(2,3)])

lemma owned_child_is_ours_witness:
  "\<exists>w. world_step\<^sup>*\<^sup>* (world_init Map.empty 7) w \<and> is_owned_child (w_live w) (w_tracker w) 44 \<and>
     (\<exists>t. w_live w 44 = Some t \<and> (44, t) \<in> w_ours w)"
proof -
  let ?i = "world_init Map.empty 7"
  let ?w = "?i\<lparr>w_live := (w_live ?i)(44 \<mapsto> 9), w_clock := 9,
     w_tracker := mark_spawned 0 44 1 ''a'' (create_time_from_handle False (Some 9)) (w_tracker ?i), w_ours := insert (44, 9) (w_ours ?i),
     w_unread := (if False \<or> Some (9 :: u64) = None then insert (44, 9) (w_unread ?i) else w_unread ?i)\<rparr>"
  have "world_step ?i ?w" by (rule start_child) (simp_all add: world_init_def)
  then have r: "world_step\<^sup>*\<^sup>* ?i ?w" by simp
  have o: "is_owned_child (w_live ?w) (w_tracker ?w) 44"
    by (simp add: is_owned_child_def mark_spawned_def create_time_from_handle_def query_child_create_time_def unwrap_or_def)
  have "w_unread ?w = {}" by (simp add: world_init_def)
  with owned_child_is_ours [OF r map_le_refl o] r o show ?thesis by blast
qed

text \<open>The exception is real: the child whose time could not be read is dead, and a foreign process has its id.\<close>

lemma unread_child_replaced:
  "\<exists>w. world_step\<^sup>*\<^sup>* (world_init Map.empty 7) w \<and> is_owned_child (w_live w) (w_tracker w) 44 \<and>
     w_live w 44 = Some 10 \<and> (44, 10) \<notin> w_ours w"
proof -
  let ?i = "world_init Map.empty 7"
  let ?a = "?i\<lparr>w_live := (w_live ?i)(44 \<mapsto> 9), w_clock := 9,
     w_tracker := mark_spawned 0 44 1 ''a'' (create_time_from_handle False None) (w_tracker ?i), w_ours := insert (44, 9) (w_ours ?i),
     w_unread := (if False \<or> (None :: u64 option) = None then insert (44, 9) (w_unread ?i) else w_unread ?i)\<rparr>"
  let ?b = "?a\<lparr>w_live := (w_live ?a)(44 := None)\<rparr>"
  let ?c = "?b\<lparr>w_live := (w_live ?b)(44 \<mapsto> 10), w_clock := 10\<rparr>"
  have "world_step ?i ?a" by (rule start_child) (simp_all add: world_init_def)
  moreover have "world_step ?a ?b" by (rule world_step.exit)
  moreover have "world_step ?b ?c" by (rule start_foreign) simp_all
  ultimately have "world_step\<^sup>*\<^sup>* ?i ?c" by (meson converse_rtranclp_into_rtranclp rtranclp.rtrancl_refl)
  moreover have "is_owned_child (w_live ?c) (w_tracker ?c) 44"
    by (simp add: is_owned_child_def mark_spawned_def create_time_from_handle_def unwrap_or_def)
  ultimately show ?thesis by (intro exI [of _ ?c]) (simp add: world_init_def)
qed

text \<open>The converse: a live child of ours that was not dropped stays owned as long as no later child took its id.\<close>

lemma child_owned_when_marked:
  "pid \<noteq> 0 \<Longrightarrow> t \<noteq> 0 \<Longrightarrow> is_owned_child (live(pid \<mapsto> t)) (mark_spawned now pid self exe t m) pid"
  by (simp add: is_owned_child_def mark_spawned_def query_child_create_time_def)

text \<open>Dropping the entry, as the hook of \<^verbatim>\<open>NtTerminateProcess\<close> does, ends the ownership.\<close>

lemma untracked_not_owned: "\<not> is_owned_child os (fst (untrack pid s)) pid"
  by (simp add: is_owned_child_def untrack_def)

text \<open>An entry with an unknown time is trusted for every process that has the id.\<close>

lemma unknown_time_owned: "is_owned_child os (mark_spawned now pid self exe 0 m) pid"
  by (simp add: is_owned_child_def mark_spawned_def)

end
