(* ===== verification/MemGuard.thy ===== *)
theory MemGuard
  imports Scan ProcTracker Memo
begin

text \<open>
  The memory guard of a guest process (\<^verbatim>\<open>winrsbox-hook/src/memory/memory_guard\<close>): the hooks of \<^verbatim>\<open>NtAllocateVirtualMemory(Ex)\<close>,
  \<^verbatim>\<open>NtProtectVirtualMemory\<close>, \<^verbatim>\<open>NtMapViewOfSection\<close>, \<^verbatim>\<open>NtUnmapViewOfSection\<close> and \<^verbatim>\<open>NtWriteVirtualMemory\<close>, the guarded scan
  of memory that becomes executable, and the protection of the pages that hold the detours. Memory is what the kernel
  answers: a \<open>view\<close> per moment, since other threads write between two observations. Addresses and sizes
  (\<^verbatim>\<open>usize\<close>) are numbers below \<open>2 ^ 64\<close>, with the checked and saturating additions of the code written out.
\<close>

section \<open>Protections\<close>

definition PAGE_READWRITE :: u32 where "PAGE_READWRITE = 0x04"
definition PAGE_WRITECOPY :: u32 where "PAGE_WRITECOPY = 0x08"
definition PAGE_EXECUTE :: u32 where "PAGE_EXECUTE = 0x10"
definition PAGE_EXECUTE_READ :: u32 where "PAGE_EXECUTE_READ = 0x20"
definition PAGE_EXECUTE_READWRITE :: u32 where "PAGE_EXECUTE_READWRITE = 0x40"
definition PAGE_EXECUTE_WRITECOPY :: u32 where "PAGE_EXECUTE_WRITECOPY = 0x80"

lemmas page_bits = PAGE_READWRITE_def PAGE_WRITECOPY_def PAGE_EXECUTE_def PAGE_EXECUTE_READ_def PAGE_EXECUTE_READWRITE_def
  PAGE_EXECUTE_WRITECOPY_def

definition EXECUTE_MASK :: u32 where
  "EXECUTE_MASK = or (or (or PAGE_EXECUTE PAGE_EXECUTE_READ) PAGE_EXECUTE_READWRITE) PAGE_EXECUTE_WRITECOPY"

definition is_executable :: "u32 \<Rightarrow> bool" where
  "is_executable protect \<longleftrightarrow> and protect EXECUTE_MASK \<noteq> 0"

definition is_rwx :: "u32 \<Rightarrow> bool" where
  "is_rwx protect \<longleftrightarrow> and protect PAGE_EXECUTE_READWRITE \<noteq> 0 \<or> and protect PAGE_EXECUTE_WRITECOPY \<noteq> 0"

definition grants_write :: "u32 \<Rightarrow> bool" where
  "grants_write protect \<longleftrightarrow>
     and protect (or (or (or PAGE_READWRITE PAGE_WRITECOPY) PAGE_EXECUTE_READWRITE) PAGE_EXECUTE_WRITECOPY) \<noteq> 0"

datatype critical_range_answer = RangeAllow | RangeVerify | RangeTerminate

definition critical_range_response :: "bool \<Rightarrow> bool \<Rightarrow> critical_range_answer" where
  "critical_range_response in_critical_exec write_granted =
     (if \<not> in_critical_exec then RangeAllow else if write_granted then RangeTerminate else RangeVerify)"

section \<open>Modules\<close>

definition CRITICAL_DLLS :: "string list" where
  "CRITICAL_DLLS = [''ntdll.dll'', ''kernel32.dll'', ''kernelbase.dll'', ''hook.dll'']"

definition is_critical_dll :: "string \<Rightarrow> bool" where
  "is_critical_dll basename_lower \<longleftrightarrow> basename_lower \<in> set CRITICAL_DLLS"

definition TRUSTED_SYSTEM_SUBDIRS :: "string list" where
  "TRUSTED_SYSTEM_SUBDIRS = [''system32'', ''syswow64'', ''microsoft.net'', ''assembly'', ''winsxs'']"

definition has_path_prefix :: "string \<Rightarrow> string \<Rightarrow> bool" where
  "has_path_prefix path_lower prefix_lower \<longleftrightarrow>
     (if \<not> starts_with path_lower prefix_lower then False
      else (let rest = drop (length prefix_lower) path_lower in rest = [] \<or> starts_with rest [bslash]))"

definition nth_option :: "'a list \<Rightarrow> nat \<Rightarrow> 'a option" where
  "nth_option xs i = (if i < length xs then Some (xs ! i) else None)"

definition is_system_dll_path_anchored :: "string \<Rightarrow> bool" where
  "is_system_dll_path_anchored path =
     (let comps = split_by (\<lambda>c. c = bslash) (to_ascii_lowercase path)
      in list_ex (\<lambda>i. comps ! i = ''windows'' \<and> (i = 1 \<or> i = 3) \<and>
             (case nth_option comps (i + 1) of Some sub \<Rightarrow> sub \<in> set TRUSTED_SYSTEM_SUBDIRS | None \<Rightarrow> False))
           [0..<length comps])"

text \<open>\<^verbatim>\<open>compute_trusted_windows_root_nt\<close>: from the name of the file behind the loaded ntdll.\<close>

definition compute_trusted_windows_root_nt :: "string option \<Rightarrow> string option" where
  "compute_trusted_windows_root_nt ntdll_path =
     (case ntdll_path of None \<Rightarrow> None | Some nt_path \<Rightarrow>
      case rsplit_once bslash (to_ascii_lowercase nt_path) of None \<Rightarrow> None | Some (stem, _) \<Rightarrow>
      case rsplit_once bslash stem of None \<Rightarrow> None | Some (root, _) \<Rightarrow>
        if root = [] then None else Some root)"

definition trusted_system_prefixes :: "string option \<Rightarrow> string list option" where
  "trusted_system_prefixes ntdll_path =
     map_option (\<lambda>root. map (\<lambda>sub. root @ [bslash] @ sub) TRUSTED_SYSTEM_SUBDIRS) (compute_trusted_windows_root_nt ntdll_path)"

definition is_system_dll_path :: "string option \<Rightarrow> string \<Rightarrow> bool" where
  "is_system_dll_path ntdll_path path =
     (let lower = to_ascii_lowercase path
      in case trusted_system_prefixes ntdll_path of
           Some pre \<Rightarrow> list_ex (has_path_prefix lower) pre
         | None \<Rightarrow> is_system_dll_path_anchored lower)"

section \<open>What the kernel says about memory\<close>

definition MEM_IMAGE :: u32 where "MEM_IMAGE = 0x1000000"
definition MEM_COMMIT :: u32 where "MEM_COMMIT = 0x1000"
definition READABLE_MASK :: u32 where "READABLE_MASK = or (or (or (or (or 0x02 0x04) 0x08) 0x20) 0x40) 0x80"
definition USIZE_MAX :: nat where "USIZE_MAX = 2 ^ 64 - 1"
definition PAGE_SIZE :: nat where "PAGE_SIZE = 0x1000"

record mbi =
  mb_base :: nat
  mb_size :: nat
  mb_state :: u32
  mb_protect :: u32
  mb_type :: u32

text \<open>\<open>vw_query\<close> is \<^verbatim>\<open>VirtualQuery\<close>, \<open>vw_file_name n\<close> is \<^verbatim>\<open>GetMappedFileNameW\<close> with a buffer of \<open>n\<close> units,
  \<open>vw_in_module\<close> is \<^verbatim>\<open>is_address_in_module\<close>, \<open>vw_copy\<close> is \<^verbatim>\<open>ReadProcessMemory\<close> on the own process: nothing on failure, and
  possibly fewer bytes than asked for; \<open>vw_bytes\<close> is the memory read directly (mapped views, two code bytes).\<close>

record view =
  vw_query :: "nat \<Rightarrow> mbi option"
  vw_file_name :: "nat \<Rightarrow> nat \<Rightarrow> string option"
  vw_in_module :: "nat \<Rightarrow> bool"
  vw_copy :: "nat \<Rightarrow> nat \<Rightarrow> u8 list option"
  vw_bytes :: "nat \<Rightarrow> nat \<Rightarrow> u8 list"

definition get_mapped_file_path :: "view \<Rightarrow> nat \<Rightarrow> string option" where
  "get_mapped_file_path V addr = (if addr = 0 then None else vw_file_name V 1024 addr)"

definition get_mapped_file_basename :: "view \<Rightarrow> nat \<Rightarrow> string option" where
  "get_mapped_file_basename V addr =
     (if addr = 0 then None
      else map_option (\<lambda>path. to_ascii_lowercase (case rsplit_once bslash path of Some (_, b) \<Rightarrow> b | None \<Rightarrow> path)) (vw_file_name V 512 addr))"

definition is_image_mapping :: "view \<Rightarrow> nat \<Rightarrow> bool" where
  "is_image_mapping V addr =
     (if addr = 0 then False else (case vw_query V addr of None \<Rightarrow> False | Some b \<Rightarrow> mb_type b = MEM_IMAGE))"

definition saturating_add :: "nat \<Rightarrow> nat \<Rightarrow> nat" where
  "saturating_add a b = min (a + b) USIZE_MAX"

definition page_floor :: "nat \<Rightarrow> nat" where
  "page_floor a = a - a mod PAGE_SIZE"

section \<open>Pages that hold detours\<close>

text \<open>\<open>own_span\<close> is the image of the hook library itself, \<open>ntdll_path\<close> the file behind ntdll.\<close>

record integrity =
  ig_own_span :: "(nat \<times> nat) option"
  ig_ntdll_path :: "string option"

definition critical_block :: "integrity \<Rightarrow> view \<Rightarrow> nat \<Rightarrow> mbi \<Rightarrow> bool" where
  "critical_block G V cur b \<longleftrightarrow>
     (if and (mb_protect b) EXECUTE_MASK \<noteq> 0 \<and> mb_type b = MEM_IMAGE
      then (let own = (case ig_own_span G of Some (b0, e) \<Rightarrow> cur < e \<and> b0 < saturating_add cur (mb_size b) | None \<Rightarrow> False)
            in if own then True
               else (case get_mapped_file_basename V cur of
                       None \<Rightarrow> False
                     | Some basename \<Rightarrow>
                         if is_critical_dll basename
                         then (case get_mapped_file_path V cur of None \<Rightarrow> False | Some p \<Rightarrow> is_system_dll_path (ig_ntdll_path G) p)
                         else False))
      else False)"

text \<open>The walk examines at most 4096 blocks.\<close>

fun critical_walk :: "integrity \<Rightarrow> view \<Rightarrow> nat \<Rightarrow> nat \<Rightarrow> nat \<Rightarrow> bool" where
  "critical_walk G V n cur stop =
     (if cur < stop
      then (case n of
              0 \<Rightarrow> False
            | Suc n \<Rightarrow>
                (case vw_query V cur of
                   None \<Rightarrow> False
                 | Some b \<Rightarrow>
                     if mb_size b = 0 then False
                     else if critical_block G V cur b then True
                     else (let nxt = saturating_add (mb_base b) (mb_size b)
                           in if nxt \<le> cur then False else critical_walk G V n nxt stop)))
      else False)"

declare critical_walk.simps [simp del]

definition overlaps_critical_exec :: "integrity \<Rightarrow> view \<Rightarrow> nat \<Rightarrow> nat \<Rightarrow> bool" where
  "overlaps_critical_exec G V addr sz =
     (if addr = 0 \<or> sz = 0 then False
      else (let start = page_floor addr;
                stop = page_floor (saturating_add (saturating_add addr sz) 0xFFF)
            in critical_walk G V 4096 start stop))"

text \<open>The recorded prologues (\<^verbatim>\<open>DETOUR_WATCH\<close>).\<close>

definition detour_bytes_tampered :: "u8 list \<Rightarrow> u8 list option \<Rightarrow> bool" where
  "detour_bytes_tampered expected current = (case current of Some cur \<Rightarrow> cur \<noteq> expected | None \<Rightarrow> True)"

definition first_tampered_detour :: "(nat \<times> u8 list) list \<Rightarrow> (nat \<Rightarrow> u8 list option) \<Rightarrow> nat option" where
  "first_tampered_detour watch read =
     map_option fst (List.find (\<lambda>(addr, expected). detour_bytes_tampered expected (read addr)) watch)"

definition read_code_bytes :: "view \<Rightarrow> nat \<Rightarrow> u8 list option" where
  "read_code_bytes V addr =
     (if addr = 0 then None
      else (case vw_query V addr of
              None \<Rightarrow> None
            | Some b \<Rightarrow> if mb_state b \<noteq> MEM_COMMIT \<or> and (mb_protect b) READABLE_MASK = 0 then None else Some (vw_bytes V addr 2)))"

definition record_detour_for_watch :: "view \<Rightarrow> nat \<Rightarrow> (nat \<times> u8 list) list \<Rightarrow> (nat \<times> u8 list) list" where
  "record_detour_for_watch V addr watch =
     (if addr = 0 then watch
      else (case read_code_bytes V addr of Some b \<Rightarrow> watch @ [(addr, b)] | None \<Rightarrow> watch))"

section \<open>Scanning a region\<close>

definition page_round_scan_range :: "nat \<Rightarrow> nat \<Rightarrow> (nat \<times> nat) option" where
  "page_round_scan_range addr sz =
     (let start = page_floor addr
      in if USIZE_MAX < addr + sz then None
         else if USIZE_MAX < addr + sz + (PAGE_SIZE - 1) then None
         else (let stop = page_floor (addr + sz + (PAGE_SIZE - 1)) in Some (start, stop - start)))"

definition SCAN_CHUNK_BYTES :: nat where "SCAN_CHUNK_BYTES = 16 * 1024 * 1024"
definition SCAN_CHUNK_OVERLAP :: nat where "SCAN_CHUNK_OVERLAP = 15"
definition GUARDED_SCAN_CHUNK_BYTES :: nat where "GUARDED_SCAN_CHUNK_BYTES = 16 * 1024"

text \<open>The scan cache (\<^verbatim>\<open>core/scan_cache.rs\<close>): a bounded cache from the 128-bit hash of address, length and bytes to whether the
  bytes were clean; only clean chunks are entered. \<open>sc_hash\<close> is xxh3, \<open>sc_store\<close> the insertion of quick_cache, which
  may evict.\<close>

type_synonym scan_cache = "128 word \<rightharpoonup> bool"

record scan_env =
  sc_decoder :: decoder
  sc_hash :: "nat \<Rightarrow> nat \<Rightarrow> u8 list \<Rightarrow> 128 word"
  sc_store :: "scan_cache \<Rightarrow> 128 word \<Rightarrow> bool \<Rightarrow> scan_cache"

definition compute_key :: "scan_env \<Rightarrow> nat \<Rightarrow> nat \<Rightarrow> u8 list \<Rightarrow> 128 word" where
  "compute_key S addr key_len bytes = sc_hash S addr key_len bytes"

definition scan_chunk :: "scan_env \<Rightarrow> bool \<Rightarrow> u8 list \<Rightarrow> nat \<Rightarrow> bool" where
  "scan_chunk S strict chunk chunk_addr =
     (if strict then has_direct_syscall_strict (sc_decoder S) chunk (of_nat chunk_addr)
      else has_direct_syscall (sc_decoder S) chunk (of_nat chunk_addr))"

definition chunk_dirty :: "scan_env \<Rightarrow> bool \<Rightarrow> bool \<Rightarrow> u8 list \<Rightarrow> nat \<Rightarrow> scan_cache \<Rightarrow> bool \<times> scan_cache" where
  "chunk_dirty S use_cache strict chunk chunk_addr c =
     (if use_cache
      then (let key_len = (if strict then length chunk + 2 ^ 63 else length chunk);
                key = compute_key S chunk_addr key_len chunk
            in case c key of
                 Some clean \<Rightarrow> (\<not> clean, c)
               | None \<Rightarrow>
                   (let dirty = scan_chunk S strict chunk chunk_addr
                    in (dirty, if \<not> dirty then sc_store S c key True else c)))
      else (scan_chunk S strict chunk chunk_addr, c))"

text \<open>\<^verbatim>\<open>region_scan\<close>; the address wraps. The code asserts a chunk size above zero.\<close>

function region_scan :: "scan_env \<Rightarrow> nat \<Rightarrow> bool \<Rightarrow> nat \<Rightarrow> bool \<Rightarrow> nat \<Rightarrow> u8 list \<Rightarrow> scan_cache \<Rightarrow> bool \<times> scan_cache" where
  "region_scan S base_addr use_cache chunk_size strict off bytes c =
     (if off < length bytes \<and> 0 < chunk_size
      then (let chunk_len = min chunk_size (length bytes - off);
                extended = min (chunk_len + SCAN_CHUNK_OVERLAP) (length bytes - off);
                chunk = take extended (drop off bytes);
                (dirty, c) = chunk_dirty S use_cache strict chunk ((base_addr + off) mod 2 ^ 64) c
            in if dirty then (True, c) else region_scan S base_addr use_cache chunk_size strict (off + chunk_len) bytes c)
      else (False, c))"
  by pat_completeness auto
termination
  by (relation "measure (\<lambda>(S, a, u, k, s, off, bytes, c). length bytes - off)") auto

declare region_scan.simps [simp del]

definition region_has_direct_syscalls :: "scan_env \<Rightarrow> u8 list \<Rightarrow> nat \<Rightarrow> bool \<Rightarrow> scan_cache \<Rightarrow> bool \<times> scan_cache" where
  "region_has_direct_syscalls S bytes base_addr use_cache c = region_scan S base_addr use_cache SCAN_CHUNK_BYTES False 0 bytes c"

definition region_has_direct_syscalls_strict :: "scan_env \<Rightarrow> u8 list \<Rightarrow> nat \<Rightarrow> bool \<Rightarrow> scan_cache \<Rightarrow> bool \<times> scan_cache" where
  "region_has_direct_syscalls_strict S bytes base_addr use_cache c = region_scan S base_addr use_cache SCAN_CHUNK_BYTES True 0 bytes c"

datatype guarded_verdict = Clean | SyscallsFound | Unreadable

datatype protect_answer = Proceed | Deny | Kill

definition protect_scan_response :: "guarded_verdict \<Rightarrow> protect_answer" where
  "protect_scan_response v = (case v of Clean \<Rightarrow> Proceed | SyscallsFound \<Rightarrow> Kill | Unreadable \<Rightarrow> Deny)"

definition guarded_region_copy :: "view \<Rightarrow> nat \<Rightarrow> nat \<Rightarrow> u8 list option" where
  "guarded_region_copy V src n =
     (if src = 0 \<or> n = 0 then None
      else (case vw_copy V src n of None \<Rightarrow> None | Some bs \<Rightarrow> if length bs = n then Some bs else None))"

text \<open>The state of a scan: the cache and the moment; every copy sees the memory of its own moment, \<open>mem t\<close>.\<close>

function guarded_scan :: "scan_env \<Rightarrow> (nat \<Rightarrow> view) \<Rightarrow> bool \<Rightarrow> nat \<Rightarrow> nat \<Rightarrow> nat \<Rightarrow> scan_cache \<times> nat \<Rightarrow> guarded_verdict \<times> (scan_cache \<times> nat)" where
  "guarded_scan S mem use_cache addr sz off (c, t) =
     (if off < sz
      then (let n = min (sz - off) GUARDED_SCAN_CHUNK_BYTES;
                ext = min (n + SCAN_CHUNK_OVERLAP) (sz - off)
            in case guarded_region_copy (mem t) (addr + off) ext of
                 None \<Rightarrow> (Unreadable, (c, t + 1))
               | Some buf \<Rightarrow>
                   (let (dirty, c) = region_has_direct_syscalls_strict S buf (addr + off) use_cache c
                    in if dirty then (SyscallsFound, (c, t + 1)) else guarded_scan S mem use_cache addr sz (off + n) (c, t + 1)))
      else (Clean, (c, t)))"
  by pat_completeness auto
termination
  by (relation "measure (\<lambda>(S, m, u, a, sz, off, c). sz - off)") (auto simp: GUARDED_SCAN_CHUNK_BYTES_def)

declare guarded_scan.simps [simp del]

definition guarded_scan_region :: "scan_env \<Rightarrow> (nat \<Rightarrow> view) \<Rightarrow> bool \<Rightarrow> nat \<Rightarrow> nat \<Rightarrow> scan_cache \<times> nat \<Rightarrow> guarded_verdict \<times> (scan_cache \<times> nat)" where
  "guarded_scan_region S mem use_cache addr sz s = guarded_scan S mem use_cache addr sz 0 s"

definition guarded_scan_region_twice :: "scan_env \<Rightarrow> (nat \<Rightarrow> view) \<Rightarrow> bool \<Rightarrow> nat \<Rightarrow> nat \<Rightarrow> scan_cache \<times> nat \<Rightarrow> guarded_verdict \<times> (scan_cache \<times> nat)" where
  "guarded_scan_region_twice S mem use_cache addr sz s =
     (let (first, s) = guarded_scan_region S mem use_cache addr sz s
      in if first \<noteq> Clean then (first, s) else guarded_scan_region S mem use_cache addr sz s)"

definition scan_protect_request :: "scan_env \<Rightarrow> (nat \<Rightarrow> view) \<Rightarrow> nat \<Rightarrow> nat \<Rightarrow> scan_cache \<times> nat \<Rightarrow> protect_answer \<times> (scan_cache \<times> nat)" where
  "scan_protect_request S mem addr sz s =
     (case page_round_scan_range addr sz of
        None \<Rightarrow> (Deny, s)
      | Some (page_addr, page_size) \<Rightarrow>
          (let (v, s) = guarded_scan_region_twice S mem True page_addr page_size s;
               pages = protect_scan_response v
           in if pages \<noteq> Proceed \<or> (page_addr, page_size) = (addr, sz) then (pages, s)
              else (let (v, s) = guarded_scan_region_twice S mem True addr sz s in (protect_scan_response v, s))))"

section \<open>The hooks\<close>

datatype handle = CurrentProcess | NullHandle | Handle nat

datatype guard_alloc_kind = KAllocate | KProtect | KMapView | KWrite

text \<open>What a hook does with one call: the original was called and gave this status, the call was refused, or the process
  was reported and ended with the kind, the protection, the size and the address of the report.\<close>

datatype guard_verdict = Original int | AccessDenied | Terminated guard_alloc_kind u32 nat nat

record guard_env =
  g_scan :: scan_env
  g_integrity :: integrity
  g_mem :: "nat \<Rightarrow> view"
  g_self_pid :: u32
  g_process_id :: "handle \<Rightarrow> u32"
  g_live :: "u32 \<rightharpoonup> u64"
  g_mode :: "string option"
  g_allow_rwx :: bool
  g_query_section :: "(handle \<Rightarrow> int) option"
  g_publisher_trusted :: "nat \<Rightarrow> bool"

record guard_state =
  gs_time :: nat
  gs_cache :: scan_cache
  gs_watch :: "(nat \<times> u8 list) list"
  gs_teardown :: bool
  gs_tracker :: tracker
  gs_in_hook :: bool
  gs_alloc_slot :: "bool option"

definition is_full_mode :: "guard_env \<Rightarrow> bool" where
  "is_full_mode E = (case g_mode E of Some s \<Rightarrow> s = ''full'' | None \<Rightarrow> True)"

definition is_static_mode :: "guard_env \<Rightarrow> bool" where
  "is_static_mode E = (case g_mode E of Some s \<Rightarrow> s = ''static'' | None \<Rightarrow> False)"

definition is_current_process :: "guard_env \<Rightarrow> handle \<Rightarrow> bool" where
  "is_current_process E h =
     (if h = CurrentProcess then True
      else if h = NullHandle then False
      else (let pid = g_process_id E h in pid \<noteq> 0 \<and> pid = g_self_pid E))"

definition owned_child :: "guard_env \<Rightarrow> guard_state \<Rightarrow> u32 \<Rightarrow> bool" where
  "owned_child E s pid = is_owned_child (g_live E) (gs_tracker s) pid"

definition unmap_foreign_denied :: "u32 \<Rightarrow> u32 \<Rightarrow> bool" where
  "unmap_foreign_denied target_pid self_pid \<longleftrightarrow> target_pid \<noteq> self_pid"

definition map_foreign_denied :: "u32 \<Rightarrow> u32 \<Rightarrow> bool" where
  "map_foreign_denied target_pid self_pid \<longleftrightarrow> target_pid \<noteq> self_pid"

definition protect_foreign_exec_kill :: "bool \<Rightarrow> u32 \<Rightarrow> bool" where
  "protect_foreign_exec_kill owned new_protect \<longleftrightarrow> \<not> owned \<and> is_executable new_protect"

datatype foreign_write = WriteAllow | WriteDeny

definition foreign_write_decision :: "u32 \<Rightarrow> u32 \<Rightarrow> bool \<Rightarrow> foreign_write" where
  "foreign_write_decision target_pid self_pid owned =
     (if target_pid = 0 then WriteDeny else if target_pid = self_pid \<or> owned then WriteAllow else WriteDeny)"

text \<open>\<open>status\<close> is the status that the original call gives; \<^verbatim>\<open>None\<close> for a pointer is null.\<close>

definition hook_nt_unmap_view_of_section :: "guard_env \<Rightarrow> handle \<Rightarrow> int \<Rightarrow> guard_state \<Rightarrow> guard_verdict \<times> guard_state" where
  "hook_nt_unmap_view_of_section E h status s =
     (if gs_in_hook s then (Original status, s)
      else if h = CurrentProcess then (Original status, s)
      else if unmap_foreign_denied (g_process_id E h) (g_self_pid E) then (AccessDenied, s)
      else (Original status, s))"

definition alloc_decision_kill_required :: "guard_env \<Rightarrow> handle \<Rightarrow> u32 \<Rightarrow> bool \<Rightarrow> guard_state \<Rightarrow> bool" where
  "alloc_decision_kill_required E h protect in_trusted_window s =
     (if is_current_process E h
      then is_rwx protect \<and> \<not> g_allow_rwx E \<and> is_static_mode E \<and> \<not> in_trusted_window
      else \<not> owned_child E s (g_process_id E h) \<and> is_executable protect)"

definition alloc_kill_gate :: "guard_env \<Rightarrow> handle \<Rightarrow> u32 \<Rightarrow> guard_state \<Rightarrow> bool" where
  "alloc_kill_gate E h protect s = alloc_decision_kill_required E h protect (gs_in_hook s) s"

text \<open>\<^verbatim>\<open>alloc_anti_rec_enter\<close> and \<^verbatim>\<open>_leave\<close> over the slot of the thread, absent before it is allocated.\<close>

definition alloc_anti_rec_enter :: "guard_state \<Rightarrow> bool \<times> guard_state" where
  "alloc_anti_rec_enter s =
     (case gs_alloc_slot s of
        None \<Rightarrow> (False, s)
      | Some busy \<Rightarrow> if busy then (False, s) else (True, s\<lparr>gs_alloc_slot := Some True\<rparr>))"

definition alloc_anti_rec_leave :: "guard_state \<Rightarrow> guard_state" where
  "alloc_anti_rec_leave s = (if gs_alloc_slot s \<noteq> None then s\<lparr>gs_alloc_slot := Some False\<rparr> else s)"

definition hook_nt_allocate_virtual_memory ::
  "guard_env \<Rightarrow> handle \<Rightarrow> nat option \<Rightarrow> nat option \<Rightarrow> u32 \<Rightarrow> int \<Rightarrow> guard_state \<Rightarrow> guard_verdict \<times> guard_state" where
  "hook_nt_allocate_virtual_memory E h base region_size protect status s =
     (let (entered, s) = alloc_anti_rec_enter s
      in if \<not> entered then (Original status, s)
         else if alloc_kill_gate E h protect s
         then (Terminated KAllocate protect (unwrap_or region_size 0) (unwrap_or base 0), s)
         else (Original status, alloc_anti_rec_leave s))"

text \<open>\<^verbatim>\<open>NtAllocateVirtualMemoryEx\<close> has the same body over the same gate; the extended parameters are passed through.\<close>

definition hook_nt_allocate_virtual_memory_ex ::
  "guard_env \<Rightarrow> handle \<Rightarrow> nat option \<Rightarrow> nat option \<Rightarrow> u32 \<Rightarrow> int \<Rightarrow> guard_state \<Rightarrow> guard_verdict \<times> guard_state" where
  "hook_nt_allocate_virtual_memory_ex E h base region_size protect status s =
     (let (entered, s) = alloc_anti_rec_enter s
      in if \<not> entered then (Original status, s)
         else if alloc_kill_gate E h protect s
         then (Terminated KAllocate protect (unwrap_or region_size 0) (unwrap_or base 0), s)
         else (Original status, alloc_anti_rec_leave s))"

text \<open>\<^verbatim>\<open>verify_detours_or_die\<close>: the first recorded prologue that changed ends the process.\<close>

definition verify_detours_or_die :: "guard_env \<Rightarrow> guard_alloc_kind \<Rightarrow> u32 \<Rightarrow> nat \<Rightarrow> guard_state \<Rightarrow> guard_verdict option" where
  "verify_detours_or_die E kind protect region_size s =
     (if gs_teardown s then None
      else map_option (\<lambda>addr. Terminated kind protect region_size addr)
             (first_tampered_detour (gs_watch s) (read_code_bytes (g_mem E (gs_time s)))))"

text \<open>The content scan of a protect request on the own process.\<close>

definition protect_scan_phase :: "guard_env \<Rightarrow> nat option \<Rightarrow> nat option \<Rightarrow> u32 \<Rightarrow> guard_state \<Rightarrow> protect_answer \<times> guard_state" where
  "protect_scan_phase E base region_size new_protect s =
     (case base of
        None \<Rightarrow> (Proceed, s)
      | Some addr \<Rightarrow>
          if \<not> is_executable new_protect then (Proceed, s)
          else if addr = 0 \<or> vw_in_module (g_mem E (gs_time s)) addr then (Proceed, s)
          else (let sz = unwrap_or region_size 0
                in if 0 < sz
                   then (let (r, (c, t)) = scan_protect_request (g_scan E) (g_mem E) addr sz (gs_cache s, gs_time s)
                         in (r, s\<lparr>gs_cache := c, gs_time := t\<rparr>))
                   else (Proceed, s)))"

text \<open>The integrity check before the original, and the check of the prologues after it.\<close>

definition protect_range_answer :: "guard_env \<Rightarrow> nat option \<Rightarrow> nat \<Rightarrow> u32 \<Rightarrow> guard_state \<Rightarrow> critical_range_answer" where
  "protect_range_answer E base sz new_protect s =
     (case base of
        None \<Rightarrow> RangeAllow
      | Some addr \<Rightarrow>
          if addr = 0 then RangeAllow
          else if \<not> gs_teardown s \<and> overlaps_critical_exec (g_integrity E) (g_mem E (gs_time s)) addr sz
          then critical_range_response True (grants_write new_protect)
          else RangeAllow)"

definition hook_nt_protect_virtual_memory ::
  "guard_env \<Rightarrow> handle \<Rightarrow> nat option \<Rightarrow> nat option \<Rightarrow> u32 \<Rightarrow> int \<Rightarrow> guard_state \<Rightarrow> guard_verdict \<times> guard_state" where
  "hook_nt_protect_virtual_memory E h base region_size new_protect status s =
     (if gs_in_hook s then (Original status, s)
      else if \<not> is_current_process E h
      then (if protect_foreign_exec_kill (owned_child E s (g_process_id E h)) new_protect
            then (case base of
                    Some addr \<Rightarrow>
                      if is_executable new_protect then (Terminated KProtect new_protect (unwrap_or region_size 0) addr, s)
                      else (Original status, s)
                  | None \<Rightarrow> (Original status, s))
            else (Original status, s))
      else (let (r, s) = protect_scan_phase E base region_size new_protect s; sz = unwrap_or region_size 0
            in case r of
                 Kill \<Rightarrow> (Terminated KProtect new_protect sz (unwrap_or base 0), s)
               | Deny \<Rightarrow> (AccessDenied, s)
               | Proceed \<Rightarrow>
                   (case protect_range_answer E base sz new_protect s of
                      RangeTerminate \<Rightarrow> (Terminated KProtect new_protect sz (unwrap_or base 0), s)
                    | RangeAllow \<Rightarrow> (Original status, s\<lparr>gs_time := gs_time s + 1\<rparr>)
                    | RangeVerify \<Rightarrow>
                        (let s = s\<lparr>gs_time := gs_time s + 1\<rparr>
                         in case verify_detours_or_die E KProtect new_protect sz s of
                              Some v \<Rightarrow> (v, s)
                            | None \<Rightarrow> (Original status, s)))))"

definition hook_nt_write_virtual_memory :: "guard_env \<Rightarrow> handle \<Rightarrow> nat \<Rightarrow> nat \<Rightarrow> int \<Rightarrow> guard_state \<Rightarrow> guard_verdict \<times> guard_state" where
  "hook_nt_write_virtual_memory E h base bytes_to_write status s =
     (if gs_in_hook s then (Original status, s)
      else if is_current_process E h
      then (if base \<noteq> 0 \<and> 0 < bytes_to_write \<and> \<not> gs_teardown s \<and>
               overlaps_critical_exec (g_integrity E) (g_mem E (gs_time s)) base bytes_to_write
            then (Terminated KWrite 0 bytes_to_write base, s)
            else (Original status, s))
      else (let target_pid = g_process_id E h
            in case foreign_write_decision target_pid (g_self_pid E) (owned_child E s target_pid) of
                 WriteAllow \<Rightarrow> (Original status, s)
               | WriteDeny \<Rightarrow> (Terminated KWrite 0 bytes_to_write base, s)))"

section \<open>Mapped views\<close>

definition decide_mapview_protection :: "bool \<Rightarrow> bool \<Rightarrow> u32 \<Rightarrow> bool" where
  "decide_mapview_protection is_image is_file_backed effective_protect =
     (if is_image then True else if \<not> is_executable effective_protect then True else is_file_backed)"

definition is_section_image_backed :: "guard_env \<Rightarrow> handle \<Rightarrow> bool" where
  "is_section_image_backed E sec =
     (if sec = NullHandle then False
      else (case g_query_section E of None \<Rightarrow> False | Some query \<Rightarrow> 0 \<le> query sec))"

text \<open>What the original call leaves: its status, the base and the size behind the two pointers (nothing for a null pointer).\<close>

record mapped_view =
  mp_status :: int
  mp_base :: "nat option"
  mp_size :: "nat option"

text \<open>The loop over the executable sections of the headers; \<^verbatim>\<open>Some v\<close> leaves the hook.\<close>

fun scan_sections :: "guard_env \<Rightarrow> view \<Rightarrow> u32 \<Rightarrow> mapped_view \<Rightarrow> nat \<Rightarrow> nat \<Rightarrow> pe_section list \<Rightarrow> guard_verdict option" where
  "scan_sections E V protect r base view_bytes [] = None"
| "scan_sections E V protect r base view_bytes (sec # secs) =
     (let va = ps_virtual_address sec
      in if view_bytes \<le> va then scan_sections E V protect r base view_bytes secs
         else (let scan_size = min (ps_virtual_size sec) (view_bytes - va)
               in if scan_size = 0 then scan_sections E V protect r base view_bytes secs
                  else if fst (region_has_direct_syscalls (g_scan E) (vw_bytes V (base + va) scan_size) (base + va) False Map.empty)
                  then (if g_publisher_trusted E base then Some (Original (mp_status r))
                        else Some (Terminated KMapView protect (unwrap_or (mp_size r) 0) base))
                  else scan_sections E V protect r base view_bytes secs))"

definition map_image_checks :: "guard_env \<Rightarrow> view \<Rightarrow> u32 \<Rightarrow> mapped_view \<Rightarrow> nat \<Rightarrow> guard_verdict" where
  "map_image_checks E V protect r base =
     (case get_mapped_file_basename V base of
        None \<Rightarrow> Original (mp_status r)
      | Some basename \<Rightarrow>
          if is_critical_dll basename then Terminated KMapView protect (unwrap_or (mp_size r) 0) base
          else if \<not> (is_full_mode E \<or> is_static_mode E) then Original (mp_status r)
          else (case get_mapped_file_path V base of
                  None \<Rightarrow> Original (mp_status r)
                | Some full_path \<Rightarrow>
                    if is_system_dll_path (ig_ntdll_path (g_integrity E)) full_path then Original (mp_status r)
                    else (let view_bytes = unwrap_or (mp_size r) 0; header_len = min view_bytes 4096
                          in if header_len < 64 then Original (mp_status r)
                             else (case scan_sections E V protect r base view_bytes
                                          (pe_executable_sections (vw_bytes V base header_len)) of
                                     Some v \<Rightarrow> v
                                   | None \<Rightarrow> Original (mp_status r)))))"

definition map_plain_checks :: "guard_env \<Rightarrow> view \<Rightarrow> u32 \<Rightarrow> mapped_view \<Rightarrow> nat \<Rightarrow> guard_verdict" where
  "map_plain_checks E V protect r base =
     (let mbi_protect = (case vw_query V base of Some b \<Rightarrow> mb_protect b | None \<Rightarrow> 0);
          effective = or protect mbi_protect
      in if \<not> is_executable effective then Original (mp_status r)
         else (let is_file_backed = (get_mapped_file_path V base \<noteq> None)
               in if \<not> is_file_backed then Terminated KMapView mbi_protect (unwrap_or (mp_size r) 0) base
                  else if is_full_mode E \<or> is_static_mode E
                  then (let view_bytes = unwrap_or (mp_size r) 0
                        in if 0 < view_bytes \<and>
                              fst (region_has_direct_syscalls (g_scan E) (vw_bytes V base view_bytes) base False Map.empty)
                           then Terminated KMapView mbi_protect view_bytes base
                           else Original (mp_status r))
                  else Original (mp_status r)))"

definition hook_nt_map_view_of_section ::
  "guard_env \<Rightarrow> handle \<Rightarrow> handle \<Rightarrow> u32 \<Rightarrow> mapped_view \<Rightarrow> guard_state \<Rightarrow> guard_verdict \<times> guard_state" where
  "hook_nt_map_view_of_section E sec h win32_protect r s =
     (if \<not> is_current_process E h
      then (if map_foreign_denied (g_process_id E h) (g_self_pid E) then (AccessDenied, s) else (Original (mp_status r), s))
      else if gs_in_hook s then (Original (mp_status r), s)
      else (let section_is_image = is_section_image_backed E sec; s = s\<lparr>gs_time := gs_time s + 1\<rparr>; V = g_mem E (gs_time s)
            in if mp_status r < 0 then (Original (mp_status r), s)
               else (case mp_base r of
                       None \<Rightarrow> (Original (mp_status r), s)
                     | Some mapped_base \<Rightarrow>
                         if mapped_base = 0 then (Original (mp_status r), s)
                         else if is_image_mapping V mapped_base \<or> section_is_image
                         then (map_image_checks E V win32_protect r mapped_base, s)
                         else (map_plain_checks E V win32_protect r mapped_base, s))))"

section \<open>Bits, paths and ranges\<close>

lemma and_or_nonzero: "and p (or a b) \<noteq> 0 \<longleftrightarrow> and p a \<noteq> 0 \<or> and p b \<noteq> 0"
  for p :: "'a::len word"
  by (simp add: bit.conj_disj_distrib or_eq_0_iff)

lemma is_executable_iff:
  "is_executable p \<longleftrightarrow> and p PAGE_EXECUTE \<noteq> 0 \<or> and p PAGE_EXECUTE_READ \<noteq> 0 \<or>
     and p PAGE_EXECUTE_READWRITE \<noteq> 0 \<or> and p PAGE_EXECUTE_WRITECOPY \<noteq> 0"
  by (simp only: is_executable_def EXECUTE_MASK_def and_or_nonzero disj_assoc)

text \<open>A direct writable and executable protection is executable and grants writing.\<close>

lemma rwx_executable: "is_rwx p \<Longrightarrow> is_executable p"
  unfolding is_rwx_def is_executable_iff by blast

lemma rwx_grants_write: "is_rwx p \<Longrightarrow> grants_write p"
  unfolding is_rwx_def grants_write_def and_or_nonzero by blast

text \<open>The prefix test is containment of path components.\<close>

lemma has_path_prefix_components:
  "has_path_prefix p q \<longleftrightarrow> prefix (split_by (\<lambda>c. c = bslash) q) (split_by (\<lambda>c. c = bslash) p)"
proof
  assume h: "has_path_prefix p q"
  then obtain rest where p: "p = q @ rest" by (auto simp: has_path_prefix_def starts_with_iff split: if_splits)
  with h have "rest = [] \<or> starts_with rest [bslash]"
    by (auto simp: has_path_prefix_def Let_def split: if_splits)
  then consider "rest = []" | t where "rest = bslash # t" by (auto simp: starts_with_iff)
  then show "prefix (split_by (\<lambda>c. c = bslash) q) (split_by (\<lambda>c. c = bslash) p)"
    using p by cases (simp_all add: split_by_append_sep)
next
  assume "prefix (split_by (\<lambda>c. c = bslash) q) (split_by (\<lambda>c. c = bslash) p)"
  then obtain zs where zs: "split_by (\<lambda>c. c = bslash) p = split_by (\<lambda>c. c = bslash) q @ zs" by (auto simp: prefix_def)
  show "has_path_prefix p q"
  proof (cases zs)
    case Nil
    with zs have "p = q" by (simp add: split_by_inj [of bslash p q])
    then show ?thesis by (simp add: has_path_prefix_def starts_with_def)
  next
    case (Cons z zs')
    have "p = join_with bslash (split_by (\<lambda>c. c = bslash) q @ zs)" using zs by (metis join_split)
    with Cons have "p = q @ bslash # join_with bslash zs" by (simp add: join_with_append)
    then show ?thesis by (simp add: has_path_prefix_def starts_with_def)
  qed
qed

text \<open>A mapped file counts as a system file exactly when its components begin with those of the directory of ntdll's
  directory, followed by one of the trusted names.\<close>

lemma system_dll_components:
  assumes "compute_trusted_windows_root_nt ntdll = Some root"
  shows "is_system_dll_path ntdll path \<longleftrightarrow>
     (\<exists>sub \<in> set TRUSTED_SYSTEM_SUBDIRS.
        prefix (split_by (\<lambda>c. c = bslash) root @ [sub]) (split_by (\<lambda>c. c = bslash) (to_ascii_lowercase path)))"
proof -
  have "split_by (\<lambda>c. c = bslash) (root @ [bslash] @ sub) = split_by (\<lambda>c. c = bslash) root @ [sub]"
    if "sub \<in> set TRUSTED_SYSTEM_SUBDIRS" for sub
  proof -
    have "\<forall>x \<in> set sub. x \<noteq> bslash" using that by (auto simp: TRUSTED_SYSTEM_SUBDIRS_def)
    then have "split_by (\<lambda>c. c = bslash) sub = [sub]" by (intro split_by_no_sep) auto
    then show ?thesis by (simp add: split_by_append_sep)
  qed
  then show ?thesis
    using assms by (auto simp: is_system_dll_path_def trusted_system_prefixes_def list_ex_iff has_path_prefix_components Let_def)
qed

text \<open>A planted copy of the directories below another one is not trusted.\<close>

lemma planted_system_directory_untrusted:
  "\<not> is_system_dll_path (Some (win ''|Device|HarddiskVolume3|Windows|System32|ntdll.dll''))
       (win ''|Device|HarddiskVolume3|tmp|Windows|System32|evil.dll'')"
  by code_simp

lemma page_floor_bounds: "page_floor a \<le> a" "a < page_floor a + PAGE_SIZE" "page_floor a mod PAGE_SIZE = 0"
proof -
  have p: "0 < PAGE_SIZE" by (simp add: PAGE_SIZE_def)
  show "page_floor a \<le> a" by (simp add: page_floor_def)
  show "a < page_floor a + PAGE_SIZE" using mod_less_divisor [OF p, of a] mod_le_divisor unfolding page_floor_def by linarith
  show "page_floor a mod PAGE_SIZE = 0" unfolding page_floor_def by (metis minus_mod_eq_mult_div mod_mult_self1_is_0)
qed

lemma page_round_scan_range_bounds:
  "(case page_round_scan_range addr sz of
      None \<Rightarrow> USIZE_MAX < addr + sz + (PAGE_SIZE - 1)
    | Some (start, len) \<Rightarrow>
        start mod PAGE_SIZE = 0 \<and> len mod PAGE_SIZE = 0 \<and> start \<le> addr \<and> addr + sz \<le> start + len \<and>
        addr < start + PAGE_SIZE \<and> start + len < addr + sz + PAGE_SIZE \<and> start + len \<le> USIZE_MAX)"
proof (cases "USIZE_MAX < addr + sz + (PAGE_SIZE - 1)")
  case True
  then have "page_round_scan_range addr sz = None" by (simp add: page_round_scan_range_def Let_def PAGE_SIZE_def)
  with True show ?thesis by simp
next
  case False
  let ?e = "page_floor (addr + sz + (PAGE_SIZE - 1))"
  note b = page_floor_bounds [of addr] and e = page_floor_bounds [of "addr + sz + (PAGE_SIZE - 1)"]
  have p: "0 < PAGE_SIZE" by (simp add: PAGE_SIZE_def)
  have ge: "addr + sz \<le> ?e" using e(2) p by linarith
  have le: "page_floor addr \<le> ?e" using b(1) ge by linarith
  have m: "(?e - page_floor addr) mod PAGE_SIZE = 0"
    using b(3) e(3) by (metis dvd_diff_nat dvd_eq_mod_eq_0)
  have r: "page_round_scan_range addr sz = Some (page_floor addr, ?e - page_floor addr)"
    using False p by (simp add: page_round_scan_range_def Let_def)
  have ub: "?e < addr + sz + PAGE_SIZE" "?e \<le> USIZE_MAX" using e(1) p False by linarith+
  have s: "page_floor addr + (?e - page_floor addr) = ?e" using le by simp
  show ?thesis unfolding r option.case prod.case s using b ge m ub e(3) by blast
qed

text \<open>The scanned range of a protect request is the smallest range of whole pages that covers the request; it is missing
  exactly when the end of the request, rounded up, does not fit into an address.\<close>

theorem page_round_scan_range_exact:
  "(case page_round_scan_range addr sz of
      None \<Rightarrow> USIZE_MAX < addr + sz + (PAGE_SIZE - 1)
    | Some (start, len) \<Rightarrow>
        start mod PAGE_SIZE = 0 \<and> len mod PAGE_SIZE = 0 \<and> start \<le> addr \<and> addr + sz \<le> start + len \<and>
        addr < start + PAGE_SIZE \<and> start + len < addr + sz + PAGE_SIZE \<and> start + len \<le> USIZE_MAX)"
  by (rule page_round_scan_range_bounds)

section \<open>Chunked scans\<close>

text \<open>The chunks a region scan decodes, with their addresses.\<close>

function region_chunks :: "nat \<Rightarrow> nat \<Rightarrow> nat \<Rightarrow> u8 list \<Rightarrow> (nat \<times> u8 list) list" where
  "region_chunks base_addr chunk_size off bytes =
     (if off < length bytes \<and> 0 < chunk_size
      then (let chunk_len = min chunk_size (length bytes - off);
                extended = min (chunk_len + SCAN_CHUNK_OVERLAP) (length bytes - off)
            in ((base_addr + off) mod 2 ^ 64, take extended (drop off bytes)) # region_chunks base_addr chunk_size (off + chunk_len) bytes)
      else [])"
  by pat_completeness auto
termination
  by (relation "measure (\<lambda>(a, k, off, bytes). length bytes - off)") auto

declare region_chunks.simps [simp del]

definition chunk_at :: "nat \<Rightarrow> nat \<Rightarrow> u8 list \<Rightarrow> u8 list" where
  "chunk_at k off bytes = take (min (min k (length bytes - off) + SCAN_CHUNK_OVERLAP) (length bytes - off)) (drop off bytes)"

lemma region_chunks_step:
  "off < length bytes \<Longrightarrow> 0 < k \<Longrightarrow>
     region_chunks a k off bytes = ((a + off) mod 2 ^ 64, chunk_at k off bytes) # region_chunks a k (off + min k (length bytes - off)) bytes"
  by (subst region_chunks.simps) (simp add: Let_def chunk_at_def)

lemma region_chunks_stop: "\<not> (off < length bytes \<and> 0 < k) \<Longrightarrow> region_chunks a k off bytes = []"
  by (subst region_chunks.simps) simp

lemma region_chunks_small: "bytes \<noteq> [] \<Longrightarrow> length bytes \<le> k \<Longrightarrow> a < 2 ^ 64 \<Longrightarrow> region_chunks a k 0 bytes = [(a, bytes)]"
proof -
  assume b: "bytes \<noteq> []" "length bytes \<le> k" "a < 2 ^ 64"
  then have l: "0 < length bytes" "0 < k" by (simp, cases bytes, auto)
  from b(2) have "chunk_at k 0 bytes = bytes" "min k (length bytes - 0) = length bytes" by (simp_all add: chunk_at_def)
  with region_chunks_step [OF l, of a] b(3) show ?thesis by (simp add: region_chunks_stop)
qed

lemma region_scan_step:
  "off < length bytes \<Longrightarrow> 0 < k \<Longrightarrow> chunk_dirty S u strict (chunk_at k off bytes) ((a + off) mod 2 ^ 64) c = (dirty, c') \<Longrightarrow>
     region_scan S a u k strict off bytes c =
       (if dirty then (True, c') else region_scan S a u k strict (off + min k (length bytes - off)) bytes c')"
  by (subst region_scan.simps) (simp add: Let_def chunk_at_def)

lemma region_scan_stop: "\<not> (off < length bytes \<and> 0 < k) \<Longrightarrow> region_scan S a u k strict off bytes c = (False, c)"
  by (subst region_scan.simps) (rule if_not_P)

lemma region_scan_uncached:
  "region_scan S a False k strict off bytes c = (list_ex (\<lambda>(x, chunk). scan_chunk S strict chunk x) (region_chunks a k off bytes), c)"
proof (induction "length bytes - off" arbitrary: off rule: less_induct)
  case less
  show ?case
  proof (cases "off < length bytes \<and> 0 < k")
    case True
    then have "length bytes - (off + min k (length bytes - off)) < length bytes - off" by auto
    note IH = less [OF this]
    have "chunk_dirty S False strict (chunk_at k off bytes) ((a + off) mod 2 ^ 64) c =
        (scan_chunk S strict (chunk_at k off bytes) ((a + off) mod 2 ^ 64), c)"
      by (simp add: chunk_dirty_def)
    from region_scan_step [OF _ _ this] True IH show ?thesis by (simp add: region_chunks_step)
  qed (simp add: region_scan_stop region_chunks_stop)
qed

text \<open>The inputs of the memo behind the scan cache: strictness, address, bytes.\<close>

definition chunk_key :: "scan_env \<Rightarrow> bool \<times> nat \<times> u8 list \<Rightarrow> 128 word" where
  "chunk_key S a = (case a of (strict, addr, chunk) \<Rightarrow>
     compute_key S addr (if strict then length chunk + 2 ^ 63 else length chunk) chunk)"

definition chunk_clean :: "scan_env \<Rightarrow> bool \<times> nat \<times> u8 list \<Rightarrow> bool" where
  "chunk_clean S a = (case a of (strict, addr, chunk) \<Rightarrow> \<not> scan_chunk S strict chunk addr)"

text \<open>A bounded cache holds at most what was inserted.\<close>

definition scan_store_lawful :: "scan_env \<Rightarrow> bool" where
  "scan_store_lawful S \<longleftrightarrow> (\<forall>c k d. sc_store S c k d \<subseteq>\<^sub>m c(k \<mapsto> d))"

definition lawful_scan_store :: "scan_env \<Rightarrow> scan_cache \<Rightarrow> 128 word \<Rightarrow> bool \<Rightarrow> scan_cache" where
  "lawful_scan_store S = (if scan_store_lawful S then sc_store S else (\<lambda>c k d. c(k \<mapsto> d)))"

interpretation scans: memo "chunk_key S" "chunk_clean S" "lawful_scan_store S"
  for S
  by unfold_locales (simp add: lawful_scan_store_def scan_store_lawful_def)

definition scan_cache_coherent :: "scan_env \<Rightarrow> (bool \<times> nat \<times> u8 list) set \<Rightarrow> scan_cache \<Rightarrow> bool" where
  "scan_cache_coherent S A c \<longleftrightarrow> memo.coherent_on (chunk_key S) (chunk_clean S) A c"

lemma scan_cache_empty: "scan_cache_coherent S A Map.empty"
  by (simp add: scan_cache_coherent_def scans.coherent_on_empty)

text \<open>One chunk through the cache: the verdict is that of the scan, and the cache stays coherent.\<close>

lemma chunk_dirty_correct:
  assumes l: "scan_store_lawful S" and c: "scan_cache_coherent S A c" and i: "inj_on (chunk_key S) A" and a: "(strict, addr, chunk) \<in> A"
  shows "fst (chunk_dirty S u strict chunk addr c) = scan_chunk S strict chunk addr"
    and "scan_cache_coherent S A (snd (chunk_dirty S u strict chunk addr c))"
proof -
  let ?k = "compute_key S addr (if strict then length chunk + 2 ^ 63 else length chunk) chunk"
  have k: "?k = chunk_key S (strict, addr, chunk)" by (simp add: chunk_key_def)
  have cl: "chunk_clean S (strict, addr, chunk) = (\<not> scan_chunk S strict chunk addr)" by (simp add: chunk_clean_def)
  have hit: "clean = (\<not> scan_chunk S strict chunk addr)" if "c ?k = Some clean" for clean
    using scans.hit_on [OF c [unfolded scan_cache_coherent_def] i a] that unfolding k cl by blast
  have st: "scan_cache_coherent S A (sc_store S c ?k True)" if "\<not> scan_chunk S strict chunk addr"
    using scans.coherent_on_store [OF c [unfolded scan_cache_coherent_def] a] that l
    unfolding k cl scan_cache_coherent_def lawful_scan_store_def by simp
  show "fst (chunk_dirty S u strict chunk addr c) = scan_chunk S strict chunk addr"
    using hit by (auto simp: chunk_dirty_def Let_def split: option.splits)
  show "scan_cache_coherent S A (snd (chunk_dirty S u strict chunk addr c))"
    using c st by (auto simp: chunk_dirty_def Let_def split: option.splits)
qed

lemma region_scan_cached:
  assumes l: "scan_store_lawful S" and i: "inj_on (chunk_key S) A"
  shows "scan_cache_coherent S A c \<Longrightarrow> (\<forall>(x, chunk) \<in> set (region_chunks a k off bytes). (strict, x, chunk) \<in> A) \<Longrightarrow>
     fst (region_scan S a u k strict off bytes c) = list_ex (\<lambda>(x, chunk). scan_chunk S strict chunk x) (region_chunks a k off bytes) \<and>
     scan_cache_coherent S A (snd (region_scan S a u k strict off bytes c))"
proof (induction "length bytes - off" arbitrary: off c rule: less_induct)
  case less
  show ?case
  proof (cases "off < length bytes \<and> 0 < k")
    case True
    then have "length bytes - (off + min k (length bytes - off)) < length bytes - off" by auto
    note IH = less(1) [OF this]
    obtain dirty c' where d: "chunk_dirty S u strict (chunk_at k off bytes) ((a + off) mod 2 ^ 64) c = (dirty, c')" by fastforce
    from less(3) True have mem: "(strict, (a + off) mod 2 ^ 64, chunk_at k off bytes) \<in> A"
      and rest: "\<forall>(x, chunk) \<in> set (region_chunks a k (off + min k (length bytes - off)) bytes). (strict, x, chunk) \<in> A"
      by (simp_all add: region_chunks_step)
    from chunk_dirty_correct [OF l less(2) i mem, of u] d
    have v: "dirty = scan_chunk S strict (chunk_at k off bytes) ((a + off) mod 2 ^ 64)" "scan_cache_coherent S A c'" by auto
    from IH [OF v(2) rest] v True show ?thesis
      by (cases dirty) (simp_all add: region_scan_step [OF _ _ d] region_chunks_step)
  qed (use less in \<open>simp add: region_scan_stop region_chunks_stop\<close>)
qed

text \<open>With the cache the region scan gives the verdict it gives without, as long as the chunks scanned so far do not
  collide in their 128-bit keys; strict and plain verdicts keep apart.\<close>

theorem cached_scan_agrees:
  assumes "scan_store_lawful S" and "scan_cache_coherent S A c" and "inj_on (chunk_key S) A"
    and "\<forall>(x, chunk) \<in> set (region_chunks a k 0 bytes). (strict, x, chunk) \<in> A"
  shows "fst (region_scan S a True k strict 0 bytes c) = fst (region_scan S a False k strict 0 bytes Map.empty)"
  using region_scan_cached [OF assms(1,3,2,4), of True] by (simp add: region_scan_uncached)

section \<open>What a guarded scan has seen\<close>

text \<open>
  What a clean answer says of a chunk when keys may collide: the chunk is clean, or the cache gave the answer for
  another chunk of \<open>A\<close> with the same 128-bit key, which is.
\<close>

definition vouched :: "scan_env \<Rightarrow> (bool \<times> nat \<times> u8 list) set \<Rightarrow> bool \<times> nat \<times> u8 list \<Rightarrow> bool" where
  "vouched S A a \<longleftrightarrow> chunk_clean S a \<or> (\<exists>b \<in> A. b \<noteq> a \<and> chunk_key S b = chunk_key S a \<and> chunk_clean S b)"

lemma vouched_clean: "vouched S A a \<Longrightarrow> inj_on (chunk_key S) A \<Longrightarrow> a \<in> A \<Longrightarrow> chunk_clean S a"
  unfolding vouched_def by (metis inj_onD)

lemma chunk_dirty_vouched:
  assumes l: "scan_store_lawful S" and c: "scan_cache_coherent S A c" and a: "(strict, addr, chunk) \<in> A"
  shows "\<not> fst (chunk_dirty S u strict chunk addr c) \<Longrightarrow> vouched S A (strict, addr, chunk)"
    and "scan_cache_coherent S A (snd (chunk_dirty S u strict chunk addr c))"
proof -
  let ?k = "compute_key S addr (if strict then length chunk + 2 ^ 63 else length chunk) chunk"
  have k: "?k = chunk_key S (strict, addr, chunk)" by (simp add: chunk_key_def)
  have cl: "chunk_clean S (strict, addr, chunk) = (\<not> scan_chunk S strict chunk addr)" by (simp add: chunk_clean_def)
  have hit: "vouched S A (strict, addr, chunk)" if "c ?k = Some True"
    using scans.hit_in [OF c [unfolded scan_cache_coherent_def]] that unfolding k vouched_def by fastforce
  have st: "scan_cache_coherent S A (sc_store S c ?k True)" if "\<not> scan_chunk S strict chunk addr"
    using scans.coherent_on_store [OF c [unfolded scan_cache_coherent_def] a] that l
    unfolding k cl scan_cache_coherent_def lawful_scan_store_def by simp
  show "\<not> fst (chunk_dirty S u strict chunk addr c) \<Longrightarrow> vouched S A (strict, addr, chunk)"
    using hit cl by (auto simp: chunk_dirty_def Let_def vouched_def split: option.splits if_splits)
  show "scan_cache_coherent S A (snd (chunk_dirty S u strict chunk addr c))"
    using c st by (auto simp: chunk_dirty_def Let_def split: option.splits)
qed

lemma region_scan_vouched:
  assumes l: "scan_store_lawful S"
  shows "scan_cache_coherent S A c \<Longrightarrow> (\<forall>(x, chunk) \<in> set (region_chunks a k off bytes). (strict, x, chunk) \<in> A) \<Longrightarrow>
     (\<not> fst (region_scan S a u k strict off bytes c) \<longrightarrow>
        (\<forall>(x, chunk) \<in> set (region_chunks a k off bytes). vouched S A (strict, x, chunk))) \<and>
     scan_cache_coherent S A (snd (region_scan S a u k strict off bytes c))"
proof (induction "length bytes - off" arbitrary: off c rule: less_induct)
  case less
  show ?case
  proof (cases "off < length bytes \<and> 0 < k")
    case True
    then have "length bytes - (off + min k (length bytes - off)) < length bytes - off" by auto
    note IH = less(1) [OF this]
    obtain dirty c' where d: "chunk_dirty S u strict (chunk_at k off bytes) ((a + off) mod 2 ^ 64) c = (dirty, c')" by fastforce
    from less(3) True have mem: "(strict, (a + off) mod 2 ^ 64, chunk_at k off bytes) \<in> A"
      and rest: "\<forall>(x, chunk) \<in> set (region_chunks a k (off + min k (length bytes - off)) bytes). (strict, x, chunk) \<in> A"
      by (simp_all add: region_chunks_step)
    have v: "vouched S A (strict, (a + off) mod 2 ^ 64, chunk_at k off bytes)" if "\<not> dirty"
      using chunk_dirty_vouched(1) [OF l less(2) mem, of u] d that by simp
    have c': "scan_cache_coherent S A c'" using chunk_dirty_vouched(2) [OF l less(2) mem, of u] d by simp
    from True have on: "off < length bytes" "0 < k" by simp_all
    note step = region_scan_step [OF on d]
    note chunks = region_chunks_step [OF on, of a]
    show ?thesis
    proof (cases dirty)
      case True
      with step c' show ?thesis by simp
    next
      case False
      with IH [OF c' rest] v [OF False] show ?thesis unfolding step chunks by simp
    qed
  qed (use less in \<open>simp add: region_scan_stop region_chunks_stop\<close>)
qed

text \<open>Every chunk of the range was copied at a moment of the interval, and its copy is vouched for.\<close>

definition scanned :: "scan_env \<Rightarrow> (bool \<times> nat \<times> u8 list) set \<Rightarrow> (nat \<Rightarrow> view) \<Rightarrow> nat \<Rightarrow> nat \<Rightarrow> nat \<Rightarrow> nat \<Rightarrow> bool" where
  "scanned S A mem addr sz t0 t1 \<longleftrightarrow>
     (\<forall>j. j * GUARDED_SCAN_CHUNK_BYTES < sz \<longrightarrow>
        (\<exists>t buf. t0 \<le> t \<and> t < t1 \<and>
           guarded_region_copy (mem t) (addr + j * GUARDED_SCAN_CHUNK_BYTES)
             (min (GUARDED_SCAN_CHUNK_BYTES + SCAN_CHUNK_OVERLAP) (sz - j * GUARDED_SCAN_CHUNK_BYTES)) = Some buf \<and>
           vouched S A (True, addr + j * GUARDED_SCAN_CHUNK_BYTES, buf)))"

lemma scanned_mono: "scanned S A mem addr sz t0 t1 \<Longrightarrow> t0' \<le> t0 \<Longrightarrow> t1 \<le> t1' \<Longrightarrow> scanned S A mem addr sz t0' t1'"
  unfolding scanned_def by (meson le_trans less_le_trans)

text \<open>The copies a memory can give, as inputs of the cache.\<close>

definition copies_in :: "(bool \<times> nat \<times> u8 list) set \<Rightarrow> (nat \<Rightarrow> view) \<Rightarrow> bool" where
  "copies_in A mem \<longleftrightarrow> (\<forall>t x n b. guarded_region_copy (mem t) x n = Some b \<longrightarrow> (True, x, b) \<in> A)"

lemma guarded_copy_length: "guarded_region_copy V src n = Some b \<Longrightarrow> length b = n \<and> n \<noteq> 0"
  by (auto simp: guarded_region_copy_def split: if_splits option.splits)

lemma strict_chunk_verdict:
  assumes l: "scan_store_lawful S" and i: "inj_on (chunk_key S) A" and A: "copies_in A mem" and c: "scan_cache_coherent S A c"
    and b: "guarded_region_copy (mem t) a n = Some buf" "n \<le> GUARDED_SCAN_CHUNK_BYTES + SCAN_CHUNK_OVERLAP" "a < 2 ^ 64"
  shows "fst (region_has_direct_syscalls_strict S buf a u c) = has_direct_syscall_strict (sc_decoder S) buf (of_nat a)"
    and "scan_cache_coherent S A (snd (region_has_direct_syscalls_strict S buf a u c))"
proof -
  have len: "buf \<noteq> []" "length buf \<le> SCAN_CHUNK_BYTES"
    using guarded_copy_length [OF b(1)] b(2)
    by (auto simp: GUARDED_SCAN_CHUNK_BYTES_def SCAN_CHUNK_OVERLAP_def SCAN_CHUNK_BYTES_def)
  note ch = region_chunks_small [OF len b(3)]
  have "(True, a, buf) \<in> A" using A b(1) by (auto simp: copies_in_def)
  with ch have "\<forall>(x, chunk) \<in> set (region_chunks a SCAN_CHUNK_BYTES 0 buf). (True, x, chunk) \<in> A" by simp
  from region_scan_cached [OF l i c this, of u] ch
  show "fst (region_has_direct_syscalls_strict S buf a u c) = has_direct_syscall_strict (sc_decoder S) buf (of_nat a)"
    and "scan_cache_coherent S A (snd (region_has_direct_syscalls_strict S buf a u c))"
    by (simp_all add: region_has_direct_syscalls_strict_def scan_chunk_def)
qed

lemma strict_chunk_vouched:
  assumes l: "scan_store_lawful S" and A: "copies_in A mem" and c: "scan_cache_coherent S A c"
    and b: "guarded_region_copy (mem t) a n = Some buf" "n \<le> GUARDED_SCAN_CHUNK_BYTES + SCAN_CHUNK_OVERLAP" "a < 2 ^ 64"
  shows "\<not> fst (region_has_direct_syscalls_strict S buf a u c) \<Longrightarrow> vouched S A (True, a, buf)"
    and "scan_cache_coherent S A (snd (region_has_direct_syscalls_strict S buf a u c))"
proof -
  have len: "buf \<noteq> []" "length buf \<le> SCAN_CHUNK_BYTES"
    using guarded_copy_length [OF b(1)] b(2)
    by (auto simp: GUARDED_SCAN_CHUNK_BYTES_def SCAN_CHUNK_OVERLAP_def SCAN_CHUNK_BYTES_def)
  note ch = region_chunks_small [OF len b(3)]
  have "(True, a, buf) \<in> A" using A b(1) by (auto simp: copies_in_def)
  with ch have "\<forall>(x, chunk) \<in> set (region_chunks a SCAN_CHUNK_BYTES 0 buf). (True, x, chunk) \<in> A" by simp
  from region_scan_vouched [OF l c this, of u] ch
  show "\<not> fst (region_has_direct_syscalls_strict S buf a u c) \<Longrightarrow> vouched S A (True, a, buf)"
    and "scan_cache_coherent S A (snd (region_has_direct_syscalls_strict S buf a u c))"
    by (simp_all add: region_has_direct_syscalls_strict_def)
qed

lemma guarded_scan_stop: "\<not> off < sz \<Longrightarrow> guarded_scan S mem u addr sz off (c, t) = (Clean, (c, t))"
  by (subst guarded_scan.simps) (rule if_not_P)

lemma guarded_scan_unreadable:
  "off < sz \<Longrightarrow>
     guarded_region_copy (mem t) (addr + off) (min (min (sz - off) GUARDED_SCAN_CHUNK_BYTES + SCAN_CHUNK_OVERLAP) (sz - off)) = None \<Longrightarrow>
     guarded_scan S mem u addr sz off (c, t) = (Unreadable, (c, t + 1))"
  by (subst guarded_scan.simps) (simp add: Let_def)

lemma guarded_scan_read:
  "off < sz \<Longrightarrow>
     guarded_region_copy (mem t) (addr + off) (min (min (sz - off) GUARDED_SCAN_CHUNK_BYTES + SCAN_CHUNK_OVERLAP) (sz - off)) = Some buf \<Longrightarrow>
     region_has_direct_syscalls_strict S buf (addr + off) u c = (dirty, c') \<Longrightarrow>
     guarded_scan S mem u addr sz off (c, t) =
       (if dirty then (SyscallsFound, (c', t + 1))
        else guarded_scan S mem u addr sz (off + min (sz - off) GUARDED_SCAN_CHUNK_BYTES) (c', t + 1))"
  by (subst guarded_scan.simps) (simp add: Let_def)

lemma guarded_scan_result:
  assumes l: "scan_store_lawful S" and A: "copies_in A mem" and a: "addr + sz \<le> 2 ^ 64"
  shows "scan_cache_coherent S A c \<Longrightarrow> guarded_scan S mem u addr sz (j * GUARDED_SCAN_CHUNK_BYTES) (c, t) = (v, (c', t')) \<Longrightarrow>
     scan_cache_coherent S A c' \<and> t \<le> t' \<and>
     (v = Clean \<longrightarrow> (\<forall>j' \<ge> j. j' * GUARDED_SCAN_CHUNK_BYTES < sz \<longrightarrow>
        (\<exists>t'' buf. t \<le> t'' \<and> t'' < t' \<and>
           guarded_region_copy (mem t'') (addr + j' * GUARDED_SCAN_CHUNK_BYTES)
             (min (GUARDED_SCAN_CHUNK_BYTES + SCAN_CHUNK_OVERLAP) (sz - j' * GUARDED_SCAN_CHUNK_BYTES)) = Some buf \<and>
           vouched S A (True, addr + j' * GUARDED_SCAN_CHUNK_BYTES, buf))))"
proof (induction "sz - j * GUARDED_SCAN_CHUNK_BYTES" arbitrary: j c t rule: less_induct)
  case less
  define G where "G = GUARDED_SCAN_CHUNK_BYTES"
  have Gp: "0 < G" by (simp add: G_def GUARDED_SCAN_CHUNK_BYTES_def)
  show ?case
  proof (cases "j * G < sz")
    case False
    then have "\<not> j' * G < sz" if "j \<le> j'" for j' using that Gp by (meson leD le_less_trans mult_le_mono1)
    with False less(2,3) show ?thesis by (auto simp: guarded_scan_stop G_def)
  next
    case True
    let ?n = "min (min (sz - j * G) G + SCAN_CHUNK_OVERLAP) (sz - j * G)"
    have n: "?n = min (G + SCAN_CHUNK_OVERLAP) (sz - j * G)" by auto
    show ?thesis
    proof (cases "guarded_region_copy (mem t) (addr + j * G) ?n")
      case None
      with guarded_scan_unreadable [of "j * G" sz mem t addr S u c] True less(2,3) show ?thesis by (auto simp: G_def)
    next
      case (Some buf)
      obtain dirty c2 where d: "region_has_direct_syscalls_strict S buf (addr + j * G) u c = (dirty, c2)" by fastforce
      have addr: "addr + j * G < 2 ^ 64" using True a by linarith
      note v = strict_chunk_vouched [OF l A less(2) Some _ addr, of u, unfolded d fst_conv snd_conv]
      have le: "?n \<le> GUARDED_SCAN_CHUNK_BYTES + SCAN_CHUNK_OVERLAP" by (simp add: G_def)
      note v = v [OF le]
      note step = guarded_scan_read [of "j * G" sz mem t addr buf S u c dirty c2, folded G_def, OF True Some d]
      show ?thesis
      proof (cases dirty)
        case True
        with step less(3) v(2) show ?thesis by (auto simp: G_def)
      next
        case False
        have next_off: "j * G + min (sz - j * G) G = (if sz \<le> Suc j * G then sz else Suc j * G)" using \<open>j * G < sz\<close> by auto
        show ?thesis
        proof (cases "sz \<le> Suc j * G")
          case True
          then have only: "j' = j" if "j \<le> j'" "j' * G < sz" for j'
            using that Gp by (metis less_le_trans mult_less_cancel2 le_antisym less_Suc_eq_le)
          from step False next_off True less(3) have "v = Clean" "c' = c2" "t' = t + 1"
            by (simp_all add: guarded_scan_stop G_def)
          with v Some n only False show ?thesis by (auto simp: G_def)
        next
          case nl: False
          from nl Gp have dec: "sz - Suc j * G < sz - j * G" by auto
          from step False next_off nl less(3) have r: "guarded_scan S mem u addr sz (Suc j * G) (c2, t + 1) = (v, (c', t'))"
            by (simp add: G_def add.commute)
          note IH = less(1) [OF dec [unfolded G_def] v(2) r [unfolded G_def]]
          have "\<exists>t'' buf. t \<le> t'' \<and> t'' < t' \<and>
              guarded_region_copy (mem t'') (addr + j' * G) (min (G + SCAN_CHUNK_OVERLAP) (sz - j' * G)) = Some buf \<and>
              vouched S A (True, addr + j' * G, buf)"
            if "v = Clean" "j \<le> j'" "j' * G < sz" for j'
          proof (cases "j' = j")
            case True
            from IH have "t < t'" by auto
            with True Some n v(1) False show ?thesis by auto
          next
            case False
            with that have "Suc j \<le> j'" by simp
            with IH that obtain t'' buf where "t + 1 \<le> t''" "t'' < t'"
              "guarded_region_copy (mem t'') (addr + j' * G) (min (G + SCAN_CHUNK_OVERLAP) (sz - j' * G)) = Some buf"
              "vouched S A (True, addr + j' * G, buf)" unfolding G_def by blast
            then show ?thesis by (intro exI [of _ t''] exI [of _ buf]) auto
          qed
          with IH show ?thesis by (auto simp: G_def)
        qed
      qed
    qed
  qed
qed

lemma guarded_twice_clean:
  assumes l: "scan_store_lawful S" and A: "copies_in A mem" and a: "addr + sz \<le> 2 ^ 64"
    and c: "scan_cache_coherent S A c" and r: "guarded_scan_region_twice S mem u addr sz (c, t) = (v, (c', t'))"
  shows "scan_cache_coherent S A c' \<and> t \<le> t' \<and>
     (v = Clean \<longrightarrow> (\<exists>tm. t \<le> tm \<and> tm \<le> t' \<and> scanned S A mem addr sz t tm \<and> scanned S A mem addr sz tm t'))"
proof -
  obtain v1 c1 t1 where f: "guarded_scan S mem u addr sz 0 (c, t) = (v1, (c1, t1))" by (metis surj_pair)
  note R1 = guarded_scan_result [OF l A a c, of u 0 t v1 c1 t1, simplified, OF f]
  show ?thesis
  proof (cases "v1 = Clean")
    case False
    with f r R1 show ?thesis by (auto simp: guarded_scan_region_twice_def guarded_scan_region_def)
  next
    case True
    with f r have g: "guarded_scan S mem u addr sz 0 (c1, t1) = (v, (c', t'))"
      by (simp add: guarded_scan_region_twice_def guarded_scan_region_def)
    from R1 have c1: "scan_cache_coherent S A c1" by blast
    note R2 = guarded_scan_result [OF l A a c1, of u 0 t1 v c' t', simplified, OF g]
    have "scanned S A mem addr sz t t1" using R1 True unfolding scanned_def by auto
    moreover have "v = Clean \<Longrightarrow> scanned S A mem addr sz t1 t'" using R2 unfolding scanned_def by auto
    ultimately show ?thesis using R1 R2 by auto
  qed
qed

text \<open>A request that may proceed: the pages the kernel changes, and the request itself, were read in full twice, the second
  time after the first.\<close>

lemma scan_protect_proceed:
  assumes l: "scan_store_lawful S" and A: "copies_in A mem" and c: "scan_cache_coherent S A c"
    and r: "scan_protect_request S mem addr sz (c, t) = (v, (c', t'))"
  shows "scan_cache_coherent S A c' \<and>
     (v = Proceed \<longrightarrow> (\<exists>pa pl t1 t2. page_round_scan_range addr sz = Some (pa, pl) \<and> t \<le> t1 \<and> t1 \<le> t2 \<and> t2 \<le> t' \<and>
        scanned S A mem pa pl t t1 \<and> scanned S A mem pa pl t1 t2 \<and> scanned S A mem addr sz t t'))"
proof (cases "page_round_scan_range addr sz")
  case None
  with r c show ?thesis by (auto simp: scan_protect_request_def)
next
  case (Some p)
  obtain pa pl where p: "p = (pa, pl)" by fastforce
  from page_round_scan_range_bounds [of addr sz] Some p
  have b: "pa + pl \<le> 2 ^ 64" "addr + sz \<le> 2 ^ 64" by (auto simp: USIZE_MAX_def)
  obtain v1 c1 t1 where f: "guarded_scan_region_twice S mem True pa pl (c, t) = (v1, (c1, t1))" by (metis surj_pair)
  note R1 = guarded_twice_clean [OF l A b(1) c f]
  have resp: "protect_scan_response w = Proceed \<longleftrightarrow> w = Clean" for w by (simp add: protect_scan_response_def split: guarded_verdict.split)
  show ?thesis
  proof (cases "v1 = Clean")
    case False
    then have "protect_scan_response v1 \<noteq> Proceed" by (simp add: resp)
    with f r Some p have "v = protect_scan_response v1" "c' = c1" by (auto simp: scan_protect_request_def)
    with False R1 resp show ?thesis by auto
  next
    case True
    from R1 True obtain tm where tm: "t \<le> tm" "tm \<le> t1" "scanned S A mem pa pl t tm" "scanned S A mem pa pl tm t1" by auto
    show ?thesis
    proof (cases "(pa, pl) = (addr, sz)")
      case eq: True
      with f r Some p have e: "c' = c1" "t' = t1" by (auto simp: scan_protect_request_def)
      from tm eq have "scanned S A mem addr sz t t1" by (auto elim: scanned_mono)
      with R1 tm e Some p show ?thesis by blast
    next
      case ne: False
      obtain v2 c2 t2 where g: "guarded_scan_region_twice S mem True addr sz (c1, t1) = (v2, (c2, t2))" by (metis surj_pair)
      from R1 have c1: "scan_cache_coherent S A c1" by blast
      note R2 = guarded_twice_clean [OF l A b(2) c1 g]
      from f r Some p ne g True have eq: "v = protect_scan_response v2" "c' = c2" "t' = t2"
        by (auto simp: scan_protect_request_def resp)
      have "v = Proceed \<Longrightarrow> scanned S A mem addr sz t t'"
        using R2 R1 eq resp by (auto elim!: scanned_mono)
      with R1 R2 eq tm Some p show ?thesis by blast
    qed
  qed
qed

section \<open>Requests to make memory executable\<close>

text \<open>
  \<open>A\<close> holds the chunks that the memory can give to a scan; nothing is assumed about their keys. The cache knows only
  verdicts of chunks of \<open>A\<close>.
\<close>

definition guard_lawful :: "(bool \<times> nat \<times> u8 list) set \<Rightarrow> guard_env \<Rightarrow> guard_state \<Rightarrow> bool" where
  "guard_lawful A E s \<longleftrightarrow>
     scan_store_lawful (g_scan E) \<and> copies_in A (g_mem E) \<and>
     scan_cache_coherent (g_scan E) A (gs_cache s)"

text \<open>A clean chunk has no byte pattern of a system call at its first sixteen bytes.\<close>

lemma clean_no_pattern:
  assumes "decodes_patterns (sc_decoder S)" and "chunk_clean S (True, addr, buf)" and "e \<le> MAX_INSTRUCTION_LEN" and "e + 1 < length buf"
  shows "pattern_kind (buf ! e) (buf ! (e + 1)) = None"
proof (rule ccontr)
  assume "pattern_kind (buf ! e) (buf ! (e + 1)) \<noteq> None"
  then obtain k where "pattern_kind (buf ! e) (buf ! (e + 1)) = Some k" by blast
  from entry_reported [OF assms(1,3,4) this, of "of_nat addr"]
  have "find_direct_syscalls_multi_entry (sc_decoder S) buf (of_nat addr) \<noteq> []" by force
  then have "has_direct_syscall (sc_decoder S) buf (of_nat addr)" unfolding has_found .
  with assms(2) show False using strict_reports_more by (simp add: chunk_clean_def scan_chunk_def)
qed

lemma protect_executable:
  assumes l: "guard_lawful A E s" and h: "\<not> gs_in_hook s" "is_current_process E h" "is_executable new_protect" "addr \<noteq> 0"
    "\<not> vw_in_module (g_mem E (gs_time s)) addr" "0 < sz"
    and r: "hook_nt_protect_virtual_memory E h (Some addr) (Some sz) new_protect status s = (Original status, s')"
  shows "\<exists>pa pl t1 t2 t3. page_round_scan_range addr sz = Some (pa, pl) \<and> gs_time s \<le> t1 \<and> t1 \<le> t2 \<and> t2 \<le> t3 \<and> t3 < gs_time s' \<and>
     scanned (g_scan E) A (g_mem E) pa pl (gs_time s) t1 \<and> scanned (g_scan E) A (g_mem E) pa pl t1 t2 \<and>
     scanned (g_scan E) A (g_mem E) addr sz (gs_time s) t3"
proof -
  obtain v c t where q: "scan_protect_request (g_scan E) (g_mem E) addr sz (gs_cache s, gs_time s) = (v, (c, t))" by (metis surj_pair)
  from l have lw: "scan_store_lawful (g_scan E)" "copies_in A (g_mem E)"
    "scan_cache_coherent (g_scan E) A (gs_cache s)" by (simp_all add: guard_lawful_def)
  have p: "protect_scan_phase E (Some addr) (Some sz) new_protect s = (v, s\<lparr>gs_cache := c, gs_time := t\<rparr>)"
    using h q by (simp add: protect_scan_phase_def Let_def)
  from r h p have v: "v = Proceed" "t < gs_time s'"
    by (auto simp: hook_nt_protect_virtual_memory_def Let_def split: protect_answer.splits critical_range_answer.splits option.splits)
  from scan_protect_proceed [OF lw q] v show ?thesis by blast
qed

text \<open>C24: a guest call of \<^verbatim>\<open>NtProtectVirtualMemory\<close> that makes memory of its own outside the modules executable, and that is not
  refused, has had all pages that the kernel changes read in full twice during the call, and the requested range
  as well; each copied chunk has no direct system call, or a different chunk of the memory with the same 128-bit cache key has
  none. (Memory that is allocated executable is not read: \<open>own_rwx_allocation\<close>.)\<close>

theorem executable_request_scanned:
  assumes "guard_lawful A E s" and "\<not> gs_in_hook s" and "is_current_process E h" and "is_executable new_protect" and "addr \<noteq> 0"
    and "\<not> vw_in_module (g_mem E (gs_time s)) addr" and "0 < sz"
    and "hook_nt_protect_virtual_memory E h (Some addr) (Some sz) new_protect status s = (Original status, s')"
  shows "\<exists>pa pl t1 t2 t3. page_round_scan_range addr sz = Some (pa, pl) \<and> gs_time s \<le> t1 \<and> t1 \<le> t2 \<and> t2 \<le> t3 \<and> t3 < gs_time s' \<and>
     scanned (g_scan E) A (g_mem E) pa pl (gs_time s) t1 \<and> scanned (g_scan E) A (g_mem E) pa pl t1 t2 \<and>
     scanned (g_scan E) A (g_mem E) addr sz (gs_time s) t3"
  by (rule protect_executable [OF assms])

text \<open>A memory with one readable page of \<^verbatim>\<open>nop\<close>, for the example.\<close>

definition quiet_decoder :: decoder where
  "quiet_decoder ip bs = (plain_instruction MOther 0, 1)"

definition nop_view :: view where
  "nop_view = \<lparr>vw_query = (\<lambda>_. None), vw_file_name = (\<lambda>_ _. None), vw_in_module = (\<lambda>_. False),
     vw_copy = (\<lambda>x n. if 4096 \<le> x \<and> x + n \<le> 8192 then Some (replicate n 0x90) else None), vw_bytes = (\<lambda>_ n. replicate n 0x90)\<rparr>"

definition nop_scan :: scan_env where
  "nop_scan = \<lparr>sc_decoder = quiet_decoder, sc_hash = (\<lambda>a l b. of_nat (a + 8192 * l)), sc_store = (\<lambda>c k d. c(k \<mapsto> d))\<rparr>"

definition nop_copies :: "(bool \<times> nat \<times> u8 list) set" where
  "nop_copies = {(True, x, replicate n 0x90) |x n. x < 8192 \<and> n \<le> 8192}"

definition nop_env :: guard_env where
  "nop_env = \<lparr>g_scan = nop_scan, g_integrity = \<lparr>ig_own_span = None, ig_ntdll_path = None\<rparr>, g_mem = (\<lambda>_. nop_view), g_self_pid = 7,
     g_process_id = (\<lambda>_. 0), g_live = Map.empty, g_mode = None, g_allow_rwx = False, g_query_section = None,
     g_publisher_trusted = (\<lambda>_. False)\<rparr>"

definition nop_state :: guard_state where
  "nop_state = \<lparr>gs_time = 0, gs_cache = Map.empty, gs_watch = [], gs_teardown = False, gs_tracker = Map.empty, gs_in_hook = False,
     gs_alloc_slot = None\<rparr>"

lemma quiet_sweep: "\<not> sweep_has quiet_decoder base c pos bytes"
proof (induction "length bytes" arbitrary: c pos bytes rule: less_induct)
  case less
  show ?case
  proof (cases "bytes = []")
    case False
    then have "length (drop (max 1 1) bytes) < length bytes" by (cases bytes) auto
    from less [OF this] False show ?thesis
      by (subst sweep_has.simps) (simp add: quiet_decoder_def context_hit_def plain_instruction_def kind_of_instruction_def Let_def)
  qed (simp add: sweep_has.simps)
qed

lemma nop_stubs: "canonical_stub_syscalls (replicate n 0x90) = []"
proof -
  have "off \<notin> set (canonical_stub_syscalls (replicate n 0x90))" for off
    by (auto simp: canonical_stub_iff stub_window_def starts_with_def)
  then show ?thesis by (metis last_in_set)
qed

lemma nop_clean: "\<not> has_direct_syscall_strict quiet_decoder (replicate n 0x90) base"
  by (auto simp: has_direct_syscall_strict_def has_direct_syscall_with_def sweep_has_direct_syscall_def quiet_sweep nop_stubs
      list_ex_iff Let_def)

lemma nop_inj: "inj_on (chunk_key nop_scan) nop_copies"
proof -
  have key: "chunk_key nop_scan (True, x, replicate n 0x90) = of_nat (x + 8192 * (n + 2 ^ 63))" for x n
    by (simp add: chunk_key_def compute_key_def nop_scan_def)
  show ?thesis
  proof (rule inj_onI)
    fix a b
    assume "a \<in> nop_copies" "b \<in> nop_copies" and k: "chunk_key nop_scan a = chunk_key nop_scan b"
    then obtain x n y m where a: "a = (True, x, replicate n 0x90)" "x < 8192" "n \<le> 8192"
      and b: "b = (True, y, replicate m 0x90)" "y < 8192" "m \<le> 8192" by (auto simp: nop_copies_def)
    have u: "unat (of_nat z :: 128 word) = z" if "z < 2 ^ 128" for z
      using that by (simp add: unat_of_nat take_bit_nat_eq_self)
    have "x + 8192 * (n + 2 ^ 63) < 2 ^ 128" "y + 8192 * (m + 2 ^ 63) < 2 ^ 128" using a b by simp_all
    from u [OF this(1)] u [OF this(2)] have e: "x + 8192 * (n + 2 ^ 63) = y + 8192 * (m + 2 ^ 63)"
      using k unfolding a(1) b(1) key by metis
    from e have "(x + 8192 * (n + 2 ^ 63)) mod 8192 = (y + 8192 * (m + 2 ^ 63)) mod 8192" by (rule arg_cong)
    then have "x = y" using a(2) b(2) by (simp only: mod_mult_self2 mod_less)
    with e have "n = m" by simp
    with \<open>x = y\<close> a b show "a = b" by simp
  qed
qed

lemma nop_lawful: "guard_lawful nop_copies nop_env nop_state"
proof -
  have "copies_in nop_copies (g_mem nop_env)"
    by (auto simp: copies_in_def nop_copies_def nop_env_def nop_view_def guarded_region_copy_def split: if_splits)
  moreover have "scan_store_lawful nop_scan" by (simp add: scan_store_lawful_def nop_scan_def)
  moreover have "scan_cache_coherent nop_scan nop_copies (gs_cache nop_state)"
    by (simp add: nop_state_def scan_cache_empty)
  ultimately show ?thesis by (simp add: guard_lawful_def nop_env_def)
qed

lemma cached_scan_agrees_witness:
  "fst (region_scan nop_scan 4096 True 16 True 0 (replicate 8 0x90) Map.empty) =
     fst (region_scan nop_scan 4096 False 16 True 0 (replicate 8 0x90) Map.empty)"
proof -
  from nop_lawful have l: "scan_store_lawful nop_scan" by (simp add: guard_lawful_def nop_env_def)
  have c: "region_chunks 4096 16 0 (replicate 8 (0x90 :: u8)) = [(4096, replicate 8 0x90)]" by (rule region_chunks_small) simp_all
  have m: "(True, 4096, replicate 8 (0x90 :: u8)) \<in> nop_copies" unfolding nop_copies_def by (rule CollectI, intro exI [of _ 4096] exI [of _ 8]) simp
  have a: "\<forall>(x, chunk) \<in> set (region_chunks 4096 16 0 (replicate 8 0x90)). (True, x, chunk) \<in> nop_copies"
    unfolding c using m by simp
  show ?thesis by (rule cached_scan_agrees [OF l scan_cache_empty nop_inj a])
qed

lemma nop_guarded:
  assumes c: "scan_cache_coherent nop_scan nop_copies c"
  shows "\<exists>c'. guarded_scan_region nop_scan (\<lambda>_. nop_view) True 4096 4096 (c, t) = (Clean, (c', t + 1)) \<and> scan_cache_coherent nop_scan nop_copies c'"
proof -
  from nop_lawful nop_inj have l: "scan_store_lawful nop_scan" "inj_on (chunk_key nop_scan) nop_copies"
    "copies_in nop_copies (\<lambda>_. nop_view)" by (simp_all add: guard_lawful_def nop_env_def)
  have b: "guarded_region_copy ((\<lambda>_. nop_view) t) 4096 4096 = Some (replicate 4096 0x90)"
    by (simp add: guarded_region_copy_def nop_view_def)
  obtain dirty c' where d: "region_has_direct_syscalls_strict nop_scan (replicate 4096 0x90) 4096 True c = (dirty, c')" by fastforce
  have le: "4096 \<le> GUARDED_SCAN_CHUNK_BYTES + SCAN_CHUNK_OVERLAP" by (simp add: GUARDED_SCAN_CHUNK_BYTES_def)
  from strict_chunk_verdict [OF l(1,2,3) c b le, of True, unfolded d]
  have v: "\<not> dirty" "scan_cache_coherent nop_scan nop_copies c'" by (simp_all add: nop_scan_def nop_clean)
  have n: "min 4096 GUARDED_SCAN_CHUNK_BYTES = 4096" "min (4096 + SCAN_CHUNK_OVERLAP) 4096 = (4096 :: nat)"
    by (simp_all add: GUARDED_SCAN_CHUNK_BYTES_def)
  have "guarded_scan nop_scan (\<lambda>_. nop_view) True 4096 4096 0 (c, t) = (Clean, (c', t + 1))"
    using guarded_scan_read [of 0 4096 "\<lambda>_. nop_view" t 4096 "replicate 4096 0x90" nop_scan True c dirty c'] b d v(1)
    by (simp add: n guarded_scan_stop)
  with v show ?thesis by (auto simp: guarded_scan_region_def)
qed

lemma nop_request:
  "\<exists>c t. hook_nt_protect_virtual_memory nop_env CurrentProcess (Some 4096) (Some 4096) PAGE_EXECUTE_READ 0 nop_state =
     (Original 0, nop_state\<lparr>gs_cache := c, gs_time := t\<rparr>)"
proof -
  have e: "scan_cache_coherent nop_scan nop_copies (gs_cache nop_state)" by (simp add: nop_state_def scan_cache_empty)
  obtain c1 where g1: "guarded_scan_region nop_scan (\<lambda>_. nop_view) True 4096 4096 (gs_cache nop_state, 0) = (Clean, (c1, 0 + 1))"
    and c1: "scan_cache_coherent nop_scan nop_copies c1" using nop_guarded [OF e] by blast
  obtain c2 where g2: "guarded_scan_region nop_scan (\<lambda>_. nop_view) True 4096 4096 (c1, 0 + 1) = (Clean, (c2, 0 + 1 + 1))"
    using nop_guarded [OF c1] by blast
  have p: "page_round_scan_range 4096 4096 = Some (4096, 4096)"
    by (simp add: page_round_scan_range_def page_floor_def PAGE_SIZE_def USIZE_MAX_def)
  have s: "scan_protect_request nop_scan (\<lambda>_. nop_view) 4096 4096 (gs_cache nop_state, 0) = (Proceed, (c2, 2))"
    using g1 g2 by (simp add: scan_protect_request_def p guarded_scan_region_twice_def protect_scan_response_def)
  have x: "is_executable PAGE_EXECUTE_READ" by code_simp
  have o: "\<not> overlaps_critical_exec G nop_view a n" for G a n
    by (simp add: overlaps_critical_exec_def Let_def critical_walk.simps nop_view_def split: nat.splits)
  have ph: "protect_scan_phase nop_env (Some 4096) (Some 4096) PAGE_EXECUTE_READ nop_state = (Proceed, nop_state\<lparr>gs_cache := c2, gs_time := 2\<rparr>)"
    using s x by (simp add: protect_scan_phase_def nop_env_def nop_view_def nop_state_def)
  have ra: "protect_range_answer nop_env (Some 4096) 4096 PAGE_EXECUTE_READ (nop_state\<lparr>gs_cache := c2, gs_time := 2\<rparr>) = RangeAllow"
    using o by (simp add: protect_range_answer_def nop_env_def)
  have "\<not> gs_in_hook nop_state" "is_current_process nop_env CurrentProcess"
    by (simp_all add: nop_state_def is_current_process_def)
  then have "hook_nt_protect_virtual_memory nop_env CurrentProcess (Some 4096) (Some 4096) PAGE_EXECUTE_READ 0 nop_state =
      (Original 0, nop_state\<lparr>gs_cache := c2, gs_time := 3\<rparr>)"
    unfolding hook_nt_protect_virtual_memory_def ph by (simp add: ra)
  then show ?thesis by blast
qed

lemma executable_request_scanned_witness:
  "\<exists>(s' :: guard_state) pa pl t1 t2 t3. page_round_scan_range 4096 4096 = Some (pa, pl) \<and> 0 \<le> t1 \<and> t1 \<le> t2 \<and> t2 \<le> t3 \<and> t3 < gs_time s' \<and>
     scanned nop_scan nop_copies (\<lambda>_. nop_view) pa pl 0 t1 \<and> scanned nop_scan nop_copies (\<lambda>_. nop_view) pa pl t1 t2 \<and>
     scanned nop_scan nop_copies (\<lambda>_. nop_view) 4096 4096 0 t3"
proof -
  have f: "g_scan nop_env = nop_scan" "g_mem nop_env = (\<lambda>_. nop_view)" "gs_time nop_state = 0" "\<not> gs_in_hook nop_state"
    "is_current_process nop_env CurrentProcess" "\<not> vw_in_module nop_view 4096"
    by (simp_all add: nop_env_def nop_state_def is_current_process_def nop_view_def)
  obtain s' where r: "hook_nt_protect_virtual_memory nop_env CurrentProcess (Some 4096) (Some 4096) PAGE_EXECUTE_READ 0 nop_state = (Original 0, s')"
    using nop_request by blast
  have x: "is_executable PAGE_EXECUTE_READ" by code_simp
  show ?thesis
    using executable_request_scanned [OF nop_lawful f(4,5) x _ _ _ r, unfolded f, OF _ f(6)] by (intro exI [of _ s']) simp
qed

text \<open>The cache stays coherent, so the next call is judged by the bytes it sees.\<close>

lemma protect_keeps_lawful:
  assumes "guard_lawful A E s" and "hook_nt_protect_virtual_memory E h base sz new_protect status s = (v, s')"
  shows "guard_lawful A E s'"
proof -
  from assms(1) have lw: "scan_store_lawful (g_scan E)" "copies_in A (g_mem E)"
    "scan_cache_coherent (g_scan E) A (gs_cache s)" by (simp_all add: guard_lawful_def)
  obtain r s1 where p: "protect_scan_phase E base sz new_protect s = (r, s1)" by fastforce
  have "scan_cache_coherent (g_scan E) A (gs_cache s1)"
  proof (cases "s1 = s")
    case True
    with lw show ?thesis by simp
  next
    case False
    with p obtain addr where a: "base = Some addr" and
      q: "(r, s1) = (let (r, (c, t)) = scan_protect_request (g_scan E) (g_mem E) addr (unwrap_or sz 0) (gs_cache s, gs_time s)
                     in (r, s\<lparr>gs_cache := c, gs_time := t\<rparr>))"
      by (cases base) (auto simp: protect_scan_phase_def Let_def split: if_splits)
    obtain v c t where e: "scan_protect_request (g_scan E) (g_mem E) addr (unwrap_or sz 0) (gs_cache s, gs_time s) = (v, (c, t))"
      by (metis surj_pair)
    from scan_protect_proceed [OF lw e] q e show ?thesis by simp
  qed
  then have "scan_cache_coherent (g_scan E) A (gs_cache s')"
    using assms(2) p lw(3)
    by (auto simp: hook_nt_protect_virtual_memory_def Let_def
        split: if_splits option.splits protect_answer.splits critical_range_answer.splits)
  with lw show ?thesis by (simp add: guard_lawful_def)
qed

lemma protect_wraparound_refused:
  "\<not> gs_in_hook s \<Longrightarrow> is_current_process E h \<Longrightarrow> is_executable new_protect \<Longrightarrow> addr \<noteq> 0 \<Longrightarrow>
   \<not> vw_in_module (g_mem E (gs_time s)) addr \<Longrightarrow> 0 < sz \<Longrightarrow> USIZE_MAX < addr + sz + (PAGE_SIZE - 1) \<Longrightarrow>
   fst (hook_nt_protect_virtual_memory E h (Some addr) (Some sz) new_protect status s) = AccessDenied"
proof -
  assume h: "\<not> gs_in_hook s" "is_current_process E h" "is_executable new_protect" "addr \<noteq> 0"
    "\<not> vw_in_module (g_mem E (gs_time s)) addr" "0 < sz" and o: "USIZE_MAX < addr + sz + (PAGE_SIZE - 1)"
  from o have "page_round_scan_range addr sz = None" by (simp add: page_round_scan_range_def Let_def PAGE_SIZE_def)
  with h show ?thesis
    by (simp add: hook_nt_protect_virtual_memory_def protect_scan_phase_def scan_protect_request_def Let_def)
qed

end
