(* ===== verification/MemGuardSafety.thy ===== *)
theory MemGuardSafety
  imports MemGuard
begin

text \<open>
  What the memory guard guarantees besides the content scan: the pages that hold the detours do not become writable, other
  processes are left alone, and a mapped view is judged as \<open>decide_mapview_protection\<close> says; and what it does not see.
\<close>

section \<open>Pages that hold detours\<close>

text \<open>\<^verbatim>\<open>VirtualQuery\<close> answers with whole pages around the address, and the rest of the answered region has the same attributes, the
  same end and the same file.\<close>

definition pages_lawful :: "view \<Rightarrow> bool" where
  "pages_lawful V \<longleftrightarrow>
     (\<forall>a b. vw_query V a = Some b \<longrightarrow>
        mb_base b \<le> a \<and> a < mb_base b + mb_size b \<and> mb_base b mod PAGE_SIZE = 0 \<and> mb_size b mod PAGE_SIZE = 0 \<and>
        mb_base b + mb_size b \<le> USIZE_MAX \<and>
        (\<forall>x. a \<le> x \<and> x < mb_base b + mb_size b \<longrightarrow>
           (\<exists>b'. vw_query V x = Some b' \<and> mb_protect b' = mb_protect b \<and> mb_type b' = mb_type b) \<and>
           (\<forall>n. vw_file_name V n x = vw_file_name V n a)))"

text \<open>An executable image page of the hook library or of a critical system library.\<close>

definition critical_page :: "integrity \<Rightarrow> view \<Rightarrow> nat \<Rightarrow> bool" where
  "critical_page G V a \<longleftrightarrow>
     (\<exists>b. vw_query V a = Some b \<and> is_executable (mb_protect b) \<and> mb_type b = MEM_IMAGE \<and>
        ((\<exists>b0 e. ig_own_span G = Some (b0, e) \<and> b0 \<le> a \<and> a < e) \<or>
         (\<exists>name path. get_mapped_file_basename V a = Some name \<and> is_critical_dll name \<and>
            get_mapped_file_path V a = Some path \<and> is_system_dll_path (ig_ntdll_path G) path)))"











text \<open>After an allowed change of such a page the recorded prologues are compared; the first that differs ends the process.\<close>

lemma tampered_detour_ends:
  "\<not> gs_teardown s \<Longrightarrow> (addr, expected) \<in> set (gs_watch s) \<Longrightarrow>
     read_code_bytes (g_mem E (gs_time s)) addr \<noteq> Some expected \<Longrightarrow> verify_detours_or_die E kind p n s \<noteq> None"
proof
  assume s: "\<not> gs_teardown s" and w: "(addr, expected) \<in> set (gs_watch s)"
    and r: "read_code_bytes (g_mem E (gs_time s)) addr \<noteq> Some expected" and n: "verify_detours_or_die E kind p n s = None"
  from s n have "List.find (\<lambda>(addr, expected). detour_bytes_tampered expected (read_code_bytes (g_mem E (gs_time s)) addr)) (gs_watch s) = None"
    by (simp add: verify_detours_or_die_def first_tampered_detour_def)
  with w have "\<not> detour_bytes_tampered expected (read_code_bytes (g_mem E (gs_time s)) addr)" by (auto simp: find_None_iff)
  with r show False by (auto simp: detour_bytes_tampered_def split: option.splits)
qed

text \<open>
  Only executable pages are guarded: once a page of detours is read-only, it may be made writable. The request for
  read-only access itself is let through when the recorded prologues are intact after it.
\<close>

lemma walk_over_data:
  assumes l: "pages_lawful V" and d: "\<And>a b. lo \<le> a \<Longrightarrow> a < stop \<Longrightarrow> vw_query V a = Some b \<Longrightarrow> \<not> is_executable (mb_protect b)"
  shows "lo \<le> cur \<Longrightarrow> \<not> critical_walk G V n cur stop"
proof (induction n arbitrary: cur)
  case 0
  then show ?case by (simp add: critical_walk.simps)
next
  case (Suc n)
  show ?case
  proof (cases "cur < stop \<and> vw_query V cur \<noteq> None")
    case False
    then show ?thesis by (subst critical_walk.simps) auto
  next
    case True
    then obtain b where b: "vw_query V cur = Some b" and lt: "cur < stop" by blast
    have nb: "\<not> critical_block G V cur b" using d [OF Suc.prems lt b] by (simp add: critical_block_def is_executable_def)
    from l b have lim: "cur < mb_base b + mb_size b" "mb_base b + mb_size b \<le> USIZE_MAX" unfolding pages_lawful_def by blast+
    then have n: "saturating_add (mb_base b) (mb_size b) = mb_base b + mb_size b" by (simp add: saturating_add_def)
    have "\<not> critical_walk G V n (mb_base b + mb_size b) stop" using lim Suc.prems by (intro Suc.IH) simp
    with b lt nb n show ?thesis by (subst critical_walk.simps) (simp add: Let_def)
  qed
qed

definition PAGE_READONLY :: u32 where "PAGE_READONLY = 0x02"

lemma readonly_first_passes:
  assumes "\<not> gs_in_hook s" and "is_current_process E h"
  shows "\<lbrakk>\<And>t. pages_lawful (g_mem E t); \<not> is_executable new_protect;
      \<And>t a b. page_floor addr \<le> a \<Longrightarrow> a < page_floor (saturating_add (saturating_add addr sz) 0xFFF) \<Longrightarrow>
        vw_query (g_mem E t) a = Some b \<Longrightarrow> \<not> is_executable (mb_protect b)\<rbrakk> \<Longrightarrow>
    fst (hook_nt_protect_virtual_memory E h (Some addr) (Some sz) new_protect status s) = Original status"
    and "verify_detours_or_die E KProtect PAGE_READONLY sz (s\<lparr>gs_time := gs_time s + 1\<rparr>) = None \<Longrightarrow>
      fst (hook_nt_protect_virtual_memory E h (Some addr) (Some sz) PAGE_READONLY status s) = Original status"
proof -
  assume l: "\<And>t. pages_lawful (g_mem E t)" and x: "\<not> is_executable new_protect"
    and d: "\<And>t a b. page_floor addr \<le> a \<Longrightarrow> a < page_floor (saturating_add (saturating_add addr sz) 0xFFF) \<Longrightarrow>
        vw_query (g_mem E t) a = Some b \<Longrightarrow> \<not> is_executable (mb_protect b)"
  have "\<not> overlaps_critical_exec (g_integrity E) (g_mem E t) addr sz" for t
    using walk_over_data [OF l d order_refl] by (simp add: overlaps_critical_exec_def Let_def)
  with assms x show "fst (hook_nt_protect_virtual_memory E h (Some addr) (Some sz) new_protect status s) = Original status"
    by (simp add: hook_nt_protect_virtual_memory_def protect_scan_phase_def protect_range_answer_def)
next
  assume v: "verify_detours_or_die E KProtect PAGE_READONLY sz (s\<lparr>gs_time := gs_time s + 1\<rparr>) = None"
  have "\<not> is_executable PAGE_READONLY" "\<not> grants_write PAGE_READONLY" by code_simp+
  with assms v show "fst (hook_nt_protect_virtual_memory E h (Some addr) (Some sz) PAGE_READONLY status s) = Original status"
    by (simp add: hook_nt_protect_virtual_memory_def protect_scan_phase_def protect_range_answer_def critical_range_response_def Let_def)
qed

text \<open>The walk stops after 4096 regions: what lies behind them is not seen, and the request passes.\<close>

definition fragmented_view :: view where
  "fragmented_view = nop_view\<lparr>vw_query := (\<lambda>a. Some \<lparr>mb_base = page_floor a, mb_size = 4096, mb_state = MEM_COMMIT,
     mb_protect = (if a < 4097 * 4096 then PAGE_READWRITE else PAGE_EXECUTE_READ),
     mb_type = (if a < 4097 * 4096 then 0x20000 else MEM_IMAGE)\<rparr>)\<rparr>"

lemma walk_over_plain:
  "a mod 4096 = 0 \<Longrightarrow> a + n * 4096 \<le> 4097 * 4096 \<Longrightarrow> \<not> critical_walk G fragmented_view n a stop"
proof (induction n arbitrary: a)
  case 0
  then show ?case by (simp add: critical_walk.simps)
next
  case (Suc n)
  have f: "page_floor a = a" using Suc.prems(1) by (simp add: page_floor_def PAGE_SIZE_def)
  have lt: "a < 4097 * 4096" using Suc.prems(2) by simp
  obtain b where q: "vw_query fragmented_view a = Some b" and b: "mb_base b = a" "mb_size b = 4096" "mb_type b = 0x20000"
    using lt f by (simp add: fragmented_view_def)
  have nb: "\<not> critical_block G fragmented_view a b" by (simp add: critical_block_def b(3) MEM_IMAGE_def)
  have s: "saturating_add a 4096 = a + 4096" using lt by (simp add: saturating_add_def USIZE_MAX_def)
  have "\<not> critical_walk G fragmented_view n (a + 4096) stop" using Suc.prems by (intro Suc.IH) auto
  then show ?case
    by (subst critical_walk.simps) (simp add: q b nb s Let_def)
qed

lemma walk_gives_up_after_4096_regions:
  "\<not> overlaps_critical_exec G fragmented_view 4096 (4097 * 4096) \<and>
   (ig_own_span G = Some (0, USIZE_MAX) \<longrightarrow> critical_page G fragmented_view (4097 * 4096))"
proof
  have "page_floor 4096 = 4096" by (simp add: page_floor_def PAGE_SIZE_def)
  then show "\<not> overlaps_critical_exec G fragmented_view 4096 (4097 * 4096)"
    using walk_over_plain [of 4096 4096 G] by (simp add: overlaps_critical_exec_def Let_def)
  have x: "is_executable PAGE_EXECUTE_READ" by code_simp
  show "ig_own_span G = Some (0, USIZE_MAX) \<longrightarrow> critical_page G fragmented_view (4097 * 4096)"
    by (simp add: critical_page_def fragmented_view_def x USIZE_MAX_def)
qed

section \<open>Other processes\<close>

text \<open>C26: outside a hook window, a call of the guest on a process that is neither itself nor a child it owns, a handle that
  cannot be resolved included, is stopped when it maps or unmaps a view, whatever the protection (refused), writes memory (ends
  the guest), or asks for executable memory by a protection or, outside a nested allocation, by an allocation through either
  export (ends the guest). Allocations and protections without execute access are let through by design.\<close>

theorem foreign_process_untouched:
  assumes "\<not> gs_in_hook s" and "\<not> is_current_process E h" and "\<not> owned_child E s (g_process_id E h)"
    and "g_process_id E h \<noteq> g_self_pid E"
  shows "fst (hook_nt_unmap_view_of_section E h status s) = AccessDenied \<and>
     fst (hook_nt_map_view_of_section E sec h view_protect r s) = AccessDenied \<and>
     fst (hook_nt_write_virtual_memory E h addr sz status s) = Terminated KWrite 0 sz addr \<and>
     (is_executable protect \<longrightarrow>
        fst (hook_nt_protect_virtual_memory E h (Some addr) (Some sz) protect status s) = Terminated KProtect protect sz addr \<and>
        (gs_alloc_slot s = Some False \<longrightarrow>
           fst (hook_nt_allocate_virtual_memory E h (Some addr) (Some sz) protect status s) = Terminated KAllocate protect sz addr \<and>
           fst (hook_nt_allocate_virtual_memory_ex E h (Some addr) (Some sz) protect status s) = Terminated KAllocate protect sz addr))"
proof -
  have "h \<noteq> CurrentProcess" using assms(2) by (auto simp: is_current_process_def)
  moreover have "owned_child E (s\<lparr>gs_alloc_slot := Some True\<rparr>) pid = owned_child E s pid" for pid by (simp add: owned_child_def)
  ultimately show ?thesis
    using assms by (simp add: hook_nt_unmap_view_of_section_def hook_nt_map_view_of_section_def hook_nt_write_virtual_memory_def
        hook_nt_protect_virtual_memory_def hook_nt_allocate_virtual_memory_def hook_nt_allocate_virtual_memory_ex_def
        unmap_foreign_denied_def map_foreign_denied_def foreign_write_decision_def Let_def protect_foreign_exec_kill_def
        alloc_anti_rec_enter_def alloc_kill_gate_def alloc_decision_kill_required_def)
qed

lemma foreign_process_untouched_witness:
  "fst (hook_nt_write_virtual_memory nop_env (Handle 5) 4096 16 0 (nop_state\<lparr>gs_alloc_slot := Some False\<rparr>)) = Terminated KWrite 0 16 4096 \<and>
   fst (hook_nt_unmap_view_of_section nop_env (Handle 5) 0 (nop_state\<lparr>gs_alloc_slot := Some False\<rparr>)) = AccessDenied \<and>
   fst (hook_nt_allocate_virtual_memory nop_env (Handle 5) (Some 4096) (Some 16) PAGE_EXECUTE 0 (nop_state\<lparr>gs_alloc_slot := Some False\<rparr>)) =
     Terminated KAllocate PAGE_EXECUTE 16 4096"
proof -
  have x: "is_executable PAGE_EXECUTE" by code_simp
  show ?thesis
    using foreign_process_untouched [of "nop_state\<lparr>gs_alloc_slot := Some False\<rparr>" nop_env "Handle 5" 0 NullHandle 4
        "\<lparr>mp_status = 0, mp_base = None, mp_size = None\<rparr>" 4096 16 PAGE_EXECUTE] x
    by (simp add: nop_env_def nop_state_def is_current_process_def owned_child_def is_owned_child_def)
qed

text \<open>Under \<^verbatim>\<open>--guard static\<close> the own process gets no memory that is writable and executable at once, through either export;
  the other levels allow it, which just-in-time compilers need.\<close>

lemma own_rwx_allocation:
  assumes "gs_alloc_slot s = Some False" and "\<not> gs_in_hook s" and "is_current_process E h" and "is_rwx protect" and "\<not> g_allow_rwx E"
  shows "fst (hook_nt_allocate_virtual_memory E h (Some addr) (Some sz) protect status s) =
       (if is_static_mode E then Terminated KAllocate protect sz addr else Original status)"
    and "fst (hook_nt_allocate_virtual_memory_ex E h (Some addr) (Some sz) protect status s) =
       (if is_static_mode E then Terminated KAllocate protect sz addr else Original status)"
  using assms by (simp_all add: hook_nt_allocate_virtual_memory_def hook_nt_allocate_virtual_memory_ex_def
      alloc_anti_rec_enter_def alloc_kill_gate_def alloc_decision_kill_required_def)

section \<open>Mapped views\<close>

definition view_is_image :: "guard_env \<Rightarrow> guard_state \<Rightarrow> handle \<Rightarrow> nat \<Rightarrow> bool" where
  "view_is_image E s sec m \<longleftrightarrow> is_image_mapping (g_mem E (gs_time s + 1)) m \<or> is_section_image_backed E sec"

definition view_protect :: "guard_env \<Rightarrow> guard_state \<Rightarrow> u32 \<Rightarrow> nat \<Rightarrow> u32" where
  "view_protect E s p m = or p (case vw_query (g_mem E (gs_time s + 1)) m of Some b \<Rightarrow> mb_protect b | None \<Rightarrow> 0)"

text \<open>At guard level \<^verbatim>\<open>scan\<close> the hook of \<^verbatim>\<open>NtMapViewOfSection\<close> lets a view of the own process stand exactly when
  \<^verbatim>\<open>decide_mapview_protection\<close> allows it and it is no second image of a critical library; a view that does not stand ends
  the process.\<close>

theorem mapped_view_matches_policy:
  assumes "is_current_process E h" and "\<not> gs_in_hook s" and "g_mode E = Some ''scan''" and "0 \<le> mp_status r"
    and "mp_base r = Some m" and "m \<noteq> 0"
  shows "(fst (hook_nt_map_view_of_section E sec h p r s) = Original (mp_status r)) =
     (decide_mapview_protection (view_is_image E s sec m) (get_mapped_file_path (g_mem E (gs_time s + 1)) m \<noteq> None) (view_protect E s p m) \<and>
      \<not> (view_is_image E s sec m \<and>
          list_ex (\<lambda>d. get_mapped_file_basename (g_mem E (gs_time s + 1)) m = Some d) CRITICAL_DLLS))"
proof -
  have nf: "\<not> (is_full_mode E \<or> is_static_mode E)" using assms(3) by (simp add: is_full_mode_def is_static_mode_def)
  show ?thesis
  proof (cases "view_is_image E s sec m")
    case True
    have "(fst (hook_nt_map_view_of_section E sec h p r s) = Original (mp_status r)) =
        (map_image_checks E (g_mem E (gs_time s + 1)) p r m = Original (mp_status r))"
      using True assms by (auto simp: hook_nt_map_view_of_section_def view_is_image_def Let_def)
    also have "\<dots> = (\<not> list_ex (\<lambda>d. get_mapped_file_basename (g_mem E (gs_time s + 1)) m = Some d) CRITICAL_DLLS)"
      using nf by (auto simp: map_image_checks_def is_critical_dll_def list_ex_iff split: option.splits)
    finally show ?thesis using True by (simp add: decide_mapview_protection_def)
  next
    case False
    have "(fst (hook_nt_map_view_of_section E sec h p r s) = Original (mp_status r)) =
        (map_plain_checks E (g_mem E (gs_time s + 1)) p r m = Original (mp_status r))"
      using False assms by (auto simp: hook_nt_map_view_of_section_def view_is_image_def Let_def)
    also have "\<dots> = (is_executable (view_protect E s p m) \<longrightarrow> get_mapped_file_path (g_mem E (gs_time s + 1)) m \<noteq> None)"
      using nf by (auto simp: map_plain_checks_def view_protect_def Let_def)
    finally show ?thesis using False by (simp add: decide_mapview_protection_def)
  qed
qed

lemma mapped_view_matches_policy_witness:
  "(fst (hook_nt_map_view_of_section (nop_env\<lparr>g_mode := Some ''scan''\<rparr>) NullHandle CurrentProcess PAGE_EXECUTE_READ
      \<lparr>mp_status = 0, mp_base = Some 4096, mp_size = Some 4096\<rparr> nop_state) \<noteq> Original 0)"
proof -
  let ?E = "nop_env\<lparr>g_mode := Some ''scan''\<rparr>"
  have v: "\<not> view_is_image ?E nop_state NullHandle 4096" "get_mapped_file_path (g_mem ?E (gs_time nop_state + 1)) 4096 = None"
    "view_protect ?E nop_state PAGE_EXECUTE_READ 4096 = PAGE_EXECUTE_READ"
    by (simp_all add: view_is_image_def is_image_mapping_def is_section_image_backed_def nop_env_def nop_view_def
        get_mapped_file_path_def view_protect_def)
  have x: "is_executable PAGE_EXECUTE_READ" by code_simp
  show ?thesis
    using mapped_view_matches_policy [of ?E CurrentProcess nop_state "\<lparr>mp_status = 0, mp_base = Some 4096, mp_size = Some 4096\<rparr>" 4096 NullHandle PAGE_EXECUTE_READ] v x
    by (simp add: nop_state_def is_current_process_def decide_mapview_protection_def)
qed

text \<open>At the levels \<^verbatim>\<open>full\<close> and \<^verbatim>\<open>static\<close> every executable section of an image that is not a system file and whose publisher is
  not trusted was scanned without a hit, as far as it lies in the view.\<close>

lemma scan_sections_all:
  "scan_sections E V p r base n secs = None \<Longrightarrow> sec \<in> set secs \<Longrightarrow> ps_virtual_address sec < n \<Longrightarrow> 0 < ps_virtual_size sec \<Longrightarrow>
     \<not> fst (region_has_direct_syscalls (g_scan E)
          (vw_bytes V (base + ps_virtual_address sec) (min (ps_virtual_size sec) (n - ps_virtual_address sec)))
          (base + ps_virtual_address sec) False Map.empty)"
proof (induction secs)
  case (Cons s secs)
  then show ?case by (auto simp: Let_def split: if_splits)
qed simp

lemma scan_sections_untrusted: "scan_sections E V p r base n secs = Some v \<Longrightarrow> \<not> g_publisher_trusted E base \<Longrightarrow> v \<noteq> Original st"
  by (induction secs) (auto simp: Let_def split: if_splits)

lemma image_sections_scanned:
  assumes m: "map_image_checks E V p r base = Original (mp_status r)" and l: "is_full_mode E \<or> is_static_mode E"
    and f: "get_mapped_file_basename V base \<noteq> None" "get_mapped_file_path V base = Some path"
      "\<not> is_system_dll_path (ig_ntdll_path (g_integrity E)) path"
    and n: "mp_size r = Some n" "64 \<le> n" and t: "\<not> g_publisher_trusted E base"
    and sec: "sec \<in> set (pe_executable_sections (vw_bytes V base (min n 4096)))" "ps_virtual_address sec < n" "0 < ps_virtual_size sec"
  shows "\<not> fst (region_has_direct_syscalls (g_scan E)
       (vw_bytes V (base + ps_virtual_address sec) (min (ps_virtual_size sec) (n - ps_virtual_address sec)))
       (base + ps_virtual_address sec) False Map.empty)"
proof -
  let ?secs = "pe_executable_sections (vw_bytes V base (min n 4096))"
  obtain name where b: "get_mapped_file_basename V base = Some name" using f(1) by blast
  have nc: "\<not> is_critical_dll name" using m b by (auto simp: map_image_checks_def split: if_splits)
  have eq: "map_image_checks E V p r base = (case scan_sections E V p r base n ?secs of Some v \<Rightarrow> v | None \<Rightarrow> Original (mp_status r))"
  proof -
    have "\<not> min n 4096 < 64" using n(2) by simp
    then show ?thesis using b nc l f n by (simp add: map_image_checks_def Let_def)
  qed
  have "scan_sections E V p r base n ?secs = None"
  proof (cases "scan_sections E V p r base n ?secs")
    case (Some v)
    with eq m have "v = Original (mp_status r)" by simp
    with scan_sections_untrusted [OF Some t, of "mp_status r"] show ?thesis by simp
  qed
  from scan_sections_all [OF this sec] show ?thesis .
qed

text \<open>Only the first 4096 bytes of the view are parsed. An image whose section table ends behind them has no sections for the
  scan, and is mapped unscanned.\<close>

lemma headers_behind_first_page_unscanned:
  assumes "section_table (vw_bytes V base (min n 4096)) = None" and "mp_size r = Some n"
    and "get_mapped_file_basename V base = Some name" and "\<not> is_critical_dll name"
  shows "map_image_checks E V p r base = Original (mp_status r)"
proof -
  have "pe_executable_sections (vw_bytes V base (min n 4096)) = []" using assms(1) by (simp add: pe_executable_sections_def pe_sections_def)
  with assms show ?thesis by (auto simp: map_image_checks_def Let_def split: option.splits)
qed

lemma e_lfanew_behind_first_page: "read_u32_le buf 0x3C = Some e \<Longrightarrow> length buf \<le> 4096 \<Longrightarrow> 4093 \<le> e \<Longrightarrow> section_table buf = None"
proof -
  assume e: "read_u32_le buf 0x3C = Some e" and l: "length buf \<le> 4096" "4093 \<le> e"
  then have "read_u32_le buf e = None" by (simp add: read_u32_le_def)
  with e show ?thesis by (simp add: section_table_def)
qed

text \<open>A section that gives its virtual size as zero is skipped; the loader then maps its raw size.\<close>

lemma zero_virtual_size_skipped:
  "ps_virtual_size sec = 0 \<Longrightarrow> scan_sections E V p r base n [sec] = None"
  by (simp add: Let_def)

section \<open>Chunks lose the instruction boundaries\<close>

text \<open>Every chunk is decoded from its own start, which need not be the start of an instruction. Here the instructions
  \<^verbatim>\<open>mov rax, imm64\<close> from the start of the region lead to a \<^verbatim>\<open>syscall\<close> at offset 100; their immediates hold a second chain of the
  same instruction, which the second chunk follows, and which swallows the \<^verbatim>\<open>syscall\<close>. One sweep over the region reports
  it, the chunked scan does not. The guarded scan has such boundaries every 16 KiB.\<close>

definition chain_decoder :: decoder where
  "chain_decoder ip bs =
     (if starts_with bs [0x48, 0xb8] then (plain_instruction MMov 0, 10)
      else if starts_with bs [0x0f, 0x05] then (plain_instruction MSyscall 0, 2)
      else (plain_instruction MOther 0, 1))"

definition chain_region :: "u8 list" where
  "chain_region = concat (replicate 10 [0x48, 0xb8, 0x48, 0xb8, 0x90, 0x90, 0x90, 0x90, 0x90, 0x90]) @ [0x0f, 0x05]"

lemma chain_one_sweep: "has_direct_syscall_strict chain_decoder chain_region 0"
  by code_simp

lemma chain_first_chunk: "\<not> has_direct_syscall_strict chain_decoder (take 67 chain_region) 0"
  by code_simp

lemma chain_second_chunk: "\<not> has_direct_syscall_strict chain_decoder (drop 52 chain_region) 52"
  by code_simp

lemma chain_chunks: "region_chunks 0 52 0 chain_region = [(0, take 67 chain_region), (52, drop 52 chain_region)]"
proof -
  have l: "length chain_region = 102" by code_simp
  have a: "chunk_at 52 0 chain_region = take 67 chain_region" "chunk_at 52 52 chain_region = drop 52 chain_region"
    by (simp_all add: chunk_at_def l SCAN_CHUNK_OVERLAP_def)
  show ?thesis by (simp add: region_chunks_step region_chunks_stop l a)
qed

lemma chunked_scan_misses:
  "has_direct_syscall_strict chain_decoder chain_region 0 \<and>
   fst (region_scan (nop_scan\<lparr>sc_decoder := chain_decoder\<rparr>) 0 False 52 True 0 chain_region Map.empty) = False"
  using chain_one_sweep chain_first_chunk chain_second_chunk by (simp add: region_scan_uncached scan_chunk_def chain_chunks)

end
