(* ===== verification/InjectGuard.thy ===== *)
theory InjectGuard
  imports MemGuard
begin

text \<open>
  The injection guard of a guest process (\<^verbatim>\<open>winrsbox-hook/src/memory/inject_guard.rs\<close>): the hooks of \<^verbatim>\<open>NtCreateThread(Ex)\<close>,
  \<^verbatim>\<open>NtQueueApcThread(Ex)\<close> and \<^verbatim>\<open>NtSetContextThread\<close> with their three filters. The answers of the kernel about handles, stack
  frames and modules are fields of the environment.
\<close>

section \<open>Stack frames\<close>

definition SYSTEM_DLLS :: "string list" where
  "SYSTEM_DLLS = [''ntdll.dll'', ''kernel32.dll'', ''kernelbase.dll'', ''ucrtbase.dll'', ''ucrtbased.dll'', ''msvcrt.dll'',
     ''apphelp.dll'', ''rpcrt4.dll'']"

definition SYSTEM_PID_THRESHOLD :: u32 where "SYSTEM_PID_THRESHOLD = 200"

text \<open>\<^verbatim>\<open>verified_system_dir_prefix\<close>: of the path of the module that exports \<^verbatim>\<open>NtCreateThreadEx\<close>. The slice up to and with the last
  separator gets one more separator appended.\<close>

definition verified_system_dir_prefix :: "string option \<Rightarrow> string option" where
  "verified_system_dir_prefix ntdll_module =
     (case ntdll_module of None \<Rightarrow> None | Some path \<Rightarrow>
        (case rsplit_once bslash (to_ascii_lowercase path) of
           None \<Rightarrow> None
         | Some (a, b) \<Rightarrow> Some ((a @ [bslash]) @ [bslash])))"

definition frame_is_trusted :: "string \<Rightarrow> string option \<Rightarrow> string option \<Rightarrow> bool" where
  "frame_is_trusted path_lower hook_image system_dir =
     (if hook_image = Some path_lower then True
      else (let basename = (case rsplit_once bslash path_lower of Some (_, b) \<Rightarrow> b | None \<Rightarrow> path_lower)
            in if basename \<in> set SYSTEM_DLLS
               then (case system_dir of None \<Rightarrow> False | Some dir \<Rightarrow> starts_with path_lower dir)
               else False))"

record inject_env =
  i_self_pid :: u32
  i_process_id :: "handle \<Rightarrow> u32"
  i_thread_info :: "handle \<Rightarrow> u32 option"
  i_hook_image :: "string option"
  i_ntdll_module :: "string option"
  i_module_path :: "nat \<Rightarrow> string option"
  i_in_module :: "nat \<Rightarrow> bool"

record inject_state =
  is_armed :: bool
  is_in_hook :: bool

definition arm :: "inject_state \<Rightarrow> inject_state" where
  "arm s = s\<lparr>is_armed := True\<rparr>"

text \<open>\<^verbatim>\<open>stack_is_system\<close>: every frame lies in a trusted module; an empty stack does not count.\<close>

fun frames_trusted :: "inject_env \<Rightarrow> nat list \<Rightarrow> bool" where
  "frames_trusted E [] = True"
| "frames_trusted E (pc # pcs) =
     (case i_module_path E pc of
        None \<Rightarrow> False
      | Some p \<Rightarrow>
          if \<not> frame_is_trusted (to_ascii_lowercase p) (i_hook_image E) (verified_system_dir_prefix (i_ntdll_module E)) then False
          else frames_trusted E pcs)"

definition stack_is_system :: "inject_env \<Rightarrow> nat list \<Rightarrow> bool" where
  "stack_is_system E stack = (if stack = [] then False else frames_trusted E stack)"

section \<open>Targets\<close>

definition is_system_pid :: "u32 \<Rightarrow> bool" where
  "is_system_pid pid \<longleftrightarrow> pid < SYSTEM_PID_THRESHOLD"

definition is_self_process :: "inject_env \<Rightarrow> handle \<Rightarrow> bool" where
  "is_self_process E h =
     (if h = CurrentProcess then True
      else if h = NullHandle then False
      else (let target_pid = i_process_id E h in target_pid \<noteq> 0 \<and> target_pid = i_self_pid E))"

text \<open>\<^verbatim>\<open>thread_owner_pid\<close>: zero when the handle is null or the query fails.\<close>

definition thread_owner_pid :: "inject_env \<Rightarrow> handle \<Rightarrow> u32" where
  "thread_owner_pid E h = (if h = NullHandle then 0 else unwrap_or (i_thread_info E h) 0)"

definition should_block :: "inject_env \<Rightarrow> inject_state \<Rightarrow> nat list \<Rightarrow> u32 \<Rightarrow> bool" where
  "should_block E s stack target_pid =
     (if \<not> is_armed s then False
      else if is_system_pid target_pid then False
      else if stack_is_system E stack then False
      else True)"

section \<open>The hooks\<close>

datatype guard_inject_kind = CreateRemoteThread | QueueApc | ContextHijack

datatype inject_verdict = Passed | Reported guard_inject_kind u32 nat

definition hook_nt_create_thread_ex :: "inject_env \<Rightarrow> nat list \<Rightarrow> handle \<Rightarrow> nat \<Rightarrow> inject_state \<Rightarrow> inject_verdict" where
  "hook_nt_create_thread_ex E stack process_handle start_routine s =
     (if is_in_hook s then Passed
      else if \<not> is_self_process E process_handle
      then (let target_pid = i_process_id E process_handle
            in if should_block E s stack target_pid then Reported CreateRemoteThread target_pid start_routine else Passed)
      else Passed)"

definition hook_nt_create_thread :: "inject_env \<Rightarrow> nat list \<Rightarrow> handle \<Rightarrow> nat \<Rightarrow> inject_state \<Rightarrow> inject_verdict" where
  "hook_nt_create_thread E stack process_handle thread_context s =
     (if is_in_hook s then Passed
      else if \<not> is_self_process E process_handle
      then (let target_pid = i_process_id E process_handle
            in if should_block E s stack target_pid then Reported CreateRemoteThread target_pid thread_context else Passed)
      else Passed)"

text \<open>\<^verbatim>\<open>NtQueueApcThread\<close> and \<^verbatim>\<open>NtQueueApcThreadEx\<close> have the same body.\<close>

definition hook_nt_queue_apc_thread :: "inject_env \<Rightarrow> nat list \<Rightarrow> handle \<Rightarrow> nat \<Rightarrow> inject_state \<Rightarrow> inject_verdict" where
  "hook_nt_queue_apc_thread E stack thread_handle apc_routine s =
     (if is_in_hook s then Passed
      else (let owner_pid = thread_owner_pid E thread_handle
            in if owner_pid \<noteq> 0 \<and> owner_pid \<noteq> i_self_pid E
               then (if should_block E s stack owner_pid then Reported QueueApc owner_pid apc_routine else Passed)
               else Passed))"

definition CONTEXT_CONTROL :: u32 where "CONTEXT_CONTROL = 0x100001"
definition CONTEXT_DEBUG_REGISTERS :: u32 where "CONTEXT_DEBUG_REGISTERS = 0x100010"
definition CTX_FLAGS_OFFSET :: nat where "CTX_FLAGS_OFFSET = 0x30"
definition CTX_RIP_OFFSET :: nat where "CTX_RIP_OFFSET = 0xF8"
definition CTX_DR0_OFFSET :: nat where "CTX_DR0_OFFSET = 0x350"
definition CTX_DR7_OFFSET :: nat where "CTX_DR7_OFFSET = 0x370"

text \<open>The \<^verbatim>\<open>CONTEXT\<close> record as its bytes; unaligned little-endian reads.\<close>

definition le_nat :: "u8 list \<Rightarrow> nat" where
  "le_nat bs = foldr (\<lambda>b n. unat b + 256 * n) bs 0"

definition read_ctx_u32 :: "u8 list \<Rightarrow> nat \<Rightarrow> u32" where
  "read_ctx_u32 ctx off = of_nat (le_nat (take 4 (drop off ctx)))"

definition read_ctx_u64 :: "u8 list \<Rightarrow> nat \<Rightarrow> u64" where
  "read_ctx_u64 ctx off = of_nat (le_nat (take 8 (drop off ctx)))"

definition context_control_check :: "inject_env \<Rightarrow> u32 \<Rightarrow> u8 list \<Rightarrow> u32 \<Rightarrow> inject_verdict option" where
  "context_control_check E owner_pid ctx flags =
     (if and flags CONTEXT_CONTROL \<noteq> 0
      then (let rip = unat (read_ctx_u64 ctx CTX_RIP_OFFSET)
            in if rip \<noteq> 0 \<and> \<not> i_in_module E rip then Some (Reported ContextHijack owner_pid rip) else None)
      else None)"

definition context_debug_check :: "inject_env \<Rightarrow> u32 \<Rightarrow> u8 list \<Rightarrow> u32 \<Rightarrow> inject_verdict option" where
  "context_debug_check E owner_pid ctx flags =
     (if and flags CONTEXT_DEBUG_REGISTERS \<noteq> 0
      then (let dr7 = read_ctx_u64 ctx CTX_DR7_OFFSET
            in if and dr7 0x55 \<noteq> 0
               then (let dr0 = unat (read_ctx_u64 ctx CTX_DR0_OFFSET)
                     in if dr0 \<noteq> 0 \<and> \<not> i_in_module E dr0 then Some (Reported ContextHijack owner_pid dr0) else None)
               else None)
      else None)"

text \<open>A null pointer to the record is \<^verbatim>\<open>None\<close>.\<close>

definition hook_nt_set_context_thread :: "inject_env \<Rightarrow> nat list \<Rightarrow> handle \<Rightarrow> u8 list option \<Rightarrow> inject_state \<Rightarrow> inject_verdict" where
  "hook_nt_set_context_thread E stack thread_handle context_bytes s =
     (if is_in_hook s then Passed
      else (let owner_pid = thread_owner_pid E thread_handle
            in if owner_pid \<noteq> 0 \<and> owner_pid \<noteq> i_self_pid E \<and> should_block E s stack owner_pid
               then (case context_bytes of
                       None \<Rightarrow> Passed
                     | Some ctx \<Rightarrow>
                         (let flags = read_ctx_u32 ctx CTX_FLAGS_OFFSET
                          in case context_control_check E owner_pid ctx flags of
                               Some v \<Rightarrow> v
                             | None \<Rightarrow> (case context_debug_check E owner_pid ctx flags of Some v \<Rightarrow> v | None \<Rightarrow> Passed)))
               else Passed))"

section \<open>What is blocked\<close>

lemma frames_trusted_all:
  "frames_trusted E stack \<longleftrightarrow>
     (\<forall>pc \<in> set stack. \<exists>p. i_module_path E pc = Some p \<and>
        frame_is_trusted (to_ascii_lowercase p) (i_hook_image E) (verified_system_dir_prefix (i_ntdll_module E)))"
  by (induction stack) (auto split: option.splits)

text \<open>A module is trusted only as the hook library itself or by its name together with its directory.\<close>

lemma trusted_frame:
  "frame_is_trusted p hook_image dir \<Longrightarrow> hook_image = Some p \<or> (\<exists>d. dir = Some d \<and> starts_with p d)"
  by (auto simp: frame_is_trusted_def Let_def split: if_splits option.splits)

text \<open>The directory prefix ends in two separators, so it is no prefix of a path without an empty component: no system library is
  ever recognised, and only a stack inside the hook library itself passes as system code.\<close>

lemma no_double_separator: "[] \<notin> set (tl (split_by (\<lambda>c. c = bslash) p)) \<Longrightarrow> \<not> starts_with p ((a @ [bslash]) @ [bslash])"
proof
  assume n: "[] \<notin> set (tl (split_by (\<lambda>c. c = bslash) p))" and "starts_with p ((a @ [bslash]) @ [bslash])"
  then obtain r where p: "p = a @ bslash # bslash # r" by (auto simp: starts_with_iff)
  have "split_by (\<lambda>c. c = bslash) p = split_by (\<lambda>c. c = bslash) a @ [] # split_by (\<lambda>c. c = bslash) r"
    unfolding p by (simp add: split_by_append_sep)
  with n show False by (cases "split_by (\<lambda>c. c = bslash) a") auto
qed

lemma system_frame_never_trusted:
  assumes "[] \<notin> set (tl (split_by (\<lambda>c. c = bslash) p))" and "hook_image \<noteq> Some p"
  shows "\<not> frame_is_trusted p hook_image (verified_system_dir_prefix ntdll_module)"
proof
  assume "frame_is_trusted p hook_image (verified_system_dir_prefix ntdll_module)"
  from trusted_frame [OF this] assms(2) obtain d where d: "verified_system_dir_prefix ntdll_module = Some d" "starts_with p d" by blast
  then obtain a where "d = (a @ [bslash]) @ [bslash]" by (auto simp: verified_system_dir_prefix_def split: option.splits)
  with d no_double_separator [OF assms(1)] show False by blast
qed

lemma ntdll_frame_untrusted:
  "\<not> frame_is_trusted (win ''c:|windows|system32|ntdll.dll'') None (verified_system_dir_prefix (Some (win ''C:|Windows|System32|ntdll.dll'')))"
  by code_simp

text \<open>An armed guard ends the process for a remote thread or a queued routine in any resolvable process above the threshold, unless
  the whole stack is trusted.\<close>

definition guest_stack :: "inject_env \<Rightarrow> nat list \<Rightarrow> bool" where
  "guest_stack E stack \<longleftrightarrow>
     stack = [] \<or> list_ex (\<lambda>pc. case i_module_path E pc of
        None \<Rightarrow> True
      | Some p \<Rightarrow> \<not> frame_is_trusted (to_ascii_lowercase p) (i_hook_image E) (verified_system_dir_prefix (i_ntdll_module E))) stack"

lemma guest_stack_blocks: "guest_stack E stack \<Longrightarrow> \<not> stack_is_system E stack"
  by (auto simp: guest_stack_def stack_is_system_def frames_trusted_all list_ex_iff split: option.splits)

lemma remote_thread_blocked:
  assumes "is_armed s" and "\<not> is_in_hook s" and "guest_stack E stack" and "\<not> is_self_process E h"
    and "SYSTEM_PID_THRESHOLD \<le> i_process_id E h"
  shows "hook_nt_create_thread_ex E stack h start s = Reported CreateRemoteThread (i_process_id E h) start \<and>
     hook_nt_create_thread E stack h start s = Reported CreateRemoteThread (i_process_id E h) start"
  using assms guest_stack_blocks [OF assms(3)]
  by (simp add: hook_nt_create_thread_ex_def hook_nt_create_thread_def should_block_def is_system_pid_def not_less Let_def)

lemma foreign_apc_blocked:
  assumes "is_armed s" and "\<not> is_in_hook s" and "guest_stack E stack" and "thread_owner_pid E h \<noteq> i_self_pid E"
    and "SYSTEM_PID_THRESHOLD \<le> thread_owner_pid E h"
  shows "hook_nt_queue_apc_thread E stack h routine s = Reported QueueApc (thread_owner_pid E h) routine"
proof -
  have "thread_owner_pid E h \<noteq> 0" using assms(5) by (auto simp: SYSTEM_PID_THRESHOLD_def)
  with assms guest_stack_blocks [OF assms(3)] show ?thesis
    by (simp add: hook_nt_queue_apc_thread_def should_block_def is_system_pid_def not_less Let_def)
qed

text \<open>Both thread exports and the routine hook together: with the guard armed, a call whose stack does not consist of trusted frames
  (\<open>guest_stack\<close>; the frames of system libraries count as untrusted, by \<open>system_frame_never_trusted\<close>) and that names a
  foreign process or thread whose id resolves to at least \<open>SYSTEM_PID_THRESHOLD\<close> is reported and ends the guest.\<close>

theorem injection_blocked:
  assumes "is_armed s" and "\<not> is_in_hook s" and "guest_stack E stack" and "\<not> is_self_process E h"
    and "SYSTEM_PID_THRESHOLD \<le> i_process_id E h" and "thread_owner_pid E th \<noteq> i_self_pid E" and "SYSTEM_PID_THRESHOLD \<le> thread_owner_pid E th"
  shows "hook_nt_create_thread_ex E stack h start s = Reported CreateRemoteThread (i_process_id E h) start \<and>
     hook_nt_create_thread E stack h start s = Reported CreateRemoteThread (i_process_id E h) start \<and>
     hook_nt_queue_apc_thread E stack th routine s = Reported QueueApc (thread_owner_pid E th) routine"
  using remote_thread_blocked [OF assms(1-5)] foreign_apc_blocked [OF assms(1-3,6,7)] by blast

definition example_inject :: inject_env where
  "example_inject = \<lparr>i_self_pid = 5000, i_process_id = (\<lambda>h. case h of Handle n \<Rightarrow> of_nat n | _ \<Rightarrow> 0),
     i_thread_info = (\<lambda>h. case h of Handle n \<Rightarrow> Some (of_nat n) | _ \<Rightarrow> None), i_hook_image = Some (win ''c:|hook.dll''),
     i_ntdll_module = Some (win ''C:|Windows|System32|ntdll.dll''), i_module_path = (\<lambda>_. None), i_in_module = (\<lambda>_. False)\<rparr>"

lemma injection_blocked_witness:
  "hook_nt_create_thread_ex example_inject [1] (Handle 6000) 16 \<lparr>is_armed = True, is_in_hook = False\<rparr> = Reported CreateRemoteThread 6000 16 \<and>
   hook_nt_queue_apc_thread example_inject [1] (Handle 6000) 32 \<lparr>is_armed = True, is_in_hook = False\<rparr> = Reported QueueApc 6000 32"
  using injection_blocked [of "\<lparr>is_armed = True, is_in_hook = False\<rparr>" example_inject "[1]" "Handle 6000" "Handle 6000" 16 32]
  by (simp add: example_inject_def guest_stack_def is_self_process_def thread_owner_pid_def SYSTEM_PID_THRESHOLD_def)

text \<open>A handle that the kernel cannot resolve to an id (one with the right to create threads and no right to query) counts as
  a system process: the remote thread is created. The memory guard refuses such handles.\<close>

lemma unresolved_handle_passes:
  "i_process_id E h = 0 \<Longrightarrow> hook_nt_create_thread_ex E stack h start s = Passed"
  by (simp add: hook_nt_create_thread_ex_def should_block_def is_system_pid_def SYSTEM_PID_THRESHOLD_def)

lemma unresolved_thread_passes:
  "thread_owner_pid E h = 0 \<Longrightarrow> hook_nt_queue_apc_thread E stack h routine s = Passed \<and> hook_nt_set_context_thread E stack h ctx s = Passed"
  by (simp add: hook_nt_queue_apc_thread_def hook_nt_set_context_thread_def Let_def)

text \<open>Only the first debug register is compared, whichever of the four is enabled.\<close>

lemma second_debug_register_unchecked:
  "unat (read_ctx_u64 ctx CTX_DR0_OFFSET) = 0 \<Longrightarrow> context_debug_check E pid ctx flags = None"
  by (simp add: context_debug_check_def Let_def)

text \<open>The flag word of every context record has the architecture bit, which both flag constants contain.\<close>

lemma architecture_bit_selects_all:
  "and flags 0x100000 \<noteq> 0 \<Longrightarrow> and flags CONTEXT_CONTROL \<noteq> 0 \<and> and flags CONTEXT_DEBUG_REGISTERS \<noteq> 0"
proof -
  assume a: "and flags 0x100000 \<noteq> (0 :: u32)"
  have c: "CONTEXT_CONTROL = or 0x100000 1" and d: "CONTEXT_DEBUG_REGISTERS = or 0x100000 0x10"
    by (simp_all add: CONTEXT_CONTROL_def CONTEXT_DEBUG_REGISTERS_def)
  show ?thesis unfolding c d and_or_nonzero using a by blast
qed

end
