(* ===== verification/GuestCache.thy ===== *)
theory GuestCache
  imports Policy
begin

text \<open>
  Decisions in a guest process: the cache of the hook library (\<^verbatim>\<open>winrsbox-hook/src/core/cache.rs\<close>), the question to the
  launcher with its fail-stop (\<^verbatim>\<open>ipc_decide\<close> in \<^verbatim>\<open>ipc/ipc_client/mod.rs\<close>), \<^verbatim>\<open>decide\<close> of \<^verbatim>\<open>core/hooks/mod.rs\<close>, and the
  registry of published overlay paths (\<^verbatim>\<open>fs/fs_hooks/mod.rs\<close>). The answers of the launcher and of the operating system are
  those of the moment a question is put: every question takes one unit of time.
\<close>

section \<open>The world around a guest\<close>

text \<open>
  What a query about a name finds without following its last component; what \<^verbatim>\<open>create_new\<close> answers; and what
  the creation of one directory answers, with the error for a missing parent told apart from the others.
\<close>

datatype md_answer = Found file_meta | NotFound | QueryFailed

datatype create_answer = Created | AlreadyExists | CreateFailed

datatype mkdir_answer = DirMade | ParentMissing | MkdirFailed

text \<open>\<^verbatim>\<open>GetLongPathNameW\<close>: the expanded name, a missing name, or another failure.\<close>

datatype long_name = Expanded string | MissingName | NoLongName

text \<open>\<open>os_open\<close> is \<^verbatim>\<open>File::open\<close>: on success with what \<^verbatim>\<open>GetFinalPathNameByHandleW\<close> says about the handle; \<open>os_transfer\<close>
  is the transfer of the bytes into the new file, \<open>os_unc_alias\<close> the answer of \<^verbatim>\<open>short_name_alias_or_unknown\<close> for a UNC path.\<close>

record os_view =
  os_symlink_metadata :: "string \<Rightarrow> md_answer"
  os_exists :: "string \<Rightarrow> bool"
  os_canonicalize :: "string \<Rightarrow> string option"
  os_open :: "string \<Rightarrow> string option option"
  os_links :: "string \<Rightarrow> u32 option"
  os_mkdir :: "string \<Rightarrow> mkdir_answer"
  os_is_dir :: "string \<Rightarrow> bool"
  os_create_new :: "string \<Rightarrow> create_answer"
  os_transfer :: "string \<Rightarrow> bool"
  os_long_path :: "string \<Rightarrow> long_name"
  os_unc_alias :: "string \<Rightarrow> bool"

type_synonym hook_cache = "u64 \<rightharpoonup> string \<times> bool \<times> decision"
type_synonym publish_registry = "string \<rightharpoonup> unit"

text \<open>\<open>hk_hash\<close> is xxh3 on the bytes fed to it, \<open>hk_store\<close> and \<open>hk_mark\<close> the insertions of quick_cache, which may evict;
  \<open>hk_answer\<close> is the reply to \<^verbatim>\<open>Decide\<close>, nothing when the pipe fails or another message comes back; \<open>hk_sent\<close> tells whether a
  record was handed to the transport.\<close>

record hook_env = platform +
  hk_hash :: "string \<Rightarrow> u64"
  hk_store :: "hook_cache \<Rightarrow> u64 \<Rightarrow> string \<times> bool \<times> decision \<Rightarrow> hook_cache"
  hk_mark :: "publish_registry \<Rightarrow> string \<Rightarrow> publish_registry"
  hk_answer :: "nat \<Rightarrow> string \<Rightarrow> bool \<Rightarrow> decision option"
  hk_sent :: "nat \<Rightarrow> bool"
  hk_os :: "nat \<Rightarrow> os_view"

definition hook_stores_lawful :: "'e hook_env_scheme \<Rightarrow> bool" where
  "hook_stores_lawful E \<longleftrightarrow>
     (\<forall>c k d. hk_store E c k d \<subseteq>\<^sub>m c(k \<mapsto> d)) \<and> (\<forall>c p. hk_mark E c p \<subseteq>\<^sub>m c(p \<mapsto> ()))"

text \<open>What a guest does to the world: requests to the launcher, and changes of the disk by the hook library itself.\<close>

datatype effect =
    SentRecordOverlay string string
  | SentRecordCase string string
  | SentClearWhiteout string
  | SentViolation
  | MadeDir string
  | CreatedFile string
  | RemovedFile string

record guest =
  gu_time :: nat
  gu_cache :: hook_cache
  gu_published :: publish_registry
  gu_failures :: nat
  gu_ended :: bool
  gu_effects :: "(nat \<times> effect) list"

definition ask :: "(nat \<Rightarrow> 'a) \<Rightarrow> guest \<Rightarrow> 'a \<times> guest" where
  "ask q s = (q (gu_time s), s\<lparr>gu_time := Suc (gu_time s)\<rparr>)"

definition emit :: "effect \<Rightarrow> guest \<Rightarrow> guest" where
  "emit e s = s\<lparr>gu_effects := gu_effects s @ [(gu_time s, e)], gu_time := Suc (gu_time s)\<rparr>"

section \<open>The cache\<close>

definition write_byte :: "bool \<Rightarrow> char" where
  "write_byte write = (if write then CHR 0x01 else CHR 0x00)"

definition hook_key :: "'e hook_env_scheme \<Rightarrow> string \<Rightarrow> bool \<Rightarrow> u64" where
  "hook_key E dos_lower write = hk_hash E (dos_lower @ [write_byte write])"

text \<open>\<^verbatim>\<open>caseless_key\<close>: a long path is lowered and fed in pieces of 512 bytes; the hash sees the pieces one after the other.\<close>

function lower_chunks :: "string \<Rightarrow> string list" where
  "lower_chunks remaining =
     (if remaining = [] then []
      else (let chunk_len = min (length remaining) 512
            in to_ascii_lowercase (take chunk_len remaining) # lower_chunks (drop chunk_len remaining)))"
  by pat_completeness auto
termination
  by (relation "measure length") auto

declare lower_chunks.simps [simp del]

definition caseless_key :: "'e hook_env_scheme \<Rightarrow> string \<Rightarrow> bool \<Rightarrow> u64" where
  "caseless_key E path write =
     (if length path \<le> 512 then hk_hash E (to_ascii_lowercase path @ [write_byte write])
      else hk_hash E (concat (lower_chunks path) @ [write_byte write]))"

text \<open>\<^verbatim>\<open>ascii_lower\<close> maps each byte to a character, so a byte above 0x7F becomes two bytes; \<^verbatim>\<open>eq_ascii_lower\<close> compares a
  stored path with a candidate byte by byte in the same way.\<close>

definition ascii_lower_str :: "string \<Rightarrow> string" where
  "ascii_lower_str s = concat (map (\<lambda>b. utf8_enc1 (of_char (ascii_lower b))) s)"

fun eq_ascii_lower :: "string \<Rightarrow> string \<Rightarrow> bool" where
  "eq_ascii_lower stored [] = (stored = [])"
| "eq_ascii_lower stored (b # bs) =
     (case strip_prefix (utf8_enc1 (of_char (ascii_lower b))) stored of
        None \<Rightarrow> False
      | Some rest \<Rightarrow> eq_ascii_lower rest bs)"

definition cache_insert :: "'e hook_env_scheme \<Rightarrow> string \<Rightarrow> bool \<Rightarrow> decision \<Rightarrow> hook_cache \<Rightarrow> hook_cache" where
  "cache_insert E dos_lower write d c = hk_store E c (hook_key E dos_lower write) (ascii_lower_str dos_lower, write, d)"

definition cache_invalidate :: "'e hook_env_scheme \<Rightarrow> string \<Rightarrow> hook_cache \<Rightarrow> hook_cache" where
  "cache_invalidate E dos_lower c = c(hook_key E dos_lower False := None, hook_key E dos_lower True := None)"

definition get_caseless :: "'e hook_env_scheme \<Rightarrow> string \<Rightarrow> bool \<Rightarrow> hook_cache \<Rightarrow> decision option" where
  "get_caseless E path write c =
     (case c (caseless_key E path write) of
        None \<Rightarrow> None
      | Some (stored_path, stored_write, d) \<Rightarrow>
          if eq_ascii_lower stored_path path \<and> stored_write = write then Some d else None)"

section \<open>Decisions\<close>

definition IPC_FAIL_THRESHOLD :: nat where "IPC_FAIL_THRESHOLD = 8"

text \<open>\<^verbatim>\<open>ipc_decide\<close>: too many failures in a row end the process; below that the answer is the refusal.\<close>

definition ipc_decide :: "'e hook_env_scheme \<Rightarrow> string \<Rightarrow> bool \<Rightarrow> guest \<Rightarrow> decision \<times> guest" where
  "ipc_decide E dos_lower write s =
     (let (r, s) = ask (\<lambda>t. hk_answer E t dos_lower write) s
      in case r of
           Some d \<Rightarrow> (d, s\<lparr>gu_failures := 0\<rparr>)
         | None \<Rightarrow>
             (let n = gu_failures s + 1; s = s\<lparr>gu_failures := n\<rparr>
              in if IPC_FAIL_THRESHOLD \<le> n then (plain_decision Deny, s\<lparr>gu_ended := True\<rparr>) else (plain_decision Deny, s)))"

definition hook_decide :: "'e hook_env_scheme \<Rightarrow> string \<Rightarrow> bool \<Rightarrow> guest \<Rightarrow> decision \<times> guest" where
  "hook_decide E dos_path write s =
     (case get_caseless E dos_path write (gu_cache s) of
        Some d \<Rightarrow> (d, s)
      | None \<Rightarrow>
          (let (d, s) = ipc_decide E dos_path write s
           in (d, if d_mode d \<noteq> Passthrough \<and> d_mode d \<noteq> Hidden
                  then s\<lparr>gu_cache := cache_insert E dos_path write d (gu_cache s)\<rparr> else s)))"

section \<open>Publication of overlay files\<close>

definition overlay_already_published :: "string \<Rightarrow> guest \<Rightarrow> bool" where
  "overlay_already_published lower s \<longleftrightarrow> gu_published s lower \<noteq> None"

definition overlay_mark_published :: "'e hook_env_scheme \<Rightarrow> string \<Rightarrow> guest \<Rightarrow> guest" where
  "overlay_mark_published E lower s = s\<lparr>gu_published := hk_mark E (gu_published s) lower\<rparr>"

definition overlay_publish_forget :: "string \<Rightarrow> guest \<Rightarrow> guest" where
  "overlay_publish_forget lower s = s\<lparr>gu_published := (gu_published s)(lower := None)\<rparr>"

definition ipc_record_overlay :: "'e hook_env_scheme \<Rightarrow> string \<Rightarrow> string \<Rightarrow> guest \<Rightarrow> bool \<times> guest" where
  "ipc_record_overlay E orig overlay s =
     (let (ok, s) = ask (hk_sent E) s in (ok, if ok then emit (SentRecordOverlay orig overlay) s else s))"

definition ipc_record_overlay_case :: "'e hook_env_scheme \<Rightarrow> string \<Rightarrow> string \<Rightarrow> guest \<Rightarrow> bool \<times> guest" where
  "ipc_record_overlay_case E lower_path original_basename s =
     (if original_basename = [] then (True, s)
      else if original_basename = to_ascii_lowercase original_basename then (True, s)
      else (let (ok, s) = ask (hk_sent E) s in (ok, if ok then emit (SentRecordCase lower_path original_basename) s else s)))"

definition ipc_clear_whiteout :: "'e hook_env_scheme \<Rightarrow> string \<Rightarrow> guest \<Rightarrow> guest" where
  "ipc_clear_whiteout E path s = (let (ok, s) = ask (hk_sent E) s in if ok then emit (SentClearWhiteout path) s else s)"

definition hook_invalidate :: "'e hook_env_scheme \<Rightarrow> string \<Rightarrow> guest \<Rightarrow> guest" where
  "hook_invalidate E lower s = s\<lparr>gu_cache := cache_invalidate E lower (gu_cache s)\<rparr>"

definition publish_overlay_decision :: "'e hook_env_scheme \<Rightarrow> string \<Rightarrow> string \<Rightarrow> string option \<Rightarrow> guest \<Rightarrow> guest" where
  "publish_overlay_decision E lower overlay_dos original_basename s =
     (if overlay_already_published lower s then s
      else (let (idx_sent, s) = ipc_record_overlay E lower overlay_dos s;
                (case_sent, s) = (case original_basename of
                                    Some basename \<Rightarrow> ipc_record_overlay_case E lower basename s
                                  | None \<Rightarrow> (True, s));
                s = (if idx_sent \<and> case_sent then overlay_mark_published E lower s else s)
            in hook_invalidate E lower s))"

definition overlay_target_missing :: "'e hook_env_scheme \<Rightarrow> decision \<Rightarrow> guest \<Rightarrow> bool \<times> guest" where
  "overlay_target_missing E d s =
     (case d_overlay d of None \<Rightarrow> (False, s) | Some p \<Rightarrow> (let (there, s) = ask (\<lambda>t. os_exists (hk_os E t) p) s in (\<not> there, s)))"

definition decide_fresh_if_overlay_missing :: "'e hook_env_scheme \<Rightarrow> decision \<Rightarrow> string \<Rightarrow> bool \<Rightarrow> guest \<Rightarrow> decision \<times> guest" where
  "decide_fresh_if_overlay_missing E d dos write s =
     (let (missing, s) = overlay_target_missing E d s
      in if \<not> missing then (d, s)
         else (let lower = nt_case_fold E dos
               in hook_decide E dos write (hook_invalidate E lower (overlay_publish_forget lower s))))"

section \<open>Keys and comparisons\<close>

lemma concat_lower_chunks: "concat (lower_chunks s) = to_ascii_lowercase s"
proof (induction "length s" arbitrary: s rule: less_induct)
  case less
  show ?case
  proof (cases "s = []")
    case False
    let ?n = "min (length s) 512"
    have "length (drop ?n s) < length s" using False by (cases s) auto
    from less [OF this] False show ?thesis
      by (subst lower_chunks.simps) (simp add: Let_def flip: to_ascii_lowercase_append)
  qed (simp add: lower_chunks.simps to_ascii_lowercase_def)
qed

lemma caseless_key_eq: "caseless_key E path write = hook_key E (to_ascii_lowercase path) write"
  by (simp add: caseless_key_def hook_key_def concat_lower_chunks)

lemma ascii_lower_str_encode: "ascii_lower_str s = utf8_encode (map of_char (to_ascii_lowercase s))"
  by (simp add: ascii_lower_str_def utf8_encode_def to_ascii_lowercase_def comp_def)

lemma eq_ascii_lower_iff: "eq_ascii_lower stored cand \<longleftrightarrow> stored = ascii_lower_str cand"
proof (induction cand arbitrary: stored)
  case (Cons b bs)
  show ?case
  proof (cases "strip_prefix (utf8_enc1 (of_char (ascii_lower b))) stored")
    case None
    then have "stored \<noteq> utf8_enc1 (of_char (ascii_lower b)) @ r" for r by auto
    with None show ?thesis by (auto simp: ascii_lower_str_def)
  next
    case (Some rest)
    with Cons [of rest] show ?thesis by (auto simp: ascii_lower_str_def strip_prefix_Some)
  qed
qed (simp add: ascii_lower_str_def)

text \<open>Two paths have the same stored form exactly when they agree up to ASCII case: a hit is never a collision.\<close>

lemma ascii_lower_str_inj: "ascii_lower_str a = ascii_lower_str b \<longleftrightarrow> to_ascii_lowercase a = to_ascii_lowercase b"
proof
  assume e: "ascii_lower_str a = ascii_lower_str b"
  have sc: "list_all is_scalar (map of_char s :: nat list)" for s :: string
  proof -
    have "is_scalar (of_char c)" for c :: char
      unfolding is_scalar_def using of_char_less_256 [of c] by linarith
    then show ?thesis by (simp add: list_all_iff)
  qed
  from e have "map of_char (to_ascii_lowercase a) = (map of_char (to_ascii_lowercase b) :: nat list)"
    unfolding ascii_lower_str_encode by (metis utf8_decode_encode [OF sc])
  then show "to_ascii_lowercase a = to_ascii_lowercase b"
    by (metis list.inj_map_strong of_char_eq_iff)
qed (simp add: ascii_lower_str_encode)

lemma get_caseless_hit:
  "get_caseless E p w c = Some d \<Longrightarrow>
     \<exists>q. c (hook_key E (to_ascii_lowercase p) w) = Some (q, w, d) \<and> q = ascii_lower_str p"
  by (auto simp: get_caseless_def caseless_key_eq eq_ascii_lower_iff split: option.splits if_splits)

text \<open>A path in lower case finds what was inserted under it, and nothing after its invalidation.\<close>

lemma get_after_insert:
  "to_ascii_lowercase p = p \<Longrightarrow> hk_store E c (hook_key E p w) (ascii_lower_str p, w, d) = c(hook_key E p w \<mapsto> (ascii_lower_str p, w, d)) \<Longrightarrow>
     get_caseless E p w (cache_insert E p w d c) = Some d"
  by (simp add: get_caseless_def cache_insert_def caseless_key_eq eq_ascii_lower_iff)

lemma get_after_invalidate: "to_ascii_lowercase p = p \<Longrightarrow> get_caseless E p w (cache_invalidate E p c) = None"
  by (cases w) (simp_all add: get_caseless_def cache_invalidate_def caseless_key_eq)

section \<open>Where a decision comes from\<close>

text \<open>Every entry is an answer of the launcher, or the refusal that stands for a failed question, and none lets a path through
  or hides it.\<close>

definition answered :: "'e hook_env_scheme \<Rightarrow> nat \<Rightarrow> string \<Rightarrow> bool \<Rightarrow> decision \<Rightarrow> bool" where
  "answered E t p w d \<longleftrightarrow> d = plain_decision Deny \<or> (\<exists>u < t. \<exists>q. to_ascii_lowercase q = to_ascii_lowercase p \<and> hk_answer E u q w = Some d)"

definition cache_honest :: "'e hook_env_scheme \<Rightarrow> guest \<Rightarrow> bool" where
  "cache_honest E s \<longleftrightarrow>
     (\<forall>k q w d. gu_cache s k = Some (q, w, d) \<longrightarrow>
        d_mode d \<noteq> Passthrough \<and> d_mode d \<noteq> Hidden \<and> (\<exists>p. q = ascii_lower_str p \<and> answered E (gu_time s) p w d))"

lemma cache_honestD:
  assumes "cache_honest E s" and "gu_cache s k = Some (q, w, d)"
  shows "d_mode d \<noteq> Passthrough \<and> d_mode d \<noteq> Hidden \<and> (\<exists>p. q = ascii_lower_str p \<and> answered E (gu_time s) p w d)"
  using assms unfolding cache_honest_def by (elim allE impE) assumption+

lemma answered_later: "answered E t p w d \<Longrightarrow> t \<le> t' \<Longrightarrow> answered E t' p w d"
  by (auto simp: answered_def dest: less_le_trans)

lemma answered_case: "answered E t p w d \<Longrightarrow> to_ascii_lowercase p = to_ascii_lowercase q \<Longrightarrow> answered E t q w d"
  by (simp add: answered_def)

lemma honest_mono:
  "cache_honest E s \<Longrightarrow> gu_cache s' \<subseteq>\<^sub>m gu_cache s \<Longrightarrow> gu_time s \<le> gu_time s' \<Longrightarrow> cache_honest E s'"
  unfolding cache_honest_def map_le_def dom_def by (smt (verit, best) CollectI answered_later option.distinct(1))

lemma map_le_imp_Some: "m \<subseteq>\<^sub>m n \<Longrightarrow> m k = Some v \<Longrightarrow> n k = Some v"
  by (metis domI map_le_def)

lemma invalidate_le: "cache_invalidate E p c \<subseteq>\<^sub>m c"
  by (auto simp: cache_invalidate_def map_le_def)

lemma ask_simps [simp]:
  "gu_cache (snd (ask q s)) = gu_cache s" "gu_time (snd (ask q s)) = Suc (gu_time s)" "gu_effects (snd (ask q s)) = gu_effects s"
  "gu_published (snd (ask q s)) = gu_published s" "gu_failures (snd (ask q s)) = gu_failures s" "gu_ended (snd (ask q s)) = gu_ended s"
  "fst (ask q s) = q (gu_time s)"
  by (simp_all add: ask_def)

lemma emit_simps [simp]:
  "gu_cache (emit e s) = gu_cache s" "gu_time (emit e s) = Suc (gu_time s)" "gu_effects (emit e s) = gu_effects s @ [(gu_time s, e)]"
  "gu_published (emit e s) = gu_published s"
  by (simp_all add: emit_def)

lemma ipc_decide_cases:
  assumes "ipc_decide E p w s = (d, s')"
  shows "gu_time s' = Suc (gu_time s) \<and> gu_cache s' = gu_cache s \<and> gu_effects s' = gu_effects s \<and> gu_published s' = gu_published s \<and>
     (hk_answer E (gu_time s) p w = Some d \<or> hk_answer E (gu_time s) p w = None \<and> d = plain_decision Deny)"
  using assms by (auto simp: ipc_decide_def ask_def Let_def split: option.splits if_splits)

lemma hook_decide_honest:
  assumes lw: "hook_stores_lawful E" and h: "cache_honest E s" and r: "hook_decide E p w s = (d, s')"
  shows "answered E (gu_time s') p w d" and "cache_honest E s'" and "gu_time s \<le> gu_time s'" and "gu_effects s' = gu_effects s"
    and "d_mode d = Passthrough \<or> d_mode d = Hidden \<Longrightarrow> hk_answer E (gu_time s) p w = Some d \<and> gu_time s < gu_time s'"
proof -
  have "answered E (gu_time s') p w d \<and> cache_honest E s' \<and> gu_time s \<le> gu_time s' \<and> gu_effects s' = gu_effects s \<and>
      (d_mode d = Passthrough \<or> d_mode d = Hidden \<longrightarrow> hk_answer E (gu_time s) p w = Some d \<and> gu_time s < gu_time s')"
  proof (cases "get_caseless E p w (gu_cache s)")
    case (Some d')
    with r have e: "d' = d" "s' = s" by (simp_all add: hook_decide_def)
    from get_caseless_hit [OF Some] e have "gu_cache s (hook_key E (to_ascii_lowercase p) w) = Some (ascii_lower_str p, w, d)" by blast
    from cache_honestD [OF h this] obtain q where q: "ascii_lower_str p = ascii_lower_str q" "answered E (gu_time s) q w d"
      and m: "d_mode d \<noteq> Passthrough" "d_mode d \<noteq> Hidden" by blast
    from q(1) have "to_ascii_lowercase q = to_ascii_lowercase p" by (simp add: ascii_lower_str_inj)
    from answered_case [OF q(2) this] h m e show ?thesis by simp
  next
    case None
    obtain d1 s1 where i: "ipc_decide E p w s = (d1, s1)" by fastforce
    from r None i have d: "d1 = d" by (simp add: hook_decide_def)
    from r None i have s': "(if d_mode d \<noteq> Passthrough \<and> d_mode d \<noteq> Hidden
        then s1\<lparr>gu_cache := cache_insert E p w d (gu_cache s1)\<rparr> else s1) = s'" by (simp add: hook_decide_def d)
    have c: "gu_time s1 = Suc (gu_time s)" "gu_cache s1 = gu_cache s" "gu_effects s1 = gu_effects s"
      and v: "hk_answer E (gu_time s) p w = Some d \<or> d = plain_decision Deny" using ipc_decide_cases [OF i] d by blast+
    have a: "answered E (gu_time s1) p w d" unfolding answered_def c(1) using v by blast
    have h1: "cache_honest E s1" by (rule honest_mono [OF h]) (simp_all add: c)
    have keep: "gu_time s' = gu_time s1" "gu_effects s' = gu_effects s1" using s' by auto
    have le: "cache_insert E p w d (gu_cache s1) \<subseteq>\<^sub>m (gu_cache s1)(hook_key E p w \<mapsto> (ascii_lower_str p, w, d))"
      using lw by (simp add: cache_insert_def hook_stores_lawful_def)
    have "cache_honest E s'"
    proof (cases "d_mode d \<noteq> Passthrough \<and> d_mode d \<noteq> Hidden")
      case True
      then have n: "gu_cache s' = cache_insert E p w d (gu_cache s1)" using s' by auto
      show ?thesis unfolding cache_honest_def
      proof (intro allI impI)
        fix k q v e
        assume "gu_cache s' k = Some (q, v, e)"
        then have "((gu_cache s1)(hook_key E p w \<mapsto> (ascii_lower_str p, w, d))) k = Some (q, v, e)"
          using map_le_imp_Some [OF le] n by simp
        then have "(q, v, e) = (ascii_lower_str p, w, d) \<or> gu_cache s1 k = Some (q, v, e)"
          by (cases "k = hook_key E p w") simp_all
        then consider "q = ascii_lower_str p" "v = w" "e = d" | "gu_cache s1 k = Some (q, v, e)" by blast
        then show "d_mode e \<noteq> Passthrough \<and> d_mode e \<noteq> Hidden \<and> (\<exists>p. q = ascii_lower_str p \<and> answered E (gu_time s') p v e)"
        proof cases
          case 1
          then have "q = ascii_lower_str p \<and> answered E (gu_time s1) p v e" using a by simp
          then show ?thesis unfolding keep using True 1(3) by (intro conjI exI [of _ p]) simp_all
        next
          case 2
          from cache_honestD [OF h1 this] show ?thesis unfolding keep .
        qed
      qed
    next
      case False
      then have "s' = s1" using s' by auto
      with h1 show ?thesis by simp
    qed
    moreover have "d_mode d = Passthrough \<or> d_mode d = Hidden \<longrightarrow> hk_answer E (gu_time s) p w = Some d \<and> gu_time s < gu_time s'"
      using v unfolding keep c(1) by (auto simp: plain_decision_def)
    ultimately show ?thesis using a c(1,3) unfolding keep by simp
  qed
  then show "answered E (gu_time s') p w d" and "cache_honest E s'" and "gu_time s \<le> gu_time s'" and "gu_effects s' = gu_effects s"
    and "d_mode d = Passthrough \<or> d_mode d = Hidden \<Longrightarrow> hk_answer E (gu_time s) p w = Some d \<and> gu_time s < gu_time s'" by blast+
qed

text \<open>C6: what a guest acts on is an answer of the launcher for this path up to ASCII case and this kind of access, or the refusal that
  stands for a failed question, never the answer for another path whose key collides; and a decision that lets a path through
  or hides it is the answer of this very moment.\<close>

theorem guest_decision_provenance:
  assumes "hook_stores_lawful E" and "cache_honest E s" and "hook_decide E p w s = (d, s')"
  shows "answered E (gu_time s') p w d \<and> cache_honest E s' \<and>
     (d_mode d \<in> {Passthrough, Hidden} \<longrightarrow> hk_answer E (gu_time s) p w = Some d)"
  using hook_decide_honest [OF assms] by blast

definition quiet_view :: os_view where
  "quiet_view = \<lparr>os_symlink_metadata = (\<lambda>_. NotFound), os_exists = (\<lambda>_. False), os_canonicalize = (\<lambda>_. None), os_open = (\<lambda>_. None),
     os_links = (\<lambda>_. None), os_mkdir = (\<lambda>_. MkdirFailed), os_is_dir = (\<lambda>_. False), os_create_new = (\<lambda>_. CreateFailed), os_transfer = (\<lambda>_. False),
     os_long_path = (\<lambda>_. MissingName), os_unc_alias = (\<lambda>_. True)\<rparr>"

text \<open>A launcher that always gives the same answer, over the ASCII platform and an unbounded cache with a constant hash.\<close>

definition fixed_env :: "decision option \<Rightarrow> hook_env" where
  "fixed_env a = \<lparr>rtl_case_fns = None, char_to_uppercase = id, char_to_lowercase = id, hk_hash = (\<lambda>_. 0), hk_store = (\<lambda>c k d. c(k \<mapsto> d)),
     hk_mark = (\<lambda>c p. c(p \<mapsto> ())), hk_answer = (\<lambda>_ _ _. a), hk_sent = (\<lambda>_. True), hk_os = (\<lambda>_. quiet_view)\<rparr>"

definition fresh_guest :: guest where
  "fresh_guest = \<lparr>gu_time = 0, gu_cache = Map.empty, gu_published = Map.empty, gu_failures = 0, gu_ended = False, gu_effects = []\<rparr>"

lemma fresh_guest_honest: "cache_honest E fresh_guest"
  by (simp add: cache_honest_def fresh_guest_def)

lemma fixed_env_lawful: "hook_stores_lawful (fixed_env a)"
  by (simp add: hook_stores_lawful_def fixed_env_def)

lemma guest_decision_provenance_witness:
  "\<exists>s'. hook_decide (fixed_env (Some (plain_decision Hidden))) ''c:x'' False fresh_guest = (plain_decision Hidden, s') \<and>
     answered (fixed_env (Some (plain_decision Hidden))) (gu_time s') ''c:x'' False (plain_decision Hidden)"
proof -
  obtain s' where r: "hook_decide (fixed_env (Some (plain_decision Hidden))) ''c:x'' False fresh_guest = (plain_decision Hidden, s')"
    by (auto simp: hook_decide_def get_caseless_def fresh_guest_def ipc_decide_def ask_def fixed_env_def plain_decision_def)
  from guest_decision_provenance [OF fixed_env_lawful fresh_guest_honest r] r show ?thesis by blast
qed

text \<open>When the overlay file of a cached decision is gone, the answer is fetched again.\<close>

lemma decide_fresh_is_current:
  assumes "nt_case_fold E dos = dos" and "to_ascii_lowercase dos = dos" and "d_overlay d = Some ov"
    and "\<not> os_exists (hk_os E (gu_time s)) ov" and r: "decide_fresh_if_overlay_missing E d dos w s = (d', s')"
  shows "hk_answer E (Suc (gu_time s)) dos w = Some d' \<or> hk_answer E (Suc (gu_time s)) dos w = None \<and> d' = plain_decision Deny"
proof -
  let ?s = "hook_invalidate E dos (overlay_publish_forget dos (snd (ask (\<lambda>t. os_exists (hk_os E t) ov) s)))"
  have t: "gu_time ?s = Suc (gu_time s)" by (simp add: hook_invalidate_def overlay_publish_forget_def)
  from r assms(1,3,4) have h: "hook_decide E dos w ?s = (d', s')"
    by (simp add: decide_fresh_if_overlay_missing_def overlay_target_missing_def ask_def Let_def)
  have "get_caseless E dos w (gu_cache ?s) = None"
    using get_after_invalidate [OF assms(2)] by (simp add: hook_invalidate_def)
  with h obtain s2 where "ipc_decide E dos w ?s = (d', s2)" by (auto simp: hook_decide_def Let_def split: prod.splits)
  from ipc_decide_cases [OF this] t show ?thesis by simp
qed

lemma decide_fresh_honest:
  assumes lw: "hook_stores_lawful E" and h: "cache_honest E s" and a: "answered E (gu_time s) p w d"
    and pt: "d_mode d = Passthrough \<or> d_mode d = Hidden \<Longrightarrow> \<exists>t < gu_time s. t0 \<le> t \<and> hk_answer E t p w = Some d"
    and t0: "t0 \<le> gu_time s" and r: "decide_fresh_if_overlay_missing E d p w s = (d', s')"
  shows "answered E (gu_time s') p w d'" and "cache_honest E s'" and "gu_time s \<le> gu_time s'" and "gu_effects s' = gu_effects s"
    and "d_mode d' = Passthrough \<or> d_mode d' = Hidden \<Longrightarrow> \<exists>t < gu_time s'. t0 \<le> t \<and> hk_answer E t p w = Some d'"
proof -
  obtain b s1 where m: "overlay_target_missing E d s = (b, s1)" by fastforce
  then have s1: "gu_cache s1 = gu_cache s" "gu_time s \<le> gu_time s1" "gu_effects s1 = gu_effects s"
    by (auto simp: overlay_target_missing_def ask_def Let_def split: option.splits)
  have h1: "cache_honest E s1" by (rule honest_mono [OF h]) (simp_all add: s1)
  have "answered E (gu_time s') p w d' \<and> cache_honest E s' \<and> gu_time s \<le> gu_time s' \<and> gu_effects s' = gu_effects s \<and>
      (d_mode d' = Passthrough \<or> d_mode d' = Hidden \<longrightarrow> (\<exists>t < gu_time s'. t0 \<le> t \<and> hk_answer E t p w = Some d'))"
  proof (cases b)
    case False
    with r m have e: "d' = d" "s' = s1" by (simp_all add: decide_fresh_if_overlay_missing_def)
    have "\<exists>t < gu_time s'. t0 \<le> t \<and> hk_answer E t p w = Some d'" if "d_mode d' = Passthrough \<or> d_mode d' = Hidden"
      using pt that e s1(2) by (auto dest: less_le_trans)
    with e h1 s1 answered_later [OF a s1(2)] show ?thesis by simp
  next
    case True
    let ?s = "hook_invalidate E (nt_case_fold E p) (overlay_publish_forget (nt_case_fold E p) s1)"
    have k: "gu_time ?s = gu_time s1" "gu_effects ?s = gu_effects s1" "gu_cache ?s \<subseteq>\<^sub>m gu_cache s1"
      by (simp_all add: hook_invalidate_def overlay_publish_forget_def invalidate_le)
    have h2: "cache_honest E ?s" by (rule honest_mono [OF h1 k(3)]) (simp add: k)
    from r m True have d: "hook_decide E p w ?s = (d', s')" by (simp add: decide_fresh_if_overlay_missing_def Let_def)
    note c = hook_decide_honest [OF lw h2 d]
    have "\<exists>t < gu_time s'. t0 \<le> t \<and> hk_answer E t p w = Some d'" if m: "d_mode d' = Passthrough \<or> d_mode d' = Hidden"
    proof -
      from c(5) [OF m] have a: "hk_answer E (gu_time ?s) p w = Some d'" and "gu_time ?s < gu_time s'" by blast+
      with a t0 s1(2) k(1) show ?thesis by (intro exI [of _ "gu_time ?s"]) simp
    qed
    with c(1-4) k s1 show ?thesis by simp
  qed
  then show "answered E (gu_time s') p w d'" and "cache_honest E s'" and "gu_time s \<le> gu_time s'" and "gu_effects s' = gu_effects s"
    and "d_mode d' = Passthrough \<or> d_mode d' = Hidden \<Longrightarrow> \<exists>t < gu_time s'. t0 \<le> t \<and> hk_answer E t p w = Some d'" by blast+
qed

section \<open>What the cache gets wrong\<close>

text \<open>The refusal that stands for one failed question is kept like a decision of the launcher: after a transient failure the path
  stays refused for this process.\<close>

lemma failed_question_is_cached:
  assumes "to_ascii_lowercase p = p" and "get_caseless E p w (gu_cache s) = None" and "hk_answer E (gu_time s) p w = None"
    and "\<And>c k d. hk_store E c k d = c(k \<mapsto> d)"
  shows "\<exists>s1. hook_decide E p w s = (plain_decision Deny, s1) \<and> hook_decide E p w s1 = (plain_decision Deny, s1)"
proof -
  obtain d s0 where i: "ipc_decide E p w s = (d, s0)" by fastforce
  from ipc_decide_cases [OF i] assms(3) have d: "d = plain_decision Deny" by simp
  let ?s = "s0\<lparr>gu_cache := cache_insert E p w d (gu_cache s0)\<rparr>"
  have "hook_decide E p w s = (d, ?s)" using i d assms(2) by (simp add: hook_decide_def plain_decision_def)
  moreover have "get_caseless E p w (gu_cache ?s) = Some d"
    using get_after_insert [OF assms(1), of E "gu_cache s0" w d] by (simp add: assms(4))
  then have "hook_decide E p w ?s = (d, ?s)" by (simp add: hook_decide_def)
  ultimately show ?thesis unfolding d by blast
qed

text \<open>The original name of a file is not sent when its capital letters are outside ASCII.\<close>

lemma case_of_foreign_letters_lost:
  "to_ascii_lowercase name = name \<Longrightarrow> ipc_record_overlay_case E lower name s = (True, s)"
  by (simp add: ipc_record_overlay_case_def)

end
