(* ===== verification/GuestDeny.thy ===== *)
theory GuestDeny
  imports GuestCache
begin

text \<open>
  What a guest may name (\<^verbatim>\<open>winrsbox-hook/src/core/hooks/denylist.rs\<close>, \<^verbatim>\<open>device.rs\<close>, the access classes of \<^verbatim>\<open>hooks/mod.rs\<close> and
  \<^verbatim>\<open>fs_hooks/mod.rs\<close>) and the classification of device paths (\<^verbatim>\<open>winrsbox-policy/src/domains/dev.rs\<close>).
\<close>

section \<open>Status codes and access classes\<close>

definition ntstatus :: "u32 \<Rightarrow> int" where
  "ntstatus w = sint w"

definition STATUS_ACCESS_DENIED :: int where "STATUS_ACCESS_DENIED = ntstatus 0xC0000022"
definition STATUS_OBJECT_NAME_NOT_FOUND :: int where "STATUS_OBJECT_NAME_NOT_FOUND = ntstatus 0xC0000034"
definition STATUS_OBJECT_NAME_COLLISION :: int where "STATUS_OBJECT_NAME_COLLISION = ntstatus 0xC0000035"

definition GENERIC_WRITE :: u32 where "GENERIC_WRITE = 0x40000000"
definition GENERIC_ALL :: u32 where "GENERIC_ALL = 0x10000000"
definition FILE_WRITE_DATA :: u32 where "FILE_WRITE_DATA = 0x2"
definition FILE_APPEND_DATA :: u32 where "FILE_APPEND_DATA = 0x4"
definition FILE_WRITE_EA :: u32 where "FILE_WRITE_EA = 0x10"
definition FILE_WRITE_ATTRIBUTES :: u32 where "FILE_WRITE_ATTRIBUTES = 0x100"
definition DELETE :: u32 where "DELETE = 0x10000"
definition WRITE_DAC :: u32 where "WRITE_DAC = 0x40000"
definition WRITE_OWNER :: u32 where "WRITE_OWNER = 0x80000"
definition MAXIMUM_ALLOWED :: u32 where "MAXIMUM_ALLOWED = 0x2000000"
definition FILE_SUPERSEDE :: u32 where "FILE_SUPERSEDE = 0"
definition FILE_OPEN :: u32 where "FILE_OPEN = 1"
definition FILE_CREATE :: u32 where "FILE_CREATE = 2"
definition FILE_OPEN_IF :: u32 where "FILE_OPEN_IF = 3"
definition FILE_OVERWRITE :: u32 where "FILE_OVERWRITE = 4"
definition FILE_OVERWRITE_IF :: u32 where "FILE_OVERWRITE_IF = 5"
definition FILE_DELETE_ON_CLOSE :: u32 where "FILE_DELETE_ON_CLOSE = 0x1000"
definition FILE_OPEN_BY_FILE_ID :: u32 where "FILE_OPEN_BY_FILE_ID = 0x2000"
definition FILE_DIRECTORY_FILE :: u32 where "FILE_DIRECTORY_FILE = 1"

definition other_write_bits :: u32 where
  "other_write_bits = or GENERIC_ALL (or GENERIC_WRITE (or FILE_WRITE_DATA (or FILE_APPEND_DATA (or FILE_WRITE_EA
     (or FILE_WRITE_ATTRIBUTES (or WRITE_DAC (or WRITE_OWNER MAXIMUM_ALLOWED)))))))"

definition write_bits :: u32 where
  "write_bits = or GENERIC_ALL (or GENERIC_WRITE (or FILE_WRITE_DATA (or FILE_APPEND_DATA (or FILE_WRITE_EA
     (or FILE_WRITE_ATTRIBUTES (or DELETE (or WRITE_DAC (or WRITE_OWNER MAXIMUM_ALLOWED))))))))"

definition is_write_access :: "u32 \<Rightarrow> u32 \<Rightarrow> bool" where
  "is_write_access desired disposition \<longleftrightarrow>
     and desired write_bits \<noteq> 0 \<or>
     disposition \<in> {FILE_CREATE, FILE_OPEN_IF, FILE_OVERWRITE, FILE_OVERWRITE_IF, FILE_SUPERSEDE}"

definition is_delete_only_access :: "u32 \<Rightarrow> u32 \<Rightarrow> bool" where
  "is_delete_only_access desired disposition \<longleftrightarrow>
     disposition = FILE_OPEN \<and> and desired DELETE \<noteq> 0 \<and> and desired other_write_bits = 0"

definition dead_end_write_intent :: "u32 \<Rightarrow> u32 option \<Rightarrow> u32 \<Rightarrow> bool" where
  "dead_end_write_intent desired_access disposition options \<longleftrightarrow>
     is_write_access desired_access (unwrap_or disposition FILE_OPEN) \<or> and options FILE_DELETE_ON_CLOSE \<noteq> 0"

definition is_ea_present :: "bool \<Rightarrow> u32 \<Rightarrow> bool" where
  "is_ea_present ea_null ea_length \<longleftrightarrow> \<not> ea_null \<and> 0 < ea_length"

definition is_create_disposition :: "u32 \<Rightarrow> bool" where
  "is_create_disposition d \<longleftrightarrow> d \<in> {FILE_CREATE, FILE_OPEN_IF, FILE_OVERWRITE_IF, FILE_SUPERSEDE}"

definition cow_publish_allowed :: "int \<Rightarrow> bool" where
  "cow_publish_allowed status \<longleftrightarrow> 0 \<le> status"

section \<open>Object attributes\<close>

text \<open>A counted string of the guest: its length in bytes and the buffer, which may be null.\<close>

record unicode_string =
  us_length :: u16
  us_buffer :: "u16 list option"

record object_attributes =
  oa_root_directory :: "nat option"
  oa_object_name :: "unicode_string option"
  oa_attributes :: u32

definition extract_raw_nt_path :: "object_attributes option \<Rightarrow> string option" where
  "extract_raw_nt_path attrs =
     (case attrs of None \<Rightarrow> None
      | Some obj \<Rightarrow>
          (case oa_object_name obj of None \<Rightarrow> None
           | Some ustr \<Rightarrow>
               (let char_count = unat (us_length ustr) div 2
                in if char_count = 0 then None
                   else (case us_buffer ustr of None \<Rightarrow> None
                         | Some buf \<Rightarrow> Some (from_utf16_lossy (take char_count buf))))))"

definition extract_nt_basename :: "'a platform_scheme \<Rightarrow> object_attributes option \<Rightarrow> string option" where
  "extract_nt_basename pf attrs =
     (case extract_raw_nt_path attrs of None \<Rightarrow> None
      | Some raw \<Rightarrow>
          (let basename = last (split_by is_sep (trim_end_matches is_sep raw))
           in if basename = [] then None
              else if nt_case_fold pf basename \<noteq> basename then Some basename else None))"

section \<open>The canonical form\<close>

definition dot_or_space :: "char \<Rightarrow> bool" where
  "dot_or_space c \<longleftrightarrow> c = dot \<or> c = CHR '' ''"

definition ends_dot_space :: "string \<Rightarrow> bool" where
  "ends_dot_space seg \<longleftrightarrow> ends_with seg [dot] \<or> ends_with seg [CHR '' '']"

definition strip_trailing_dot_space :: "string \<Rightarrow> string" where
  "strip_trailing_dot_space s =
     (let segs = split_by (\<lambda>c. c = bslash) s
      in if \<not> list_ex ends_dot_space segs then s else join_with bslash (map (trim_end_matches dot_or_space) segs))"

definition canonicalize_for_denylist :: "string \<Rightarrow> string" where
  "canonicalize_for_denylist s =
     (if \<not> list_ex is_ascii_uppercase s \<and> fslash \<notin> set s \<and> \<not> list_ex ends_dot_space (split_by (\<lambda>c. c = bslash) s) then s
      else strip_trailing_dot_space (map (\<lambda>c. if c = fslash then bslash else ascii_lower c) s))"

definition strip_nt_dos_prefix :: "string \<Rightarrow> string option" where
  "strip_nt_dos_prefix lower =
     (case strip_prefix (win ''|??|'') lower of Some rest \<Rightarrow> Some rest | None \<Rightarrow> strip_prefix (win ''||?|'') lower)"

section \<open>Short names\<close>

fun needs_short_name_resolve :: "string \<Rightarrow> bool" where
  "needs_short_name_resolve (a # b # s) = (a = CHR ''~'' \<and> is_ascii_digit b \<or> needs_short_name_resolve (b # s))"
| "needs_short_name_resolve s = False"

definition is_absolute_drive :: "string \<Rightarrow> bool" where
  "is_absolute_drive p \<longleftrightarrow> has_drive p \<and> 2 < length p \<and> is_sep (p ! 2)"

definition is_unc :: "string \<Rightarrow> bool" where
  "is_unc p \<longleftrightarrow> 2 \<le> length p \<and> is_sep (p ! 0) \<and> is_sep (p ! 1)"

function long_name_walk :: "'a platform_scheme \<Rightarrow> os_view \<Rightarrow> string \<Rightarrow> bool" where
  "long_name_walk pf V current =
     (case os_long_path V current of
        Expanded expanded \<Rightarrow> nt_case_fold pf expanded \<noteq> nt_case_fold pf current
      | NoLongName \<Rightarrow> True
      | MissingName \<Rightarrow> (case path_parent current of Some parent \<Rightarrow> long_name_walk pf V parent | None \<Rightarrow> True))"
  by pat_completeness auto
termination
  by (relation "measure (\<lambda>(pf, V, current). length current)") (auto simp: path_parent_shorter)

declare long_name_walk.simps [simp del]

definition short_name_alias_or_unknown :: "'a platform_scheme \<Rightarrow> os_view \<Rightarrow> string \<Rightarrow> bool" where
  "short_name_alias_or_unknown pf V path =
     (if is_unc path then os_unc_alias V path
      else if \<not> is_absolute_drive path then False
      else long_name_walk pf V path)"

section \<open>The denylist\<close>

text \<open>What the launcher published to the guest: the overlay roots per drive, and the single root of old sessions.\<close>

record hook_config =
  hc_overlay_roots :: "string list option"
  hc_sandbox_root :: "string option"

definition known_roots :: "hook_config \<Rightarrow> string list" where
  "known_roots C =
     (case hc_overlay_roots C of
        Some roots \<Rightarrow> if roots \<noteq> [] then roots else (case hc_sandbox_root C of Some r \<Rightarrow> [r] | None \<Rightarrow> [])
      | None \<Rightarrow> (case hc_sandbox_root C of Some r \<Rightarrow> [r] | None \<Rightarrow> []))"

definition trim_bslash :: "string \<Rightarrow> string" where
  "trim_bslash = trim_end_matches (\<lambda>c. c = bslash)"

definition CONTROL_NAMES :: "string list" where
  "CONTROL_NAMES = [''policy.redb'', ''sandbox.ktav'', ''sandbox.log.jsonl'', ''violations.log'', ''hot-stats.json'']"

definition is_control_file :: "string \<Rightarrow> bool" where
  "is_control_file canon_dos =
     (let last_seg = last (split_by (\<lambda>c. c = bslash) canon_dos)
      in if last_seg \<in> set CONTROL_NAMES then True else ends_with last_seg ''.redb'')"

definition is_overlay_root_ancestor :: "hook_config \<Rightarrow> string \<Rightarrow> bool" where
  "is_overlay_root_ancestor C canon =
     (let canon_trimmed = trim_bslash (unwrap_or (strip_nt_dos_prefix canon) canon)
      in if canon_trimmed = [] then False
         else list_ex (\<lambda>root. starts_with (trim_bslash (to_ascii_lowercase root)) (canon_trimmed @ [bslash])) (known_roots C))"

definition is_self_overlay_workdir_access :: "hook_config \<Rightarrow> string \<Rightarrow> bool" where
  "is_self_overlay_workdir_access C canon =
     (if known_roots C = [] then False
      else (let canon_dos = unwrap_or (strip_nt_dos_prefix canon) canon
            in if is_control_file canon_dos then False
               else list_ex (\<lambda>root. (let root_trimmed = trim_bslash (to_ascii_lowercase root)
                                     in root_trimmed \<noteq> [] \<and> pattern_matches_prefix root_trimmed canon_dos)) (known_roots C)))"

definition ADS_ALLOWED :: "string list" where
  "ADS_ALLOWED = [''$data'', ''$index_allocation'', ''zone.identifier'']"

text \<open>A stream name behind a second colon; the slices count bytes, and the second byte is a colon.\<close>

definition denied_stream :: "string \<Rightarrow> bool" where
  "denied_stream after =
     (if 3 \<le> length after \<and> after ! 1 = colon
      then (case split_once colon (drop 2 after) of
              None \<Rightarrow> False
            | Some (before, stream) \<Rightarrow> \<not> list_ex (\<lambda>a. stream = a \<or> starts_with stream (a @ [colon])) ADS_ALLOWED)
      else False)"

datatype deny_reason = GlobalRoot | AlternateStream | ShortName | StateDirectory

definition canonical_denylist_status :: "'a platform_scheme \<Rightarrow> hook_config \<Rightarrow> os_view \<Rightarrow> string \<Rightarrow> (int \<times> deny_reason) option" where
  "canonical_denylist_status pf C V canon =
     (if str_contains canon (win ''|??|globalroot'') \<or> str_contains canon (win ''|globalroot|'')
      then Some (STATUS_ACCESS_DENIED, GlobalRoot)
      else (let after = unwrap_or (strip_nt_dos_prefix canon) canon
            in if denied_stream after then Some (STATUS_ACCESS_DENIED, AlternateStream)
               else if needs_short_name_resolve canon \<and> short_name_alias_or_unknown pf V after
               then Some (STATUS_ACCESS_DENIED, ShortName)
               else if str_contains canon (win ''|.winrsbox|'') \<or> ends_with canon (win ''|.winrsbox'')
               then (if is_self_overlay_workdir_access C canon then None
                     else if is_overlay_root_ancestor C canon then None
                     else Some (STATUS_OBJECT_NAME_NOT_FOUND, StateDirectory))
               else None))"

definition check_path_traversal :: "'a platform_scheme \<Rightarrow> hook_config \<Rightarrow> os_view \<Rightarrow> object_attributes option \<Rightarrow> u32 \<Rightarrow> int option" where
  "check_path_traversal pf C V attrs create_options =
     (if and create_options FILE_OPEN_BY_FILE_ID \<noteq> 0 then Some STATUS_ACCESS_DENIED
      else (case extract_raw_nt_path attrs of
              None \<Rightarrow> None
            | Some raw_nt \<Rightarrow>
                (case canonical_denylist_status pf C V (canonicalize_for_denylist raw_nt) of
                   None \<Rightarrow> None
                 | Some (status, reason) \<Rightarrow>
                     if reason = StateDirectory \<and> status = STATUS_OBJECT_NAME_NOT_FOUND \<and> and create_options FILE_DIRECTORY_FILE \<noteq> 0
                     then Some STATUS_OBJECT_NAME_COLLISION
                     else Some status)))"

section \<open>Devices\<close>

datatype device_kind = HarddiskVolume | NamedPipe | Socket | Console | NullDevice | NetworkPath | SystemQuery | UnknownDevice

definition second_char_is_colon :: "string \<Rightarrow> bool" where
  "second_char_is_colon s = (case utf8_decode s of a # b # r \<Rightarrow> b = 0x3A | _ \<Rightarrow> False)"

definition nt_to_device_path :: "'a platform_scheme \<Rightarrow> u16 list \<Rightarrow> string option" where
  "nt_to_device_path pf raw =
     (let lower = nt_case_fold pf (trim_end_matches (\<lambda>c. c = CHR 0x00) (from_utf16_lossy raw))
      in case strip_prefix (win ''|??|globalroot|'') lower of
           Some rest \<Rightarrow> Some rest
         | None \<Rightarrow>
             (case strip_prefix (win ''||.|'') lower of
                Some rest \<Rightarrow> Some (win ''device|'' @ rest)
              | None \<Rightarrow>
                  if starts_with lower (win ''||?|'') then None
                  else if starts_with lower (win ''||'') then Some (win ''unc|'' @ drop 2 lower)
                  else if starts_with lower (win ''|device|'') then Some lower
                  else if starts_with lower (win ''|??|'')
                  then (let inner = drop 4 lower
                        in if starts_with inner (win ''device|'') \<or> \<not> second_char_is_colon inner then Some inner else None)
                  else None))"

definition is_device_name :: "string \<Rightarrow> string \<Rightarrow> bool" where
  "is_device_name lower name =
     (let sep = win ''|device|'' @ name; bare = drop 1 sep
      in if lower = sep \<or> lower = bare then True
         else starts_with lower (sep @ [bslash]) \<or> starts_with lower (bare @ [bslash]))"

definition DANGEROUS_PIPES :: "string list" where
  "DANGEROUS_PIPES = [''svcctl'', ''atsvc'', ''psexesvc'', ''srvsvc'', ''winreg'', ''lsass'', ''spoolss'', ''samr'', ''netlogon'',
     ''wkssvc'', ''lsarpc'', ''eventlog'', ''browser'', ''epmapper'']"

definition is_dangerous_pipe :: "string \<Rightarrow> bool" where
  "is_dangerous_pipe lower_path = (last (split_by is_sep lower_path) \<in> set DANGEROUS_PIPES)"

definition classify_device :: "'a platform_scheme \<Rightarrow> string \<Rightarrow> device_kind" where
  "classify_device pf path =
     (let lower = nt_case_fold pf path
      in if str_contains lower ''shadowcopy'' then UnknownDevice
         else if str_contains lower ''physicaldrive'' then UnknownDevice
         else if str_contains lower (win ''device|harddisk'') \<and> \<not> str_contains lower ''harddiskvolume'' then UnknownDevice
         else if lower = ''unc'' \<or> starts_with lower (win ''unc|'') then NetworkPath
         else if is_device_name lower ''mup'' \<or> is_device_name lower ''lanmanredirector'' \<or> is_device_name lower ''webdavredirector''
         then NetworkPath
         else if starts_with lower (win ''device|harddiskvolume'') then HarddiskVolume
         else if starts_with lower (win ''|device|harddiskvolume'') then HarddiskVolume
         else if str_contains lower ''namedpipe'' \<or> str_contains lower ''named_pipe'' \<or>
                 starts_with lower (win ''pipe|'') \<or> starts_with lower (win ''|pipe|'')
         then (if is_dangerous_pipe lower then UnknownDevice else NamedPipe)
         else if starts_with lower (win ''device|afd'') \<or> starts_with lower (win ''|device|afd'') then Socket
         else if starts_with lower (win ''device|tcp'') \<or> starts_with lower (win ''|device|tcp'') then Socket
         else if starts_with lower (win ''device|udp'') \<or> starts_with lower (win ''|device|udp'') then Socket
         else if lower = ''nsi'' \<or> ends_with lower (win ''|nsi'') \<or> str_contains lower (win ''device|nsi'') then Socket
         else if str_contains lower ''condrv'' \<or> str_contains lower ''console'' then Console
         else if lower = ''conin$'' \<or> lower = ''conout$'' \<or> ends_with lower (win ''|conin$'') \<or> ends_with lower (win ''|conout$'')
         then Console
         else if str_contains lower (win ''device|null'') \<or> lower = ''nul'' \<or> ends_with lower (win ''|nul'') then NullDevice
         else if is_device_name lower ''cngbootinfo'' \<or> is_device_name lower ''ksecdd'' \<or> is_device_name lower ''cng''
         then UnknownDevice
         else SystemQuery)"

datatype device_verdict = RefuseDevice int | PassDevice | UnhandledDevice

definition kind_verdict :: "device_kind \<Rightarrow> bool \<Rightarrow> device_verdict" where
  "kind_verdict kind write =
     (case kind of
        UnknownDevice \<Rightarrow> RefuseDevice STATUS_ACCESS_DENIED
      | NetworkPath \<Rightarrow> if write then RefuseDevice STATUS_ACCESS_DENIED else UnhandledDevice
      | SystemQuery \<Rightarrow> if write then RefuseDevice STATUS_ACCESS_DENIED else UnhandledDevice
      | NamedPipe \<Rightarrow> PassDevice
      | Socket \<Rightarrow> PassDevice
      | Console \<Rightarrow> PassDevice
      | NullDevice \<Rightarrow> PassDevice
      | HarddiskVolume \<Rightarrow> UnhandledDevice)"

definition classify_by_name :: "'a platform_scheme \<Rightarrow> object_attributes option \<Rightarrow> bool \<Rightarrow> device_verdict" where
  "classify_by_name pf attrs write =
     (case extract_raw_nt_path attrs of
        None \<Rightarrow> UnhandledDevice
      | Some dev_path \<Rightarrow>
          (case nt_to_device_path pf (encode_utf16 (utf8_decode dev_path)) of
             None \<Rightarrow> UnhandledDevice
           | Some device \<Rightarrow> kind_verdict (classify_device pf device) write))"

definition FILE_DEVICE_NAMED_PIPE :: u32 where "FILE_DEVICE_NAMED_PIPE = 0x11"
definition FILE_DEVICE_NULL :: u32 where "FILE_DEVICE_NULL = 0x15"
definition FILE_DEVICE_CONSOLE :: u32 where "FILE_DEVICE_CONSOLE = 0x50"

definition verdict_for_root_device :: "u32 option \<Rightarrow> device_verdict" where
  "verdict_for_root_device device_type =
     (if device_type \<in> {Some FILE_DEVICE_NAMED_PIPE, Some FILE_DEVICE_NULL, Some FILE_DEVICE_CONSOLE}
      then PassDevice else UnhandledDevice)"

text \<open>\<open>device_type\<close> is \<^verbatim>\<open>NtQueryVolumeInformationFile\<close> on a handle.\<close>

definition classify_device_open :: "'a platform_scheme \<Rightarrow> (nat \<Rightarrow> u32 option) \<Rightarrow> object_attributes option \<Rightarrow> bool \<Rightarrow> device_verdict" where
  "classify_device_open pf device_type attrs write =
     (let by_name = classify_by_name pf attrs write
      in if by_name \<noteq> UnhandledDevice then by_name
         else (case attrs of
                 None \<Rightarrow> by_name
               | Some obj \<Rightarrow>
                   (case oa_root_directory obj of
                      None \<Rightarrow> UnhandledDevice
                    | Some root \<Rightarrow> verdict_for_root_device (device_type root))))"

section \<open>The canonical form is canonical\<close>

abbreviation segments :: "string \<Rightarrow> string list" where
  "segments s \<equiv> split_by (\<lambda>c. c = bslash) s"

definition fold_char :: "char \<Rightarrow> char" where
  "fold_char c = (if c = fslash then bslash else ascii_lower c)"

text \<open>A character of a canonical path: no capital ASCII letter and no slash; a segment of one: no dot or space at its end.\<close>

definition canon_char :: "char \<Rightarrow> bool" where
  "canon_char c \<longleftrightarrow> \<not> is_ascii_uppercase c \<and> c \<noteq> fslash"

definition is_canonical :: "string \<Rightarrow> bool" where
  "is_canonical s \<longleftrightarrow> list_all canon_char s \<and> list_all (\<lambda>g. g = [] \<or> \<not> dot_or_space (last g)) (segments s)"

lemma fold_char_id: "canon_char c \<Longrightarrow> fold_char c = c"
  by (simp add: canon_char_def fold_char_def)

lemma fold_char_canon: "canon_char (fold_char c)"
proof (cases "c = fslash")
  case False
  then show ?thesis using ascii_lower_special(2) [of c] by (simp add: fold_char_def canon_char_def)
qed (simp add: fold_char_def canon_char_def is_ascii_uppercase_def)

lemma ends_dot_space_iff: "ends_dot_space g \<longleftrightarrow> g \<noteq> [] \<and> dot_or_space (last g)"
  by (cases g rule: rev_cases) (auto simp: ends_dot_space_def ends_with_iff dot_or_space_def)

lemma trim_dot_space_id: "\<not> ends_dot_space g \<Longrightarrow> trim_end_matches dot_or_space g = g"
  by (rule trim_end_matches_id) (auto simp: ends_dot_space_iff)

lemma trim_subset: "set (trim_end_matches p g) \<subseteq> set g"
  by (auto simp: trim_end_matches_def dest: set_dropWhileD)

lemma strip_trailing_segments: "segments (strip_trailing_dot_space s) = map (trim_end_matches dot_or_space) (segments s)"
proof (cases "list_ex ends_dot_space (segments s)")
  case True
  have "segments (join_with bslash (map (trim_end_matches dot_or_space) (segments s))) = map (trim_end_matches dot_or_space) (segments s)"
    by (rule split_join) (use trim_subset split_by_segments_free in \<open>fastforce+\<close>)
  with True show ?thesis by (simp add: strip_trailing_dot_space_def)
next
  case False
  then have "map (trim_end_matches dot_or_space) (segments s) = segments s"
    by (intro map_idI trim_dot_space_id) (auto simp: list_ex_iff)
  with False show ?thesis by (simp add: strip_trailing_dot_space_def)
qed

lemma canonical_segments: "segments (canonicalize_for_denylist s) = map (trim_end_matches dot_or_space) (segments (map fold_char s))"
proof (cases "\<not> list_ex is_ascii_uppercase s \<and> fslash \<notin> set s \<and> \<not> list_ex ends_dot_space (segments s)")
  case True
  then have f: "map fold_char s = s" by (intro map_idI fold_char_id) (auto simp: canon_char_def list_ex_iff)
  have "map (trim_end_matches dot_or_space) (segments s) = segments s"
    using True by (intro map_idI trim_dot_space_id) (auto simp: list_ex_iff)
  with True f show ?thesis by (simp add: canonicalize_for_denylist_def)
next
  case False
  then have "canonicalize_for_denylist s = strip_trailing_dot_space (map fold_char s)"
    by (auto simp: canonicalize_for_denylist_def fold_char_def [abs_def])
  then show ?thesis by (simp add: strip_trailing_segments)
qed

lemma join_with_set: "set (join_with x gs) \<subseteq> insert x (\<Union> (set ` set gs))"
  by (induction x gs rule: join_with.induct) auto

lemma canonical_is_canonical: "is_canonical (canonicalize_for_denylist s)"
proof -
  let ?c = "canonicalize_for_denylist s"
  have seg: "segments ?c = map (trim_end_matches dot_or_space) (segments (map fold_char s))" by (rule canonical_segments)
  have "set ?c \<subseteq> insert bslash (\<Union> (set ` set (segments ?c)))" using join_with_set [of bslash "segments ?c"] by simp
  also have "\<dots> \<subseteq> insert bslash (set (map fold_char s))"
    unfolding seg using trim_subset split_by_in_set [of _ "\<lambda>c. c = bslash" "map fold_char s"] by fastforce
  finally have "set ?c \<subseteq> insert bslash (set (map fold_char s))" .
  moreover have "canon_char bslash" by (simp add: canon_char_def is_ascii_uppercase_def)
  ultimately have "list_all canon_char ?c" using fold_char_canon by (fastforce simp: list_all_iff)
  moreover have "list_all (\<lambda>g. g = [] \<or> \<not> dot_or_space (last g)) (segments ?c)"
    unfolding seg list_all_iff using trim_end_matches_last by fastforce
  ultimately show ?thesis by (simp add: is_canonical_def)
qed

lemma canonical_fixed: "is_canonical s \<Longrightarrow> canonicalize_for_denylist s = s"
  by (auto simp: is_canonical_def canonicalize_for_denylist_def list_all_iff list_ex_iff canon_char_def ends_dot_space_iff)

text \<open>C8: the form on which the denylist works has no capital ASCII letter, no slash, and no dot or space at the end of a segment; its
  segments between backslashes are, one by one, those of the path with slashes turned and capitals lowered, less the dots and
  spaces at their ends; so two spellings have the same form exactly when they agree segment by segment up to ASCII case, the
  direction of slashes and these trailing dots and spaces, and the form of a form is itself. Nothing else is identified: NT
  prefixes, \<open>.\<close> segments and doubled separators stay.\<close>

theorem denylist_form_canonical:
  "is_canonical (canonicalize_for_denylist s) \<and>
   segments (canonicalize_for_denylist s) = map (trim_end_matches dot_or_space) (segments (map fold_char s)) \<and>
   canonicalize_for_denylist (canonicalize_for_denylist s) = canonicalize_for_denylist s \<and>
   (canonicalize_for_denylist s = canonicalize_for_denylist t) =
     (map (trim_end_matches dot_or_space) (segments (map fold_char s)) = map (trim_end_matches dot_or_space) (segments (map fold_char t)))"
  using canonical_fixed [OF canonical_is_canonical] canonical_is_canonical [of s]
  by (simp flip: canonical_segments add: split_by_inj)

section \<open>The state directory\<close>

text \<open>The two substring tests find exactly the segment, except as the first one.\<close>

lemma str_contains_iff: "str_contains s p \<longleftrightarrow> (\<exists>a b. s = a @ p @ b)"
proof (induction s)
  case (Cons c s)
  note IH = this
  show ?case
  proof
    assume "str_contains (c # s) p"
    then consider "starts_with (c # s) p" | "str_contains s p" by auto
    then show "\<exists>a b. c # s = a @ p @ b"
    proof cases
      case 1
      then show ?thesis by (auto simp: starts_with_iff intro: exI [of _ "[]"])
    next
      case 2
      with Cons show ?thesis by (metis append_Cons)
    qed
  next
    assume "\<exists>a b. c # s = a @ p @ b"
    then obtain a b where e: "c # s = a @ p @ b" by blast
    show "str_contains (c # s) p"
    proof (cases a)
      case Nil
      with e have "starts_with (c # s) p" by (simp add: starts_with_iff)
      then show ?thesis by simp
    next
      case (Cons x a')
      with e have "s = a' @ p @ b" by simp
      then have "\<exists>a b. s = a @ p @ b" by blast
      with IH show ?thesis by simp
    qed
  qed
qed simp

lemma segment_found:
  assumes g: "bslash \<notin> set g"
  shows "str_contains s (bslash # g @ [bslash]) \<or> ends_with s (bslash # g) \<longleftrightarrow> g \<in> set (tl (segments s))"
proof
  have sg: "segments g = [g]" by (rule split_by_no_sep) (use g in auto)
  assume "str_contains s (bslash # g @ [bslash]) \<or> ends_with s (bslash # g)"
  then consider a b where "s = a @ bslash # (g @ bslash # b)" | a where "s = a @ bslash # g"
    by (auto simp: str_contains_iff ends_with_iff)
  then show "g \<in> set (tl (segments s))"
  proof cases
    case 1
    have "segments s = segments a @ segments g @ segments b" unfolding 1 by (simp add: split_by_append_sep)
    then have "segments s = segments a @ g # segments b" by (simp add: sg)
    then show ?thesis by (cases "segments a") auto
  next
    case 2
    have "segments s = segments a @ segments g" unfolding 2 by (simp add: split_by_append_sep)
    then have "segments s = segments a @ [g]" by (simp add: sg)
    then show ?thesis by (cases "segments a") auto
  qed
next
  assume "g \<in> set (tl (segments s))"
  then obtain xs ys where t: "tl (segments s) = xs @ g # ys" by (meson split_list)
  obtain y zs where "segments s = y # zs" by (rule split_by_cases)
  with t have sp: "segments s = (y # xs) @ g # ys" by simp
  have s: "s = join_with bslash (segments s)" by simp
  show "str_contains s (bslash # g @ [bslash]) \<or> ends_with s (bslash # g)"
  proof (cases ys)
    case Nil
    have "s = join_with bslash (y # xs) @ bslash # g" by (subst s) (simp add: sp Nil join_with_append [of "y # xs" "[g]", simplified])
    then show ?thesis by (auto simp: ends_with_iff)
  next
    case (Cons h hs)
    have "s = join_with bslash (y # xs) @ bslash # join_with bslash (g # h # hs)"
      by (subst s, unfold sp Cons, rule join_with_append) simp_all
    then show ?thesis unfolding str_contains_iff by (metis append.assoc append_Cons append_Nil join_with.simps(3))
  qed
qed

text \<open>C7: however a guest spells a path that has the state directory as a component behind the first, when the denylist lets it pass
  the path is an ancestor of an overlay root, or lies below one and is none of the control files.\<close>

theorem state_directory_hidden:
  assumes "''.winrsbox'' \<in> set (tl (segments (canonicalize_for_denylist raw)))"
    and "canonical_denylist_status pf C V (canonicalize_for_denylist raw) = None"
    and "dos = unwrap_or (strip_nt_dos_prefix (canonicalize_for_denylist raw)) (canonicalize_for_denylist raw)"
  shows "\<exists>root \<in> set (known_roots C).
     trim_bslash dos \<noteq> [] \<and> starts_with (trim_bslash (to_ascii_lowercase root)) (trim_bslash dos @ [bslash]) \<or>
     trim_bslash (to_ascii_lowercase root) \<noteq> [] \<and> pattern_matches_prefix (trim_bslash (to_ascii_lowercase root)) dos \<and>
       last (segments dos) \<notin> set CONTROL_NAMES \<and> \<not> ends_with (last (segments dos)) ''.redb''"
proof -
  let ?c = "canonicalize_for_denylist raw"
  have w: "win ''|.winrsbox|'' = bslash # ''.winrsbox'' @ [bslash]" "win ''|.winrsbox'' = bslash # ''.winrsbox''" by (simp_all add: win_defs)
  have "str_contains ?c (win ''|.winrsbox|'') \<or> ends_with ?c (win ''|.winrsbox'')"
    using segment_found [of "''.winrsbox''" ?c] assms(1) unfolding w by simp
  with assms(2) have "is_self_overlay_workdir_access C ?c \<or> is_overlay_root_ancestor C ?c"
    by (auto simp: canonical_denylist_status_def Let_def split: if_splits)
  then show ?thesis
  proof
    assume "is_self_overlay_workdir_access C ?c"
    then show ?thesis unfolding assms(3)
      by (auto simp: is_self_overlay_workdir_access_def is_control_file_def Let_def list_ex_iff split: if_splits)
  next
    assume "is_overlay_root_ancestor C ?c"
    then show ?thesis unfolding assms(3)
      by (auto simp: is_overlay_root_ancestor_def Let_def list_ex_iff split: if_splits)
  qed
qed

definition example_config :: hook_config where
  "example_config = \<lparr>hc_overlay_roots = Some [win ''D:|p|.winrsbox|s|workdir''], hc_sandbox_root = None\<rparr>"

lemma state_directory_hidden_witness:
  "canonical_denylist_status ascii_platform example_config quiet_view (canonicalize_for_denylist (win ''|??|D:/p|.WINRSBOX. |s'')) = None \<and>
   (\<exists>root \<in> set (known_roots example_config).
     trim_bslash (win ''d:|p|.winrsbox|s'') \<noteq> [] \<and>
       starts_with (trim_bslash (to_ascii_lowercase root)) (trim_bslash (win ''d:|p|.winrsbox|s'') @ [bslash]) \<or>
     trim_bslash (to_ascii_lowercase root) \<noteq> [] \<and> pattern_matches_prefix (trim_bslash (to_ascii_lowercase root)) (win ''d:|p|.winrsbox|s'') \<and>
       last (segments (win ''d:|p|.winrsbox|s'')) \<notin> set CONTROL_NAMES \<and> \<not> ends_with (last (segments (win ''d:|p|.winrsbox|s''))) ''.redb'')"
proof -
  let ?raw = "win ''|??|D:/p|.WINRSBOX. |s''"
  have n: "canonical_denylist_status ascii_platform example_config quiet_view (canonicalize_for_denylist ?raw) = None" by code_simp
  have m: "''.winrsbox'' \<in> set (tl (segments (canonicalize_for_denylist ?raw)))" by code_simp
  have d: "win ''d:|p|.winrsbox|s'' = unwrap_or (strip_nt_dos_prefix (canonicalize_for_denylist ?raw)) (canonicalize_for_denylist ?raw)"
    by code_simp
  show ?thesis using n state_directory_hidden [OF m n d] by blast
qed

section \<open>Access classes\<close>

text \<open>Every access that can change a file is a write, whatever else is asked for.\<close>

lemma write_bits_cover:
  "b \<in> {GENERIC_ALL, GENERIC_WRITE, FILE_WRITE_DATA, FILE_APPEND_DATA, FILE_WRITE_EA, FILE_WRITE_ATTRIBUTES, DELETE, WRITE_DAC, WRITE_OWNER,
     MAXIMUM_ALLOWED} \<Longrightarrow> and desired b \<noteq> 0 \<Longrightarrow> is_write_access desired disposition"
proof -
  have o: "and p (or a b) \<noteq> 0 \<longleftrightarrow> and p a \<noteq> 0 \<or> and p b \<noteq> 0" for p a b :: u32
    by (simp add: bit.conj_disj_distrib or_eq_0_iff)
  assume "b \<in> {GENERIC_ALL, GENERIC_WRITE, FILE_WRITE_DATA, FILE_APPEND_DATA, FILE_WRITE_EA, FILE_WRITE_ATTRIBUTES, DELETE, WRITE_DAC,
     WRITE_OWNER, MAXIMUM_ALLOWED}" and "and desired b \<noteq> 0"
  then show ?thesis unfolding is_write_access_def write_bits_def o by auto
qed

lemma create_is_write: "is_create_disposition d \<Longrightarrow> is_write_access desired d"
  by (auto simp: is_create_disposition_def is_write_access_def)

lemma delete_only_is_write: "is_delete_only_access desired d \<Longrightarrow> is_write_access desired d"
  using write_bits_cover [of DELETE] by (auto simp: is_delete_only_access_def)

lemma read_intent_keeps_file:
  "\<not> dead_end_write_intent desired (Some d) options \<Longrightarrow> \<not> is_create_disposition d \<and> and desired DELETE = 0 \<and> and options FILE_DELETE_ON_CLOSE = 0"
  using create_is_write [of d desired] write_bits_cover [of DELETE desired d] by (auto simp: dead_end_write_intent_def)

section \<open>Device names\<close>

text \<open>A verdict that lets a write through means a name that counts as a pipe, a socket, the console or the null device.\<close>

lemma passed_kind:
  "kind_verdict k True = PassDevice \<longleftrightarrow> k \<in> {NamedPipe, Socket, Console, NullDevice}"
  "kind_verdict k True \<noteq> PassDevice \<longrightarrow> kind_verdict k True \<noteq> UnhandledDevice \<or> k = HarddiskVolume"
  by (cases k; simp add: kind_verdict_def)+

text \<open>The test for a console searches the whole path: a file of the disk whose name contains the word counts as one when the volume is
  named by its identifier instead of its letter or its device. The write is neither resolved, decided nor refused.\<close>

definition volume_path :: "string" where
  "volume_path = win ''|??|Volume{0a}|Users|me|console.txt''"

definition volume_attributes :: object_attributes where
  "volume_attributes = \<lparr>oa_root_directory = None,
     oa_object_name = Some \<lparr>us_length = of_nat (2 * length volume_path), us_buffer = Some (map of_char volume_path)\<rparr>, oa_attributes = 0\<rparr>"

lemma volume_units: "from_utf16_lossy (map of_char volume_path) = volume_path" "encode_utf16 (utf8_decode volume_path) = map of_char volume_path"
proof -
  have a: "is_ascii volume_path" by code_simp
  show e: "encode_utf16 (utf8_decode volume_path) = map of_char volume_path"
    using encode_utf16_ascii [OF a, of "[]"] by (simp add: utf8_decode_ascii [OF a] encode_utf16_def)
  show "from_utf16_lossy (map of_char volume_path) = volume_path"
    using from_utf16_encode [OF ascii_valid_utf8 [OF a]] unfolding e .
qed

lemma volume_path_counts_as_console:
  "classify_by_name ascii_platform (Some volume_attributes) True = PassDevice \<and>
   canonical_denylist_status ascii_platform example_config quiet_view (canonicalize_for_denylist volume_path) = None \<and>
   nt_to_dos_lower ascii_platform (map of_char volume_path) = None"
proof -
  have l: "length volume_path = 35" by code_simp
  have x: "extract_raw_nt_path (Some volume_attributes) = Some volume_path"
    by (simp add: extract_raw_nt_path_def volume_attributes_def l volume_units(1))
  have f: "nt_case_fold ascii_platform (trim_end_matches (\<lambda>c. c = CHR 0x00) volume_path) = to_ascii_lowercase volume_path" by code_simp
  have "nt_to_device_path ascii_platform (map of_char volume_path) = Some (drop 4 (to_ascii_lowercase volume_path))"
    unfolding nt_to_device_path_def volume_units(1) f Let_def by code_simp
  moreover have "classify_device ascii_platform (drop 4 (to_ascii_lowercase volume_path)) = Console" by code_simp
  ultimately have "classify_by_name ascii_platform (Some volume_attributes) True = PassDevice"
    by (simp add: classify_by_name_def x volume_units(2) kind_verdict_def)
  moreover have "canonical_denylist_status ascii_platform example_config quiet_view (canonicalize_for_denylist volume_path) = None"
    by code_simp
  moreover have "strip_nt_prefix (takeWhile (\<lambda>u. u \<noteq> 0) (map of_char volume_path)) = Some (map of_char (drop 4 volume_path))"
    by (simp add: strip_nt_prefix_def has_nt_prefix_def volume_path_def win_defs)
  then have "nt_to_dos_lower ascii_platform (map of_char volume_path) = None"
    by (simp add: nt_to_dos_lower_def nt_to_dos_impl_def starts_with_u16_ascii_def volume_path_def win_defs)
  ultimately show ?thesis by blast
qed

end
