(* ===== verification/GuestOverlay.thy ===== *)
theory GuestOverlay
  imports GuestDeny
begin

text \<open>
  What the hook library writes to disk in a guest (\<^verbatim>\<open>winrsbox-hook/src/core/hooks/overlay.rs\<close>): directories and first copies of
  files in the overlay, and the files of mock rules. Every question to the file system is put at a moment of its own, so
  anything may change between a check and the operation after it.
\<close>

section \<open>Destinations\<close>

definition no_dot_segments :: "string \<Rightarrow> bool" where
  "no_dot_segments p \<longleftrightarrow> \<not> list_ex (\<lambda>seg. seg = [dot] \<or> seg = [dot, dot]) (split_by is_sep p)"

definition mock_root :: "string \<Rightarrow> string option" where
  "mock_root root_trim =
     (case path_parent root_trim of
        None \<Rightarrow> None
      | Some state \<Rightarrow>
          (let state_trim = trim_bslash state
           in if state_trim \<noteq> [] \<and> path_parent state \<noteq> None then Some (state_trim @ win ''|mock-dirs'') else None))"

definition overlay_dest_in_roots :: "string \<Rightarrow> string list \<Rightarrow> bool" where
  "overlay_dest_in_roots dest_lower roots_lower =
     (let dest_trim = trim_end_matches is_sep dest_lower
      in if dest_trim = [] then False
         else if \<not> no_dot_segments dest_trim then False
         else list_ex
           (\<lambda>root. (let root_trim = trim_bslash root
              in if root_trim = [] then False
                 else if pattern_matches_prefix root_trim dest_trim then True
                 else (case mock_root root_trim of Some m \<Rightarrow> pattern_matches_prefix m dest_trim | None \<Rightarrow> False)))
           roots_lower)"

definition overlay_roots_lower :: "hook_config \<Rightarrow> string list" where
  "overlay_roots_lower C = map to_ascii_lowercase (known_roots C)"

definition normalize_resolved_dos :: "string \<Rightarrow> string" where
  "normalize_resolved_dos p =
     to_ascii_lowercase
       (case strip_prefix (win ''||?|UNC|'') p of
          Some rest \<Rightarrow> win ''||'' @ rest
        | None \<Rightarrow> (case strip_prefix (win ''||?|'') p of Some rest \<Rightarrow> rest | None \<Rightarrow> p))"

section \<open>Directories\<close>

definition resolved_parent_in_roots :: "'e hook_env_scheme \<Rightarrow> string \<Rightarrow> string list \<Rightarrow> guest \<Rightarrow> bool \<times> guest" where
  "resolved_parent_in_roots E p roots s =
     (let (c, s) = ask (\<lambda>t. os_canonicalize (hk_os E t) p) s
      in case c of None \<Rightarrow> (False, s) | Some c \<Rightarrow> (overlay_dest_in_roots (normalize_resolved_dos c) roots, s))"

definition metadata_found :: "'e hook_env_scheme \<Rightarrow> string \<Rightarrow> guest \<Rightarrow> bool \<times> guest" where
  "metadata_found E p s =
     (let (md, s) = ask (\<lambda>t. os_symlink_metadata (hk_os E t) p) s in (case md of Found m \<Rightarrow> True | _ \<Rightarrow> False, s))"

text \<open>The walk up to the deepest existing ancestor.\<close>

function existing_ancestor :: "'e hook_env_scheme \<Rightarrow> string \<Rightarrow> string list \<Rightarrow> guest \<Rightarrow> (string \<times> string list) option \<times> guest" where
  "existing_ancestor E cur missing_tail s =
     (let (found, s) = metadata_found E cur s
      in if found then (Some (cur, missing_tail), s)
         else (case path_parent cur of
                 Some up \<Rightarrow>
                   (case path_file_name cur of
                      Some name \<Rightarrow> existing_ancestor E up (missing_tail @ [name]) s
                    | None \<Rightarrow> (None, s))
               | None \<Rightarrow> (None, s)))"
  by pat_completeness auto
termination
  by (relation "measure (\<lambda>(E, cur, t, s). length cur)") (auto simp: path_parent_shorter)

declare existing_ancestor.simps [simp del]

definition rejoin :: "string \<Rightarrow> string list \<Rightarrow> string" where
  "rejoin anchor missing_tail = foldl (\<lambda>joined seg. joined @ bslash # seg) anchor (rev missing_tail)"

text \<open>
  \<^verbatim>\<open>std::fs::create_dir_all\<close> as the standard library has it: one directory is tried; when its parent is missing, the
  parent is created in the same way and the directory tried again; and an error is forgiven when a directory is
  there.
\<close>

definition make_dir :: "'e hook_env_scheme \<Rightarrow> string \<Rightarrow> guest \<Rightarrow> mkdir_answer \<times> guest" where
  "make_dir E path s =
     (let (r, s) = ask (\<lambda>t. os_mkdir (hk_os E t) path) s in (r, if r = DirMade then emit (MadeDir path) s else s))"

function create_dir_all :: "'e hook_env_scheme \<Rightarrow> string \<Rightarrow> guest \<Rightarrow> bool \<times> guest" where
  "create_dir_all E path s =
     (if path = [] then (True, s)
      else (let (r, s) = make_dir E path s
            in case r of
                 DirMade \<Rightarrow> (True, s)
               | MkdirFailed \<Rightarrow> ask (\<lambda>t. os_is_dir (hk_os E t) path) s
               | ParentMissing \<Rightarrow>
                   (case path_parent path of
                      None \<Rightarrow> (False, s)
                    | Some up \<Rightarrow>
                        (let (ok, s) = create_dir_all E up s
                         in if \<not> ok then (False, s)
                            else (let (r, s) = make_dir E path s
                                  in if r = DirMade then (True, s) else ask (\<lambda>t. os_is_dir (hk_os E t) path) s)))))"
  by pat_completeness auto
termination
  by (relation "measure (\<lambda>(E, path, s). length path)") (auto simp: path_parent_shorter)

declare create_dir_all.simps [simp del]

definition verified_create_dir_all :: "'e hook_env_scheme \<Rightarrow> string \<Rightarrow> string list \<Rightarrow> guest \<Rightarrow> bool \<times> guest" where
  "verified_create_dir_all E parent roots s =
     (let (found, s) = metadata_found E parent s
      in if found then resolved_parent_in_roots E parent roots s
         else (let (walk, s) = existing_ancestor E parent [] s
               in case walk of
                    None \<Rightarrow> (False, s)
                  | Some (cur, missing_tail) \<Rightarrow>
                      (let (a, s) = ask (\<lambda>t. os_canonicalize (hk_os E t) cur) s
                       in case a of
                            None \<Rightarrow> (False, s)
                          | Some a \<Rightarrow>
                              (let joined = rejoin (normalize_resolved_dos a) missing_tail
                               in if \<not> overlay_dest_in_roots (to_ascii_lowercase joined) roots then (False, emit SentViolation s)
                                  else (let (ok, s) = create_dir_all E parent s
                                        in if \<not> ok then (False, s)
                                           else (let (still, s) = resolved_parent_in_roots E parent roots s
                                                 in if \<not> still then (False, emit SentViolation s) else (True, s)))))))"

section \<open>Files\<close>

definition discard_torn_materialization :: "string \<Rightarrow> guest \<Rightarrow> guest" where
  "discard_torn_materialization p s = emit (RemovedFile p) s"

text \<open>\<^verbatim>\<open>create_new\<close> without following the last component, and the transfer of the bytes through the two open handles.\<close>

definition create_and_fill :: "'e hook_env_scheme \<Rightarrow> string \<Rightarrow> guest \<Rightarrow> bool \<times> guest" where
  "create_and_fill E p s =
     (let (r, s) = ask (\<lambda>t. os_create_new (hk_os E t) p) s
      in case r of
           AlreadyExists \<Rightarrow> (True, s)
         | CreateFailed \<Rightarrow> (False, s)
         | Created \<Rightarrow>
             (let s = emit (CreatedFile p) s; (ok, s) = ask (\<lambda>t. os_transfer (hk_os E t) p) s
              in if ok then (True, s) else (False, discard_torn_materialization p s)))"

definition cow_copy_verified :: "'e hook_env_scheme \<Rightarrow> string \<Rightarrow> string \<Rightarrow> guest \<Rightarrow> bool \<times> guest" where
  "cow_copy_verified E src overlay_path s =
     (let (h, s) = ask (\<lambda>t. os_open (hk_os E t) src) s
      in case h of
           None \<Rightarrow> (False, s)
         | Some None \<Rightarrow> (False, s)
         | Some (Some final) \<Rightarrow>
             if canonicalize_for_denylist (normalize_resolved_dos final) \<noteq> canonicalize_for_denylist src
             then (False, emit SentViolation s)
             else create_and_fill E overlay_path s)"

definition prepare_overlay_in_roots :: "'e hook_env_scheme \<Rightarrow> decision \<Rightarrow> string list \<Rightarrow> guest \<Rightarrow> string option \<times> guest" where
  "prepare_overlay_in_roots E d roots s =
     (case d_overlay d of
        None \<Rightarrow> (None, s)
      | Some overlay_dos \<Rightarrow>
          if \<not> overlay_dest_in_roots (to_ascii_lowercase overlay_dos) roots then (None, emit SentViolation s)
          else (let (parent_ok, s) =
                  (case path_parent overlay_dos of
                     None \<Rightarrow> (True, s)
                   | Some parent \<Rightarrow>
                       if overlay_dest_in_roots (to_ascii_lowercase parent) roots then verified_create_dir_all E parent roots s
                       else (let (found, s) = metadata_found E overlay_dos s
                             in if found then resolved_parent_in_roots E overlay_dos roots s else (False, s)))
                in if \<not> parent_ok then (None, emit SentViolation s)
                   else (case d_cow_from d of
                           None \<Rightarrow> (Some overlay_dos, s)
                         | Some src \<Rightarrow>
                             (let (there, s) = ask (\<lambda>t. os_exists (hk_os E t) overlay_dos) s
                              in if there then (Some overlay_dos, s)
                                 else (let (copied, s) = cow_copy_verified E src overlay_dos s in (Some overlay_dos, s))))))"

definition prepare_overlay :: "'e hook_env_scheme \<Rightarrow> hook_config \<Rightarrow> decision \<Rightarrow> guest \<Rightarrow> string option \<times> guest" where
  "prepare_overlay E C d s = prepare_overlay_in_roots E d (overlay_roots_lower C) s"

definition materialize_mock_overlay_in_roots :: "'e hook_env_scheme \<Rightarrow> string \<Rightarrow> string list \<Rightarrow> guest \<Rightarrow> guest" where
  "materialize_mock_overlay_in_roots E overlay_path roots s =
     (let (there, s) = ask (\<lambda>t. os_exists (hk_os E t) overlay_path) s
      in if there then s
         else if \<not> overlay_dest_in_roots (to_ascii_lowercase overlay_path) roots then emit SentViolation s
         else (case path_parent overlay_path of
                 None \<Rightarrow> s
               | Some parent \<Rightarrow>
                   (let (ok, s) = verified_create_dir_all E parent roots s
                    in if \<not> ok then emit SentViolation s else snd (create_and_fill E overlay_path s))))"

definition materialize_mock_overlay :: "'e hook_env_scheme \<Rightarrow> hook_config \<Rightarrow> string \<Rightarrow> guest \<Rightarrow> guest" where
  "materialize_mock_overlay E C overlay_path s = materialize_mock_overlay_in_roots E overlay_path (overlay_roots_lower C) s"

section \<open>Everything the hook library writes is inside the overlay roots\<close>

text \<open>The names above a path: \<open>n\<close> steps up, with the names left behind.\<close>

primrec climb :: "nat \<Rightarrow> string \<Rightarrow> (string \<times> string list) option" where
  "climb 0 p = Some (p, [])"
| "climb (Suc n) p =
     (case climb n p of
        None \<Rightarrow> None
      | Some (c, t) \<Rightarrow>
          (case (path_parent c, path_file_name c) of
             (Some up, Some name) \<Rightarrow> Some (up, t @ [name])
           | _ \<Rightarrow> None))"

text \<open>
  At moment \<open>u\<close> an ancestor of \<open>p\<close> resolves to a place from which the rest of \<open>p\<close> leads into the roots; and
  \<open>p\<close> itself does.
\<close>

definition anchored :: "'e hook_env_scheme \<Rightarrow> string list \<Rightarrow> nat \<Rightarrow> string \<Rightarrow> bool" where
  "anchored E roots u p \<longleftrightarrow>
     (\<exists>n cur t a. climb n p = Some (cur, t) \<and> os_canonicalize (hk_os E u) cur = Some a \<and>
        overlay_dest_in_roots (to_ascii_lowercase (rejoin (normalize_resolved_dos a) t)) roots)"

text \<open>
  The path \<open>n\<close> steps above another one. A directory made for a destination is the directory of the
  destination, which was anchored so that it stays in the roots, or one of the missing ones above it.
\<close>

primrec above :: "nat \<Rightarrow> string \<Rightarrow> string option" where
  "above 0 p = Some p"
| "above (Suc n) p = (case above n p of None \<Rightarrow> None | Some q \<Rightarrow> path_parent q)"

definition dest_dir :: "string list \<Rightarrow> string \<Rightarrow> bool" where
  "dest_dir roots d \<longleftrightarrow> (\<exists>p. overlay_dest_in_roots (to_ascii_lowercase p) roots \<and> path_parent p = Some d)"

definition dir_on_the_way :: "'e hook_env_scheme \<Rightarrow> string list \<Rightarrow> nat \<Rightarrow> nat \<Rightarrow> string \<Rightarrow> bool" where
  "dir_on_the_way E roots t0 t q \<longleftrightarrow>
     (\<exists>d n u. dest_dir roots d \<and> above n d = Some q \<and> t0 \<le> u \<and> u < t \<and> anchored E roots u d)"

definition resolves_inside :: "'e hook_env_scheme \<Rightarrow> string list \<Rightarrow> nat \<Rightarrow> string \<Rightarrow> bool" where
  "resolves_inside E roots u p \<longleftrightarrow>
     (\<exists>c. os_canonicalize (hk_os E u) p = Some c \<and> overlay_dest_in_roots (normalize_resolved_dos c) roots)"

definition verified_target :: "'e hook_env_scheme \<Rightarrow> string list \<Rightarrow> nat \<Rightarrow> nat \<Rightarrow> string \<Rightarrow> bool" where
  "verified_target E roots t0 t p \<longleftrightarrow>
     overlay_dest_in_roots (to_ascii_lowercase p) roots \<and>
     (\<forall>parent. path_parent p = Some parent \<longrightarrow>
        (\<exists>u. t0 \<le> u \<and> u < t \<and> (resolves_inside E roots u parent \<or> resolves_inside E roots u p)))"

text \<open>What an effect of a call that began at \<open>t0\<close> has to satisfy.\<close>

definition confined :: "'e hook_env_scheme \<Rightarrow> string list \<Rightarrow> nat \<Rightarrow> nat \<times> effect \<Rightarrow> bool" where
  "confined E roots t0 x =
     (case x of (t, e) \<Rightarrow>
        (case e of
           SentViolation \<Rightarrow> True
         | MadeDir p \<Rightarrow> dir_on_the_way E roots t0 t p
         | CreatedFile p \<Rightarrow> verified_target E roots t0 t p
         | RemovedFile p \<Rightarrow> verified_target E roots t0 t p
         | _ \<Rightarrow> False))"

definition only_confined :: "'e hook_env_scheme \<Rightarrow> string list \<Rightarrow> nat \<Rightarrow> guest \<Rightarrow> guest \<Rightarrow> bool" where
  "only_confined E roots t0 s s' \<longleftrightarrow>
     gu_time s \<le> gu_time s' \<and> gu_cache s' = gu_cache s \<and> gu_published s' = gu_published s \<and>
     (\<exists>es. gu_effects s' = gu_effects s @ es \<and> list_all (confined E roots t0) es)"

lemma confined_simps [simp]:
  "confined E roots t0 (t, SentViolation)"
  "confined E roots t0 (t, MadeDir p) \<longleftrightarrow> dir_on_the_way E roots t0 t p"
  "confined E roots t0 (t, CreatedFile p) \<longleftrightarrow> verified_target E roots t0 t p"
  "confined E roots t0 (t, RemovedFile p) \<longleftrightarrow> verified_target E roots t0 t p"
  by (simp_all add: confined_def)

lemma only_confined_refl [simp]: "only_confined E roots t0 s s"
  by (simp add: only_confined_def)

lemma only_confined_trans:
  assumes "only_confined E roots t0 s s1" and "only_confined E roots t0 s1 s2"
  shows "only_confined E roots t0 s s2"
proof -
  from assms obtain es1 es2 where "gu_effects s1 = gu_effects s @ es1" "list_all (confined E roots t0) es1"
      "gu_effects s2 = gu_effects s1 @ es2" "list_all (confined E roots t0) es2"
    unfolding only_confined_def by blast
  then have "gu_effects s2 = gu_effects s @ (es1 @ es2) \<and> list_all (confined E roots t0) (es1 @ es2)" by simp
  then have "\<exists>es. gu_effects s2 = gu_effects s @ es \<and> list_all (confined E roots t0) es" by blast
  moreover have "gu_time s \<le> gu_time s2" using assms unfolding only_confined_def by linarith
  moreover have "gu_cache s2 = gu_cache s" "gu_published s2 = gu_published s" using assms unfolding only_confined_def by simp_all
  ultimately show ?thesis unfolding only_confined_def by blast
qed

lemma only_confined_time: "only_confined E roots t0 s s' \<Longrightarrow> gu_time s \<le> gu_time s'"
  by (simp add: only_confined_def)

lemma only_confined_ask: "ask q s = (r, s') \<Longrightarrow> only_confined E roots t0 s s' \<and> r = q (gu_time s) \<and> gu_time s' = Suc (gu_time s)"
  by (auto simp: ask_def only_confined_def)

lemma only_confined_emit: "confined E roots t0 (gu_time s, e) \<Longrightarrow> only_confined E roots t0 s (emit e s)"
  by (simp add: only_confined_def)

lemma verified_target_later: "verified_target E roots t0 t p \<Longrightarrow> t \<le> t' \<Longrightarrow> verified_target E roots t0 t' p"
  by (meson less_le_trans verified_target_def)

lemma resolved_parent_cases:
  assumes "resolved_parent_in_roots E p roots s = (b, s')"
  shows "only_confined E roots t0 s s' \<and> gu_time s' = Suc (gu_time s) \<and> b = resolves_inside E roots (gu_time s) p"
  using assms by (auto simp: resolved_parent_in_roots_def resolves_inside_def ask_def only_confined_def split: option.splits)

lemma metadata_found_cases: "metadata_found E p s = (b, s') \<Longrightarrow> only_confined E roots t0 s s' \<and> gu_time s' = Suc (gu_time s)"
  by (auto simp: metadata_found_def ask_def only_confined_def)

lemma existing_ancestor_cases:
  assumes "existing_ancestor E cur t s = (r, s')" and "climb n p = Some (cur, t)"
  shows "only_confined E roots t0 s s' \<and> (\<forall>c t'. r = Some (c, t') \<longrightarrow> (\<exists>n. climb n p = Some (c, t')))"
  using assms
proof (induction E cur t s arbitrary: n r s' rule: existing_ancestor.induct)
  case (1 E cur t s)
  obtain b s1 where m: "metadata_found E cur s = (b, s1)" by fastforce
  note k = metadata_found_cases [OF m, THEN conjunct1]
  show ?case
  proof (cases "\<not> b \<and> path_parent cur \<noteq> None \<and> path_file_name cur \<noteq> None")
    case True
    then obtain up name where u: "path_parent cur = Some up" "path_file_name cur = Some name" and nb: "\<not> b" by blast
    have r: "existing_ancestor E up (t @ [name]) s1 = (r, s')"
      using "1.prems"(1) m u nb by (subst (asm) existing_ancestor.simps) simp
    have "climb (Suc n) p = Some (up, t @ [name])" using "1.prems"(2) u by simp
    from "1.IH" [OF m [symmetric] _ nb u r this] only_confined_trans [OF k] show ?thesis by blast
  next
    case False
    have "s' = s1 \<and> (r = None \<or> r = Some (cur, t))"
      using "1.prems"(1) m False by (subst (asm) existing_ancestor.simps) (auto split: if_splits option.splits)
    with k "1.prems"(2) show ?thesis by auto
  qed
qed

lemma make_dir_cases:
  assumes "make_dir E path s = (r, s')" and "\<And>t. gu_time s < t \<Longrightarrow> dir_on_the_way E roots t0 t path"
  shows "only_confined E roots t0 s s'"
proof -
  obtain a s1 where q: "ask (\<lambda>t. os_mkdir (hk_os E t) path) s = (a, s1)" by fastforce
  note k = only_confined_ask [OF q, of E roots t0]
  with assms(2) have "only_confined E roots t0 s (emit (MadeDir path) s1)"
    using only_confined_trans [OF conjunct1 [OF k] only_confined_emit] by simp
  with assms(1) q k show ?thesis by (auto simp: make_dir_def split: if_splits)
qed

lemma create_dir_all_cases:
  assumes "create_dir_all E path s = (ok, s')" and "dest_dir roots d" and "above n d = Some path"
    and "t0 \<le> u" and "u < gu_time s" and "anchored E roots u d"
  shows "only_confined E roots t0 s s'"
  using assms
proof (induction E path s arbitrary: n ok s' rule: create_dir_all.induct)
  case (1 E path s)
  have way: "dir_on_the_way E roots t0 t path" if "gu_time s < t" for t
    using "1.prems"(2-6) that unfolding dir_on_the_way_def by (meson less_trans)
  obtain r s1 where m: "make_dir E path s = (r, s1)" by fastforce
  have g1: "only_confined E roots t0 s s1" by (rule make_dir_cases [OF m way])
  have isdir: "only_confined E roots t0 s s''" if "ask (\<lambda>t. os_is_dir (hk_os E t) path) sx = (b, s'')" "only_confined E roots t0 s sx"
    for sx b s'' using only_confined_trans [OF that(2)] only_confined_ask [OF that(1), of E roots t0] by blast
  show ?case
  proof (cases "path \<noteq> [] \<and> r = ParentMissing \<and> path_parent path \<noteq> None")
    case False
    with "1.prems"(1) m g1 isdir [of s1 ok s'] show ?thesis
      by (subst (asm) create_dir_all.simps) (auto split: if_splits mkdir_answer.splits option.splits)
  next
    case True
    then obtain up where up: "path_parent path = Some up" and ne: "path \<noteq> []" and r: "r = ParentMissing" by blast
    obtain okp s2 where p: "create_dir_all E up s1 = (okp, s2)" by fastforce
    have "above (Suc n) d = Some up" using "1.prems"(3) up by simp
    moreover have "u < gu_time s1" using "1.prems"(5) only_confined_time [OF g1] by simp
    ultimately have "only_confined E roots t0 s1 s2"
      using "1.IH" [OF ne m [symmetric] _ r up p "1.prems"(2) _ "1.prems"(4) _ "1.prems"(6)] by blast
    then have g2: "only_confined E roots t0 s s2" by (rule only_confined_trans [OF g1])
    obtain r2 s3 where m2: "make_dir E path s2 = (r2, s3)" by fastforce
    have "dir_on_the_way E roots t0 t path" if "gu_time s2 < t" for t
      using way that only_confined_time [OF g2] by simp
    then have "only_confined E roots t0 s2 s3" by (rule make_dir_cases [OF m2])
    then have g3: "only_confined E roots t0 s s3" by (rule only_confined_trans [OF g2])
    from "1.prems"(1) m ne r up p m2
    have "(ok, s') = (if \<not> okp then (False, s2) else if r2 = DirMade then (True, s3) else ask (\<lambda>t. os_is_dir (hk_os E t) path) s3)"
      by (subst (asm) create_dir_all.simps) (auto split: if_splits)
    with g2 g3 isdir [of s3 ok s'] show ?thesis by (auto split: if_splits)
  qed
qed

lemma verified_create_dir_all_cases:
  assumes "verified_create_dir_all E parent roots s = (b, s')" and t0: "t0 \<le> gu_time s" and dest: "dest_dir roots parent"
  shows "only_confined E roots t0 s s' \<and> (b \<longrightarrow> (\<exists>u. t0 \<le> u \<and> u < gu_time s' \<and> resolves_inside E roots u parent))"
proof -
  obtain f s1 where m: "metadata_found E parent s = (f, s1)" by fastforce
  note k1 = metadata_found_cases [OF m, of roots t0]
  show ?thesis
  proof (cases f)
    case True
    with assms(1) m have "resolved_parent_in_roots E parent roots s1 = (b, s')" by (simp add: verified_create_dir_all_def)
    from resolved_parent_cases [OF this, of t0] k1 t0 show ?thesis
      by (auto intro: only_confined_trans intro!: exI [of _ "gu_time s1"])
  next
    case False
    obtain walk s2 where w: "existing_ancestor E parent [] s1 = (walk, s2)" by fastforce
    have "climb 0 parent = Some (parent, [])" by simp
    note k2 = existing_ancestor_cases [OF w this, of roots t0]
    have g2: "only_confined E roots t0 s s2" using k1 k2 only_confined_trans by blast
    show ?thesis
    proof (cases walk)
      case None
      with assms(1) m False w g2 show ?thesis by (simp add: verified_create_dir_all_def)
    next
      case (Some ct)
      then obtain cur tl where ct: "walk = Some (cur, tl)" by (cases ct) simp
      obtain a s3 where a: "ask (\<lambda>t. os_canonicalize (hk_os E t) cur) s2 = (a, s3)" by fastforce
      note k3 = only_confined_ask [OF a, of E roots t0]
      have g3: "only_confined E roots t0 s s3" using g2 k3 only_confined_trans by blast
      show ?thesis
      proof (cases a)
        case None
        with assms(1) m False w ct a g3 show ?thesis by (simp add: verified_create_dir_all_def)
      next
        case (Some an)
        let ?j = "to_ascii_lowercase (rejoin (normalize_resolved_dos an) tl)"
        show ?thesis
        proof (cases "overlay_dest_in_roots ?j roots")
          case no: False
          with assms(1) m False w ct a Some have "b = False \<and> s' = emit SentViolation s3"
            by (simp add: verified_create_dir_all_def Let_def)
          with only_confined_trans [OF g3 only_confined_emit [of E roots t0 s3 SentViolation]] show ?thesis by simp
        next
          case yes: True
          obtain n where n: "climb n parent = Some (cur, tl)" using k2 ct by blast
          have "anchored E roots (gu_time s2) parent" using n k3 Some yes unfolding anchored_def by metis
          moreover have "t0 \<le> gu_time s2" using t0 only_confined_time [OF g2] by simp
          moreover have "gu_time s2 < gu_time s3" using k3 by simp
          moreover have "above 0 parent = Some parent" by simp
          moreover obtain ok s5 where o: "create_dir_all E parent s3 = (ok, s5)" by fastforce
          ultimately have "only_confined E roots t0 s3 s5" using create_dir_all_cases [OF o dest] by blast
          then have g5: "only_confined E roots t0 s s5" by (rule only_confined_trans [OF g3])
          obtain still s6 where st: "resolved_parent_in_roots E parent roots s5 = (still, s6)" by fastforce
          note k6 = resolved_parent_cases [OF st, of t0]
          have g6: "only_confined E roots t0 s s6" using only_confined_trans [OF g5] k6 by blast
          have r: "(b, s') = (if \<not> ok then (False, s5) else if \<not> still then (False, emit SentViolation s6) else (True, s6))"
            using assms(1) m False w ct a Some yes o st
            by (cases ok; cases still) (auto simp: verified_create_dir_all_def Let_def)
          have v: "only_confined E roots t0 s (emit SentViolation s6)"
            using only_confined_trans [OF g6 only_confined_emit [of E roots t0 s6 SentViolation]] by simp
          have "t0 \<le> gu_time s5" using t0 only_confined_time [OF g5] by simp
          then have "still \<longrightarrow> (\<exists>u. t0 \<le> u \<and> u < gu_time s6 \<and> resolves_inside E roots u parent)" using k6 by auto
          with r g5 g6 v show ?thesis by (auto split: if_splits)
        qed
      qed
    qed
  qed
qed

lemma create_and_fill_cases:
  assumes "create_and_fill E p s = (b, s')" and v: "verified_target E roots t0 (gu_time s) p"
  shows "only_confined E roots t0 s s'"
proof -
  obtain r s1 where q: "ask (\<lambda>t. os_create_new (hk_os E t) p) s = (r, s1)" by fastforce
  note k1 = only_confined_ask [OF q, of E roots t0]
  have later: "verified_target E roots t0 t p" if "gu_time s \<le> t" for t using verified_target_later [OF v that] .
  show ?thesis
  proof (cases r)
    case Created
    have g2: "only_confined E roots t0 s (emit (CreatedFile p) s1)"
      using only_confined_trans [OF conjunct1 [OF k1] only_confined_emit] later k1 by simp
    obtain ok s3 where o: "ask (\<lambda>t. os_transfer (hk_os E t) p) (emit (CreatedFile p) s1) = (ok, s3)" by fastforce
    note k3 = only_confined_ask [OF o, of E roots t0]
    have g3: "only_confined E roots t0 s s3" using only_confined_trans [OF g2] k3 by blast
    have "confined E roots t0 (gu_time s3, RemovedFile p)" using later only_confined_time [OF g3] by simp
    from only_confined_trans [OF g3 only_confined_emit [OF this]]
    show ?thesis using assms(1) q Created o g3 by (auto simp: create_and_fill_def discard_torn_materialization_def Let_def split: if_splits)
  next
    case AlreadyExists
    with assms(1) q k1 show ?thesis by (simp add: create_and_fill_def)
  next
    case CreateFailed
    with assms(1) q k1 show ?thesis by (simp add: create_and_fill_def)
  qed
qed

lemma cow_copy_cases:
  assumes "cow_copy_verified E src p s = (b, s')" and v: "verified_target E roots t0 (gu_time s) p"
  shows "only_confined E roots t0 s s'"
proof -
  obtain h s1 where q: "ask (\<lambda>t. os_open (hk_os E t) src) s = (h, s1)" by fastforce
  note k1 = only_confined_ask [OF q, of E roots t0]
  then have "verified_target E roots t0 (gu_time s1) p" using verified_target_later [OF v] by simp
  note c = create_and_fill_cases [OF _ this]
  have e: "only_confined E roots t0 s (emit SentViolation s1)"
    using only_confined_trans [OF conjunct1 [OF k1] only_confined_emit [of E roots t0 s1 SentViolation]] by simp
  show ?thesis
    using assms(1) q e k1 c only_confined_trans [OF conjunct1 [OF k1]]
    by (auto simp: cow_copy_verified_def Let_def split: option.splits if_splits)
qed

text \<open>What a caller may count on: every effect of the call is confined, and a destination that is handed out is the overlay path of
  the decision, in the roots by its name, its directory resolved into the roots during the call.\<close>

lemma verified_target_parent:
  assumes "overlay_dest_in_roots (to_ascii_lowercase p) roots" and "path_parent p = Some parent"
    and "t0 \<le> u \<and> u < t \<and> (resolves_inside E roots u parent \<or> resolves_inside E roots u p)"
  shows "verified_target E roots t0 t p"
  using assms unfolding verified_target_def by (metis option.inject)

lemma prepare_overlay_in_roots_cases:
  assumes "prepare_overlay_in_roots E d roots s = (r, s')"
  shows "only_confined E roots (gu_time s) s s' \<and>
     (\<forall>p. r = Some p \<longrightarrow> d_overlay d = Some p \<and> verified_target E roots (gu_time s) (gu_time s') p)"
proof (cases "d_overlay d")
  case None
  with assms show ?thesis by (simp add: prepare_overlay_in_roots_def)
next
  case (Some p)
  let ?t = "gu_time s"
  note viol = only_confined_trans [OF _ only_confined_emit, of E roots ?t s _ SentViolation, simplified]
  show ?thesis
  proof (cases "overlay_dest_in_roots (to_ascii_lowercase p) roots")
    case False
    with assms Some viol [OF only_confined_refl] show ?thesis by (simp add: prepare_overlay_in_roots_def)
  next
    case inr: True
    let ?parent = "case path_parent p of
                     None \<Rightarrow> (True, s)
                   | Some parent \<Rightarrow>
                       if overlay_dest_in_roots (to_ascii_lowercase parent) roots then verified_create_dir_all E parent roots s
                       else (let (found, s) = metadata_found E p s
                             in if found then resolved_parent_in_roots E p roots s else (False, s))"
    obtain ok s1 where k: "?parent = (ok, s1)" by fastforce
    have k1: "only_confined E roots ?t s s1 \<and> (ok \<longrightarrow> verified_target E roots ?t (gu_time s1) p)"
    proof (cases "path_parent p")
      case None
      with k inr show ?thesis by (auto simp: verified_target_def)
    next
      case pp: (Some parent)
      show ?thesis
      proof (cases "overlay_dest_in_roots (to_ascii_lowercase parent) roots")
        case True
        with k pp have "verified_create_dir_all E parent roots s = (ok, s1)" by simp
        moreover have "dest_dir roots parent" using inr pp unfolding dest_dir_def by blast
        ultimately show ?thesis
          using verified_create_dir_all_cases [of E parent roots s ok s1 ?t] verified_target_parent [OF inr pp] by blast
      next
        case False
        obtain f s0 where m: "metadata_found E p s = (f, s0)" by fastforce
        note g0 = metadata_found_cases [OF m, of roots ?t]
        show ?thesis
        proof (cases f)
          case True
          with k pp False m have "resolved_parent_in_roots E p roots s0 = (ok, s1)" by simp
          note g1 = resolved_parent_cases [OF this, of ?t]
          have "only_confined E roots ?t s s1" using only_confined_trans g0 g1 by blast
          moreover have "ok \<Longrightarrow> verified_target E roots ?t (gu_time s1) p"
            using g0 g1 by (intro verified_target_parent [OF inr pp, of _ "gu_time s0"]) simp
          ultimately show ?thesis by blast
        next
          case False
          with k pp \<open>\<not> overlay_dest_in_roots (to_ascii_lowercase parent) roots\<close> m g0 show ?thesis by auto
        qed
      qed
    qed
    note unf = prepare_overlay_in_roots_def Some
    show ?thesis
    proof (cases ok)
      case False
      with assms Some inr k have "r = None \<and> s' = emit SentViolation s1" by (simp add: prepare_overlay_in_roots_def)
      with viol k1 show ?thesis by simp
    next
      case True
      with k1 have v: "verified_target E roots ?t (gu_time s1) p" by blast
      show ?thesis
      proof (cases "d_cow_from d")
        case None
        with assms Some inr k True have "r = Some p \<and> s' = s1" by (simp add: prepare_overlay_in_roots_def)
        with k1 v show ?thesis using Some by simp
      next
        case src: (Some src)
        obtain there s2 where e: "ask (\<lambda>t. os_exists (hk_os E t) p) s1 = (there, s2)" by fastforce
        note g2 = only_confined_ask [OF e, of E roots ?t]
        have v2: "verified_target E roots ?t (gu_time s2) p" using verified_target_later [OF v] g2 by simp
        obtain c s3 where cp: "cow_copy_verified E src p s2 = (c, s3)" by fastforce
        have g3: "only_confined E roots ?t s2 s3" by (rule cow_copy_cases [OF cp v2])
        have "(r, s') = (if there then (Some p, s2) else (Some p, s3))"
          using assms Some inr k True src e cp by (cases there) (auto simp: prepare_overlay_in_roots_def)
        then consider "r = Some p" "s' = s2" | "r = Some p" "s' = s3" by (auto split: if_splits)
        then show ?thesis
        proof cases
          case 1
          with only_confined_trans k1 g2 v2 Some show ?thesis by blast
        next
          case 2
          have "only_confined E roots ?t s s3" using only_confined_trans k1 g2 g3 by blast
          with 2 verified_target_later [OF v2 only_confined_time [OF g3]] Some show ?thesis by simp
        qed
      qed
    qed
  qed
qed

lemma materialize_mock_cases: "only_confined E roots (gu_time s) s (materialize_mock_overlay_in_roots E p roots s)"
proof -
  let ?t = "gu_time s"
  note viol = only_confined_trans [OF _ only_confined_emit, of E roots ?t s _ SentViolation, simplified]
  obtain there s1 where e: "ask (\<lambda>t. os_exists (hk_os E t) p) s = (there, s1)" by fastforce
  note g1 = only_confined_ask [OF e, of E roots ?t]
  show ?thesis
  proof (cases "there \<or> \<not> overlay_dest_in_roots (to_ascii_lowercase p) roots \<or> path_parent p = None")
    case True
    with e g1 viol show ?thesis by (auto simp: materialize_mock_overlay_in_roots_def split: option.splits)
  next
    case False
    then obtain parent where pp: "path_parent p = Some parent" and inr: "overlay_dest_in_roots (to_ascii_lowercase p) roots"
      and nt: "\<not> there" by blast
    obtain ok s2 where v: "verified_create_dir_all E parent roots s1 = (ok, s2)" by fastforce
    have "dest_dir roots parent" using inr pp unfolding dest_dir_def by blast
    moreover have "?t \<le> gu_time s1" using g1 by simp
    ultimately have g2: "only_confined E roots ?t s1 s2 \<and> (ok \<longrightarrow> (\<exists>u. ?t \<le> u \<and> u < gu_time s2 \<and> resolves_inside E roots u parent))"
      using verified_create_dir_all_cases [OF v] by blast
    have g12: "only_confined E roots ?t s s2" using only_confined_trans g1 g2 by blast
    show ?thesis
    proof (cases ok)
      case False
      with e nt inr pp v viol [OF g12] show ?thesis by (simp add: materialize_mock_overlay_in_roots_def)
    next
      case True
      with g2 verified_target_parent [OF inr pp] have vt: "verified_target E roots ?t (gu_time s2) p" by blast
      obtain b s3 where cf: "create_and_fill E p s2 = (b, s3)" by fastforce
      from only_confined_trans [OF g12 create_and_fill_cases [OF cf vt]] e nt inr pp v True cf show ?thesis
        by (simp add: materialize_mock_overlay_in_roots_def)
    qed
  qed
qed

text \<open>C5: what the preparation of a first copy or of a mock file changes on the disk: a file that is created, or removed again after a
  torn copy, has a name in the overlay roots, and its directory (or itself) resolved into them, through every junction on the
  way, earlier in the same call; a directory that is made is the directory of a destination whose name is in the roots, or one
  of the missing directories above it, after an ancestor of that directory resolved, earlier in the same call, to a place from
  which the directory is in the roots; and the destination that an open is redirected to has been verified in the same way as a
  file.\<close>

theorem overlay_writes_confined:
  "only_confined E (overlay_roots_lower C) (gu_time s) s (snd (prepare_overlay E C d s)) \<and>
   only_confined E (overlay_roots_lower C) (gu_time s) s (materialize_mock_overlay E C p s) \<and>
   (case fst (prepare_overlay E C d s) of
      None \<Rightarrow> True
    | Some o_path \<Rightarrow> d_overlay d = Some o_path \<and>
        verified_target E (overlay_roots_lower C) (gu_time s) (gu_time (snd (prepare_overlay E C d s))) o_path)"
proof -
  obtain r s' where r: "prepare_overlay_in_roots E d (overlay_roots_lower C) s = (r, s')" by fastforce
  from prepare_overlay_in_roots_cases [OF r] materialize_mock_cases [of E "overlay_roots_lower C" s p] r show ?thesis
    by (auto simp: prepare_overlay_def materialize_mock_overlay_def split: option.splits)
qed

text \<open>What being in the roots means when the configured roots are plain paths: the destination has a root, or the directory of mock
  rules beside it, as its first segments.\<close>

lemma pattern_matches_prefix_plain:
  assumes "\<And>g. g \<in> set (segs_of pat) \<Longrightarrow> \<not> has_wildcard g"
  shows "pattern_matches_prefix pat d \<longleftrightarrow> prefix (segs_of pat) (segs_of d)"
proof (cases "pat = []")
  case True
  then show ?thesis by (simp add: pattern_matches_prefix_def segs_of_def segs_all_def)
next
  case False
  with prefix_match_literal assms show ?thesis by (simp add: pattern_matches_prefix_def)
qed

lemma overlay_dest_in_roots_iff:
  assumes plain: "\<And>r g. r \<in> set roots \<Longrightarrow> g \<in> set (segs_of (trim_bslash r)) \<Longrightarrow> \<not> has_wildcard g"
    and mplain: "\<And>r m g. r \<in> set roots \<Longrightarrow> mock_root (trim_bslash r) = Some m \<Longrightarrow> g \<in> set (segs_of m) \<Longrightarrow> \<not> has_wildcard g"
    and d: "d = trim_end_matches is_sep dest"
  shows "overlay_dest_in_roots dest roots \<longleftrightarrow> d \<noteq> [] \<and> no_dot_segments d \<and>
     (\<exists>r \<in> set roots. trim_bslash r \<noteq> [] \<and>
        (prefix (segs_of (trim_bslash r)) (segs_of d) \<or> (\<exists>m. mock_root (trim_bslash r) = Some m \<and> prefix (segs_of m) (segs_of d))))"
proof -
  let ?hit = "\<lambda>r. if trim_bslash r = [] then False
      else if pattern_matches_prefix (trim_bslash r) d then True
      else (case mock_root (trim_bslash r) of Some m \<Rightarrow> pattern_matches_prefix m d | None \<Rightarrow> False)"
  have "?hit r \<longleftrightarrow> trim_bslash r \<noteq> [] \<and>
        (prefix (segs_of (trim_bslash r)) (segs_of d) \<or> (\<exists>m. mock_root (trim_bslash r) = Some m \<and> prefix (segs_of m) (segs_of d)))"
    if r: "r \<in> set roots" for r
  proof -
    have "pattern_matches_prefix (trim_bslash r) d \<longleftrightarrow> prefix (segs_of (trim_bslash r)) (segs_of d)"
      by (rule pattern_matches_prefix_plain) (rule plain [OF r])
    moreover have "pattern_matches_prefix m d \<longleftrightarrow> prefix (segs_of m) (segs_of d)" if m: "mock_root (trim_bslash r) = Some m" for m
      by (rule pattern_matches_prefix_plain) (rule mplain [OF r m])
    ultimately show ?thesis by (cases "mock_root (trim_bslash r)") simp_all
  qed
  then have "list_ex ?hit roots \<longleftrightarrow> (\<exists>r \<in> set roots. trim_bslash r \<noteq> [] \<and>
        (prefix (segs_of (trim_bslash r)) (segs_of d) \<or> (\<exists>m. mock_root (trim_bslash r) = Some m \<and> prefix (segs_of m) (segs_of d))))"
    unfolding list_ex_iff by (rule bex_cong [OF refl])
  then show ?thesis unfolding overlay_dest_in_roots_def Let_def d [symmetric] by simp
qed

end
