(* ===== verification/GuestResolve.thy ===== *)
theory GuestResolve
  imports GuestOverlay
begin

text \<open>
  How a guest's object attributes become the path a decision is made on and the path the kernel opens
  (\<^verbatim>\<open>winrsbox-hook/src/core/hooks/path_resolve.rs\<close>, \<^verbatim>\<open>core/hooked_attrs.rs\<close>): device names, handle-relative names, the way back
  from overlay storage, and the copy or the substitute that is handed to the kernel. The guest's memory is read at moments of its
  own: another thread of the guest may change it between two reads.
\<close>

section \<open>The call and its surroundings\<close>

text \<open>What reaches the kernel: the attributes of the guest as they are then, or a name owned by the hook library.\<close>

datatype open_call = OriginalCall | OwnName "u16 list"

text \<open>\<open>op_attrs\<close> is the guest's memory, \<open>op_handle_path\<close> is \<^verbatim>\<open>resolve_handle_path\<close>, \<open>op_device_type\<close> the device behind a handle,
  \<open>op_cwd\<close> the current directory, \<open>op_dos_device\<close> the answer of \<^verbatim>\<open>QueryDosDeviceW\<close> for a letter (empty when it fails), \<open>op_broker\<close>
  the drive map of the launcher: the one the process holds, or the reply when it holds none; \<open>op_call\<close> the status of the kernel.\<close>

record open_env = hook_env +
  op_attrs :: "nat \<Rightarrow> object_attributes option"
  op_handle_path :: "nat \<Rightarrow> nat \<Rightarrow> u16 list option"
  op_device_type :: "nat \<Rightarrow> nat \<Rightarrow> u32 option"
  op_cwd :: "nat \<Rightarrow> u16 list"
  op_dos_device :: "u16 \<Rightarrow> u16 list"
  op_broker :: "nat \<Rightarrow> (char \<times> string) list option"
  op_call :: "nat \<Rightarrow> open_call \<Rightarrow> int"

section \<open>Device names and drive letters\<close>

definition ascii_to_lower_u16 :: "u16 \<Rightarrow> u16" where
  "ascii_to_lower_u16 c = (if 0x41 \<le> c \<and> c \<le> 0x5A then c + 32 else c)"

type_synonym drive_map = "(u16 list \<times> u16) list"

definition device_drive_map :: "'e open_env_scheme \<Rightarrow> drive_map" where
  "device_drive_map E =
     concat (map (\<lambda>letter. (let device = takeWhile (\<lambda>c. c \<noteq> 0) (op_dos_device E letter)
                            in if device = [] then [] else [(map ascii_to_lower_u16 device, ascii_to_lower_u16 letter)]))
       (map of_nat [0x41..<0x5B]))"

fun device_path_with_map :: "u16 list \<Rightarrow> drive_map \<Rightarrow> u16 list option" where
  "device_path_with_map path [] = None"
| "device_path_with_map path ((device, letter) # rest) =
     (if \<not> starts_with (map ascii_to_lower_u16 path) device then device_path_with_map path rest
      else (let tail = drop (length device) path
            in if tail \<noteq> [] \<and> hd tail \<noteq> 0x5C then device_path_with_map path rest
               else Some ([0x5C, 0x3F, 0x3F, 0x5C] @ letter # 0x3A # tail)))"

text \<open>\<^verbatim>\<open>validate_broker_drive_map\<close>: the bit set of letters already seen is kept as the letters.\<close>

fun validate_entries :: "char list \<Rightarrow> (char \<times> string) list \<Rightarrow> drive_map option" where
  "validate_entries seen [] = Some []"
| "validate_entries seen ((letter, device) # rest) =
     (if \<not> is_ascii_alphabetic letter \<or> 4096 < length device then None
      else if ascii_lower letter \<in> set seen then None
      else (let dev = map ascii_to_lower_u16 (encode_utf16 (utf8_decode device))
            in if 1024 < length dev \<or> \<not> starts_with dev (map of_char (win ''|device|'')) then None
               else map_option ((#) (dev, of_char (ascii_lower letter))) (validate_entries (ascii_lower letter # seen) rest)))"

definition validate_broker_drive_map :: "(char \<times> string) list \<Rightarrow> drive_map option" where
  "validate_broker_drive_map entries = (if 26 < length entries then None else validate_entries [] entries)"

definition broker_device_drive_map :: "'e open_env_scheme \<Rightarrow> nat \<Rightarrow> drive_map option" where
  "broker_device_drive_map E t =
     (case op_broker E t of None \<Rightarrow> None
      | Some entries \<Rightarrow>
          (case validate_broker_drive_map entries of
             None \<Rightarrow> None
           | Some mappings \<Rightarrow> if mappings = [] then None else Some mappings))"

definition device_path_to_dos_nt :: "'e open_env_scheme \<Rightarrow> u16 list \<Rightarrow> guest \<Rightarrow> u16 list option \<times> guest" where
  "device_path_to_dos_nt E path s =
     (case device_path_with_map path (device_drive_map E) of
        Some p \<Rightarrow> (Some p, s)
      | None \<Rightarrow>
          (let (m, s) = ask (broker_device_drive_map E) s
           in (case m of None \<Rightarrow> (None, s) | Some mappings \<Rightarrow> (device_path_with_map path mappings, s))))"

text \<open>\<^verbatim>\<open>device_nt_for_folded_dos\<close>: back from a drive path to the device the handle named.\<close>

fun device_for_drive :: "u16 list \<Rightarrow> u16 list \<Rightarrow> drive_map \<Rightarrow> u16 list option" where
  "device_for_drive base folded [] = None"
| "device_for_drive base folded ((device, letter) # rest) =
     (let lower_base = map ascii_to_lower_u16 base
      in if letter \<noteq> ascii_to_lower_u16 (folded ! 4) \<or> \<not> starts_with lower_base device then device_for_drive base folded rest
         else if length device < length lower_base \<and> lower_base ! length device \<noteq> 0x5C then device_for_drive base folded rest
         else Some (take (length device) base @ drop 6 folded))"

definition device_nt_for_folded_dos :: "'e open_env_scheme \<Rightarrow> u16 list \<Rightarrow> u16 list \<Rightarrow> u16 list option" where
  "device_nt_for_folded_dos E base folded =
     (if length folded < 7 \<or> \<not> (take 4 folded = [0x5C, 0x3F, 0x3F, 0x5C] \<or> take 4 folded = [0x5C, 0x5C, 0x3F, 0x5C]) \<or>
         \<not> (0x41 \<le> folded ! 4 \<and> folded ! 4 \<le> 0x5A \<or> 0x61 \<le> folded ! 4 \<and> folded ! 4 \<le> 0x7A) \<or> folded ! 5 \<noteq> 0x3A \<or>
         folded ! 6 \<noteq> 0x5C
      then None else device_for_drive base folded (device_drive_map E))"

section \<open>The way back from overlay storage\<close>

text \<open>The names of the remaining components; components that are not names are skipped.\<close>

fun push_names :: "string \<Rightarrow> component list \<Rightarrow> string" where
  "push_names out [] = out"
| "push_names out (Normal g # cs) = push_names (out @ bslash # g) cs"
| "push_names out (c # cs) = push_names out cs"

definition unmirror_layouts :: "string \<Rightarrow> component list \<Rightarrow> string option" where
  "unmirror_layouts sb_trimmed comps =
     (let root_drive = (if sb_trimmed \<noteq> [] \<and> is_ascii_alphabetic (hd sb_trimmed) then Some (hd sb_trimmed) else None);
          (drive, remaining) =
            (case comps of
               Normal g # cs \<Rightarrow>
                 if length g = 1 \<and> is_ascii_alphabetic (hd g) \<and> ascii_lower (hd g) = ascii_lower (unwrap_or root_drive (CHR 0x00))
                 then (Some (hd g), cs) else (root_drive, comps)
             | _ \<Rightarrow> (root_drive, comps))
      in map_option (\<lambda>d. push_names [ascii_lower d, colon] remaining) drive)"

fun unmirror_roots :: "'a platform_scheme \<Rightarrow> string \<Rightarrow> string list \<Rightarrow> string option" where
  "unmirror_roots pf overlay_dos [] = None"
| "unmirror_roots pf overlay_dos (sb # rest) =
     (let sb_trimmed = trim_bslash (nt_case_fold pf sb)
      in if sb_trimmed = [] then unmirror_roots pf overlay_dos rest
         else if \<not> pattern_matches_prefix sb_trimmed overlay_dos then unmirror_roots pf overlay_dos rest
         else (case (case path_strip_prefix overlay_dos sb_trimmed of None \<Rightarrow> None | Some comps \<Rightarrow> unmirror_layouts sb_trimmed comps) of
                 Some v \<Rightarrow> Some v
               | None \<Rightarrow>
                   (case unmirror_from_overlay overlay_dos sb_trimmed of
                      Some v \<Rightarrow> Some (nt_case_fold pf v)
                    | None \<Rightarrow> unmirror_roots pf overlay_dos rest)))"

definition unmirror_overlay_handle_relative :: "'a platform_scheme \<Rightarrow> hook_config \<Rightarrow> string \<Rightarrow> string option" where
  "unmirror_overlay_handle_relative pf C overlay_dos = unmirror_roots pf overlay_dos (known_roots C)"

definition bare_relative_dos :: "'a platform_scheme \<Rightarrow> hook_config \<Rightarrow> u16 list \<Rightarrow> string option" where
  "bare_relative_dos pf C abs_nt =
     (case nt_to_dos_lower pf abs_nt of None \<Rightarrow> None
      | Some dos \<Rightarrow> Some (unwrap_or (unmirror_overlay_handle_relative pf C dos) dos))"

definition join_bare_relative_to_nt :: "u16 list \<Rightarrow> u16 list \<Rightarrow> u16 list" where
  "join_bare_relative_to_nt cwd name =
     [0x5C, 0x3F, 0x3F, 0x5C] @ cwd @ (if cwd \<noteq> [] \<and> last cwd \<noteq> 0x5C then [0x5C] else []) @ name"

definition read_through_missing_overlay :: "'e open_env_scheme \<Rightarrow> string \<Rightarrow> string \<Rightarrow> guest \<Rightarrow> u16 list option \<times> guest" where
  "read_through_missing_overlay E physical virtual_path s =
     (let (md, s) = ask (\<lambda>t. os_symlink_metadata (hk_os E t) physical) s
      in if md \<noteq> NotFound then (None, s) else (Some (butlast (dos_to_nt virtual_path)), s))"

section \<open>One resolution for the decision and the kernel\<close>

text \<open>The name in the attributes; a length without a buffer is refused.\<close>

definition name_slice :: "object_attributes \<Rightarrow> u16 list option" where
  "name_slice obj =
     (case oa_object_name obj of
        None \<Rightarrow> Some []
      | Some ustr \<Rightarrow>
          (let char_count = unat (us_length ustr) div 2
           in if char_count = 0 then Some []
              else (case us_buffer ustr of None \<Rightarrow> None | Some buf \<Rightarrow> Some (take char_count buf))))"

definition OBJ_DONT_REPARSE :: u32 where "OBJ_DONT_REPARSE = 0x1000"
definition OBJ_CASE_INSENSITIVE :: u32 where "OBJ_CASE_INSENSITIVE = 0x40"

definition resolve_relative ::
    "'e open_env_scheme \<Rightarrow> hook_config \<Rightarrow> nat \<Rightarrow> u32 \<Rightarrow> u16 list \<Rightarrow> guest \<Rightarrow> (string \<times> u16 list option) option \<times> guest" where
  "resolve_relative E C root attributes name s =
     (let (b, s) = ask (\<lambda>t. op_handle_path E t root) s
      in case b of
           None \<Rightarrow> (None, s)
         | Some base_device \<Rightarrow>
             (let (base, s) = device_path_to_dos_nt E base_device s;
                  base = unwrap_or base base_device;
                  full = fold_nt_dots (if name = [] then base else base @ 0x5C # name)
              in case nt_to_dos_lower E full of
                   None \<Rightarrow> (None, s)
                 | Some physical_dos \<Rightarrow>
                     (let virtual_dos = unmirror_overlay_handle_relative E C physical_dos;
                          (through, s) = (case virtual_dos of
                                            None \<Rightarrow> (None, s)
                                          | Some v \<Rightarrow> read_through_missing_overlay E physical_dos v s);
                          kernel_nt = unwrap_or through full;
                          dos = unwrap_or virtual_dos physical_dos;
                          kernel_path = (if and attributes OBJ_DONT_REPARSE \<noteq> 0
                                         then unwrap_or (device_nt_for_folded_dos E base_device kernel_nt) kernel_nt else kernel_nt)
                      in (Some (dos, Some kernel_path), s))))"

definition resolve_for_hook :: "'e open_env_scheme \<Rightarrow> hook_config \<Rightarrow> guest \<Rightarrow> (string \<times> u16 list option) option \<times> guest" where
  "resolve_for_hook E C s =
     (let (attrs, s) = ask (op_attrs E) s
      in case attrs of
           None \<Rightarrow> (None, s)
         | Some obj \<Rightarrow>
             (case name_slice obj of
                None \<Rightarrow> (None, s)
              | Some name \<Rightarrow>
                  (case oa_root_directory obj of
                     Some root \<Rightarrow> resolve_relative E C root (oa_attributes obj) name s
                   | None \<Rightarrow>
                       if name = [] then (None, s)
                       else (let folded = fold_nt_dots name
                             in case nt_to_dos_lower E folded of
                                  Some dos \<Rightarrow> (Some (unwrap_or (unmirror_overlay_handle_relative E C dos) dos, Some folded), s)
                                | None \<Rightarrow>
                                    if name ! 0 = 0x5C then (None, s)
                                    else (let (cwd, s) = ask (op_cwd E) s
                                          in if cwd = [] \<or> 1024 \<le> length cwd then (None, s)
                                             else (let abs_nt = fold_nt_dots (join_bare_relative_to_nt cwd name)
                                                   in case bare_relative_dos E C abs_nt of
                                                        None \<Rightarrow> (None, s)
                                                      | Some dos \<Rightarrow> (Some (dos, Some abs_nt), s)))))))"

section \<open>What is handed to the kernel\<close>

definition MAX_PASSTHROUGH_LEN_BYTES :: nat where "MAX_PASSTHROUGH_LEN_BYTES = 65534"

text \<open>\<^verbatim>\<open>copy_passthrough_inner\<close>: the name the kernel reads; without a resolution it is the guest's own name, or the handle's path
  joined with it.\<close>

definition copy_passthrough_inner ::
    "'e open_env_scheme \<Rightarrow> object_attributes \<Rightarrow> u16 list option \<Rightarrow> guest \<Rightarrow> u16 list option \<times> guest" where
  "copy_passthrough_inner E orig pre_resolved_abs s =
     (let name_needed = (oa_root_directory orig = None \<or> pre_resolved_abs = None);
          fits = (\<lambda>nt. if 2 * length nt > MAX_PASSTHROUGH_LEN_BYTES then None else Some nt);
          name = (if \<not> name_needed then Some []
                  else (case oa_object_name orig of
                          None \<Rightarrow> None
                        | Some ustr \<Rightarrow>
                            (case us_buffer ustr of
                               None \<Rightarrow> None
                             | Some buf \<Rightarrow>
                                 if us_length ustr = 0 \<or> MAX_PASSTHROUGH_LEN_BYTES < unat (us_length ustr) then None
                                 else Some (take (unat (us_length ustr) div 2) buf))))
      in case name of
           None \<Rightarrow> (None, s)
         | Some name \<Rightarrow>
             (case pre_resolved_abs of
                Some abs_nt \<Rightarrow> (fits abs_nt, s)
              | None \<Rightarrow>
                  (case oa_root_directory orig of
                     Some root \<Rightarrow>
                       (let (base, s) = ask (\<lambda>t. op_handle_path E t root) s
                        in case base of None \<Rightarrow> (None, s) | Some base \<Rightarrow> (fits (base @ 0x5C # name), s))
                   | None \<Rightarrow> (Some name, s))))"

text \<open>\<^verbatim>\<open>HookedAttrs::redirect\<close>: the length in bytes is cut to 16 bits.\<close>

definition make_overlay_nt_buf :: "string \<Rightarrow> u16 list" where
  "make_overlay_nt_buf overlay_dos = dos_to_nt overlay_dos"

definition redirect_name :: "string \<Rightarrow> u16 list" where
  "redirect_name dos_path =
     (let nt_buf = make_overlay_nt_buf dos_path; char_count = length nt_buf - 1; len = of_nat (char_count * 2) :: u16
      in take (unat len div 2) nt_buf)"

definition redirect_attributes :: "u32 \<Rightarrow> u32" where
  "redirect_attributes orig = and (or orig OBJ_CASE_INSENSITIVE) (not OBJ_DONT_REPARSE)"

section \<open>The decision and the kernel see one name\<close>

text \<open>The name \<open>nt\<close> belongs to the path \<open>dos\<close> a decision is asked for: \<open>dos\<close> is its DOS form, led back from overlay storage where it
  lies there; or the name is \<open>dos\<close> itself; with the device in place of the drive letter when reparse points are refused.\<close>

definition kernel_name_of :: "'e open_env_scheme \<Rightarrow> hook_config \<Rightarrow> string \<Rightarrow> u16 list \<Rightarrow> bool" where
  "kernel_name_of E C dos nt \<longleftrightarrow>
     (\<exists>folded phys. nt_to_dos_lower E folded = Some phys \<and> dos = unwrap_or (unmirror_overlay_handle_relative E C phys) phys \<and>
        (\<exists>k. (k = folded \<or> k = butlast (dos_to_nt dos) \<and> unmirror_overlay_handle_relative E C phys = Some dos) \<and>
             (nt = k \<or> (\<exists>base. device_nt_for_folded_dos E base k = Some nt))))"

text \<open>What the steps of a resolution leave alone.\<close>

definition only_looks :: "guest \<Rightarrow> guest \<Rightarrow> bool" where
  "only_looks s s' \<longleftrightarrow>
     gu_time s \<le> gu_time s' \<and> gu_cache s' = gu_cache s \<and> gu_effects s' = gu_effects s \<and> gu_published s' = gu_published s"

lemma only_looks_refl [simp]: "only_looks s s"
  by (simp add: only_looks_def)

lemma only_looks_trans: "only_looks s s1 \<Longrightarrow> only_looks s1 s2 \<Longrightarrow> only_looks s s2"
  by (auto simp: only_looks_def)

lemma only_looks_ask: "ask q s = (r, s') \<Longrightarrow> only_looks s s'"
  by (auto simp: ask_def only_looks_def)

lemma device_path_looks: "device_path_to_dos_nt E p s = (r, s') \<Longrightarrow> only_looks s s'"
  by (auto simp: device_path_to_dos_nt_def ask_def only_looks_def split: option.splits)

lemma read_through_cases:
  "read_through_missing_overlay E phys v s = (r, s') \<Longrightarrow>
     only_looks s s' \<and> (\<forall>k. r = Some k \<longrightarrow> k = butlast (dos_to_nt v) \<and> os_symlink_metadata (hk_os E (gu_time s)) phys = NotFound)"
  by (auto simp: read_through_missing_overlay_def ask_def only_looks_def split: if_splits)

lemma resolve_relative_cases:
  assumes "resolve_relative E C root attributes name s = (r, s')"
  shows "only_looks s s' \<and> (\<forall>dos pre. r = Some (dos, pre) \<longrightarrow> (\<exists>nt. pre = Some nt \<and> kernel_name_of E C dos nt))"
proof -
  obtain b s1 where h: "ask (\<lambda>t. op_handle_path E t root) s = (b, s1)" by fastforce
  note l1 = only_looks_ask [OF h]
  show ?thesis
  proof (cases b)
    case None
    with assms h l1 show ?thesis by (simp add: resolve_relative_def)
  next
    case (Some base_device)
    obtain m s2 where d: "device_path_to_dos_nt E base_device s1 = (m, s2)" by fastforce
    have l2: "only_looks s s2" using only_looks_trans [OF l1 device_path_looks [OF d]] .
    let ?base = "unwrap_or m base_device"
    let ?full = "fold_nt_dots (if name = [] then ?base else ?base @ 0x5C # name)"
    show ?thesis
    proof (cases "nt_to_dos_lower E ?full")
      case None
      with assms h \<open>b = Some base_device\<close> d l2 show ?thesis by (simp add: resolve_relative_def Let_def)
    next
      case phys: (Some phys)
      let ?v = "unmirror_overlay_handle_relative E C phys"
      let ?dos = "unwrap_or ?v phys"
      obtain th s3 where th: "(case ?v of None \<Rightarrow> (None, s2) | Some v \<Rightarrow> read_through_missing_overlay E phys v s2) = (th, s3)" by fastforce
      have l3: "only_looks s2 s3 \<and> (\<forall>k. th = Some k \<longrightarrow> k = butlast (dos_to_nt ?dos) \<and> ?v = Some ?dos)"
        using th read_through_cases [of E phys _ s2 th s3] by (cases ?v) auto
      let ?k = "unwrap_or th ?full"
      let ?nt = "if and attributes OBJ_DONT_REPARSE \<noteq> 0 then unwrap_or (device_nt_for_folded_dos E base_device ?k) ?k else ?k"
      have e: "r = Some (?dos, Some ?nt) \<and> s' = s3"
        using assms h \<open>b = Some base_device\<close> d phys th by (simp add: resolve_relative_def Let_def)
      have "?k = ?full \<or> ?k = butlast (dos_to_nt ?dos) \<and> ?v = Some ?dos" using l3 by (cases th) auto
      moreover have "?nt = ?k \<or> (\<exists>base. device_nt_for_folded_dos E base ?k = Some ?nt)"
        by (cases "device_nt_for_folded_dos E base_device ?k") auto
      ultimately have "kernel_name_of E C ?dos ?nt" unfolding kernel_name_of_def using phys by blast
      with e l2 l3 only_looks_trans show ?thesis by blast
    qed
  qed
qed

lemma kernel_name_of_folded:
  "nt_to_dos_lower E folded = Some phys \<Longrightarrow> kernel_name_of E C (unwrap_or (unmirror_overlay_handle_relative E C phys) phys) folded"
  unfolding kernel_name_of_def by blast

lemma resolve_for_hook_cases:
  assumes "resolve_for_hook E C s = (r, s')"
  shows "only_looks s s' \<and> (\<forall>dos pre. r = Some (dos, pre) \<longrightarrow> (\<exists>nt. pre = Some nt \<and> kernel_name_of E C dos nt))"
proof -
  obtain a s1 where q: "ask (op_attrs E) s = (a, s1)" by fastforce
  note l1 = only_looks_ask [OF q]
  have none: ?thesis if "(r, s') = (None, s1)" using that l1 by simp
  show ?thesis
  proof (cases a)
    case None
    with assms q none show ?thesis by (simp add: resolve_for_hook_def)
  next
    case (Some obj)
    show ?thesis
    proof (cases "name_slice obj")
      case None
      with assms q Some none show ?thesis by (simp add: resolve_for_hook_def)
    next
      case name: (Some name)
      show ?thesis
      proof (cases "oa_root_directory obj")
        case root: (Some root)
        with assms q Some name have "resolve_relative E C root (oa_attributes obj) name s1 = (r, s')" by (simp add: resolve_for_hook_def)
        from resolve_relative_cases [OF this] only_looks_trans [OF l1] show ?thesis by blast
      next
        case noroot: None
        show ?thesis
        proof (cases "name = []")
          case True
          with assms q Some name noroot none show ?thesis by (simp add: resolve_for_hook_def)
        next
          case ne: False
          show ?thesis
          proof (cases "nt_to_dos_lower E (fold_nt_dots name)")
            case (Some dos)
            with assms q \<open>a = Some obj\<close> name noroot ne
            have "r = Some (unwrap_or (unmirror_overlay_handle_relative E C dos) dos, Some (fold_nt_dots name)) \<and> s' = s1"
              by (simp add: resolve_for_hook_def Let_def)
            with l1 kernel_name_of_folded [OF Some] show ?thesis by simp
          next
            case None
            show ?thesis
            proof (cases "name ! 0 = 0x5C")
              case True
              with assms q Some name noroot ne None none show ?thesis by (simp add: resolve_for_hook_def Let_def)
            next
              case False
              obtain cwd s2 where w: "ask (op_cwd E) s1 = (cwd, s2)" by fastforce
              have l2: "only_looks s s2" using only_looks_trans [OF l1 only_looks_ask [OF w]] .
              let ?abs = "fold_nt_dots (join_bare_relative_to_nt cwd name)"
              have e: "(if cwd = [] \<or> 1024 \<le> length cwd then (None, s2)
                  else (case bare_relative_dos E C ?abs of None \<Rightarrow> (None, s2) | Some dos \<Rightarrow> (Some (dos, Some ?abs), s2))) = (r, s')"
                using assms q Some name noroot ne None False w by (simp add: resolve_for_hook_def Let_def cong: if_cong)
              show ?thesis
              proof (cases "nt_to_dos_lower E ?abs")
                case None
                with e l2 show ?thesis by (auto simp: bare_relative_dos_def split: if_splits)
              next
                case phys: (Some phys)
                with e l2 kernel_name_of_folded [OF phys, of C] show ?thesis by (auto simp: bare_relative_dos_def split: if_splits)
              qed
            qed
          qed
        qed
      qed
    qed
  qed
qed

text \<open>The copy for the kernel is the resolved name, whatever the guest's memory holds by then.\<close>

lemma copy_is_snapshot:
  assumes "copy_passthrough_inner E orig (Some nt) s = (r, s')"
  shows "s' = s \<and> (r = None \<or> r = Some nt)"
  using assms by (auto simp: copy_passthrough_inner_def Let_def split: option.splits if_splits)

section \<open>Names that are too long\<close>

lemma dos_to_nt_snoc: "dos_to_nt p = butlast (dos_to_nt p) @ [0]"
  by (simp add: dos_to_nt_def)

lemma u16_of_nat: "unat (of_nat m :: u16) = m mod 65536"
  by (simp add: unat_of_nat)

lemma redirect_name_fits: "length (dos_to_nt p) \<le> 32768 \<Longrightarrow> redirect_name p = butlast (dos_to_nt p)"
proof -
  assume l: "length (dos_to_nt p) \<le> 32768"
  let ?n = "length (butlast (dos_to_nt p))"
  from l have "2 * ?n < 2 ^ 16" by simp
  then have "unat (of_nat (?n * 2) :: u16) = ?n * 2" unfolding u16_of_nat by simp
  then have "redirect_name p = take ?n (dos_to_nt p)"
    unfolding redirect_name_def make_overlay_nt_buf_def Let_def length_butlast [symmetric] by simp
  then show ?thesis by (simp add: butlast_conv_take)
qed

text \<open>A substitute name of \<open>32768 + k\<close> units is cut to its first \<open>k\<close>: the guest chooses \<open>k\<close> by the length of the name it
  opens, and the kernel opens a directory above the overlay, or a neighbour of it whose name is the beginning of one.\<close>

lemma redirect_name_wraps:
  assumes "length (dos_to_nt p) = 32769 + k" and "k < 32768"
  shows "redirect_name p = take k (dos_to_nt p)"
proof -
  have "unat (of_nat ((length (dos_to_nt p) - 1) * 2) :: u16) = (65536 + 2 * k) mod 65536"
    unfolding u16_of_nat using assms by simp
  also have "\<dots> = 2 * k" using assms(2) by simp
  finally show ?thesis unfolding redirect_name_def make_overlay_nt_buf_def Let_def by simp
qed

end
