(* ===== verification/GuestOpen.thy ===== *)
theory GuestOpen
  imports GuestResolve
begin

text \<open>
  The file-system calls of a guest (\<^verbatim>\<open>winrsbox-hook/src/fs/fs_hooks/detours.rs\<close> and its modules \<^verbatim>\<open>passthrough_probe.rs\<close> and
  \<^verbatim>\<open>query_attributes.rs\<close>): the walk along a path that is to be opened for writing, \<^verbatim>\<open>NtCreateFile\<close>, \<^verbatim>\<open>NtOpenFile\<close> and the two
  attribute queries. Messages to the log that depend on the trace level, or only report the status, are left out.
\<close>

section \<open>The walk before a write\<close>

datatype probe_verdict = Clean | Aliased string | MultiLink | Unverifiable

function path_ancestors :: "string \<Rightarrow> string list" where
  "path_ancestors p = p # (case path_parent p of None \<Rightarrow> [] | Some q \<Rightarrow> path_ancestors q)"
  by pat_completeness auto
termination
  by (relation "measure length") (auto simp: path_parent_shorter)

declare path_ancestors.simps [simp del]

definition is_reparse :: "file_meta \<Rightarrow> bool" where
  "is_reparse md \<longleftrightarrow> and (md_attributes md) 0x400 \<noteq> 0"

definition hook_canonical_dos_lower :: "'e open_env_scheme \<Rightarrow> string \<Rightarrow> guest \<Rightarrow> string option \<times> guest" where
  "hook_canonical_dos_lower E p s =
     (let (c, s) = ask (\<lambda>t. os_canonicalize (hk_os E t) p) s
      in case c of
           None \<Rightarrow> (None, s)
         | Some c \<Rightarrow>
             (Some (nt_case_fold E
                (case strip_prefix (win ''||?|UNC|'') c of
                   Some rest \<Rightarrow> win ''||'' @ rest
                 | None \<Rightarrow> (case strip_prefix (win ''||?|'') c of Some rest \<Rightarrow> rest | None \<Rightarrow> c))), s))"

definition aliased_path :: "string \<Rightarrow> string \<Rightarrow> string \<Rightarrow> string" where
  "aliased_path full part_of anchor =
     (case path_strip_prefix full part_of of
        None \<Rightarrow> anchor
      | Some tail \<Rightarrow> foldl (\<lambda>resolved part. resolved @ bslash # component_str part) anchor tail)"

definition aliased_from :: "'e open_env_scheme \<Rightarrow> string \<Rightarrow> string \<Rightarrow> guest \<Rightarrow> probe_verdict \<times> guest" where
  "aliased_from E full part_of s =
     (let (a, s) = hook_canonical_dos_lower E part_of s
      in case a of None \<Rightarrow> (Unverifiable, s) | Some anchor \<Rightarrow> (Aliased (aliased_path full part_of anchor), s))"

text \<open>The loop from the root down; behind its end the final component, whose metadata the loop kept.\<close>

fun probe_comps :: "'e open_env_scheme \<Rightarrow> string \<Rightarrow> bool \<Rightarrow> file_meta option \<Rightarrow> string list \<Rightarrow> guest \<Rightarrow> probe_verdict \<times> guest" where
  "probe_comps E full check final_md [] s =
     (case final_md of
        None \<Rightarrow> (Unverifiable, s)
      | Some md \<Rightarrow>
          if md_is_dir md \<or> \<not> check then (Clean, s)
          else (let (n, s) = ask (\<lambda>t. os_links (hk_os E t) full) s
                in (case n of None \<Rightarrow> Unverifiable | Some k \<Rightarrow> if k = 1 then Clean else MultiLink, s)))"
| "probe_comps E full check final_md (part_of # comps) s =
     (let (r, s) = ask (\<lambda>t. os_symlink_metadata (hk_os E t) part_of) s
      in case r of
           Found md \<Rightarrow> if is_reparse md then aliased_from E full part_of s else probe_comps E full check (Some md) comps s
         | NotFound \<Rightarrow> (Clean, s)
         | QueryFailed \<Rightarrow> (Unverifiable, s))"

definition probe_passthrough_with_link_check :: "'e open_env_scheme \<Rightarrow> string \<Rightarrow> bool \<Rightarrow> guest \<Rightarrow> probe_verdict \<times> guest" where
  "probe_passthrough_with_link_check E dos check s = probe_comps E dos check None (rev (path_ancestors dos)) s"

definition alias_decision_from_probe :: "'e open_env_scheme \<Rightarrow> probe_verdict \<Rightarrow> guest \<Rightarrow> bool \<times> guest" where
  "alias_decision_from_probe E p s =
     (case p of
        Clean \<Rightarrow> (True, s)
      | Aliased resolved \<Rightarrow> (let (d, s) = hook_decide E resolved True s in (d_mode d = Passthrough, s))
      | MultiLink \<Rightarrow> (False, s)
      | Unverifiable \<Rightarrow> (False, s))"

text \<open>\<^verbatim>\<open>passthrough_alias_decision\<close> and its twin for opens that only delete: whether the open may proceed.\<close>

definition passthrough_permitted :: "'e open_env_scheme \<Rightarrow> string \<Rightarrow> bool \<Rightarrow> bool \<Rightarrow> guest \<Rightarrow> bool \<times> guest" where
  "passthrough_permitted E dos write delete_only s =
     (if delete_only
      then (let (p, s) = probe_passthrough_with_link_check E dos False s in alias_decision_from_probe E p s)
      else if \<not> write then (True, s)
      else (let (p, s) = probe_passthrough_with_link_check E dos True s in alias_decision_from_probe E p s))"

section \<open>Outcomes\<close>

text \<open>A status of its own, a call to the kernel with its status, or a fault of the guest in the hook.\<close>

datatype open_result = Refused int | Called open_call int | Faulted

definition STATUS_SHARING_VIOLATION :: int where "STATUS_SHARING_VIOLATION = ntstatus 0xC0000043"
definition STATUS_REPARSE_POINT_ENCOUNTERED :: int where "STATUS_REPARSE_POINT_ENCOUNTERED = ntstatus 0xC0000274"

definition log_open_failure :: "int \<Rightarrow> guest \<Rightarrow> guest" where
  "log_open_failure status s =
     (if status \<in> {STATUS_ACCESS_DENIED, STATUS_REPARSE_POINT_ENCOUNTERED, STATUS_SHARING_VIOLATION} then emit SentViolation s else s)"

definition call_kernel :: "'e open_env_scheme \<Rightarrow> open_call \<Rightarrow> guest \<Rightarrow> int \<times> guest" where
  "call_kernel E c s = ask (\<lambda>t. op_call E t c) s"

definition call_original :: "'e open_env_scheme \<Rightarrow> guest \<Rightarrow> open_result \<times> guest" where
  "call_original E s = (let (status, s) = call_kernel E OriginalCall s in (Called OriginalCall status, s))"

text \<open>An open that has no DOS path: devices, shares, and attributes that cannot be read.\<close>

definition dead_end_open :: "'e open_env_scheme \<Rightarrow> bool \<Rightarrow> guest \<Rightarrow> open_result \<times> guest" where
  "dead_end_open E write_intent s =
     (let (device, s) = ask (\<lambda>t. classify_device_open E (op_device_type E t) (op_attrs E t) write_intent) s
      in case device of
           RefuseDevice status \<Rightarrow> (Refused status, log_open_failure status s)
         | _ \<Rightarrow>
             if write_intent \<and> device \<noteq> PassDevice then (Refused STATUS_ACCESS_DENIED, log_open_failure STATUS_ACCESS_DENIED s)
             else (let (attrs, s) = ask (op_attrs E) s in case attrs of None \<Rightarrow> (Faulted, s) | Some obj \<Rightarrow> call_original E s))"

text \<open>The real path: the copy of the resolved name goes to the kernel.\<close>

definition open_snapshot :: "'e open_env_scheme \<Rightarrow> u16 list option \<Rightarrow> guest \<Rightarrow> open_result \<times> guest" where
  "open_snapshot E pre_resolved s =
     (let (attrs, s) = ask (op_attrs E) s
      in case attrs of
           None \<Rightarrow> (Faulted, s)
         | Some orig \<Rightarrow>
             (let (copy, s) = copy_passthrough_inner E orig pre_resolved s
              in case copy of
                   None \<Rightarrow> (Refused STATUS_ACCESS_DENIED, s)
                 | Some nt \<Rightarrow> (let (status, s) = call_kernel E (OwnName nt) s in (Called (OwnName nt) status, s))))"

definition open_passthrough :: "'e open_env_scheme \<Rightarrow> bool \<Rightarrow> bool \<Rightarrow> string \<Rightarrow> u16 list option \<Rightarrow> guest \<Rightarrow> open_result \<times> guest" where
  "open_passthrough E write delete_only dos pre_resolved s =
     (let (permitted, s) = passthrough_permitted E dos write delete_only s
      in if \<not> permitted then (Refused STATUS_ACCESS_DENIED, emit SentViolation s)
         else (let (r, s) = open_snapshot E pre_resolved s
               in (r, case r of Called c status \<Rightarrow> log_open_failure status s | _ \<Rightarrow> s)))"

text \<open>The overlay: the substitute name, and publication after the status is known.\<close>

definition open_redirected :: "'e open_env_scheme \<Rightarrow> string \<Rightarrow> string \<Rightarrow> string option \<Rightarrow> guest \<Rightarrow> open_result \<times> guest" where
  "open_redirected E lower overlay_dos original_basename s =
     (let nt = redirect_name overlay_dos;
          (status, s) = call_kernel E (OwnName nt) s;
          s = (if cow_publish_allowed status then publish_overlay_decision E lower overlay_dos original_basename s
               else hook_invalidate E lower (overlay_publish_forget lower s))
      in (Called (OwnName nt) status, s))"

definition open_cow_create ::
    "'e open_env_scheme \<Rightarrow> hook_config \<Rightarrow> bool \<Rightarrow> decision \<Rightarrow> string \<Rightarrow> u16 list option \<Rightarrow> string option \<Rightarrow> guest \<Rightarrow> open_result \<times> guest" where
  "open_cow_create E C write d dos pre_resolved original_basename s =
     (let (prepared, s) = prepare_overlay E C d s
      in case prepared of
           None \<Rightarrow> (Refused STATUS_ACCESS_DENIED, emit SentViolation s)
         | Some overlay_dos \<Rightarrow>
             (let lower = nt_case_fold E dos;
                  (overlay_exists_phys, s) = ask (\<lambda>t. os_exists (hk_os E t) overlay_dos) s
              in if \<not> write \<and> \<not> overlay_exists_phys then open_snapshot E pre_resolved s
                 else (let (r, s) = open_redirected E lower overlay_dos original_basename s
                       in (r, case r of Called c status \<Rightarrow> log_open_failure status s | _ \<Rightarrow> s))))"

definition open_cow :: "'e open_env_scheme \<Rightarrow> hook_config \<Rightarrow> decision \<Rightarrow> string \<Rightarrow> string option \<Rightarrow> guest \<Rightarrow> open_result \<times> guest" where
  "open_cow E C d dos original_basename s =
     (let (prepared, s) = prepare_overlay E C d s
      in case prepared of
           None \<Rightarrow> (Refused STATUS_ACCESS_DENIED, emit SentViolation s)
         | Some overlay_dos \<Rightarrow> open_redirected E (nt_case_fold E dos) overlay_dos original_basename s)"

definition open_mock :: "'e open_env_scheme \<Rightarrow> hook_config \<Rightarrow> decision \<Rightarrow> guest \<Rightarrow> open_result \<times> guest" where
  "open_mock E C d s =
     (case (d_mock_payload d, d_overlay d) of
        (Some payload, Some overlay_path) \<Rightarrow>
          (let s = materialize_mock_overlay E C overlay_path s;
               nt = redirect_name overlay_path;
               (status, s) = call_kernel E (OwnName nt) s
           in (Called (OwnName nt) status, s))
      | _ \<Rightarrow> (Refused STATUS_ACCESS_DENIED, emit SentViolation s))"

section \<open>NtCreateFile and NtOpenFile\<close>

text \<open>A whiteout is lifted by a call that creates: clear it, forget what is known, and ask again.\<close>

definition revive_hidden :: "'e open_env_scheme \<Rightarrow> u32 \<Rightarrow> string \<Rightarrow> bool \<Rightarrow> decision \<Rightarrow> guest \<Rightarrow> decision \<times> guest" where
  "revive_hidden E create_disposition dos write d s =
     (if d_mode d = Hidden \<and> is_create_disposition create_disposition
      then (let lower = nt_case_fold E dos;
                s = hook_invalidate E lower (overlay_publish_forget lower (ipc_clear_whiteout E lower s))
            in hook_decide E dos write s)
      else (d, s))"

text \<open>\<open>nested\<close> tells whether the thread is inside a hook already: then the call is the hook library's own.\<close>

definition hook_nt_create_file ::
    "'e open_env_scheme \<Rightarrow> hook_config \<Rightarrow> bool \<Rightarrow> u32 \<Rightarrow> u32 \<Rightarrow> u32 \<Rightarrow> bool \<Rightarrow> u32 \<Rightarrow> guest \<Rightarrow> open_result \<times> guest" where
  "hook_nt_create_file E C nested desired_access create_disposition create_options ea_null ea_length s =
     (if nested then call_original E s
      else (let (traversal, s) = ask (\<lambda>t. check_path_traversal E C (hk_os E t) (op_attrs E t) create_options) s
            in case traversal of
                 Some status \<Rightarrow> (Refused status, log_open_failure status s)
               | None \<Rightarrow>
                   (let (original_basename, s) = ask (\<lambda>t. extract_nt_basename E (op_attrs E t)) s;
                        (resolved, s) = resolve_for_hook E C s
                    in case resolved of
                         None \<Rightarrow> dead_end_open E (dead_end_write_intent desired_access (Some create_disposition) create_options) s
                       | Some (dos, pre_resolved) \<Rightarrow>
                           (let (denied, s) = ask (\<lambda>t. canonical_denylist_status E C (hk_os E t) (canonicalize_for_denylist dos)) s
                            in case denied of
                                 Some (status, reason) \<Rightarrow> (Refused status, s)
                               | None \<Rightarrow>
                                   (let write = is_write_access desired_access create_disposition;
                                        ea_present = is_ea_present ea_null ea_length;
                                        (d, s) = hook_decide E dos write s;
                                        (d, s) = decide_fresh_if_overlay_missing E d dos write s;
                                        (d, s) = revive_hidden E create_disposition dos write d s
                                    in case d_mode d of
                                         Hidden \<Rightarrow> (Refused STATUS_OBJECT_NAME_NOT_FOUND, s)
                                       | Passthrough \<Rightarrow>
                                           if write \<and> ea_present then (Refused STATUS_ACCESS_DENIED, emit SentViolation s)
                                           else open_passthrough E write (is_delete_only_access desired_access create_disposition)
                                                  dos pre_resolved s
                                       | Deny \<Rightarrow> (Refused STATUS_ACCESS_DENIED, log_open_failure STATUS_ACCESS_DENIED s)
                                       | Cow \<Rightarrow> open_cow_create E C write d dos pre_resolved original_basename s
                                       | Mock \<Rightarrow> open_mock E C d s)))))"

definition hook_nt_open_file ::
    "'e open_env_scheme \<Rightarrow> hook_config \<Rightarrow> bool \<Rightarrow> u32 \<Rightarrow> u32 \<Rightarrow> guest \<Rightarrow> open_result \<times> guest" where
  "hook_nt_open_file E C nested desired_access open_options s =
     (if nested then call_original E s
      else (let (traversal, s) = ask (\<lambda>t. check_path_traversal E C (hk_os E t) (op_attrs E t) open_options) s
            in case traversal of
                 Some status \<Rightarrow> (Refused status, log_open_failure status s)
               | None \<Rightarrow>
                   (let (original_basename, s) = ask (\<lambda>t. extract_nt_basename E (op_attrs E t)) s;
                        (resolved, s) = resolve_for_hook E C s
                    in case resolved of
                         None \<Rightarrow> dead_end_open E (dead_end_write_intent desired_access None open_options) s
                       | Some (dos, pre_resolved) \<Rightarrow>
                           (let (denied, s) = ask (\<lambda>t. canonical_denylist_status E C (hk_os E t) (canonicalize_for_denylist dos)) s
                            in case denied of
                                 Some (status, reason) \<Rightarrow> (Refused status, s)
                               | None \<Rightarrow>
                                   (let write = is_write_access desired_access FILE_OPEN;
                                        (d, s) = hook_decide E dos write s;
                                        (d, s) = decide_fresh_if_overlay_missing E d dos write s
                                    in case d_mode d of
                                         Hidden \<Rightarrow> (Refused STATUS_OBJECT_NAME_NOT_FOUND, s)
                                       | Passthrough \<Rightarrow>
                                           open_passthrough E write (is_delete_only_access desired_access FILE_OPEN) dos pre_resolved s
                                       | Deny \<Rightarrow> (Refused STATUS_ACCESS_DENIED, s)
                                       | Cow \<Rightarrow> open_cow E C d dos original_basename s
                                       | Mock \<Rightarrow> open_mock E C d s)))))"

section \<open>Queries for attributes\<close>

text \<open>\<^verbatim>\<open>hook_nt_query_attributes_file\<close> and its twin for full attributes, which only differ in the system call they lead to.\<close>

definition redirected_query :: "'e open_env_scheme \<Rightarrow> string \<Rightarrow> guest \<Rightarrow> open_result \<times> guest" where
  "redirected_query E overlay_dos s =
     (let nt = redirect_name overlay_dos; (status, s) = call_kernel E (OwnName nt) s in (Called (OwnName nt) status, s))"

definition query_mock :: "'e open_env_scheme \<Rightarrow> hook_config \<Rightarrow> decision \<Rightarrow> guest \<Rightarrow> open_result \<times> guest" where
  "query_mock E C d s =
     (case d_overlay d of
        None \<Rightarrow> (Refused STATUS_ACCESS_DENIED, emit SentViolation s)
      | Some overlay_path \<Rightarrow>
          (let (there, s) = ask (\<lambda>t. os_exists (hk_os E t) overlay_path) s
           in if there then redirected_query E overlay_path s
              else (case d_mock_payload d of
                      Some payload \<Rightarrow> redirected_query E overlay_path (materialize_mock_overlay E C overlay_path s)
                    | None \<Rightarrow> (Refused STATUS_ACCESS_DENIED, emit SentViolation s))))"

definition query_cow :: "'e open_env_scheme \<Rightarrow> decision \<Rightarrow> guest \<Rightarrow> open_result \<times> guest" where
  "query_cow E d s =
     (case d_overlay d of
        None \<Rightarrow> call_original E s
      | Some overlay_path \<Rightarrow>
          (let (there, s) = ask (\<lambda>t. os_exists (hk_os E t) overlay_path) s
           in if \<not> there then call_original E s else redirected_query E overlay_path s))"

definition hook_nt_query_attributes_file :: "'e open_env_scheme \<Rightarrow> hook_config \<Rightarrow> bool \<Rightarrow> guest \<Rightarrow> open_result \<times> guest" where
  "hook_nt_query_attributes_file E C nested s =
     (if nested then call_original E s
      else (let (resolved, s) = resolve_for_hook E C s
            in case resolved of
                 None \<Rightarrow> call_original E s
               | Some (dos, pre_resolved) \<Rightarrow>
                   (let (d, s) = hook_decide E dos False s;
                        (d, s) = decide_fresh_if_overlay_missing E d dos False s
                    in case d_mode d of
                         Hidden \<Rightarrow> (Refused STATUS_OBJECT_NAME_NOT_FOUND, s)
                       | Passthrough \<Rightarrow> open_snapshot E pre_resolved s
                       | Deny \<Rightarrow> (Refused STATUS_ACCESS_DENIED, s)
                       | Mock \<Rightarrow> query_mock E C d s
                       | Cow \<Rightarrow> query_cow E d s)))"

definition hook_nt_query_full_attributes_file :: "'e open_env_scheme \<Rightarrow> hook_config \<Rightarrow> bool \<Rightarrow> guest \<Rightarrow> open_result \<times> guest" where
  "hook_nt_query_full_attributes_file E C nested s =
     (if nested then call_original E s
      else (let (resolved, s) = resolve_for_hook E C s
            in case resolved of
                 None \<Rightarrow> call_original E s
               | Some (dos, pre_resolved) \<Rightarrow>
                   (let (d, s) = hook_decide E dos False s;
                        (d, s) = decide_fresh_if_overlay_missing E d dos False s
                    in case d_mode d of
                         Hidden \<Rightarrow> (Refused STATUS_OBJECT_NAME_NOT_FOUND, s)
                       | Passthrough \<Rightarrow> open_snapshot E pre_resolved s
                       | Deny \<Rightarrow> (Refused STATUS_ACCESS_DENIED, s)
                       | Mock \<Rightarrow> query_mock E C d s
                       | Cow \<Rightarrow> query_cow E d s)))"

end
