(* ===== verification/GuestSafety.thy ===== *)
theory GuestSafety
  imports GuestOpen
begin

text \<open>
  What the file-system calls of \<open>GuestOpen\<close> guarantee: the walk along a path saw what it reports, every arm of an open is confined,
  the cache stays honest over every call, and so no call with write intent reaches the real disk without leave, after any
  calls of the guest. At the end an example, and what these calls get wrong.
\<close>

section \<open>What was seen during a call\<close>

definition during :: "nat \<Rightarrow> nat \<Rightarrow> (nat \<Rightarrow> bool) \<Rightarrow> bool" where
  "during t0 t P \<longleftrightarrow> (\<exists>u. t0 \<le> u \<and> u < t \<and> P u)"

text \<open>From the root down every component was there without a reparse point, up to the end or to a component that was missing.\<close>

primrec clean_walk :: "'e open_env_scheme \<Rightarrow> nat \<Rightarrow> nat \<Rightarrow> bool \<Rightarrow> string list \<Rightarrow> bool" where
  "clean_walk E t0 t fin [] = fin"
| "clean_walk E t0 t fin (c # cs) =
     (during t0 t (\<lambda>u. os_symlink_metadata (hk_os E u) c = NotFound) \<or>
      during t0 t (\<lambda>u. \<exists>m. os_symlink_metadata (hk_os E u) c = Found m \<and> \<not> is_reparse m) \<and> clean_walk E t0 t fin cs)"

text \<open>A file that is not opened for deletion only has one name.\<close>

definition unshared :: "'e open_env_scheme \<Rightarrow> nat \<Rightarrow> nat \<Rightarrow> bool \<Rightarrow> string \<Rightarrow> bool" where
  "unshared E t0 t check dos \<longleftrightarrow>
     check \<longrightarrow> during t0 t (\<lambda>u. \<exists>m. os_symlink_metadata (hk_os E u) dos = Found m \<and> md_is_dir m) \<or>
       during t0 t (\<lambda>u. os_links (hk_os E u) dos = Some 1)"

definition resolved_name :: "'e open_env_scheme \<Rightarrow> string \<Rightarrow> string" where
  "resolved_name E c = nt_case_fold E (case strip_prefix (win ''||?|UNC|'') c of
      Some rest \<Rightarrow> win ''||'' @ rest
    | None \<Rightarrow> (case strip_prefix (win ''||?|'') c of Some rest \<Rightarrow> rest | None \<Rightarrow> c))"

text \<open>A component was a reparse point, and behind it the path continues as \<open>resolved\<close>.\<close>

definition leads_to :: "'e open_env_scheme \<Rightarrow> nat \<Rightarrow> nat \<Rightarrow> string list \<Rightarrow> string \<Rightarrow> string \<Rightarrow> bool" where
  "leads_to E t0 t cs full resolved \<longleftrightarrow>
     (\<exists>c \<in> set cs. during t0 t (\<lambda>u. \<exists>m. os_symlink_metadata (hk_os E u) c = Found m \<and> is_reparse m) \<and>
        during t0 t (\<lambda>u. \<exists>a. os_canonicalize (hk_os E u) c = Some a \<and> resolved = aliased_path full c (resolved_name E a)))"

definition launcher_passes :: "'e open_env_scheme \<Rightarrow> nat \<Rightarrow> nat \<Rightarrow> string \<Rightarrow> bool \<Rightarrow> bool" where
  "launcher_passes E t0 t p write \<longleftrightarrow> during t0 t (\<lambda>u. \<exists>d. hk_answer E u p write = Some d \<and> d_mode d = Passthrough)"

definition write_safe :: "'e open_env_scheme \<Rightarrow> nat \<Rightarrow> nat \<Rightarrow> bool \<Rightarrow> string \<Rightarrow> bool" where
  "write_safe E t0 t check dos \<longleftrightarrow>
     clean_walk E t0 t (unshared E t0 t check dos) (rev (path_ancestors dos)) \<or>
     (\<exists>resolved. leads_to E t0 t (rev (path_ancestors dos)) dos resolved \<and> launcher_passes E t0 t resolved True)"

lemma during_here: "P u \<Longrightarrow> t0 \<le> u \<Longrightarrow> u < t \<Longrightarrow> during t0 t P"
  by (auto simp: during_def)

lemma during_wider: "during t0 t P \<Longrightarrow> a \<le> t0 \<Longrightarrow> t \<le> b \<Longrightarrow> during a b P"
  unfolding during_def by (meson le_trans less_le_trans)

lemma unshared_wider: "unshared E t0 t check dos \<Longrightarrow> a \<le> t0 \<Longrightarrow> t \<le> b \<Longrightarrow> unshared E a b check dos"
  unfolding unshared_def by (blast intro: during_wider)

lemma clean_walk_wider: "clean_walk E t0 t fin cs \<Longrightarrow> (fin \<Longrightarrow> fin') \<Longrightarrow> a \<le> t0 \<Longrightarrow> t \<le> b \<Longrightarrow> clean_walk E a b fin' cs"
  by (induction cs) (auto intro: during_wider)

lemma leads_to_wider: "leads_to E t0 t cs full r \<Longrightarrow> a \<le> t0 \<Longrightarrow> t \<le> b \<Longrightarrow> leads_to E a b cs full r"
  unfolding leads_to_def by (blast intro: during_wider)

lemma launcher_passes_wider: "launcher_passes E t0 t p w \<Longrightarrow> a \<le> t0 \<Longrightarrow> t \<le> b \<Longrightarrow> launcher_passes E a b p w"
  unfolding launcher_passes_def by (rule during_wider)

lemma write_safe_wider:
  assumes "write_safe E t0 t check dos" and "a \<le> t0" and "t \<le> b"
  shows "write_safe E a b check dos"
  using assms clean_walk_wider [OF _ unshared_wider [OF _ assms(2,3)] assms(2,3)] leads_to_wider launcher_passes_wider
  unfolding write_safe_def by metis

lemma verified_target_wider:
  "verified_target E roots t0 t p \<Longrightarrow> a \<le> t0 \<Longrightarrow> t \<le> b \<Longrightarrow> verified_target E roots a b p"
  unfolding verified_target_def by (meson le_trans less_le_trans)

section \<open>The walk sees what it reports\<close>

lemma aliased_from_cases:
  assumes "aliased_from E full c s = (v, s')"
  shows "only_looks s s' \<and> v \<noteq> Clean \<and> gu_time s' = Suc (gu_time s) \<and>
     (\<forall>r. v = Aliased r \<longrightarrow> (\<exists>a. os_canonicalize (hk_os E (gu_time s)) c = Some a \<and> r = aliased_path full c (resolved_name E a)))"
  using assms
  by (auto simp: aliased_from_def hook_canonical_dos_lower_def resolved_name_def ask_def only_looks_def split: option.splits)

lemma probe_comps_cases:
  assumes "probe_comps E full check md cs s = (v, s')" and "t0 \<le> gu_time s"
    and "cs \<noteq> [] \<Longrightarrow> last cs = full"
    and "cs = [] \<Longrightarrow> \<forall>m. md = Some m \<longrightarrow> during t0 (gu_time s) (\<lambda>u. os_symlink_metadata (hk_os E u) full = Found m)"
  shows "only_looks s s' \<and> (v = Clean \<longrightarrow> clean_walk E t0 (gu_time s') (unshared E t0 (gu_time s') check full) cs) \<and>
     (\<forall>r. v = Aliased r \<longrightarrow> leads_to E t0 (gu_time s') cs full r)"
  using assms
proof (induction cs arbitrary: md s)
  case Nil
  show ?case
  proof (cases md)
    case None
    with Nil show ?thesis by simp
  next
    case (Some m)
    have d: "during t0 (gu_time s) (\<lambda>u. os_symlink_metadata (hk_os E u) full = Found m)" using Nil(4) Some by simp
    show ?thesis
    proof (cases "md_is_dir m \<or> \<not> check")
      case True
      with Nil(1) Some have "v = Clean \<and> s' = s" by simp
      moreover have "unshared E t0 (gu_time s) check full"
        using True d unfolding unshared_def during_def by blast
      ultimately show ?thesis by simp
    next
      case False
      obtain n s1 where q: "ask (\<lambda>t. os_links (hk_os E t) full) s = (n, s1)" by fastforce
      with Nil(1) Some False have r: "v = (case n of None \<Rightarrow> Unverifiable | Some k \<Rightarrow> if k = 1 then Clean else MultiLink)" "s' = s1" by simp_all
      have n: "n = os_links (hk_os E (gu_time s)) full" "gu_time s1 = Suc (gu_time s)" using q by (auto simp: ask_def)
      have "v = Clean \<longrightarrow> unshared E t0 (gu_time s') check full"
        using r n Nil(2) during_here [of "\<lambda>u. os_links (hk_os E u) full = Some 1" "gu_time s" t0 "gu_time s'"]
        by (auto simp: unshared_def split: option.splits if_splits)
      moreover have "v \<noteq> Aliased r'" for r' using r by (auto split: option.splits if_splits)
      ultimately show ?thesis using r only_looks_ask [OF q] by simp
    qed
  qed
next
  case (Cons c cs)
  obtain r s1 where q: "ask (\<lambda>t. os_symlink_metadata (hk_os E t) c) s = (r, s1)" by fastforce
  have n: "r = os_symlink_metadata (hk_os E (gu_time s)) c" "gu_time s1 = Suc (gu_time s)" using q by (auto simp: ask_def)
  note l1 = only_looks_ask [OF q]
  show ?case
  proof (cases r)
    case (Found m)
    show ?thesis
    proof (cases "is_reparse m")
      case True
      with Cons.prems(1) q Found have a: "aliased_from E full c s1 = (v, s')" by simp
      note k = aliased_from_cases [OF a]
      have "leads_to E t0 (gu_time s') (c # cs) full r'" if "v = Aliased r'" for r'
        unfolding leads_to_def
      proof (intro bexI [of _ c] conjI)
        show "during t0 (gu_time s') (\<lambda>u. \<exists>m. os_symlink_metadata (hk_os E u) c = Found m \<and> is_reparse m)"
          using Found True n k Cons.prems(2) by (intro during_here [of _ "gu_time s"]) auto
        show "during t0 (gu_time s') (\<lambda>u. \<exists>a. os_canonicalize (hk_os E u) c = Some a \<and> r' = aliased_path full c (resolved_name E a))"
          using that n k Cons.prems(2) by (intro during_here [of _ "gu_time s1"]) auto
      qed simp
      with k only_looks_trans [OF l1] show ?thesis by blast
    next
      case False
      with Cons.prems(1) q Found have p: "probe_comps E full check (Some m) cs s1 = (v, s')" by simp
      have t: "t0 \<le> gu_time s1" using n Cons.prems(2) by simp
      have "cs = [] \<Longrightarrow> c = full" using Cons.prems(3) by simp
      then have "cs = [] \<Longrightarrow> \<forall>m'. Some m = Some m' \<longrightarrow> during t0 (gu_time s1) (\<lambda>u. os_symlink_metadata (hk_os E u) full = Found m')"
        using Found n Cons.prems(2) by (auto intro: during_here [of _ "gu_time s"])
      moreover have "cs \<noteq> [] \<Longrightarrow> last cs = full" using Cons.prems(3) by simp
      ultimately have ih: "only_looks s1 s' \<and> (v = Clean \<longrightarrow> clean_walk E t0 (gu_time s') (unshared E t0 (gu_time s') check full) cs) \<and>
          (\<forall>r. v = Aliased r \<longrightarrow> leads_to E t0 (gu_time s') cs full r)"
        using Cons.IH [OF p t] by blast
      then have "gu_time s1 \<le> gu_time s'" by (simp add: only_looks_def)
      then have "during t0 (gu_time s') (\<lambda>u. \<exists>m. os_symlink_metadata (hk_os E u) c = Found m \<and> \<not> is_reparse m)"
        using Found False n Cons.prems(2) by (intro during_here [of _ "gu_time s"]) auto
      with ih only_looks_trans [OF l1] show ?thesis by (auto simp: leads_to_def)
    qed
  next
    case NotFound
    with Cons.prems(1) q have "v = Clean \<and> s' = s1" by simp
    with NotFound n l1 Cons.prems(2) show ?thesis by (auto intro: during_here [of _ "gu_time s"])
  next
    case QueryFailed
    with Cons.prems(1) q l1 show ?thesis by auto
  qed
qed

lemma path_ancestors_hd: "path_ancestors p \<noteq> [] \<and> hd (path_ancestors p) = p"
  by (metis list.discI list.sel(1) path_ancestors.simps)

lemma probe_cases:
  assumes "probe_passthrough_with_link_check E dos check s = (v, s')" and t0: "t0 \<le> gu_time s"
  shows "only_looks s s' \<and>
     (v = Clean \<longrightarrow> clean_walk E t0 (gu_time s') (unshared E t0 (gu_time s') check dos) (rev (path_ancestors dos))) \<and>
     (\<forall>r. v = Aliased r \<longrightarrow> leads_to E t0 (gu_time s') (rev (path_ancestors dos)) dos r)"
proof -
  have "last (rev (path_ancestors dos)) = dos" using path_ancestors_hd [of dos] by (simp add: last_rev)
  with probe_comps_cases [OF assms(1) [unfolded probe_passthrough_with_link_check_def] t0] path_ancestors_hd [of dos] show ?thesis by blast
qed

section \<open>The arms of an open\<close>

lemma hook_decide_keeps:
  assumes lw: "hook_stores_lawful E" and h: "cache_honest E s" and r: "hook_decide E p w s = (d, s')"
  shows "answered E (gu_time s') p w d" and "cache_honest E s'" and "gu_time s \<le> gu_time s'"
    and "d_mode d = Passthrough \<Longrightarrow> launcher_passes E (gu_time s) (gu_time s') p w"
proof -
  note c = hook_decide_honest [OF lw h r]
  show "answered E (gu_time s') p w d" "cache_honest E s'" "gu_time s \<le> gu_time s'" using c(1-3) by blast+
  show "launcher_passes E (gu_time s) (gu_time s') p w" if "d_mode d = Passthrough"
    unfolding launcher_passes_def using c(5) that by (intro during_here [of _ "gu_time s"]) auto
qed

lemma alias_decision_cases:
  assumes lw: "hook_stores_lawful E" and h: "cache_honest E s" and r: "alias_decision_from_probe E p s = (b, s')"
  shows "gu_time s \<le> gu_time s' \<and> (b \<longrightarrow> p = Clean \<or> (\<exists>r. p = Aliased r \<and> launcher_passes E (gu_time s) (gu_time s') r True))"
proof (cases p)
  case (Aliased q)
  obtain d s1 where d: "hook_decide E q True s = (d, s1)" by fastforce
  with r Aliased have "b = (d_mode d = Passthrough) \<and> s' = s1" by (auto simp: alias_decision_from_probe_def)
  with hook_decide_keeps(3,4) [OF lw h d] Aliased show ?thesis by simp
qed (use r in \<open>auto simp: alias_decision_from_probe_def\<close>)

lemma passthrough_permitted_cases:
  assumes lw: "hook_stores_lawful E" and h: "cache_honest E s" and r: "passthrough_permitted E dos write delete_only s = (b, s')"
  shows "gu_time s \<le> gu_time s' \<and> (b \<longrightarrow> write \<or> delete_only \<longrightarrow> write_safe E (gu_time s) (gu_time s') (\<not> delete_only) dos)"
proof (cases "write \<or> delete_only")
  case False
  with r show ?thesis by (simp add: passthrough_permitted_def)
next
  case True
  obtain p s1 where p: "probe_passthrough_with_link_check E dos (\<not> delete_only) s = (p, s1)" by fastforce
  have a: "alias_decision_from_probe E p s1 = (b, s')"
    using r True p by (cases delete_only) (auto simp: passthrough_permitted_def)
  note k = probe_cases [OF p order_refl]
  then have l: "only_looks s s1" by blast
  then have "cache_honest E s1" by (intro honest_mono [OF h]) (simp_all add: only_looks_def)
  note c = alias_decision_cases [OF lw this a]
  have t: "gu_time s \<le> gu_time s1" "gu_time s1 \<le> gu_time s'" using l c by (simp_all add: only_looks_def)
  have "write_safe E (gu_time s) (gu_time s') (\<not> delete_only) dos" if b
    using c that
  proof (elim conjE impE disjE exE)
    assume "p = Clean"
    with k have "write_safe E (gu_time s) (gu_time s1) (\<not> delete_only) dos" unfolding write_safe_def by blast
    then show ?thesis using write_safe_wider t(2) by blast
  next
    fix q
    assume q: "p = Aliased q" "launcher_passes E (gu_time s1) (gu_time s') q True"
    from k q(1) have "leads_to E (gu_time s) (gu_time s') (rev (path_ancestors dos)) dos q"
      using leads_to_wider t(2) by blast
    with launcher_passes_wider [OF q(2) t(1) order_refl] show ?thesis unfolding write_safe_def by blast
  qed
  with t show ?thesis by simp
qed

lemma call_kernel_cases: "call_kernel E c s = (st, s') \<Longrightarrow> only_looks s s' \<and> gu_time s' = Suc (gu_time s)"
  by (auto simp: call_kernel_def ask_def only_looks_def)

lemma log_open_failure_time: "gu_time s \<le> gu_time (log_open_failure status s)"
  by (simp add: log_open_failure_def)

lemma open_snapshot_cases:
  assumes "open_snapshot E (Some nt) s = (r, s')"
  shows "gu_time s \<le> gu_time s' \<and> (\<forall>c st. r = Called c st \<longrightarrow> c = OwnName nt)"
proof -
  obtain a s1 where q: "ask (op_attrs E) s = (a, s1)" by fastforce
  note l1 = only_looks_ask [OF q]
  show ?thesis
  proof (cases a)
    case None
    with assms q l1 show ?thesis by (auto simp: open_snapshot_def only_looks_def)
  next
    case (Some orig)
    obtain k s2 where c: "copy_passthrough_inner E orig (Some nt) s1 = (k, s2)" by fastforce
    note k = copy_is_snapshot [OF c]
    obtain st s3 where o: "call_kernel E (OwnName nt) s2 = (st, s3)" by fastforce
    note l3 = call_kernel_cases [OF o]
    have "(r, s') = (case k of None \<Rightarrow> (Refused STATUS_ACCESS_DENIED, s2) | Some nt \<Rightarrow> (Called (OwnName nt) st, s3))"
      using assms q Some c o k by (auto simp: open_snapshot_def split: option.splits)
    with k l1 l3 show ?thesis by (auto simp: only_looks_def split: option.splits)
  qed
qed

lemma open_passthrough_cases:
  assumes lw: "hook_stores_lawful E" and h: "cache_honest E s"
    and r: "open_passthrough E True delete_only dos (Some nt) s = (Called c st, s')"
  shows "gu_time s \<le> gu_time s' \<and> c = OwnName nt \<and> write_safe E (gu_time s) (gu_time s') (\<not> delete_only) dos"
proof -
  obtain b s1 where p: "passthrough_permitted E dos True delete_only s = (b, s1)" by fastforce
  note k = passthrough_permitted_cases [OF lw h p]
  obtain q s2 where o: "open_snapshot E (Some nt) s1 = (q, s2)" by fastforce
  note o2 = open_snapshot_cases [OF o]
  have b: b using r p by (auto simp: open_passthrough_def split: if_splits)
  with r p o have e: "q = Called c st" "s' = log_open_failure st s2"
    by (auto simp: open_passthrough_def split: open_result.splits)
  have t: "gu_time s1 \<le> gu_time s'" using o2 e log_open_failure_time [of s2 st] by simp
  with k b e o2 show ?thesis by (auto intro: write_safe_wider)
qed

lemma publish_time: "gu_time s \<le> gu_time (publish_overlay_decision E lower o_path basename s)"
  by (auto simp: publish_overlay_decision_def ipc_record_overlay_def ipc_record_overlay_case_def overlay_mark_published_def
      hook_invalidate_def ask_def emit_def Let_def split: option.splits)

lemma open_redirected_cases:
  "open_redirected E lower p basename s = (r, s') \<Longrightarrow> gu_time s \<le> gu_time s' \<and> (\<exists>st. r = Called (OwnName (redirect_name p)) st)"
proof -
  assume r: "open_redirected E lower p basename s = (r, s')"
  obtain st s1 where c: "call_kernel E (OwnName (redirect_name p)) s = (st, s1)" by fastforce
  have "gu_time s1 \<le> gu_time s'"
    using r c publish_time [of s1 E lower p basename]
    by (auto simp: open_redirected_def Let_def hook_invalidate_def overlay_publish_forget_def split: if_splits)
  with r c call_kernel_cases [OF c] show ?thesis by (auto simp: open_redirected_def Let_def only_looks_def)
qed

lemma prepared_cases:
  assumes "prepare_overlay E C d s = (r, s')"
  shows "gu_time s \<le> gu_time s' \<and>
     (\<forall>p. r = Some p \<longrightarrow> d_overlay d = Some p \<and> verified_target E (overlay_roots_lower C) (gu_time s) (gu_time s') p)"
  using prepare_overlay_in_roots_cases [OF assms [unfolded prepare_overlay_def]] only_confined_time by blast

text \<open>
  A redirected open goes to the name that the hook makes of the overlay path of the decision: the whole path while its NT form fits
  16 bits of length, else the beginning of it (\<open>redirect_name_wraps\<close>). Except for a mock rule the path was verified during the call.
\<close>

definition overlay_open :: "'e open_env_scheme \<Rightarrow> hook_config \<Rightarrow> nat \<Rightarrow> nat \<Rightarrow> decision \<Rightarrow> open_call \<Rightarrow> bool" where
  "overlay_open E C t0 t d c \<longleftrightarrow>
     (\<exists>p. c = OwnName (redirect_name p) \<and> (length (dos_to_nt p) \<le> 32768 \<longrightarrow> c = OwnName (butlast (dos_to_nt p))) \<and>
        d_overlay d = Some p \<and> (d_mode d = Mock \<or> verified_target E (overlay_roots_lower C) t0 t p))"

lemma open_cow_create_cases:
  assumes "open_cow_create E C True d dos pre basename s = (Called c st, s')"
  shows "gu_time s \<le> gu_time s' \<and> overlay_open E C (gu_time s) (gu_time s') d c"
proof -
  obtain r s1 where p: "prepare_overlay E C d s = (r, s1)" by fastforce
  note k = prepared_cases [OF p]
  from assms p obtain o_path where o: "r = Some o_path" by (cases r) (auto simp: open_cow_create_def)
  obtain there s2 where q: "ask (\<lambda>t. os_exists (hk_os E t) o_path) s1 = (there, s2)" by fastforce
  obtain q2 s3 where d: "open_redirected E (nt_case_fold E dos) o_path basename s2 = (q2, s3)" by fastforce
  note l3 = open_redirected_cases [OF d]
  have e: "q2 = Called c st" "s' = log_open_failure st s3"
    using assms p o q d l3 by (auto simp: open_cow_create_def Let_def split: open_result.splits)
  have "gu_time s1 \<le> gu_time s2" using only_looks_ask [OF q] by (simp add: only_looks_def)
  then have t: "gu_time s1 \<le> gu_time s'" using l3 e log_open_failure_time [of s3 st] by simp
  with k o l3 e show ?thesis unfolding overlay_open_def by (auto intro: verified_target_later simp: redirect_name_fits)
qed

lemma open_cow_cases:
  assumes "open_cow E C d dos basename s = (Called c st, s')"
  shows "gu_time s \<le> gu_time s' \<and> overlay_open E C (gu_time s) (gu_time s') d c"
proof -
  obtain r s1 where p: "prepare_overlay E C d s = (r, s1)" by fastforce
  note k = prepared_cases [OF p]
  from assms p obtain o_path where o: "r = Some o_path" by (cases r) (auto simp: open_cow_def)
  with assms p have "open_redirected E (nt_case_fold E dos) o_path basename s1 = (Called c st, s')" by (simp add: open_cow_def)
  from open_redirected_cases [OF this] k o show ?thesis unfolding overlay_open_def by (auto intro: verified_target_later simp: redirect_name_fits)
qed

lemma open_mock_cases:
  assumes "open_mock E C d s = (Called c st, s')" and "d_mode d = Mock"
  shows "gu_time s \<le> gu_time s' \<and> overlay_open E C (gu_time s) (gu_time s') d c"
proof -
  from assms obtain p where p: "d_overlay d = Some p" by (auto simp: open_mock_def split: option.splits)
  let ?s = "materialize_mock_overlay E C p s"
  obtain st2 s2 where q: "call_kernel E (OwnName (redirect_name p)) ?s = (st2, s2)" by fastforce
  have "gu_time s \<le> gu_time ?s"
    using only_confined_time [OF materialize_mock_cases] by (simp add: materialize_mock_overlay_def)
  moreover have "c = OwnName (redirect_name p) \<and> s' = s2"
    using assms(1) p q by (auto simp: open_mock_def Let_def split: option.splits)
  ultimately show ?thesis using call_kernel_cases [OF q] p assms(2) by (auto simp: overlay_open_def only_looks_def redirect_name_fits)
qed

lemma dead_end_cases:
  assumes "dead_end_open E True s = (Called c st, s')"
  shows "gu_time s \<le> gu_time s' \<and> c = OriginalCall \<and>
     during (gu_time s) (gu_time s') (\<lambda>u. classify_device_open E (op_device_type E u) (op_attrs E u) True = PassDevice)"
proof -
  let ?dev = "\<lambda>u. classify_device_open E (op_device_type E u) (op_attrs E u) True"
  obtain d s1 where q: "ask ?dev s = (d, s1)" by fastforce
  have n: "d = ?dev (gu_time s)" "gu_time s1 = Suc (gu_time s)" using q by (auto simp: ask_def)
  from assms q have p: "d = PassDevice" by (cases d) (auto simp: dead_end_open_def)
  obtain a s2 where a: "ask (op_attrs E) s1 = (a, s2)" by fastforce
  have c: "call_original E s2 = (Called c st, s')" using assms q p a by (auto simp: dead_end_open_def split: option.splits)
  have "gu_time s2 = Suc (gu_time s1)" using a by (auto simp: ask_def)
  moreover have "c = OriginalCall \<and> gu_time s' = Suc (gu_time s2)" using c by (auto simp: call_original_def call_kernel_def ask_def)
  ultimately show ?thesis using n p by (auto intro: during_here [of _ "gu_time s"])
qed

section \<open>A write never reaches the real disk without leave\<close>

lemma fresh_decision:
  assumes lw: "hook_stores_lawful E" and h: "cache_honest E s"
    and d: "hook_decide E dos w s = (d1, s1)" and f: "decide_fresh_if_overlay_missing E d1 dos w s1 = (d, s')"
  shows "cache_honest E s' \<and> gu_time s \<le> gu_time s' \<and> answered E (gu_time s') dos w d \<and>
     (d_mode d = Passthrough \<longrightarrow> launcher_passes E (gu_time s) (gu_time s') dos w)"
proof -
  note c = hook_decide_honest [OF lw h d]
  have "\<exists>t<gu_time s1. gu_time s \<le> t \<and> hk_answer E t dos w = Some d1" if "d_mode d1 = Passthrough \<or> d_mode d1 = Hidden"
    using c(5) [OF that] by (intro exI [of _ "gu_time s"]) simp
  note k = decide_fresh_honest [OF lw c(2) c(1) this c(3) f]
  have "launcher_passes E (gu_time s) (gu_time s') dos w" if "d_mode d = Passthrough"
    using k(5) that unfolding launcher_passes_def during_def by blast
  with k(1-3) c(3) show ?thesis by simp
qed

lemma revive_decision:
  assumes lw: "hook_stores_lawful E" and h: "cache_honest E s" and a: "answered E (gu_time s) dos w d"
    and pt: "d_mode d = Passthrough \<longrightarrow> launcher_passes E t0 (gu_time s) dos w" and t0: "t0 \<le> gu_time s"
    and r: "revive_hidden E disp dos w d s = (d', s')"
  shows "cache_honest E s' \<and> gu_time s \<le> gu_time s' \<and> answered E (gu_time s') dos w d' \<and>
     (d_mode d' = Passthrough \<longrightarrow> launcher_passes E t0 (gu_time s') dos w)"
proof (cases "d_mode d = Hidden \<and> is_create_disposition disp")
  case False
  with r have "d' = d \<and> s' = s" by (simp add: revive_hidden_def)
  with h a pt show ?thesis by simp
next
  case True
  let ?l = "nt_case_fold E dos"
  let ?s = "hook_invalidate E ?l (overlay_publish_forget ?l (ipc_clear_whiteout E ?l s))"
  have k: "gu_time s \<le> gu_time ?s" "gu_cache ?s \<subseteq>\<^sub>m gu_cache s"
    by (auto simp: hook_invalidate_def overlay_publish_forget_def ipc_clear_whiteout_def ask_def emit_def invalidate_le split: if_splits)
  have d: "hook_decide E dos w ?s = (d', s')" using r True by (simp add: revive_hidden_def Let_def)
  note c = hook_decide_keeps [OF lw honest_mono [OF h k(2,1)] d]
  have "launcher_passes E t0 (gu_time s') dos w" if "d_mode d' = Passthrough"
    using launcher_passes_wider [OF c(4) [OF that]] k(1) t0 by simp
  with c(1-3) k(1) show ?thesis by simp
qed

text \<open>Why a call with write intent may reach the kernel.\<close>

definition write_justified :: "'e open_env_scheme \<Rightarrow> hook_config \<Rightarrow> nat \<Rightarrow> nat \<Rightarrow> bool \<Rightarrow> open_call \<Rightarrow> bool" where
  "write_justified E C t0 t check c \<longleftrightarrow>
     (c = OriginalCall \<and> during t0 t (\<lambda>u. classify_device_open E (op_device_type E u) (op_attrs E u) True = PassDevice)) \<or>
     (\<exists>dos nt. kernel_name_of E C dos nt \<and>
        during t0 t (\<lambda>u. canonical_denylist_status E C (hk_os E u) (canonicalize_for_denylist dos) = None) \<and>
        (c = OwnName nt \<and> launcher_passes E t0 t dos True \<and> write_safe E t0 t check dos \<or>
         (\<exists>d. answered E t dos True d \<and> d_mode d \<in> {Cow, Mock} \<and> overlay_open E C t0 t d c)))"

lemma overlay_open_wider: "overlay_open E C t0 t d c \<Longrightarrow> a \<le> t0 \<Longrightarrow> t \<le> b \<Longrightarrow> overlay_open E C a b d c"
  unfolding overlay_open_def by (blast intro: verified_target_wider)

lemma justified_by_arm:
  assumes "kernel_name_of E C dos nt" and "during t0 t1 (\<lambda>u. canonical_denylist_status E C (hk_os E u) (canonicalize_for_denylist dos) = None)"
    and "t1 \<le> t2" "t2 \<le> t" and a: "answered E t2 dos True d" and "d_mode d = Passthrough \<longrightarrow> launcher_passes E t1 t2 dos True"
    and arm: "d_mode d = Passthrough \<and> c = OwnName nt \<and> write_safe E t2 t check dos \<or>
      d_mode d \<in> {Cow, Mock} \<and> overlay_open E C t2 t d c" and t0: "t0 \<le> t1"
  shows "write_justified E C t0 t check c"
proof -
  have dl: "during t0 t (\<lambda>u. canonical_denylist_status E C (hk_os E u) (canonicalize_for_denylist dos) = None)"
    using assms(2-4) during_wider by (meson order_refl order_trans)
  have le: "t0 \<le> t2" using t0 assms(3) by simp
  from arm have "c = OwnName nt \<and> launcher_passes E t0 t dos True \<and> write_safe E t0 t check dos \<or>
      (\<exists>d. answered E t dos True d \<and> d_mode d \<in> {Cow, Mock} \<and> overlay_open E C t0 t d c)"
  proof (elim disjE conjE)
    assume m: "d_mode d = Passthrough" "c = OwnName nt" "write_safe E t2 t check dos"
    then have "launcher_passes E t0 t dos True" using assms(6) launcher_passes_wider t0 assms(4) by blast
    with m write_safe_wider [OF m(3) le order_refl] show ?thesis by blast
  next
    assume "d_mode d \<in> {Cow, Mock}" "overlay_open E C t2 t d c"
    with answered_later [OF a assms(4)] overlay_open_wider le show ?thesis by blast
  qed
  with assms(1) dl show ?thesis unfolding write_justified_def by blast
qed

lemma intent_of_write: "is_write_access access (unwrap_or disp FILE_OPEN) \<Longrightarrow> dead_end_write_intent access disp options"
  by (simp add: dead_end_write_intent_def)

text \<open>The part both calls share: from the first read of the guest's memory to the arm of the decision.\<close>

definition arm_justified :: "'e open_env_scheme \<Rightarrow> hook_config \<Rightarrow> nat \<Rightarrow> nat \<Rightarrow> bool \<Rightarrow> string \<Rightarrow> u16 list \<Rightarrow> open_call \<Rightarrow> bool" where
  "arm_justified E C t1 t check dos nt c \<longleftrightarrow>
     (\<exists>d t2. t1 \<le> t2 \<and> t2 \<le> t \<and> answered E t2 dos True d \<and> (d_mode d = Passthrough \<longrightarrow> launcher_passes E t1 t2 dos True) \<and>
        (d_mode d = Passthrough \<and> c = OwnName nt \<and> write_safe E t2 t check dos \<or>
         d_mode d \<in> {Cow, Mock} \<and> overlay_open E C t2 t d c))"

lemma call_justified:
  assumes h: "cache_honest E s"
    and tr: "ask (\<lambda>t. check_path_traversal E C (hk_os E t) (op_attrs E t) options) s = (tr, s1)"
    and bn: "ask (\<lambda>t. extract_nt_basename E (op_attrs E t)) s1 = (bn, s2)"
    and rs: "resolve_for_hook E C s2 = (rs, s3)"
    and none: "rs = None \<Longrightarrow> dead_end_open E True s3 = (Called c st, s')"
    and some: "\<And>dos nt s4. rs = Some (dos, Some nt) \<Longrightarrow>
      ask (\<lambda>t. canonical_denylist_status E C (hk_os E t) (canonicalize_for_denylist dos)) s3 = (None, s4) \<Longrightarrow>
      cache_honest E s4 \<Longrightarrow> arm_justified E C (gu_time s4) (gu_time s') check dos nt c"
    and denied: "\<And>dos nt dn s4. rs = Some (dos, nt) \<Longrightarrow>
      ask (\<lambda>t. canonical_denylist_status E C (hk_os E t) (canonicalize_for_denylist dos)) s3 = (dn, s4) \<Longrightarrow> dn = None"
  shows "write_justified E C (gu_time s) (gu_time s') check c"
proof -
  note res = resolve_for_hook_cases [OF rs]
  have l3: "only_looks s s3" using only_looks_trans [OF only_looks_ask [OF tr]] only_looks_trans [OF only_looks_ask [OF bn]] res by blast
  then have h3: "cache_honest E s3" and t3: "gu_time s \<le> gu_time s3" by (auto intro: honest_mono [OF h] simp: only_looks_def)
  show ?thesis
  proof (cases rs)
    case None
    from dead_end_cases [OF none [OF None]] t3 show ?thesis unfolding write_justified_def by (auto intro: during_wider)
  next
    case (Some dp)
    then obtain dos nt where dp: "rs = Some (dos, Some nt)" and kn: "kernel_name_of E C dos nt" using res by (cases dp) auto
    let ?deny = "\<lambda>t. canonical_denylist_status E C (hk_os E t) (canonicalize_for_denylist dos)"
    obtain dn s4 where dn: "ask ?deny s3 = (dn, s4)" by fastforce
    have dnn: "dn = None" by (rule denied [OF dp dn])
    have n4: "?deny (gu_time s3) = None" "gu_time s4 = Suc (gu_time s3)" using dn dnn by (auto simp: ask_def)
    have h4: "cache_honest E s4" using only_looks_ask [OF dn] by (intro honest_mono [OF h3]) (simp_all add: only_looks_def)
    obtain d t2 where t2: "gu_time s4 \<le> t2" "t2 \<le> gu_time s'" and a: "answered E t2 dos True d"
      and p: "d_mode d = Passthrough \<longrightarrow> launcher_passes E (gu_time s4) t2 dos True"
      and arm: "d_mode d = Passthrough \<and> c = OwnName nt \<and> write_safe E t2 (gu_time s') check dos \<or>
         d_mode d \<in> {Cow, Mock} \<and> overlay_open E C t2 (gu_time s') d c"
      using some [OF dp _ h4] dn dnn unfolding arm_justified_def by blast
    have "during (gu_time s) (gu_time s4) (\<lambda>u. ?deny u = None)"
      using n4 t3 by (intro during_here [of _ "gu_time s3"]) simp_all
    moreover have "gu_time s \<le> gu_time s4" using t3 n4 by simp
    ultimately show ?thesis using justified_by_arm [OF kn _ t2 a p arm] by blast
  qed
qed

lemma create_justified:
  assumes lw: "hook_stores_lawful E" and h: "cache_honest E s" and w: "is_write_access access disp"
    and r: "hook_nt_create_file E C False access disp options ea_null ea_len s = (Called c st, s')"
  shows "write_justified E C (gu_time s) (gu_time s') (\<not> is_delete_only_access access disp) c"
proof -
  obtain tr s1 where tr: "ask (\<lambda>t. check_path_traversal E C (hk_os E t) (op_attrs E t) options) s = (tr, s1)" by fastforce
  obtain bn s2 where bn: "ask (\<lambda>t. extract_nt_basename E (op_attrs E t)) s1 = (bn, s2)" by fastforce
  obtain rs s3 where rs: "resolve_for_hook E C s2 = (rs, s3)" by fastforce
  have trn: "tr = None" using r tr by (auto simp: hook_nt_create_file_def split: option.splits)
  show ?thesis
  proof (rule call_justified [OF h tr bn rs])
    show "dead_end_open E True s3 = (Called c st, s')" if "rs = None"
      using r tr trn bn rs that intent_of_write [of access "Some disp" options] w by (simp add: hook_nt_create_file_def)
    show "dn = None" if "rs = Some (dos, nt)"
      "ask (\<lambda>t. canonical_denylist_status E C (hk_os E t) (canonicalize_for_denylist dos)) s3 = (dn, s4)" for dos nt dn s4
      using r tr trn bn rs that by (auto simp: hook_nt_create_file_def split: option.splits)
    fix dos nt s4
    assume dp: "rs = Some (dos, Some nt)" and h4: "cache_honest E s4"
      and dn: "ask (\<lambda>t. canonical_denylist_status E C (hk_os E t) (canonicalize_for_denylist dos)) s3 = (None, s4)"
    obtain d1 s5 where d1: "hook_decide E dos True s4 = (d1, s5)" by fastforce
    obtain d2 s6 where d2: "decide_fresh_if_overlay_missing E d1 dos True s5 = (d2, s6)" by fastforce
    note k6 = fresh_decision [OF lw h4 d1 d2]
    obtain d s7 where d: "revive_hidden E disp dos True d2 s6 = (d, s7)" by fastforce
    have k7: "cache_honest E s7 \<and> gu_time s6 \<le> gu_time s7 \<and> answered E (gu_time s7) dos True d \<and>
        (d_mode d = Passthrough \<longrightarrow> launcher_passes E (gu_time s4) (gu_time s7) dos True)"
      by (rule revive_decision [OF lw _ _ _ _ d]) (use k6 in simp_all)
    note eqs = tr trn bn rs dp dn w d1 d2 d
    have "gu_time s7 \<le> gu_time s' \<and>
        (d_mode d = Passthrough \<and> c = OwnName nt \<and> write_safe E (gu_time s7) (gu_time s') (\<not> is_delete_only_access access disp) dos \<or>
         d_mode d \<in> {Cow, Mock} \<and> overlay_open E C (gu_time s7) (gu_time s') d c)"
    proof (cases "d_mode d")
      case Passthrough
      with r eqs have "open_passthrough E True (is_delete_only_access access disp) dos (Some nt) s7 = (Called c st, s')"
        by (auto simp: hook_nt_create_file_def split: if_splits)
      from open_passthrough_cases [OF lw _ this] k7 Passthrough show ?thesis by simp
    next
      case Cow
      with r eqs have "open_cow_create E C True d dos (Some nt) bn s7 = (Called c st, s')" by (simp add: hook_nt_create_file_def)
      from open_cow_create_cases [OF this] Cow show ?thesis by simp
    next
      case Mock
      with r eqs have "open_mock E C d s7 = (Called c st, s')" by (simp add: hook_nt_create_file_def)
      from open_mock_cases [OF this Mock] Mock show ?thesis by simp
    qed (use r eqs in \<open>simp_all add: hook_nt_create_file_def\<close>)
    then show "arm_justified E C (gu_time s4) (gu_time s') (\<not> is_delete_only_access access disp) dos nt c"
      unfolding arm_justified_def using k6 k7 by (meson le_trans)
  qed
qed

lemma open_justified:
  assumes lw: "hook_stores_lawful E" and h: "cache_honest E s" and w: "is_write_access access FILE_OPEN"
    and r: "hook_nt_open_file E C False access options s = (Called c st, s')"
  shows "write_justified E C (gu_time s) (gu_time s') (\<not> is_delete_only_access access FILE_OPEN) c"
proof -
  obtain tr s1 where tr: "ask (\<lambda>t. check_path_traversal E C (hk_os E t) (op_attrs E t) options) s = (tr, s1)" by fastforce
  obtain bn s2 where bn: "ask (\<lambda>t. extract_nt_basename E (op_attrs E t)) s1 = (bn, s2)" by fastforce
  obtain rs s3 where rs: "resolve_for_hook E C s2 = (rs, s3)" by fastforce
  have trn: "tr = None" using r tr by (auto simp: hook_nt_open_file_def split: option.splits)
  show ?thesis
  proof (rule call_justified [OF h tr bn rs])
    show "dead_end_open E True s3 = (Called c st, s')" if "rs = None"
      using r tr trn bn rs that intent_of_write [of access None options] w by (simp add: hook_nt_open_file_def)
    show "dn = None" if "rs = Some (dos, nt)"
      "ask (\<lambda>t. canonical_denylist_status E C (hk_os E t) (canonicalize_for_denylist dos)) s3 = (dn, s4)" for dos nt dn s4
      using r tr trn bn rs that by (auto simp: hook_nt_open_file_def split: option.splits)
    fix dos nt s4
    assume dp: "rs = Some (dos, Some nt)" and h4: "cache_honest E s4"
      and dn: "ask (\<lambda>t. canonical_denylist_status E C (hk_os E t) (canonicalize_for_denylist dos)) s3 = (None, s4)"
    obtain d1 s5 where d1: "hook_decide E dos True s4 = (d1, s5)" by fastforce
    obtain d s6 where d2: "decide_fresh_if_overlay_missing E d1 dos True s5 = (d, s6)" by fastforce
    note k6 = fresh_decision [OF lw h4 d1 d2]
    note eqs = tr trn bn rs dp dn w d1 d2
    have "gu_time s6 \<le> gu_time s' \<and>
        (d_mode d = Passthrough \<and> c = OwnName nt \<and> write_safe E (gu_time s6) (gu_time s') (\<not> is_delete_only_access access FILE_OPEN) dos \<or>
         d_mode d \<in> {Cow, Mock} \<and> overlay_open E C (gu_time s6) (gu_time s') d c)"
    proof (cases "d_mode d")
      case Passthrough
      with r eqs have "open_passthrough E True (is_delete_only_access access FILE_OPEN) dos (Some nt) s6 = (Called c st, s')"
        by (simp add: hook_nt_open_file_def)
      from open_passthrough_cases [OF lw _ this] k6 Passthrough show ?thesis by simp
    next
      case Cow
      with r eqs have "open_cow E C d dos bn s6 = (Called c st, s')" by (simp add: hook_nt_open_file_def)
      from open_cow_cases [OF this] Cow show ?thesis by simp
    next
      case Mock
      with r eqs have "open_mock E C d s6 = (Called c st, s')" by (simp add: hook_nt_open_file_def)
      from open_mock_cases [OF this Mock] Mock show ?thesis by simp
    qed (use r eqs in \<open>simp_all add: hook_nt_open_file_def\<close>)
    then show "arm_justified E C (gu_time s4) (gu_time s') (\<not> is_delete_only_access access FILE_OPEN) dos nt c"
      unfolding arm_justified_def using k6 by (meson le_trans)
  qed
qed

section \<open>The cache stays honest over every call\<close>

definition quiet :: "guest \<Rightarrow> guest \<Rightarrow> bool" where
  "quiet s s' \<longleftrightarrow> gu_time s \<le> gu_time s' \<and> gu_cache s' \<subseteq>\<^sub>m gu_cache s"

lemma quiet_refl [simp]: "quiet s s"
  by (simp add: quiet_def)

lemma quiet_trans: "quiet s s1 \<Longrightarrow> quiet s1 s2 \<Longrightarrow> quiet s s2"
  unfolding quiet_def using map_le_trans by fastforce

lemma quiet_honest: "quiet s s' \<Longrightarrow> cache_honest E s \<Longrightarrow> cache_honest E s'"
  by (auto simp: quiet_def intro: honest_mono)

lemma quiet_looks: "only_looks s s' \<Longrightarrow> quiet s s'"
  by (simp add: quiet_def only_looks_def)

lemma quiet_confined: "only_confined E roots t0 s s' \<Longrightarrow> quiet s s'"
  by (simp add: quiet_def only_confined_def)

lemma quiet_ask: "ask q s = (r, s') \<Longrightarrow> quiet s s'"
  by (rule quiet_looks [OF only_looks_ask])

lemma quiet_call: "call_kernel E c s = (r, s') \<Longrightarrow> quiet s s'"
  unfolding call_kernel_def by (rule quiet_ask)

lemma quiet_emit: "quiet s (emit e s)"
  by (simp add: quiet_def)

lemma quiet_log: "quiet s (log_open_failure st s)"
  by (simp add: log_open_failure_def quiet_emit)

lemma quiet_original: "call_original E s = (r, s') \<Longrightarrow> quiet s s'"
  by (auto simp: call_original_def split: prod.splits dest: quiet_call)

lemma quiet_dead_end: "dead_end_open E w s = (r, s') \<Longrightarrow> quiet s s'"
  by (auto simp: dead_end_open_def split: prod.splits option.splits device_verdict.splits if_splits
      dest!: quiet_ask quiet_original intro: quiet_trans quiet_log)

lemma quiet_copy: "copy_passthrough_inner E orig pre s = (r, s') \<Longrightarrow> quiet s s'"
  by (auto simp: copy_passthrough_inner_def Let_def split: prod.splits option.splits if_splits dest!: quiet_ask)

lemma quiet_snapshot: "open_snapshot E pre s = (r, s') \<Longrightarrow> quiet s s'"
  by (auto simp: open_snapshot_def split: prod.splits option.splits dest!: quiet_ask quiet_copy quiet_call intro: quiet_trans)

lemma quiet_record: "ipc_record_overlay E a b s = (r, s') \<Longrightarrow> quiet s s'" "ipc_record_overlay_case E a b s = (r, s') \<Longrightarrow> quiet s s'"
  by (auto simp: ipc_record_overlay_def ipc_record_overlay_case_def split: prod.splits if_splits dest!: quiet_ask intro: quiet_trans quiet_emit)

lemma quiet_forget: "quiet s (hook_invalidate E l (overlay_publish_forget l s))" "quiet s (hook_invalidate E l s)"
  "quiet s (overlay_mark_published E l s)"
  by (simp_all add: quiet_def hook_invalidate_def overlay_publish_forget_def overlay_mark_published_def invalidate_le)

lemma quiet_publish: "quiet s (publish_overlay_decision E lower p basename s)"
proof (cases "overlay_already_published lower s")
  case True
  then show ?thesis by (simp add: publish_overlay_decision_def)
next
  case False
  obtain a s1 where a: "ipc_record_overlay E lower p s = (a, s1)" by fastforce
  obtain b s2 where b: "(case basename of Some n \<Rightarrow> ipc_record_overlay_case E lower n s1 | None \<Rightarrow> (True, s1)) = (b, s2)" by fastforce
  have "quiet s1 s2" using b quiet_record(2) by (cases basename) auto
  then have "quiet s s2" using quiet_record(1) [OF a] quiet_trans by blast
  moreover have "quiet s2 (if a \<and> b then overlay_mark_published E lower s2 else s2)" by (simp add: quiet_forget(3))
  ultimately have "quiet s (hook_invalidate E lower (if a \<and> b then overlay_mark_published E lower s2 else s2))"
    using quiet_trans quiet_forget(2) by blast
  then show ?thesis using False a b by (simp add: publish_overlay_decision_def Let_def)
qed

lemma quiet_redirected: "open_redirected E lower p basename s = (r, s') \<Longrightarrow> quiet s s'"
  by (auto simp: open_redirected_def Let_def split: prod.splits if_splits dest!: quiet_call intro: quiet_trans quiet_publish quiet_forget(1))

lemma quiet_prepare: "prepare_overlay E C d s = (r, s') \<Longrightarrow> quiet s s'"
  unfolding prepare_overlay_def using prepare_overlay_in_roots_cases quiet_confined by blast

lemma quiet_materialize: "quiet s (materialize_mock_overlay E C p s)"
  unfolding materialize_mock_overlay_def by (rule quiet_confined [OF materialize_mock_cases])

lemma quiet_more: "quiet s s1 \<Longrightarrow> quiet s (log_open_failure st s1)" "quiet (materialize_mock_overlay E C p s) s' \<Longrightarrow> quiet s s'"
  using quiet_trans quiet_log quiet_materialize by blast+

lemma quiet_cow_create: "open_cow_create E C w d dos pre bn s = (r, s') \<Longrightarrow> quiet s s'"
  by (auto simp: open_cow_create_def Let_def split: prod.splits option.splits if_splits open_result.splits
      dest!: quiet_prepare quiet_ask quiet_snapshot quiet_redirected intro: quiet_trans quiet_emit quiet_more(1))

lemma quiet_cow: "open_cow E C d dos bn s = (r, s') \<Longrightarrow> quiet s s'"
  by (auto simp: open_cow_def split: prod.splits option.splits dest!: quiet_prepare quiet_redirected intro: quiet_trans quiet_emit)

lemma quiet_mock: "open_mock E C d s = (r, s') \<Longrightarrow> quiet s s'"
  by (auto simp: open_mock_def Let_def split: prod.splits option.splits dest!: quiet_call intro: quiet_trans quiet_emit quiet_materialize)

lemma quiet_query: "redirected_query E p s = (r, s') \<Longrightarrow> quiet s s'" "query_mock E C d s = (r, s') \<Longrightarrow> quiet s s'"
  "query_cow E d s = (r, s') \<Longrightarrow> quiet s s'"
proof -
  show q: "quiet s s'" if "redirected_query E p s = (r, s')" for p s
    using that by (auto simp: redirected_query_def Let_def split: prod.splits dest!: quiet_call)
  show "query_mock E C d s = (r, s') \<Longrightarrow> quiet s s'"
    by (auto simp: query_mock_def split: prod.splits option.splits if_splits
        dest!: quiet_ask q quiet_more(2) intro: quiet_trans quiet_emit)
  show "query_cow E d s = (r, s') \<Longrightarrow> quiet s s'"
    by (auto simp: query_cow_def split: prod.splits option.splits if_splits dest!: quiet_ask q quiet_original intro: quiet_trans)
qed

lemma honest_passthrough:
  assumes lw: "hook_stores_lawful E" and h: "cache_honest E s" and r: "open_passthrough E w delete_only dos pre s = (r, s')"
  shows "cache_honest E s'"
proof -
  obtain b s1 where p: "passthrough_permitted E dos w delete_only s = (b, s1)" by fastforce
  have h1: "cache_honest E s1"
  proof (cases "w \<or> delete_only")
    case False
    with p h show ?thesis by (simp add: passthrough_permitted_def)
  next
    case True
    obtain v s0 where v: "probe_passthrough_with_link_check E dos (\<not> delete_only) s = (v, s0)" by fastforce
    have a: "alias_decision_from_probe E v s0 = (b, s1)"
      using p True v by (cases delete_only) (auto simp: passthrough_permitted_def)
    have h0: "cache_honest E s0" using probe_cases [OF v order_refl] quiet_looks quiet_honest h by blast
    show ?thesis
    proof (cases v)
      case (Aliased q)
      obtain d s2 where d: "hook_decide E q True s0 = (d, s2)" by fastforce
      with a Aliased have "s1 = s2" by (auto simp: alias_decision_from_probe_def)
      with hook_decide_keeps(2) [OF lw h0 d] show ?thesis by simp
    qed (use a h0 in \<open>auto simp: alias_decision_from_probe_def\<close>)
  qed
  obtain q s2 where o: "open_snapshot E pre s1 = (q, s2)" by fastforce
  have "quiet s1 s'" using r p o quiet_snapshot [OF o]
    by (auto simp: open_passthrough_def split: if_splits open_result.splits intro: quiet_emit quiet_more)
  with h1 show ?thesis by (blast intro: quiet_honest)
qed

lemma quiet_resolve: "resolve_for_hook E C s = (r, s') \<Longrightarrow> quiet s s'"
  using resolve_for_hook_cases quiet_looks by blast

lemma call_keeps_honest:
  assumes h: "cache_honest E s"
    and tr: "ask (\<lambda>t. check_path_traversal E C (hk_os E t) (op_attrs E t) options) s = (tr, s1)"
    and bn: "ask (\<lambda>t. extract_nt_basename E (op_attrs E t)) s1 = (bn, s2)"
    and rs: "resolve_for_hook E C s2 = (rs, s3)"
    and early: "\<And>st. tr = Some st \<Longrightarrow> quiet s1 s'" and dead: "tr = None \<Longrightarrow> rs = None \<Longrightarrow> quiet s3 s'"
    and some: "\<And>dos pre dn s4. tr = None \<Longrightarrow> rs = Some (dos, pre) \<Longrightarrow>
      ask (\<lambda>t. canonical_denylist_status E C (hk_os E t) (canonicalize_for_denylist dos)) s3 = (dn, s4) \<Longrightarrow>
      cache_honest E s4 \<Longrightarrow> cache_honest E s'"
  shows "cache_honest E s'"
proof -
  have q1: "quiet s s1" and q3: "quiet s s3"
    using quiet_ask [OF tr] quiet_ask [OF bn] quiet_resolve [OF rs] by (blast intro: quiet_trans)+
  consider st where "tr = Some st" | "tr = None" "rs = None" | dos pre where "tr = None" "rs = Some (dos, pre)" by fastforce
  then show ?thesis
  proof cases
    case (3 dos pre)
    obtain dn s4 where dn: "ask (\<lambda>t. canonical_denylist_status E C (hk_os E t) (canonicalize_for_denylist dos)) s3 = (dn, s4)" by fastforce
    show ?thesis by (rule some [OF 3 dn quiet_honest [OF quiet_trans [OF q3 quiet_ask [OF dn]] h]])
  qed (use early dead q1 q3 h in \<open>blast intro: quiet_honest quiet_trans\<close>)+
qed

lemma create_keeps_honest:
  assumes lw: "hook_stores_lawful E" and h: "cache_honest E s"
    and r: "hook_nt_create_file E C nested access disp options ea_null ea_len s = (r, s')"
  shows "cache_honest E s'"
proof (cases nested)
  case True
  with r have "call_original E s = (r, s')" by (simp add: hook_nt_create_file_def)
  from quiet_honest [OF quiet_original [OF this] h] show ?thesis .
next
  case nn: False
  obtain tr s1 where tr: "ask (\<lambda>t. check_path_traversal E C (hk_os E t) (op_attrs E t) options) s = (tr, s1)" by fastforce
  obtain bn s2 where bn: "ask (\<lambda>t. extract_nt_basename E (op_attrs E t)) s1 = (bn, s2)" by fastforce
  obtain rs s3 where rs: "resolve_for_hook E C s2 = (rs, s3)" by fastforce
  show ?thesis
  proof (rule call_keeps_honest [OF h tr bn rs])
    show "quiet s1 s'" if "tr = Some st" for st
      using r nn tr that quiet_log by (auto simp: hook_nt_create_file_def)
    show "quiet s3 s'" if "tr = None" "rs = None"
      using r nn tr bn rs that by (auto simp: hook_nt_create_file_def dest: quiet_dead_end)
    fix dos pre dn s4
    assume dp: "tr = None" "rs = Some (dos, pre)" and h4: "cache_honest E s4"
      and dn: "ask (\<lambda>t. canonical_denylist_status E C (hk_os E t) (canonicalize_for_denylist dos)) s3 = (dn, s4)"
    show "cache_honest E s'"
    proof (cases dn)
      case (Some x)
      with r nn tr bn rs dp dn h4 show ?thesis by (auto simp: hook_nt_create_file_def split: prod.splits)
    next
      case None
      let ?w = "is_write_access access disp"
      obtain d1 s5 where d1: "hook_decide E dos ?w s4 = (d1, s5)" by fastforce
      obtain d2 s6 where d2: "decide_fresh_if_overlay_missing E d1 dos ?w s5 = (d2, s6)" by fastforce
      note k6 = fresh_decision [OF lw h4 d1 d2]
      obtain d s7 where d: "revive_hidden E disp dos ?w d2 s6 = (d, s7)" by fastforce
      have h7: "cache_honest E s7"
        using revive_decision [OF lw _ _ _ _ d, of "gu_time s4"] k6 by blast
      note eqs = nn tr bn rs dp dn None d1 d2 d
      have "cache_honest E s' \<or> quiet s7 s'"
      proof (cases "d_mode d")
        case Passthrough
        with r eqs consider "s' = emit SentViolation s7" |
            "open_passthrough E ?w (is_delete_only_access access disp) dos pre s7 = (r, s')"
          by (auto simp: hook_nt_create_file_def Let_def split: if_splits)
        then show ?thesis by cases (auto intro: honest_passthrough [OF lw h7] quiet_emit)
      next
        case Cow
        with r eqs have "open_cow_create E C ?w d dos pre bn s7 = (r, s')" by (simp add: hook_nt_create_file_def Let_def)
        then show ?thesis by (blast dest: quiet_cow_create)
      next
        case Mock
        with r eqs have "open_mock E C d s7 = (r, s')" by (simp add: hook_nt_create_file_def Let_def)
        then show ?thesis by (blast dest: quiet_mock)
      next
        case Deny
        with r eqs show ?thesis by (auto simp: hook_nt_create_file_def Let_def quiet_log)
      next
        case Hidden
        with r eqs h7 show ?thesis by (auto simp: hook_nt_create_file_def Let_def)
      qed
      with h7 show ?thesis by (blast intro: quiet_honest)
    qed
  qed
qed

lemma open_keeps_honest:
  assumes lw: "hook_stores_lawful E" and h: "cache_honest E s" and r: "hook_nt_open_file E C nested access options s = (r, s')"
  shows "cache_honest E s'"
proof (cases nested)
  case True
  with r have "call_original E s = (r, s')" by (simp add: hook_nt_open_file_def)
  from quiet_honest [OF quiet_original [OF this] h] show ?thesis .
next
  case nn: False
  obtain tr s1 where tr: "ask (\<lambda>t. check_path_traversal E C (hk_os E t) (op_attrs E t) options) s = (tr, s1)" by fastforce
  obtain bn s2 where bn: "ask (\<lambda>t. extract_nt_basename E (op_attrs E t)) s1 = (bn, s2)" by fastforce
  obtain rs s3 where rs: "resolve_for_hook E C s2 = (rs, s3)" by fastforce
  show ?thesis
  proof (rule call_keeps_honest [OF h tr bn rs])
    show "quiet s1 s'" if "tr = Some st" for st
      using r nn tr that quiet_log by (auto simp: hook_nt_open_file_def)
    show "quiet s3 s'" if "tr = None" "rs = None"
      using r nn tr bn rs that by (auto simp: hook_nt_open_file_def dest: quiet_dead_end)
    fix dos pre dn s4
    assume dp: "tr = None" "rs = Some (dos, pre)" and h4: "cache_honest E s4"
      and dn: "ask (\<lambda>t. canonical_denylist_status E C (hk_os E t) (canonicalize_for_denylist dos)) s3 = (dn, s4)"
    show "cache_honest E s'"
    proof (cases dn)
      case (Some x)
      with r nn tr bn rs dp dn h4 show ?thesis by (auto simp: hook_nt_open_file_def split: prod.splits)
    next
      case None
      let ?w = "is_write_access access FILE_OPEN"
      obtain d1 s5 where d1: "hook_decide E dos ?w s4 = (d1, s5)" by fastforce
      obtain d s6 where d2: "decide_fresh_if_overlay_missing E d1 dos ?w s5 = (d, s6)" by fastforce
      have h6: "cache_honest E s6" using fresh_decision [OF lw h4 d1 d2] by blast
      note eqs = nn tr bn rs dp dn None d1 d2
      have "cache_honest E s' \<or> quiet s6 s'"
      proof (cases "d_mode d")
        case Passthrough
        with r eqs have "open_passthrough E ?w (is_delete_only_access access FILE_OPEN) dos pre s6 = (r, s')"
          by (simp add: hook_nt_open_file_def Let_def)
        then show ?thesis by (blast intro: honest_passthrough [OF lw h6])
      next
        case Cow
        with r eqs have "open_cow E C d dos bn s6 = (r, s')" by (simp add: hook_nt_open_file_def Let_def)
        then show ?thesis by (blast dest: quiet_cow)
      next
        case Mock
        with r eqs have "open_mock E C d s6 = (r, s')" by (simp add: hook_nt_open_file_def Let_def)
        then show ?thesis by (blast dest: quiet_mock)
      qed (use r eqs h6 in \<open>auto simp: hook_nt_open_file_def Let_def\<close>)
      with h6 show ?thesis by (blast intro: quiet_honest)
    qed
  qed
qed

text \<open>The attribute queries have one body; \<open>query_cases\<close> reads it off.\<close>

lemma query_cases:
  assumes lw: "hook_stores_lawful E" and h: "cache_honest E s"
    and r: "hook_nt_query_attributes_file E C nested s = (r, s') \<or> hook_nt_query_full_attributes_file E C nested s = (r, s')"
  shows "cache_honest E s'"
proof -
  have q: "hook_nt_query_attributes_file E C nested s = (r, s')"
    using r by (simp add: hook_nt_query_attributes_file_def hook_nt_query_full_attributes_file_def)
  obtain rs s1 where rs: "resolve_for_hook E C s = (rs, s1)" by fastforce
  have h1: "cache_honest E s1" using quiet_honest [OF quiet_resolve [OF rs] h] .
  show ?thesis
  proof (cases "nested \<or> rs = None")
    case True
    with q rs have "call_original E s = (r, s') \<or> call_original E s1 = (r, s')"
      by (cases nested) (simp_all add: hook_nt_query_attributes_file_def)
    with quiet_original quiet_honest h h1 show ?thesis by blast
  next
    case False
    then obtain dos pre where dp: "rs = Some (dos, pre)" by fastforce
    obtain d1 s2 where d1: "hook_decide E dos False s1 = (d1, s2)" by fastforce
    obtain d s3 where d: "decide_fresh_if_overlay_missing E d1 dos False s2 = (d, s3)" by fastforce
    have h3: "cache_honest E s3" using fresh_decision [OF lw h1 d1 d] by blast
    note eqs = rs dp d1 d
    have "quiet s3 s'"
    proof (cases "d_mode d")
      case Passthrough
      with q eqs False have "open_snapshot E pre s3 = (r, s')" by (simp add: hook_nt_query_attributes_file_def)
      then show ?thesis by (rule quiet_snapshot)
    next
      case Mock
      with q eqs False have "query_mock E C d s3 = (r, s')" by (simp add: hook_nt_query_attributes_file_def)
      then show ?thesis by (rule quiet_query(2))
    next
      case Cow
      with q eqs False have "query_cow E d s3 = (r, s')" by (simp add: hook_nt_query_attributes_file_def)
      then show ?thesis by (rule quiet_query(3))
    qed (use q eqs False in \<open>auto simp: hook_nt_query_attributes_file_def\<close>)
    with h3 show ?thesis by (blast intro: quiet_honest)
  qed
qed

text \<open>What a guest can come to by calls of its own, in any order and with any arguments.\<close>

inductive guest_reachable :: "'e open_env_scheme \<Rightarrow> hook_config \<Rightarrow> guest \<Rightarrow> bool" for E C where
  fresh: "guest_reachable E C fresh_guest"
| created: "guest_reachable E C s \<Longrightarrow>
    hook_nt_create_file E C nested access disp options ea_null ea_len s = (r, s') \<Longrightarrow> guest_reachable E C s'"
| opened: "guest_reachable E C s \<Longrightarrow> hook_nt_open_file E C nested access options s = (r, s') \<Longrightarrow> guest_reachable E C s'"
| queried: "guest_reachable E C s \<Longrightarrow> hook_nt_query_attributes_file E C nested s = (r, s') \<Longrightarrow> guest_reachable E C s'"
| queried_full: "guest_reachable E C s \<Longrightarrow> hook_nt_query_full_attributes_file E C nested s = (r, s') \<Longrightarrow> guest_reachable E C s'"

lemma reachable_honest: "guest_reachable E C s \<Longrightarrow> hook_stores_lawful E \<Longrightarrow> cache_honest E s"
  by (induction rule: guest_reachable.induct)
    (auto intro: fresh_guest_honest create_keeps_honest open_keeps_honest query_cases)

text \<open>C4: an open or create of a guest with write intent reaches the kernel in three ways only. On the guest's own attributes, when the
  device classifier takes the handle or the name in them for a pipe, a socket, a console or the null device. On the name the
  decision was made for, when the launcher lets that path be written in this very call and either the walk along it found no
  reparse point and (for more than a deletion) no second name, or the walk led to a place which the launcher lets be written
  as well, in an answer it gave during this call. On the name made of the overlay path of a copy or mock decision that the
  launcher once gave for this path (or that stands for a failed question): the whole path when its NT form has at most 32768
  units, otherwise a beginning of it; and a copy's overlay path was verified during the call. In the last two ways the
  denylist passed the path during the call. This holds after any calls of the guest, whatever its other threads write into
  the attributes and whatever happens on the disk meanwhile.\<close>

theorem guest_write_justified:
  assumes lw: "hook_stores_lawful E" and h: "guest_reachable E C s" and w: "is_write_access access disp"
    and r: "hook_nt_create_file E C False access disp options ea_null ea_len s = (Called c st, s') \<or>
      disp = FILE_OPEN \<and> hook_nt_open_file E C False access options s = (Called c st, s')"
  shows "write_justified E C (gu_time s) (gu_time s') (\<not> is_delete_only_access access disp) c"
  using r create_justified [OF lw reachable_honest [OF h lw] w] open_justified [OF lw reachable_honest [OF h lw]] w by blast

section \<open>An example\<close>

text \<open>A launcher that lets everything pass, an empty disk, and a guest that opens \<open>c:x\<close> by its NT name.\<close>

definition example_name :: "u16 list" where
  "example_name = map of_char (win ''|??|c:x'')"

definition example_attrs :: object_attributes where
  "example_attrs = \<lparr>oa_root_directory = None, oa_object_name = Some \<lparr>us_length = 14, us_buffer = Some example_name\<rparr>, oa_attributes = 0\<rparr>"

definition open_example :: "decision option \<Rightarrow> open_env" where
  "open_example a = hook_env.extend (fixed_env a)
     \<lparr>op_attrs = (\<lambda>_. Some example_attrs), op_handle_path = (\<lambda>_ _. None), op_device_type = (\<lambda>_ _. None), op_cwd = (\<lambda>_. []),
      op_dos_device = (\<lambda>_. []), op_broker = (\<lambda>_. None), op_call = (\<lambda>_ _. 0)\<rparr>"

definition bare_config :: hook_config where
  "bare_config = \<lparr>hc_overlay_roots = None, hc_sandbox_root = None\<rparr>"

lemma example_env_simps [simp]:
  "op_attrs (open_example a) t = Some example_attrs" "op_call (open_example a) t c = 0" "hk_answer (open_example a) t p w = a"
  "hk_os (open_example a) t = quiet_view" "rtl_case_fns (open_example a) = None"
  "char_to_uppercase (open_example a) n = n" "char_to_lowercase (open_example a) n = n"
  by (simp_all add: open_example_def hook_env.extend_def fixed_env_def)

lemma open_example_lawful: "hook_stores_lawful (open_example a)"
  by (simp add: hook_stores_lawful_def open_example_def hook_env.extend_def fixed_env_def)

lemma from_utf16_ascii: "is_ascii p \<Longrightarrow> from_utf16_lossy (map of_char p) = p"
  using from_utf16_encode [OF ascii_valid_utf8, of p] encode_utf16_ascii [of p "[]"]
  by (simp add: utf8_decode_ascii encode_utf16_def)

lemma example_raw: "extract_raw_nt_path (Some example_attrs) = Some (win ''|??|c:x'')"
proof -
  have "is_ascii (win ''|??|c:x'')" by code_simp
  moreover have "length (win ''|??|c:x'') = 7" by code_simp
  ultimately show ?thesis
    by (simp add: extract_raw_nt_path_def example_attrs_def example_name_def Let_def from_utf16_ascii)
qed

lemma example_denylist:
  "canonical_denylist_status (open_example a) bare_config quiet_view (canonicalize_for_denylist (win ''|??|c:x'')) = None"
  "canonical_denylist_status (open_example a) bare_config quiet_view (canonicalize_for_denylist (win ''c:x'')) = None"
proof -
  have n: "needs_short_name_resolve (canonicalize_for_denylist (win ''|??|c:x'')) = False"
    "needs_short_name_resolve (canonicalize_for_denylist (win ''c:x'')) = False" by code_simp+
  have c: "canonicalize_for_denylist (win ''|??|c:x'') = win ''|??|c:x''" "canonicalize_for_denylist (win ''c:x'') = win ''c:x''"
    by code_simp+
  have s: "str_contains (win ''|??|c:x'') (win ''|??|globalroot'') = False" "str_contains (win ''|??|c:x'') (win ''|globalroot|'') = False"
    "str_contains (win ''|??|c:x'') (win ''|.winrsbox|'') = False" "ends_with (win ''|??|c:x'') (win ''|.winrsbox'') = False"
    "str_contains (win ''c:x'') (win ''|??|globalroot'') = False" "str_contains (win ''c:x'') (win ''|globalroot|'') = False"
    "str_contains (win ''c:x'') (win ''|.winrsbox|'') = False" "ends_with (win ''c:x'') (win ''|.winrsbox'') = False"
    by code_simp+
  have d: "denied_stream (unwrap_or (strip_nt_dos_prefix (win ''|??|c:x'')) (win ''|??|c:x'')) = False"
    "denied_stream (unwrap_or (strip_nt_dos_prefix (win ''c:x'')) (win ''c:x'')) = False" by code_simp+
  show "canonical_denylist_status (open_example a) bare_config quiet_view (canonicalize_for_denylist (win ''|??|c:x'')) = None"
    using n(1) unfolding c canonical_denylist_status_def Let_def s(1-4) d by simp
  show "canonical_denylist_status (open_example a) bare_config quiet_view (canonicalize_for_denylist (win ''c:x'')) = None"
    using n(2) unfolding c canonical_denylist_status_def Let_def s(5-8) d by simp
qed

lemma example_fold: "fold_nt_dots example_name = example_name"
  by (simp add: example_name_def fold_nt_dots_def win_defs is_sep16_def)

lemma example_dos: "nt_to_dos_lower (open_example a) example_name = Some (win ''c:x'')"
proof -
  have w: "map of_char (win ''c:x'') = [0x63, 0x3A, 0x78 :: u16]" by (simp add: win_defs)
  have "is_ascii (win ''c:x'')" by code_simp
  from from_utf16_ascii [OF this] w have d: "from_utf16_lossy [0x63, 0x3A, 0x78] = win ''c:x''" by simp
  have f: "nt_case_fold_utf16 (open_example a) [0x63, 0x3A, 0x78] = [0x63, 0x3A, 0x78]"
    by (simp add: nt_case_fold_utf16_def fold_u16_unit_def)
  have "strip_nt_prefix (takeWhile (\<lambda>u. u \<noteq> 0) example_name) = Some [0x63, 0x3A, 0x78]"
    by (simp add: example_name_def strip_nt_prefix_def has_nt_prefix_def win_defs)
  then show ?thesis
    by (simp add: nt_to_dos_lower_def nt_to_dos_impl_def u16_slice_fold_def f d starts_with_u16_ascii_def win_defs)
qed

lemma example_resolves:
  "resolve_for_hook (open_example a) bare_config s = (Some (win ''c:x'', Some example_name), s\<lparr>gu_time := Suc (gu_time s)\<rparr>)"
proof -
  have "example_name \<noteq> []" "length example_name = 7" by (simp_all add: example_name_def win_defs)
  then have "name_slice example_attrs = Some example_name" by (simp add: name_slice_def example_attrs_def)
  moreover have "oa_root_directory example_attrs = None" by (simp add: example_attrs_def)
  moreover have "unmirror_overlay_handle_relative (open_example a) bare_config p = None" for p
    by (simp add: unmirror_overlay_handle_relative_def known_roots_def bare_config_def)
  ultimately show ?thesis
    using \<open>example_name \<noteq> []\<close> by (simp add: resolve_for_hook_def ask_def example_fold example_dos)
qed

lemma example_probe: "probe_passthrough_with_link_check (open_example a) dos check s = (Clean, s\<lparr>gu_time := Suc (gu_time s)\<rparr>)"
proof -
  obtain c cs where "rev (path_ancestors dos) = c # cs" using path_ancestors_hd [of dos] by (cases "rev (path_ancestors dos)") auto
  then show ?thesis by (simp add: probe_passthrough_with_link_check_def ask_def quiet_view_def)
qed

lemma example_decides:
  assumes "gu_cache s = Map.empty"
  shows "hook_decide (open_example (Some (plain_decision Passthrough))) dos w s =
    (plain_decision Passthrough, s\<lparr>gu_time := Suc (gu_time s), gu_failures := 0\<rparr>)"
  using assms by (simp add: hook_decide_def get_caseless_def ipc_decide_def ask_def plain_decision_def)

lemma example_snapshot:
  "\<exists>s'. open_snapshot (open_example a) (Some example_name) s = (Called (OwnName example_name) 0, s')"
proof -
  have "length example_name = 7" by (simp add: example_name_def win_defs)
  then have "copy_passthrough_inner (open_example a) example_attrs (Some example_name) s = (Some example_name, s)" for s
    by (simp add: copy_passthrough_inner_def example_attrs_def MAX_PASSTHROUGH_LEN_BYTES_def)
  then show ?thesis by (simp add: open_snapshot_def ask_def call_kernel_def)
qed

lemma example_create:
  assumes "is_write_access access FILE_OPEN"
  shows "\<exists>s'. hook_nt_create_file (open_example (Some (plain_decision Passthrough))) bare_config False access FILE_OPEN 0 True 0 fresh_guest =
    (Called (OwnName example_name) 0, s')"
proof -
  let ?E = "open_example (Some (plain_decision Passthrough))"
  have t: "check_path_traversal ?E bare_config quiet_view (Some example_attrs) 0 = None"
    by (simp add: check_path_traversal_def example_raw example_denylist)
  have p: "\<exists>s'. open_passthrough ?E True del dos (Some example_name) s = (Called (OwnName example_name) 0, s')" for del dos s
  proof -
    obtain s' where "open_snapshot ?E (Some example_name) (s\<lparr>gu_time := Suc (gu_time s)\<rparr>) = (Called (OwnName example_name) 0, s')"
      using example_snapshot by blast
    then show ?thesis
      by (simp add: open_passthrough_def passthrough_permitted_def example_probe alias_decision_from_probe_def)
  qed
  have m: "d_mode (plain_decision Passthrough) = Passthrough" "d_overlay (plain_decision Passthrough) = None"
    by (simp_all add: plain_decision_def)
  show ?thesis
    using p assms
    by (simp add: hook_nt_create_file_def ask_def t example_resolves example_denylist example_decides fresh_guest_def
        decide_fresh_if_overlay_missing_def overlay_target_missing_def revive_hidden_def m is_ea_present_def)
qed

lemma guest_write_justified_witness:
  "\<exists>s'. hook_nt_create_file (open_example (Some (plain_decision Passthrough))) bare_config False DELETE FILE_OPEN 0 True 0 fresh_guest =
      (Called (OwnName example_name) 0, s') \<and>
    write_justified (open_example (Some (plain_decision Passthrough))) bare_config (gu_time fresh_guest) (gu_time s')
      (\<not> is_delete_only_access DELETE FILE_OPEN) (OwnName example_name)"
proof -
  have w: "is_write_access DELETE FILE_OPEN" using write_bits_cover [of DELETE DELETE FILE_OPEN] by (simp add: DELETE_def)
  obtain s' where c: "hook_nt_create_file (open_example (Some (plain_decision Passthrough))) bare_config False DELETE FILE_OPEN 0 True 0
      fresh_guest = (Called (OwnName example_name) 0, s')"
    using example_create [OF w] by blast
  from guest_write_justified [OF open_example_lawful guest_reachable.fresh w disjI1 [OF c]] c show ?thesis by blast
qed

section \<open>What these calls get wrong\<close>

text \<open>The file of a mock rule whose materialization was refused, because its overlay path is outside the roots, is opened
  all the same.\<close>

lemma mock_opened_outside_roots:
  assumes "d_mock_payload d = Some payload" and "d_overlay d = Some p" and "\<not> os_exists (hk_os E (gu_time s)) p"
    and "\<not> overlay_dest_in_roots (to_ascii_lowercase p) (overlay_roots_lower C)"
  shows "\<exists>s'. open_mock E C d s = (Called (OwnName (redirect_name p)) (op_call E (gu_time s + 2) (OwnName (redirect_name p))), s') \<and>
    gu_effects s' = gu_effects s @ [(gu_time s + 1, SentViolation)]"
  using assms
  by (simp add: open_mock_def materialize_mock_overlay_def materialize_mock_overlay_in_roots_def ask_def emit_def call_kernel_def Let_def)

text \<open>A guest that passes no attributes at all and wants to read faults inside the hook.\<close>

lemma null_attributes_fault:
  assumes "\<And>t. op_attrs E t = None" and "\<not> dead_end_write_intent access (Some disp) options" and "and options FILE_OPEN_BY_FILE_ID = 0"
  shows "\<exists>s'. hook_nt_create_file E C False access disp options ea_null ea_len s = (Faulted, s')"
  using assms
  by (simp add: hook_nt_create_file_def ask_def check_path_traversal_def extract_raw_nt_path_def resolve_for_hook_def
      dead_end_open_def classify_device_open_def classify_by_name_def)

text \<open>The attribute queries do not consult the denylist: what an open of the state directory hides, they show.\<close>

lemma query_skips_denylist:
  assumes "resolve_for_hook E C s = (Some (dos, Some nt), s1)" and "hook_decide E dos False s1 = (d, s2)"
    and "d_mode d = Passthrough" and "d_overlay d = None"
  shows "hook_nt_query_attributes_file E C False s = open_snapshot E (Some nt) s2"
  using assms by (simp add: hook_nt_query_attributes_file_def decide_fresh_if_overlay_missing_def overlay_target_missing_def)

end
