(* ===== verification/Spec2Isabelle.thy ===== *)
theory Spec2Isabelle
  imports RegistryRuns Trace SessionRuns FolderSection DirMerge MemGuardSafety InjectGuard GuestSafety
begin

text \<open>
  A verification development for winrsbox, a Windows sandbox in user mode: a launcher starts a program, injects a hook
  library into it and all its children, and the hooks in each guest ask the launcher over a pipe what a file, registry or
  network operation may do. Writes of the guests are redirected into a per-drive overlay (copy on write); deletions are
  recorded as whiteouts; rules of the operator let paths through, hide them, deny them or replace their content.

  \<^bold>\<open>Parts and how they work together.\<close> All paths below are under \<^verbatim>\<open>src/winrsbox/crates\<close>.

  \<^item> The policy crate (\<^verbatim>\<open>winrsbox-policy\<close>) holds paths, rules, the database and the decision engine; the launcher owns one
    policy object, and the command line changes the same object through relayed operations.
  \<^item> The launcher (\<^verbatim>\<open>winrsbox-launcher\<close>) reads length-prefixed frames from each guest, checks who the guest is, and answers
    from the policy object and the registry policy. A section of shared memory tells later launchers of the same folder who
    the broker is (\<^verbatim>\<open>winrsbox-ipc/src/folder_section.rs\<close>).
  \<^item> The hook library (\<^verbatim>\<open>winrsbox-hook\<close>) applies the answers in the guest: it redirects opens into the overlay, merges overlay children
    into directory listings, and guards the process: memory that a protection call makes executable is scanned first, executable
    pages with detours are not made writable, and other processes are not written to or started in.

  \<^bold>\<open>Theories, in the order of their imports.\<close>

  \<^item> \<open>Prelude\<close>: machine integers, Rust strings as lists of bytes, the functions of \<^verbatim>\<open>str\<close>, \<^verbatim>\<open>Option\<close> and slices the sources
    call, and the lemmas and hints all theories share. \<open>Memo\<close>: the locale of a cache in front of a computation; it is
    interpreted for the file decisions (\<open>PolicyRuns\<close>), the registry decisions (\<open>RegistryRuns\<close>) and the scan cache (\<open>MemGuard\<close>).
  \<^item> \<open>Glob\<close>, \<open>CaseFold\<close>, \<open>DosPath\<close>, \<open>OverlayLayout\<close>: \<^verbatim>\<open>path/mod.rs\<close> and \<^verbatim>\<open>path/case_fold.rs\<close>. The glob loops against one recursive
    specification; the NTFS-identity fold; NT and DOS forms, dot folding, containment; the mirror of a path in its overlay root
    and its inverse.
  \<^item> \<open>Store\<close>, \<open>RuleMatch\<close>, \<open>RuleIndex\<close>, \<open>PolicyDb\<close>, \<open>NetRules\<close>: \<^verbatim>\<open>db/mod.rs\<close>, \<^verbatim>\<open>db/ops.rs\<close>, \<^verbatim>\<open>decide/rule_index.rs\<close>,
    \<^verbatim>\<open>domains/net.rs\<close>. The key-value store is a parameter with laws of its own; the locales \<open>scored_scan\<close> and \<open>indexed_choice\<close> say what
    a best-match scan returns and when an index may replace it. Each operation refines an update of an abstract map.
  \<^item> \<open>Policy\<close>, \<open>Overlay\<close>, \<open>Isolation\<close>, \<open>Trace\<close>, \<open>PolicyRuns\<close>: \<^verbatim>\<open>domains/policy_impl.rs\<close>, \<^verbatim>\<open>decide/mod.rs\<close>,
    \<^verbatim>\<open>decide/overlay.rs\<close>. The decision, the bookkeeping of the overlay, what one decision guarantees, the explained decision of
    \<^verbatim>\<open>winrsbox why\<close>, and the invariants along runs in which any write may fail and the disk may change between any two steps.
  \<^item> \<open>RegValue\<close>, \<open>Registry\<close>, \<open>RegistryRuns\<close>: \<^verbatim>\<open>registry/*.rs\<close>. Values with their JSON form, the overlay of keys, its tree on disk, and
    runs with failing updates and restarts.
  \<^item> \<open>Framing\<close>, \<open>HotStats\<close>, \<open>Records\<close>, \<open>Ownership\<close>, \<open>Session\<close>, \<open>SessionRuns\<close>: \<^verbatim>\<open>winrsbox-ipc/src/framing.rs\<close>, \<^verbatim>\<open>lib.rs\<close>,
    \<^verbatim>\<open>observe/hot_stats.rs\<close>, \<^verbatim>\<open>pipe_server/*.rs\<close>. The wire format behind the locale \<open>reader\<close> (a stream that returns any pieces), the byte
    budget, admission by kernel ancestry, every arm of the connection handler, and the launcher as a step relation over
    connections, operators and failures.
  \<^item> \<open>FolderSection\<close>: the seqlock of the folder section as the list of its single stores, with readers between any two of them.
  \<^item> \<open>DirFilter\<close>, \<open>DirMerge\<close>: \<^verbatim>\<open>winrsbox-hook/src/fs/dir_filter\<close>. The byte-level walks over directory pages, and the enumeration
    state of a handle over the replies of the kernel.
  \<^item> \<open>Scan\<close>, \<open>ProcTracker\<close>, \<open>MemGuard\<close>, \<open>MemGuardSafety\<close>, \<open>InjectGuard\<close>: \<^verbatim>\<open>domains/scan.rs\<close>, \<^verbatim>\<open>winrsbox-hook/src/proc\<close>,
    \<^verbatim>\<open>memory/memory_guard\<close>, \<^verbatim>\<open>memory/inject_guard.rs\<close>. The sweeps for direct system calls, the children a guest owns, the decisions of
    the memory and injection hooks.
  \<^item> \<open>GuestCache\<close>, \<open>GuestDeny\<close>, \<open>GuestOverlay\<close>, \<open>GuestResolve\<close>, \<open>GuestOpen\<close>, \<open>GuestSafety\<close>: the file-system calls in a guest
    (\<^verbatim>\<open>winrsbox-hook/src/core/cache.rs\<close>, \<^verbatim>\<open>core/hooks\<close>, \<^verbatim>\<open>core/hooked_attrs.rs\<close>, \<^verbatim>\<open>fs/fs_hooks\<close>, \<^verbatim>\<open>domains/dev.rs\<close>). The cache and
    the question to the launcher; the denylist and device names; what the hook library writes to the overlay; one resolution of the
    object attributes for the decision and the kernel; every arm of the four calls. Each question to the launcher, the file system,
    the kernel or the memory of the guest is put at a moment of its own (\<open>ask\<close>), so the properties hold whatever changes between a
    check and the operation after it; the last theory adds the invariant of the cache over all calls (\<open>guest_reachable\<close>).

  \<^bold>\<open>How code becomes definitions.\<close> A struct is a record, an enum a datatype, an error the left side of a sum; \<^verbatim>\<open>u8\<close> to \<^verbatim>\<open>u64\<close>
  are words where they wrap or are compared with masks, lengths and addresses are \<^verbatim>\<open>nat\<close> with the checked, saturating or
  wrapping operation of the code written out. A Rust string is the list of its UTF-8 bytes. A mutex-protected state is passed
  explicitly; one critical section is one step. What the code cannot know is an argument: the failures of writes, the replies of
  the kernel, clocks, hashes, the tables of \<^verbatim>\<open>ntdll\<close>, the decoder of \<^verbatim>\<open>iced-x86\<close>. Laws they are assumed to have are named
  predicates (such as \<open>fold_lawful\<close>, \<open>redb_lawful\<close>, \<open>codec_lawful\<close>, \<open>cache_lawful\<close>, and \<open>json_lawful\<close> on the range of values that the
  library documents) with an instance that satisfies them in the witness of each property that uses them.

  \<^bold>\<open>Bounds and fuel.\<close> The admission walk visits sixteen kernel ancestors (\<^verbatim>\<open>MAX_DEPTH\<close>, the bound of the code). A reader of
  the folder section tries 10000 times (the bound of the code); the property says which turn decides. The table of enumeration
  states holds 256 handles (\<^verbatim>\<open>ENUM_STATES_CAP\<close>). The client of \<open>DirMerge\<close> that queries a directory to its end takes fuel; more than the
  number of pages and overlay children is shown to be enough. The walk over critical pages visits 4096 regions (the bound of the
  code; a counterexample shows what lies behind it). Scans work in chunks of 16 MiB and 16 KiB with 15 bytes of overlap. Where a
  recursion is not structural, its measure is the number of bytes or elements left.

  \<^bold>\<open>What is not modelled.\<close> Installation and removal of detours, trampolines and the assembly around them; DLL injection and the
  creation of the suspended process; WFP filters, job objects, mitigation policies and the trust checks of images (calls of the
  operating system with little logic of their own); security descriptors of pipes and sections; the hooks for COM, ALPC, services,
  the shell, windows and tokens, most of which compare a request with fixed lists; the command line and its formatting; logs,
  benchmarks and tests. Time-outs and threads are not modelled beyond the interleavings named above; pointers passed by a guest to
  the memory and injection hooks are values, so that a second thread which changes them during such a hook is outside the model
  (the file-system calls read them anew). Renames, deletions through handles and other information classes
  (\<^verbatim>\<open>fs_metadata_guard\<close>) are outside. Each component of this kind is listed with
  its reason in the manifest beside this development.
\<close>

end
